(* ===== verification/L4_Prelude.thy ===== *)
theory L4_Prelude
  imports Main "HOL-Library.Word"
begin

unbundle bit_operations_syntax

text \<open>
  Shared vocabulary of the development: the machine integers and byte strings of the C
  sources, the collections of rewrite rules the component theories add to, lemmas about
  words, lists and bounded buffers, the fixed-width byte codecs, and the locales that state
  the contracts several components share (a latch that never reopens, an invariant kept by
  every step, a measure that never decreases, a fixed-width codec).
\<close>

section \<open>Machine integers and byte strings\<close>

type_synonym u8 = "8 word"
type_synonym u16 = "16 word"
type_synonym u32 = "32 word"
type_synonym u64 = "64 word"
type_synonym bytes = "8 word list"

named_theorems word_nat \<open>comparisons and arithmetic of words read as natural numbers\<close>
named_theorems wire \<open>how the bytes of a wire format are read back\<close>
named_theorems wire_len \<open>lengths of the byte strings a wire format writes\<close>

lemmas [word_nat] = word_less_nat_alt word_le_nat_alt unat_word_ariths

lemma bit_in_width: "bit (w :: 'a::len word) n \<Longrightarrow> n < LENGTH('a)"
  by (rule bit_imp_le_length)

lemma bit_u8_high: "8 \<le> n \<Longrightarrow> \<not> bit (b :: u8) n"
  using bit_in_width [of b n] by auto

lemma unat_ucast_widen:
  "LENGTH('a) \<le> LENGTH('b) \<Longrightarrow> unat (ucast (w :: 'a::len word) :: 'b::len word) = unat w"
  by (simp add: unsigned_ucast_eq take_bit_nat_eq_self_iff
      unsigned_less [THEN order_less_le_trans])

lemma unat_lt: "unat (w :: 'a::len word) < 2 ^ LENGTH('a)"
  by (rule unsigned_less)

lemma unat_max: "unat (- 1 :: 'a::len word) = 2 ^ LENGTH('a) - 1"
  by (simp add: unsigned_minus_1_eq_mask mask_eq_exp_minus_1)

lemma unat_ucast_narrow:
  "unat (w :: 'a::len word) < 2 ^ LENGTH('b) \<Longrightarrow> unat (ucast w :: 'b::len word) = unat w"
  by (simp add: unsigned_ucast_eq take_bit_nat_eq_self_iff)

lemma word_of_its_unat: "unat (w :: 'a::len word) = n \<Longrightarrow> w = of_nat n"
  by auto

lemma unat_low_bits: "unat (w AND mask n) = unat (w :: 'a::len word) mod 2 ^ n"
  by (simp add: unsigned_take_bit_eq flip: take_bit_eq_mask take_bit_eq_mod)

lemma unat_high_bits: "unat (w AND NOT (mask n)) = unat (w :: 'a::len word) div 2 ^ n * 2 ^ n"
proof -
  have "(w AND NOT (mask n)) OR (w AND mask n) = w"
    by (rule bit_word_eqI) (auto simp: bit_simps)
  then have "unat w = unat (w AND NOT (mask n)) OR unat (w AND mask n)"
    by (simp flip: unsigned_or_eq)
  moreover have "unat (w AND NOT (mask n)) AND unat (w AND mask n) = 0"
  proof -
    have "(w AND NOT (mask n)) AND (w AND mask n) = 0"
      by (rule bit_word_eqI) (auto simp: bit_simps)
    then show ?thesis by (simp flip: unsigned_and_eq)
  qed
  ultimately have "unat w = unat (w AND NOT (mask n)) + unat w mod 2 ^ n"
    using disjunctive_add_eq_or unat_low_bits by metis
  then show ?thesis
    using div_mult_mod_eq [of "unat w" "2 ^ n"] by linarith
qed

lemma unat_add_no_wrap:
  "unat (a :: 'a::len word) + unat b < 2 ^ LENGTH('a) \<Longrightarrow> unat (a + b) = unat a + unat b"
  by (simp add: unat_word_ariths)

lemma unat_sub_no_wrap: "b \<le> a \<Longrightarrow> unat (a - b) = unat a - unat (b :: 'a::len word)"
  by (rule unat_sub)

lemma nat_minus_mod_wrap:
  assumes "b \<le> a" "a < 2 ^ LENGTH('a)"
  shows "unat (of_nat a - of_nat b :: 'a::len word) = a - b"
proof -
  have "of_nat b \<le> (of_nat a :: 'a word)"
    using assms by (simp add: word_le_nat_alt unat_of_nat)
  then show ?thesis
    using assms by (simp add: unat_sub unat_of_nat)
qed

section \<open>Bounded buffers\<close>

text \<open>
  A write of \<open>xs\<close> at offset \<open>off\<close> of a fixed C buffer. A write past the end is undefined
  behaviour in C and \<open>None\<close> here.
\<close>

definition put_at :: "bytes \<Rightarrow> nat \<Rightarrow> bytes \<Rightarrow> bytes option" where
  "put_at buf off xs =
     (if off + length xs \<le> length buf
      then Some (take off buf @ xs @ drop (off + length xs) buf) else None)"

lemma put_at_length: "put_at buf off xs = Some buf' \<Longrightarrow> length buf' = length buf"
  by (auto simp: put_at_def split: if_splits)

lemma put_at_Some_iff: "(\<exists>b. put_at buf off xs = Some b) \<longleftrightarrow> off + length xs \<le> length buf"
  by (simp add: put_at_def)

lemma put_at_None_iff: "put_at buf off xs = None \<longleftrightarrow> length buf < off + length xs"
  by (auto simp: put_at_def)

lemma take_put_at:
  assumes "put_at buf off xs = Some b"
  shows "take (off + length xs) b = take off buf @ xs"
  using assms by (auto simp: put_at_def split: if_splits)

lemma take_put_at_before:
  assumes "put_at buf off xs = Some b" "n \<le> off"
  shows "take n b = take n buf"
  using assms by (auto simp: put_at_def split: if_splits)

definition slice_at :: "nat \<Rightarrow> nat \<Rightarrow> 'a list \<Rightarrow> 'a list" where
  "slice_at off n xs = take n (drop off xs)"

lemma slice_at_length [simp]: "off + n \<le> length xs \<Longrightarrow> length (slice_at off n xs) = n"
  by (simp add: slice_at_def)

lemma slice_at_append_skip:
  "length xs \<le> off \<Longrightarrow> slice_at off n (xs @ ys) = slice_at (off - length xs) n ys"
  by (simp add: slice_at_def)

lemma slice_at_append_here: "length xs = n \<Longrightarrow> slice_at 0 n (xs @ ys) = xs"
  by (simp add: slice_at_def)

section \<open>Lists\<close>

lemma length_one_cases: "length xs = Suc 0 \<Longrightarrow> \<exists>a. xs = [a]"
  by (cases xs) auto

lemma list_of_length_2: "length xs = 2 \<Longrightarrow> \<exists>a b. xs = [a, b]"
  by (auto simp: numeral_2_eq_2 length_Suc_conv)

lemma list_of_length_4: "length xs = 4 \<Longrightarrow> \<exists>a b c d. xs = [a, b, c, d]"
  by (auto simp: numeral_eq_Suc length_Suc_conv)

lemma foldl_append_run: "foldl f s (xs @ ys) = foldl f (foldl f s xs) ys"
  by simp

lemma drop_glue: "m = n + k \<Longrightarrow> take k (drop n xs) @ drop m xs = drop n xs"
  by (metis append_take_drop_id drop_drop add.commute)

lemma take_drop_rest: "length xs = n + k \<Longrightarrow> take k (drop n xs) = drop n xs"
  by simp

section \<open>Byte order\<close>

text \<open>Big-endian (network order) fields, as RTP, RTCP and MQTT write them byte by byte.\<close>

definition be16 :: "u16 \<Rightarrow> bytes" where
  "be16 v = [ucast (drop_bit 8 v), ucast v]"

definition rd_be16 :: "u8 \<Rightarrow> u8 \<Rightarrow> u16" where
  "rd_be16 a b = push_bit 8 (ucast a) OR ucast b"

definition be32 :: "u32 \<Rightarrow> bytes" where
  "be32 v = [ucast (drop_bit 24 v), ucast (drop_bit 16 v), ucast (drop_bit 8 v), ucast v]"

definition rd_be32 :: "u8 \<Rightarrow> u8 \<Rightarrow> u8 \<Rightarrow> u8 \<Rightarrow> u32" where
  "rd_be32 a b c d =
     push_bit 24 (ucast a) OR push_bit 16 (ucast b) OR push_bit 8 (ucast c) OR ucast d"

lemma be16_length [wire_len, simp]: "length (be16 v) = 2"
  by (simp add: be16_def)

lemma be32_length [wire_len, simp]: "length (be32 v) = 4"
  by (simp add: be32_def)

lemma rd_be16_be16 [wire]: "rd_be16 (be16 v ! 0) (be16 v ! Suc 0) = v"
  by (rule bit_word_eqI) (auto simp: rd_be16_def be16_def bit_simps)

lemma be16_rd_be16 [wire]: "be16 (rd_be16 a b) = [a, b]"
  by (auto simp: be16_def rd_be16_def bit_simps bit_u8_high intro!: bit_word_eqI)

lemma rd_be32_be32 [wire]:
  "rd_be32 (be32 v ! 0) (be32 v ! Suc 0) (be32 v ! 2) (be32 v ! 3) = v"
proof (rule bit_word_eqI)
  fix n assume "n < LENGTH(32)"
  then consider "n < 8" | "8 \<le> n" "n < 16" | "16 \<le> n" "n < 24" | "24 \<le> n" "n < 32"
    by fastforce
  then show "bit (rd_be32 (be32 v ! 0) (be32 v ! Suc 0) (be32 v ! 2) (be32 v ! 3)) n = bit v n"
    by cases (auto simp: rd_be32_def be32_def bit_simps)
qed

lemma be16_inject: "be16 a = be16 b \<longleftrightarrow> a = b"
  by (metis rd_be16_be16)

lemma be32_inject: "be32 a = be32 b \<longleftrightarrow> a = b"
  by (metis rd_be32_be32)

section \<open>Contracts shared by the components\<close>

text \<open>
  A run of a component is the left fold of its step over the list of events. Three
  contracts recur: an invariant every step keeps, a latch that no step reopens (together
  with the part of the state it freezes), and a measure no step lowers.
\<close>

locale step_invariant =
  fixes step :: "'s \<Rightarrow> 'e \<Rightarrow> 's" and inv :: "'s \<Rightarrow> bool"
  assumes inv_step: "inv s \<Longrightarrow> inv (step s e)"
begin

lemma inv_run: "inv s \<Longrightarrow> inv (foldl step s es)"
  by (induction es arbitrary: s) (auto intro: inv_step)

lemma inv_run_prefix: "inv s \<Longrightarrow> inv (foldl step s (take n es))"
  by (rule inv_run)

end

locale latch =
  fixes step :: "'s \<Rightarrow> 'e \<Rightarrow> 's" and latched :: "'s \<Rightarrow> bool" and view :: "'s \<Rightarrow> 'v"
  assumes latched_step: "latched s \<Longrightarrow> latched (step s e)"
    and view_step: "latched s \<Longrightarrow> view (step s e) = view s"
begin

lemma latched_run: "latched s \<Longrightarrow> latched (foldl step s es)"
  by (induction es arbitrary: s) (auto intro: latched_step)

lemma view_run: "latched s \<Longrightarrow> view (foldl step s es) = view s"
  by (induction es arbitrary: s) (simp_all add: latched_step view_step)

text \<open>Once a prefix of a run has latched, the rest of the run cannot change the view.\<close>

lemma view_frozen_after:
  assumes "latched (foldl step s es)"
  shows "latched (foldl step s (es @ fs)) \<and> view (foldl step s (es @ fs)) = view (foldl step s es)"
  using assms by (simp add: latched_run view_run)

text \<open>A run that ends open was open all along.\<close>

lemma open_prefix:
  assumes "\<not> latched (foldl step s (es @ fs))"
  shows "\<not> latched (foldl step s es)"
  using assms latched_run by fastforce

end

locale growing =
  fixes step :: "'s \<Rightarrow> 'e \<Rightarrow> 's" and m :: "'s \<Rightarrow> 'o::preorder"
  assumes grows_step: "m s \<le> m (step s e)"
begin

lemma grows_run: "m s \<le> m (foldl step s es)"
proof (induction es arbitrary: s)
  case Nil
  show ?case by simp
next
  case (Cons e es)
  have "m s \<le> m (step s e)" by (rule grows_step)
  also have "\<dots> \<le> m (foldl step (step s e) es)" by (rule Cons.IH)
  finally show ?case by simp
qed

lemma grows_between: "m (foldl step s es) \<le> m (foldl step s (es @ fs))"
  by (simp add: grows_run)

end

text \<open>
  A fixed-width codec: what the reader promises about a value the writer laid down at the
  head of a byte string. A frame is a concatenation of such fields, read back one by one.
\<close>

locale fixed_codec =
  fixes put :: "'a \<Rightarrow> bytes" and get :: "bytes \<Rightarrow> 'a" and width :: nat
  assumes put_width: "length (put v) = width"
    and get_put: "get (put v @ rest) = v"
    and put_get: "length bs = width \<Longrightarrow> put (get bs) = bs"
    and get_prefix: "width \<le> length bs \<Longrightarrow> get (bs @ rest) = get bs"
begin

lemma get_put_nil: "get (put v) = v"
  using get_put [of v "[]"] by simp

lemma drop_put: "drop width (put v @ rest) = rest"
  by (simp add: put_width)

lemma put_injective: "put a = put b \<longleftrightarrow> a = b"
  by (metis get_put_nil)

lemma get_take: "width \<le> length bs \<Longrightarrow> get (take width bs) = get bs"
  using get_prefix [of "take width bs" "drop width bs"] by simp

lemma put_get_take: "width \<le> length bs \<Longrightarrow> put (get bs) = take width bs"
  using put_get [of "take width bs"] get_take by simp

end

section \<open>Ring buffers and bounded queues\<close>

text \<open>The \<open>n\<close> elements of the array \<open>xs\<close> from index \<open>h\<close> on, wrapping around at its end.\<close>

definition ring_view :: "'a list \<Rightarrow> nat \<Rightarrow> nat \<Rightarrow> 'a list" where
  "ring_view xs h n = map (\<lambda>i. xs ! ((h + i) mod length xs)) [0..<n]"

lemma ring_view_length [simp]: "length (ring_view xs h n) = n"
  by (simp add: ring_view_def)

lemma ring_view_nth: "i < n \<Longrightarrow> ring_view xs h n ! i = xs ! ((h + i) mod length xs)"
  by (simp add: ring_view_def)

lemma ring_view_empty [simp]: "ring_view xs h 0 = []"
  by (simp add: ring_view_def)

lemma ring_index_apart:
  assumes "i < n" "n \<le> c" "j < n" "i \<noteq> j"
  shows "(h + i) mod c \<noteq> (h + j) mod (c :: nat)"
proof -
  have "int c dvd int (h + i) - int (h + j) \<Longrightarrow> i = j"
    using assms(1-3) zdvd_imp_le [of "int c" "int i - int j"] zdvd_imp_le [of "int c" "int j - int i"]
    by (cases i j rule: linorder_cases) (auto simp: dvd_diff_commute)
  then show ?thesis
    using assms(4) mod_eq_dvd_iff [of "int (h + i)" "int c" "int (h + j)"] by (metis of_nat_mod)
qed

lemma ring_view_update:
  assumes "i < n" "n \<le> length xs"
  shows "ring_view (xs[(h + i) mod length xs := x]) h n = (ring_view xs h n)[i := x]"
proof (rule nth_equalityI)
  fix j assume "j < length (ring_view (xs[(h + i) mod length xs := x]) h n)"
  then have j: "j < n" by simp
  have "(h + j) mod length xs < length xs" using assms by (intro mod_less_divisor) linarith
  then show "ring_view (xs[(h + i) mod length xs := x]) h n ! j = (ring_view xs h n)[i := x] ! j"
    using j assms ring_index_apart [OF assms j, of h]
    by (cases "i = j") (simp_all add: ring_view_nth nth_list_update)
qed simp

lemma ring_view_snoc: "ring_view xs h (Suc n) = ring_view xs h n @ [xs ! ((h + n) mod length xs)]"
  by (simp add: ring_view_def)

lemma ring_view_put:
  assumes "n < length xs"
  shows "ring_view (xs[(h + n) mod length xs := x]) h (Suc n) = ring_view xs h n @ [x]"
proof -
  have "ring_view (xs[(h + n) mod length xs := x]) h (Suc n) = (ring_view xs h (Suc n))[n := x]"
    using assms by (intro ring_view_update) auto
  also have "\<dots> = ring_view xs h n @ [x]"
    by (simp add: ring_view_snoc list_update_append)
  finally show ?thesis .
qed

lemma ring_view_take:
  "ring_view xs h (Suc n) = xs ! (h mod length xs) # ring_view xs ((h + 1) mod length xs) n"
  by (rule nth_equalityI)
    (auto simp: ring_view_nth nth_Cons mod_simps split: nat.split)

text \<open>
  What a bounded first-in first-out queue promises its clients, and what follows for every
  sequence of operations: the elements taken are the elements put, in order, and those still
  waiting are the rest.
\<close>

locale bounded_fifo =
  fixes view :: "'s \<Rightarrow> 'a list" and put :: "'s \<Rightarrow> 'a \<Rightarrow> 's option"
    and get :: "'s \<Rightarrow> ('a \<times> 's) option" and cap :: nat and ok :: "'s \<Rightarrow> bool"
  assumes put_full: "ok s \<Longrightarrow> put s x = None \<longleftrightarrow> length (view s) = cap"
    and put_view: "ok s \<Longrightarrow> put s x = Some s' \<Longrightarrow> ok s' \<and> view s' = view s @ [x]"
    and get_empty: "ok s \<Longrightarrow> get s = None \<longleftrightarrow> view s = []"
    and get_view: "ok s \<Longrightarrow> get s = Some (x, s') \<Longrightarrow> ok s' \<and> view s = x # view s'"
    and within: "ok s \<Longrightarrow> length (view s) \<le> cap"
begin

fun fifo_exec :: "'s \<times> 'a list \<times> 'a list \<Rightarrow> 'a option \<Rightarrow> 's \<times> 'a list \<times> 'a list" where
  "fifo_exec (s, ins, outs) (Some x) =
     (case put s x of None \<Rightarrow> (s, ins, outs) | Some s' \<Rightarrow> (s', ins @ [x], outs))"
| "fifo_exec (s, ins, outs) None =
     (case get s of None \<Rightarrow> (s, ins, outs) | Some (x, s') \<Rightarrow> (s', ins, outs @ [x]))"

lemma fifo_order:
  assumes "ok s" "ins = outs @ view s"
  shows "case foldl fifo_exec (s, ins, outs) es of (s', ins', outs') \<Rightarrow>
    ok s' \<and> ins' = outs' @ view s' \<and> length (view s') \<le> cap"
  using assms
proof (induction es arbitrary: s ins outs)
  case Nil
  then show ?case by (simp add: within)
next
  case (Cons e es)
  have "case fifo_exec (s, ins, outs) e of (s', ins', outs') \<Rightarrow> ok s' \<and> ins' = outs' @ view s'"
  proof (cases e)
    case None
    then show ?thesis
      using Cons.prems get_view [OF Cons.prems(1)] by (simp split: option.split)
  next
    case (Some x)
    then show ?thesis
      using Cons.prems put_view [OF Cons.prems(1)] by (simp split: option.split)
  qed
  then show ?case using Cons.IH by (cases "fifo_exec (s, ins, outs) e") auto
qed

end

end
