(* ===== verification/Capture_Limits.thy ===== *)
theory Capture_Limits
  imports L4_Prelude
begin

text \<open>
  The status codes and rectangles of \<open>tools/l4capture/include/l4capture/types.h\<close> and the
  admission arithmetic of \<open>tools/l4capture/src/common/limits.c\<close>: overflow-checked products and
  sums of \<open>size_t\<close>, the BGRA raster layout, and the ledger that reserves memory before an
  allocation. \<open>size_t\<close> is \<open>'s word\<close> for any width \<open>'s\<close>; the tools ship as x86 and x64
  binaries, so the theorems hold for every width of at least 32 bits.

  Conventions of the whole development: a pointer parameter that the code only checks for
  \<open>NULL\<close> before using it is modelled by the object it points at, so the \<open>NULL\<close> early
  return is the one branch that has no counterpart; a pointer that may be absent in normal
  operation is an \<open>option\<close>. A status-returning function that fills an out-parameter on
  success returns \<open>Inl status\<close> or \<open>Inr value\<close>; one that updates a state in place returns the
  new state together with the status.
\<close>

section \<open>Status codes and rectangles\<close>

datatype l4c_status =
    L4C_OK | L4C_ERR_NO_FRAME | L4C_ERR_DEVICE_LOST | L4C_ERR_SESSION_UNAVAILABLE
  | L4C_ERR_OUT_OF_MEMORY | L4C_ERR_INVALID_ARG | L4C_ERR_OVERFLOW | L4C_ERR_PROTOCOL
  | L4C_ERR_DEADLINE_EXPIRED | L4C_ERR_PIPE_BROKEN | L4C_ERR_NETWORK | L4C_ERR_FATAL

text \<open>The \<open>int32_t\<close> fields are integers; \<open>int32_ok\<close> says that one is in range.\<close>

record l4c_rect =
  left :: int
  top :: int
  right :: int
  bottom :: int

definition int32_ok :: "int \<Rightarrow> bool" where
  "int32_ok v \<longleftrightarrow> - (2 ^ 31) \<le> v \<and> v < 2 ^ 31"

definition rect_ok :: "l4c_rect \<Rightarrow> bool" where
  "rect_ok r \<longleftrightarrow> int32_ok (left r) \<and> int32_ok (top r) \<and> int32_ok (right r) \<and> int32_ok (bottom r)"

section \<open>Checked arithmetic and the raster layout\<close>

abbreviation L4C_MAX_PIXELS_AREA :: u64 where "L4C_MAX_PIXELS_AREA \<equiv> 8294400"
abbreviation L4C_ADMISSION_MEMORY_LIMIT :: "'s::len word"
  where "L4C_ADMISSION_MEMORY_LIMIT \<equiv> 134217728"

definition l4c_checked_mul :: "'s::len word \<Rightarrow> 's word \<Rightarrow> l4c_status + 's word" where
  "l4c_checked_mul a b =
     (if b \<noteq> 0 \<and> (- 1) div b < a then Inl L4C_ERR_OVERFLOW else Inr (a * b))"

definition l4c_checked_add :: "'s::len word \<Rightarrow> 's word \<Rightarrow> l4c_status + 's word" where
  "l4c_checked_add a b = (if (- 1) - b < a then Inl L4C_ERR_OVERFLOW else Inr (a + b))"

record 'w l4c_raster_layout =
  stride :: u32
  raster_bytes :: 'w

definition l4c_bgra_layout :: "u32 \<Rightarrow> u32 \<Rightarrow> l4c_status + ('s::len) word l4c_raster_layout" where
  "l4c_bgra_layout width height =
     (if width = 0 \<or> height = 0 then Inl L4C_ERR_INVALID_ARG
      else if L4C_MAX_PIXELS_AREA < ucast width * ucast height then Inl L4C_ERR_OVERFLOW
      else
        let st = (ucast width * 4 + 15 :: u64) AND NOT 15 in
        if 2147483647 < st then Inl L4C_ERR_OVERFLOW
        else case l4c_checked_mul (ucast st :: 's word) (ucast height) of
            Inl _ \<Rightarrow> Inl L4C_ERR_OVERFLOW
          | Inr n \<Rightarrow>
              if L4C_ADMISSION_MEMORY_LIMIT < n then Inl L4C_ERR_OVERFLOW
              else Inr \<lparr>stride = ucast st, raster_bytes = n\<rparr>)"

definition l4c_rect_layout :: "l4c_rect \<Rightarrow> l4c_status + ('s::len) word l4c_raster_layout" where
  "l4c_rect_layout rect =
     (let width = right rect - left rect; height = bottom rect - top rect in
      if width \<le> 0 \<or> height \<le> 0 then Inl L4C_ERR_INVALID_ARG
      else if 2 ^ 32 - 1 < width \<or> 2 ^ 32 - 1 < height then Inl L4C_ERR_OVERFLOW
      else l4c_bgra_layout (word_of_int width) (word_of_int height))"

section \<open>The memory ledger\<close>

definition l4c_memory_reserve :: "'s::len word \<Rightarrow> 's word \<Rightarrow> 's word \<times> l4c_status" where
  "l4c_memory_reserve used n =
     (case l4c_checked_add used n of
        Inl _ \<Rightarrow> (used, L4C_ERR_OUT_OF_MEMORY)
      | Inr tot \<Rightarrow>
          if L4C_ADMISSION_MEMORY_LIMIT < tot then (used, L4C_ERR_OUT_OF_MEMORY)
          else (tot, L4C_OK))"

definition l4c_memory_release :: "'s::len word \<Rightarrow> 's word \<Rightarrow> 's word" where
  "l4c_memory_release used n = (if n \<le> used then used - n else used)"

datatype 'n ledger_op = Reserve 'n | Release 'n

fun ledger_step :: "'s::len word \<Rightarrow> 's word ledger_op \<Rightarrow> 's word" where
  "ledger_step used (Reserve n) = fst (l4c_memory_reserve used n)"
| "ledger_step used (Release n) = l4c_memory_release used n"

section \<open>Checked arithmetic is exact\<close>

lemma checked_mul_Inr:
  "l4c_checked_mul a b = Inr c \<longleftrightarrow> unat a * unat b < 2 ^ LENGTH('s) \<and> c = (a :: 's::len word) * b"
proof (cases "b = 0")
  case True
  then show ?thesis by (auto simp: l4c_checked_mul_def)
next
  case False
  then have b: "0 < unat b" by (simp add: unat_gt_0)
  have "a \<le> (- 1) div b \<longleftrightarrow> unat a \<le> (2 ^ LENGTH('s) - 1) div unat b"
    by (simp add: word_le_nat_alt unat_div unat_max)
  also have "\<dots> \<longleftrightarrow> unat a * unat b \<le> 2 ^ LENGTH('s) - 1"
    using b by (simp add: less_eq_div_iff_mult_less_eq)
  also have "\<dots> \<longleftrightarrow> unat a * unat b < 2 ^ LENGTH('s)"
    by (simp add: less_eq_Suc_le Suc_diff_1 le_diff_conv2)
  finally show ?thesis
    using False by (auto simp: l4c_checked_mul_def not_less)
qed

lemma checked_mul_value:
  "l4c_checked_mul a b = Inr c \<Longrightarrow> unat c = unat a * unat (b :: 's::len word)"
  by (auto simp: checked_mul_Inr unat_mult_lem)

lemma checked_add_Inr:
  "l4c_checked_add a b = Inr c \<longleftrightarrow> unat a + unat b < 2 ^ LENGTH('s) \<and> c = (a :: 's::len word) + b"
proof -
  have "a \<le> (- 1) - b \<longleftrightarrow> unat a \<le> 2 ^ LENGTH('s) - 1 - unat b"
    by (simp only: word_le_nat_alt unat_sub [OF max_word_max] unat_max)
  also have "\<dots> \<longleftrightarrow> unat a + unat b < 2 ^ LENGTH('s)"
    using unat_lt [of b] by linarith
  finally show ?thesis
    by (auto simp: l4c_checked_add_def not_less)
qed

lemma checked_add_value:
  "l4c_checked_add a b = Inr c \<Longrightarrow> unat c = unat a + unat (b :: 's::len word)"
  by (auto simp: checked_add_Inr unat_add_no_wrap)

section \<open>The raster layout in natural numbers\<close>

definition align16_nat :: "nat \<Rightarrow> nat" where
  "align16_nat n = (n + 15) div 16 * 16"

lemma align16_nat_bounds: "n \<le> align16_nat n \<and> align16_nat n < n + 16 \<and> 16 dvd align16_nat n"
  by (auto simp: align16_nat_def)

lemma and_not_15: "(w :: u64) AND NOT 15 = push_bit 4 (drop_bit 4 w)"
proof (rule bit_word_eqI)
  fix n assume n: "n < LENGTH(64)"
  have m: "(15 :: u64) = mask 4" by (simp add: mask_eq_exp_minus_1)
  show "bit (w AND NOT 15) n = bit (push_bit 4 (drop_bit 4 w)) n"
    using n unfolding m by (auto simp: bit_simps)
qed

lemma unat_and_not_15: "unat ((w :: u64) AND NOT 15) = unat w div 16 * 16"
proof -
  have "unat w div 16 * 16 < 2 ^ 64"
    using unat_lt [of w] by (simp add: le_less_trans [OF div_times_less_eq_dividend])
  then show ?thesis
    unfolding and_not_15
    by (simp add: push_bit_eq_mult drop_bit_eq_div unat_word_ariths unat_div mult.commute)
qed

lemma unat_bgra_stride:
  "unat ((ucast width * 4 + 15 :: u64) AND NOT 15) = align16_nat (4 * unat (width :: u32))"
proof -
  have w: "unat width < 2 ^ 32" using unat_lt [of width] by simp
  have "unat (ucast width * 4 + 15 :: u64) = 4 * unat width + 15"
    using w by (simp add: unat_word_ariths unat_ucast_widen)
  then show ?thesis by (simp only: unat_and_not_15 align16_nat_def)
qed

lemma area_check:
  "L4C_MAX_PIXELS_AREA < ucast (width :: u32) * ucast (height :: u32) \<longleftrightarrow>
     8294400 < unat width * unat height"
proof -
  have "unat width * unat height < 2 ^ 32 * 2 ^ 32"
    using unat_lt [of width] unat_lt [of height] by (intro mult_strict_mono) auto
  then show ?thesis
    by (simp add: word_less_nat_alt unat_word_ariths unat_ucast_widen)
qed

lemma unat_admission_limit:
  "32 \<le> LENGTH('s) \<Longrightarrow> unat (L4C_ADMISSION_MEMORY_LIMIT :: 's::len word) = 134217728"
proof -
  assume "32 \<le> LENGTH('s)"
  then have "(2::nat) ^ 32 \<le> 2 ^ LENGTH('s)" by (rule power_increasing) simp
  then have "(134217728 :: nat) < 2 ^ LENGTH('s)" by (rule less_le_trans [rotated]) simp
  then have "unat (of_nat 134217728 :: 's word) = 134217728" by (simp only: unat_of_nat mod_less)
  then show ?thesis by simp
qed

lemma over_limit:
  "32 \<le> LENGTH('s) \<Longrightarrow> L4C_ADMISSION_MEMORY_LIMIT < (n :: 's::len word) \<longleftrightarrow> 134217728 < unat n"
  by (simp only: word_less_nat_alt unat_admission_limit)

text \<open>
  The three comparisons of the code (area, stride, product) collapse: with the area bounded
  the stride fits 31 bits and the product fits every \<open>size_t\<close>, so the memory limit decides.
\<close>

lemma bgra_layout_cases:
  fixes width height :: u32
  assumes s: "32 \<le> LENGTH('s::len)" and nz: "width \<noteq> 0" "height \<noteq> 0"
    and area: "unat width * unat height \<le> 8294400"
  shows "(l4c_bgra_layout width height :: l4c_status + 's word l4c_raster_layout) =
    (let st = align16_nat (4 * unat width); n = st * unat height in
     if 134217728 < n then Inl L4C_ERR_OVERFLOW
     else Inr \<lparr>stride = of_nat st, raster_bytes = of_nat n\<rparr>)"
proof -
  let ?w = "unat width" and ?h = "unat height"
  define st where "st = align16_nat (4 * ?w)"
  let ?st = "(ucast width * 4 + 15 :: u64) AND NOT 15"
  have h1: "1 \<le> ?h" and w1: "1 \<le> ?w"
    using nz by (auto simp: Suc_le_eq unat_gt_0)
  have "?w * 1 \<le> ?w * ?h" using h1 by (rule mult_le_mono2)
  then have wb: "?w \<le> 8294400" using area by linarith
  have "1 * ?h \<le> ?w * ?h" using w1 by (rule mult_le_mono1)
  then have hb: "?h \<le> 8294400" using area by linarith
  have st_le: "st \<le> 4 * ?w + 15" using align16_nat_bounds [of "4 * ?w"] by (simp add: st_def)
  have "st * ?h \<le> (4 * ?w + 15) * ?h" using st_le by (rule mult_le_mono1)
  also have "\<dots> = 4 * (?w * ?h) + 15 * ?h" by (simp add: algebra_simps)
  also have "\<dots> \<le> 4 * 8294400 + 15 * 8294400" using area hb by linarith
  finally have n_small: "st * ?h \<le> 157593600" by simp
  have pow: "(2::nat) ^ 32 \<le> 2 ^ LENGTH('s)" using s by (rule power_increasing) simp
  have ust: "unat ?st = st" by (simp only: unat_bgra_stride st_def)
  have st_word: "unat (ucast ?st :: 's word) = st"
    using ust st_le wb pow by (subst unat_ucast_narrow) auto
  have h_word: "unat (ucast height :: 's word) = ?h"
    using s by (simp add: unat_ucast_widen)
  have mul: "l4c_checked_mul (ucast ?st :: 's word) (ucast height) =
      Inr (ucast ?st * ucast height)"
    unfolding checked_mul_Inr st_word h_word using n_small pow by simp
  have n_word: "unat (ucast ?st * ucast height :: 's word) = st * ?h"
    using checked_mul_value [OF mul] by (simp only: st_word h_word)
  have narea: "\<not> 8294400 < ?w * ?h" using area by simp
  have small: "\<not> 2147483647 < ?st"
    using st_le wb by (simp only: word_less_nat_alt ust) simp
  have "unat (ucast ?st :: u32) = st"
    using ust st_le wb by (subst unat_ucast_narrow) auto
  then have st32: "(ucast ?st :: u32) = of_nat st"
    by (rule word_of_its_unat)
  have n_eq: "(ucast ?st * ucast height :: 's word) = of_nat (st * ?h)"
    using n_word by (rule word_of_its_unat)
  have "(l4c_bgra_layout width height :: l4c_status + 's word l4c_raster_layout) =
      (if L4C_ADMISSION_MEMORY_LIMIT < (ucast ?st * ucast height :: 's word)
       then Inl L4C_ERR_OVERFLOW
       else Inr \<lparr>stride = ucast ?st, raster_bytes = ucast ?st * ucast height\<rparr>)"
    unfolding l4c_bgra_layout_def area_check Let_def mul
    by (simp only: nz narea small if_False sum.case simp_thms)
  then show ?thesis
    unfolding over_limit [OF s] st32 n_eq n_word [unfolded n_eq] by (simp only: Let_def st_def)
qed

section \<open>Properties\<close>

text \<open>\<open>l4c_bgra_layout\<close> accepts a raster exactly when it has pixels, its area is at most
  8294400 and its padded size is at most the 128 MiB admission limit; then the stride is the
  row size \<open>4 * width\<close> rounded up to 16 and the byte count is \<open>stride * height\<close> computed
  without wrap-around, on every \<open>size_t\<close> of at least 32 bits.\<close>

theorem bgra_layout_exact:
  fixes width height :: u32
  assumes "32 \<le> LENGTH('s::len)"
  shows "(l4c_bgra_layout width height = Inr (l :: 's word l4c_raster_layout)) \<longleftrightarrow>
    0 < unat width \<and> 0 < unat height \<and> unat width * unat height \<le> 8294400 \<and>
    align16_nat (4 * unat width) * unat height \<le> 134217728 \<and>
    unat (stride l) = align16_nat (4 * unat width) \<and>
    unat (raster_bytes l) = align16_nat (4 * unat width) * unat height"
proof (cases "width = 0 \<or> height = 0 \<or> 8294400 < unat width * unat height")
  case True
  then show ?thesis
    by (auto simp: l4c_bgra_layout_def area_check)
next
  case False
  then have nz: "width \<noteq> 0" "height \<noteq> 0" and area: "unat width * unat height \<le> 8294400"
    by auto
  let ?st = "align16_nat (4 * unat width)"
  let ?n = "?st * unat height"
  have pos: "0 < unat width" "0 < unat height" using nz by (simp_all add: unat_gt_0)
  have "unat width * 1 \<le> unat width * unat height" using pos by (intro mult_le_mono2) simp
  then have "unat width \<le> 8294400" using area by linarith
  then have "?st < 2 ^ 32" using align16_nat_bounds [of "4 * unat width"] by simp
  then have st: "unat (of_nat ?st :: u32) = ?st" by (simp add: unat_of_nat)
  have pow: "(2::nat) ^ 32 \<le> 2 ^ LENGTH('s)" using assms by (rule power_increasing) simp
  have n: "unat (of_nat ?n :: 's word) = ?n" if "?n \<le> 134217728"
    using that pow by (simp add: unat_of_nat del: of_nat_mult)
  show ?thesis
  proof (cases "134217728 < ?n")
    case True
    then show ?thesis
      using bgra_layout_cases [OF assms nz area] by (simp add: Let_def)
  next
    case fits: False
    then have layout: "l4c_bgra_layout width height =
        Inr \<lparr>stride = of_nat ?st, raster_bytes = (of_nat ?n :: 's word)\<rparr>"
      using bgra_layout_cases [OF assms nz area] by (simp add: Let_def)
    have n': "unat (of_nat ?n :: 's word) = ?n" using n fits by simp
    have "\<lparr>stride = of_nat ?st, raster_bytes = of_nat ?n\<rparr> = l \<longleftrightarrow>
        unat (stride l) = ?st \<and> unat (raster_bytes l) = ?n"
    proof
      assume "\<lparr>stride = of_nat ?st, raster_bytes = of_nat ?n\<rparr> = l"
      then have "stride l = of_nat ?st" "raster_bytes l = of_nat ?n" by (metis l4c_raster_layout.select_convs)+
      then show "unat (stride l) = ?st \<and> unat (raster_bytes l) = ?n" by (simp only: st n' simp_thms)
    next
      assume "unat (stride l) = ?st \<and> unat (raster_bytes l) = ?n"
      then have "stride l = of_nat ?st" "raster_bytes l = of_nat ?n"
        by (blast intro: word_of_its_unat)+
      then show "\<lparr>stride = of_nat ?st, raster_bytes = of_nat ?n\<rparr> = l"
        by (cases l) (simp del: of_nat_mult)
    qed
    then show ?thesis
      using layout pos area fits by auto
  qed
qed

theorem bgra_layout_exact_witness:
  "32 \<le> LENGTH(64) \<and>
   l4c_bgra_layout 1366 768 = Inr \<lparr>stride = 5472, raster_bytes = (4202496 :: 64 word)\<rparr>"
  using bgra_layout_exact [where 's = 64, of 1366 768
      "\<lparr>stride = 5472, raster_bytes = (4202496 :: 64 word)\<rparr>"]
  by (simp add: align16_nat_def)

lemma reserve_exact:
  assumes "32 \<le> LENGTH('s)" "unat used \<le> 134217728"
  shows "l4c_memory_reserve (used :: 's::len word) n =
    (if unat used + unat n \<le> 134217728 then (used + n, L4C_OK) else (used, L4C_ERR_OUT_OF_MEMORY))"
proof -
  have pow: "(2::nat) ^ 32 \<le> 2 ^ LENGTH('s)" using assms(1) by (rule power_increasing) simp
  show ?thesis
  proof (cases "unat used + unat n < 2 ^ LENGTH('s)")
    case True
    then have "l4c_checked_add used n = Inr (used + n)" by (simp add: checked_add_Inr)
    then show ?thesis
      using True by (simp add: l4c_memory_reserve_def over_limit [OF assms(1)]
          unat_add_no_wrap not_less)
  next
    case False
    then obtain e where "l4c_checked_add used n = Inl e"
      using checked_add_Inr by (cases "l4c_checked_add used n") blast+
    then show ?thesis
      using False pow by (auto simp: l4c_memory_reserve_def)
  qed
qed

lemma ledger_step_bound:
  assumes "32 \<le> LENGTH('s)" "unat used \<le> 134217728"
  shows "unat (ledger_step (used :: 's::len word) e) \<le> 134217728"
  using assms(2)
  by (cases e) (auto simp: reserve_exact [OF assms] unat_add_no_wrap l4c_memory_release_def
      unat_sub word_le_nat_alt unat_word_ariths intro: mod_less_eq_dividend [THEN le_trans])

interpretation ledger32: step_invariant
  "ledger_step :: 32 word \<Rightarrow> _" "\<lambda>used. unat used \<le> 134217728"
  by unfold_locales (rule ledger_step_bound; simp)

interpretation ledger64: step_invariant
  "ledger_step :: 64 word \<Rightarrow> _" "\<lambda>used. unat used \<le> 134217728"
  by unfold_locales (rule ledger_step_bound; simp)

lemma ledger_reserve_release:
  fixes used n :: "'s::len word"
  assumes "32 \<le> LENGTH('s)" "unat used \<le> 134217728"
  shows "let (used', st) = l4c_memory_reserve used n in
      if unat used + unat n \<le> 134217728
      then st = L4C_OK \<and> unat used' = unat used + unat n \<and> l4c_memory_release used' n = used
      else st = L4C_ERR_OUT_OF_MEMORY \<and> used' = used"
proof -
  have "(134217728 :: nat) < 2 ^ 32" by simp
  also have "\<dots> \<le> 2 ^ LENGTH('s)" using assms(1) by (rule power_increasing) simp
  finally have pow: "(134217728 :: nat) < 2 ^ LENGTH('s)" .
  have sum: "unat (used + n) = unat used + unat n" if "unat used + unat n \<le> 134217728"
    using that pow by (simp add: unat_add_no_wrap)
  moreover from this have "n \<le> used + n" if "unat used + unat n \<le> 134217728"
    using that by (simp add: word_le_nat_alt)
  ultimately show ?thesis
    using reserve_exact [OF assms, of n] by (auto simp: l4c_memory_release_def)
qed

text \<open>C35: the memory ledger is sound on both shipped builds, with sizes of 32 and of 64 bits.
  Whatever sequence of reservations and releases is run from an empty ledger, the amount in use
  never exceeds 128 MiB; and a reservation is granted exactly when it keeps this bound, adds exactly
  its size, and releasing it restores the ledger, while a refused one leaves it alone.\<close>

theorem memory_ledger_sound:
  "unat (foldl ledger_step (0 :: 32 word) es32) \<le> 134217728 \<and>
   unat (foldl ledger_step (0 :: 64 word) es64) \<le> 134217728 \<and>
   (let used = foldl ledger_step (0 :: 32 word) es32; (used', st) = l4c_memory_reserve used n32 in
      if unat used + unat n32 \<le> 134217728
      then st = L4C_OK \<and> unat used' = unat used + unat n32 \<and> l4c_memory_release used' n32 = used
      else st = L4C_ERR_OUT_OF_MEMORY \<and> used' = used) \<and>
   (let used = foldl ledger_step (0 :: 64 word) es64; (used', st) = l4c_memory_reserve used n64 in
      if unat used + unat n64 \<le> 134217728
      then st = L4C_OK \<and> unat used' = unat used + unat n64 \<and> l4c_memory_release used' n64 = used
      else st = L4C_ERR_OUT_OF_MEMORY \<and> used' = used)"
proof -
  have b32: "unat (foldl ledger_step (0 :: 32 word) es32) \<le> 134217728"
    by (rule ledger32.inv_run) simp
  have b64: "unat (foldl ledger_step (0 :: 64 word) es64) \<le> 134217728"
    by (rule ledger64.inv_run) simp
  show ?thesis
    using b32 b64 ledger_reserve_release [OF _ b32, of n32] ledger_reserve_release [OF _ b64, of n64]
    unfolding Let_def by simp
qed

end
