(* ===== verification/Capture_Pipeline.thy ===== *)
theory Capture_Pipeline
  imports Capture_Limits "HOL-Library.Multiset"
begin

text \<open>
  The two-slot frame pipeline of \<open>tools/l4capture/src/common/pipeline.c\<close>: the capture side
  offers the index of a filled buffer, the media worker takes it, and a newer frame replaces
  one that is still pending (a raw drop). The theory proves that a buffer is never pending and
  in processing at once, that every accepted frame meets exactly one fate, and that frames are
  paced without catch-up bursts.
\<close>

section \<open>State and operations\<close>

record l4c_pipeline =
  processing :: bool
  pending :: bool
  pl_stopped :: bool
  processing_slot :: u32
  pending_slot :: u32
  raw_drops :: u64
  next_frame_ms :: u64

definition l4c_pipeline_init :: l4c_pipeline where
  "l4c_pipeline_init = \<lparr>processing = False, pending = False, pl_stopped = False,
     processing_slot = 0, pending_slot = 0, raw_drops = 0, next_frame_ms = 0\<rparr>"

text \<open>On success the result is the pair of out-parameters \<open>replaced\<close> and \<open>retired_slot\<close>.\<close>

definition l4c_pipeline_offer ::
  "l4c_pipeline \<Rightarrow> u32 \<Rightarrow> l4c_pipeline \<times> (l4c_status + bool \<times> u32)" where
  "l4c_pipeline_offer p slot =
     (if pl_stopped p then (p, Inl L4C_ERR_FATAL)
      else if processing p \<and> processing_slot p = slot then (p, Inl L4C_ERR_INVALID_ARG)
      else if pending p \<and> pending_slot p = slot then (p, Inl L4C_ERR_INVALID_ARG)
      else
        let replaced = pending p; retired_slot = pending_slot p;
            p = (if replaced then p\<lparr>raw_drops := raw_drops p + 1\<rparr> else p)
        in (p\<lparr>pending_slot := slot, pending := True\<rparr>, Inr (replaced, retired_slot)))"

definition l4c_pipeline_take :: "l4c_pipeline \<Rightarrow> l4c_pipeline \<times> u32 option" where
  "l4c_pipeline_take p =
     (if pl_stopped p \<or> processing p \<or> \<not> pending p then (p, None)
      else let slot = pending_slot p in
        (p\<lparr>processing_slot := slot, pending := False, processing := True\<rparr>, Some slot))"

definition l4c_pipeline_complete :: "l4c_pipeline \<Rightarrow> l4c_pipeline" where
  "l4c_pipeline_complete p = p\<lparr>processing := False\<rparr>"

definition l4c_pipeline_stop :: "l4c_pipeline \<Rightarrow> l4c_pipeline" where
  "l4c_pipeline_stop p = p\<lparr>pl_stopped := True, pending := False, processing := False\<rparr>"

definition l4c_pipeline_due :: "l4c_pipeline \<Rightarrow> u64 \<Rightarrow> u32 \<Rightarrow> l4c_pipeline \<times> bool" where
  "l4c_pipeline_due p now fps =
     (if pl_stopped p \<or> fps = 0 \<or> 1000 < fps \<or> now < next_frame_ms p then (p, False)
      else let interval = (1000 + ucast fps - 1) div ucast fps in
        if (- 1) - interval < now then (p, False)
        else (p\<lparr>next_frame_ms := now + interval\<rparr>, True))"

section \<open>Runs with a log of every frame's fate\<close>

datatype pl_event = Offer u32 | Take | Complete | Stop | Due u64 u32

record pl_log =
  accepted :: "u32 list"
  retired :: "u32 list"
  taken :: "u32 list"
  discarded :: "u32 list"

fun pl_exec :: "l4c_pipeline \<times> pl_log \<Rightarrow> pl_event \<Rightarrow> l4c_pipeline \<times> pl_log" where
  "pl_exec (p, g) (Offer slot) =
     (case l4c_pipeline_offer p slot of
        (p', Inl _) \<Rightarrow> (p', g)
      | (p', Inr (replaced, r)) \<Rightarrow>
          (p', g\<lparr>accepted := slot # accepted g,
                  retired := (if replaced then r # retired g else retired g)\<rparr>))"
| "pl_exec (p, g) Take =
     (case l4c_pipeline_take p of
        (p', None) \<Rightarrow> (p', g)
      | (p', Some slot) \<Rightarrow> (p', g\<lparr>taken := slot # taken g\<rparr>))"
| "pl_exec (p, g) Complete = (l4c_pipeline_complete p, g)"
| "pl_exec (p, g) Stop =
     (l4c_pipeline_stop p,
      if pending p then g\<lparr>discarded := pending_slot p # discarded g\<rparr> else g)"
| "pl_exec (p, g) (Due now fps) = (fst (l4c_pipeline_due p now fps), g)"

definition pl_start :: "l4c_pipeline \<times> pl_log" where
  "pl_start = (l4c_pipeline_init, \<lparr>accepted = [], retired = [], taken = [], discarded = []\<rparr>)"

lemmas pl_defs = l4c_pipeline_offer_def l4c_pipeline_take_def l4c_pipeline_complete_def
  l4c_pipeline_stop_def l4c_pipeline_due_def Let_def

section \<open>Invariant\<close>

definition slots_apart :: "l4c_pipeline \<Rightarrow> bool" where
  "slots_apart p \<longleftrightarrow>
     (processing p \<and> pending p \<longrightarrow> processing_slot p \<noteq> pending_slot p) \<and>
     (pl_stopped p \<longrightarrow> \<not> processing p \<and> \<not> pending p)"

fun fates_add_up :: "l4c_pipeline \<times> pl_log \<Rightarrow> bool" where
  "fates_add_up (p, g) \<longleftrightarrow>
     mset (accepted g) = mset (retired g) + mset (taken g) + mset (discarded g)
       + (if pending p then {#pending_slot p#} else {#}) \<and>
     raw_drops p = of_nat (length (retired g))"

lemma slots_apart_step: "slots_apart p \<Longrightarrow> slots_apart (fst (pl_exec (p, g) e))"
  by (cases e) (auto simp: slots_apart_def pl_defs)

lemma fates_add_up_step: "fates_add_up (p, g) \<Longrightarrow> fates_add_up (pl_exec (p, g) e)"
  by (cases e) (auto simp: pl_defs)

interpretation pl_runs: step_invariant pl_exec "\<lambda>s. slots_apart (fst s) \<and> fates_add_up s"
  by unfold_locales (metis fates_add_up_step slots_apart_step prod.collapse)

lemma stopped_step: "pl_stopped p \<Longrightarrow> slots_apart p \<Longrightarrow> pl_exec (p, g) e = (p, g)"
  by (cases e) (auto simp: pl_defs slots_apart_def)

text \<open>A stopped pipeline is frozen: no frame is accepted, taken or discarded after it.\<close>

interpretation pl_latch: latch pl_exec "\<lambda>s. pl_stopped (fst s) \<and> slots_apart (fst s)" id
  by unfold_locales (metis stopped_step prod.collapse, metis stopped_step prod.collapse id_apply)

section \<open>Properties\<close>

text \<open>whatever the capture thread and the worker do, in any interleaving, a buffer slot is
  never pending and in processing at once; every accepted frame is replaced by a newer one, or
  handed to the worker, or discarded by the stop, or still pending, and exactly one of these;
  the drop counter counts the replaced frames; and after a stop no operation changes
  anything.\<close>

theorem pipeline_frame_accounting:
  defines "run \<equiv> \<lambda>es. foldl pl_exec pl_start es"
  shows "case run es of (p, g) \<Rightarrow>
    (processing p \<and> pending p \<longrightarrow> processing_slot p \<noteq> pending_slot p) \<and>
    mset (accepted g) = mset (retired g) + mset (taken g) + mset (discarded g)
       + (if pending p then {#pending_slot p#} else {#}) \<and>
    raw_drops p = of_nat (length (retired g)) \<and>
    (pl_stopped p \<longrightarrow> run (es @ fs) = (p, g))"
proof -
  obtain p g where pg: "run es = (p, g)" by fastforce
  have "slots_apart (fst pl_start) \<and> fates_add_up pl_start"
    by (simp add: pl_start_def slots_apart_def l4c_pipeline_init_def)
  then have inv: "slots_apart p" "fates_add_up (p, g)"
    using pl_runs.inv_run [of pl_start es] pg by (simp_all add: run_def)
  have "run (es @ fs) = (p, g)" if "pl_stopped p"
    using that inv pg pl_latch.view_run [of "(p, g)" fs] by (simp add: run_def)
  then show ?thesis
    using inv pg by (simp add: slots_apart_def)
qed

theorem pipeline_frame_accounting_witness:
  "let (p, g) = foldl pl_exec pl_start [Offer 1, Take, Offer 2, Offer 3, Stop, Offer 4]
   in pl_stopped p \<and> accepted g = [3, 2, 1] \<and> retired g = [2] \<and> taken g = [1] \<and> discarded g = [3]"
  using pipeline_frame_accounting [of "[Offer 1, Take, Offer 2, Offer 3, Stop, Offer 4]" "[]"]
  by (simp add: pl_start_def l4c_pipeline_init_def pl_defs)

lemma due_interval:
  fixes fps :: u32
  assumes "fps \<noteq> 0" "fps \<le> 1000"
  defines "i \<equiv> (1000 + ucast fps - 1 :: u64) div ucast fps"
  shows "unat i = (999 + unat fps) div unat fps" "1000 \<le> unat i * unat fps" "unat i \<le> 1000"
proof -
  have f: "0 < unat fps" "unat fps \<le> 1000"
    using assms(1,2) by (simp_all add: unat_gt_0 word_le_nat_alt)
  have "unat (1000 + ucast fps - 1 :: u64) = 999 + unat fps"
    using f unat_sub [of 1 "1000 + ucast fps :: u64"]
    by (simp add: unat_word_ariths unat_ucast_widen word_le_nat_alt)
  then show u: "unat i = (999 + unat fps) div unat fps"
    by (simp add: i_def unat_div unat_ucast_widen)
  have "(999 + unat fps) mod unat fps < unat fps" using f(1) by (rule mod_less_divisor)
  then have "999 + unat fps < unat i * unat fps + unat fps"
    using div_mult_mod_eq [of "999 + unat fps" "unat fps"] unfolding u by linarith
  then show "1000 \<le> unat i * unat fps" by simp
  have "(999 + unat fps) div unat fps \<le> (1000 * unat fps) div unat fps"
    using f by (intro div_le_mono) linarith
  then show "unat i \<le> 1000" using f u by simp
qed

lemma due_granted:
  assumes "l4c_pipeline_due p now fps = (p', True)"
  shows "fps \<noteq> 0 \<and> fps \<le> 1000 \<and> next_frame_ms p \<le> now \<and> \<not> pl_stopped p \<and>
    unat (next_frame_ms p') = unat now + (999 + unat fps) div unat fps \<and>
    p' = p\<lparr>next_frame_ms := next_frame_ms p'\<rparr>"
proof -
  let ?i = "(1000 + ucast fps - 1 :: u64) div ucast fps"
  have g: "\<not> pl_stopped p" "fps \<noteq> 0" "fps \<le> 1000" "next_frame_ms p \<le> now" "now \<le> - 1 - ?i"
    and p': "p' = p\<lparr>next_frame_ms := now + ?i\<rparr>"
    using assms by (auto simp: l4c_pipeline_due_def Let_def not_less split: if_splits)
  have "unat now \<le> 2 ^ 64 - 1 - unat ?i"
    using g(5) unat_sub [OF max_word_max, of ?i] by (simp add: word_le_nat_alt unat_max)
  moreover have "unat ?i \<le> 1000" using due_interval(3) g(2,3) by blast
  ultimately have "unat (now + ?i) = unat now + unat ?i"
    by (intro unat_add_no_wrap) simp
  then show ?thesis
    using g p' due_interval(1) [OF g(2,3)] by simp
qed

definition no_due :: "pl_event \<Rightarrow> bool" where
  "no_due e = (case e of Due _ _ \<Rightarrow> False | _ \<Rightarrow> True)"

lemma no_due_next_frame:
  "no_due e \<Longrightarrow> next_frame_ms (fst (pl_exec (p, g) e)) = next_frame_ms p"
  by (cases e) (auto simp: no_due_def pl_defs)

lemma no_due_run_next_frame:
  "list_all no_due es \<Longrightarrow> next_frame_ms (fst (foldl pl_exec s es)) = next_frame_ms (fst s)"
proof (induction es arbitrary: s)
  case (Cons e es)
  then show ?case
    using no_due_next_frame [of e "fst s" "snd s"] by simp
qed simp

text \<open>frame pacing. When two consecutive frames are granted, with any offers, takes,
  completions or a stop in between, the second tick lies at least \<open>ceil (1000 / fps)\<close>
  milliseconds after the first (so a late worker is never followed by a burst), and the
  time of the next frame never wraps around.\<close>

theorem pipeline_pacing:
  assumes "l4c_pipeline_due p t1 fps = (p1, True)" "list_all no_due es"
    and "l4c_pipeline_due (fst (foldl pl_exec (p1, g) es)) t2 fps2 = (p2, True)"
  shows "unat t1 + (999 + unat fps) div unat fps \<le> unat t2 \<and>
    1000 \<le> (unat t2 - unat t1) * unat fps \<and> t1 < t2"
proof -
  have d1: "fps \<noteq> 0" "fps \<le> 1000" "unat (next_frame_ms p1) = unat t1 + (999 + unat fps) div unat fps"
    using due_granted [OF assms(1)] by auto
  have "next_frame_ms p1 \<le> t2"
    using due_granted [OF assms(3)] no_due_run_next_frame [OF assms(2), of "(p1, g)"] by auto
  then have gap: "unat t1 + (999 + unat fps) div unat fps \<le> unat t2"
    using d1(3) by (simp add: word_le_nat_alt)
  have "1000 \<le> ((999 + unat fps) div unat fps) * unat fps"
    using due_interval(1,2) [OF d1(1,2)] by simp
  also have "\<dots> \<le> (unat t2 - unat t1) * unat fps"
    using gap by (intro mult_le_mono1) linarith
  finally have big: "1000 \<le> (unat t2 - unat t1) * unat fps" .
  then have "unat t1 < unat t2" by (cases "unat t2 - unat t1") auto
  with gap big show ?thesis by (simp add: word_less_nat_alt)
qed

theorem pipeline_pacing_witness:
  "let p1 = fst (l4c_pipeline_due l4c_pipeline_init 10 15) in
     \<not> snd (l4c_pipeline_due p1 76 15) \<and> snd (l4c_pipeline_due p1 77 15) \<and>
     unat (10 :: u64) + (999 + unat (15 :: u32)) div unat (15 :: u32) \<le> unat (77 :: u64)"
proof -
  have a: "l4c_pipeline_due l4c_pipeline_init 10 15 = (l4c_pipeline_init\<lparr>next_frame_ms := 77\<rparr>, True)"
    and b: "l4c_pipeline_due (l4c_pipeline_init\<lparr>next_frame_ms := 77\<rparr>) 77 15
       = (l4c_pipeline_init\<lparr>next_frame_ms := 144\<rparr>, True)"
    and c: "\<not> snd (l4c_pipeline_due (l4c_pipeline_init\<lparr>next_frame_ms := 77\<rparr>) 76 15)"
    by (simp_all add: l4c_pipeline_due_def l4c_pipeline_init_def Let_def)
  show ?thesis
    using a b c pipeline_pacing [of l4c_pipeline_init 10 15 "l4c_pipeline_init\<lparr>next_frame_ms := 77\<rparr>"
        "[]" _ 77 15 "l4c_pipeline_init\<lparr>next_frame_ms := 144\<rparr>"]
    by simp
qed

end
