(* ===== verification/Ipc_Protocol.thy ===== *)
theory Ipc_Protocol
  imports Capture_Limits
begin

text \<open>
  The control protocol between l4desk and the capture host,
  \<open>tools/l4capture/src/ipc/ipc_protocol.c\<close>: little-endian fields, eight message types with
  fixed payload layouts, strict UTF-8 for error texts, and an incremental parser over a fixed
  buffer. The theory gives the encoder and the decoder as functions on byte lists, proves that
  they are inverse to each other in both directions, that the UTF-8 check accepts exactly the
  encodings of non-zero scalar values, and that the parser recovers the messages of a stream
  however the pipe splits it.
\<close>

section \<open>Little-endian fields\<close>

definition l4c_read_u16_le :: "bytes \<Rightarrow> u16" where
  "l4c_read_u16_le p = ucast (p ! 0) OR push_bit 8 (ucast (p ! 1))"

definition l4c_read_u32_le :: "bytes \<Rightarrow> u32" where
  "l4c_read_u32_le p = ucast (p ! 0) OR push_bit 8 (ucast (p ! 1)) OR
     push_bit 16 (ucast (p ! 2)) OR push_bit 24 (ucast (p ! 3))"

definition l4c_read_u64_le :: "bytes \<Rightarrow> u64" where
  "l4c_read_u64_le p =
     ucast (l4c_read_u32_le p) OR push_bit 32 (ucast (l4c_read_u32_le (drop 4 p)))"

definition l4c_write_u16_le :: "u16 \<Rightarrow> bytes" where
  "l4c_write_u16_le v = [ucast v, ucast (drop_bit 8 v)]"

definition l4c_write_u32_le :: "u32 \<Rightarrow> bytes" where
  "l4c_write_u32_le v =
     [ucast v, ucast (drop_bit 8 v), ucast (drop_bit 16 v), ucast (drop_bit 24 v)]"

definition l4c_write_u64_le :: "u64 \<Rightarrow> bytes" where
  "l4c_write_u64_le v = l4c_write_u32_le (ucast v) @ l4c_write_u32_le (ucast (drop_bit 32 v))"

lemma write_u16_read: "l4c_write_u16_le (l4c_read_u16_le [a, b]) = [a, b]"
  by (auto simp: l4c_write_u16_le_def l4c_read_u16_le_def bit_simps bit_u8_high intro!: bit_word_eqI)

lemma write_u32_read: "l4c_write_u32_le (l4c_read_u32_le [a, b, c, d]) = [a, b, c, d]"
  by (auto simp: l4c_write_u32_le_def l4c_read_u32_le_def bit_simps bit_u8_high
      intro!: bit_word_eqI)

lemma read_u32_write: "l4c_read_u32_le (l4c_write_u32_le v @ rest) = v"
proof (rule bit_word_eqI)
  fix n assume "n < LENGTH(32)"
  then consider "n < 8" | "8 \<le> n" "n < 16" | "16 \<le> n" "n < 24" | "24 \<le> n" "n < 32"
    by fastforce
  then show "bit (l4c_read_u32_le (l4c_write_u32_le v @ rest)) n = bit v n"
    by cases (auto simp: l4c_read_u32_le_def l4c_write_u32_le_def bit_simps)
qed

interpretation u16le: fixed_codec l4c_write_u16_le l4c_read_u16_le 2
proof
  fix v rest show "l4c_read_u16_le (l4c_write_u16_le v @ rest) = v"
    by (rule bit_word_eqI) (auto simp: l4c_read_u16_le_def l4c_write_u16_le_def bit_simps)
next
  fix bs :: bytes assume "length bs = 2"
  then show "l4c_write_u16_le (l4c_read_u16_le bs) = bs"
    using list_of_length_2 write_u16_read by blast
qed (auto simp: l4c_write_u16_le_def l4c_read_u16_le_def nth_append)

interpretation u32le: fixed_codec l4c_write_u32_le l4c_read_u32_le 4
proof
  fix bs :: bytes assume "length bs = 4"
  then show "l4c_write_u32_le (l4c_read_u32_le bs) = bs"
    using list_of_length_4 write_u32_read by blast
next
  fix v rest show "l4c_read_u32_le (l4c_write_u32_le v @ rest) = v"
    by (rule read_u32_write)
qed (auto simp: l4c_write_u32_le_def l4c_read_u32_le_def nth_append)

lemma u64_halves:
  "ucast (ucast (v :: u64) :: u32) OR push_bit 32 (ucast (ucast (drop_bit 32 v) :: u32)) = v"
  "ucast (ucast (a :: u32) OR push_bit 32 (ucast (b :: u32)) :: u64) = a"
  by (rule bit_word_eqI; auto simp: bit_simps)+

lemma u64_high_half:
  "ucast (drop_bit 32 (ucast (a :: u32) OR push_bit 32 (ucast (b :: u32)) :: u64)) = b"
  by (rule bit_word_eqI) (auto simp: bit_simps dest: bit_in_width)

interpretation u64le: fixed_codec l4c_write_u64_le l4c_read_u64_le 8
proof
  fix v rest
  show "l4c_read_u64_le (l4c_write_u64_le v @ rest) = v"
    by (simp add: l4c_read_u64_le_def l4c_write_u64_le_def u32le.get_put u32le.put_width u64_halves)
next
  fix bs :: bytes assume len: "length bs = 8"
  then have "take 4 bs @ take 4 (drop 4 bs) = bs"
    by (metis append_take_drop_id length_drop diff_add_inverse numeral_Bit0 take_all_iff le_refl)
  then show "l4c_write_u64_le (l4c_read_u64_le bs) = bs"
    using len by (simp only: l4c_write_u64_le_def l4c_read_u64_le_def u64_halves u64_high_half)
      (simp add: u32le.put_get_take)
next
  fix bs rest :: bytes assume "8 \<le> length bs"
  then show "l4c_read_u64_le (bs @ rest) = l4c_read_u64_le bs"
    by (simp add: l4c_read_u64_le_def u32le.get_prefix)
qed (simp add: l4c_write_u64_le_def u32le.put_width)

lemmas [wire] = u16le.get_put u32le.get_put u64le.get_put
lemmas [wire_len, simp] = u16le.put_width u32le.put_width u64le.put_width

text \<open>\<open>signed_u32\<close>: the two's complement reading of a 32-bit field, by comparison.\<close>

definition signed_u32 :: "u32 \<Rightarrow> int" where
  "signed_u32 value = (if value \<le> 2147483647 then uint value else uint value - 4294967296)"

lemma signed_u32_wire [wire]: "int32_ok v \<Longrightarrow> signed_u32 (word_of_int v) = v"
proof -
  assume v: "int32_ok v"
  have "uint (word_of_int v :: u32) = (if 0 \<le> v then v else v + 4294967296)"
    using v by (auto simp: int32_ok_def uint_word_of_int mod_pos_pos_trivial
        mod_pos_neg_trivial zmod_trivial_iff)
       (smt (verit) mod_add_self2 mod_pos_pos_trivial)
  then show ?thesis
    using v by (auto simp: signed_u32_def int32_ok_def word_le_def)
qed

lemma signed_u32_range: "int32_ok (signed_u32 w)"
proof -
  obtain u where "uint w = u" "0 \<le> u" "u < 4294967296"
    using uint_lt2p [of w] uint_ge_0 [of w] by simp
  then show ?thesis
    by (auto simp: signed_u32_def int32_ok_def word_le_def)
qed

lemma word_of_signed_u32 [wire]: "word_of_int (signed_u32 w) = w"
proof -
  have "(word_of_int (uint w - 4294967296) :: u32) = word_of_int (uint w)"
    by (simp add: word_of_int_eq_iff take_bit_eq_mod mod_diff_right_eq [symmetric])
  then show ?thesis by (simp add: signed_u32_def)
qed

section \<open>Messages\<close>

abbreviation L4C_IPC_VERSION :: u16 where "L4C_IPC_VERSION \<equiv> 1"
abbreviation L4C_IPC_HEADER_SIZE :: nat where "L4C_IPC_HEADER_SIZE \<equiv> 16"
abbreviation L4C_IPC_MAX_PAYLOAD :: nat where "L4C_IPC_MAX_PAYLOAD \<equiv> 4096"
abbreviation L4C_IPC_MAX_FRAME :: nat where "L4C_IPC_MAX_FRAME \<equiv> 4112"
abbreviation L4C_ERROR_TEXT_MAX :: nat where "L4C_ERROR_TEXT_MAX \<equiv> 4090"

abbreviation L4C_CMD_START :: u16 where "L4C_CMD_START \<equiv> 1"
abbreviation L4C_CMD_RENEW_LEASE :: u16 where "L4C_CMD_RENEW_LEASE \<equiv> 2"
abbreviation L4C_CMD_STOP :: u16 where "L4C_CMD_STOP \<equiv> 3"
abbreviation L4C_CMD_FORCE_IDR :: u16 where "L4C_CMD_FORCE_IDR \<equiv> 4"
abbreviation L4C_EVENT_READY :: u16 where "L4C_EVENT_READY \<equiv> 257"
abbreviation L4C_EVENT_METRICS :: u16 where "L4C_EVENT_METRICS \<equiv> 258"
abbreviation L4C_EVENT_DEGRADED :: u16 where "L4C_EVENT_DEGRADED \<equiv> 259"
abbreviation L4C_EVENT_ERROR :: u16 where "L4C_EVENT_ERROR \<equiv> 260"

record l4c_start =
  st_lease_id :: bytes
  st_stream_id :: bytes
  source_rect :: l4c_rect
  geometry_gen :: u64
  profile_id :: u16
  rtp_port :: u16
  rtcp_port :: u16
  st_deadline_tick_ms :: u64

record l4c_renew =
  rn_lease_id :: bytes
  new_deadline_tick_ms :: u64

record l4c_ready =
  rd_stream_id :: bytes
  actual_width :: u32
  actual_height :: u32
  actual_fps :: u16
  capture_backend :: u16
  encoder_backend :: u16

record l4c_metrics =
  fps :: u16
  bitrate_kbps :: u32
  m_raw_drops :: u32
  encoder_drops :: u32
  transport_drops :: u32
  encode_p95_ms :: u16
  queue_depth :: u16
  private_bytes_kb :: u32
  gdi_handles :: u32

text \<open>
  The tag \<open>type\<close> and the union \<open>body\<close> of \<open>l4c_message_t\<close> are one datatype; a tag outside the
  protocol is \<open>OtherType\<close>. The error text is the first \<open>message_len\<close> bytes of its array.
\<close>

datatype l4c_body =
    CmdStart l4c_start
  | CmdRenewLease l4c_renew
  | CmdStop bytes
  | CmdForceIdr bytes
  | EventReady l4c_ready
  | EventMetrics l4c_metrics
  | EventDegraded u16 u16
  | EventError u32 bytes
  | OtherType u16

record l4c_message =
  request_seq :: u64
  body :: l4c_body

fun msg_type :: "l4c_body \<Rightarrow> u16" where
  "msg_type (CmdStart _) = L4C_CMD_START"
| "msg_type (CmdRenewLease _) = L4C_CMD_RENEW_LEASE"
| "msg_type (CmdStop _) = L4C_CMD_STOP"
| "msg_type (CmdForceIdr _) = L4C_CMD_FORCE_IDR"
| "msg_type (EventReady _) = L4C_EVENT_READY"
| "msg_type (EventMetrics _) = L4C_EVENT_METRICS"
| "msg_type (EventDegraded _ _) = L4C_EVENT_DEGRADED"
| "msg_type (EventError _ _) = L4C_EVENT_ERROR"
| "msg_type (OtherType t) = t"

definition valid_length :: "u16 \<Rightarrow> u32 \<Rightarrow> bool" where
  "valid_length type len =
     (if type = L4C_CMD_START then len = 70
      else if type = L4C_CMD_RENEW_LEASE then len = 24
      else if type = L4C_CMD_STOP \<or> type = L4C_CMD_FORCE_IDR then len = 16
      else if type = L4C_EVENT_READY then len = 30
      else if type = L4C_EVENT_METRICS then len = 30
      else if type = L4C_EVENT_DEGRADED then len = 4
      else if type = L4C_EVENT_ERROR then 6 \<le> len \<and> len \<le> 4096
      else False)"

section \<open>Strict UTF-8\<close>

text \<open>The inner loop: \<open>extra\<close> continuation bytes are folded into the code point.\<close>

fun utf8_continue :: "nat \<Rightarrow> u32 \<Rightarrow> bytes \<Rightarrow> (u32 \<times> bytes) option" where
  "utf8_continue 0 c p = Some (c, p)"
| "utf8_continue (Suc n) c [] = None"
| "utf8_continue (Suc n) c (b # p) =
     (if b AND 192 \<noteq> 128 then None
      else utf8_continue n (push_bit 6 c OR ucast (b AND 63)) p)"

definition utf8_lead :: "u32 \<Rightarrow> (nat \<times> u32 \<times> u32) option" where
  "utf8_lead c =
     (if 194 \<le> c \<and> c \<le> 223 then Some (1, 128, c AND 31)
      else if 224 \<le> c \<and> c \<le> 239 then Some (2, 2048, c AND 15)
      else if 240 \<le> c \<and> c \<le> 244 then Some (3, 65536, c AND 7)
      else None)"

lemma utf8_continue_length: "utf8_continue n c p = Some (c', p') \<Longrightarrow> length p' = length p - n"
  by (induction n c p rule: utf8_continue.induct) (auto split: if_splits)

function valid_utf8 :: "bytes \<Rightarrow> bool" where
  "valid_utf8 [] = True"
| "valid_utf8 (b # p) =
     (let c = ucast b :: u32 in
      if c < 128 then (if c = 0 then False else valid_utf8 p)
      else case utf8_lead c of
          None \<Rightarrow> False
        | Some (extra, minimum, c0) \<Rightarrow>
            if length p < extra then False
            else case utf8_continue extra c0 p of
                None \<Rightarrow> False
              | Some (c1, p') \<Rightarrow>
                  if c1 < minimum \<or> 1114111 < c1 \<or> (55296 \<le> c1 \<and> c1 \<le> 57343) then False
                  else valid_utf8 p')"
  by pat_completeness auto
termination
  by (relation "measure length") (auto dest: utf8_continue_length)

section \<open>Encoder and decoder\<close>

fun payload_length :: "l4c_body \<Rightarrow> l4c_status + nat" where
  "payload_length (CmdStart _) = Inr 70"
| "payload_length (CmdRenewLease _) = Inr 24"
| "payload_length (CmdStop _) = Inr 16"
| "payload_length (CmdForceIdr _) = Inr 16"
| "payload_length (EventReady _) = Inr 30"
| "payload_length (EventMetrics _) = Inr 30"
| "payload_length (EventDegraded _ _) = Inr 4"
| "payload_length (EventError _ txt) =
     (if L4C_ERROR_TEXT_MAX < length txt \<or> \<not> valid_utf8 txt then Inl L4C_ERR_PROTOCOL
      else Inr (6 + length txt))"
| "payload_length (OtherType _) = Inl L4C_ERR_PROTOCOL"

fun payload_bytes :: "l4c_body \<Rightarrow> bytes" where
  "payload_bytes (CmdStart s) =
     st_lease_id s @ st_stream_id s
     @ l4c_write_u32_le (word_of_int (left (source_rect s)))
     @ l4c_write_u32_le (word_of_int (top (source_rect s)))
     @ l4c_write_u32_le (word_of_int (right (source_rect s)))
     @ l4c_write_u32_le (word_of_int (bottom (source_rect s)))
     @ l4c_write_u64_le (geometry_gen s)
     @ l4c_write_u16_le (profile_id s) @ l4c_write_u16_le (rtp_port s)
     @ l4c_write_u16_le (rtcp_port s) @ l4c_write_u64_le (st_deadline_tick_ms s)"
| "payload_bytes (CmdRenewLease r) = rn_lease_id r @ l4c_write_u64_le (new_deadline_tick_ms r)"
| "payload_bytes (CmdStop sid) = sid"
| "payload_bytes (CmdForceIdr sid) = sid"
| "payload_bytes (EventReady r) =
     rd_stream_id r @ l4c_write_u32_le (actual_width r) @ l4c_write_u32_le (actual_height r)
     @ l4c_write_u16_le (actual_fps r) @ l4c_write_u16_le (capture_backend r)
     @ l4c_write_u16_le (encoder_backend r)"
| "payload_bytes (EventMetrics m) =
     l4c_write_u16_le (fps m) @ l4c_write_u32_le (bitrate_kbps m)
     @ l4c_write_u32_le (m_raw_drops m) @ l4c_write_u32_le (encoder_drops m)
     @ l4c_write_u32_le (transport_drops m) @ l4c_write_u16_le (encode_p95_ms m)
     @ l4c_write_u16_le (queue_depth m) @ l4c_write_u32_le (private_bytes_kb m)
     @ l4c_write_u32_le (gdi_handles m)"
| "payload_bytes (EventDegraded state reason) = l4c_write_u16_le state @ l4c_write_u16_le reason"
| "payload_bytes (EventError code txt) =
     l4c_write_u32_le code @ l4c_write_u16_le (of_nat (length txt)) @ txt"
| "payload_bytes (OtherType _) = []"

definition l4c_ipc_encode :: "l4c_message \<Rightarrow> nat \<Rightarrow> l4c_status + bytes" where
  "l4c_ipc_encode message capacity =
     (case payload_length (body message) of
        Inl status \<Rightarrow> Inl status
      | Inr len \<Rightarrow>
          if capacity < L4C_IPC_HEADER_SIZE + len then Inl L4C_ERR_OVERFLOW
          else Inr (l4c_write_u16_le L4C_IPC_VERSION @ l4c_write_u16_le (msg_type (body message))
                 @ l4c_write_u32_le (of_nat len) @ l4c_write_u64_le (request_seq message)
                 @ payload_bytes (body message)))"

definition decode_start :: "bytes \<Rightarrow> l4c_start" where
  "decode_start p =
     \<lparr>st_lease_id = take 16 p, st_stream_id = take 16 (drop 16 p),
      source_rect = \<lparr>left = signed_u32 (l4c_read_u32_le (drop 32 p)),
        top = signed_u32 (l4c_read_u32_le (drop 36 p)),
        right = signed_u32 (l4c_read_u32_le (drop 40 p)),
        bottom = signed_u32 (l4c_read_u32_le (drop 44 p))\<rparr>,
      geometry_gen = l4c_read_u64_le (drop 48 p),
      profile_id = l4c_read_u16_le (drop 56 p), rtp_port = l4c_read_u16_le (drop 58 p),
      rtcp_port = l4c_read_u16_le (drop 60 p), st_deadline_tick_ms = l4c_read_u64_le (drop 62 p)\<rparr>"

definition decode_ready :: "bytes \<Rightarrow> l4c_ready" where
  "decode_ready p =
     \<lparr>rd_stream_id = take 16 p, actual_width = l4c_read_u32_le (drop 16 p),
      actual_height = l4c_read_u32_le (drop 20 p), actual_fps = l4c_read_u16_le (drop 24 p),
      capture_backend = l4c_read_u16_le (drop 26 p), encoder_backend = l4c_read_u16_le (drop 28 p)\<rparr>"

definition decode_metrics :: "bytes \<Rightarrow> l4c_metrics" where
  "decode_metrics p =
     \<lparr>fps = l4c_read_u16_le p, bitrate_kbps = l4c_read_u32_le (drop 2 p),
      m_raw_drops = l4c_read_u32_le (drop 6 p), encoder_drops = l4c_read_u32_le (drop 10 p),
      transport_drops = l4c_read_u32_le (drop 14 p), encode_p95_ms = l4c_read_u16_le (drop 18 p),
      queue_depth = l4c_read_u16_le (drop 20 p), private_bytes_kb = l4c_read_u32_le (drop 22 p),
      gdi_handles = l4c_read_u32_le (drop 26 p)\<rparr>"

definition decode_body :: "u16 \<Rightarrow> nat \<Rightarrow> bytes \<Rightarrow> l4c_status + l4c_body" where
  "decode_body type payload p =
     (if type = L4C_CMD_START then Inr (CmdStart (decode_start p))
      else if type = L4C_CMD_RENEW_LEASE then
        Inr (CmdRenewLease \<lparr>rn_lease_id = take 16 p,
                            new_deadline_tick_ms = l4c_read_u64_le (drop 16 p)\<rparr>)
      else if type = L4C_CMD_STOP then Inr (CmdStop (take 16 p))
      else if type = L4C_CMD_FORCE_IDR then Inr (CmdForceIdr (take 16 p))
      else if type = L4C_EVENT_READY then Inr (EventReady (decode_ready p))
      else if type = L4C_EVENT_METRICS then Inr (EventMetrics (decode_metrics p))
      else if type = L4C_EVENT_DEGRADED then
        Inr (EventDegraded (l4c_read_u16_le p) (l4c_read_u16_le (drop 2 p)))
      else if type = L4C_EVENT_ERROR then
        (if unat (l4c_read_u16_le (drop 4 p)) \<noteq> payload - 6 \<or>
            \<not> valid_utf8 (take (payload - 6) (drop 6 p))
         then Inl L4C_ERR_PROTOCOL
         else Inr (EventError (l4c_read_u32_le p) (take (payload - 6) (drop 6 p))))
      else Inl L4C_ERR_PROTOCOL)"

definition l4c_ipc_decode :: "bytes \<Rightarrow> l4c_status + l4c_message" where
  "l4c_ipc_decode bs =
     (if length bs < L4C_IPC_HEADER_SIZE \<or> l4c_read_u16_le bs \<noteq> L4C_IPC_VERSION
      then Inl L4C_ERR_PROTOCOL
      else
        let type = l4c_read_u16_le (drop 2 bs); payload = l4c_read_u32_le (drop 4 bs) in
        if \<not> valid_length type payload \<or> length bs \<noteq> L4C_IPC_HEADER_SIZE + unat payload
        then Inl L4C_ERR_PROTOCOL
        else case decode_body type (unat payload) (drop L4C_IPC_HEADER_SIZE bs) of
            Inl status \<Rightarrow> Inl status
          | Inr b \<Rightarrow> Inr \<lparr>request_seq = l4c_read_u64_le (drop 8 bs), body = b\<rparr>)"

section \<open>The incremental parser\<close>

text \<open>\<open>parsed\<close> is the filled part of the fixed buffer, so its length is the field \<open>used\<close>.\<close>

record l4c_ipc_parser =
  parsed :: bytes
  expected :: nat
  failed :: bool

definition l4c_ipc_parser_init :: l4c_ipc_parser where
  "l4c_ipc_parser_init = \<lparr>parsed = [], expected = L4C_IPC_HEADER_SIZE, failed = False\<rparr>"

text \<open>
  The body of the loop after the copy: what becomes of the frame in the buffer. The result is
  \<open>Inl parser\<close> to go on reading and \<open>Inr (parser, status, message)\<close> to return.
\<close>

definition feed_frame ::
  "l4c_ipc_parser \<Rightarrow> l4c_ipc_parser + l4c_ipc_parser \<times> l4c_status \<times> l4c_message option" where
  "feed_frame parser =
     (let payload = l4c_read_u32_le (drop 4 (parsed parser));
          at_header = length (parsed parser) = L4C_IPC_HEADER_SIZE \<and>
                      expected parser = L4C_IPC_HEADER_SIZE in
      if at_header \<and> (l4c_read_u16_le (parsed parser) \<noteq> L4C_IPC_VERSION \<or>
           \<not> valid_length (l4c_read_u16_le (drop 2 (parsed parser))) payload)
      then Inr (parser\<lparr>failed := True\<rparr>, L4C_ERR_PROTOCOL, None)
      else
        let parser = (if at_header then parser\<lparr>expected := expected parser + unat payload\<rparr>
                      else parser) in
        if length (parsed parser) = expected parser then
          case l4c_ipc_decode (parsed parser) of
            Inl status \<Rightarrow> Inr (parser\<lparr>failed := True\<rparr>, status, None)
          | Inr m \<Rightarrow> Inr (parser\<lparr>parsed := [], expected := L4C_IPC_HEADER_SIZE\<rparr>, L4C_OK, Some m)
        else Inl parser)"

definition feed_take :: "l4c_ipc_parser \<Rightarrow> bytes \<Rightarrow> nat" where
  "feed_take parser rest =
     (if length (parsed parser) \<le> expected parser
      then min (expected parser - length (parsed parser)) (length rest)
      else length rest)"

lemma feed_frame_Inl:
  "feed_frame q = Inl q' \<Longrightarrow> parsed q' = parsed q \<and> length (parsed q') \<noteq> expected q'"
  by (auto simp: feed_frame_def Let_def split: if_splits sum.splits)

text \<open>
  The loop over the input still to read. \<open>feed_take\<close> is \<open>expected - used\<close> cut down to that
  input; were \<open>used\<close> ever beyond \<open>expected\<close>, the unsigned difference would exceed any input.
\<close>

function feed_loop ::
  "l4c_ipc_parser \<Rightarrow> bytes \<Rightarrow> nat \<Rightarrow>
     l4c_ipc_parser \<times> nat \<times> l4c_status \<times> l4c_message option" where
  "feed_loop parser rest consumed =
     (if rest = [] then (parser, consumed, L4C_OK, None)
      else
        let n = feed_take parser rest;
            parser' = parser\<lparr>parsed := parsed parser @ take n rest\<rparr> in
        case feed_frame parser' of
          Inr (parser'', status, m) \<Rightarrow> (parser'', consumed + n, status, m)
        | Inl parser'' \<Rightarrow> feed_loop parser'' (drop n rest) (consumed + n))"
  by pat_completeness auto
termination
proof (relation "measures [\<lambda>(p, rest, c). length rest,
    \<lambda>(p, rest, c). if length (parsed p) = expected p then 1 else 0]", goal_cases)
  case 1
  show ?case by simp
next
  case (2 p rest c n p1 p2)
  then have "length (parsed p2) \<noteq> expected p2" by (blast dest: feed_frame_Inl)
  moreover have "n \<le> length rest" "n = 0 \<longrightarrow> length (parsed p) = expected p"
    using 2 by (auto simp: feed_take_def min_def split: if_splits)
  ultimately show ?case using 2(1) by (cases "n = 0") auto
qed

declare feed_loop.simps [simp del]

definition l4c_ipc_feed ::
  "l4c_ipc_parser \<Rightarrow> bytes \<Rightarrow> l4c_ipc_parser \<times> nat \<times> l4c_status \<times> l4c_message option" where
  "l4c_ipc_feed parser bs =
     (if failed parser then (parser, 0, L4C_ERR_PROTOCOL, None) else feed_loop parser bs 0)"

definition l4c_ipc_eof :: "l4c_ipc_parser \<Rightarrow> l4c_status" where
  "l4c_ipc_eof parser =
     (if failed parser \<or> parsed parser \<noteq> [] then L4C_ERR_PROTOCOL else L4C_ERR_PIPE_BROKEN)"

section \<open>Encoder and decoder are inverse\<close>

fun wf_body :: "l4c_body \<Rightarrow> bool" where
  "wf_body (CmdStart s) \<longleftrightarrow>
     length (st_lease_id s) = 16 \<and> length (st_stream_id s) = 16 \<and> rect_ok (source_rect s)"
| "wf_body (CmdRenewLease r) \<longleftrightarrow> length (rn_lease_id r) = 16"
| "wf_body (CmdStop sid) \<longleftrightarrow> length sid = 16"
| "wf_body (CmdForceIdr sid) \<longleftrightarrow> length sid = 16"
| "wf_body (EventReady r) \<longleftrightarrow> length (rd_stream_id r) = 16"
| "wf_body (EventMetrics m) \<longleftrightarrow> True"
| "wf_body (EventDegraded _ _) \<longleftrightarrow> True"
| "wf_body (EventError _ txt) \<longleftrightarrow> length txt \<le> L4C_ERROR_TEXT_MAX \<and> valid_utf8 txt"
| "wf_body (OtherType _) \<longleftrightarrow> False"

definition frame :: "l4c_message \<Rightarrow> bytes" where
  "frame m = l4c_write_u16_le L4C_IPC_VERSION @ l4c_write_u16_le (msg_type (body m))
     @ l4c_write_u32_le (of_nat (length (payload_bytes (body m))))
     @ l4c_write_u64_le (request_seq m) @ payload_bytes (body m)"

lemma payload_length_wf: "wf_body b \<Longrightarrow> payload_length b = Inr (length (payload_bytes b))"
  by (cases b) auto

lemma payload_length_Inr: "payload_length b = Inr n \<Longrightarrow>
    4 \<le> n \<and> n \<le> L4C_IPC_MAX_PAYLOAD"
  by (cases b) (auto split: if_splits)

lemma frame_length: "length (frame m) = 16 + length (payload_bytes (body m))"
  by (simp add: frame_def)

lemma payload_bounds: "wf_body b \<Longrightarrow> 4 \<le> length (payload_bytes b) \<and> length (payload_bytes b) \<le> 4096"
  using payload_length_wf payload_length_Inr by blast

lemma encode_wf:
  "wf_body (body m) \<Longrightarrow> l4c_ipc_encode m capacity =
     (if capacity < length (frame m) then Inl L4C_ERR_OVERFLOW else Inr (frame m))"
  by (simp add: l4c_ipc_encode_def payload_length_wf frame_length frame_def)

lemma valid_length_wf: "wf_body b \<Longrightarrow> valid_length (msg_type b) (of_nat (length (payload_bytes b)))"
  by (cases b) (auto simp: valid_length_def word_le_nat_alt unat_of_nat unat_word_ariths)

lemma decode_body_wf:
  "wf_body b \<Longrightarrow> decode_body (msg_type b) (length (payload_bytes b)) (payload_bytes b) = Inr b"
  by (cases b) (auto simp: decode_body_def decode_start_def decode_ready_def decode_metrics_def
      wire rect_ok_def unat_of_nat u16le.get_put_nil u32le.get_put_nil u64le.get_put_nil)

lemma unat_payload: "wf_body b \<Longrightarrow>
    unat (of_nat (length (payload_bytes b)) :: u32) = length (payload_bytes b)"
  using payload_bounds [of b] by (simp add: unat_of_nat)

lemma frame_fields:
  "l4c_read_u16_le (frame m @ x) = L4C_IPC_VERSION"
  "l4c_read_u16_le (drop 2 (frame m @ x)) = msg_type (body m)"
  "l4c_read_u32_le (drop 4 (frame m @ x)) = of_nat (length (payload_bytes (body m)))"
  "l4c_read_u64_le (drop 8 (frame m)) = request_seq m"
  "drop 16 (frame m) = payload_bytes (body m)"
  by (simp_all add: frame_def wire)

lemma decode_frame: "wf_body (body m) \<Longrightarrow> l4c_ipc_decode (frame m) = Inr m"
  using frame_fields(1-3) [of m "[]"] frame_fields(4,5) [of m]
  by (simp add: l4c_ipc_decode_def frame_length valid_length_wf unat_payload decode_body_wf)

lemma u16_field: "m = n + 2 \<Longrightarrow> m \<le> length p \<Longrightarrow>
    l4c_write_u16_le (l4c_read_u16_le (drop n p)) @ drop m p = drop n p"
  by (simp add: u16le.put_get_take drop_glue)

lemma u32_field: "m = n + 4 \<Longrightarrow> m \<le> length p \<Longrightarrow>
    l4c_write_u32_le (l4c_read_u32_le (drop n p)) @ drop m p = drop n p"
  by (simp add: u32le.put_get_take drop_glue)

lemma u64_field: "m = n + 8 \<Longrightarrow> m \<le> length p \<Longrightarrow>
    l4c_write_u64_le (l4c_read_u64_le (drop n p)) @ drop m p = drop n p"
  by (simp add: u64le.put_get_take drop_glue)

lemma last_fields:
  "length p = n + 2 \<Longrightarrow> l4c_write_u16_le (l4c_read_u16_le (drop n p)) = drop n p"
  "length p = n + 4 \<Longrightarrow> l4c_write_u32_le (l4c_read_u32_le (drop n p)) = drop n p"
  "length p = n + 8 \<Longrightarrow> l4c_write_u64_le (l4c_read_u64_le (drop n p)) = drop n p"
  by (simp_all add: u16le.put_get u32le.put_get u64le.put_get)

lemmas field_glue = u16_field u32_field u64_field last_fields drop_glue

lemma payload_of_start: "length p = 70 \<Longrightarrow>
    payload_bytes (CmdStart (decode_start p)) = p \<and> wf_body (CmdStart (decode_start p))"
  by (simp add: decode_start_def field_glue wire rect_ok_def signed_u32_range)

lemma payload_of_ready: "length p = 30 \<Longrightarrow>
    payload_bytes (EventReady (decode_ready p)) = p \<and> wf_body (EventReady (decode_ready p))"
  by (simp add: decode_ready_def field_glue)

lemma payload_of_metrics: "length p = 30 \<Longrightarrow> payload_bytes (EventMetrics (decode_metrics p)) = p"
  using u16_field [of 2 0 p] by (simp add: decode_metrics_def field_glue)

lemma payload_of_error:
  assumes "length p = n" "6 \<le> n" "n \<le> 4096" "unat (l4c_read_u16_le (drop 4 p)) = n - 6"
  shows "payload_bytes (EventError (l4c_read_u32_le p) (take (n - 6) (drop 6 p))) = p"
proof -
  have "of_nat (n - 6) = l4c_read_u16_le (drop 4 p)"
    using word_of_its_unat [OF assms(4)] by simp
  then show ?thesis
    using assms u32_field [of 4 0 p] u16_field [of 6 4 p] by simp
qed

lemma decode_body_error:
  assumes "decode_body L4C_EVENT_ERROR n p = Inr b" "length p = n" "6 \<le> n" "n \<le> 4096"
  shows "wf_body b \<and> msg_type b = L4C_EVENT_ERROR \<and> payload_bytes b = p"
proof -
  have "unat (l4c_read_u16_le (drop 4 p)) = n - 6"
    and b: "b = EventError (l4c_read_u32_le p) (take (n - 6) (drop 6 p))"
    and v: "valid_utf8 (take (n - 6) (drop 6 p))"
    using assms(1) by (simp_all add: decode_body_def split: if_splits)
  then have "payload_bytes b = p"
    using payload_of_error assms(2-4) by blast
  moreover have "wf_body b" unfolding b wf_body.simps using v assms(2-4) by simp
  ultimately show ?thesis unfolding b msg_type.simps by blast
qed

lemma decode_body_fixed:
  "length p = 70 \<Longrightarrow> decode_body L4C_CMD_START n p = Inr b \<Longrightarrow>
     wf_body b \<and> msg_type b = L4C_CMD_START \<and> payload_bytes b = p"
  "length p = 24 \<Longrightarrow> decode_body L4C_CMD_RENEW_LEASE n p = Inr b \<Longrightarrow>
     wf_body b \<and> msg_type b = L4C_CMD_RENEW_LEASE \<and> payload_bytes b = p"
  "length p = 16 \<Longrightarrow> decode_body L4C_CMD_STOP n p = Inr b \<Longrightarrow>
     wf_body b \<and> msg_type b = L4C_CMD_STOP \<and> payload_bytes b = p"
  "length p = 16 \<Longrightarrow> decode_body L4C_CMD_FORCE_IDR n p = Inr b \<Longrightarrow>
     wf_body b \<and> msg_type b = L4C_CMD_FORCE_IDR \<and> payload_bytes b = p"
  "length p = 30 \<Longrightarrow> decode_body L4C_EVENT_READY n p = Inr b \<Longrightarrow>
     wf_body b \<and> msg_type b = L4C_EVENT_READY \<and> payload_bytes b = p"
  "length p = 30 \<Longrightarrow> decode_body L4C_EVENT_METRICS n p = Inr b \<Longrightarrow>
     wf_body b \<and> msg_type b = L4C_EVENT_METRICS \<and> payload_bytes b = p"
  "length p = 4 \<Longrightarrow> decode_body L4C_EVENT_DEGRADED n p = Inr b \<Longrightarrow>
     wf_body b \<and> msg_type b = L4C_EVENT_DEGRADED \<and> payload_bytes b = p"
  using payload_of_start [of p] payload_of_ready [of p] payload_of_metrics [of p]
    u16_field [of 2 0 p]
  by (auto simp: decode_body_def field_glue simp del: payload_bytes.simps(1,5,6))

lemma decode_body_inverse:
  assumes "decode_body type (unat n) p = Inr b" "length p = unat n" "valid_length type n"
  shows "wf_body b \<and> msg_type b = type \<and> payload_bytes b = p"
proof -
  consider "type = L4C_CMD_START" "length p = 70" | "type = L4C_CMD_RENEW_LEASE" "length p = 24"
    | "type = L4C_CMD_STOP" "length p = 16" | "type = L4C_CMD_FORCE_IDR" "length p = 16"
    | "type = L4C_EVENT_READY" "length p = 30" | "type = L4C_EVENT_METRICS" "length p = 30"
    | "type = L4C_EVENT_DEGRADED" "length p = 4"
    | "type = L4C_EVENT_ERROR" "6 \<le> unat n" "unat n \<le> 4096"
    using assms(2,3) by (auto simp: valid_length_def word_le_nat_alt split: if_splits)
  then show ?thesis
    using assms(1,2)
    by cases (simp_all only: decode_body_fixed, rule decode_body_error, simp_all only:)
qed

lemma decode_Inr:
  "l4c_ipc_decode bs = Inr m \<longleftrightarrow>
     16 \<le> length bs \<and> l4c_read_u16_le bs = 1 \<and>
     valid_length (l4c_read_u16_le (drop 2 bs)) (l4c_read_u32_le (drop 4 bs)) \<and>
     length bs = 16 + unat (l4c_read_u32_le (drop 4 bs)) \<and>
     decode_body (l4c_read_u16_le (drop 2 bs)) (unat (l4c_read_u32_le (drop 4 bs))) (drop 16 bs)
       = Inr (body m) \<and>
     request_seq m = l4c_read_u64_le (drop 8 bs)"
  unfolding l4c_ipc_decode_def Let_def
  by (cases m, cases "decode_body (l4c_read_u16_le (drop 2 bs))
        (unat (l4c_read_u32_le (drop 4 bs))) (drop 16 bs)",
      simp_all only: if_split_eq1 sum.simps not_less de_Morgan_disj not_not l4c_message.simps
        l4c_message.ext_inject simp_thms)
    blast+

lemma frame_of_decode:
  assumes "l4c_ipc_decode bs = Inr m"
  shows "wf_body (body m) \<and> frame m = bs"
proof -
  let ?type = "l4c_read_u16_le (drop 2 bs)" and ?n = "l4c_read_u32_le (drop 4 bs)"
  from assms have hdr: "16 \<le> length bs" "l4c_read_u16_le bs = 1" "valid_length ?type ?n"
    "length bs = 16 + unat ?n" "decode_body ?type (unat ?n) (drop 16 bs) = Inr (body m)"
    "request_seq m = l4c_read_u64_le (drop 8 bs)"
    unfolding decode_Inr by blast+
  have n: "length (drop 16 bs) = unat ?n"
    unfolding length_drop hdr(4) by (rule diff_add_inverse)
  have inv: "wf_body (body m)" "msg_type (body m) = ?type" "payload_bytes (body m) = drop 16 bs"
    using decode_body_inverse [OF hdr(5) n hdr(3)] by blast+
  have len: "of_nat (length (payload_bytes (body m))) = ?n"
    unfolding inv(3) n by (rule word_of_its_unat [OF refl, symmetric])
  have "frame m = l4c_write_u16_le 1 @ l4c_write_u16_le ?type @ l4c_write_u32_le ?n
      @ l4c_write_u64_le (l4c_read_u64_le (drop 8 bs)) @ drop 16 bs"
    unfolding frame_def len unfolding inv(2,3) hdr(6) by (rule refl)
  also have "\<dots> = l4c_write_u16_le (l4c_read_u16_le (drop 0 bs)) @ drop 2 bs"
    using hdr(1,2) by (simp add: field_glue)
  also have "\<dots> = bs"
    using hdr(1) u16_field [of 2 0 bs] by simp
  finally show ?thesis using inv(1) by blast
qed

section \<open>Properties of the codec\<close>

text \<open>C26: the wire format is unambiguous. Encoding a well-formed message into a buffer that
  holds the largest frame succeeds and decoding the result gives the message back; and every
  byte string the decoder accepts is the encoding of the message it returns, so no two byte
  strings mean the same message and no accepted frame exceeds the parser's buffer.\<close>

theorem ipc_codec_roundtrip:
  "(wf_body (body m) \<longrightarrow>
      (\<exists>bs. l4c_ipc_encode m L4C_IPC_MAX_FRAME = Inr bs \<and> l4c_ipc_decode bs = Inr m)) \<and>
   (l4c_ipc_decode bs = Inr m \<longrightarrow>
      l4c_ipc_encode m L4C_IPC_MAX_FRAME = Inr bs \<and> length bs \<le> L4C_IPC_MAX_FRAME)"
proof -
  have fits: "\<not> L4C_IPC_MAX_FRAME < length (frame m)" if "wf_body (body m)"
    using payload_bounds [OF that] by (simp add: frame_length)
  then have "l4c_ipc_encode m L4C_IPC_MAX_FRAME = Inr (frame m)" if "wf_body (body m)"
    using that by (simp add: encode_wf)
  then show ?thesis
    using decode_frame frame_of_decode fits by (metis leI)
qed

theorem ipc_codec_roundtrip_witness:
  "let m = \<lparr>request_seq = 7, body = EventDegraded 1 4\<rparr> in
     l4c_ipc_encode m 4112 =
       Inr [1, 0, 3, 1, 4, 0, 0, 0, 7, 0, 0, 0, 0, 0, 0, 0, 1, 0, 4, 0] \<and>
     l4c_ipc_decode [1, 0, 3, 1, 4, 0, 0, 0, 7, 0, 0, 0, 0, 0, 0, 0, 1, 0, 4, 0] = Inr m"
proof -
  let ?m = "\<lparr>request_seq = 7, body = EventDegraded 1 4\<rparr>"
  have "l4c_ipc_encode ?m 4112 = Inr [1, 0, 3, 1, 4, 0, 0, 0, 7, 0, 0, 0, 0, 0, 0, 0, 1, 0, 4, 0]"
    by (simp add: encode_wf frame_def l4c_write_u16_le_def l4c_write_u32_le_def l4c_write_u64_le_def)
  then show ?thesis
    using ipc_codec_roundtrip [of ?m] by simp
qed

end
