(* ===== verification/Safety_Gate.thy ===== *)
theory Safety_Gate
  imports Capture_Deadline Capture_Pipeline Ipc_Protocol
begin

text \<open>
  The safety gate of \<open>tools/l4capture/src/safety/safety_gate.c\<close>: the one object that decides
  whether the capture host may send. It owns the lease and the frame pipeline, executes the
  commands received over IPC, and is stopped for good by a late tick, a lost desktop, a protocol
  error or a STOP. Every operation runs under the gate's lock, so a run of the program is a
  sequence of the steps below. The queries to Windows (job membership, session and desktop
  state) are inputs: \<open>desktop_available\<close> is a parameter of the operations that use it.
\<close>

section \<open>State and operations\<close>

abbreviation L4C_FORCE_IDR_MIN_INTERVAL_MS :: u64 where "L4C_FORCE_IDR_MIN_INTERVAL_MS \<equiv> 500"
abbreviation L4C_PROFILE_480P :: u16 where "L4C_PROFILE_480P \<equiv> 1"
abbreviation L4C_PROFILE_540P :: u16 where "L4C_PROFILE_540P \<equiv> 2"
abbreviation L4C_PROFILE_720P :: u16 where "L4C_PROFILE_720P \<equiv> 3"

text \<open>\<open>stop_event\<close> is the state of the manual-reset event.\<close>

record l4c_safety_gate =
  stop_event :: bool
  lease :: l4c_deadline
  pipeline :: l4c_pipeline
  lease_id :: bytes
  stream_id :: bytes
  started :: bool
  stopped :: bool
  idr_pending :: bool
  idr_sent :: bool
  last_idr_ms :: u64
  last_command_seq :: u64
  reason :: l4c_status
  last_start :: l4c_start

definition zero_start :: l4c_start where
  "zero_start = \<lparr>st_lease_id = replicate 16 0, st_stream_id = replicate 16 0,
     source_rect = \<lparr>left = 0, top = 0, right = 0, bottom = 0\<rparr>, geometry_gen = 0,
     profile_id = 0, rtp_port = 0, rtcp_port = 0, st_deadline_tick_ms = 0\<rparr>"

text \<open>The gate after a successful \<open>l4c_safety_init\<close> (the event could be created).\<close>

definition l4c_safety_init :: l4c_safety_gate where
  "l4c_safety_init = \<lparr>stop_event = False,
     lease = \<lparr>deadline_tick_ms = 0, last_seq = 0, last_tick_ms = 0, active = False, expired = False\<rparr>,
     pipeline = l4c_pipeline_init, lease_id = replicate 16 0, stream_id = replicate 16 0,
     started = False, stopped = False, idr_pending = False, idr_sent = False, last_idr_ms = 0,
     last_command_seq = 0, reason = L4C_OK, last_start = zero_start\<rparr>"

definition stop_locked :: "l4c_safety_gate \<Rightarrow> l4c_status \<Rightarrow> l4c_safety_gate" where
  "stop_locked gate r =
     (if stopped gate then gate
      else gate\<lparr>stopped := True, reason := r, idr_pending := False,
                pipeline := l4c_pipeline_stop (pipeline gate), stop_event := True\<rparr>)"

definition check_locked :: "l4c_safety_gate \<Rightarrow> u64 \<Rightarrow> l4c_safety_gate \<times> l4c_status" where
  "check_locked gate now =
     (if stopped gate then (gate, reason gate)
      else if started gate then
        let now = (if now < last_tick_ms (lease gate) then last_tick_ms (lease gate) else now);
            (l, status) = l4c_deadline_check (lease gate) now;
            gate = gate\<lparr>lease := l\<rparr>
        in (if status \<noteq> L4C_OK then stop_locked gate status else gate, status)
      else (gate, L4C_OK))"

definition l4c_safety_stop :: "l4c_safety_gate \<Rightarrow> l4c_status \<Rightarrow> l4c_safety_gate" where
  "l4c_safety_stop gate r = stop_locked gate r"

definition l4c_safety_check ::
  "l4c_safety_gate \<Rightarrow> u64 \<Rightarrow> bool \<Rightarrow> l4c_safety_gate \<times> l4c_status" where
  "l4c_safety_check gate now desktop_available =
     check_locked (if desktop_available then gate
                   else stop_locked gate L4C_ERR_SESSION_UNAVAILABLE) now"

fun nonzero_id_from :: "bytes \<Rightarrow> nat \<Rightarrow> nat \<Rightarrow> bool" where
  "nonzero_id_from ident i 0 = False"
| "nonzero_id_from ident i (Suc n) = (if ident ! i \<noteq> 0 then True else nonzero_id_from ident (Suc i) n)"

definition nonzero_id :: "bytes \<Rightarrow> bool" where
  "nonzero_id ident = nonzero_id_from ident 0 16"

text \<open>
  The command handler. \<open>command_body\<close> is the part between the checks and the label \<open>done\<close>:
  the new gate and the status that label sees. \<open>applied\<close> is the out-parameter of the renewal.
\<close>

definition command_start ::
  "l4c_safety_gate \<Rightarrow> u64 \<Rightarrow> l4c_start \<Rightarrow> u64 \<Rightarrow> l4c_safety_gate \<times> l4c_status" where
  "command_start gate seq start now =
     (if started gate \<or> \<not> nonzero_id (st_lease_id start) \<or> \<not> nonzero_id (st_stream_id start) \<or>
         profile_id start < L4C_PROFILE_480P \<or> L4C_PROFILE_720P < profile_id start \<or>
         rtp_port start \<noteq> 5004 \<or> rtcp_port start \<noteq> 5005
      then (gate, L4C_ERR_PROTOCOL)
      else case (l4c_rect_layout (source_rect start) :: l4c_status + 64 word l4c_raster_layout) of
          Inl status \<Rightarrow> (gate, status)
        | Inr _ \<Rightarrow>
            let (l, status) =
                  l4c_deadline_start (lease gate) (st_deadline_tick_ms start) seq now;
                gate = gate\<lparr>lease := l\<rparr>
            in if status \<noteq> L4C_OK then (gate, status)
               else (gate\<lparr>lease_id := st_lease_id start, stream_id := st_stream_id start,
                          started := True, last_command_seq := seq, last_start := start\<rparr>, L4C_OK))"

definition command_renew ::
  "l4c_safety_gate \<Rightarrow> u64 \<Rightarrow> l4c_renew \<Rightarrow> u64 \<Rightarrow> l4c_safety_gate \<times> l4c_status" where
  "command_renew gate seq rn now =
     (if rn_lease_id rn \<noteq> lease_id gate then (gate, L4C_ERR_PROTOCOL)
      else if seq \<le> last_command_seq gate then (gate, L4C_OK)
      else
        let (l, applied, status) =
              l4c_deadline_renew (lease gate) (new_deadline_tick_ms rn) seq now;
            gate = gate\<lparr>lease := l\<rparr>
        in (if applied then gate\<lparr>last_command_seq := seq\<rparr> else gate, status))"

definition command_body ::
  "l4c_safety_gate \<Rightarrow> l4c_message \<Rightarrow> u64 \<Rightarrow> l4c_safety_gate \<times> l4c_status" where
  "command_body gate message now =
     (if request_seq message = 0 then (gate, L4C_ERR_PROTOCOL)
      else case body message of
          CmdStart start \<Rightarrow> command_start gate (request_seq message) start now
        | _ \<Rightarrow>
            if \<not> started gate then (gate, L4C_ERR_PROTOCOL)
            else case body message of
                CmdRenewLease rn \<Rightarrow> command_renew gate (request_seq message) rn now
              | CmdStop sid \<Rightarrow>
                  if sid \<noteq> stream_id gate then (gate, L4C_ERR_PROTOCOL)
                  else (stop_locked gate L4C_OK, L4C_OK)
              | CmdForceIdr sid \<Rightarrow>
                  if sid \<noteq> stream_id gate then (gate, L4C_ERR_PROTOCOL)
                  else if last_command_seq gate < request_seq message
                  then (gate\<lparr>last_command_seq := request_seq message, idr_pending := True\<rparr>, L4C_OK)
                  else (gate, L4C_OK)
              | _ \<Rightarrow> (gate, L4C_ERR_PROTOCOL))"

definition l4c_safety_command ::
  "l4c_safety_gate \<Rightarrow> l4c_message \<Rightarrow> u64 \<Rightarrow> l4c_safety_gate \<times> l4c_status" where
  "l4c_safety_command gate message now =
     (let (gate, status) =
        (if stopped gate then
           (gate, if started gate \<and> body message = CmdStop (stream_id gate) then reason gate
                  else L4C_ERR_PROTOCOL)
         else
           let (gate, status) = check_locked gate now in
           if status \<noteq> L4C_OK then (gate, status)
           else command_body gate message
                  (if started gate \<and> now < last_tick_ms (lease gate) then last_tick_ms (lease gate)
                   else now))
      in (if status \<noteq> L4C_OK then stop_locked gate status else gate, status))"

definition l4c_safety_can_send :: "l4c_safety_gate \<Rightarrow> u64 \<Rightarrow> bool \<Rightarrow> l4c_safety_gate \<times> bool" where
  "l4c_safety_can_send gate now desktop_available =
     (let gate = (if desktop_available then gate
                  else stop_locked gate L4C_ERR_SESSION_UNAVAILABLE);
          gate = fst (check_locked gate now)
      in (gate, started gate \<and> \<not> stopped gate))"

definition l4c_safety_take_idr :: "l4c_safety_gate \<Rightarrow> u64 \<Rightarrow> l4c_safety_gate \<times> bool" where
  "l4c_safety_take_idr gate now =
     (let gate = fst (check_locked gate now) in
      if \<not> stopped gate \<and> started gate \<and> idr_pending gate \<and>
         (\<not> idr_sent gate \<or> (last_idr_ms gate \<le> now \<and>
            L4C_FORCE_IDR_MIN_INTERVAL_MS \<le> now - last_idr_ms gate))
      then (gate\<lparr>idr_sent := True, idr_pending := False, last_idr_ms := now\<rparr>, True)
      else (gate, False))"

definition l4c_safety_reason :: "l4c_safety_gate \<Rightarrow> l4c_status" where
  "l4c_safety_reason gate = reason gate"

section \<open>Runs of the gate\<close>

text \<open>\<open>GDue\<close> is the pacing call of the main loop on the gate's pipeline.\<close>

datatype gate_event =
    GStop l4c_status | GCheck u64 bool | GCommand l4c_message u64 | GCanSend u64 bool
  | GTakeIdr u64 | GDue u64 u32

fun gate_step :: "l4c_safety_gate \<Rightarrow> gate_event \<Rightarrow> l4c_safety_gate" where
  "gate_step g (GStop r) = l4c_safety_stop g r"
| "gate_step g (GCheck now d) = fst (l4c_safety_check g now d)"
| "gate_step g (GCommand m now) = fst (l4c_safety_command g m now)"
| "gate_step g (GCanSend now d) = fst (l4c_safety_can_send g now d)"
| "gate_step g (GTakeIdr now) = fst (l4c_safety_take_idr g now)"
| "gate_step g (GDue now rate) = g\<lparr>pipeline := fst (l4c_pipeline_due (pipeline g) now rate)\<rparr>"

definition gate_inv :: "l4c_safety_gate \<Rightarrow> bool" where
  "gate_inv g \<longleftrightarrow> (stopped g \<longleftrightarrow> pl_stopped (pipeline g)) \<and> (stop_event g \<longleftrightarrow> stopped g) \<and>
     (started g \<longrightarrow> active (lease g)) \<and>
     (started g \<and> \<not> stopped g \<longrightarrow> \<not> expired (lease g) \<and>
        last_tick_ms (lease g) < deadline_tick_ms (lease g)) \<and>
     (\<not> started g \<and> \<not> stopped g \<longrightarrow> \<not> active (lease g) \<and> \<not> expired (lease g)) \<and>
     (idr_pending g \<longrightarrow> started g \<and> \<not> stopped g)"

text \<open>Clamping makes the tick monotone, so only the deadline decides.\<close>

definition clamp :: "l4c_safety_gate \<Rightarrow> u64 \<Rightarrow> u64" where
  "clamp g now = (if now < last_tick_ms (lease g) then last_tick_ms (lease g) else now)"

lemma check_locked_cases:
  assumes "gate_inv g"
  shows "check_locked g now =
    (if stopped g then (g, reason g)
     else if \<not> started g then (g, L4C_OK)
     else if now < deadline_tick_ms (lease g)
     then (g\<lparr>lease := (lease g)\<lparr>last_tick_ms := clamp g now\<rparr>\<rparr>, L4C_OK)
     else (stop_locked (g\<lparr>lease := (lease g)\<lparr>expired := True\<rparr>\<rparr>) L4C_ERR_DEADLINE_EXPIRED,
           L4C_ERR_DEADLINE_EXPIRED))"
  using assms
  by (auto simp: check_locked_def gate_inv_def clamp_def l4c_deadline_check_def Let_def not_le
      not_less)

lemma stop_locked_inv: "gate_inv g \<Longrightarrow> gate_inv (stop_locked g r)"
  by (auto simp: stop_locked_def gate_inv_def l4c_pipeline_stop_def)

lemma stop_locked_fields [simp]:
  "stopped (stop_locked g r)" "lease (stop_locked g r) = lease g" "started (stop_locked g r) = started g"
  "lease_id (stop_locked g r) = lease_id g" "idr_sent (stop_locked g r) = idr_sent g"
  "last_idr_ms (stop_locked g r) = last_idr_ms g"
  "last_command_seq (stop_locked g r) = last_command_seq g"
  "stream_id (stop_locked g r) = stream_id g" "last_start (stop_locked g r) = last_start g"
  by (simp_all add: stop_locked_def)

lemma stop_stopped: "stopped g \<Longrightarrow> stop_locked g r = g"
  by (simp add: stop_locked_def)

lemma stop_locked_reason: "\<not> stopped g \<Longrightarrow> reason (stop_locked g r) = r"
  by (simp add: stop_locked_def)

lemma check_locked_inv: "gate_inv g \<Longrightarrow> gate_inv (fst (check_locked g now))"
proof -
  assume g: "gate_inv g"
  have "gate_inv (stop_locked (g\<lparr>lease := (lease g)\<lparr>expired := True\<rparr>\<rparr>) r)"
    if "\<not> stopped g" "started g" for r
    using g that by (auto simp: gate_inv_def stop_locked_def l4c_pipeline_stop_def)
  moreover have "gate_inv (g\<lparr>lease := (lease g)\<lparr>last_tick_ms := clamp g now\<rparr>\<rparr>)"
    if "\<not> stopped g" "started g" "now < deadline_tick_ms (lease g)"
    using g that by (auto simp: gate_inv_def clamp_def)
  ultimately show ?thesis
    using g by (simp add: check_locked_cases)
qed

lemma check_locked_stopped: "gate_inv g \<Longrightarrow> snd (check_locked g now) \<noteq> L4C_OK \<Longrightarrow>
    stopped (fst (check_locked g now))"
  by (auto simp: check_locked_cases split: if_splits)

lemma command_start_inv:
  assumes "gate_inv g" "\<not> stopped g" "command_start g seq st now = (g', status)"
  shows "(status = L4C_OK \<longrightarrow> gate_inv g') \<and> (status \<noteq> L4C_OK \<longrightarrow> gate_inv (stop_locked g' status))"
  using assms
  by (auto simp: command_start_def start_unfold gate_inv_def stop_locked_def l4c_pipeline_stop_def
      Let_def split: if_splits sum.splits prod.splits)

lemma command_renew_inv:
  assumes "gate_inv g" "\<not> stopped g" "started g" "command_renew g seq rn now = (g', status)"
  shows "(status = L4C_OK \<longrightarrow> gate_inv g') \<and> (status \<noteq> L4C_OK \<longrightarrow> gate_inv (stop_locked g' status))"
  using assms
  by (auto simp: command_renew_def renew_unfold in_time_def gate_inv_def stop_locked_def
      l4c_pipeline_stop_def Let_def split: if_splits prod.splits intro: less_trans)

lemma command_body_inv:
  assumes "gate_inv g" "\<not> stopped g" "command_body g m now = (g', status)"
  shows "(status = L4C_OK \<longrightarrow> gate_inv g') \<and> (status \<noteq> L4C_OK \<longrightarrow> gate_inv (stop_locked g' status))"
proof (cases "\<exists>s. body m = CmdStart s \<or> (\<exists>rn. body m = CmdRenewLease rn)")
  case True
  then show ?thesis
    using assms command_start_inv [OF assms(1,2)] command_renew_inv [OF assms(1,2)]
    by (auto simp: command_body_def stop_locked_inv split: if_splits)
next
  case False
  then show ?thesis
    using assms stop_locked_inv [OF assms(1)]
    by (cases "body m") (auto simp: command_body_def gate_inv_def split: if_splits)
qed

lemma command_cases:
  "l4c_safety_command g m now =
     (if stopped g then
        (g, if started g \<and> body m = CmdStop (stream_id g) then reason g else L4C_ERR_PROTOCOL)
      else case check_locked g now of (g1, st1) \<Rightarrow>
        if st1 \<noteq> L4C_OK then (stop_locked g1 st1, st1)
        else case command_body g1 m (if started g1 then clamp g1 now else now) of (g2, st2) \<Rightarrow>
          (if st2 \<noteq> L4C_OK then stop_locked g2 st2 else g2, st2))"
  by (auto simp: l4c_safety_command_def Let_def clamp_def stop_stopped split: prod.splits)

lemma command_inv:
  assumes "gate_inv g"
  shows "gate_inv (fst (l4c_safety_command g m now))"
proof -
  obtain g1 st1 where 1: "check_locked g now = (g1, st1)" by fastforce
  obtain g2 st2 where 2: "command_body g1 m (if started g1 then clamp g1 now else now) = (g2, st2)"
    by fastforce
  have g1: "gate_inv g1" using check_locked_inv [OF assms, of now] 1 by simp
  have "stopped g1 \<longleftrightarrow> stopped g \<or> st1 \<noteq> L4C_OK"
    if "\<not> stopped g"
    using that 1 by (auto simp: check_locked_cases [OF assms] split: if_splits)
  then show ?thesis
    unfolding command_cases 1 prod.case 2
    using assms stop_locked_inv [OF g1] command_body_inv [OF g1 _ 2]
    by (cases "stopped g"; cases "st1 = L4C_OK"; cases "st2 = L4C_OK") simp_all
qed

lemma command_body_open:
  "command_body g m now = (g', st) \<Longrightarrow> st \<noteq> L4C_OK \<Longrightarrow> stopped g' = stopped g"
  by (cases "body m") (auto simp: command_body_def command_start_def command_renew_def Let_def
      split: if_splits prod.splits sum.splits)

lemma command_failure:
  assumes "gate_inv g"
  shows "case l4c_safety_command g m now of (g', status) \<Rightarrow>
     status \<noteq> L4C_OK \<longrightarrow> stopped g' \<and> (\<not> stopped g \<longrightarrow> reason g' = status)"
proof -
  obtain g1 st1 where 1: "check_locked g now = (g1, st1)" by fastforce
  obtain g2 st2 where 2: "command_body g1 m (if started g1 then clamp g1 now else now) = (g2, st2)"
    by fastforce
  have "\<not> stopped g \<Longrightarrow> st1 \<noteq> L4C_OK \<Longrightarrow> stopped g1 \<and> reason g1 = st1"
    "\<not> stopped g \<Longrightarrow> st1 = L4C_OK \<Longrightarrow> \<not> stopped g1"
    using 1 by (auto simp: check_locked_cases [OF assms] stop_locked_def split: if_splits)
  then show ?thesis
    unfolding command_cases 1 prod.case 2 using command_body_open [OF 2]
    by (cases "stopped g"; cases "st1 = L4C_OK"; cases "st2 = L4C_OK")
      (simp_all add: stop_stopped stop_locked_reason)
qed

lemma gate_step_inv:
  assumes "gate_inv g"
  shows "gate_inv (gate_step g e)"
proof (cases e)
  case (GTakeIdr now)
  have "gate_inv g1 \<Longrightarrow> gate_inv (g1\<lparr>idr_sent := True, idr_pending := False, last_idr_ms := now\<rparr>)" for g1
    by (simp add: gate_inv_def)
  then show ?thesis
    using GTakeIdr check_locked_inv [OF assms] by (simp add: l4c_safety_take_idr_def Let_def)
next
  case (GDue now r)
  have "pl_stopped (fst (l4c_pipeline_due (pipeline g) now r)) = pl_stopped (pipeline g)"
    by (simp add: l4c_pipeline_due_def Let_def)
  then show ?thesis using GDue assms by (simp add: gate_inv_def) blast
next
  case (GCommand m now)
  then show ?thesis using command_inv [OF assms] by simp
qed (simp_all add: l4c_safety_stop_def l4c_safety_check_def l4c_safety_can_send_def Let_def assms
    stop_locked_inv check_locked_inv)

lemma init_inv: "gate_inv l4c_safety_init"
  by (simp add: gate_inv_def l4c_safety_init_def l4c_pipeline_init_def)

interpretation gate_runs: step_invariant gate_step gate_inv
  by unfold_locales (rule gate_step_inv)

lemma stopped_frozen: "gate_inv g \<Longrightarrow> stopped g \<Longrightarrow> gate_step g e = g"
  by (cases e) (auto simp: l4c_safety_stop_def l4c_safety_check_def l4c_safety_can_send_def
      l4c_safety_take_idr_def command_cases check_locked_cases stop_stopped Let_def gate_inv_def
      l4c_pipeline_due_def)

interpretation gate_latch: latch gate_step "\<lambda>g. gate_inv g \<and> stopped g" id
  by unfold_locales (simp_all add: stopped_frozen)

section \<open>Where the deadline comes from\<close>

text \<open>
  The START commands received, the deadlines a lease was given by its START and by the renewals
  that name it, and the gate whose identity and deadline come from these.
\<close>

definition start_in :: "gate_event list \<Rightarrow> l4c_start \<Rightarrow> bool" where
  "start_in es s \<longleftrightarrow> (\<exists>m t. GCommand m t \<in> set es \<and> body m = CmdStart s)"

definition deadlines_in :: "gate_event list \<Rightarrow> l4c_start \<Rightarrow> u64 set" where
  "deadlines_in es s = insert (st_deadline_tick_ms s)
     {d. \<exists>m t rn. GCommand m t \<in> set es \<and> body m = CmdRenewLease rn \<and>
        rn_lease_id rn = st_lease_id s \<and> d = new_deadline_tick_ms rn}"

definition lease_source :: "gate_event list \<Rightarrow> l4c_safety_gate \<Rightarrow> bool" where
  "lease_source es g \<longleftrightarrow> start_in es (last_start g) \<and> lease_id g = st_lease_id (last_start g) \<and>
     stream_id g = st_stream_id (last_start g) \<and>
     rtp_port (last_start g) = 5004 \<and> rtcp_port (last_start g) = 5005 \<and>
     deadline_tick_ms (lease g) \<in> deadlines_in es (last_start g)"

lemma sources_grow:
  "start_in es s \<Longrightarrow> start_in (es @ fs) s" "d \<in> deadlines_in es s \<Longrightarrow> d \<in> deadlines_in (es @ fs) s"
  by (auto simp: start_in_def deadlines_in_def)

lemma lease_source_cong:
  "lease_source es g \<Longrightarrow> lease_id g' = lease_id g \<Longrightarrow> stream_id g' = stream_id g \<Longrightarrow>
     last_start g' = last_start g \<Longrightarrow> deadline_tick_ms (lease g') = deadline_tick_ms (lease g) \<Longrightarrow>
     lease_source (es @ fs) g'"
  by (simp add: lease_source_def sources_grow)

lemma lease_source_stop [simp]: "lease_source es (stop_locked g r) = lease_source es g"
  by (simp add: lease_source_def)

text \<open>What a step leaves alone.\<close>

lemma check_locked_keeps:
  assumes "gate_inv g" "check_locked g now = (g', st)"
  shows "lease_id g' = lease_id g" "stream_id g' = stream_id g" "last_start g' = last_start g"
    "deadline_tick_ms (lease g') = deadline_tick_ms (lease g)" "started g' = started g"
    "idr_sent g' = idr_sent g" "last_idr_ms g' = last_idr_ms g"
    "last_command_seq g' = last_command_seq g" "idr_pending g' \<Longrightarrow> idr_pending g"
    "last_seq (lease g') = last_seq (lease g)"
  using assms by (auto simp: check_locked_cases stop_locked_def split: if_splits)

lemma command_start_source:
  "command_start g (request_seq m) st now = (g', status) \<Longrightarrow> body m = CmdStart st \<Longrightarrow>
     (started g' \<and> \<not> started g \<longrightarrow> lease_source (es @ [GCommand m t]) g') \<and>
     (started g \<longrightarrow> g' = g)"
  by (auto simp: command_start_def lease_source_def start_in_def deadlines_in_def start_unfold
      Let_def split: if_splits sum.splits prod.splits)

lemma command_renew_source:
  assumes "command_renew g (request_seq m) rn now = (g', status)" "body m = CmdRenewLease rn"
    "lease_source es g"
  shows "lease_source (es @ [GCommand m t]) g'"
proof (cases "deadline_tick_ms (lease g') = deadline_tick_ms (lease g)")
  case True
  then show ?thesis
    using assms by (intro lease_source_cong [OF assms(3)])
      (auto simp: command_renew_def Let_def split: if_splits prod.splits)
next
  case False
  have "rn_lease_id rn = lease_id g" "deadline_tick_ms (lease g') = new_deadline_tick_ms rn"
    "lease_id g' = lease_id g" "stream_id g' = stream_id g" "last_start g' = last_start g"
    using False assms(1)
    by (auto simp: command_renew_def renew_unfold Let_def split: if_splits prod.splits)
  moreover from this have "deadline_tick_ms (lease g') \<in> deadlines_in (es @ [GCommand m t]) (last_start g)"
    using assms(2,3) by (auto simp: deadlines_in_def lease_source_def)
  ultimately show ?thesis
    using assms(3) by (simp add: lease_source_def sources_grow)
qed

lemma command_body_source:
  assumes "command_body g m now = (g', status)" "started g \<longrightarrow> lease_source es g"
  shows "started g' \<longrightarrow> lease_source (es @ [GCommand m t]) g'"
proof (cases "body m")
  case (CmdStart s)
  then show ?thesis
    using assms command_start_source [of g m s now g' status es t] lease_source_cong [of es g g "[GCommand m t]"]
    by (auto simp: command_body_def split: if_splits)
next
  case (CmdRenewLease rn)
  then show ?thesis
    using assms command_renew_source [of g m rn now g' status es t]
      lease_source_cong [of es g g "[GCommand m t]"]
    by (auto simp: command_body_def split: if_splits)
qed (use assms in \<open>auto simp: command_body_def split: if_splits intro!: lease_source_cong [of es g]\<close>)

lemma command_source:
  assumes "gate_inv g" "started g \<longrightarrow> lease_source es g"
  shows "started (gate_step g (GCommand m t)) \<longrightarrow>
    lease_source (es @ [GCommand m t]) (gate_step g (GCommand m t))"
proof -
  obtain g1 st1 where 1: "check_locked g t = (g1, st1)" by fastforce
  let ?now = "if started g1 then clamp g1 t else t"
  obtain g2 st2 where 2: "command_body g1 m ?now = (g2, st2)" by fastforce
  have k: "lease_source (es @ [GCommand m t]) g'" if "started g" "lease_id g' = lease_id g" "stream_id g' = stream_id g"
     "last_start g' = last_start g" "deadline_tick_ms (lease g') = deadline_tick_ms (lease g)" for g'
    using that assms(2) lease_source_cong [of es g g' "[GCommand m t]"] by auto
  have "started g1 \<longrightarrow> lease_source es g1"
    using assms(2) check_locked_keeps [OF assms(1) 1] lease_source_cong [of es g g1 "[]"] by auto
  then have "started g2 \<longrightarrow> lease_source (es @ [GCommand m t]) g2"
    using command_body_source [OF 2] by blast
  then show ?thesis
    using k 1 2 check_locked_keeps [OF assms(1) 1]
    by (auto simp: command_cases intro: lease_source_cong)
qed

lemma run_source:
  "started (foldl gate_step l4c_safety_init es) \<longrightarrow>
     lease_source es (foldl gate_step l4c_safety_init es)"
proof (induction es rule: rev_induct)
  case Nil
  then show ?case by (simp add: l4c_safety_init_def)
next
  case (snoc e es)
  let ?g = "foldl gate_step l4c_safety_init es"
  have inv: "gate_inv ?g" by (rule gate_runs.inv_run [OF init_inv])
  show ?case
  proof (cases e)
    case (GCommand m t)
    then show ?thesis using command_source [OF inv snoc] by simp
  next
    case (GTakeIdr t)
    then show ?thesis
      using snoc check_locked_keeps [OF inv prod.collapse [symmetric], of t]
      by (auto simp: l4c_safety_take_idr_def Let_def intro!: lease_source_cong [of es ?g])
  next
    case (GCheck t d)
    then show ?thesis
      using snoc check_locked_keeps [OF inv prod.collapse [symmetric], of t]
        check_locked_keeps [OF stop_locked_inv [OF inv] prod.collapse [symmetric], of _ t]
      by (auto simp: l4c_safety_check_def intro!: lease_source_cong [of es ?g])
  next
    case (GCanSend t d)
    then show ?thesis
      using snoc check_locked_keeps [OF inv prod.collapse [symmetric], of t]
        check_locked_keeps [OF stop_locked_inv [OF inv] prod.collapse [symmetric], of _ t]
      by (auto simp: l4c_safety_can_send_def Let_def intro!: lease_source_cong [of es ?g])
  qed (use snoc in \<open>auto simp: l4c_safety_stop_def intro!: lease_source_cong [of es ?g]\<close>)
qed

section \<open>Forced key frames\<close>

text \<open>Runs that record the times at which a forced key frame was granted, latest first.\<close>

fun idr_exec :: "l4c_safety_gate \<times> u64 list \<Rightarrow> gate_event \<Rightarrow> l4c_safety_gate \<times> u64 list" where
  "idr_exec (g, ts) (GTakeIdr now) =
     (case l4c_safety_take_idr g now of (g', granted) \<Rightarrow> (g', if granted then now # ts else ts))"
| "idr_exec (g, ts) e = (gate_step g e, ts)"

definition is_force :: "gate_event \<Rightarrow> bool" where
  "is_force e = (case e of GCommand m _ \<Rightarrow> (case body m of CmdForceIdr _ \<Rightarrow> True | _ \<Rightarrow> False) | _ \<Rightarrow> False)"

abbreviation idr_gap :: "u64 \<Rightarrow> u64 \<Rightarrow> bool" where
  "idr_gap later earlier \<equiv> unat earlier + 500 \<le> unat later"

definition idr_inv :: "nat \<Rightarrow> l4c_safety_gate \<times> u64 list \<Rightarrow> bool" where
  "idr_inv n gt \<longleftrightarrow> (case gt of (g, ts) \<Rightarrow> gate_inv g \<and> (idr_sent g \<longleftrightarrow> ts \<noteq> []) \<and>
     (ts \<noteq> [] \<longrightarrow> last_idr_ms g = hd ts) \<and> sorted_wrt idr_gap ts \<and>
     length ts + (if idr_pending g then 1 else 0) \<le> n)"

lemma command_body_idr:
  "command_body g m now = (g', st) \<Longrightarrow> idr_sent g' = idr_sent g \<and> last_idr_ms g' = last_idr_ms g \<and>
     (idr_pending g' \<longrightarrow> idr_pending g \<or> is_force (GCommand m t))"
  by (cases "body m") (auto simp: command_body_def command_start_def command_renew_def is_force_def
      stop_locked_def Let_def split: if_splits prod.splits sum.splits)

lemma stop_locked_idr [simp]: "idr_pending (stop_locked g r) \<longleftrightarrow> stopped g \<and> idr_pending g"
  by (simp add: stop_locked_def)

lemma command_idr:
  assumes "gate_inv g"
  shows "idr_sent (fst (l4c_safety_command g m t)) = idr_sent g \<and>
    last_idr_ms (fst (l4c_safety_command g m t)) = last_idr_ms g \<and>
    (idr_pending (fst (l4c_safety_command g m t)) \<longrightarrow> idr_pending g \<or> is_force (GCommand m t))"
proof -
  obtain g1 st1 where 1: "check_locked g t = (g1, st1)" by fastforce
  obtain g2 st2 where 2: "command_body g1 m (if started g1 then clamp g1 t else t) = (g2, st2)"
    by fastforce
  show ?thesis
    unfolding command_cases 1 prod.case 2
    using check_locked_keeps(6,7,9) [OF assms 1] command_body_idr [OF 2, of t]
    by (cases "stopped g"; cases "st1 = L4C_OK"; cases "st2 = L4C_OK") (simp_all, blast+)
qed

lemma quiet_step_idr:
  assumes "gate_inv g" "\<And>t. e \<noteq> GTakeIdr t"
  shows "idr_sent (gate_step g e) = idr_sent g \<and> last_idr_ms (gate_step g e) = last_idr_ms g \<and>
    (idr_pending (gate_step g e) \<longrightarrow> idr_pending g \<or> is_force e)"
proof (cases e)
  case (GCommand m t)
  then show ?thesis using command_idr [OF assms(1)] by simp
qed (use assms check_locked_keeps(6,7,9) [OF assms(1) prod.collapse [symmetric]]
    check_locked_keeps(6,7,9) [OF stop_locked_inv [OF assms(1)] prod.collapse [symmetric]] in
    \<open>auto simp: l4c_safety_stop_def l4c_safety_check_def l4c_safety_can_send_def Let_def\<close>)

lemma idr_grant:
  assumes "l4c_safety_take_idr g now = (g', True)" "gate_inv g"
  shows "idr_pending g" "\<not> idr_pending g'" "last_idr_ms g' = now" "idr_sent g'"
    "idr_sent g \<Longrightarrow> idr_gap now (last_idr_ms g)"
proof -
  obtain g1 st where 1: "check_locked g now = (g1, st)" by fastforce
  note k = check_locked_keeps [OF assms(2) 1]
  have *: "idr_pending g1" "\<not> idr_sent g1 \<or> last_idr_ms g1 \<le> now \<and> 500 \<le> now - last_idr_ms g1"
    and g': "g' = g1\<lparr>idr_sent := True, idr_pending := False, last_idr_ms := now\<rparr>"
    using assms(1) by (auto simp: l4c_safety_take_idr_def 1 Let_def split: if_splits)
  then show "idr_pending g" "\<not> idr_pending g'" "last_idr_ms g' = now" "idr_sent g'"
    using k by simp_all
  assume "idr_sent g"
  then have "last_idr_ms g \<le> now" "500 \<le> now - last_idr_ms g" using * k by auto
  then show "idr_gap now (last_idr_ms g)"
    by (simp add: word_le_nat_alt unat_sub)
qed

lemma idr_refused:
  assumes "l4c_safety_take_idr g now = (g', False)" "gate_inv g"
  shows "idr_sent g' = idr_sent g" "last_idr_ms g' = last_idr_ms g" "idr_pending g' \<Longrightarrow> idr_pending g"
  using assms check_locked_keeps(6,7,9) [OF assms(2) prod.collapse [symmetric], of now]
  by (auto simp: l4c_safety_take_idr_def Let_def split: if_splits)

lemma idr_exec_inv:
  assumes "idr_inv n s"
  shows "idr_inv (n + (if is_force e then 1 else 0)) (idr_exec s e)"
proof -
  obtain g ts where s: "s = (g, ts)" by (cases s)
  have inv: "gate_inv g" "idr_sent g \<longleftrightarrow> ts \<noteq> []" "ts \<noteq> [] \<longrightarrow> last_idr_ms g = hd ts"
    "sorted_wrt idr_gap ts" "length ts + (if idr_pending g then 1 else 0) \<le> n"
    using assms by (auto simp: idr_inv_def s)
  have next_inv: "gate_inv (gate_step g e)" by (rule gate_step_inv [OF inv(1)])
  show ?thesis
  proof (cases "\<exists>t. e = GTakeIdr t")
    case False
    then have "idr_exec s e = (gate_step g e, ts)" by (cases e) (auto simp: s)
    then show ?thesis
      using quiet_step_idr [OF inv(1), of e] False inv next_inv by (auto simp: idr_inv_def split: if_splits)
  next
    case True
    then obtain t where e: "e = GTakeIdr t" by blast
    obtain g' b where t: "l4c_safety_take_idr g t = (g', b)" by fastforce
    then have g': "gate_inv g'" using next_inv e by simp
    show ?thesis
    proof (cases b)
      case True
      then have "l4c_safety_take_idr g t = (g', True)" using t by simp
      note gr = idr_grant [OF this inv(1)]
      have "sorted_wrt idr_gap (t # ts)"
        using gr(5) inv(2-4) by (cases ts) fastforce+
      then show ?thesis
        using gr(1-4) inv(5) g' t True by (simp add: idr_inv_def s e is_force_def)
    next
      case False
      then have f: "l4c_safety_take_idr g t = (g', False)" using t by simp
      then show ?thesis
        using idr_refused [OF f inv(1)] inv g' False
        by (auto simp: idr_inv_def s e is_force_def split: if_splits)
    qed
  qed
qed

lemma idr_run:
  "idr_inv (length (filter is_force es)) (foldl idr_exec (l4c_safety_init, []) es)"
proof (induction es rule: rev_induct)
  case Nil
  show ?case by (simp add: idr_inv_def init_inv) (simp add: l4c_safety_init_def)
next
  case (snoc e es)
  then show ?case using idr_exec_inv [OF snoc, of e] by (cases "is_force e") auto
qed

section \<open>Properties\<close>

lemma can_send_true:
  assumes "gate_inv g" "snd (l4c_safety_can_send g now d)"
  shows "d \<and> started g \<and> \<not> stopped g \<and> now < deadline_tick_ms (lease g)"
proof -
  have "check_locked (stop_locked g r) now = (stop_locked g r, reason (stop_locked g r))" for r
    by (simp add: check_locked_def)
  then show ?thesis
    using assms by (cases d) (auto simp: l4c_safety_can_send_def check_locked_cases Let_def
        split: if_splits)
qed

text \<open>C2: nothing is sent without authority. In any run of the gate from its initialisation,
  a permission to send means that the desktop is available, the gate has not been stopped, the
  session was opened by a START command for the ports 5004 and 5005, and the tick lies before the
  deadline in force, which is the deadline of that START or of a renewal naming the same lease.\<close>

theorem gate_send_authorised:
  defines "g \<equiv> \<lambda>es. foldl gate_step l4c_safety_init es"
  assumes "snd (l4c_safety_can_send (g es) now desktop)"
  shows "desktop \<and> started (g es) \<and> \<not> stopped (g es) \<and>
    now < deadline_tick_ms (lease (g es)) \<and>
    (let s = last_start (g es) in start_in es s \<and> rtp_port s = 5004 \<and> rtcp_port s = 5005 \<and>
      lease_id (g es) = st_lease_id s \<and>
      deadline_tick_ms (lease (g es)) \<in> deadlines_in es s)"
proof -
  have "gate_inv (g es)" unfolding g_def by (rule gate_runs.inv_run [OF init_inv])
  moreover have "started (g es) \<longrightarrow> lease_source es (g es)" unfolding g_def by (rule run_source)
  ultimately show ?thesis
    using can_send_true [OF _ assms(2)] by (simp add: lease_source_def Let_def)
qed

definition demo_start :: "l4c_message" where
  "demo_start = \<lparr>request_seq = 1, body = CmdStart
     \<lparr>st_lease_id = replicate 16 7, st_stream_id = replicate 16 9,
      source_rect = \<lparr>left = 0, top = 0, right = 1280, bottom = 720\<rparr>, geometry_gen = 1,
      profile_id = 1, rtp_port = 5004, rtcp_port = 5005, st_deadline_tick_ms = 5000\<rparr>\<rparr>"

lemma demo_start_run:
  "foldl gate_step l4c_safety_init [GCommand demo_start 1000] =
     l4c_safety_init\<lparr>lease := \<lparr>deadline_tick_ms = 5000, last_seq = 1, last_tick_ms = 1000,
         active = True, expired = False\<rparr>,
       lease_id := replicate 16 7, stream_id := replicate 16 9, started := True,
       last_command_seq := 1, last_start :=
     \<lparr>st_lease_id = replicate 16 7, st_stream_id = replicate 16 9,
      source_rect = \<lparr>left = 0, top = 0, right = 1280, bottom = 720\<rparr>, geometry_gen = 1,
      profile_id = 1, rtp_port = 5004, rtcp_port = 5005, st_deadline_tick_ms = 5000\<rparr>\<rparr>"
proof -
  have "nonzero_id (replicate 16 7)" "nonzero_id (replicate 16 9)" by code_simp+
  moreover have "l4c_rect_layout \<lparr>left = 0, top = 0, right = 1280, bottom = 720\<rparr> =
      Inr \<lparr>stride = 5120, raster_bytes = (3686400 :: 64 word)\<rparr>"
    by (simp add: l4c_rect_layout_def l4c_bgra_layout_def l4c_checked_mul_def)
  ultimately show ?thesis
    by (simp add: command_cases demo_start_def command_body_def command_start_def
        check_locked_def l4c_safety_init_def start_unfold)
qed

theorem gate_send_authorised_witness:
  "snd (l4c_safety_can_send (foldl gate_step l4c_safety_init [GCommand demo_start 1000]) 4999 True) \<and>
   (4999 :: u64) < deadline_tick_ms (lease (foldl gate_step l4c_safety_init [GCommand demo_start 1000]))"
proof -
  have "snd (l4c_safety_can_send (foldl gate_step l4c_safety_init [GCommand demo_start 1000]) 4999 True)"
    unfolding demo_start_run
    by (simp add: l4c_safety_can_send_def check_locked_def l4c_deadline_check_def
        l4c_safety_init_def Let_def)
  then show ?thesis
    using gate_send_authorised [of "[GCommand demo_start 1000]" 4999 True] by blast
qed

text \<open>C5: the gate fails closed. A command that is answered with an error leaves the gate stopped
  with that error as the reason (unless it was stopped before); and once the gate is stopped, no
  sequence of operations changes anything in it: the reason stays the first one, sending and
  forced key frames are refused, and every command but a repeated STOP is a protocol error.\<close>

theorem gate_fails_closed:
  defines "g \<equiv> \<lambda>es. foldl gate_step l4c_safety_init es"
  shows "(case l4c_safety_command (g es) m now of (g', status) \<Rightarrow>
      status \<noteq> L4C_OK \<longrightarrow> stopped g' \<and> (\<not> stopped (g es) \<longrightarrow> reason g' = status)) \<and>
    (stopped (g es) \<longrightarrow> g (es @ fs) = g es \<and> \<not> snd (l4c_safety_can_send (g es) now d) \<and>
      \<not> snd (l4c_safety_take_idr (g es) now) \<and> stop_event (g es) \<and>
      (body m \<noteq> CmdStop (stream_id (g es)) \<longrightarrow>
         snd (l4c_safety_command (g es) m now) = L4C_ERR_PROTOCOL))"
proof -
  have inv: "gate_inv (g es)" unfolding g_def by (rule gate_runs.inv_run [OF init_inv])
  have "g (es @ fs) = g es" if "stopped (g es)"
    using gate_latch.view_run [of "g es" fs] inv that by (simp add: g_def)
  moreover have "case l4c_safety_command (g es) m now of (g', status) \<Rightarrow>
      status \<noteq> L4C_OK \<longrightarrow> stopped g' \<and> (\<not> stopped (g es) \<longrightarrow> reason g' = status)"
    by (rule command_failure [OF inv])
  ultimately show ?thesis
    using inv by (auto simp: l4c_safety_can_send_def l4c_safety_take_idr_def check_locked_cases
        command_cases stop_stopped gate_inv_def Let_def)
qed

theorem gate_fails_closed_witness:
  "let g = foldl gate_step l4c_safety_init [GStop L4C_ERR_NETWORK] in
     stopped g \<and> foldl gate_step l4c_safety_init ([GStop L4C_ERR_NETWORK] @ [GStop L4C_OK]) = g \<and>
     snd (l4c_safety_command g demo_start 1000) = L4C_ERR_PROTOCOL"
proof -
  have "stopped (foldl gate_step l4c_safety_init [GStop L4C_ERR_NETWORK])"
    by (simp add: l4c_safety_stop_def)
  then show ?thesis
    using gate_fails_closed [of "[GStop L4C_ERR_NETWORK]" demo_start 1000 "[GStop L4C_OK]" True]
    by (simp add: demo_start_def Let_def)
qed

text \<open>C4: forced key frames are rationed. In any run, two grants are at least 500 ms apart and
  there are at most as many grants as FORCE_IDR commands.\<close>

theorem gate_idr_rationed:
  "case foldl idr_exec (l4c_safety_init, []) es of (g, ts) \<Rightarrow>
     g = foldl gate_step l4c_safety_init es \<and>
     sorted_wrt (\<lambda>later earlier. unat earlier + 500 \<le> unat later) ts \<and>
     length ts \<le> length (filter is_force es)"
proof -
  have "fst (idr_exec s e) = gate_step (fst s) e" for s e
    by (cases s; cases e) (simp_all split: prod.split)
  then have "fst (foldl idr_exec s es) = foldl gate_step (fst s) es" for s
    by (induction es arbitrary: s) simp_all
  from this [of "(l4c_safety_init, [])"] show ?thesis
    using idr_run [of es] by (auto simp: idr_inv_def split: prod.splits)
qed

end
