(* ===== verification/Ipc_Stream.thy ===== *)
theory Ipc_Stream
  imports Ipc_Protocol
begin

text \<open>
  The incremental parser of \<open>tools/l4capture/src/ipc/ipc_protocol.c\<close> on streams: its buffer is
  never overrun whatever bytes arrive, a call always returns and makes progress, and a stream of
  encoded messages is recovered exactly however the pipe splits it into reads.
\<close>

section \<open>The parser's buffer\<close>

definition parser_ok :: "l4c_ipc_parser \<Rightarrow> bool" where
  "parser_ok p \<longleftrightarrow> failed p \<or>
     length (parsed p) < expected p \<and> 16 \<le> expected p \<and> expected p \<le> L4C_IPC_MAX_FRAME"

lemma valid_length_bound: "valid_length t n \<Longrightarrow> unat n \<le> 4096 \<and> 0 < unat n"
  by (auto simp: valid_length_def word_le_nat_alt split: if_splits)

lemma parser_init_ok: "parser_ok l4c_ipc_parser_init"
  by (simp add: parser_ok_def l4c_ipc_parser_init_def)

text \<open>The copy of a round fits between the bytes already held and the expected length.\<close>

lemma feed_take_fits:
  "parser_ok p \<Longrightarrow> \<not> failed p \<Longrightarrow>
     feed_take p rest = min (expected p - length (parsed p)) (length rest) \<and>
     length (parsed p @ take (feed_take p rest) rest) \<le> expected p \<and>
     (rest \<noteq> [] \<longrightarrow> 0 < feed_take p rest)"
  by (auto simp: parser_ok_def feed_take_def min_def)

lemma decode_body_status: "decode_body t n p = Inl st \<Longrightarrow> st = L4C_ERR_PROTOCOL"
  by (simp add: decode_body_def split: if_splits)

lemma decode_status: "l4c_ipc_decode bs = Inl st \<Longrightarrow> st = L4C_ERR_PROTOCOL"
  unfolding l4c_ipc_decode_def Let_def
  by (auto simp only: sum.simps dest: decode_body_status split: if_splits sum.splits)

lemma feed_frame_go:
  "length (parsed p) \<le> expected p \<Longrightarrow> 16 \<le> expected p \<Longrightarrow> expected p \<le> 4112 \<Longrightarrow>
     feed_frame p = Inl q \<Longrightarrow> \<not> failed p \<Longrightarrow> parser_ok q \<and> \<not> failed q"
  using valid_length_bound
  by (fastforce simp: feed_frame_def parser_ok_def Let_def split: if_splits sum.splits)

lemma feed_frame_stop:
  "\<not> failed p \<Longrightarrow> feed_frame p = Inr (q, st, m) \<Longrightarrow>
     parser_ok q \<and> (failed q \<longleftrightarrow> st \<noteq> L4C_OK) \<and> (st = L4C_OK \<longleftrightarrow> m \<noteq> None) \<and>
     (st \<noteq> L4C_OK \<longrightarrow> st = L4C_ERR_PROTOCOL)"
  by (auto simp: feed_frame_def parser_ok_def Let_def dest: decode_status
      split: if_splits sum.splits)

text \<open>
  What one call promises on any bytes: the buffer stays within its bounds, no byte is counted
  twice, bytes are left over only behind a complete message or an error, and a non-empty input
  makes progress.
\<close>

definition feed_contract :: "l4c_ipc_parser \<Rightarrow> bytes \<Rightarrow> nat \<Rightarrow>
    l4c_ipc_parser \<times> nat \<times> l4c_status \<times> l4c_message option \<Rightarrow> bool" where
  "feed_contract p bs c0 r \<longleftrightarrow> (case r of (q, c, st, m) \<Rightarrow>
     parser_ok q \<and> c0 \<le> c \<and> c \<le> c0 + length bs \<and> (bs \<noteq> [] \<longrightarrow> c0 < c) \<and>
     (failed q \<longleftrightarrow> st \<noteq> L4C_OK) \<and>
     (st \<noteq> L4C_OK \<longrightarrow> st = L4C_ERR_PROTOCOL \<and> m = None) \<and>
     (st = L4C_OK \<and> m = None \<longrightarrow> c = c0 + length bs))"

lemma feed_loop_contract:
  "parser_ok p \<Longrightarrow> \<not> failed p \<Longrightarrow> feed_contract p bs c0 (feed_loop p bs c0)"
proof (induction p bs c0 rule: feed_loop.induct)
  case (1 p bs c0)
  show ?case
  proof (cases "bs = []")
    case True
    then show ?thesis
      using 1(2,3) by (simp add: feed_loop.simps [of p] feed_contract_def)
  next
    case False
    let ?n = "feed_take p bs"
    let ?p = "p\<lparr>parsed := parsed p @ take ?n bs\<rparr>"
    have n: "?n \<le> length bs" "0 < ?n" and fit: "length (parsed ?p) \<le> expected ?p"
      using feed_take_fits [OF 1(2,3), of bs] False by auto
    have exp: "16 \<le> expected ?p" "expected ?p \<le> 4112" "\<not> failed ?p"
      using 1(2,3) by (auto simp: parser_ok_def)
    show ?thesis
    proof (cases "feed_frame ?p")
      case (Inl q)
      have ok: "parser_ok q" "\<not> failed q"
        using feed_frame_go [OF fit exp(1,2) Inl exp(3)] by auto
      have "feed_contract q (drop ?n bs) (c0 + ?n) (feed_loop q (drop ?n bs) (c0 + ?n))"
        by (rule 1(1) [OF False refl refl Inl ok])
      then show ?thesis
        using n False Inl by (subst feed_loop.simps) (auto simp: feed_contract_def Let_def)
    next
      case (Inr r)
      obtain q st m where r: "r = (q, st, m)" by (cases r)
      show ?thesis
        using feed_frame_stop [OF exp(3) Inr [unfolded r]] n False Inr
        by (subst feed_loop.simps) (auto simp: feed_contract_def Let_def r)
    qed
  qed
qed

text \<open>
  Progress needs no invariant: a call on a non-empty input that does not fail consumes a byte,
  or it delivers the complete frame the buffer already held.
\<close>

definition full_flag :: "l4c_ipc_parser \<Rightarrow> nat" where
  "full_flag p = (if length (parsed p) = expected p then 1 else 0)"

lemma feed_take_bounds:
  "feed_take p bs \<le> length bs" "bs \<noteq> [] \<Longrightarrow> feed_take p bs = 0 \<Longrightarrow> length (parsed p) = expected p"
  by (auto simp: feed_take_def min_def split: if_splits)

lemma feed_loop_mono: "c0 \<le> fst (snd (feed_loop p bs c0))"
proof (induction p bs c0 rule: feed_loop.induct)
  case (1 p bs c0)
  then show ?case
    by (subst feed_loop.simps) (fastforce simp: Let_def split: sum.split)
qed

lemma feed_loop_progress:
  "feed_loop p bs c0 = (q, c, L4C_OK, m) \<Longrightarrow> bs \<noteq> [] \<Longrightarrow>
     c0 < c \<or> length (parsed p) = expected p \<and> length (parsed q) \<noteq> expected q"
proof (induction p bs c0 rule: feed_loop.induct)
  case (1 p bs c0)
  let ?n = "feed_take p bs" and ?p = "p\<lparr>parsed := parsed p @ take (feed_take p bs) bs\<rparr>"
  show ?case
  proof (cases "feed_frame ?p")
    case (Inl p')
    then have loop: "feed_loop p' (drop ?n bs) (c0 + ?n) = (q, c, L4C_OK, m)"
      using 1(2,3) by (subst (asm) feed_loop.simps) (simp add: Let_def)
    have "c0 + ?n \<le> c" using feed_loop_mono [of "c0 + ?n" p' "drop ?n bs"] loop by simp
    moreover have "c0 < c" if "?n = 0"
      using 1(1) [OF 1(3) refl refl Inl loop] 1(3) that feed_frame_Inl [OF Inl] by auto
    ultimately show ?thesis by linarith
  next
    case (Inr r)
    obtain q' st m' where r: "r = (q', st, m')" by (cases r)
    have "c = c0 + ?n" "q' = q" "st = L4C_OK" using 1(2,3) Inr r
      by (subst (asm) feed_loop.simps, simp add: Let_def)+
    moreover from this have "length (parsed q) \<noteq> expected q"
      using Inr r by (auto simp: feed_frame_def Let_def split: if_splits sum.splits dest: decode_status)
    ultimately show ?thesis using feed_take_bounds(2) [OF 1(3)] by (cases "?n = 0") auto
  qed
qed

lemma feed_progress:
  "l4c_ipc_feed p bs = (q, c, L4C_OK, m) \<Longrightarrow> bs \<noteq> [] \<Longrightarrow> 0 < c \<or> full_flag q < full_flag p"
  using feed_loop_progress [of p bs 0 q c m]
  by (auto simp: l4c_ipc_feed_def full_flag_def split: if_splits)

interpretation feeding: step_invariant "\<lambda>p bs. fst (l4c_ipc_feed p bs)" parser_ok
proof
  fix p bs assume p: "parser_ok p"
  show "parser_ok (fst (l4c_ipc_feed p bs))"
  proof (cases "failed p")
    case False
    then show ?thesis
      using feed_loop_contract [OF p False, of bs 0]
      by (simp add: l4c_ipc_feed_def feed_contract_def case_prod_unfold)
  qed (simp add: l4c_ipc_feed_def p)
qed

section \<open>Reading a stream\<close>

text \<open>
  The caller's loop over one read of the pipe: the parser is fed until the bytes are used up or
  it reports an error.
\<close>

function drain :: "l4c_ipc_parser \<Rightarrow> bytes \<Rightarrow> l4c_ipc_parser \<times> l4c_message list \<times> l4c_status" where
  "drain p bs =
     (if bs = [] then (p, [], L4C_OK)
      else case l4c_ipc_feed p bs of (q, c, st, m) \<Rightarrow>
        if st \<noteq> L4C_OK then (q, [], st)
        else case drain q (drop c bs) of (q', ms, st') \<Rightarrow>
          (q', (case m of None \<Rightarrow> [] | Some x \<Rightarrow> [x]) @ ms, st'))"
  by pat_completeness auto
termination
proof (relation "measures [\<lambda>(p, bs). length bs, \<lambda>(p, bs). full_flag p]", goal_cases)
  case (2 p bs q r1 c r2 st m)
  then have "l4c_ipc_feed p bs = (q, c, L4C_OK, m)" by simp
  from feed_progress [OF this 2(1)] show ?case using 2(1) by (cases "c = 0") auto
qed simp

declare drain.simps [simp del]

definition holding :: "bytes \<Rightarrow> l4c_ipc_parser" where
  "holding xs = \<lparr>parsed = xs,
     expected = (if length xs < 16 then 16 else 16 + unat (l4c_read_u32_le (drop 4 xs))),
     failed = False\<rparr>"

lemma holding_nil: "holding [] = l4c_ipc_parser_init"
  by (simp add: holding_def l4c_ipc_parser_init_def)

lemma frame_prefix_header:
  assumes "xs @ ys = frame m @ zs" "16 \<le> length xs"
  shows "l4c_read_u32_le (drop 4 xs) = of_nat (length (payload_bytes (body m)))"
    "l4c_read_u16_le xs = L4C_IPC_VERSION" "l4c_read_u16_le (drop 2 xs) = msg_type (body m)"
proof -
  have "drop 4 (frame m @ zs) = drop 4 xs @ ys" "drop 2 (frame m @ zs) = drop 2 xs @ ys"
    "frame m @ zs = xs @ ys"
    using assms by (simp_all flip: assms(1))
  then show "l4c_read_u32_le (drop 4 xs) = of_nat (length (payload_bytes (body m)))"
    "l4c_read_u16_le xs = L4C_IPC_VERSION" "l4c_read_u16_le (drop 2 xs) = msg_type (body m)"
    using frame_fields(1-3) [of m zs] assms(2)
    by (simp_all add: u32le.get_prefix u16le.get_prefix)
qed

lemma holding_expected:
  assumes "xs @ ys = frame m @ zs" "wf_body (body m)" "16 \<le> length xs"
  shows "holding xs = \<lparr>parsed = xs, expected = length (frame m), failed = False\<rparr>"
  using assms frame_prefix_header [OF assms(1,3)]
  by (simp add: holding_def frame_length unat_payload)

lemma frame_longer: "wf_body (body m) \<Longrightarrow> 16 < length (frame m)"
  using payload_bounds [of "body m"] unfolding frame_length by linarith

lemma first_frame_ahead:
  "\<forall>m\<in>set ms. wf_body (body m) \<Longrightarrow> ms \<noteq> [] \<longrightarrow> length [] < length (frame (hd ms))"
  using frame_longer [of "hd ms"] by (cases ms) fastforce+

lemma move_split: "xs @ bs @ ys = zs \<Longrightarrow> (xs @ take n bs) @ drop n bs @ ys = zs"
  by (metis append.assoc append_take_drop_id)

text \<open>A round that fills the header, and a round past it.\<close>

lemma header_round:
  assumes "xs @ ys = frame m @ zs" "wf_body (body m)" "length xs \<le> 16"
  shows "feed_frame \<lparr>parsed = xs, expected = 16, failed = False\<rparr> = Inl (holding xs)"
proof (cases "length xs = 16")
  case True
  note hd = frame_prefix_header [OF assms(1) eq_refl [OF True [symmetric]]]
  have "holding xs = \<lparr>parsed = xs, expected = length (frame m), failed = False\<rparr>"
    using assms True by (intro holding_expected) auto
  moreover have "length (frame m) \<noteq> 16"
    using frame_longer [OF assms(2)] by simp
  ultimately show ?thesis
    using hd True assms(2)
    by (simp add: feed_frame_def valid_length_wf unat_payload frame_length)
next
  case False
  then show ?thesis
    using assms(3) by (simp add: feed_frame_def holding_def)
qed

lemma payload_round:
  assumes "xs @ ys = frame m @ zs" "wf_body (body m)" "16 \<le> length xs"
    "length xs \<le> length (frame m)"
  shows "feed_frame \<lparr>parsed = xs, expected = length (frame m), failed = False\<rparr> =
    (if length xs < length (frame m) then Inl (holding xs) else Inr (holding [], L4C_OK, Some m))"
proof -
  have ne: "length (frame m) \<noteq> 16"
    using frame_longer [OF assms(2)] by simp
  have "xs = frame m" if "\<not> length xs < length (frame m)"
    using that assms(1,4) by (simp add: append_eq_append_conv)
  then show ?thesis
    using ne assms holding_expected [OF assms(1-3)]
    by (auto simp: feed_frame_def decode_frame holding_def)
qed

lemma loop_past_header:
  assumes "xs @ bs @ ys = frame m @ zs" "wf_body (body m)" "16 \<le> length xs"
    "length xs < length (frame m)"
  shows "feed_loop (holding xs) bs c =
    (if length xs + length bs < length (frame m)
     then (holding (xs @ bs), c + length bs, L4C_OK, None)
     else (holding [], c + length (frame m) - length xs, L4C_OK, Some m))"
proof (cases "bs = []")
  case True
  then show ?thesis using assms(4) by (simp add: feed_loop.simps)
next
  case False
  let ?n = "min (length (frame m) - length xs) (length bs)"
  have h: "holding xs = \<lparr>parsed = xs, expected = length (frame m), failed = False\<rparr>"
    using assms by (intro holding_expected) auto
  have take: "feed_take \<lparr>parsed = xs, expected = length (frame m), failed = False\<rparr> bs = ?n"
    using assms(4) by (simp add: feed_take_def)
  have round: "feed_frame \<lparr>parsed = xs @ take ?n bs, expected = length (frame m), failed = False\<rparr> =
    (if length (xs @ take ?n bs) < length (frame m) then Inl (holding (xs @ take ?n bs))
     else Inr (holding [], L4C_OK, Some m))"
    using assms(2-4) by (intro payload_round [OF move_split [OF assms(1)]]) simp_all
  show ?thesis
  proof (cases "length xs + length bs < length (frame m)")
    case True
    then have n: "?n = length bs" by simp
    show ?thesis
      using False True round unfolding n
      by (subst feed_loop.simps) (simp add: take n h Let_def feed_loop.simps)
  next
    case full: False
    then have n: "?n = length (frame m) - length xs" by simp
    show ?thesis
      using False full round assms(4) unfolding n
      by (subst feed_loop.simps) (simp add: take n h Let_def)
  qed
qed

lemma loop_frame:
  assumes "xs @ bs @ ys = frame m @ zs" "wf_body (body m)" "length xs < length (frame m)"
  shows "feed_loop (holding xs) bs c =
    (if length xs + length bs < length (frame m)
     then (holding (xs @ bs), c + length bs, L4C_OK, None)
     else (holding [], c + length (frame m) - length xs, L4C_OK, Some m))"
proof (cases "16 \<le> length xs \<or> bs = []")
  case True
  then show ?thesis
    using assms loop_past_header [OF assms(1,2)] by (auto simp: feed_loop.simps)
next
  case False
  let ?n = "min (16 - length xs) (length bs)"
  let ?xs = "xs @ take ?n bs"
  have h: "holding xs = \<lparr>parsed = xs, expected = 16, failed = False\<rparr>"
    using False by (simp add: holding_def)
  note len = frame_longer [OF assms(2)]
  have split: "?xs @ drop ?n bs @ ys = frame m @ zs"
    by (rule move_split [OF assms(1)])
  have "feed_frame \<lparr>parsed = ?xs, expected = 16, failed = False\<rparr> = Inl (holding ?xs)"
    using assms(2) False by (intro header_round [OF split]) auto
  then have "feed_loop (holding xs) bs c = feed_loop (holding ?xs) (drop ?n bs) (c + ?n)"
    using False by (subst feed_loop.simps) (simp add: h feed_take_def Let_def)
  also have "\<dots> = (if length xs + length bs < length (frame m)
     then (holding (xs @ bs), c + length bs, L4C_OK, None)
     else (holding [], c + length (frame m) - length xs, L4C_OK, Some m))"
  proof (cases "16 \<le> length xs + length bs")
    case True
    then have "length ?xs = 16" using False by auto
    then show ?thesis
      using loop_past_header [OF split assms(2), of "c + ?n"] len False True
      by (auto simp: append_take_drop_id)
  next
    case short: False
    then show ?thesis using len by (simp add: feed_loop.simps)
  qed
  finally show ?thesis .
qed

text \<open>
  The stream still to come decides what one read yields: the messages completed by it, and the
  bytes of the next frame, kept by the parser.
\<close>

lemma drain_stream:
  assumes "xs @ bs @ ys = concat (map frame ms)" "\<forall>m\<in>set ms. wf_body (body m)"
    "ms = [] \<longrightarrow> xs = []" "ms \<noteq> [] \<longrightarrow> length xs < length (frame (hd ms))"
  shows "\<exists>xs' ms1 ms2. drain (holding xs) bs = (holding xs', ms1, L4C_OK) \<and> ms = ms1 @ ms2 \<and>
    xs' @ ys = concat (map frame ms2) \<and> (ms2 = [] \<longrightarrow> xs' = []) \<and>
    (ms2 \<noteq> [] \<longrightarrow> length xs' < length (frame (hd ms2)))"
  using assms
proof (induction ms arbitrary: xs bs)
  case Nil
  then show ?case by (simp add: drain.simps)
next
  case (Cons m ms)
  have nf: "\<not> failed (holding xs)" by (simp add: holding_def)
  have str: "xs @ bs @ ys = frame m @ concat (map frame ms)" and wf: "wf_body (body m)"
    and len: "length xs < length (frame m)"
    using Cons.prems by auto
  note feed = loop_frame [OF str wf len, of 0]
  show ?case
  proof (cases "length xs + length bs < length (frame m)")
    case True
    then have "drain (holding xs) bs = (holding (xs @ bs), [], L4C_OK)"
      using feed nf by (simp add: drain.simps l4c_ipc_feed_def)
    then show ?thesis
      using True Cons.prems(1) by (intro exI [of _ "xs @ bs"] exI [of _ "[]"] exI [of _ "m # ms"]) simp
  next
    case False
    let ?n = "length (frame m) - length xs"
    have "drop (length (frame m)) (xs @ bs @ ys) = concat (map frame ms)"
      using str by simp
    then have rest: "[] @ drop ?n bs @ ys = concat (map frame ms)"
      using len False by simp
    have next_short: "ms \<noteq> [] \<longrightarrow> length [] < length (frame (hd ms))"
      using Cons.prems(2) by (intro first_frame_ahead) simp
    obtain xs' ms1 ms2 where IH:
      "drain (holding []) (drop ?n bs) = (holding xs', ms1, L4C_OK)" "ms = ms1 @ ms2"
      "xs' @ ys = concat (map frame ms2)" "ms2 = [] \<longrightarrow> xs' = []"
      "ms2 \<noteq> [] \<longrightarrow> length xs' < length (frame (hd ms2))"
      using Cons.IH [OF rest _ _ next_short] Cons.prems(2) by auto
    have "drain (holding xs) bs = (holding xs', m # ms1, L4C_OK)"
      using feed nf False len IH(1) by (subst drain.simps) (auto simp: l4c_ipc_feed_def)
    then show ?thesis
      using IH by (intro exI [of _ xs'] exI [of _ "m # ms1"] exI [of _ ms2]) simp
  qed
qed

text \<open>Successive reads, with the messages accumulated in order.\<close>

fun drain_all :: "l4c_ipc_parser \<Rightarrow> bytes list \<Rightarrow> l4c_ipc_parser \<times> l4c_message list \<times> l4c_status" where
  "drain_all p [] = (p, [], L4C_OK)"
| "drain_all p (bs # bss) =
     (case drain p bs of (q, ms, st) \<Rightarrow>
        if st \<noteq> L4C_OK then (q, ms, st)
        else case drain_all q bss of (q', ms', st') \<Rightarrow> (q', ms @ ms', st'))"

lemma drain_all_stream:
  assumes "xs @ concat bss = concat (map frame ms)" "\<forall>m\<in>set ms. wf_body (body m)"
    "ms = [] \<longrightarrow> xs = []" "ms \<noteq> [] \<longrightarrow> length xs < length (frame (hd ms))"
  shows "drain_all (holding xs) bss = (holding [], ms, L4C_OK)"
  using assms
proof (induction bss arbitrary: xs ms)
  case Nil
  then show ?case by (cases ms) auto
next
  case (Cons bs bss)
  obtain xs' ms1 ms2 where step: "drain (holding xs) bs = (holding xs', ms1, L4C_OK)"
    "ms = ms1 @ ms2" "xs' @ concat bss = concat (map frame ms2)" "ms2 = [] \<longrightarrow> xs' = []"
    "ms2 \<noteq> [] \<longrightarrow> length xs' < length (frame (hd ms2))"
    using drain_stream [of xs bs "concat bss" ms] Cons.prems by auto
  then show ?case
    using Cons.IH [OF step(3) _ step(4,5)] Cons.prems(2) by simp
qed

section \<open>Properties\<close>

text \<open>the receiver never overruns its frame buffer and never spins. From a fresh parser, any
  sequence of calls with any bytes keeps the bytes held strictly below the expected frame length,
  which itself never exceeds the 4112-byte buffer; each call consumes at most its input and, on a
  non-empty input, at least one byte; it leaves bytes unread only when it delivers a message or
  reports a protocol error, and after an error it accepts nothing more.\<close>

theorem ipc_parser_bounded:
  "let p = foldl (\<lambda>p bs. fst (l4c_ipc_feed p bs)) l4c_ipc_parser_init bss in
   (failed p \<longrightarrow> l4c_ipc_feed p bs = (p, 0, L4C_ERR_PROTOCOL, None)) \<and>
   (\<not> failed p \<longrightarrow>
      length (parsed p) < expected p \<and> expected p \<le> L4C_IPC_MAX_FRAME \<and>
      feed_contract p bs 0 (l4c_ipc_feed p bs))"
  using feeding.inv_run [OF parser_init_ok, of bss]
  by (auto simp: Let_def l4c_ipc_feed_def parser_ok_def intro: feed_loop_contract)

theorem ipc_parser_bounded_witness:
  "feed_contract l4c_ipc_parser_init [1, 0] 0 (l4c_ipc_feed l4c_ipc_parser_init [1, 0])"
  using ipc_parser_bounded [of "[]" "[1, 0]"] by (simp add: Let_def l4c_ipc_parser_init_def)

text \<open>C25: message boundaries do not depend on how the pipe splits the stream. However the
  concatenated frames of a list of well-formed messages are cut into reads, reading them one after
  the other delivers exactly these messages, in order, without an error, and leaves the parser as
  it was initialised.\<close>

theorem ipc_stream_any_split:
  assumes "concat bss = concat (map frame ms)" "\<forall>m\<in>set ms. wf_body (body m)"
  shows "drain_all l4c_ipc_parser_init bss = (l4c_ipc_parser_init, ms, L4C_OK)"
  using drain_all_stream [of "[]" bss ms] first_frame_ahead [OF assms(2)] assms
  by (simp add: holding_nil)

theorem ipc_stream_any_split_witness:
  "drain_all l4c_ipc_parser_init
     [[1, 0, 3, 1, 4, 0, 0], [0, 7, 0, 0, 0, 0, 0, 0, 0, 1], [], [0, 4, 0]] =
   (l4c_ipc_parser_init, [\<lparr>request_seq = 7, body = EventDegraded 1 4\<rparr>], L4C_OK)"
  by (rule ipc_stream_any_split)
    (simp_all add: frame_def l4c_write_u16_le_def l4c_write_u32_le_def l4c_write_u64_le_def)

end
