(* ===== verification/Ipc_Pipe.thy ===== *)
theory Ipc_Pipe
  imports Safety_Gate Ipc_Stream
begin

text \<open>
  The pipe transport of \<open>tools/l4capture/src/ipc/ipc_pipe.c\<close>: the handle argument of the
  command line, the reader that feeds commands to the safety gate, the bounded queue of outgoing
  status packets in which metrics are coalesced, the writer thread's steps, and the stall
  detector. Results of the Windows calls (\<open>PeekNamedPipe\<close>, \<open>ReadFile\<close>, \<open>WriteFile\<close>) are
  inputs of the definitions.
\<close>

section \<open>The inherited handle\<close>

text \<open>\<open>uintptr_t\<close> is \<open>'s word\<close>; \<open>text\<close> is the string without its terminator.\<close>

fun parse_digits :: "('s::len) word \<Rightarrow> u8 list \<Rightarrow> l4c_status + 's word" where
  "parse_digits value [] = Inr value"
| "parse_digits value (c # cs) =
     (if c < 48 \<or> 57 < c then Inl L4C_ERR_INVALID_ARG
      else
        let digit = ucast (c - 48) in
        if ((- 1) - digit) div 10 < value then Inl L4C_ERR_OVERFLOW
        else parse_digits (value * 10 + digit) cs)"

definition l4c_parse_handle :: "u8 list \<Rightarrow> l4c_status + ('s::len) word" where
  "l4c_parse_handle txt =
     (if txt = [] then Inl L4C_ERR_INVALID_ARG
      else case parse_digits 0 txt of
          Inl status \<Rightarrow> Inl status
        | Inr value \<Rightarrow>
            if value = 0 \<or> (- 1) - 15 \<le> value then Inl L4C_ERR_INVALID_ARG else Inr value)"

section \<open>State of the pipe\<close>

abbreviation L4C_STATUS_QUEUE_CAPACITY :: nat where "L4C_STATUS_QUEUE_CAPACITY \<equiv> 16"
abbreviation L4C_WRITER_TIMEOUT_MS :: u64 where "L4C_WRITER_TIMEOUT_MS \<equiv> 450"

text \<open>The array \<open>bytes\<close> of a packet is represented by its first \<open>length\<close> bytes.\<close>

record l4c_ipc_packet =
  pk_bytes :: bytes
  pk_type :: u16
  queued_ms :: u64

record l4c_ipc_pipe =
  gate :: l4c_safety_gate
  queue :: "l4c_ipc_packet list"
  head :: nat
  count :: nat
  writing :: bool
  writing_since_ms :: u64
  parser :: l4c_ipc_parser

definition zero_packet :: l4c_ipc_packet where
  "zero_packet = \<lparr>pk_bytes = [], pk_type = 0, queued_ms = 0\<rparr>"

text \<open>The pipe after a successful \<open>l4c_pipe_open\<close>.\<close>

definition l4c_pipe_open :: "l4c_safety_gate \<Rightarrow> l4c_ipc_pipe" where
  "l4c_pipe_open g = \<lparr>gate = g, queue = replicate L4C_STATUS_QUEUE_CAPACITY zero_packet, head = 0,
     count = 0, writing = False, writing_since_ms = 0, parser = l4c_ipc_parser_init\<rparr>"

section \<open>The reader\<close>

text \<open>
  The loop over the bytes of one read; \<open>stop_event\<close> is polled before each round. The result is
  the gate, the parser and the status returned.
\<close>

function poll_loop ::
  "l4c_safety_gate \<Rightarrow> l4c_ipc_parser \<Rightarrow> bytes \<Rightarrow> u64 \<Rightarrow>
     l4c_safety_gate \<times> l4c_ipc_parser \<times> l4c_status" where
  "poll_loop g p bs now =
     (if bs = [] \<or> stop_event g then (g, p, L4C_OK)
      else case l4c_ipc_feed p bs of (p', consumed, status, message) \<Rightarrow>
        let (g', status') =
              (case message of
                 Some m \<Rightarrow> if status = L4C_OK then l4c_safety_command g m now else (g, status)
               | None \<Rightarrow> (g, status)) in
        if status' \<noteq> L4C_OK then (l4c_safety_stop g' status', p', status')
        else poll_loop g' p' (drop consumed bs) now)"
  by pat_completeness auto
termination
proof (relation "measures [\<lambda>(g, p, bs, now). length bs, \<lambda>(g, p, bs, now). full_flag p]", goal_cases)
  case (2 g p bs now p' r1 c r2 st m x g' st')
  then have "l4c_ipc_feed p bs = (p', c, L4C_OK, m)" "bs \<noteq> []"
    by (auto split: option.splits if_splits)
  from feed_progress [OF this] this(2) show ?case by (cases "c = 0") auto
qed simp

declare poll_loop.simps [simp del]

text \<open>
  \<open>peek\<close> is the outcome of \<open>PeekNamedPipe\<close>: \<open>Inl broken\<close> when it fails, with \<open>broken\<close> telling
  \<open>ERROR_BROKEN_PIPE\<close> from other errors, or the number of bytes available. \<open>read_file n\<close> is
  what \<open>ReadFile\<close> delivers when asked for \<open>n\<close> bytes.
\<close>

definition poll_end :: "l4c_ipc_pipe \<Rightarrow> l4c_status \<Rightarrow> l4c_ipc_pipe \<times> l4c_status" where
  "poll_end pipe status =
     (pipe\<lparr>gate := l4c_safety_stop (gate pipe)
             (if status = L4C_ERR_PIPE_BROKEN then L4C_OK else status)\<rparr>, status)"

definition l4c_pipe_poll ::
  "l4c_ipc_pipe \<Rightarrow> u64 \<Rightarrow> bool + nat \<Rightarrow> (nat \<Rightarrow> bytes option) \<Rightarrow> l4c_ipc_pipe \<times> l4c_status" where
  "l4c_pipe_poll pipe now peek read_file =
     (case peek of
        Inl broken \<Rightarrow>
          poll_end pipe (if broken then l4c_ipc_eof (parser pipe) else L4C_ERR_PIPE_BROKEN)
      | Inr available \<Rightarrow>
          if available = 0 then (pipe, L4C_OK)
          else case read_file (if 256 < available then 256 else available) of
              None \<Rightarrow> poll_end pipe (l4c_ipc_eof (parser pipe))
            | Some received \<Rightarrow>
                if received = [] then poll_end pipe (l4c_ipc_eof (parser pipe))
                else case poll_loop (gate pipe) (parser pipe) received now of
                    (g, p, status) \<Rightarrow> (pipe\<lparr>gate := g, parser := p\<rparr>, status))"

section \<open>The outgoing queue\<close>

text \<open>The scan for a queued metrics packet, from position \<open>i\<close> with \<open>n\<close> positions to go.\<close>

fun find_metrics :: "l4c_ipc_pipe \<Rightarrow> nat \<Rightarrow> nat \<Rightarrow> nat option" where
  "find_metrics pipe i 0 = None"
| "find_metrics pipe i (Suc n) =
     (let index = (head pipe + i) mod L4C_STATUS_QUEUE_CAPACITY in
      if pk_type (queue pipe ! index) = L4C_EVENT_METRICS then Some index
      else find_metrics pipe (Suc i) n)"

definition queue_put :: "l4c_ipc_pipe \<Rightarrow> l4c_ipc_packet \<Rightarrow> l4c_ipc_pipe option" where
  "queue_put pipe packet =
     (if count pipe = L4C_STATUS_QUEUE_CAPACITY then None
      else
        let index = (head pipe + count pipe) mod L4C_STATUS_QUEUE_CAPACITY in
        Some (pipe\<lparr>queue := (queue pipe)[index := packet], count := count pipe + 1\<rparr>))"

definition l4c_pipe_enqueue ::
  "l4c_ipc_pipe \<Rightarrow> l4c_message \<Rightarrow> u64 \<Rightarrow> l4c_ipc_pipe \<times> l4c_status" where
  "l4c_pipe_enqueue pipe message now =
     (if msg_type (body message) < L4C_EVENT_READY then (pipe, L4C_ERR_INVALID_ARG)
      else case l4c_ipc_encode message L4C_IPC_MAX_FRAME of
          Inl status \<Rightarrow> (pipe\<lparr>gate := l4c_safety_stop (gate pipe) status\<rparr>, status)
        | Inr bs \<Rightarrow>
            let packet = \<lparr>pk_bytes = bs, pk_type = msg_type (body message), queued_ms = now\<rparr> in
            if stop_event (gate pipe) then (pipe, L4C_ERR_FATAL)
            else case (if msg_type (body message) = L4C_EVENT_METRICS
                       then find_metrics pipe 0 (count pipe) else None) of
                Some index \<Rightarrow>
                  (pipe\<lparr>queue := (queue pipe)
                     [index := packet\<lparr>queued_ms := queued_ms (queue pipe ! index)\<rparr>]\<rparr>, L4C_OK)
              | None \<Rightarrow>
                  (case queue_put pipe packet of
                     None \<Rightarrow> (pipe\<lparr>gate := l4c_safety_stop (gate pipe) L4C_ERR_OVERFLOW\<rparr>,
                              L4C_ERR_OVERFLOW)
                   | Some pipe' \<Rightarrow> (pipe', L4C_OK)))"

section \<open>The writer thread\<close>

text \<open>The locked section that takes a packet, and the one that ends its transmission.\<close>

definition writer_take :: "l4c_ipc_pipe \<Rightarrow> (l4c_ipc_packet \<times> l4c_ipc_pipe) option" where
  "writer_take pipe =
     (if count pipe = 0 then None
      else
        let packet = queue pipe ! head pipe in
        Some (packet, pipe\<lparr>head := (head pipe + 1) mod L4C_STATUS_QUEUE_CAPACITY,
                count := count pipe - 1, writing := True, writing_since_ms := queued_ms packet\<rparr>))"

definition writer_done :: "l4c_ipc_pipe \<Rightarrow> l4c_ipc_pipe" where
  "writer_done pipe = pipe\<lparr>writing := False\<rparr>"

text \<open>
  The transmission of a packet. Each element of the script is the state of \<open>stop_event\<close> and
  the answer of \<open>WriteFile\<close> to a request of so many bytes in one round: \<open>None\<close> when the call
  fails, else the number of bytes written. The result is what went out, and whether the pipe was
  found broken, in which case the gate is stopped.
\<close>

fun writer_send :: "bytes \<Rightarrow> nat \<Rightarrow> (bool \<times> (nat \<Rightarrow> nat option)) list \<Rightarrow> bytes \<times> bool" where
  "writer_send packet offset [] = ([], False)"
| "writer_send packet offset ((stop, write_file) # script) =
     (if length packet \<le> offset \<or> stop then ([], False)
      else
        let chunk = length packet - offset; chunk = (if 1024 < chunk then 1024 else chunk) in
        case write_file chunk of
          None \<Rightarrow> ([], True)
        | Some written \<Rightarrow>
            if written = 0 then ([], True)
            else case writer_send packet (offset + written) script of
                (out, broken) \<Rightarrow> (take written (drop offset packet) @ out, broken))"

section \<open>The stall detector and closing\<close>

definition l4c_pipe_stalled :: "l4c_ipc_pipe \<Rightarrow> u64 \<Rightarrow> bool" where
  "l4c_pipe_stalled pipe now =
     (let oldest = (if writing pipe then writing_since_ms pipe
                    else if count pipe \<noteq> 0 then queued_ms (queue pipe ! head pipe) else 0) in
      if writing pipe \<or> count pipe \<noteq> 0
      then now < oldest \<or> L4C_WRITER_TIMEOUT_MS \<le> now - oldest else False)"

section \<open>The reader drives the gate by the messages of the stream\<close>

abbreviation command_all :: "u64 \<Rightarrow> l4c_safety_gate \<Rightarrow> l4c_message list \<Rightarrow> l4c_safety_gate" where
  "command_all now \<equiv> foldl (\<lambda>g m. fst (l4c_safety_command g m now))"

lemma command_all_step: "command_all now g ms = foldl gate_step g (map (\<lambda>m. GCommand m now) ms)"
  by (induction ms arbitrary: g) simp_all

lemma command_all_stopped: "gate_inv g \<Longrightarrow> stopped g \<Longrightarrow> command_all now g ms = g"
  using gate_latch.view_run [of g] by (simp add: command_all_step)

lemma poll_loop_gate:
  assumes "gate_inv g"
  shows "fst (poll_loop g p bs now) =
    (case drain p bs of (q, ms, st) \<Rightarrow>
       if st = L4C_OK then command_all now g ms else stop_locked (command_all now g ms) st)"
  using assms
proof (induction g p bs now rule: poll_loop.induct)
  case (1 g p bs now)
  note IH = 1(1) and inv = 1(2)
  have stop: "stop_event g \<longleftrightarrow> stopped g" using inv by (simp add: gate_inv_def)
  obtain p' c st m where f: "l4c_ipc_feed p bs = (p', c, st, m)" by (metis prod_cases4)
  obtain q ms st2 where d: "drain p' (drop c bs) = (q, ms, st2)" by (metis prod_cases3)
  consider "bs = []" | "bs \<noteq> []" "stopped g" | "bs \<noteq> []" "\<not> stopped g" "st \<noteq> L4C_OK"
    | "bs \<noteq> []" "\<not> stopped g" "st = L4C_OK" by blast
  then show ?case
  proof cases
    case 1
    then show ?thesis by (simp add: poll_loop.simps drain.simps)
  next
    case 2
    then show ?thesis
      using stop command_all_stopped [OF inv 2(2)]
      by (simp add: poll_loop.simps stop_stopped split: prod.split)
  next
    case 3
    then show ?thesis
      using stop f by (simp add: poll_loop.simps drain.simps l4c_safety_stop_def split: option.split)
  next
    case 4
    have dr: "drain p bs = (q, (case m of None \<Rightarrow> [] | Some x \<Rightarrow> [x]) @ ms, st2)"
      using 4 f d by (simp add: drain.simps [of p bs])
    show ?thesis
    proof (cases m)
      case None
      have "poll_loop g p bs now = poll_loop g p' (drop c bs) now"
        using 4 stop f None by (simp add: poll_loop.simps [of g p bs])
      moreover have "bs \<noteq> [] \<and> \<not> stop_event g" using 4 stop by simp
      ultimately show ?thesis
        using IH [OF _ f [symmetric] refl refl refl, of g L4C_OK] 4 None d dr inv by simp
    next
      case (Some x)
      obtain g' st' where c: "l4c_safety_command g x now = (g', st')" by fastforce
      have g': "gate_inv g'" using command_inv [OF inv, of x now] c by simp
      show ?thesis
      proof (cases "st' = L4C_OK")
        case True
        have "poll_loop g p bs now = poll_loop g' p' (drop c bs) now"
          using 4 stop f Some c True by (simp add: poll_loop.simps [of g p bs])
        moreover have "\<not> (bs = [] \<or> stop_event g)" using 4 stop by simp
        ultimately show ?thesis
          using IH [OF _ f [symmetric] refl refl refl, of g' st'] 4 Some c True d dr g' by simp
      next
        case False
        then have st: "stopped g'" using command_failure [OF inv, of x now] c by simp
        then have "fst (poll_loop g p bs now) = g'"
          using 4 stop f Some c False by (simp add: poll_loop.simps [of g p bs] l4c_safety_stop_def stop_stopped)
        then show ?thesis
          using dr Some c st command_all_stopped [OF g' st] by (simp add: stop_stopped)
      qed
    qed
  qed
qed

section \<open>The queue as a list\<close>

definition pipe_view :: "l4c_ipc_pipe \<Rightarrow> l4c_ipc_packet list" where
  "pipe_view pipe = ring_view (queue pipe) (head pipe) (count pipe)"

abbreviation is_metrics :: "l4c_ipc_packet \<Rightarrow> bool" where
  "is_metrics p \<equiv> pk_type p = L4C_EVENT_METRICS"

definition pipe_ok :: "l4c_ipc_pipe \<Rightarrow> bool" where
  "pipe_ok pipe \<longleftrightarrow> length (queue pipe) = L4C_STATUS_QUEUE_CAPACITY \<and>
     head pipe < L4C_STATUS_QUEUE_CAPACITY \<and> count pipe \<le> L4C_STATUS_QUEUE_CAPACITY"

interpretation status_queue: bounded_fifo pipe_view queue_put writer_take
  L4C_STATUS_QUEUE_CAPACITY pipe_ok
proof
  fix s x
  show "pipe_ok s \<Longrightarrow> queue_put s x = None \<longleftrightarrow> length (pipe_view s) = L4C_STATUS_QUEUE_CAPACITY"
    by (simp add: queue_put_def pipe_view_def Let_def)
next
  fix s x s' assume "pipe_ok s" "queue_put s x = Some s'"
  then show "pipe_ok s' \<and> pipe_view s' = pipe_view s @ [x]"
    using ring_view_put [of "count s" "queue s" "head s" x]
    by (auto simp: queue_put_def pipe_view_def pipe_ok_def Let_def split: if_splits)
next
  fix s assume "pipe_ok s"
  then show "writer_take s = None \<longleftrightarrow> pipe_view s = []"
    by (cases "count s") (simp_all add: writer_take_def Let_def pipe_view_def ring_view_def)
next
  fix s x s' assume "pipe_ok s" "writer_take s = Some (x, s')"
  then show "pipe_ok s' \<and> pipe_view s = x # pipe_view s'"
    using ring_view_take [of "queue s" "head s" "count s - 1"]
    by (auto simp: writer_take_def pipe_view_def pipe_ok_def Let_def split: if_splits)
next
  fix s show "pipe_ok s \<Longrightarrow> length (pipe_view s) \<le> L4C_STATUS_QUEUE_CAPACITY"
    by (simp add: pipe_view_def pipe_ok_def)
qed

lemma find_metrics_Some:
  "find_metrics pipe i n = Some k \<Longrightarrow> \<exists>j<n. k = (head pipe + (i + j)) mod 16 \<and>
     is_metrics (queue pipe ! k)"
proof (induction n arbitrary: i)
  case (Suc n)
  show ?case
  proof (cases "is_metrics (queue pipe ! ((head pipe + i) mod 16))")
    case True
    then show ?thesis using Suc.prems by (intro exI [of _ 0]) (auto simp: Let_def)
  next
    case False
    then obtain j where "j < n" "k = (head pipe + (Suc i + j)) mod 16" "is_metrics (queue pipe ! k)"
      using Suc.IH [of "Suc i"] Suc.prems by (auto simp: Let_def)
    then show ?thesis by (intro exI [of _ "Suc j"]) simp
  qed
qed simp

lemma find_metrics_None:
  "find_metrics pipe i n = None \<Longrightarrow> j < n \<Longrightarrow> \<not> is_metrics (queue pipe ! ((head pipe + (i + j)) mod 16))"
proof (induction n arbitrary: i j)
  case (Suc n)
  then show ?case
    by (cases j) (auto simp: Let_def split: if_splits dest: Suc.IH [of "Suc i" "j - 1"])
qed simp

lemma find_metrics_view:
  assumes "pipe_ok pipe"
  shows "case find_metrics pipe 0 (count pipe) of
      None \<Rightarrow> list_all (\<lambda>p. \<not> is_metrics p) (pipe_view pipe)
    | Some k \<Rightarrow> \<exists>j<count pipe. k = (head pipe + j) mod 16 \<and> is_metrics (pipe_view pipe ! j) \<and>
        queue pipe ! k = pipe_view pipe ! j"
proof (cases "find_metrics pipe 0 (count pipe)")
  case None
  then show ?thesis
    using find_metrics_None [OF None] assms
    by (auto simp: list_all_length pipe_view_def ring_view_nth pipe_ok_def)
next
  case (Some k)
  then show ?thesis
    using find_metrics_Some [OF Some] assms by (auto simp: pipe_view_def ring_view_nth pipe_ok_def)
qed

text \<open>
  The contract of the queue, over lists: a metrics packet takes the place and the time of the one
  already waiting; any other packet, and the first metrics packet, goes to the end.
\<close>

definition coalesce :: "l4c_ipc_packet list \<Rightarrow> nat \<Rightarrow> l4c_ipc_packet \<Rightarrow> l4c_ipc_packet list" where
  "coalesce q j p = q[j := p\<lparr>queued_ms := queued_ms (q ! j)\<rparr>]"

inductive enqueue_spec ::
  "l4c_ipc_packet list \<Rightarrow> l4c_ipc_packet \<Rightarrow> l4c_ipc_packet list \<Rightarrow> l4c_status \<Rightarrow> bool" where
  replace: "is_metrics p \<Longrightarrow> j < length q \<Longrightarrow> is_metrics (q ! j) \<Longrightarrow>
     enqueue_spec q p (coalesce q j p) L4C_OK"
| append: "is_metrics p \<longrightarrow> list_all (\<lambda>p. \<not> is_metrics p) q \<Longrightarrow> length q < 16 \<Longrightarrow>
     enqueue_spec q p (q @ [p]) L4C_OK"
| overflow: "is_metrics p \<longrightarrow> list_all (\<lambda>p. \<not> is_metrics p) q \<Longrightarrow> length q = 16 \<Longrightarrow>
     enqueue_spec q p q L4C_ERR_OVERFLOW"

inductive_cases enqueue_specE: "enqueue_spec q p q' st"

lemma enqueue_refines:
  assumes "pipe_ok pipe" "\<not> stop_event (gate pipe)" "wf_body (body m)"
    "L4C_EVENT_READY \<le> msg_type (body m)" "l4c_pipe_enqueue pipe m now = (pipe', st)"
  shows "pipe_ok pipe' \<and> enqueue_spec (pipe_view pipe)
     \<lparr>pk_bytes = frame m, pk_type = msg_type (body m), queued_ms = now\<rparr> (pipe_view pipe') st \<and>
     gate pipe' = (if st = L4C_ERR_OVERFLOW then l4c_safety_stop (gate pipe) st else gate pipe)"
proof -
  let ?p = "\<lparr>pk_bytes = frame m, pk_type = msg_type (body m), queued_ms = now\<rparr>"
  have fits: "\<not> L4C_IPC_MAX_FRAME < length (frame m)"
    using payload_bounds [OF assms(3)] by (simp add: frame_length)
  have cap: "length (queue pipe) = 16" "count pipe \<le> 16" using assms(1) by (auto simp: pipe_ok_def)
  let ?find = "if msg_type (body m) = L4C_EVENT_METRICS then find_metrics pipe 0 (count pipe) else None"
  have enq: "l4c_pipe_enqueue pipe m now = (case ?find of
      Some k \<Rightarrow> (pipe\<lparr>queue := (queue pipe)[k := ?p\<lparr>queued_ms := queued_ms (queue pipe ! k)\<rparr>]\<rparr>, L4C_OK)
    | None \<Rightarrow> (case queue_put pipe ?p of
        None \<Rightarrow> (pipe\<lparr>gate := l4c_safety_stop (gate pipe) L4C_ERR_OVERFLOW\<rparr>, L4C_ERR_OVERFLOW)
      | Some pipe' \<Rightarrow> (pipe', L4C_OK)))"
    using assms(2) fits not_less [THEN iffD2, OF assms(4)]
    by (simp only: l4c_pipe_enqueue_def encode_wf [OF assms(3)] Let_def if_False sum.case simp_thms)
  show ?thesis
  proof (cases ?find)
    case None
    then have quiet: "is_metrics ?p \<longrightarrow> list_all (\<lambda>p. \<not> is_metrics p) (pipe_view pipe)"
      using find_metrics_view [OF assms(1)] by (auto split: if_splits)
    show ?thesis
    proof (cases "queue_put pipe ?p")
      case full: None
      then have "length (pipe_view pipe) = 16" using status_queue.put_full [OF assms(1)] by blast
      then show ?thesis
        using enq None full assms(1,5) enqueue_spec.overflow [OF quiet]
        by (auto simp: pipe_ok_def pipe_view_def)
    next
      case (Some s)
      then have "length (pipe_view pipe) < 16"
        using status_queue.put_full [OF assms(1), of ?p] status_queue.within [OF assms(1)]
        by (metis le_neq_implies_less option.distinct(1))
      moreover have "pipe_ok s" "pipe_view s = pipe_view pipe @ [?p]" "gate s = gate pipe"
        using status_queue.put_view [OF assms(1) Some] Some by (auto simp: queue_put_def Let_def split: if_splits)
      ultimately show ?thesis
        using enq None Some assms(5) enqueue_spec.append [OF quiet] by auto
    qed
  next
    case (Some k)
    then obtain j where j: "j < count pipe" "k = (head pipe + j) mod 16"
      "is_metrics (pipe_view pipe ! j)" "queue pipe ! k = pipe_view pipe ! j" and m: "is_metrics ?p"
      using find_metrics_view [OF assms(1)] by (auto split: if_splits)
    have p': "pipe' = pipe\<lparr>queue := (queue pipe)[k := ?p\<lparr>queued_ms := queued_ms (queue pipe ! k)\<rparr>]\<rparr>"
      and st: "st = L4C_OK"
      using enq Some assms(5) by auto
    have "pipe_view pipe' = coalesce (pipe_view pipe) j ?p"
      using ring_view_update [of j "count pipe" "queue pipe" "head pipe"] j cap
      by (simp add: p' pipe_view_def coalesce_def)
    then show ?thesis
      using enqueue_spec.replace [OF m _ j(3)] j(1) assms(1) st p' by (simp add: pipe_ok_def pipe_view_def)
  qed
qed

section \<open>Runs of the status queue\<close>

text \<open>
  Status messages are queued by the main thread; the one writer thread takes a packet and, when
  it is through with it, comes back for the next. The run records the packets other than metrics
  that were accepted and those the writer took.
\<close>

datatype pipe_event = Enqueue l4c_message u64 | WriterTake | WriterDone

fun pipe_exec ::
  "l4c_ipc_pipe \<times> l4c_ipc_packet list \<times> l4c_ipc_packet list \<Rightarrow> pipe_event \<Rightarrow>
   l4c_ipc_pipe \<times> l4c_ipc_packet list \<times> l4c_ipc_packet list" where
  "pipe_exec (pipe, ins, outs) (Enqueue m now) =
     (case l4c_pipe_enqueue pipe m now of (pipe', st) \<Rightarrow>
        (pipe', if st = L4C_OK \<and> msg_type (body m) \<noteq> L4C_EVENT_METRICS
                then ins @ [\<lparr>pk_bytes = frame m, pk_type = msg_type (body m), queued_ms = now\<rparr>]
                else ins, outs))"
| "pipe_exec (pipe, ins, outs) WriterTake =
     (if writing pipe then (pipe, ins, outs)
      else case writer_take pipe of
          None \<Rightarrow> (pipe, ins, outs)
        | Some (p, pipe') \<Rightarrow> (pipe', ins, if is_metrics p then outs else outs @ [p]))"
| "pipe_exec (pipe, ins, outs) WriterDone = (writer_done pipe, ins, outs)"

fun event_wf :: "pipe_event \<Rightarrow> bool" where
  "event_wf (Enqueue m now) = wf_body (body m)"
| "event_wf _ = True"

fun timely :: "u64 \<Rightarrow> pipe_event list \<Rightarrow> bool" where
  "timely t [] = True"
| "timely t (Enqueue m now # es) = (t \<le> now \<and> timely now es)"
| "timely t (_ # es) = timely t es"

fun clock :: "u64 \<Rightarrow> pipe_event list \<Rightarrow> u64" where
  "clock t [] = t"
| "clock t (Enqueue m now # es) = clock now es"
| "clock t (_ # es) = clock t es"

definition queue_inv :: "l4c_ipc_pipe \<times> l4c_ipc_packet list \<times> l4c_ipc_packet list \<Rightarrow> bool" where
  "queue_inv s \<longleftrightarrow> (case s of (pipe, ins, outs) \<Rightarrow>
     pipe_ok pipe \<and> ins = outs @ filter (\<lambda>p. \<not> is_metrics p) (pipe_view pipe) \<and>
     length (filter is_metrics (pipe_view pipe)) \<le> 1)"

definition time_inv :: "u64 \<Rightarrow> l4c_ipc_pipe \<Rightarrow> bool" where
  "time_inv t pipe \<longleftrightarrow> sorted (map queued_ms (pipe_view pipe)) \<and>
     (\<forall>p\<in>set (pipe_view pipe). queued_ms p \<le> t \<and> (writing pipe \<longrightarrow> writing_since_ms pipe \<le> queued_ms p)) \<and>
     (writing pipe \<longrightarrow> writing_since_ms pipe \<le> t)"

lemma filter_update_same:
  "j < length q \<Longrightarrow> \<not> P (q ! j) \<Longrightarrow> \<not> P x \<Longrightarrow> filter P (q[j := x]) = filter P q"
proof (induction q arbitrary: j)
  case (Cons a q)
  then show ?case by (cases j) auto
qed simp

lemma filter_update_count:
  "j < length q \<Longrightarrow> P (q ! j) \<Longrightarrow> P x \<Longrightarrow> length (filter P (q[j := x])) = length (filter P q)"
proof (induction q arbitrary: j)
  case (Cons a q)
  then show ?case by (cases j) auto
qed simp

lemma coalesce_times: "map queued_ms (coalesce q j p) = map queued_ms q"
  by (auto simp: coalesce_def map_update list_update_same_conv intro: nth_equalityI)
    (metis list_update_beyond list_update_id not_less length_map nth_map)

lemma enqueue_untouched:
  assumes "msg_type (body m) < L4C_EVENT_READY \<or> stop_event (gate pipe)" "wf_body (body m)"
  shows "l4c_pipe_enqueue pipe m now = (pipe, if msg_type (body m) < L4C_EVENT_READY
     then L4C_ERR_INVALID_ARG else L4C_ERR_FATAL)"
proof -
  have "\<not> L4C_IPC_MAX_FRAME < length (frame m)"
    using payload_bounds [OF assms(2)] by (simp add: frame_length)
  then show ?thesis
    using assms(1) by (auto simp: l4c_pipe_enqueue_def encode_wf [OF assms(2)] Let_def)
qed

lemma enqueue_keeps_writer:
  "l4c_pipe_enqueue pipe m now = (pipe', st) \<Longrightarrow>
     writing pipe' = writing pipe \<and> writing_since_ms pipe' = writing_since_ms pipe"
  by (auto simp: l4c_pipe_enqueue_def queue_put_def Let_def split: if_splits sum.splits option.splits)

lemma enqueue_step:
  assumes "queue_inv (pipe, ins, outs)" "wf_body (body m)"
    "l4c_pipe_enqueue pipe m now = (pipe', st)"
  shows "queue_inv (pipe_exec (pipe, ins, outs) (Enqueue m now))"
    "time_inv t pipe \<Longrightarrow> t \<le> now \<Longrightarrow> time_inv now pipe'"
proof -
  let ?p = "\<lparr>pk_bytes = frame m, pk_type = msg_type (body m), queued_ms = now\<rparr>"
  have ok: "pipe_ok pipe" using assms(1) by (simp add: queue_inv_def)
  have "queue_inv (pipe_exec (pipe, ins, outs) (Enqueue m now)) \<and>
     (time_inv t pipe \<longrightarrow> t \<le> now \<longrightarrow> time_inv now pipe')"
  proof (cases "msg_type (body m) < L4C_EVENT_READY \<or> stop_event (gate pipe)")
    case True
    then show ?thesis
      using enqueue_untouched [OF True assms(2), of now] assms(1,3)
      by (auto simp: time_inv_def split: if_splits intro: order_trans)
  next
    case False
    then have le: "L4C_EVENT_READY \<le> msg_type (body m)" by (simp add: not_less)
    have r: "pipe_ok pipe'" "enqueue_spec (pipe_view pipe) ?p (pipe_view pipe') st"
      using enqueue_refines [OF ok _ assms(2) le assms(3)] False by auto
    note w = enqueue_keeps_writer [OF assms(3)]
    show ?thesis
      using r(2)
    proof cases
      case (replace j)
      have q: "\<And>p. p \<in> set (pipe_view pipe') \<Longrightarrow> queued_ms p \<in> queued_ms ` set (pipe_view pipe)"
        using coalesce_times [of "pipe_view pipe" j ?p] replace(1) by (metis image_eqI list.set_map)
      show ?thesis
        using assms(1,3) r(1) replace w q coalesce_times [of "pipe_view pipe" j ?p]
          filter_update_same [of j "pipe_view pipe" "\<lambda>p. \<not> is_metrics p"]
          filter_update_count [of j "pipe_view pipe" is_metrics]
        by (auto simp: queue_inv_def time_inv_def coalesce_def intro: order_trans) (smt (verit) imageE order_trans)+
    next
      case append
      then show ?thesis
        using assms(1,3) r(1) w
        by (auto simp: queue_inv_def time_inv_def sorted_append list_all_iff filter_empty_conv intro: order_trans)
    next
      case overflow
      then show ?thesis
        using assms(1,3) r(1) w by (auto simp: queue_inv_def time_inv_def intro: order_trans)
    qed
  qed
  then show "queue_inv (pipe_exec (pipe, ins, outs) (Enqueue m now))"
    "time_inv t pipe \<Longrightarrow> t \<le> now \<Longrightarrow> time_inv now pipe'" by auto
qed

lemma writer_step:
  assumes "queue_inv (pipe, ins, outs)" "e = WriterTake \<or> e = WriterDone"
  shows "queue_inv (pipe_exec (pipe, ins, outs) e)"
    "time_inv t pipe \<Longrightarrow> time_inv t (fst (pipe_exec (pipe, ins, outs) e))"
proof -
  have ok: "pipe_ok pipe" using assms(1) by (simp add: queue_inv_def)
  have "queue_inv (pipe_exec (pipe, ins, outs) e) \<and>
    (time_inv t pipe \<longrightarrow> time_inv t (fst (pipe_exec (pipe, ins, outs) e)))"
  proof (cases "e = WriterDone")
    case True
    have "pipe_view (writer_done pipe) = pipe_view pipe" "pipe_ok (writer_done pipe) = pipe_ok pipe"
      by (simp_all add: pipe_view_def writer_done_def pipe_ok_def)
    then show ?thesis using True assms(1) by (auto simp: queue_inv_def time_inv_def writer_done_def)
  next
    case False
    then have e: "e = WriterTake" using assms(2) by blast
    show ?thesis
    proof (cases "writing pipe \<or> writer_take pipe = None")
      case True
      then show ?thesis using e assms(1) by auto
    next
      case False
      then obtain p pipe' where t: "writer_take pipe = Some (p, pipe')" by fastforce
      have v: "pipe_ok pipe'" "pipe_view pipe = p # pipe_view pipe'"
        using status_queue.get_view [OF ok t] by auto
      have w: "writing pipe'" "writing_since_ms pipe' = queued_ms p"
        using t v(2) by (auto simp: writer_take_def Let_def split: if_splits)
      show ?thesis
        using False e t v w assms(1) by (auto simp: queue_inv_def time_inv_def split: if_splits)
    qed
  qed
  then show "queue_inv (pipe_exec (pipe, ins, outs) e)"
    "time_inv t pipe \<Longrightarrow> time_inv t (fst (pipe_exec (pipe, ins, outs) e))" by auto
qed

lemma pipe_exec_step:
  assumes "queue_inv s" "event_wf e"
  shows "queue_inv (pipe_exec s e) \<and>
    (time_inv t (fst s) \<longrightarrow> timely t [e] \<longrightarrow> time_inv (clock t [e]) (fst (pipe_exec s e)))"
proof -
  obtain pipe ins outs where s: "s = (pipe, ins, outs)" by (cases s)
  show ?thesis
  proof (cases e)
    case (Enqueue m now)
    obtain pipe' st where "l4c_pipe_enqueue pipe m now = (pipe', st)" by fastforce
    then show ?thesis
      using enqueue_step [of pipe ins outs m now pipe' st] assms Enqueue by (simp add: s)
  qed (use writer_step [of pipe ins outs e] assms in \<open>auto simp: s\<close>)
qed

lemma clock_Cons: "timely t (e # es) \<longleftrightarrow> timely t [e] \<and> timely (clock t [e]) es"
    "clock t (e # es) = clock (clock t [e]) es"
  by (cases e; simp)+

lemma pipe_run:
  assumes "queue_inv s" "list_all event_wf es"
  shows "queue_inv (foldl pipe_exec s es) \<and>
    (time_inv t (fst s) \<longrightarrow> timely t es \<longrightarrow> time_inv (clock t es) (fst (foldl pipe_exec s es)))"
  using assms
proof (induction es arbitrary: s t)
  case (Cons e es)
  then have e: "event_wf e" and es: "list_all event_wf es" by auto
  show ?case
    using pipe_exec_step [OF Cons.prems(1) e, of t] Cons.IH [OF _ es, of "pipe_exec s e" "clock t [e]"]
    unfolding clock_Cons [of t e es] foldl_Cons by blast
qed simp

lemma pipe_open_inv:
  "queue_inv (l4c_pipe_open g, [], [])" "time_inv 0 (l4c_pipe_open g)"
  by (simp_all add: queue_inv_def time_inv_def pipe_ok_def pipe_view_def l4c_pipe_open_def)

lemma age_check: "(oldest :: u64) \<le> now \<Longrightarrow>
    now < oldest \<or> L4C_WRITER_TIMEOUT_MS \<le> now - oldest \<longleftrightarrow> unat oldest + 450 \<le> unat now"
  by (auto simp: word_le_nat_alt word_less_nat_alt unat_sub)

lemma oldest_decides:
  assumes "\<forall>t\<in>T. o' \<le> t" "o' \<in> T"
  shows "(\<exists>t\<in>T. unat (t :: u64) + 450 \<le> unat (now :: u64)) \<longleftrightarrow> unat o' + 450 \<le> unat now"
  using assms by (fastforce simp: word_le_nat_alt)

lemma stalled_iff:
  assumes "pipe_ok pipe" "time_inv t pipe" "t \<le> now"
  defines "T \<equiv> (if writing pipe then {writing_since_ms pipe} else {}) \<union>
      queued_ms ` set (pipe_view pipe)"
  shows "l4c_pipe_stalled pipe now \<longleftrightarrow> (\<exists>t\<in>T. unat t + 450 \<le> unat now)"
proof (cases "writing pipe \<or> count pipe \<noteq> 0")
  case False
  then show ?thesis by (simp add: l4c_pipe_stalled_def T_def pipe_view_def)
next
  case True
  define oldest where "oldest = (if writing pipe then writing_since_ms pipe
      else queued_ms (queue pipe ! head pipe))"
  have hd: "pipe_view pipe \<noteq> [] \<and> hd (pipe_view pipe) = queue pipe ! head pipe" if "count pipe \<noteq> 0"
    using that assms(1) ring_view_take [of "queue pipe" "head pipe" "count pipe - 1"]
    by (simp add: pipe_view_def pipe_ok_def)
  have min: "oldest \<in> T" "\<forall>t\<in>T. oldest \<le> t" "oldest \<le> t"
    using True assms(2) hd
    by (cases "pipe_view pipe"; auto simp: oldest_def T_def time_inv_def)+
  then have "oldest \<le> now" using assms(3) by (metis order_trans)
  then show ?thesis
    using oldest_decides [OF min(2,1)] age_check True
    by (auto simp: l4c_pipe_stalled_def oldest_def Let_def split: if_splits)
qed

section \<open>Properties\<close>

text \<open>the reader executes exactly the commands of the stream, in order. For one read of the
  pipe, the gate afterwards is the gate after executing, one by one, the messages the parser
  recovers from the bytes (a stopped gate ignoring the rest); a malformed frame stops the gate with
  the parser's error after the commands before it were executed.\<close>

theorem pipe_poll_executes_stream:
  defines "g \<equiv> \<lambda>es. foldl gate_step l4c_safety_init es"
  assumes "gate pipe = g es" "read_file (min 256 available) = Some received" "received \<noteq> []"
    "available \<noteq> 0"
  shows "gate (fst (l4c_pipe_poll pipe now (Inr available) read_file)) =
    (case drain (parser pipe) received of (q, ms, st) \<Rightarrow>
       let g' = g (es @ map (\<lambda>m. GCommand m now) ms) in
       if st = L4C_OK then g' else l4c_safety_stop g' st)"
proof -
  have inv: "gate_inv (gate pipe)"
    unfolding assms(2) g_def by (rule gate_runs.inv_run [OF init_inv])
  have m: "(if 256 < available then 256 else available) = min 256 available" by simp
  show ?thesis
    using poll_loop_gate [OF inv, of "parser pipe" received now] assms(2-5)
    unfolding l4c_pipe_poll_def m
    by (auto simp: g_def command_all_step l4c_safety_stop_def Let_def split: prod.splits)
qed

theorem pipe_poll_executes_stream_witness:
  "gate (fst (l4c_pipe_poll (l4c_pipe_open l4c_safety_init) 0 (Inr 1) (\<lambda>n. Some [1]))) =
     l4c_safety_init"
  using pipe_poll_executes_stream [of "l4c_pipe_open l4c_safety_init" "[]" "\<lambda>n. Some [1]" 1 "[1]" 0]
  by (simp add: l4c_pipe_open_def drain.simps l4c_ipc_feed_def feed_loop.simps feed_take_def
      feed_frame_def l4c_ipc_parser_init_def Let_def)

text \<open>no status event is lost, duplicated or reordered. In any run of queueing and writing,
  the packets accepted, other than metrics, are those the writer took followed by those waiting,
  in order; at most one metrics packet waits; and the queue never holds more than its 16 slots.\<close>

theorem pipe_status_order:
  assumes "list_all event_wf es"
  shows "case foldl pipe_exec (l4c_pipe_open g, [], []) es of (pipe, ins, outs) \<Rightarrow>
    ins = outs @ filter (\<lambda>p. \<not> is_metrics p) (pipe_view pipe) \<and>
    length (filter is_metrics (pipe_view pipe)) \<le> 1 \<and>
    length (pipe_view pipe) \<le> L4C_STATUS_QUEUE_CAPACITY"
  using pipe_run [OF pipe_open_inv(1) assms, of g] status_queue.within
  by (auto simp: queue_inv_def split: prod.splits)

theorem pipe_status_order_witness:
  "let m = \<lparr>request_seq = 1, body = EventDegraded 1 4\<rparr>;
       r = foldl pipe_exec (l4c_pipe_open l4c_safety_init, [], []) [Enqueue m 5, WriterTake] in
     pipe_view (fst r) = [] \<and> snd (snd r) = fst (snd r)"
  using pipe_status_order [of "[Enqueue \<lparr>request_seq = 1, body = EventDegraded 1 4\<rparr> 5, WriterTake]" l4c_safety_init]
  by (simp add: l4c_pipe_open_def l4c_pipe_enqueue_def encode_wf frame_length queue_put_def writer_take_def
      l4c_safety_init_def pipe_view_def Let_def)

text \<open>
  The stays of packets in the pipe, from the events alone: who waits, since when, and since when the
  packet being written has been there. A message is turned away when it is no event, when the pipe is
  closed, or when 16 others wait, which closes it; a metrics message that finds another one waiting
  joins its stay.
\<close>

type_synonym stays = "(bool \<times> u64) list \<times> u64 option \<times> bool"

fun stay_step :: "stays \<Rightarrow> pipe_event \<Rightarrow> stays" where
  "stay_step (waiting, current, closed) (Enqueue m now) =
     (let metrics = (msg_type (body m) = L4C_EVENT_METRICS) in
      if msg_type (body m) < L4C_EVENT_READY \<or> closed then (waiting, current, closed)
      else if metrics \<and> list_ex fst waiting then (waiting, current, closed)
      else if length waiting < 16 then (waiting @ [(metrics, now)], current, closed)
      else (waiting, current, True))"
| "stay_step (waiting, current, closed) WriterTake =
     (case waiting of
        (_, since) # rest \<Rightarrow> if current = None then (rest, Some since, closed) else (waiting, current, closed)
      | [] \<Rightarrow> (waiting, current, closed))"
| "stay_step (waiting, current, closed) WriterDone = (waiting, None, closed)"

abbreviation arrivals :: "bool \<Rightarrow> pipe_event list \<Rightarrow> stays" where
  "arrivals closed es \<equiv> foldl stay_step ([], None, closed) es"

definition stays_match :: "stays \<Rightarrow> l4c_ipc_pipe \<Rightarrow> bool" where
  "stays_match a pipe \<longleftrightarrow>
     a = (map (\<lambda>p. (is_metrics p, queued_ms p)) (pipe_view pipe),
          if writing pipe then Some (writing_since_ms pipe) else None, stop_event (gate pipe))
     \<and> gate_inv (gate pipe)"

lemma enqueue_stays:
  assumes inv: "queue_inv (pipe, ins, outs)" and wf: "wf_body (body m)" and st: "stays_match a pipe"
    and enq: "l4c_pipe_enqueue pipe m now = (pipe', status)"
  shows "stays_match (stay_step a (Enqueue m now)) pipe'"
proof (cases "msg_type (body m) < L4C_EVENT_READY \<or> stop_event (gate pipe)")
  case True
  then have "pipe' = pipe" using enqueue_untouched [OF True wf, of now] enq by simp
  then show ?thesis using True st by (auto simp: stays_match_def)
next
  case False
  let ?p = "\<lparr>pk_bytes = frame m, pk_type = msg_type (body m), queued_ms = now\<rparr>"
  let ?v = "\<lambda>p. (is_metrics p, queued_ms p)"
  have ok: "pipe_ok pipe" using inv by (simp add: queue_inv_def)
  have le: "L4C_EVENT_READY \<le> msg_type (body m)" using False by (simp add: not_less)
  have r: "enqueue_spec (pipe_view pipe) ?p (pipe_view pipe') status"
    and g: "gate pipe' = (if status = L4C_ERR_OVERFLOW then l4c_safety_stop (gate pipe) status else gate pipe)"
    using enqueue_refines [OF ok _ wf le enq] False by auto
  note w = enqueue_keeps_writer [OF enq]
  have some: "list_ex fst (map ?v q) \<longleftrightarrow> \<not> list_all (\<lambda>p. \<not> is_metrics p) q" for q
    by (induction q) auto
  have gate: "gate_inv (gate pipe)" "\<not> stopped (gate pipe)" using st False by (auto simp: stays_match_def gate_inv_def)
  then have closing: "stop_event (l4c_safety_stop (gate pipe) c)" "gate_inv (l4c_safety_stop (gate pipe) c)" for c
    using stop_locked_inv by (auto simp: l4c_safety_stop_def) (simp add: stop_locked_def)
  from r show ?thesis
  proof cases
    case (replace j)
    have "map ?v (coalesce (pipe_view pipe) j ?p) = map ?v (pipe_view pipe)"
      using replace by (auto simp: coalesce_def map_update list_update_same_conv intro!: nth_equalityI)
    moreover have "list_ex fst (map ?v (pipe_view pipe))"
      using replace unfolding some by (auto simp: list_all_length)
    ultimately show ?thesis using replace st False w g by (simp add: stays_match_def)
  next
    case append
    then show ?thesis using st False w g by (auto simp: stays_match_def some)
  next
    case overflow
    then show ?thesis using st False w g closing by (auto simp: stays_match_def some)
  qed
qed

lemma stays_step:
  assumes "queue_inv s" "event_wf e" "stays_match a (fst s)"
  shows "stays_match (stay_step a e) (fst (pipe_exec s e))"
proof -
  obtain pipe ins outs where s: "s = (pipe, ins, outs)" by (cases s)
  have ok: "pipe_ok pipe" using assms(1) s by (simp add: queue_inv_def)
  show ?thesis
  proof (cases e)
    case (Enqueue m now)
    obtain pipe' status where "l4c_pipe_enqueue pipe m now = (pipe', status)" by fastforce
    then show ?thesis using enqueue_stays [of pipe ins outs m a now pipe' status] assms s Enqueue by simp
  next
    case WriterDone
    have "pipe_view (writer_done pipe) = pipe_view pipe" by (simp add: pipe_view_def writer_done_def)
    then show ?thesis using assms(3) s WriterDone by (auto simp: stays_match_def writer_done_def)
  next
    case WriterTake
    show ?thesis
    proof (cases "writing pipe \<or> writer_take pipe = None")
      case True
      then have "writing pipe \<or> pipe_view pipe = []" using status_queue.get_empty [OF ok] by blast
      then show ?thesis using True assms(3) s WriterTake by (auto simp: stays_match_def split: list.splits)
    next
      case False
      then obtain p pipe' where t: "writer_take pipe = Some (p, pipe')" by fastforce
      have v: "pipe_view pipe = p # pipe_view pipe'" using status_queue.get_view [OF ok t] by blast
      have w: "writing pipe'" "writing_since_ms pipe' = queued_ms p" "gate pipe' = gate pipe"
        using t by (auto simp: writer_take_def Let_def split: if_splits)
      show ?thesis using False t v w assms(3) s WriterTake by (simp add: stays_match_def)
    qed
  qed
qed

lemma stays_run:
  "queue_inv s \<Longrightarrow> list_all event_wf es \<Longrightarrow> stays_match a (fst s) \<Longrightarrow>
     stays_match (foldl stay_step a es) (fst (foldl pipe_exec s es))"
proof (induction es arbitrary: s a)
  case (Cons e es)
  then show ?case using stays_step [of s e a] pipe_exec_step [of s e] by simp
qed simp

text \<open>C29: the stall detector is exact. Let the gate be one that any sequence of its operations left,
  and status messages be queued with non-decreasing ticks while the writer thread takes packets and
  finishes them. At any later tick the pipe is reported stalled if and only if some message that was
  accepted, and is still waiting or being written, was handed to \<open>l4c_pipe_enqueue\<close> 450 ms ago or
  longer; a metrics message that replaces a waiting one counts from the arrival of the first.\<close>

theorem pipe_stall_exact:
  fixes cs :: "gate_event list" and es :: "pipe_event list"
  defines "g \<equiv> foldl gate_step l4c_safety_init cs"
  defines "pipe \<equiv> fst (foldl pipe_exec (l4c_pipe_open g, [], []) es)"
  assumes "list_all event_wf es" "timely 0 es" "clock 0 es \<le> now"
  shows "case arrivals (stop_event g) es of (waiting, current, closed) \<Rightarrow>
    (l4c_pipe_stalled pipe now \<longleftrightarrow>
       (\<exists>since \<in> set_option current \<union> snd ` set waiting. unat since + 450 \<le> unat now))
    \<and> (writing pipe \<longleftrightarrow> current \<noteq> None) \<and> count pipe = length waiting"
proof -
  let ?s = "foldl pipe_exec (l4c_pipe_open g, [], []) es"
  have "gate_inv g" unfolding g_def by (rule gate_runs.inv_run [OF init_inv])
  then have "stays_match ([], None, stop_event g) (fst (l4c_pipe_open g, [] :: l4c_ipc_packet list, [] :: l4c_ipc_packet list))"
    by (simp add: stays_match_def l4c_pipe_open_def pipe_view_def)
  from stays_run [OF pipe_open_inv(1) assms(3) this]
  have m: "arrivals (stop_event g) es = (map (\<lambda>p. (is_metrics p, queued_ms p)) (pipe_view pipe),
      if writing pipe then Some (writing_since_ms pipe) else None, stop_event (gate pipe))"
    by (simp add: stays_match_def pipe_def)
  have "time_inv (clock 0 es) pipe" and ok: "pipe_ok pipe"
    using pipe_run [OF pipe_open_inv(1) [of g] assms(3), of 0] pipe_open_inv(2) assms(4)
    by (auto simp: pipe_def queue_inv_def split: prod.splits)
  then show ?thesis
    using stalled_iff [of pipe "clock 0 es" now] assms(5) unfolding m
    by (simp add: image_image pipe_view_def split: if_splits)
qed

theorem pipe_stall_exact_witness:
  "let m = \<lparr>request_seq = 1, body = EventDegraded 1 4\<rparr>;
       pipe = fst (foldl pipe_exec (l4c_pipe_open l4c_safety_init, [], []) [Enqueue m 5, WriterTake]) in
     writing pipe \<and> \<not> l4c_pipe_stalled pipe 454 \<and> l4c_pipe_stalled pipe 455"
proof -
  let ?m = "\<lparr>request_seq = 1, body = EventDegraded 1 4\<rparr>"
  have a: "arrivals (stop_event l4c_safety_init) [Enqueue ?m 5, WriterTake] = ([], Some 5, False)"
    by (simp add: l4c_safety_init_def)
  show ?thesis
    using pipe_stall_exact [of "[Enqueue ?m 5, WriterTake]" 454 "[]"]
      pipe_stall_exact [of "[Enqueue ?m 5, WriterTake]" 455 "[]"] a
    unfolding Let_def by (simp del: foldl_Cons)
qed

section \<open>The handle argument and the writer's output\<close>

definition is_digit_byte :: "u8 \<Rightarrow> bool" where
  "is_digit_byte c \<longleftrightarrow> 48 \<le> c \<and> c \<le> 57"

definition decimal_from :: "nat \<Rightarrow> u8 list \<Rightarrow> nat" where
  "decimal_from a cs = foldl (\<lambda>a c. a * 10 + (unat c - 48)) a cs"

lemma decimal_from_ge: "a \<le> decimal_from a cs"
proof (induction cs arbitrary: a)
  case (Cons c cs)
  have "a \<le> a * 10 + (unat c - 48)" by simp
  also have "\<dots> \<le> decimal_from (a * 10 + (unat c - 48)) cs" by (rule Cons.IH)
  finally show ?case by (simp add: decimal_from_def)
qed (simp add: decimal_from_def)

lemma digit_step:
  fixes acc :: "'s::len word"
  assumes "32 \<le> LENGTH('s)" "is_digit_byte c"
  defines "d \<equiv> ucast (c - 48) :: 's word"
  shows "unat d = unat c - 48"
    "((- 1) - d) div 10 < acc \<longleftrightarrow> 2 ^ LENGTH('s) \<le> unat acc * 10 + (unat c - 48)"
    "\<not> ((- 1) - d) div 10 < acc \<Longrightarrow> unat (acc * 10 + d) = unat acc * 10 + (unat c - 48)"
proof -
  have pow: "(2::nat) ^ 32 \<le> 2 ^ LENGTH('s)" using assms(1) by (rule power_increasing) simp
  have "unat (c - 48) = unat c - 48"
    using assms(2) by (simp add: is_digit_byte_def unat_sub)
  then show d: "unat d = unat c - 48"
    using assms(1) by (simp add: d_def unat_ucast_widen)
  have d9: "unat d \<le> 9"
    using assms(2) unfolding d by (auto simp: is_digit_byte_def word_le_nat_alt)
  have ten: "unat (10 :: 's word) = 10"
    using pow unat_of_nat [where 'a = 's, of 10] by simp
  have "unat (((- 1) - d) div 10) = (2 ^ LENGTH('s) - 1 - unat d) div 10"
    by (simp only: unat_div ten unat_sub [OF max_word_max] unat_max)
  then have "((- 1) - d) div 10 < acc \<longleftrightarrow> (2 ^ LENGTH('s) - 1 - unat d) div 10 < unat acc"
    by (simp only: word_less_nat_alt)
  also have "\<dots> \<longleftrightarrow> 2 ^ LENGTH('s) - 1 - unat d < unat acc * 10"
    by (simp add: div_less_iff_less_mult)
  also have "\<dots> \<longleftrightarrow> 2 ^ LENGTH('s) \<le> unat acc * 10 + unat d"
  proof -
    have "(10 :: nat) \<le> 2 ^ LENGTH('s)" using pow by (rule order_trans [rotated]) simp
    then show ?thesis using d9 by linarith
  qed
  finally show *: "((- 1) - d) div 10 < acc \<longleftrightarrow> 2 ^ LENGTH('s) \<le> unat acc * 10 + (unat c - 48)"
    unfolding d .
  show "unat (acc * 10 + d) = unat acc * 10 + (unat c - 48)" if "\<not> ((- 1) - d) div 10 < acc"
    using that unfolding * by (simp only: unat_word_ariths ten d mod_add_left_eq) simp
qed

lemma parse_digits_exact:
  fixes acc :: "'s::len word"
  assumes "32 \<le> LENGTH('s)"
  shows "parse_digits acc cs = Inr v \<longleftrightarrow> list_all is_digit_byte cs \<and>
    decimal_from (unat acc) cs < 2 ^ LENGTH('s) \<and> unat v = decimal_from (unat acc) cs"
proof (induction cs arbitrary: acc)
  case Nil
  then show ?case using unat_lt [of acc] by (auto simp: decimal_from_def word_unat_eq_iff)
next
  case (Cons c cs)
  have digit: "c < 48 \<or> 57 < c \<longleftrightarrow> \<not> is_digit_byte c" by (auto simp: is_digit_byte_def)
  have dec: "decimal_from a (c # cs) = decimal_from (a * 10 + (unat c - 48)) cs" for a
    by (simp add: decimal_from_def)
  let ?d = "ucast (c - 48) :: 's word"
  show ?case
  proof (cases "is_digit_byte c")
    case True
    show ?thesis
    proof (cases "((- 1) - ?d) div 10 < acc")
      case over: True
      then have "2 ^ LENGTH('s) \<le> decimal_from (unat acc) (c # cs)"
        using digit_step(2) [OF assms True, of acc] decimal_from_ge [of "unat acc * 10 + (unat c - 48)" cs]
        unfolding dec by linarith
      then show ?thesis using over True by (simp add: digit Let_def)
    next
      case False
      then show ?thesis
        using Cons.IH [of "acc * 10 + ?d"] digit_step(3) [OF assms True False] True
        by (simp add: digit Let_def dec)
    qed
  qed (simp add: digit)
qed

text \<open>the handle argument is parsed exactly. On x86 and x64 a text is accepted if and only if
  it is a non-empty string of decimal digits whose value, computed without wrap-around, is neither
  zero nor one of the 16 topmost (pseudo-)handle values; the result is that value.\<close>

theorem parse_handle_exact:
  assumes "32 \<le> LENGTH('s)"
  shows "(l4c_parse_handle cs = Inr (v :: 's::len word)) \<longleftrightarrow>
    cs \<noteq> [] \<and> list_all is_digit_byte cs \<and> 0 < decimal_from 0 cs \<and>
    decimal_from 0 cs < 2 ^ LENGTH('s) - 16 \<and> unat v = decimal_from 0 cs"
proof -
  have pow: "(2::nat) ^ 32 \<le> 2 ^ LENGTH('s)" using assms by (rule power_increasing) simp
  have fifteen: "unat (15 :: 's word) = 15"
    using pow unat_of_nat [where 'a = 's, of 15] by simp
  have top: "(- 1) - 15 \<le> v \<longleftrightarrow> 2 ^ LENGTH('s) - 16 \<le> unat v" for v :: "'s word"
    by (simp only: word_le_nat_alt unat_sub [OF max_word_max] unat_max fifteen) simp
  have zero: "v = 0 \<longleftrightarrow> unat v = 0" for v :: "'s word" by (simp add: unat_eq_zero)
  have "l4c_parse_handle cs = Inr v \<longleftrightarrow>
      cs \<noteq> [] \<and> parse_digits 0 cs = Inr v \<and> unat v \<noteq> 0 \<and> \<not> 2 ^ LENGTH('s) - 16 \<le> unat v"
    by (cases "parse_digits (0 :: 's word) cs")
      (auto simp only: l4c_parse_handle_def sum.simps top zero if_split_eq1)
  also have "\<dots> \<longleftrightarrow> cs \<noteq> [] \<and> list_all is_digit_byte cs \<and> 0 < decimal_from 0 cs \<and>
    decimal_from 0 cs < 2 ^ LENGTH('s) - 16 \<and> unat v = decimal_from 0 cs"
    unfolding parse_digits_exact [OF assms] unsigned_0 by linarith
  finally show ?thesis .
qed

theorem parse_handle_exact_witness:
  "32 \<le> LENGTH(32) \<and> l4c_parse_handle [52, 49, 54] = Inr (416 :: 32 word)"
  using parse_handle_exact [where 's = 32, of "[52, 49, 54]" 416]
  by (simp add: decimal_from_def is_digit_byte_def)

text \<open>
  The documented behaviour of \<open>WriteFile\<close> the writer relies on: it never reports more bytes than
  were requested. \<open>healthy\<close> rounds are those without a stop in which some bytes get through.
\<close>

definition write_contract :: "(nat \<Rightarrow> nat option) \<Rightarrow> bool" where
  "write_contract f \<longleftrightarrow> (\<forall>k n. f k = Some n \<longrightarrow> n \<le> k)"

definition healthy :: "bool \<times> (nat \<Rightarrow> nat option) \<Rightarrow> bool" where
  "healthy r \<longleftrightarrow> \<not> fst r \<and> (\<forall>k>0. \<exists>n>0. snd r k = Some n)"

lemma writer_send_prefix:
  assumes "list_all (write_contract \<circ> snd) script"
  shows "\<exists>k. fst (writer_send packet offset script) = take k (drop offset packet)"
  using assms
proof (induction packet offset script rule: writer_send.induct)
  case (2 packet offset stop f script)
  let ?chunk = "if 1024 < length packet - offset then 1024 else length packet - offset"
  show ?case
  proof (cases "length packet \<le> offset \<or> stop \<or> f ?chunk = None \<or> f ?chunk = Some 0")
    case True
    then show ?thesis by (intro exI [of _ 0]) (auto simp: Let_def split: option.split)
  next
    case False
    then obtain n where n: "f ?chunk = Some n" "n \<noteq> 0" by auto
    then have "n \<le> ?chunk" using 2(2) by (simp add: write_contract_def)
    then have le: "n \<le> length packet - offset" by (simp split: if_splits)
    obtain k where "fst (writer_send packet (offset + n) script) = take k (drop (offset + n) packet)"
      using 2(1) [of "length packet - offset" ?chunk n] False n 2(2) by (auto simp del: if_split)
    then show ?thesis
      using False n le
      by (intro exI [of _ "n + k"])
        (simp add: Let_def case_prod_unfold take_add add.commute [of n offset] del: if_split)
  qed
qed (auto intro: exI [of _ 0])

lemma writer_send_complete:
  assumes "list_all (write_contract \<circ> snd) script" "list_all healthy script"
    "length packet - offset \<le> length script"
  shows "writer_send packet offset script = (drop offset packet, False)"
  using assms
proof (induction packet offset script rule: writer_send.induct)
  case (2 packet offset stop f script)
  let ?chunk = "if 1024 < length packet - offset then 1024 else length packet - offset"
  show ?case
  proof (cases "length packet \<le> offset")
    case False
    then have "0 < ?chunk" by simp
    then obtain n where n: "f ?chunk = Some n" "0 < n" and stop: "\<not> stop"
      using 2(3) by (auto simp: healthy_def simp del: if_split)
    have "n \<le> ?chunk" using 2(2) n by (simp add: write_contract_def)
    then have le: "n \<le> length packet - offset" by (simp split: if_splits)
    have "writer_send packet (offset + n) script = (drop (offset + n) packet, False)"
      using 2(1) [of "length packet - offset" ?chunk n] False stop n 2(2-4) by (simp del: if_split)
    then show ?thesis
      using False n stop by (simp add: Let_def drop_glue del: if_split)
  qed simp
qed simp

text \<open>What reaches the pipe is the packet. Whatever \<open>WriteFile\<close> answers within its contract,
  and whenever a stop or an error cuts the transmission off, the bytes written are a prefix of the
  encoded packet; when every round gets some bytes through, the whole packet goes out within as
  many rounds as it has bytes, in requests of at most 1024 bytes, and no error is reported.\<close>

theorem pipe_writer_output:
  assumes "list_all (write_contract \<circ> snd) script"
  shows "(\<exists>k. fst (writer_send packet 0 script) = take k packet) \<and>
    (list_all healthy script \<and> length packet \<le> length script \<longrightarrow>
       writer_send packet 0 script = (packet, False))"
  using writer_send_prefix [OF assms, of packet 0] writer_send_complete [OF assms, of packet 0]
  by simp

theorem pipe_writer_output_witness:
  "writer_send [1, 2, 3] 0 [(False, \<lambda>k. Some (min 2 k)), (False, \<lambda>k. Some (min 2 k)),
     (False, \<lambda>k. Some (min 2 k))] = ([1, 2, 3], False)"
  using pipe_writer_output [of "replicate 3 (False, \<lambda>k. Some (min 2 k))" "[1, 2, 3]"]
  by (simp add: write_contract_def healthy_def numeral_3_eq_3)

end
