(* ===== verification/Utf8_Strict.thy ===== *)
theory Utf8_Strict
  imports Ipc_Protocol
begin

text \<open>
  The UTF-8 check of \<open>tools/l4capture/src/ipc/ipc_protocol.c\<close> against a reference definition:
  the texts it accepts are exactly the concatenated encodings of non-zero Unicode scalar values,
  so overlong forms, surrogates, values above U+10FFFF, stray and missing continuation bytes and
  embedded NUL are all refused.
\<close>

section \<open>The reference encoding\<close>

definition scalar :: "nat \<Rightarrow> bool" where
  "scalar c \<longleftrightarrow> 0 < c \<and> c \<le> 1114111 \<and> \<not> (55296 \<le> c \<and> c \<le> 57343)"

definition utf8_encode :: "nat \<Rightarrow> nat list" where
  "utf8_encode c =
     (if c < 128 then [c]
      else if c < 2048 then [192 + c div 64, 128 + c mod 64]
      else if c < 65536 then [224 + c div 4096, 128 + c div 64 mod 64, 128 + c mod 64]
      else [240 + c div 262144, 128 + c div 4096 mod 64, 128 + c div 64 mod 64, 128 + c mod 64])"

section \<open>The check on byte values\<close>

definition push64 :: "nat \<Rightarrow> nat \<Rightarrow> nat" where
  "push64 c x = c * 64 + x"

fun continue_nat :: "nat \<Rightarrow> nat \<Rightarrow> nat list \<Rightarrow> (nat \<times> nat list) option" where
  "continue_nat 0 c p = Some (c, p)"
| "continue_nat (Suc n) c [] = None"
| "continue_nat (Suc n) c (b # p) =
     (if b div 64 \<noteq> 2 then None else continue_nat n (push64 c (b mod 64)) p)"

definition lead_nat :: "nat \<Rightarrow> (nat \<times> nat \<times> nat) option" where
  "lead_nat c =
     (if 194 \<le> c \<and> c \<le> 223 then Some (1, 128, c - 192)
      else if 224 \<le> c \<and> c \<le> 239 then Some (2, 2048, c - 224)
      else if 240 \<le> c \<and> c \<le> 244 then Some (3, 65536, c - 240)
      else None)"

definition next_nat :: "nat list \<Rightarrow> (nat \<times> nat list) option" where
  "next_nat bs = (case bs of [] \<Rightarrow> None | b # p \<Rightarrow>
     if b < 128 then (if b = 0 then None else Some (b, p))
     else case lead_nat b of None \<Rightarrow> None
       | Some (extra, minimum, c0) \<Rightarrow> (case continue_nat extra c0 p of None \<Rightarrow> None
           | Some (c, p') \<Rightarrow> if minimum \<le> c \<and> scalar c then Some (c, p') else None))"

lemma low_masks: "(63 :: u8) = mask 6" "(31 :: u32) = mask 5" "(15 :: u32) = mask 4"
    "(7 :: u32) = mask 3"
  by (simp_all add: mask_eq_exp_minus_1)

lemma continuation_bits: "unat ((b :: u8) AND 63) = unat b mod 64"
  unfolding low_masks unat_low_bits by simp

lemma continuation_byte: "(b :: u8) AND 192 = 128 \<longleftrightarrow> unat b div 64 = 2"
proof -
  have "(192 :: u8) OR 63 = - 1" by simp
  then have "(b AND 192) OR (b AND 63) = b"
    by (simp only: and.right_neutral flip: bit.conj_disj_distrib)
  then have "unat b = unat (b AND 192) OR unat (b AND 63)"
    by (simp flip: unsigned_or_eq)
  moreover have "unat (b AND 192) AND unat (b AND 63) = 0"
    by (simp add: ac_simps flip: unsigned_and_eq)
  ultimately have "unat b = unat (b AND 192) + unat b mod 64"
    using disjunctive_add_eq_or continuation_bits by metis
  then have "unat (b AND 192) = 64 * (unat b div 64)"
    using mult_div_mod_eq [of 64 "unat b"] by linarith
  moreover have "b AND 192 = 128 \<longleftrightarrow> unat (b AND 192) = 128"
    by (simp add: word_unat_eq_iff)
  ultimately show ?thesis by simp
qed

lemma fold_continuation:
  assumes "unat c < 2 ^ 26"
  shows "unat (push_bit 6 (c :: u32) OR ucast ((b :: u8) AND 63)) = unat c * 64 + unat b mod 64"
proof -
  have "unat (push_bit 6 c) = unat c * 64"
    using assms by (simp add: push_bit_eq_mult unat_word_ariths)
  moreover have "unat (push_bit 6 c OR ucast (b AND 63)) = unat (push_bit 6 c) + unat (ucast (b AND 63) :: u32)"
  proof -
    have "push_bit 6 c AND ucast (b AND 63 :: u8) = 0"
      unfolding low_masks by (rule bit_word_eqI) (auto simp: bit_simps)
    then show ?thesis
      by (metis disjunctive_add_eq_or unsigned_and_eq unsigned_or_eq unsigned_0)
  qed
  ultimately show ?thesis
    by (simp add: continuation_bits unat_ucast_widen)
qed

lemma continue_of_bytes:
  "(unat c + 1) * 64 ^ n \<le> 2 ^ 32 \<Longrightarrow>
     continue_nat n (unat c) (map unat p) =
     map_option (\<lambda>(c, p). (unat c, map unat p)) (utf8_continue n c p)"
proof (induction n c p rule: utf8_continue.induct)
  case (3 n c b p)
  let ?c = "push_bit 6 c OR ucast (b AND 63)"
  have "(unat c + 1) * 64 * 1 \<le> (unat c + 1) * 64 * 64 ^ n" by (intro mult_left_mono) auto
  also have "\<dots> \<le> 2 ^ 32" using 3(2) by (simp only: power_Suc mult.assoc)
  finally have c: "unat ?c = unat c * 64 + unat b mod 64"
    by (intro fold_continuation) simp
  have "(unat c * 64 + unat b mod 64 + 1) * 64 ^ n \<le> ((unat c + 1) * 64) * 64 ^ n"
    using mod_less_divisor [of 64 "unat b"] by (intro mult_right_mono) auto
  also have "\<dots> \<le> 2 ^ 32" using 3(2) by (simp only: power_Suc mult.assoc)
  finally have "(unat ?c + 1) * 64 ^ n \<le> 2 ^ 32" using c by simp
  then show ?case
    using 3(1) c by (simp add: continuation_byte push64_def)
qed auto

lemma lead_of_bytes:
  "lead_nat (unat b) = map_option (\<lambda>(e, m, c). (e, unat m, unat c)) (utf8_lead (ucast (b :: u8)))"
proof -
  have u: "unat (ucast b :: u32) = unat b" by (simp add: unat_ucast_widen)
  have le: "(numeral k \<le> (ucast b :: u32)) = (unat (numeral k :: u32) \<le> unat b)"
    "((ucast b :: u32) \<le> numeral k) = (unat b \<le> unat (numeral k :: u32))" for k
    by (simp_all add: word_le_nat_alt u)
  have m: "unat ((ucast b :: u32) AND 31) = unat b mod 32" "unat ((ucast b :: u32) AND 15) = unat b mod 16"
    "unat ((ucast b :: u32) AND 7) = unat b mod 8"
    unfolding low_masks unat_low_bits u by simp_all
  have sub: "n mod d = n - d * q" if "d * q \<le> n" "n < d * q + d" for n d q :: nat
    using that by (metis le_add_diff_inverse mod_less mod_mult_self4 nat_add_left_cancel_less)
  show ?thesis
    unfolding utf8_lead_def lead_nat_def le
    using sub [of 32 6 "unat b"] sub [of 16 14 "unat b"] sub [of 8 30 "unat b"] by (simp add: m)
qed

lemma next_nat_length: "next_nat bs = Some (c, p) \<Longrightarrow> length p < length bs"
proof -
  have "continue_nat n c p = Some (c', p') \<Longrightarrow> length p' \<le> length p" for n c p c' p'
    by (induction n c p rule: continue_nat.induct) (auto split: if_splits)
  then show "next_nat bs = Some (c, p) \<Longrightarrow> length p < length bs"
    by (fastforce simp: next_nat_def split: list.splits if_splits option.splits)
qed

function valid_nat :: "nat list \<Rightarrow> bool" where
  "valid_nat bs = (bs = [] \<or>
     (case next_nat bs of None \<Rightarrow> False | Some (c, p) \<Rightarrow> valid_nat p))"
  by pat_completeness auto
termination
  by (relation "measure length") (auto dest: next_nat_length)

declare valid_nat.simps [simp del]


lemma lead_bounds:
  "utf8_lead c = Some (e, m, c0) \<Longrightarrow> (unat c0 + 1) * 64 ^ e \<le> 2 ^ 32 \<and> 0 < unat m"
proof -
  have small: "unat (x AND mask k :: u32) < 2 ^ k" for x k
    by (simp add: unat_low_bits)
  assume "utf8_lead c = Some (e, m, c0)"
  then consider "e = 1" "c0 = c AND mask 5" "m = 128" | "e = 2" "c0 = c AND mask 4" "m = 2048"
    | "e = 3" "c0 = c AND mask 3" "m = 65536"
    unfolding utf8_lead_def low_masks by (auto split: if_splits)
  then show ?thesis
    using small [of c 5] small [of c 4] small [of c 3] by cases simp_all
qed

lemma continue_short: "length p < n \<Longrightarrow> utf8_continue n c p = None"
  by (induction n c p rule: utf8_continue.induct) auto

lemma next_of_bytes:
  assumes "128 \<le> unat b"
  shows "next_nat (map unat (b # p)) =
    (case utf8_lead (ucast b) of None \<Rightarrow> None
     | Some (e, m, c0) \<Rightarrow> (case utf8_continue e c0 p of None \<Rightarrow> None
       | Some (c, p') \<Rightarrow> if c < m \<or> 1114111 < c \<or> (55296 \<le> c \<and> c \<le> 57343) then None
           else Some (unat c, map unat p')))"
proof (cases "utf8_lead (ucast b)")
  case None
  then show ?thesis using assms by (simp add: next_nat_def lead_of_bytes)
next
  case (Some r)
  obtain e m c0 where r: "r = (e, m, c0)" by (cases r)
  have "(unat c0 + 1) * 64 ^ e \<le> 2 ^ 32" "0 < unat m"
    using lead_bounds Some r by blast+
  then show ?thesis
    using assms Some
    by (auto simp: next_nat_def lead_of_bytes r continue_of_bytes scalar_def word_less_nat_alt
        word_le_nat_alt split: option.split)
qed

lemma valid_utf8_nat: "valid_utf8 bs = valid_nat (map unat bs)"
proof (induction bs rule: length_induct)
  case (1 bs)
  show ?case
  proof (cases bs)
    case (Cons b p)
    have v: "valid_nat (map unat bs) =
      (case next_nat (map unat bs) of None \<Rightarrow> False | Some (c, p) \<Rightarrow> valid_nat p)"
      by (subst valid_nat.simps) (simp add: Cons)
    have u: "unat (ucast b :: u32) = unat b" by (simp add: unat_ucast_widen)
    then have z: "(ucast b :: u32) = 0 \<longleftrightarrow> unat b = 0" by (simp flip: unat_eq_zero)
    show ?thesis
    proof (cases "unat b < 128")
      case True
      then show ?thesis
        using 1 unfolding v by (simp add: Cons next_nat_def word_less_nat_alt u z)
    next
      case False
      then have n: "next_nat (map unat bs) = (case utf8_lead (ucast b) of None \<Rightarrow> None
     | Some (e, m, c0) \<Rightarrow> (case utf8_continue e c0 p of None \<Rightarrow> None
       | Some (c, p') \<Rightarrow> if c < m \<or> 1114111 < c \<or> (55296 \<le> c \<and> c \<le> 57343) then None
           else Some (unat c, map unat p')))"
        unfolding Cons by (intro next_of_bytes) simp
      have IH: "valid_utf8 p' = valid_nat (map unat p')" if "utf8_continue e c0 p = Some (c, p')" for e c0 c p'
        using 1 utf8_continue_length [OF that] by (simp add: Cons)
      show ?thesis
        unfolding v n using False
        by (auto simp: Cons word_less_nat_alt u IH continue_short split: option.split)
    qed
  qed (simp add: valid_nat.simps)
qed

section \<open>Decoding inverts the reference encoding\<close>

lemma continuation_value [simp]:
  "x < 64 \<Longrightarrow> (128 + x) div 64 = (2 :: nat)" "x < 64 \<Longrightarrow> (128 + x) mod 64 = (x :: nat)"
  by (simp_all add: div_add1_eq [of 128] mod_add_left_eq [symmetric, of 128])

lemma base64_div: "c div 4096 = c div 64 div 64" "c div 262144 = c div 64 div 64 div (64 :: nat)"
  by (simp_all flip: div_mult2_eq)

lemma push64_digits [simp]: "x < 64 \<Longrightarrow> push64 c x div 64 = c" "x < 64 \<Longrightarrow> push64 c x mod 64 = x"
  by (simp_all add: push64_def)

lemma push64_less: "x < 64 \<Longrightarrow> push64 c x < 64 * n \<longleftrightarrow> c < n"
  by (auto simp: push64_def)

lemma push64_less_numeral:
  assumes "x < 64"
  shows "push64 c x < 2048 \<longleftrightarrow> c < 32" "push64 c x < 65536 \<longleftrightarrow> c < 1024"
    "push64 c x < 128 \<longleftrightarrow> c < 2" "push64 c x < 1024 \<longleftrightarrow> c < 16"
  using push64_less [OF assms, of c 32] push64_less [OF assms, of c 1024]
    push64_less [OF assms, of c 2] push64_less [OF assms, of c 16] by simp_all

lemma digit: "\<exists>a x. n = push64 a x \<and> x < 64"
  by (metis push64_def div_mult_mod_eq mod_less_divisor zero_less_numeral)

text \<open>Encodings by their digits to base 64.\<close>

lemma encode_digits:
  "2 \<le> a \<Longrightarrow> a < 32 \<Longrightarrow> x < 64 \<Longrightarrow> utf8_encode (push64 a x) = [192 + a, 128 + x]"
  "y < 64 \<Longrightarrow> x < 64 \<Longrightarrow> a < 16 \<Longrightarrow> 2048 \<le> push64 (push64 a y) x \<Longrightarrow>
     utf8_encode (push64 (push64 a y) x) = [224 + a, 128 + y, 128 + x]"
  by (simp_all add: utf8_encode_def base64_div push64_less_numeral not_less [symmetric])

lemma encode_digits4:
  "z < 64 \<Longrightarrow> y < 64 \<Longrightarrow> x < 64 \<Longrightarrow> 65536 \<le> push64 (push64 (push64 a z) y) x \<Longrightarrow>
     utf8_encode (push64 (push64 (push64 a z) y) x) = [240 + a, 128 + z, 128 + y, 128 + x]"
  by (simp add: utf8_encode_def base64_div)

lemma digits_of_scalar:
  "c < 128 \<or> (\<exists>a x. c = push64 a x \<and> x < 64 \<and> 2 \<le> a \<and> a < 32) \<or>
   (\<exists>a y x. c = push64 (push64 a y) x \<and> x < 64 \<and> y < 64 \<and> a < 16 \<and> 2048 \<le> c) \<or>
   (\<exists>a z y x. c = push64 (push64 (push64 a z) y) x \<and> x < 64 \<and> y < 64 \<and> z < 64 \<and> 65536 \<le> c)"
proof -
  obtain a x b y d z where 1: "c = push64 a x" "x < 64" and 2: "a = push64 b y" "y < 64"
    and 3: "b = push64 d z" "z < 64"
    using digit by meson
  consider "c < 128" | "2 \<le> a" "a < 32" | "2048 \<le> c" "b < 16" | "65536 \<le> c"
    using push64_less_numeral [OF 1(2)] push64_less_numeral(4) [OF 2(2)] 1 2
    by (metis not_less)
  then show ?thesis
    using 1 2 3 by cases blast+
qed

lemma next_encode:
  assumes "scalar c"
  shows "next_nat (utf8_encode c @ p) = Some (c, p)"
  using digits_of_scalar [of c]
proof (elim disjE exE conjE)
  assume "c < 128"
  then show ?thesis using assms by (simp add: next_nat_def utf8_encode_def scalar_def)
next
  fix a x assume c: "c = push64 a x" "x < 64" "2 \<le> a" "a < 32"
  then have "128 \<le> push64 a x" by (simp add: push64_def)
  then show ?thesis using c assms
    by (simp add: encode_digits next_nat_def lead_nat_def)
next
  fix a y x assume c: "c = push64 (push64 a y) x" "x < 64" "y < 64" "a < 16" "2048 \<le> c"
  then show ?thesis using assms
    by (simp add: encode_digits next_nat_def lead_nat_def numeral_2_eq_2)
next
  fix a z y x
  assume c: "c = push64 (push64 (push64 a z) y) x" "x < 64" "y < 64" "z < 64" "65536 \<le> c"
  moreover have "a \<le> 4" using c assms by (simp add: scalar_def push64_def)
  ultimately show ?thesis using assms
    by (simp add: encode_digits next_nat_def lead_nat_def encode_digits4 numeral_3_eq_3)
qed

lemma continue_nat_Some:
  "continue_nat n c bs = Some (c', p) \<Longrightarrow>
     \<exists>xs. length xs = n \<and> (\<forall>x\<in>set xs. x < 64) \<and> bs = map (\<lambda>x. 128 + x) xs @ p \<and>
       c' = foldl push64 c xs"
proof (induction n c bs rule: continue_nat.induct)
  case (3 n c b bs)
  then obtain xs where xs: "length xs = n" "\<forall>x\<in>set xs. x < 64" "bs = map (\<lambda>x. 128 + x) xs @ p"
    "c' = foldl push64 (push64 c (b mod 64)) xs" and b: "b div 64 = 2"
    by (auto split: if_splits)
  have "b = 128 + b mod 64" using b mult_div_mod_eq [of 64 b] by simp
  then show ?case using xs by (intro exI [of _ "b mod 64 # xs"]) auto
qed auto

lemma next_nat_encoded:
  assumes "next_nat bs = Some (c, p)"
  shows "scalar c \<and> bs = utf8_encode c @ p"
proof -
  obtain b q where bs: "bs = b # q" using assms by (cases bs) (auto simp: next_nat_def)
  show ?thesis
  proof (cases "b < 128")
    case True
    then show ?thesis
      using assms by (auto simp: bs next_nat_def scalar_def utf8_encode_def split: if_splits)
  next
    case False
    obtain e m c0 where l: "lead_nat b = Some (e, m, c0)" and k: "continue_nat e c0 q = Some (c, p)"
      and ok: "m \<le> c" "scalar c"
      using assms False by (auto simp: bs next_nat_def split: option.splits if_splits)
    obtain xs where xs: "length xs = e" "\<forall>x\<in>set xs. x < 64" "q = map (\<lambda>x. 128 + x) xs @ p"
      "c = foldl push64 c0 xs"
      using continue_nat_Some [OF k] by blast
    consider "e = 1" "m = 128" "b = 192 + c0" "2 \<le> c0" "c0 < 32" | "e = 2" "m = 2048" "b = 224 + c0" "c0 < 16"
      | "e = 3" "m = 65536" "b = 240 + c0"
      using l by (auto simp: lead_nat_def split: if_splits)
    then show ?thesis
    proof cases
      case 1
      then show ?thesis using xs ok by (auto simp: bs length_Suc_conv encode_digits)
    next
      case 2
      then show ?thesis
        using xs ok by (auto simp: bs length_Suc_conv numeral_2_eq_2 encode_digits)
    next
      case 3
      then show ?thesis
        using xs ok by (auto simp: bs length_Suc_conv numeral_3_eq_3 encode_digits4)
    qed
  qed
qed

lemma valid_nat_iff: "valid_nat bs \<longleftrightarrow> (\<exists>cs. (\<forall>c\<in>set cs. scalar c) \<and> bs = concat (map utf8_encode cs))"
proof
  show "valid_nat bs \<Longrightarrow> \<exists>cs. (\<forall>c\<in>set cs. scalar c) \<and> bs = concat (map utf8_encode cs)"
  proof (induction bs rule: valid_nat.induct)
    case (1 bs)
    show ?case
    proof (cases "bs = []")
      case False
      then obtain c p where n: "next_nat bs = Some (c, p)" and v: "valid_nat p"
        using 1(2) by (subst (asm) valid_nat.simps) (auto split: option.splits)
      then obtain cs where "\<forall>c\<in>set cs. scalar c" "p = concat (map utf8_encode cs)"
        using 1(1) [OF n refl v] by blast
      then show ?thesis using next_nat_encoded [OF n] by (intro exI [of _ "c # cs"]) simp
    qed (intro exI [of _ "[]"], simp)
  qed
  have "\<forall>c\<in>set cs. scalar c \<Longrightarrow> valid_nat (concat (map utf8_encode cs))" for cs
    by (induction cs) (simp add: valid_nat.simps, subst valid_nat.simps, simp add: next_encode)
  then show "\<exists>cs. (\<forall>c\<in>set cs. scalar c) \<and> bs = concat (map utf8_encode cs) \<Longrightarrow> valid_nat bs"
    by blast
qed

section \<open>Property\<close>

text \<open>C40: the UTF-8 check is exact. A byte string passes \<open>valid_utf8\<close> if and only if it is the
  concatenation of the UTF-8 encodings of some sequence of Unicode scalar values other than NUL.\<close>

theorem valid_utf8_exact:
  "valid_utf8 bs \<longleftrightarrow>
     (\<exists>cs. list_all scalar cs \<and> map unat bs = concat (map utf8_encode cs))"
  by (simp add: valid_utf8_nat valid_nat_iff list_all_iff)

end
