(* ===== verification/Video_Profile.thy ===== *)
theory Video_Profile
  imports Safety_Gate
begin

text \<open>
  Video profiles and the small scheduling helpers of the capture host:
  \<open>tools/l4capture/src/pipeline/video_profile.c\<close>, and the headers \<open>quality_raster.h\<close>,
  \<open>idle_refresh.h\<close> and \<open>mft_event_gate.h\<close> under \<open>tools/l4capture/include/l4capture/\<close>. The lemmas
  show that a profile request is never upgraded, that the encoder raster is even, fits its
  bounds and keeps the aspect ratio, and that refreshes and encoder tokens are rationed.
\<close>

section \<open>Profiles\<close>

abbreviation L4C_PROFILE_REQ_LOW :: "'a::numeral" where "L4C_PROFILE_REQ_LOW \<equiv> 1"
abbreviation L4C_PROFILE_REQ_540P_WIRE :: "'a::numeral" where "L4C_PROFILE_REQ_540P_WIRE \<equiv> 2"
abbreviation L4C_PROFILE_REQ_DEFAULT :: "'a::numeral" where "L4C_PROFILE_REQ_DEFAULT \<equiv> 3"

record l4c_profile_params =
  pp_id :: u16
  pp_width :: u16
  pp_height :: u16
  fps_nominal :: u8
  fps_floor :: u8
  bitrate_min_kbps :: u16
  bitrate_target_kbps :: u16
  bitrate_max_kbps :: u16
  input_profile_eligible :: bool

record l4c_profile_resolved =
  rs_actual_id :: u16
  rs_start_fps :: u8
  refused_premium :: bool
  win7_legacy :: bool

definition k_profiles :: "l4c_profile_params list" where
  "k_profiles =
    [\<lparr>pp_id = L4C_PROFILE_480P, pp_width = 854, pp_height = 480, fps_nominal = 15, fps_floor = 10,
      bitrate_min_kbps = 650, bitrate_target_kbps = 1300, bitrate_max_kbps = 1650,
      input_profile_eligible = True\<rparr>,
     \<lparr>pp_id = L4C_PROFILE_540P, pp_width = 960, pp_height = 540, fps_nominal = 15, fps_floor = 10,
      bitrate_min_kbps = 750, bitrate_target_kbps = 1100, bitrate_max_kbps = 1400,
      input_profile_eligible = False\<rparr>,
     \<lparr>pp_id = L4C_PROFILE_720P, pp_width = 1280, pp_height = 720, fps_nominal = 25, fps_floor = 10,
      bitrate_min_kbps = 1200, bitrate_target_kbps = 2100, bitrate_max_kbps = 2600,
      input_profile_eligible = False\<rparr>]"

text \<open>Result: the target and the maximum after the call.\<close>

definition l4c_profile_rate_for_raster ::
  "u8 \<Rightarrow> u32 \<Rightarrow> u32 \<Rightarrow> u16 \<Rightarrow> u16 \<Rightarrow> u16 \<times> u16" where
  "l4c_profile_rate_for_raster request width height target_kbps max_kbps =
     (let pixels = ucast width * ucast height :: u64 in
      if pixels \<le> 800 * 600 then
        (let t = (if request = L4C_PROFILE_REQ_LOW then 900 else 1100);
             m = (if request = L4C_PROFILE_REQ_LOW then 1200 else 1400) in
         (if t < target_kbps then t else target_kbps, if m < max_kbps then m else max_kbps))
      else if request = L4C_PROFILE_REQ_DEFAULT \<and> pixels \<le> 1280 * 720 then
        (if 1800 < target_kbps then 1800 else target_kbps,
         if 2300 < max_kbps then 2300 else max_kbps)
      else (target_kbps, max_kbps))"

fun profile_params_in :: "l4c_profile_params list \<Rightarrow> u16 \<Rightarrow> l4c_profile_params option" where
  "profile_params_in [] actual_id = None"
| "profile_params_in (p # ps) actual_id =
     (if pp_id p = actual_id then Some p else profile_params_in ps actual_id)"

definition l4c_profile_params :: "u16 \<Rightarrow> l4c_profile_params option" where
  "l4c_profile_params actual_id = profile_params_in k_profiles actual_id"

definition l4c_profile_parse_request :: "u16 \<Rightarrow> u8 option" where
  "l4c_profile_parse_request wire_profile_id =
     (if wire_profile_id = L4C_PROFILE_REQ_LOW then Some L4C_PROFILE_REQ_LOW
      else if wire_profile_id = L4C_PROFILE_REQ_DEFAULT then Some L4C_PROFILE_REQ_DEFAULT
      else if wire_profile_id = L4C_PROFILE_REQ_540P_WIRE then Some L4C_PROFILE_REQ_DEFAULT
      else None)"

definition l4c_profile_resolve ::
  "u8 \<Rightarrow> bool \<Rightarrow> bool \<Rightarrow> bool \<Rightarrow> l4c_status + l4c_profile_resolved" where
  "l4c_profile_resolve request win7_or_legacy hardware_mft_720p openh264_720p_verified =
     (let out = \<lparr>rs_actual_id = 0, rs_start_fps = 0, refused_premium = False,
                 win7_legacy = win7_or_legacy\<rparr> in
      if request = L4C_PROFILE_REQ_LOW then
        Inr (out\<lparr>rs_actual_id := L4C_PROFILE_480P, rs_start_fps := 15\<rparr>)
      else if request \<noteq> L4C_PROFILE_REQ_DEFAULT then Inl L4C_ERR_INVALID_ARG
      else if win7_or_legacy then
        Inr (out\<lparr>rs_actual_id := L4C_PROFILE_480P, rs_start_fps := 15, win7_legacy := True\<rparr>)
      else if hardware_mft_720p then
        Inr (out\<lparr>rs_actual_id := L4C_PROFILE_720P, rs_start_fps := 25\<rparr>)
      else if openh264_720p_verified then
        Inr (out\<lparr>rs_actual_id := L4C_PROFILE_720P, rs_start_fps := 15\<rparr>)
      else Inr (out\<lparr>rs_actual_id := L4C_PROFILE_480P, rs_start_fps := 15, refused_premium := True\<rparr>))"

definition l4c_profile_input_gate_allows :: "u8 \<Rightarrow> u16 \<Rightarrow> bool" where
  "l4c_profile_input_gate_allows request actual_id \<longleftrightarrow>
     request = L4C_PROFILE_REQ_LOW \<and> actual_id = L4C_PROFILE_480P"

section \<open>The encoder raster\<close>

definition l4c_quality_fit_raster :: "u32 \<Rightarrow> u32 \<Rightarrow> u32 \<Rightarrow> u32 \<Rightarrow> u32 \<times> u32" where
  "l4c_quality_fit_raster width height max_width max_height =
     (if width = 0 \<or> height = 0 \<or> max_width = 0 \<or> max_height = 0 then (width, height)
      else
        let (w, h) =
          (if max_width < width \<or> max_height < height then
             (if (ucast height * ucast max_width :: u64) < ucast width * ucast max_height
              then (ucast (ucast max_width :: u64),
                    ucast (ucast height * ucast max_width div ucast width :: u64))
              else (ucast (ucast width * ucast max_height div ucast height :: u64),
                    ucast (ucast max_height :: u64)))
           else (width, height))
        in (w AND NOT 1, h AND NOT 1))"

definition l4c_quality_limit_width :: "u32 \<Rightarrow> u32 \<Rightarrow> u32 \<Rightarrow> u32 \<times> u32" where
  "l4c_quality_limit_width width height max_width =
     (if max_width = 0 \<or> width \<le> max_width then (width, height)
      else l4c_quality_fit_raster width height max_width (- 1))"

section \<open>Refresh scheduling and encoder tokens\<close>

definition l4c_idle_refresh_due :: "u64 \<Rightarrow> u64 \<Rightarrow> u64 \<Rightarrow> u32 \<Rightarrow> bool" where
  "l4c_idle_refresh_due now_ms last_dxgi_frame_ms last_refresh_ms interval_ms =
     (if interval_ms = 0 \<or> last_dxgi_frame_ms = 0 \<or> now_ms < last_dxgi_frame_ms \<or>
         now_ms - last_dxgi_frame_ms < ucast interval_ms then False
      else if last_refresh_ms \<noteq> 0 \<and>
         (now_ms < last_refresh_ms \<or> now_ms - last_refresh_ms < ucast interval_ms) then False
      else True)"

definition l4c_bootstrap_refresh_due :: "u64 \<Rightarrow> u64 \<Rightarrow> u32 \<Rightarrow> bool" where
  "l4c_bootstrap_refresh_due now_ms stream_start_ms completed_attempts =
     (let offsets_ms = [1500, 3500, 7500 :: u64] in
      if stream_start_ms = 0 \<or> 3 \<le> completed_attempts \<or> now_ms < stream_start_ms \<or>
         10000 < now_ms - stream_start_ms then False
      else offsets_ms ! unat completed_attempts \<le> now_ms - stream_start_ms)"

datatype l4c_mft_event_kind = L4C_MFT_EVENT_INPUT | L4C_MFT_EVENT_OUTPUT

record l4c_mft_event_gate =
  input_tokens :: u8
  output_tokens :: u8

definition l4c_mft_event_gate_record ::
  "l4c_mft_event_gate \<Rightarrow> l4c_mft_event_kind \<Rightarrow> l4c_mft_event_gate" where
  "l4c_mft_event_gate_record gate event =
     (if event = L4C_MFT_EVENT_INPUT
      then gate\<lparr>input_tokens := (if input_tokens gate < 2 then input_tokens gate + 1
                                else input_tokens gate)\<rparr>
      else gate\<lparr>output_tokens := (if output_tokens gate < 2 then output_tokens gate + 1
                                 else output_tokens gate)\<rparr>)"

definition l4c_mft_event_gate_take_input :: "l4c_mft_event_gate \<Rightarrow> l4c_mft_event_gate \<times> bool" where
  "l4c_mft_event_gate_take_input gate =
     (if input_tokens gate = 0 then (gate, False)
      else (gate\<lparr>input_tokens := input_tokens gate - 1\<rparr>, True))"

definition l4c_mft_event_gate_take_output :: "l4c_mft_event_gate \<Rightarrow> l4c_mft_event_gate \<times> bool" where
  "l4c_mft_event_gate_take_output gate =
     (if output_tokens gate = 0 then (gate, False)
      else (gate\<lparr>output_tokens := output_tokens gate - 1\<rparr>, True))"

definition l4c_mft_deadline_expired :: "u64 \<Rightarrow> u64 \<Rightarrow> u32 \<Rightarrow> bool" where
  "l4c_mft_deadline_expired start_ms now_ms budget_ms \<longleftrightarrow> ucast budget_ms \<le> now_ms - start_ms"

section \<open>Properties of profiles\<close>

text \<open>the start profile follows the published matrix and is never better than requested.
  A low request resolves to 480p at 15 fps whatever the hardware; a default request resolves to 720p
  only on a current system with a hardware encoder (25 fps) or a verified software encoder
  (15 fps), and is reported as refused exactly when a current system has neither; 540p is never
  started; and input is allowed only for the low request at 480p.\<close>

theorem profile_resolution:
  assumes "l4c_profile_parse_request wire = Some request"
  shows "\<exists>r. l4c_profile_resolve request legacy mft oh264 = Inr r \<and>
      rs_actual_id r \<in> {L4C_PROFILE_480P, L4C_PROFILE_720P} \<and>
      (rs_actual_id r = L4C_PROFILE_720P \<longleftrightarrow> wire \<noteq> 1 \<and> \<not> legacy \<and> (mft \<or> oh264)) \<and>
      (rs_start_fps r = (if rs_actual_id r = L4C_PROFILE_720P \<and> mft then 25 else 15)) \<and>
      (refused_premium r \<longleftrightarrow> wire \<noteq> 1 \<and> \<not> legacy \<and> \<not> mft \<and> \<not> oh264) \<and>
      (l4c_profile_input_gate_allows request (rs_actual_id r) \<longleftrightarrow> wire = 1) \<and>
      (\<exists>p. l4c_profile_params (rs_actual_id r) = Some p \<and> rs_start_fps r \<le> fps_nominal p)"
proof -
  consider "wire = 1" "request = 1" | "wire = 2" "request = 3" | "wire = 3" "request = 3"
    using assms by (simp add: l4c_profile_parse_request_def split: if_splits)
  then show ?thesis
    by cases (cases legacy; cases mft; cases oh264; simp add: l4c_profile_resolve_def Let_def
        l4c_profile_params_def k_profiles_def l4c_profile_input_gate_allows_def)+
qed

theorem profile_resolution_witness:
  "l4c_profile_parse_request 2 = Some 3 \<and>
   (\<exists>r. l4c_profile_resolve 3 False False True = Inr r \<and> rs_actual_id r = 3 \<and> rs_start_fps r = 15)"
proof -
  have "l4c_profile_parse_request 2 = Some 3" by (simp add: l4c_profile_parse_request_def)
  then show ?thesis using profile_resolution [of 2 3 False False True] by auto
qed

section \<open>Properties of the raster\<close>

lemma unat_even: "unat (w AND NOT 1 :: u32) = unat w div 2 * 2"
proof -
  have "(1 :: u32) = mask 1" by (simp add: mask_eq_exp_minus_1)
  then show ?thesis using unat_high_bits [of w 1] by simp
qed

lemma prod64: "unat (ucast (a :: u32) * ucast (b :: u32) :: u64) = unat a * unat b"
proof -
  have "unat a * unat b < 2 ^ 32 * 2 ^ 32"
    using unat_lt [of a] unat_lt [of b] by (intro mult_strict_mono) auto
  then show ?thesis by (simp add: unat_word_ariths unat_ucast_widen)
qed

lemma narrow_back: "(ucast (ucast (a :: u32) :: u64) :: u32) = a"
  by (rule bit_word_eqI) (auto simp: bit_simps)

lemma quotient32:
  "unat a * unat b div unat c < 2 ^ 32 \<Longrightarrow>
     unat (ucast (ucast (a :: u32) * ucast (b :: u32) div ucast (c :: u32) :: u64) :: u32) =
     unat a * unat b div unat c"
  by (subst unat_ucast_narrow) (simp_all add: unat_div prod64 unat_ucast_widen)

text \<open>The same computation on natural numbers, before rounding to even values.\<close>

definition fit_nat :: "nat \<Rightarrow> nat \<Rightarrow> nat \<Rightarrow> nat \<Rightarrow> nat \<times> nat" where
  "fit_nat w h mw mh =
     (if mw < w \<or> mh < h then
        (if h * mw < w * mh then (mw, h * mw div w) else (w * mh div h, mh))
      else (w, h))"

lemma cross_less:
  fixes a b c d :: nat
  assumes "a * b < c * d" "d \<le> b"
  shows "a < c"
proof (rule ccontr)
  assume "\<not> a < c"
  then have "c * d \<le> a * b" using assms(2) by (intro mult_le_mono) simp_all
  then show False using assms(1) by simp
qed

text \<open>
  The raster fits both bounds and the source, and a dimension that is scaled is the exact
  proportion rounded down.
\<close>

lemma floor_share:
  fixes h mw w :: nat
  assumes "0 < w"
  shows "w * (h * mw div w) \<le> h * mw" "h * mw \<le> w * (h * mw div w) + w"
proof -
  have "h * mw = w * (h * mw div w) + h * mw mod w" by simp
  then show "w * (h * mw div w) \<le> h * mw" "h * mw \<le> w * (h * mw div w) + w"
    using mod_less_divisor [OF assms, of "h * mw"] by linarith+
qed

lemma fit_nat_bounds:
  assumes "0 < w" "0 < h" "fit_nat w h mw mh = (w', h')"
  shows "w' \<le> w" "w' \<le> mw" "h' \<le> h" "h' \<le> mh" "w * h' \<le> h * w' + h" "h * w' \<le> w * h' + w"
proof -
  consider "\<not> (mw < w \<or> mh < h)" "w' = w" "h' = h"
    | "mw < w \<or> mh < h" "h * mw < w * mh" "w' = mw" "h' = h * mw div w"
    | "mw < w \<or> mh < h" "w * mh \<le> h * mw" "w' = w * mh div h" "h' = mh"
    using assms(3) unfolding fit_nat_def by (metis not_less prod.inject)
  then have "w' \<le> w \<and> w' \<le> mw \<and> h' \<le> h \<and> h' \<le> mh \<and> w * h' \<le> h * w' + h \<and> h * w' \<le> w * h' + w"
  proof cases
    case 1
    then show ?thesis by (simp add: mult.commute)
  next
    case 2
    have mw: "mw < w" using 2(1,2) cross_less [of mw h w mh] by (auto simp: mult.commute)
    have "h * mw div w \<le> h * w div w" using mw by (intro div_le_mono mult_le_mono) simp_all
    moreover have "h * mw div w \<le> mh * w div w" using 2(2) by (intro div_le_mono) (simp add: mult.commute)
    ultimately show ?thesis using mw assms(1) floor_share [OF assms(1), of h mw] 2(3,4) by (simp add: trans_le_add1)
  next
    case 3
    have mh: "mh < h"
    proof (rule ccontr)
      assume "\<not> mh < h"
      then have "mw < w" "h \<le> mh" using 3(1) by auto
      then have "h * mw < mh * w" using assms(2) by (meson mult_le_mono1 mult_less_mono2 order_less_le_trans)
      then show False using 3(2) by (simp add: mult.commute)
    qed
    have "w * mh div h \<le> w * h div h" using mh by (intro div_le_mono mult_le_mono) simp_all
    moreover have "w * mh div h \<le> mw * h div h" using 3(2) by (intro div_le_mono) (simp add: mult.commute)
    ultimately show ?thesis using mh assms(2) floor_share [OF assms(2), of w mh] 3(3,4) by (simp add: trans_le_add1)
  qed
  then show "w' \<le> w" "w' \<le> mw" "h' \<le> h" "h' \<le> mh" "w * h' \<le> h * w' + h" "h * w' \<le> w * h' + w"
    by simp_all
qed

lemma fit_raster_nat:
  fixes w h mw mh :: u32
  assumes "w \<noteq> 0" "h \<noteq> 0" "mw \<noteq> 0" "mh \<noteq> 0"
    "fit_nat (unat w) (unat h) (unat mw) (unat mh) = (w', h')"
  shows "l4c_quality_fit_raster w h mw mh = (wr, hr) \<Longrightarrow> unat wr = w' div 2 * 2 \<and> unat hr = h' div 2 * 2"
proof -
  have b: "h' < 2 ^ 32" "w' < 2 ^ 32"
    using fit_nat_bounds(2,4) [OF _ _ assms(5)] assms(1,2) unat_lt [of mw] unat_lt [of mh]
    by (auto simp: unat_gt_0)
  assume "l4c_quality_fit_raster w h mw mh = (wr, hr)"
  then show ?thesis
    using b assms
    by (auto simp: l4c_quality_fit_raster_def Let_def fit_nat_def word_less_nat_alt prod64
        unat_even [simplified] quotient32 narrow_back split: if_splits)
qed

text \<open>the encoder raster. For a source and bounds that are not empty, both sides of the raster
  are even, exceed neither the source (no upscaling) nor the bounds, and keep the aspect ratio of
  the source: each side is within two pixels of its exact proportion to the other.\<close>

theorem raster_fits:
  fixes w h mw mh :: u32
  assumes "w \<noteq> 0" "h \<noteq> 0" "mw \<noteq> 0" "mh \<noteq> 0" "l4c_quality_fit_raster w h mw mh = (w', h')"
  shows "even (unat w') \<and> even (unat h') \<and> w' \<le> w \<and> w' \<le> mw \<and> h' \<le> h \<and> h' \<le> mh \<and>
    unat w * unat h' \<le> unat h * (unat w' + 2) \<and> unat h * unat w' \<le> unat w * (unat h' + 2)"
proof -
  obtain x y where f: "fit_nat (unat w) (unat h) (unat mw) (unat mh) = (x, y)" by fastforce
  have r: "unat w' = x div 2 * 2" "unat h' = y div 2 * 2"
    using fit_raster_nat [OF assms(1-4) f assms(5)] by auto
  have pos: "0 < unat w" "0 < unat h" using assms(1,2) by (simp_all add: unat_gt_0)
  note b = fit_nat_bounds [OF pos f]
  have x: "unat w' \<le> x" "x \<le> unat w' + 1" and y: "unat h' \<le> y" "y \<le> unat h' + 1"
    unfolding r by presburger+
  have "unat w * unat h' \<le> unat w * y" using y by simp
  also have "\<dots> \<le> unat h * x + unat h" by (rule b(5))
  also have "\<dots> \<le> unat h * (unat w' + 1) + unat h"
    using mult_le_mono2 [OF x(2)] by (rule add_le_mono1)
  finally have 1: "unat w * unat h' \<le> unat h * (unat w' + 2)" by (simp add: algebra_simps)
  have "unat h * unat w' \<le> unat h * x" using x by simp
  also have "\<dots> \<le> unat w * y + unat w" by (rule b(6))
  also have "\<dots> \<le> unat w * (unat h' + 1) + unat w"
    using mult_le_mono2 [OF y(2)] by (rule add_le_mono1)
  finally have 2: "unat h * unat w' \<le> unat w * (unat h' + 2)" by (simp add: algebra_simps)
  have "even (unat w')" "even (unat h')" unfolding r by simp_all
  then show ?thesis
    using 1 2 b(1-4) x(1) y(1) by (simp add: word_le_nat_alt)
qed

theorem raster_fits_witness:
  "l4c_quality_fit_raster 1920 1080 1280 960 = (1280, 720) \<and>
   even (unat (1280 :: u32)) \<and> (1280 :: u32) \<le> 1920 \<and> (720 :: u32) \<le> 960"
proof -
  have "l4c_quality_fit_raster 1920 1080 1280 960 = (1280, 720)"
    by (simp add: l4c_quality_fit_raster_def)
  then show ?thesis using raster_fits [of 1920 1080 1280 960 1280 720] by simp
qed

lemma rate_for_raster_lowers:
  "case l4c_profile_rate_for_raster request w h t m of (t', m') \<Rightarrow> t' \<le> t \<and> m' \<le> m"
  by (auto simp: l4c_profile_rate_for_raster_def Let_def not_less)

section \<open>Properties of the encoder tokens\<close>

text \<open>Runs of the token gate that count the input events seen and the inputs taken.\<close>

datatype mft_op = MftRecord l4c_mft_event_kind | MftTakeInput | MftTakeOutput

fun mft_exec :: "l4c_mft_event_gate \<times> nat \<times> nat \<Rightarrow> mft_op \<Rightarrow> l4c_mft_event_gate \<times> nat \<times> nat" where
  "mft_exec (g, seen, used) (MftRecord k) =
     (l4c_mft_event_gate_record g k, if k = L4C_MFT_EVENT_INPUT then seen + 1 else seen, used)"
| "mft_exec (g, seen, used) MftTakeInput =
     (case l4c_mft_event_gate_take_input g of (g', ok) \<Rightarrow> (g', seen, if ok then used + 1 else used))"
| "mft_exec (g, seen, used) MftTakeOutput = (fst (l4c_mft_event_gate_take_output g), seen, used)"

definition mft_inv :: "l4c_mft_event_gate \<times> nat \<times> nat \<Rightarrow> bool" where
  "mft_inv s \<longleftrightarrow> (case s of (g, seen, used) \<Rightarrow> unat (input_tokens g) \<le> 2 \<and>
     unat (output_tokens g) \<le> 2 \<and> used + unat (input_tokens g) \<le> seen)"

lemma token_inc: "t < (2 :: u8) \<Longrightarrow> unat (t + 1) = unat t + 1"
  by (simp add: word_less_nat_alt unat_word_ariths)

lemma token_dec: "t \<noteq> (0 :: u8) \<Longrightarrow> unat t = Suc (unat (t - 1))"
  by (metis Suc_pred' unat_gt_0 unat_minus_one)

interpretation mft_runs: step_invariant mft_exec mft_inv
proof
  fix s e assume inv: "mft_inv s"
  obtain g seen tk where s: "s = (g, seen, tk)" by (cases s)
  show "mft_inv (mft_exec s e)"
    using inv token_inc token_dec [of "input_tokens g"] token_dec [of "output_tokens g"]
    by (cases e) (auto simp: s mft_inv_def l4c_mft_event_gate_record_def word_less_nat_alt
        l4c_mft_event_gate_take_input_def l4c_mft_event_gate_take_output_def)
qed

text \<open>the asynchronous encoder is never fed an input it did not ask for. In any run of the
  token gate, the inputs taken never outnumber the input events recorded, and at most two tokens
  of each kind are ever held, whatever burst of events arrives.\<close>

theorem mft_tokens_bounded:
  "case foldl mft_exec (\<lparr>input_tokens = 0, output_tokens = 0\<rparr>, 0, 0) es of (g, seen, used) \<Rightarrow>
     unat (input_tokens g) \<le> 2 \<and> unat (output_tokens g) \<le> 2 \<and> used + unat (input_tokens g) \<le> seen"
  using mft_runs.inv_run [of "(\<lparr>input_tokens = 0, output_tokens = 0\<rparr>, 0, 0)" es]
  by (simp add: mft_inv_def)

end
