(* ===== verification/Degrade_Controller.thy ===== *)
theory Degrade_Controller
  imports Video_Profile "HOL-Library.Multiset"
begin

text \<open>
  Overload handling of the capture host: the measuring windows of
  \<open>tools/l4capture/src/pipeline/telemetry.c\<close> and the degradation ladder of
  \<open>tools/l4capture/src/pipeline/degrade_controller.c\<close>. The lemmas show that the percentile is the
  order statistic it claims to be, that the ladder takes each step at most once, in order and with
  a pause in between, that the frame rate never rises in a session, and when the session is
  stopped for overload.
\<close>

section \<open>The 95th percentile\<close>

text \<open>The inner loop of the insertion sort, with \<open>j\<close> running down to the place of \<open>key\<close>.\<close>

fun shift_in :: "u32 list \<Rightarrow> u32 \<Rightarrow> nat \<Rightarrow> u32 list" where
  "shift_in a key 0 = a[0 := key]"
| "shift_in a key (Suc j) =
     (if key < a ! j then shift_in (a[Suc j := a ! j]) key j else a[Suc j := key])"

definition insertion_sort :: "u32 list \<Rightarrow> u32 list" where
  "insertion_sort a = foldl (\<lambda>a i. shift_in a (a ! i) i) a [1..<length a]"

abbreviation L4C_DEGRADE_MAX_P95_SAMPLES :: nat where "L4C_DEGRADE_MAX_P95_SAMPLES \<equiv> 256"

definition l4c_degrade_p95_from_samples :: "u32 list \<Rightarrow> u32 option" where
  "l4c_degrade_p95_from_samples samples_ms =
     (let n = length samples_ms in
      if n = 0 \<or> L4C_DEGRADE_MAX_P95_SAMPLES < n then None
      else
        let rank = (n * 95 + 99) div 100;
            rank = (if rank = 0 then 1 else rank);
            rank = (if n < rank then n else rank)
        in Some (insertion_sort samples_ms ! (rank - 1)))"

section \<open>Telemetry windows\<close>

text \<open>The array \<open>samples\<close> is represented by its first \<open>count\<close> elements.\<close>

abbreviation L4C_TELEMETRY_P95_MAX :: nat where "L4C_TELEMETRY_P95_MAX \<equiv> 256"

type_synonym l4c_p95_window = "u32 list"

definition l4c_p95_window_reset :: "l4c_p95_window \<Rightarrow> l4c_p95_window" where
  "l4c_p95_window_reset w = []"

definition l4c_p95_window_push :: "l4c_p95_window \<Rightarrow> u32 \<Rightarrow> l4c_p95_window \<times> bool" where
  "l4c_p95_window_push w sample_ms =
     (if L4C_TELEMETRY_P95_MAX \<le> length w then (w, False) else (w @ [sample_ms], True))"

definition l4c_p95_window_eval :: "l4c_p95_window \<Rightarrow> u16 option" where
  "l4c_p95_window_eval w =
     (if w = [] then None
      else case l4c_degrade_p95_from_samples w of
          None \<Rightarrow> None
        | Some p95 \<Rightarrow> Some (if 65535 < p95 then 65535 else ucast p95))"

record l4c_rate_window =
  start_ms :: u64
  au_count :: u32
  au_bytes :: u32

definition l4c_rate_window_reset :: "l4c_rate_window \<Rightarrow> u64 \<Rightarrow> l4c_rate_window" where
  "l4c_rate_window_reset w now_ms = w\<lparr>start_ms := now_ms, au_count := 0, au_bytes := 0\<rparr>"

definition l4c_rate_window_add_au :: "l4c_rate_window \<Rightarrow> u32 \<Rightarrow> l4c_rate_window" where
  "l4c_rate_window_add_au w n =
     (let w = (if au_count w < 4294967295 then w\<lparr>au_count := au_count w + 1\<rparr> else w) in
      if au_bytes w \<le> 4294967295 - n then w\<lparr>au_bytes := au_bytes w + n\<rparr> else w)"

text \<open>Result: the frame rate and the bit rate of a window that is over.\<close>

definition l4c_rate_window_eval :: "l4c_rate_window \<Rightarrow> u64 \<Rightarrow> u32 \<Rightarrow> (u16 \<times> u32) option" where
  "l4c_rate_window_eval w now_ms window_ms =
     (if window_ms = 0 then None
      else if start_ms w = 0 \<or> now_ms < start_ms w then None
      else if now_ms - start_ms w < ucast window_ms then None
      else
        let rate = ucast (au_count w) * 1000 div ucast window_ms :: u64;
            bits = ucast (au_bytes w) * 8 div ucast window_ms :: u64
        in Some (if 65535 < rate then 65535 else ucast rate,
                 if 4294967295 < bits then 4294967295 else ucast bits))"

section \<open>The controller\<close>

abbreviation L4C_DEGRADE_WINDOW_MS :: u64 where "L4C_DEGRADE_WINDOW_MS \<equiv> 3000"
abbreviation L4C_DEGRADE_HOLD_OFF_MS :: u64 where "L4C_DEGRADE_HOLD_OFF_MS \<equiv> 6000"
abbreviation L4C_DEGRADE_FLOOR_BAD_WINDOWS :: u8 where "L4C_DEGRADE_FLOOR_BAD_WINDOWS \<equiv> 5"
abbreviation L4C_DEGRADE_P95_MIN_SAMPLES :: u32 where "L4C_DEGRADE_P95_MIN_SAMPLES \<equiv> 20"
abbreviation L4C_NOMINAL :: u16 where "L4C_NOMINAL \<equiv> 0"

datatype l4c_degrade_action =
    L4C_DEG_ACT_NONE | L4C_DEG_ACT_D0_DROP_LATE_RAW | L4C_DEG_ACT_D1_FPS_THROTTLE
  | L4C_DEG_ACT_D2_RASTER_540P | L4C_DEG_ACT_D3_RASTER_480P | L4C_DEG_ACT_STOP_HIGH_LOAD

record l4c_drop_class =
  passed :: u32
  dropped :: u32

record l4c_degrade_window =
  raw_class :: l4c_drop_class
  encoder_class :: l4c_drop_class
  transport_class :: l4c_drop_class
  has_processing :: bool
  processing_p95_ms :: u32
  processing_samples :: u32

record l4c_degrade_controller =
  actual_id :: u16
  current_fps :: u8
  start_fps :: u8
  degrade_state :: u16
  start_actual_id :: u16
  d0_done :: bool
  d1_done :: bool
  d2_done :: bool
  d3_done :: bool
  config_generation :: u32
  window_start_ms :: u64
  window_open :: bool
  consecutive_bad :: u8
  floor_counting :: bool
  floor_bad_streak :: u8
  holdoff_until_ms :: u64
  holdoff_active :: bool
  bitrate_cut_done :: bool
  bitrate_holdoff_until_ms :: u64
  bitrate_holdoff_active :: bool

definition reset_window_history :: "l4c_degrade_controller \<Rightarrow> u64 \<Rightarrow> l4c_degrade_controller" where
  "reset_window_history ctl now_ms =
     ctl\<lparr>window_start_ms := now_ms, window_open := True, consecutive_bad := 0\<rparr>"

definition start_holdoff :: "l4c_degrade_controller \<Rightarrow> u64 \<Rightarrow> l4c_degrade_controller" where
  "start_holdoff ctl now_ms =
     ctl\<lparr>holdoff_active := True, holdoff_until_ms := now_ms + L4C_DEGRADE_HOLD_OFF_MS\<rparr>"

definition holdoff_blocks :: "l4c_degrade_controller \<Rightarrow> u64 \<Rightarrow> bool" where
  "holdoff_blocks ctl now_ms \<longleftrightarrow> holdoff_active ctl \<and> now_ms < holdoff_until_ms ctl"

definition l4c_degrade_class_over_threshold :: "l4c_drop_class \<Rightarrow> bool" where
  "l4c_degrade_class_over_threshold c =
     (if passed c = 0 \<and> dropped c = 0 then False
      else
        let sum = ucast (passed c) + ucast (dropped c) :: u64 in
        if sum = 0 then False else sum < ucast (dropped c) * 5)"

definition window_is_nodata :: "l4c_degrade_window \<Rightarrow> bool" where
  "window_is_nodata wm \<longleftrightarrow>
     passed (raw_class wm) = 0 \<and> dropped (raw_class wm) = 0 \<and>
     passed (encoder_class wm) = 0 \<and> dropped (encoder_class wm) = 0 \<and>
     passed (transport_class wm) = 0 \<and> dropped (transport_class wm) = 0 \<and>
     \<not> (has_processing wm \<and> 0 < processing_samples wm)"

definition window_is_bad :: "l4c_degrade_window \<Rightarrow> u8 \<Rightarrow> bool" where
  "window_is_bad wm rate =
     (if l4c_degrade_class_over_threshold (raw_class wm) \<or>
         l4c_degrade_class_over_threshold (encoder_class wm) \<or>
         l4c_degrade_class_over_threshold (transport_class wm) then True
      else if has_processing wm \<and> L4C_DEGRADE_P95_MIN_SAMPLES \<le> processing_samples wm \<and> 0 < rate
      then (1000 :: u64) < ucast (processing_p95_ms wm) * ucast rate
      else False)"

record l4c_bitrate_cut_input =
  has_full_10s_window :: bool
  measured_exceeds_max :: bool
  delivery_constraint_confirmed :: bool
  current_target_kbps :: u16
  min_kbps :: u16

definition l4c_degrade_should_cut_bitrate :: "l4c_bitrate_cut_input \<Rightarrow> bool" where
  "l4c_degrade_should_cut_bitrate inp =
     (if current_target_kbps inp \<le> min_kbps inp then False
      else if delivery_constraint_confirmed inp then True
      else if has_full_10s_window inp \<and> measured_exceeds_max inp then True
      else False)"

definition l4c_degrade_init :: "u16 \<Rightarrow> u8 \<Rightarrow> u64 \<Rightarrow> l4c_status + l4c_degrade_controller" where
  "l4c_degrade_init ident rate now_ms =
     (if rate = 0 then Inl L4C_ERR_INVALID_ARG
      else case l4c_profile_params ident of
          None \<Rightarrow> Inl L4C_ERR_INVALID_ARG
        | Some _ \<Rightarrow>
            if ident = L4C_PROFILE_540P then Inl L4C_ERR_INVALID_ARG
            else
              let ctl = \<lparr>actual_id = ident, current_fps = rate, start_fps = rate,
                    degrade_state = L4C_NOMINAL, start_actual_id = ident, d0_done = False,
                    d1_done = (rate \<le> 10), d2_done = False, d3_done = False,
                    config_generation = 1, window_start_ms = 0, window_open = False,
                    consecutive_bad = 0, floor_counting = False, floor_bad_streak = 0,
                    holdoff_until_ms = 0, holdoff_active = False, bitrate_cut_done = False,
                    bitrate_holdoff_until_ms = 0, bitrate_holdoff_active = False\<rparr>;
                  ctl = (if ident \<noteq> L4C_PROFILE_720P then ctl\<lparr>d2_done := True, d3_done := True\<rparr>
                         else ctl);
                  ctl = (if ident = L4C_PROFILE_480P
                         then ctl\<lparr>floor_counting := True, floor_bad_streak := 0\<rparr> else ctl)
              in Inr (reset_window_history ctl now_ms))"

definition l4c_degrade_notify_applied ::
  "l4c_degrade_controller \<Rightarrow> u16 \<Rightarrow> u8 \<Rightarrow> u16 \<Rightarrow> u32 \<Rightarrow> u64 \<Rightarrow> l4c_degrade_controller" where
  "l4c_degrade_notify_applied ctl new_actual_id new_fps new_state new_config_generation now_ms =
     (let new_fps = (if current_fps ctl < new_fps then current_fps ctl else new_fps);
          ctl = ctl\<lparr>actual_id := new_actual_id, current_fps := new_fps, degrade_state := new_state,
                    config_generation := new_config_generation\<rparr>;
          ctl = (if new_fps \<le> 10 then ctl\<lparr>d1_done := True\<rparr> else ctl);
          ctl = (if new_actual_id = L4C_PROFILE_480P \<and> \<not> floor_counting ctl
                 then ctl\<lparr>floor_counting := True, floor_bad_streak := 0\<rparr> else ctl);
          ctl = ctl\<lparr>consecutive_bad := 0\<rparr>
      in reset_window_history ctl now_ms)"

definition choose_ladder_step ::
  "l4c_degrade_controller \<Rightarrow> l4c_degrade_controller \<times> l4c_degrade_action" where
  "choose_ladder_step ctl =
     (if \<not> d0_done ctl then (ctl, L4C_DEG_ACT_D0_DROP_LATE_RAW)
      else if \<not> d1_done ctl \<and> (10 < current_fps ctl \<or> 10 < start_fps ctl)
      then (ctl, L4C_DEG_ACT_D1_FPS_THROTTLE)
      else
        let ctl = (if \<not> d1_done ctl then ctl\<lparr>d1_done := True\<rparr> else ctl) in
        if \<not> d2_done ctl \<and> actual_id ctl = L4C_PROFILE_720P
        then (ctl, L4C_DEG_ACT_D2_RASTER_540P)
        else
          let ctl = (if \<not> d2_done ctl then ctl\<lparr>d2_done := True\<rparr> else ctl) in
          if \<not> d3_done ctl \<and> actual_id ctl = L4C_PROFILE_540P
          then (ctl, L4C_DEG_ACT_D3_RASTER_480P)
          else
            let ctl = (if \<not> d3_done ctl then ctl\<lparr>d3_done := True\<rparr> else ctl) in
            (ctl, L4C_DEG_ACT_NONE))"

definition mark_action_taken ::
  "l4c_degrade_controller \<Rightarrow> l4c_degrade_action \<Rightarrow> u64 \<Rightarrow> l4c_degrade_controller" where
  "mark_action_taken ctl act end_ms =
     (let ctl = (case act of
          L4C_DEG_ACT_D0_DROP_LATE_RAW \<Rightarrow>
            let ctl = ctl\<lparr>d0_done := True, floor_bad_streak := 0\<rparr> in
            if actual_id ctl = L4C_PROFILE_480P then ctl\<lparr>floor_counting := True\<rparr> else ctl
        | L4C_DEG_ACT_D1_FPS_THROTTLE \<Rightarrow> ctl\<lparr>d1_done := True\<rparr>
        | L4C_DEG_ACT_D2_RASTER_540P \<Rightarrow> ctl\<lparr>d2_done := True\<rparr>
        | L4C_DEG_ACT_D3_RASTER_480P \<Rightarrow>
            ctl\<lparr>d3_done := True, floor_counting := True, floor_bad_streak := 0\<rparr>
        | _ \<Rightarrow> ctl)
      in start_holdoff (reset_window_history ctl end_ms) end_ms)"

text \<open>The counters after a window with data.\<close>

definition count_window :: "l4c_degrade_controller \<Rightarrow> bool \<Rightarrow> l4c_degrade_controller" where
  "count_window ctl bad =
     (if bad then
        let ctl = (if consecutive_bad ctl < 255
                   then ctl\<lparr>consecutive_bad := consecutive_bad ctl + 1\<rparr> else ctl) in
        if floor_counting ctl \<and> floor_bad_streak ctl < 255
        then ctl\<lparr>floor_bad_streak := floor_bad_streak ctl + 1\<rparr> else ctl
      else ctl\<lparr>consecutive_bad := 0, floor_bad_streak := 0\<rparr>)"

definition open_window :: "l4c_degrade_controller \<Rightarrow> u64 \<Rightarrow> l4c_degrade_controller" where
  "open_window ctl window_end_ms =
     (if \<not> window_open ctl then
        (if L4C_DEGRADE_WINDOW_MS \<le> window_end_ms
         then reset_window_history ctl (window_end_ms - L4C_DEGRADE_WINDOW_MS)
         else reset_window_history ctl 0)
      else ctl)"

definition l4c_degrade_on_window ::
  "l4c_degrade_controller \<Rightarrow> u64 \<Rightarrow> l4c_degrade_window \<Rightarrow>
     l4c_degrade_controller \<times> l4c_degrade_action" where
  "l4c_degrade_on_window ctl window_end_ms wm =
     (let ctl = open_window ctl window_end_ms in
      if window_end_ms < window_start_ms ctl then (ctl, L4C_DEG_ACT_NONE)
      else if window_end_ms - window_start_ms ctl \<noteq> L4C_DEGRADE_WINDOW_MS
      then (ctl, L4C_DEG_ACT_NONE)
      else if window_is_nodata wm then
        (reset_window_history (ctl\<lparr>consecutive_bad := 0, floor_bad_streak := 0\<rparr>) window_end_ms,
         L4C_DEG_ACT_NONE)
      else
        let ctl = count_window ctl (window_is_bad wm (current_fps ctl)) in
        if floor_counting ctl \<and> (d0_done ctl \<or> d3_done ctl) \<and>
           L4C_DEGRADE_FLOOR_BAD_WINDOWS \<le> floor_bad_streak ctl
        then (reset_window_history ctl window_end_ms, L4C_DEG_ACT_STOP_HIGH_LOAD)
        else
          let (ctl, act) =
                (if 2 \<le> consecutive_bad ctl \<and> \<not> holdoff_blocks ctl window_end_ms
                 then choose_ladder_step ctl else (ctl, L4C_DEG_ACT_NONE)) in
          if act \<noteq> L4C_DEG_ACT_NONE then (mark_action_taken ctl act window_end_ms, act)
          else (ctl\<lparr>window_start_ms := window_end_ms\<rparr>, L4C_DEG_ACT_NONE))"

section \<open>The percentile is an order statistic\<close>

lemma shift_in_insert:
  "j < length a \<Longrightarrow> sorted (take j a) \<Longrightarrow>
     \<exists>l. shift_in a key j = l @ drop (Suc j) a \<and> sorted l \<and> mset l = add_mset key (mset (take j a))"
proof (induction a key j rule: shift_in.induct)
  case (1 a key)
  then have "a[0 := key] = [key] @ drop (Suc 0) a" by (cases a) auto
  then show ?case by auto
next
  case (2 a key j)
  have tk: "take (Suc j) a = take j a @ [a ! j]" using 2(2) by (simp add: take_Suc_conv_app_nth)
  then have srt: "sorted (take j a)" "\<forall>x\<in>set (take j a). x \<le> a ! j"
    using 2(3) by (simp_all add: sorted_append)
  show ?case
  proof (cases "key < a ! j")
    case True
    let ?a = "a[Suc j := a ! j]"
    obtain l where l: "shift_in ?a key j = l @ drop (Suc j) ?a" "sorted l"
      "mset l = add_mset key (mset (take j a))"
      using 2(1) [OF True] 2(2) srt(1) by auto
    have "set l = insert key (set (take j a))" using l(3) by (metis set_mset_add_mset_insert set_mset_mset)
    then have "sorted (l @ [a ! j])" using l(2) srt(2) True by (auto simp: sorted_append)
    moreover have "drop (Suc j) ?a = a ! j # drop (Suc (Suc j)) a"
      using 2(2) by (simp add: Cons_nth_drop_Suc [symmetric] drop_update_cancel)
    ultimately show ?thesis
      using True l by (intro exI [of _ "l @ [a ! j]"]) (simp add: tk)
  next
    case False
    have "a[Suc j := key] = take (Suc j) a @ [key] @ drop (Suc (Suc j)) a"
      using 2(2) by (simp add: upd_conv_take_nth_drop)
    moreover have "sorted (take (Suc j) a @ [key])"
      using 2(3) srt(2) False tk by (auto simp: sorted_append)
    ultimately show ?thesis
      using False by (intro exI [of _ "take (Suc j) a @ [key]"]) simp
  qed
qed

lemma insertion_sort_sorts: "insertion_sort a = sort a"
proof -
  define run where "run = (\<lambda>n. foldl (\<lambda>a i. shift_in a (a ! i) i) a [1..<n])"
  have "sorted (take n (run n)) \<and> mset (run n) = mset a \<and> length (run n) = length a"
    if "n \<le> length a" for n
    using that
  proof (induction n)
    case 0
    then show ?case by (simp add: run_def)
  next
    case (Suc n)
    show ?case
    proof (cases "n = 0")
      case True
      then show ?thesis using Suc.prems by (simp add: run_def sorted01)
    next
      case False
      have IH: "sorted (take n (run n))" "mset (run n) = mset a" "length (run n) = length a"
        using Suc by auto
      have step: "run (Suc n) = shift_in (run n) (run n ! n) n" using False by (simp add: run_def)
      obtain l where l: "run (Suc n) = l @ drop (Suc n) (run n)" "sorted l"
        "mset l = add_mset (run n ! n) (mset (take n (run n)))"
        using shift_in_insert [of n "run n" "run n ! n"] IH Suc.prems step by auto
      have len: "length l = Suc n" using l(3) IH(3) Suc.prems by (metis Suc_le_lessD length_take less_or_eq_imp_le min.absorb2 size_add_mset size_mset)
      have "mset l = mset (take (Suc n) (run n))"
        using l(3) IH(3) Suc.prems by (simp add: take_Suc_conv_app_nth)
      then have "mset (run (Suc n)) = mset (run n)"
        using l(1) by (metis append_take_drop_id mset_append)
      then show ?thesis
        using l len IH by (metis append_eq_conv_conj mset_eq_length)
    qed
  qed
  from this [of "length a"] have "sorted (run (length a))" "mset (run (length a)) = mset a" by auto
  then have "run (length a) = sort a" by (metis properties_for_sort)
  then show ?thesis by (simp add: insertion_sort_def run_def)
qed

text \<open>In a sorted list the elements up to an index do not exceed the one there.\<close>

lemma sorted_rank:
  fixes xs :: "'a::linorder list"
  assumes "sorted xs" "k < length xs"
  shows "k + 1 \<le> length (filter (\<lambda>x. x \<le> xs ! k) xs)" "length (filter (\<lambda>x. x < xs ! k) xs) \<le> k"
proof -
  have split: "length (filter P xs) = length (filter P (take n xs)) + length (filter P (drop n xs))" for P n
    by (metis append_take_drop_id filter_append length_append)
  have "filter (\<lambda>x. x \<le> xs ! k) (take (Suc k) xs) = take (Suc k) xs"
    using assms by (auto simp: filter_id_conv in_set_conv_nth sorted_iff_nth_mono)
  then have "length (filter (\<lambda>x. x \<le> xs ! k) (take (Suc k) xs)) = Suc k"
    using assms(2) by simp
  then show "k + 1 \<le> length (filter (\<lambda>x. x \<le> xs ! k) xs)"
    using split [of "\<lambda>x. x \<le> xs ! k" "Suc k"] by linarith
  have "filter (\<lambda>x. x < xs ! k) (drop k xs) = []"
    using assms by (auto simp: filter_empty_conv in_set_conv_nth sorted_iff_nth_mono not_less)
  then have "length (filter (\<lambda>x. x < xs ! k) (drop k xs)) = 0" by simp
  moreover have "length (filter (\<lambda>x. x < xs ! k) (take k xs)) \<le> k"
    using length_filter_le [of "\<lambda>x. x < xs ! k" "take k xs"] by simp
  ultimately show "length (filter (\<lambda>x. x < xs ! k) xs) \<le> k"
    using split [of "\<lambda>x. x < xs ! k" k] by linarith
qed

lemma filter_sort_length: "length (filter P (sort xs)) = length (filter P xs)"
  by (metis mset_filter mset_sort size_mset)

text \<open>the encode-time percentile is the 95th percentile. For 1 to 256 samples the result is a
  sample such that at least 95% of the samples are at most it, while fewer than 95% lie strictly
  below it; it is the element of rank \<open>ceil (0.95 n)\<close> of the sorted samples. No result is given for
  an empty or oversized set.\<close>

theorem p95_order_statistic:
  "(l4c_degrade_p95_from_samples xs = None \<longleftrightarrow> xs = [] \<or> 256 < length xs) \<and>
   (\<forall>p. l4c_degrade_p95_from_samples xs = Some p \<longrightarrow>
      p = sort xs ! ((95 * length xs + 99) div 100 - 1) \<and> p \<in> set xs \<and>
      95 * length xs \<le> 100 * length (filter (\<lambda>x. x \<le> p) xs) \<and>
      100 * length (filter (\<lambda>x. x < p) xs) < 95 * length xs)"
proof (cases "xs = [] \<or> 256 < length xs")
  case True
  then show ?thesis by (auto simp: l4c_degrade_p95_from_samples_def)
next
  case False
  let ?n = "length xs" and ?r = "(length xs * 95 + 99) div 100"
  have n: "0 < ?n" using False by simp
  have "?n * 95 + 99 = 100 * ?r + (?n * 95 + 99) mod 100" "(?n * 95 + 99) mod 100 < 100" by simp_all
  then have r: "1 \<le> ?r" "?r \<le> ?n" "95 * ?n \<le> 100 * ?r" "100 * ?r \<le> 95 * ?n + 99"
    using n by linarith+
  have p: "l4c_degrade_p95_from_samples xs = Some (sort xs ! (?r - 1))"
    using False r(1,2) n by (auto simp: l4c_degrade_p95_from_samples_def insertion_sort_sorts Let_def)
  have k: "?r - 1 < length (sort xs)" using r(1,2) by simp
  note rank = sorted_rank [OF sorted_sort k, unfolded filter_sort_length]
  have "sort xs ! (?r - 1) \<in> set xs" using k by (metis nth_mem set_sort)
  moreover have "95 * ?n \<le> 100 * length (filter (\<lambda>x. x \<le> sort xs ! (?r - 1)) xs)"
    using rank(1) r by linarith
  moreover have "100 * length (filter (\<lambda>x. x < sort xs ! (?r - 1)) xs) < 95 * ?n"
    using rank(2) r by linarith
  ultimately show ?thesis
    using p False by (simp add: mult.commute)
qed

theorem p95_order_statistic_witness:
  "l4c_degrade_p95_from_samples [40, 12, 25] = Some 40 \<and> (40 :: u32) \<in> set [40, 12, 25]"
proof -
  have "l4c_degrade_p95_from_samples [40, 12, 25] = Some 40"
    by code_simp
  then show ?thesis using p95_order_statistic [of "[40, 12, 25]"] by blast
qed

section \<open>Runs of the controller\<close>

text \<open>The log holds the actions other than \<open>NONE\<close> with their times, latest first.\<close>

datatype deg_event = Window u64 l4c_degrade_window | Applied u16 u8 u16 u32 u64

fun deg_exec ::
  "l4c_degrade_controller \<times> (l4c_degrade_action \<times> u64) list \<Rightarrow> deg_event \<Rightarrow>
   l4c_degrade_controller \<times> (l4c_degrade_action \<times> u64) list" where
  "deg_exec (ctl, log) (Window t wm) =
     (case l4c_degrade_on_window ctl t wm of (ctl', act) \<Rightarrow>
        (ctl', if act = L4C_DEG_ACT_NONE then log else (act, t) # log))"
| "deg_exec (ctl, log) (Applied i r st g now) = (l4c_degrade_notify_applied ctl i r st g now, log)"

fun rank :: "l4c_degrade_action \<Rightarrow> nat" where
  "rank L4C_DEG_ACT_D0_DROP_LATE_RAW = 0"
| "rank L4C_DEG_ACT_D1_FPS_THROTTLE = 1"
| "rank L4C_DEG_ACT_D2_RASTER_540P = 2"
| "rank L4C_DEG_ACT_D3_RASTER_480P = 3"
| "rank _ = 4"

definition done_upto :: "l4c_degrade_controller \<Rightarrow> nat \<Rightarrow> bool" where
  "done_upto c k \<longleftrightarrow> d0_done c \<and> (1 \<le> k \<longrightarrow> d1_done c) \<and> (2 \<le> k \<longrightarrow> d2_done c) \<and> (3 \<le> k \<longrightarrow> d3_done c)"

definition not_done :: "l4c_degrade_controller \<Rightarrow> nat \<Rightarrow> bool" where
  "not_done c k \<longleftrightarrow> (k = 0 \<and> \<not> d0_done c) \<or> (k = 1 \<and> \<not> d1_done c) \<or> (k = 2 \<and> \<not> d2_done c) \<or>
     (k = 3 \<and> \<not> d3_done c)"

lemma done_upto_less: "done_upto c k \<Longrightarrow> not_done c j \<Longrightarrow> k < j"
  by (auto simp: done_upto_def not_done_def)

text \<open>What a window does to the ladder: either a step is taken, or the step flags only grow.\<close>

definition flags_grow :: "l4c_degrade_controller \<Rightarrow> l4c_degrade_controller \<Rightarrow> bool" where
  "flags_grow c c' \<longleftrightarrow> (d0_done c \<longrightarrow> d0_done c') \<and> (d1_done c \<longrightarrow> d1_done c') \<and>
     (d2_done c \<longrightarrow> d2_done c') \<and> (d3_done c \<longrightarrow> d3_done c') \<and> current_fps c' \<le> current_fps c \<and>
     start_fps c' = start_fps c"

lemma flags_grow_done: "flags_grow c c' \<Longrightarrow> done_upto c k \<Longrightarrow> done_upto c' k"
  by (auto simp: flags_grow_def done_upto_def)

lemma flags_grow_trans: "flags_grow a b \<Longrightarrow> flags_grow b c \<Longrightarrow> flags_grow a c"
  by (auto simp: flags_grow_def)

lemma choose_step:
  assumes "choose_ladder_step c = (c', act)"
  shows "flags_grow c c'" "holdoff_active c' = holdoff_active c"
    "holdoff_until_ms c' = holdoff_until_ms c"
    "act \<noteq> L4C_DEG_ACT_NONE \<Longrightarrow> rank act < 4 \<and> not_done c (rank act) \<and>
       done_upto (mark_action_taken c' act t) (rank act)"
  using assms
  by (auto simp: choose_ladder_step_def flags_grow_def not_done_def done_upto_def Let_def
      mark_action_taken_def start_holdoff_def reset_window_history_def split: if_splits)

lemma mark_fields:
  "flags_grow c (mark_action_taken c act t)" "holdoff_active (mark_action_taken c act t)"
  "holdoff_until_ms (mark_action_taken c act t) = t + 6000"
  by (auto simp: mark_action_taken_def start_holdoff_def reset_window_history_def flags_grow_def
      Let_def split: l4c_degrade_action.split)

lemma open_window_fields:
  "flags_grow c (open_window c t)" "holdoff_active (open_window c t) = holdoff_active c"
  "holdoff_until_ms (open_window c t) = holdoff_until_ms c"
  "d0_done (open_window c t) = d0_done c" "d1_done (open_window c t) = d1_done c"
  "d2_done (open_window c t) = d2_done c" "d3_done (open_window c t) = d3_done c"
  "current_fps (open_window c t) = current_fps c" "floor_bad_streak (open_window c t) = floor_bad_streak c"
  "floor_counting (open_window c t) = floor_counting c" "actual_id (open_window c t) = actual_id c"
  by (auto simp: open_window_def reset_window_history_def flags_grow_def)

lemma count_window_fields:
  "flags_grow c (count_window c b)" "holdoff_active (count_window c b) = holdoff_active c"
  "holdoff_until_ms (count_window c b) = holdoff_until_ms c"
  "d0_done (count_window c b) = d0_done c" "d1_done (count_window c b) = d1_done c"
  "d2_done (count_window c b) = d2_done c" "d3_done (count_window c b) = d3_done c"
  "floor_counting (count_window c b) = floor_counting c" "current_fps (count_window c b) = current_fps c"
  by (auto simp: count_window_def flags_grow_def Let_def)

text \<open>
  A window is accepted when it is exactly 3000 ms long; its verdict is then no data, good or bad.
\<close>

definition accepted_window :: "l4c_degrade_controller \<Rightarrow> u64 \<Rightarrow> bool" where
  "accepted_window c t \<longleftrightarrow> \<not> t < window_start_ms (open_window c t) \<and>
     t - window_start_ms (open_window c t) = L4C_DEGRADE_WINDOW_MS"

abbreviation counted :: "l4c_degrade_controller \<Rightarrow> u64 \<Rightarrow> l4c_degrade_window \<Rightarrow> l4c_degrade_controller" where
  "counted c t wm \<equiv> count_window (open_window c t) (window_is_bad wm (current_fps c))"

abbreviation must_stop :: "l4c_degrade_controller \<Rightarrow> bool" where
  "must_stop c \<equiv> floor_counting c \<and> (d0_done c \<or> d3_done c) \<and> 5 \<le> floor_bad_streak c"

lemma on_window_unfold:
  "l4c_degrade_on_window c t wm =
     (if \<not> accepted_window c t then (open_window c t, L4C_DEG_ACT_NONE)
      else if window_is_nodata wm then
        (reset_window_history ((open_window c t)\<lparr>consecutive_bad := 0, floor_bad_streak := 0\<rparr>) t,
         L4C_DEG_ACT_NONE)
      else if must_stop (counted c t wm)
      then (reset_window_history (counted c t wm) t, L4C_DEG_ACT_STOP_HIGH_LOAD)
      else if 2 \<le> consecutive_bad (counted c t wm) \<and> \<not> holdoff_blocks (counted c t wm) t
      then (case choose_ladder_step (counted c t wm) of (c', act) \<Rightarrow>
              if act \<noteq> L4C_DEG_ACT_NONE then (mark_action_taken c' act t, act)
              else (c'\<lparr>window_start_ms := t\<rparr>, L4C_DEG_ACT_NONE))
      else ((counted c t wm)\<lparr>window_start_ms := t\<rparr>, L4C_DEG_ACT_NONE))"
  unfolding l4c_degrade_on_window_def Let_def accepted_window_def open_window_fields(8)
  by (cases "t < window_start_ms (open_window c t)";
      cases "t - window_start_ms (open_window c t) = L4C_DEGRADE_WINDOW_MS";
      cases "2 \<le> consecutive_bad (counted c t wm) \<and> \<not> holdoff_blocks (counted c t wm) t")
    (simp_all only: if_True if_False simp_thms prod.case)

lemma flags_grow_same:
  "flags_grow c (reset_window_history d t) = flags_grow c d"
  "flags_grow c (d\<lparr>window_start_ms := t\<rparr>) = flags_grow c d"
  "flags_grow c (d\<lparr>consecutive_bad := a, floor_bad_streak := b\<rparr>) = flags_grow c d"
  by (simp_all add: flags_grow_def reset_window_history_def)

lemma on_window_ladder:
  assumes "l4c_degrade_on_window c t wm = (c', act)"
  shows "flags_grow c c' \<and> (if rank act < 4
     then not_done c (rank act) \<and> done_upto c' (rank act) \<and> \<not> holdoff_blocks c t \<and>
       holdoff_active c' \<and> holdoff_until_ms c' = t + 6000
     else holdoff_active c' = holdoff_active c \<and> holdoff_until_ms c' = holdoff_until_ms c)"
proof -
  let ?c2 = "counted c t wm"
  obtain c3 a3 where 3: "choose_ladder_step ?c2 = (c3, a3)" by fastforce
  note ch = choose_step [OF 3]
  note keep = open_window_fields count_window_fields
  have g2: "flags_grow c ?c2" by (rule flags_grow_trans [OF open_window_fields(1) count_window_fields(1)])
  then have g3: "flags_grow c c3" using ch(1) flags_grow_trans by blast
  then have g4: "flags_grow c (mark_action_taken c3 a3 t)" using mark_fields(1) flags_grow_trans by blast
  have nd: "not_done ?c2 k = not_done c k" for k by (simp add: not_done_def keep)
  have hb: "holdoff_blocks ?c2 t = holdoff_blocks c t" by (simp add: holdoff_blocks_def keep)
  have same: "rank L4C_DEG_ACT_NONE = 4" "rank L4C_DEG_ACT_STOP_HIGH_LOAD = 4" by simp_all
  consider "\<not> accepted_window c t" | "accepted_window c t" "window_is_nodata wm"
    | "accepted_window c t" "\<not> window_is_nodata wm" "must_stop ?c2"
    | "accepted_window c t" "\<not> window_is_nodata wm" "\<not> must_stop ?c2"
      "\<not> (2 \<le> consecutive_bad ?c2 \<and> \<not> holdoff_blocks ?c2 t)"
    | "accepted_window c t" "\<not> window_is_nodata wm" "\<not> must_stop ?c2"
      "2 \<le> consecutive_bad ?c2 \<and> \<not> holdoff_blocks ?c2 t" by blast
  then show ?thesis
  proof cases
    case 5
    then have r: "(c', act) = (if a3 \<noteq> L4C_DEG_ACT_NONE then (mark_action_taken c3 a3 t, a3)
        else (c3\<lparr>window_start_ms := t\<rparr>, L4C_DEG_ACT_NONE))"
      using assms unfolding on_window_unfold 3 prod.case by (simp only: if_True if_False simp_thms)
    show ?thesis
      using 5(4) r g3 g4 ch(2,3) ch(4) [of t] mark_fields(2,3) [of c3 a3 t] hb nd keep
      by (cases "a3 = L4C_DEG_ACT_NONE") (simp_all add: flags_grow_same)
  next
    case 1
    then show ?thesis using assms by (auto simp: on_window_unfold keep)
  next
    case 2
    then show ?thesis
      using assms open_window_fields(1) [of c t]
      by (auto simp: on_window_unfold keep flags_grow_def reset_window_history_def)
  next
    case 3
    then have "c' = reset_window_history ?c2 t" "act = L4C_DEG_ACT_STOP_HIGH_LOAD"
      using assms unfolding on_window_unfold by auto
    then show ?thesis using g2 by (simp add: keep flags_grow_same) (simp add: reset_window_history_def keep)
  next
    case 4
    then have "(c', act) = (?c2\<lparr>window_start_ms := t\<rparr>, L4C_DEG_ACT_NONE)"
      using assms unfolding on_window_unfold by (simp only: if_True if_False simp_thms)
    then show ?thesis using g2 by (simp add: keep flags_grow_same)
  qed
qed

lemma notify_fields:
  "flags_grow c (l4c_degrade_notify_applied c i r st g now)"
  "holdoff_active (l4c_degrade_notify_applied c i r st g now) = holdoff_active c"
  "holdoff_until_ms (l4c_degrade_notify_applied c i r st g now) = holdoff_until_ms c"
  by (auto simp: l4c_degrade_notify_applied_def reset_window_history_def flags_grow_def Let_def
      not_less)

abbreviation ladder_steps :: "(l4c_degrade_action \<times> u64) list \<Rightarrow> (l4c_degrade_action \<times> u64) list" where
  "ladder_steps log \<equiv> filter (\<lambda>(a, t). rank a < 4) log"

abbreviation step_after :: "l4c_degrade_action \<times> u64 \<Rightarrow> l4c_degrade_action \<times> u64 \<Rightarrow> bool" where
  "step_after later earlier \<equiv> rank (fst earlier) < rank (fst later) \<and>
     (unat (snd earlier) + 6000 < 2 ^ 64 \<longrightarrow> unat (snd earlier) + 6000 \<le> unat (snd later))"

text \<open>
  The invariant of a run: the steps taken so far come in ladder order and pairwise apart, the
  last one has set the hold-off, and every step up to it is marked as done.
\<close>

definition ladder_inv :: "l4c_degrade_controller \<times> (l4c_degrade_action \<times> u64) list \<Rightarrow> bool" where
  "ladder_inv s \<longleftrightarrow> (case s of (c, log) \<Rightarrow> current_fps c \<le> start_fps c \<and>
     (case ladder_steps log of [] \<Rightarrow> True
      | (a, t) # ds \<Rightarrow> done_upto c (rank a) \<and> holdoff_active c \<and> holdoff_until_ms c = t + 6000 \<and>
          successively step_after ((a, t) # ds)))"

lemma holdoff_gap:
  "\<not> (t2 :: u64) < t1 + 6000 \<Longrightarrow> unat t1 + 6000 < 2 ^ 64 \<Longrightarrow> unat t1 + 6000 \<le> unat t2"
  by (simp add: word_less_nat_alt unat_word_ariths)

lemma ladder_step:
  assumes "ladder_inv (c, log)"
  shows "ladder_inv (deg_exec (c, log) e)"
proof (cases e)
  case (Applied i r st g now)
  then show ?thesis
    using assms notify_fields [of c i r st g now] flags_grow_done [OF notify_fields(1)]
    by (auto simp: ladder_inv_def flags_grow_def split: list.splits)
next
  case (Window t wm)
  obtain c' act where w: "l4c_degrade_on_window c t wm = (c', act)" by fastforce
  note l = on_window_ladder [OF w]
  have grow: "flags_grow c c'" using l by simp
  have fps_ok: "current_fps c' \<le> start_fps c'"
    using assms grow by (auto simp: ladder_inv_def flags_grow_def)
  show ?thesis
  proof (cases "rank act < 4")
    case False
    then have "ladder_steps (snd (deg_exec (c, log) e)) = ladder_steps log"
      using Window w by simp
    then show ?thesis
      using False l assms fps_ok Window w flags_grow_done [OF grow]
      by (auto simp: ladder_inv_def split: list.splits)
  next
    case True
    then have st: "not_done c (rank act)" "done_upto c' (rank act)" "\<not> holdoff_blocks c t"
      "holdoff_active c'" "holdoff_until_ms c' = t + 6000" using l by auto
    have act: "act \<noteq> L4C_DEG_ACT_NONE" using True by auto
    have "successively step_after ((act, t) # ladder_steps log)"
    proof (cases "ladder_steps log")
      case (Cons d ds)
      obtain a u where d: "d = (a, u)" by (cases d)
      have inv: "done_upto c (rank a)" "holdoff_active c" "holdoff_until_ms c = u + 6000"
        "successively step_after ((a, u) # ds)"
        using assms Cons d by (auto simp: ladder_inv_def)
      have "\<not> t < u + 6000" using st(3) inv(2,3) by (simp add: holdoff_blocks_def)
      then show ?thesis
        using inv(4) done_upto_less [OF inv(1) st(1)] holdoff_gap Cons d by simp
    qed simp
    then show ?thesis
      using Window w st fps_ok True act by (simp add: ladder_inv_def)
  qed
qed

interpretation ladder_runs: step_invariant deg_exec ladder_inv
  by unfold_locales (metis ladder_step prod.collapse)

lemma init_ladder: "l4c_degrade_init i r now = Inr c \<Longrightarrow> ladder_inv (c, []) \<and> start_fps c = r"
  by (auto simp: l4c_degrade_init_def reset_window_history_def ladder_inv_def Let_def
      split: if_splits option.splits)

lemma start_fps_fixed: "start_fps (fst (deg_exec s e)) = start_fps (fst s)"
proof -
  obtain c log where s: "s = (c, log)" by (cases s)
  show ?thesis
  proof (cases e)
    case (Window t wm)
    obtain c' act where w: "l4c_degrade_on_window c t wm = (c', act)" by fastforce
    then show ?thesis using on_window_ladder [OF w] Window by (simp add: s flags_grow_def)
  next
    case (Applied i r st g now)
    then show ?thesis using notify_fields(1) [of c i r st g now] by (simp add: s flags_grow_def)
  qed
qed

lemma steps_sorted:
  assumes "successively step_after ds"
  shows "sorted_wrt (\<lambda>later earlier. rank (fst earlier) < rank (fst later)) ds"
proof -
  have "successively (\<lambda>later earlier. rank (fst earlier) < rank (fst later)) ds"
    using assms by (rule successively_mono) auto
  then show ?thesis
    by (subst (asm) successively_conv_sorted_wrt) (auto intro: transpI)
qed

lemma steps_at_most_four:
  assumes "sorted_wrt (\<lambda>later earlier. rank (fst earlier) < rank (fst later)) ds"
    "\<forall>d\<in>set ds. rank (fst d) < 4"
  shows "length ds \<le> 4"
proof -
  have "distinct (map (rank \<circ> fst) ds)"
    using assms(1) by (auto simp: distinct_conv_nth sorted_wrt_iff_nth_less linorder_neq_iff)
  then have "length ds = card (set (map (rank \<circ> fst) ds))" by (metis distinct_card length_map)
  also have "\<dots> \<le> card {..<4 :: nat}" using assms(2) by (intro card_mono) auto
  finally show ?thesis by simp
qed

text \<open>C36: the ladder is taken once, downwards and with pauses. In any sequence of windows and
  applied changes after initialisation, each of the steps D0 to D3 is ordered at most once, in this
  order (steps may be skipped); consecutive steps are at least 6000 ms apart, unless the tick
  counter is within that of its end; and the frame rate never rises above the starting rate.\<close>

theorem ladder_order:
  assumes "l4c_degrade_init i r now = Inr c0"
  shows "case foldl deg_exec (c0, []) es of (c, log) \<Rightarrow>
    sorted_wrt (\<lambda>later earlier. rank (fst earlier) < rank (fst later)) (ladder_steps log) \<and>
    successively step_after (ladder_steps log) \<and> length (ladder_steps log) \<le> 4 \<and>
    current_fps c \<le> r"
proof -
  obtain c log where run: "foldl deg_exec (c0, []) es = (c, log)" by fastforce
  have inv: "ladder_inv (c, log)"
    using ladder_runs.inv_run [of "(c0, [])" es] init_ladder [OF assms] run by simp
  have "start_fps (fst (foldl deg_exec s es)) = start_fps (fst s)" for s
    by (induction es arbitrary: s) (simp_all add: start_fps_fixed)
  then have "start_fps c = r" using run init_ladder [OF assms] by (metis fst_conv)
  moreover have suc: "successively step_after (ladder_steps log)"
    using inv by (auto simp: ladder_inv_def split: list.splits)
  moreover have "length (ladder_steps log) \<le> 4"
    by (rule steps_at_most_four [OF steps_sorted [OF suc]]) auto
  ultimately show ?thesis
    using inv steps_sorted [OF suc] run by (simp add: ladder_inv_def)
qed

text \<open>A window in which a quarter of the raw frames was dropped.\<close>

definition bad_window :: l4c_degrade_window where
  "bad_window = \<lparr>raw_class = \<lparr>passed = 75, dropped = 25\<rparr>,
     encoder_class = \<lparr>passed = 75, dropped = 0\<rparr>, transport_class = \<lparr>passed = 75, dropped = 0\<rparr>,
     has_processing = False, processing_p95_ms = 0, processing_samples = 0\<rparr>"

lemma bad_windows_run:
  "map_sum id (\<lambda>c0. snd (foldl deg_exec (c0, []) [Window 4000 bad_window, Window 7000 bad_window]))
     (l4c_degrade_init 3 25 1000) = Inr [(L4C_DEG_ACT_D0_DROP_LATE_RAW, 7000)]"
  by code_simp

theorem ladder_order_witness:
  "\<exists>c0 c. l4c_degrade_init 3 25 1000 = Inr c0 \<and> current_fps c \<le> 25 \<and>
     foldl deg_exec (c0, []) [Window 4000 bad_window, Window 7000 bad_window] =
       (c, [(L4C_DEG_ACT_D0_DROP_LATE_RAW, 7000)])"
proof -
  obtain c0 where i: "l4c_degrade_init 3 25 1000 = Inr c0" and
    r: "snd (foldl deg_exec (c0, []) [Window 4000 bad_window, Window 7000 bad_window]) =
      [(L4C_DEG_ACT_D0_DROP_LATE_RAW, 7000)]"
    using bad_windows_run by (cases "l4c_degrade_init 3 25 1000") auto
  show ?thesis
    using i r ladder_order [OF i, of "[Window 4000 bad_window, Window 7000 bad_window]"]
    by (cases "foldl deg_exec (c0, []) [Window 4000 bad_window, Window 7000 bad_window]")
      (auto simp del: foldl_Cons)
qed

section \<open>The overload stop\<close>

text \<open>Runs that record for every accepted window whether it was bad, latest first.\<close>

fun verdict_exec :: "l4c_degrade_controller \<times> bool list \<Rightarrow> deg_event \<Rightarrow> l4c_degrade_controller \<times> bool list" where
  "verdict_exec (c, vs) (Window t wm) =
     (fst (l4c_degrade_on_window c t wm),
      if accepted_window c t then (\<not> window_is_nodata wm \<and> window_is_bad wm (current_fps c)) # vs else vs)"
| "verdict_exec (c, vs) (Applied i r st g now) = (l4c_degrade_notify_applied c i r st g now, vs)"

definition streak_inv :: "l4c_degrade_controller \<times> bool list \<Rightarrow> bool" where
  "streak_inv s \<longleftrightarrow> unat (floor_bad_streak (fst s)) \<le> length (takeWhile id (snd s))"

lemma count_streak:
  "unat (floor_bad_streak (count_window c b)) =
     (if b then if floor_counting c then min 255 (unat (floor_bad_streak c) + 1)
                else unat (floor_bad_streak c) else 0)"
proof -
  have "unat (floor_bad_streak c + 1) = unat (floor_bad_streak c) + 1" if "floor_bad_streak c < 255"
    using that by (simp add: word_less_nat_alt unat_word_ariths)
  moreover have "floor_bad_streak c < 255 \<longleftrightarrow> unat (floor_bad_streak c) < 255"
    by (simp add: word_less_nat_alt)
  moreover have "unat (floor_bad_streak c) \<le> 255" using unat_lt [of "floor_bad_streak c"] by simp
  ultimately show ?thesis by (auto simp: count_window_def Let_def min_def)
qed

lemma ladder_keeps_streak:
  "choose_ladder_step c = (c', act) \<Longrightarrow> floor_bad_streak c' = floor_bad_streak c \<and>
     floor_counting c' = floor_counting c \<and>
     unat (floor_bad_streak (mark_action_taken c' act t)) \<le> unat (floor_bad_streak c)"
  by (auto simp: choose_ladder_step_def mark_action_taken_def start_holdoff_def
      reset_window_history_def Let_def split: if_splits l4c_degrade_action.splits)

lemma on_window_streak:
  assumes "accepted_window c t" "l4c_degrade_on_window c t wm = (c', act)"
  shows "unat (floor_bad_streak c') \<le> (if \<not> window_is_nodata wm \<and> window_is_bad wm (current_fps c)
     then unat (floor_bad_streak c) + 1 else 0)"
    "act = L4C_DEG_ACT_STOP_HIGH_LOAD \<Longrightarrow> \<not> window_is_nodata wm \<and> must_stop (counted c t wm)"
proof -
  let ?c2 = "counted c t wm"
  obtain c3 a3 where 3: "choose_ladder_step ?c2 = (c3, a3)" by fastforce
  have a3: "a3 \<noteq> L4C_DEG_ACT_STOP_HIGH_LOAD"
    using choose_step(4) [OF 3, of t] by auto
  have "unat (floor_bad_streak ?c2) \<le> (if window_is_bad wm (current_fps c)
     then unat (floor_bad_streak c) + 1 else 0)"
    by (simp add: count_streak open_window_fields)
  then show "unat (floor_bad_streak c') \<le> (if \<not> window_is_nodata wm \<and> window_is_bad wm (current_fps c)
     then unat (floor_bad_streak c) + 1 else 0)"
    using assms ladder_keeps_streak [OF 3, of t] 3
    by (auto simp: on_window_unfold reset_window_history_def split: if_splits)
  show "act = L4C_DEG_ACT_STOP_HIGH_LOAD \<Longrightarrow> \<not> window_is_nodata wm \<and> must_stop ?c2"
    using assms a3 3 unfolding on_window_unfold by (auto split: if_splits)
qed

lemma rejected_window: "\<not> accepted_window c t \<Longrightarrow> l4c_degrade_on_window c t wm = (open_window c t, L4C_DEG_ACT_NONE)"
  by (simp add: on_window_unfold)

interpretation streak_runs: step_invariant verdict_exec streak_inv
proof
  fix s e assume inv: "streak_inv s"
  obtain c vs where s: "s = (c, vs)" by (cases s)
  show "streak_inv (verdict_exec s e)"
  proof (cases e)
    case (Window t wm)
    obtain c' act where w: "l4c_degrade_on_window c t wm = (c', act)" by fastforce
    show ?thesis
    proof (cases "accepted_window c t")
      case True
      show ?thesis
        using inv on_window_streak(1) [OF True w] w True Window
        by (auto simp: s streak_inv_def split: if_splits)
    next
      case False
      then show ?thesis
        using inv rejected_window [OF False, of wm] Window
        by (simp add: s streak_inv_def open_window_fields)
    qed
  next
    case (Applied i r st g now)
    have "floor_bad_streak (l4c_degrade_notify_applied c i r st g now) \<in> {0, floor_bad_streak c}"
      by (simp add: l4c_degrade_notify_applied_def reset_window_history_def Let_def)
    then show ?thesis using inv Applied by (auto simp: s streak_inv_def)
  qed
qed

text \<open>On the floor, with the ladder's resets behind, every bad window is counted.\<close>

definition on_floor :: "l4c_degrade_controller \<Rightarrow> bool" where
  "on_floor c \<longleftrightarrow> floor_counting c \<and> d0_done c \<and> d3_done c"

lemma bad_has_data: "window_is_bad wm r \<Longrightarrow> \<not> window_is_nodata wm"
  by (auto simp: window_is_bad_def window_is_nodata_def l4c_degrade_class_over_threshold_def
      word_le_nat_alt word_less_nat_alt Let_def split: if_splits)

lemma choose_on_floor:
  assumes "on_floor c" "choose_ladder_step c = (c', act)"
  shows "act \<noteq> L4C_DEG_ACT_STOP_HIGH_LOAD"
    "d = c' \<or> d = mark_action_taken c' act t \<Longrightarrow> on_floor d \<and> current_fps d = current_fps c \<and>
       floor_bad_streak d = floor_bad_streak c"
    "window_open c' = window_open c"
  using assms
  by (auto simp: on_floor_def choose_ladder_step_def mark_action_taken_def start_holdoff_def
      reset_window_history_def Let_def split: if_splits l4c_degrade_action.splits)

lemma mark_opens:
  "window_open (mark_action_taken c a t)" "window_start_ms (mark_action_taken c a t) = t"
  by (simp_all add: mark_action_taken_def start_holdoff_def reset_window_history_def Let_def)

lemma counted_open: "window_open (counted c t wm)"
  by (auto simp: count_window_def open_window_def reset_window_history_def Let_def)

lemma floor_window:
  assumes "on_floor c" "accepted_window c t" "window_is_bad wm (current_fps c)"
    "l4c_degrade_on_window c t wm = (c', act)"
  shows "on_floor c' \<and> current_fps c' = current_fps c \<and> window_start_ms c' = t \<and> window_open c' \<and>
    unat (floor_bad_streak c') = min 255 (unat (floor_bad_streak c) + 1) \<and>
    (act = L4C_DEG_ACT_STOP_HIGH_LOAD \<longleftrightarrow> 5 \<le> unat (floor_bad_streak c) + 1)"
proof -
  let ?c2 = "counted c t wm"
  note keep = open_window_fields count_window_fields
  have c2: "on_floor ?c2" "current_fps ?c2 = current_fps c" using assms(1) by (simp_all add: on_floor_def keep)
  have sk: "unat (floor_bad_streak ?c2) = min 255 (unat (floor_bad_streak c) + 1)"
    using assms(1,3) by (simp add: count_streak keep on_floor_def)
  have stop: "must_stop ?c2 \<longleftrightarrow> 5 \<le> unat (floor_bad_streak c) + 1"
    using c2(1) sk by (auto simp: on_floor_def word_le_nat_alt)
  obtain c3 a3 where 3: "choose_ladder_step ?c2 = (c3, a3)" by fastforce
  note ch = choose_on_floor [OF c2(1) 3]
  have r: "(c', act) = (if must_stop ?c2 then (reset_window_history ?c2 t, L4C_DEG_ACT_STOP_HIGH_LOAD)
      else if 2 \<le> consecutive_bad ?c2 \<and> \<not> holdoff_blocks ?c2 t
      then (if a3 \<noteq> L4C_DEG_ACT_NONE then (mark_action_taken c3 a3 t, a3)
            else (c3\<lparr>window_start_ms := t\<rparr>, L4C_DEG_ACT_NONE))
      else (?c2\<lparr>window_start_ms := t\<rparr>, L4C_DEG_ACT_NONE))"
    using assms(2,4) bad_has_data [OF assms(3)] unfolding on_window_unfold 3 prod.case
    by (simp only: if_True if_False simp_thms)
  consider "must_stop ?c2" "c' = reset_window_history ?c2 t" "act = L4C_DEG_ACT_STOP_HIGH_LOAD"
    | "\<not> must_stop ?c2" "c' = mark_action_taken c3 a3 t" "act = a3"
    | "\<not> must_stop ?c2" "c' = c3\<lparr>window_start_ms := t\<rparr>" "act = L4C_DEG_ACT_NONE"
    | "\<not> must_stop ?c2" "c' = ?c2\<lparr>window_start_ms := t\<rparr>" "act = L4C_DEG_ACT_NONE"
    using r by (metis prod.inject)
  then show ?thesis
  proof cases
    case 1
    then show ?thesis using stop sk c2 by (simp add: reset_window_history_def on_floor_def)
  next
    case 2
    then show ?thesis using stop sk c2 ch(1) ch(2) [of "mark_action_taken c3 a3 t" t] mark_opens by simp
  next
    case 3
    then show ?thesis using stop sk c2 ch(2) [of c3] ch(3) counted_open [of c t wm] by (simp add: on_floor_def)
  next
    case 4
    then show ?thesis using stop sk c2 counted_open [of c t wm] by (simp add: on_floor_def)
  qed
qed

text \<open>The actions of successive windows.\<close>

fun window_actions ::
  "l4c_degrade_controller \<Rightarrow> u64 \<Rightarrow> l4c_degrade_window list \<Rightarrow> l4c_degrade_action list" where
  "window_actions c t [] = []"
| "window_actions c t (wm # wms) =
     (case l4c_degrade_on_window c (t + 3000) wm of (c', act) \<Rightarrow> act # window_actions c' (t + 3000) wms)"

lemma next_window_accepted:
  "window_open c \<Longrightarrow> window_start_ms c = t \<Longrightarrow> unat t + 3000 < 2 ^ 64 \<Longrightarrow> accepted_window c (t + 3000)"
  by (simp add: accepted_window_def open_window_def word_less_nat_alt unat_word_ariths)

lemma floor_actions:
  assumes "on_floor c" "window_open c" "window_start_ms c = t" "list_all (\<lambda>wm. window_is_bad wm (current_fps c)) wms"
    "unat t + 3000 * length wms < 2 ^ 64" "wms \<noteq> []" "5 \<le> unat (floor_bad_streak c) + length wms"
  shows "last (window_actions c t wms) = L4C_DEG_ACT_STOP_HIGH_LOAD"
  using assms
proof (induction wms arbitrary: c t)
  case (Cons wm wms)
  obtain c' act where w: "l4c_degrade_on_window c (t + 3000) wm = (c', act)" by fastforce
  have acc: "accepted_window c (t + 3000)" using Cons.prems by (intro next_window_accepted) auto
  note f = floor_window [OF Cons.prems(1) acc _ w]
  have f': "on_floor c'" "current_fps c' = current_fps c" "window_start_ms c' = t + 3000" "window_open c'"
    "unat (floor_bad_streak c') = min 255 (unat (floor_bad_streak c) + 1)"
    "act = L4C_DEG_ACT_STOP_HIGH_LOAD \<longleftrightarrow> 5 \<le> unat (floor_bad_streak c) + 1"
    using f Cons.prems(4) by auto
  show ?case
  proof (cases "wms = []")
    case True
    then show ?thesis using w f'(6) Cons.prems(7) by simp
  next
    case False
    have "unat (t + 3000) = unat t + 3000" using Cons.prems(5) by (simp add: unat_word_ariths)
    then have "last (window_actions c' (t + 3000) wms) = L4C_DEG_ACT_STOP_HIGH_LOAD"
      using Cons.IH [of c' "t + 3000"] f' Cons.prems False by auto
    moreover have "window_actions c' (t + 3000) wms \<noteq> []" using False by (cases wms) (auto split: prod.splits)
    ultimately show ?thesis using w by simp
  qed
qed simp

text \<open>the overload stop is neither spurious nor late. In any run, the session is stopped for
  overload only by an accepted window that is bad and follows at least four accepted windows that
  were bad, with no good or empty one in between; and a controller that counts on the 480p floor,
  with D0 and D3 behind it, orders the stop no later than at the fifth bad window in a row.\<close>

theorem overload_stop_exact:
  assumes "l4c_degrade_init i r now = Inr c0" "foldl verdict_exec (c0, []) es = (c, vs)"
  shows "(l4c_degrade_on_window c t wm = (c', L4C_DEG_ACT_STOP_HIGH_LOAD) \<longrightarrow>
      accepted_window c t \<and> window_is_bad wm (current_fps c) \<and> 4 \<le> length (takeWhile id vs)) \<and>
    (on_floor c \<and> window_open c \<and> list_all (\<lambda>wm. window_is_bad wm (current_fps c)) wms \<and>
       length wms = 5 \<and> unat (window_start_ms c) + 15000 < 2 ^ 64 \<longrightarrow>
       last (window_actions c (window_start_ms c) wms) = L4C_DEG_ACT_STOP_HIGH_LOAD)"
proof -
  have "streak_inv (c0, [])"
    using assms(1) by (auto simp: streak_inv_def l4c_degrade_init_def reset_window_history_def Let_def
        split: if_splits option.splits)
  then have inv: "unat (floor_bad_streak c) \<le> length (takeWhile id vs)"
    using streak_runs.inv_run [of "(c0, [])" es] assms(2) by (simp add: streak_inv_def)
  have "accepted_window c t \<and> window_is_bad wm (current_fps c) \<and> 4 \<le> length (takeWhile id vs)"
    if stop: "l4c_degrade_on_window c t wm = (c', L4C_DEG_ACT_STOP_HIGH_LOAD)"
  proof -
    have acc: "accepted_window c t" using stop rejected_window [of c t wm] by auto
    have "5 \<le> unat (floor_bad_streak (counted c t wm))"
      using on_window_streak(2) [OF acc stop] by (simp add: word_le_nat_alt)
    then show ?thesis
      using acc inv by (auto simp: count_streak open_window_fields split: if_splits)
  qed
  moreover have "last (window_actions c (window_start_ms c) wms) = L4C_DEG_ACT_STOP_HIGH_LOAD"
    if "on_floor c \<and> window_open c \<and> list_all (\<lambda>wm. window_is_bad wm (current_fps c)) wms \<and>
       length wms = 5 \<and> unat (window_start_ms c) + 15000 < 2 ^ 64"
    using that by (intro floor_actions) auto
  ultimately show ?thesis by blast
qed

lemma floor_reached:
  "map_sum id (\<lambda>c0. let c = fst (foldl verdict_exec (c0, []) [Window 4000 bad_window, Window 7000 bad_window]) in
      on_floor c \<and> window_open c \<and> window_start_ms c = 7000 \<and> window_is_bad bad_window (current_fps c))
     (l4c_degrade_init 1 15 1000) = Inr True"
  by code_simp

theorem overload_stop_exact_witness:
  "\<exists>c0 c. l4c_degrade_init 1 15 1000 = Inr c0 \<and>
     fst (foldl verdict_exec (c0, []) [Window 4000 bad_window, Window 7000 bad_window]) = c \<and> on_floor c \<and>
     last (window_actions c (window_start_ms c) (replicate 5 bad_window)) = L4C_DEG_ACT_STOP_HIGH_LOAD"
proof -
  let ?es = "[Window 4000 bad_window, Window 7000 bad_window]"
  obtain c0 where i: "l4c_degrade_init 1 15 1000 = Inr c0"
    using floor_reached by (cases "l4c_degrade_init 1 15 1000") auto
  obtain c vs where run: "foldl verdict_exec (c0, []) ?es = (c, vs)" by fastforce
  have fl: "on_floor c" "window_open c" "window_start_ms c = 7000" "window_is_bad bad_window (current_fps c)"
    using floor_reached unfolding i run by (simp_all add: run Let_def del: foldl_Cons)
  then show ?thesis
    using overload_stop_exact [OF i run, of _ _ _ "replicate 5 bad_window"] i run
    by (simp add: list_all_iff del: foldl_Cons replicate.simps)
qed

end
