(* ===== verification/Rtp_Packetizer.thy ===== *)
theory Rtp_Packetizer
  imports Capture_Limits
begin

text \<open>
  The RFC 6184 packetizer of \<open>tools/l4capture/src/network/rtp_packetizer.c\<close>. The packet buffer on
  the stack is explicit: a write past its 1212 bytes is undefined in C and the result \<open>Overrun\<close>
  here. The theory relates the code to a list of packets computed without a buffer, shows exactly
  when the buffer is overrun, and that a receiver following RFC 6184 recovers the NAL units from
  the packets.
\<close>

section \<open>Definitions of the source\<close>

abbreviation L4C_RTP_HEADER_SIZE :: nat where "L4C_RTP_HEADER_SIZE \<equiv> 12"
abbreviation L4C_RTP_MAX_PAYLOAD_SIZE :: nat where "L4C_RTP_MAX_PAYLOAD_SIZE \<equiv> 1200"
abbreviation L4C_RTP_MAX_FU_PAYLOAD_SIZE :: nat where "L4C_RTP_MAX_FU_PAYLOAD_SIZE \<equiv> 1198"

text \<open>
  The parts of an access unit that the network code reads; the NAL type, the IDR flag and the total
  size are for the encoder only. \<open>nal_data\<close> is \<open>None\<close> for a \<open>NULL\<close> pointer; lengths are
  \<open>uint32_t\<close> values.
\<close>

record l4c_nal_desc =
  nal_data :: "bytes option"
  nal_length :: nat

record l4c_access_unit =
  nals :: "l4c_nal_desc list"
  pts_ms :: u64

text \<open>The fields that all packets of an access unit share.\<close>

record rtp_session =
  payload_type :: u8
  rtp_timestamp :: u32
  ssrc :: u32

definition rtp_header :: "rtp_session \<Rightarrow> bool \<Rightarrow> u16 \<Rightarrow> bytes" where
  "rtp_header ses marker seq =
     [128, (if marker then 128 else 0) OR (payload_type ses AND 127)]
     @ be16 seq @ be32 (rtp_timestamp ses) @ be32 (ssrc ses)"

definition write_rtp_header :: "bytes \<Rightarrow> rtp_session \<Rightarrow> bool \<Rightarrow> u16 \<Rightarrow> bytes option" where
  "write_rtp_header buf ses marker seq = put_at buf 0 (rtp_header ses marker seq)"

text \<open>
  \<open>'c\<close> is the type of the callback's context; the callback is applied to the packet's bytes and
  the flag \<open>is_last_of_au\<close> and answers whether to go on. \<open>Run\<close> is a state to continue with.
\<close>

type_synonym 'c packet_cb = "'c \<Rightarrow> bytes \<Rightarrow> bool \<Rightarrow> bool \<times> 'c"

record 'c packetizer =
  pkt_buf :: bytes
  stap_bytes :: nat
  pk_seq :: u16
  user_ctx :: 'c

datatype 'c outcome = Overrun | Halt l4c_status 'c | Run "'c packetizer"

definition flush_stap :: "'c packet_cb \<Rightarrow> rtp_session \<Rightarrow> 'c packetizer \<Rightarrow> bool \<Rightarrow> 'c outcome" where
  "flush_stap cb ses s marker =
     (case put_at (pkt_buf s) (L4C_RTP_HEADER_SIZE + 1)
             (slice_at L4C_RTP_HEADER_SIZE (stap_bytes s) (pkt_buf s)) of
        None \<Rightarrow> Overrun
      | Some b1 \<Rightarrow> (case put_at b1 L4C_RTP_HEADER_SIZE [120] of
          None \<Rightarrow> Overrun
        | Some b2 \<Rightarrow> (case write_rtp_header b2 ses marker (pk_seq s) of
            None \<Rightarrow> Overrun
          | Some b3 \<Rightarrow>
              (case cb (user_ctx s) (take (L4C_RTP_HEADER_SIZE + 1 + stap_bytes s) b3) marker of
                 (go, c) \<Rightarrow>
                   if \<not> go then Halt L4C_ERR_NETWORK c
                   else Run (s\<lparr>pkt_buf := b3, stap_bytes := 0, pk_seq := pk_seq s + 1,
                               user_ctx := c\<rparr>)))))"

text \<open>Appending a NAL unit with its length prefix at the given offset behind the header.\<close>

definition stap_append :: "'c packetizer \<Rightarrow> nat \<Rightarrow> bytes \<Rightarrow> nat \<Rightarrow> 'c outcome" where
  "stap_append s offset D L =
     (case put_at (pkt_buf s) (L4C_RTP_HEADER_SIZE + offset) (be16 (of_nat L)) of
        None \<Rightarrow> Overrun
      | Some b1 \<Rightarrow> (case put_at b1 (L4C_RTP_HEADER_SIZE + offset + 2) (take L D) of
          None \<Rightarrow> Overrun
        | Some b2 \<Rightarrow> Run (s\<lparr>pkt_buf := b2, stap_bytes := offset + (2 + L)\<rparr>)))"

definition single_nal ::
  "'c packet_cb \<Rightarrow> rtp_session \<Rightarrow> 'c packetizer \<Rightarrow> bytes \<Rightarrow> nat \<Rightarrow> 'c outcome" where
  "single_nal cb ses s D L =
     (case write_rtp_header (pkt_buf s) ses True (pk_seq s) of
        None \<Rightarrow> Overrun
      | Some b1 \<Rightarrow> (case put_at b1 L4C_RTP_HEADER_SIZE (take L D) of
          None \<Rightarrow> Overrun
        | Some b2 \<Rightarrow>
            (case cb (user_ctx s) (take (L4C_RTP_HEADER_SIZE + L) b2) True of
               (go, c) \<Rightarrow>
                 if \<not> go then Halt L4C_ERR_NETWORK c
                 else Run (s\<lparr>pkt_buf := b2, pk_seq := pk_seq s + 1, user_ctx := c\<rparr>))))"

text \<open>
  The fragment loop: \<open>todo\<close> rounds are left, \<open>first\<close> says whether this is the first one, and
  \<open>payload\<close> is the NAL unit behind its header byte \<open>hdr\<close>.
\<close>

fun fu_loop ::
  "'c packet_cb \<Rightarrow> rtp_session \<Rightarrow> bool \<Rightarrow> u8 \<Rightarrow> bytes \<Rightarrow> nat \<Rightarrow> bool \<Rightarrow> nat \<Rightarrow> nat \<Rightarrow>
     'c packetizer \<Rightarrow> 'c outcome" where
  "fu_loop cb ses last_nal hdr payload payload_len first 0 offset s = Run s"
| "fu_loop cb ses last_nal hdr payload payload_len first (Suc todo) offset s =
     (let frag_size = payload_len - offset;
          frag_size = (if L4C_RTP_MAX_FU_PAYLOAD_SIZE < frag_size then L4C_RTP_MAX_FU_PAYLOAD_SIZE
                       else frag_size);
          is_last_frag = (todo = 0);
          fu_header = (hdr AND 31) OR (if first then 128 else 0) OR (if is_last_frag then 64 else 0);
          marker = (is_last_frag \<and> last_nal) in
      case write_rtp_header (pkt_buf s) ses marker (pk_seq s) of
        None \<Rightarrow> Overrun
      | Some b1 \<Rightarrow> (case put_at b1 L4C_RTP_HEADER_SIZE [(hdr AND 224) OR 28, fu_header] of
          None \<Rightarrow> Overrun
        | Some b2 \<Rightarrow> (case put_at b2 (L4C_RTP_HEADER_SIZE + 2) (slice_at offset frag_size payload) of
            None \<Rightarrow> Overrun
          | Some b3 \<Rightarrow>
              (case cb (user_ctx s) (take (L4C_RTP_HEADER_SIZE + 2 + frag_size) b3) marker of
                 (go, c) \<Rightarrow>
                   if \<not> go then Halt L4C_ERR_NETWORK c
                   else fu_loop cb ses last_nal hdr payload payload_len False todo
                          (offset + frag_size)
                          (s\<lparr>pkt_buf := b3, pk_seq := pk_seq s + 1, user_ctx := c\<rparr>)))))"

fun andthen :: "'c outcome \<Rightarrow> ('c packetizer \<Rightarrow> 'c outcome) \<Rightarrow> 'c outcome" where
  "andthen (Run s) f = f s"
| "andthen Overrun f = Overrun"
| "andthen (Halt st c) f = Halt st c"

definition flush_pending :: "'c packet_cb \<Rightarrow> rtp_session \<Rightarrow> 'c packetizer \<Rightarrow> bool \<Rightarrow> 'c outcome" where
  "flush_pending cb ses s marker = (if 0 < stap_bytes s then flush_stap cb ses s marker else Run s)"

text \<open>The body of the loop for one NAL unit; the count of fragments is computed in 32 bits.\<close>

definition frag_count :: "nat \<Rightarrow> nat" where
  "frag_count payload_len =
     (payload_len + L4C_RTP_MAX_FU_PAYLOAD_SIZE - 1) mod 2 ^ 32 div L4C_RTP_MAX_FU_PAYLOAD_SIZE"

definition packetize_nal ::
  "'c packet_cb \<Rightarrow> rtp_session \<Rightarrow> bool \<Rightarrow> l4c_nal_desc \<Rightarrow> 'c packetizer \<Rightarrow> 'c outcome" where
  "packetize_nal cb ses last_nal nal s =
     (case nal_data nal of
        None \<Rightarrow> Run s
      | Some D \<Rightarrow>
          let L = nal_length nal in
          if L = 0 then Run s
          else if L \<le> L4C_RTP_MAX_PAYLOAD_SIZE then
            if stap_bytes s + (2 + L) \<le> L4C_RTP_MAX_PAYLOAD_SIZE then
              andthen (stap_append s (stap_bytes s) D L)
                (\<lambda>s. if last_nal then flush_stap cb ses s True else Run s)
            else
              andthen (flush_pending cb ses s False)
                (\<lambda>s. if last_nal then single_nal cb ses s D L else stap_append s 0 D L)
          else
            andthen (flush_pending cb ses s False)
              (\<lambda>s. fu_loop cb ses last_nal (D ! 0) (take (L - 1) (drop 1 D)) (L - 1) True
                     (frag_count (L - 1)) 0 s))"

fun packetize_nals ::
  "'c packet_cb \<Rightarrow> rtp_session \<Rightarrow> l4c_nal_desc list \<Rightarrow> 'c packetizer \<Rightarrow> 'c outcome" where
  "packetize_nals cb ses [] s = Run s"
| "packetize_nals cb ses (nal # rest) s =
     andthen (packetize_nal cb ses (rest = []) nal s) (packetize_nals cb ses rest)"

text \<open>\<open>junk\<close> is the uninitialised buffer of 1212 bytes.\<close>

definition l4c_rtp_packetize_au ::
  "bytes \<Rightarrow> l4c_access_unit \<Rightarrow> rtp_session \<Rightarrow> u16 \<Rightarrow> 'c packet_cb \<Rightarrow> 'c \<Rightarrow> 'c outcome" where
  "l4c_rtp_packetize_au junk au ses seq_num_base cb ctx =
     andthen
       (andthen (packetize_nals cb ses (nals au)
            \<lparr>pkt_buf = junk, stap_bytes = 0, pk_seq = seq_num_base, user_ctx = ctx\<rparr>)
          (\<lambda>s. flush_pending cb ses s True))
       (\<lambda>s. Halt L4C_OK (user_ctx s))"

fun count_loop :: "l4c_nal_desc list \<Rightarrow> nat \<Rightarrow> nat \<Rightarrow> nat \<times> nat" where
  "count_loop [] count stap = (count, stap)"
| "count_loop (nal # rest) count stap =
     (let L = nal_length nal in
      if L = 0 then count_loop rest count stap
      else if L \<le> L4C_RTP_MAX_PAYLOAD_SIZE then
        if stap + (2 + L) \<le> L4C_RTP_MAX_PAYLOAD_SIZE then
          (if rest = [] then count_loop rest (count + 1) 0
           else count_loop rest count (stap + (2 + L)))
        else
          let count = (if 0 < stap then count + 1 else count) in
          (if rest = [] then count_loop rest (count + 1) 0 else count_loop rest count (2 + L))
      else
        let count = (if 0 < stap then count + 1 else count) in
        count_loop rest (count + frag_count (L - 1)) 0)"

definition l4c_rtp_count_packets :: "l4c_access_unit \<Rightarrow> nat" where
  "l4c_rtp_count_packets au =
     (case count_loop (nals au) 0 0 of (count, stap) \<Rightarrow> if 0 < stap then count + 1 else count)"

section \<open>The packets of an access unit\<close>

text \<open>
  The abstract result: RFC 6184 payloads with their marker, computed from the NAL units without a
  buffer. A pending aggregate is the list of its NAL units.
\<close>

datatype rtp_payload = Stap "bytes list" | Single bytes | Frag u8 bool bool bytes

definition prefixed :: "bytes \<Rightarrow> bytes" where
  "prefixed n = be16 (of_nat (length n)) @ n"

definition aggregate :: "bytes list \<Rightarrow> bytes" where
  "aggregate g = concat (map prefixed g)"

fun payload_bytes :: "rtp_payload \<Rightarrow> bytes" where
  "payload_bytes (Stap g) = 120 # aggregate g"
| "payload_bytes (Single n) = n"
| "payload_bytes (Frag hdr first final chunk) =
     [(hdr AND 224) OR 28,
      (hdr AND 31) OR (if first then 128 else 0) OR (if final then 64 else 0)] @ chunk"

definition pending :: "bytes list \<Rightarrow> (rtp_payload \<times> bool) list" where
  "pending g = (if g = [] then [] else [(Stap g, False)])"

fun fragments :: "nat \<Rightarrow> bool \<Rightarrow> u8 \<Rightarrow> bool \<Rightarrow> bytes \<Rightarrow> (rtp_payload \<times> bool) list" where
  "fragments 0 last_nal hdr first body = []"
| "fragments (Suc todo) last_nal hdr first body =
     (Frag hdr first (todo = 0) (take 1198 body), todo = 0 \<and> last_nal)
     # fragments todo last_nal hdr False (drop 1198 body)"

fun plan :: "l4c_nal_desc list \<Rightarrow> bytes list \<Rightarrow> (rtp_payload \<times> bool) list" where
  "plan [] g = (if g = [] then [] else [(Stap g, True)])"
| "plan (nal # rest) g =
     (case nal_data nal of
        None \<Rightarrow> plan rest g
      | Some D \<Rightarrow>
          let L = nal_length nal; n = take L D in
          if L = 0 then plan rest g
          else if L \<le> 1200 then
            if length (aggregate g) + (2 + L) \<le> 1200 then
              (if rest = [] then [(Stap (g @ [n]), True)] else plan rest (g @ [n]))
            else pending g @ (if rest = [] then [(Single n, True)] else plan rest [n])
          else pending g @ fragments (frag_count (L - 1)) (rest = []) (D ! 0) True (tl n)
               @ plan rest [])"

text \<open>
  Sending a list of payloads: a packet larger than the buffer is an overrun, a callback that
  refuses ends the transfer, otherwise the next packet has the next sequence number.
\<close>

fun deliver ::
  "'c packet_cb \<Rightarrow> rtp_session \<Rightarrow> (rtp_payload \<times> bool) list \<Rightarrow> u16 \<Rightarrow> 'c \<Rightarrow>
     (u16 \<Rightarrow> 'c \<Rightarrow> 'c outcome) \<Rightarrow> 'c outcome" where
  "deliver cb ses [] seq c k = k seq c"
| "deliver cb ses ((f, m) # fs) seq c k =
     (if 1200 < length (payload_bytes f) then Overrun
      else case cb c (rtp_header ses m seq @ payload_bytes f) m of
             (go, c') \<Rightarrow> if \<not> go then Halt L4C_ERR_NETWORK c'
                         else deliver cb ses fs (seq + 1) c' k)"

lemma andthen_assoc: "andthen (andthen x f) k = andthen x (\<lambda>s. andthen (f s) k)"
  by (cases x) auto

lemma deliver_append:
  "deliver cb ses (xs @ ys) seq c k = deliver cb ses xs seq c (\<lambda>seq c. deliver cb ses ys seq c k)"
  by (induction xs arbitrary: seq c) (auto split: prod.split)

section \<open>The buffer against the list of packets\<close>

lemma rtp_header_length [simp, wire_len]: "length (rtp_header ses m seq) = 12"
  by (simp add: rtp_header_def)

lemma aggregate_Nil [simp]: "aggregate [] = []"
  by (simp add: aggregate_def)

lemma aggregate_snoc [simp]: "aggregate (g @ [n]) = aggregate g @ prefixed n"
  by (simp add: aggregate_def)

lemma aggregate_single [simp]: "aggregate [n] = prefixed n"
  by (simp add: aggregate_def)

lemma prefixed_length [simp]: "length (prefixed n) = 2 + length n"
  by (simp add: prefixed_def)

lemma aggregate_empty_iff [simp]: "aggregate g = [] \<longleftrightarrow> g = []"
  by (cases g) (auto simp: aggregate_def prefixed_def be16_def)

text \<open>The state \<open>s\<close> of the code holds the aggregate \<open>g\<close> behind the header of its buffer.\<close>

definition holds :: "'c packetizer \<Rightarrow> bytes list \<Rightarrow> bool" where
  "holds s g \<longleftrightarrow> length (pkt_buf s) = 1212 \<and> stap_bytes s = length (aggregate g) \<and>
     length (aggregate g) \<le> 1200 \<and> slice_at 12 (length (aggregate g)) (pkt_buf s) = aggregate g"

lemma holds_cleared:
  "length b = 1212 \<Longrightarrow> holds \<lparr>pkt_buf = b, stap_bytes = 0, pk_seq = q, user_ctx = c\<rparr> []"
  by (simp add: holds_def slice_at_def)

lemma put_at_fits: "off + length xs \<le> length b \<Longrightarrow>
    put_at b off xs = Some (take off b @ xs @ drop (off + length xs) b)"
  by (simp add: put_at_def)

lemma write_header_fits:
  "length b = 1212 \<Longrightarrow>
     write_rtp_header b ses m seq = Some (rtp_header ses m seq @ drop 12 b)"
  by (simp add: write_rtp_header_def put_at_def)

lemma stap_append_holds:
  assumes "holds s g" "length D = L" "length (aggregate g) + (2 + L) \<le> 1200"
  obtains s' where "stap_append s (length (aggregate g)) D L = Run s'" "holds s' (g @ [D])"
    "pk_seq s' = pk_seq s" "user_ctx s' = user_ctx s"
proof -
  let ?n = "length (aggregate g)"
  let ?b1 = "take (12 + ?n) (pkt_buf s) @ be16 (of_nat L) @ drop (12 + ?n + 2) (pkt_buf s)"
  let ?b2 = "take (12 + ?n) (pkt_buf s) @ be16 (of_nat L) @ D @ drop (14 + ?n + L) (pkt_buf s)"
  let ?s = "s\<lparr>pkt_buf := ?b2, stap_bytes := ?n + (2 + L)\<rparr>"
  have len: "length (pkt_buf s) = 1212" using assms(1) by (simp add: holds_def)
  have 1: "put_at (pkt_buf s) (12 + ?n) (be16 (of_nat L)) = Some ?b1"
    using assms len by (simp add: put_at_fits)
  have 2: "put_at ?b1 (12 + ?n + 2) D = Some ?b2"
    using assms len by (simp add: put_at_def min_absorb2 add.commute add.left_commute)
  have run: "stap_append s ?n D L = Run ?s"
    using assms(2) by (simp only: stap_append_def 1 2 option.case take_all order_refl)
  have "take ?n (drop 12 (pkt_buf s)) = aggregate g"
    using assms(1) by (simp add: holds_def slice_at_def)
  then have "holds ?s (g @ [D])"
    using assms len by (simp add: holds_def slice_at_def prefixed_def min_absorb2 drop_take)
  then show ?thesis using that run by simp
qed

lemma flush_stap_deliver:
  assumes "holds s g" "g \<noteq> []"
    and k: "\<And>s'. holds s' [] \<Longrightarrow> k s' = k' (pk_seq s') (user_ctx s')"
  shows "andthen (flush_stap cb ses s m) k = deliver cb ses [(Stap g, m)] (pk_seq s) (user_ctx s) k'"
proof (cases "1199 < length (aggregate g)")
  case True
  then have "put_at (pkt_buf s) 13 (slice_at 12 (stap_bytes s) (pkt_buf s)) = None"
    using assms(1) by (simp add: holds_def put_at_None_iff)
  then show ?thesis using True by (simp add: flush_stap_def)
next
  case False
  let ?n = "length (aggregate g)"
  let ?b1 = "take 13 (pkt_buf s) @ aggregate g @ drop (13 + ?n) (pkt_buf s)"
  let ?b2 = "take 12 (pkt_buf s) @ [120] @ aggregate g @ drop (13 + ?n) (pkt_buf s)"
  let ?b3 = "rtp_header ses m (pk_seq s) @ [120] @ aggregate g @ drop (13 + ?n) (pkt_buf s)"
  have h: "length (pkt_buf s) = 1212" "stap_bytes s = ?n"
    "slice_at 12 (stap_bytes s) (pkt_buf s) = aggregate g"
    using assms(1) by (simp_all add: holds_def)
  have 1: "put_at (pkt_buf s) (12 + 1) (slice_at 12 (stap_bytes s) (pkt_buf s)) = Some ?b1"
    using False h by (simp add: put_at_fits)
  have 2: "put_at ?b1 12 [120] = Some ?b2"
    using False h(1) by (simp add: put_at_def min_absorb2)
  have 3: "write_rtp_header ?b2 ses m (pk_seq s) = Some ?b3"
    using False h(1) by (subst write_header_fits) auto
  have cut: "take (12 + 1 + stap_bytes s) ?b3 = rtp_header ses m (pk_seq s) @ payload_bytes (Stap g)"
    using h(2) by simp
  let ?s = "\<lambda>c. s\<lparr>pkt_buf := ?b3, stap_bytes := 0, pk_seq := pk_seq s + 1, user_ctx := c\<rparr>"
  have "holds (?s c) []" for c using False h(1) by (simp add: holds_def slice_at_def)
  then have "k (?s c) = k' (pk_seq s + 1) c" for c using k [of "?s c"] by simp
  then show ?thesis
    using False unfolding flush_stap_def 1 2 3 cut option.case
    by (auto split: prod.split)
qed

lemma flush_pending_deliver:
  assumes "holds s g" and k: "\<And>s'. holds s' [] \<Longrightarrow> k s' = k' (pk_seq s') (user_ctx s')"
  shows "andthen (flush_pending cb ses s False) k
         = deliver cb ses (pending g) (pk_seq s) (user_ctx s) k'"
proof (cases "g = []")
  case True
  then show ?thesis using assms by (simp add: flush_pending_def pending_def holds_def)
next
  case False
  then have "0 < stap_bytes s" using assms(1) by (simp add: holds_def)
  then show ?thesis
    using flush_stap_deliver [where k = k and k' = k', OF assms(1) False k] False
    by (simp add: flush_pending_def pending_def)
qed

lemma single_nal_deliver:
  assumes "holds s []" "length D = L" "L \<le> 1200"
    and k: "\<And>s'. holds s' [] \<Longrightarrow> k s' = k' (pk_seq s') (user_ctx s')"
  shows "andthen (single_nal cb ses s D L) k
         = deliver cb ses [(Single D, True)] (pk_seq s) (user_ctx s) k'"
proof -
  let ?h = "rtp_header ses True (pk_seq s)"
  let ?b2 = "?h @ D @ drop (12 + L) (pkt_buf s)"
  have len: "length (pkt_buf s) = 1212" "stap_bytes s = 0" using assms(1) by (simp_all add: holds_def)
  have 1: "write_rtp_header (pkt_buf s) ses True (pk_seq s) = Some (?h @ drop 12 (pkt_buf s))"
    using len by (simp add: write_header_fits)
  have 2: "put_at (?h @ drop 12 (pkt_buf s)) 12 D = Some ?b2"
    using len assms by (simp add: put_at_def add.commute)
  have cut: "take (12 + L) ?b2 = ?h @ D" using assms(2) by simp
  let ?s = "\<lambda>c. s\<lparr>pkt_buf := ?b2, pk_seq := pk_seq s + 1, user_ctx := c\<rparr>"
  have "holds (?s c) []" for c using assms len by (simp add: holds_def slice_at_def)
  then have "k (?s c) = k' (pk_seq s + 1) c" for c using k [of "?s c"] by simp
  moreover have "take L D = D" using assms by simp
  ultimately show ?thesis
    using assms unfolding single_nal_def 1 option.case
    by (simp add: 2 cut split: prod.split del: append_take_drop_id)
qed

lemma fu_loop_deliver:
  assumes "holds s []" "offset \<le> length body" "length body - offset \<le> todo * 1198"
    and k: "\<And>s'. holds s' [] \<Longrightarrow> k s' = k' (pk_seq s') (user_ctx s')"
  shows "andthen (fu_loop cb ses last_nal hdr body (length body) first todo offset s) k
         = deliver cb ses (fragments todo last_nal hdr first (drop offset body))
             (pk_seq s) (user_ctx s) k'"
  using assms(1-3)
proof (induction todo arbitrary: first offset s)
  case 0
  then show ?case by (simp add: k)
next
  case (Suc todo)
  define n where "n = min (length body - offset) 1198"
  define chunk where "chunk = take 1198 (drop offset body)"
  define m where "m = (todo = 0 \<and> last_nal)"
  define b where "b = payload_bytes (Frag hdr first (todo = 0) chunk)"
  let ?h = "rtp_header ses m (pk_seq s)"
  let ?two = "[(hdr AND 224) OR 28,
    (hdr AND 31) OR (if first then 128 else 0) OR (if todo = 0 then 64 else 0)]"
  let ?b3 = "?h @ b @ drop (14 + n) (pkt_buf s)"
  have len: "length (pkt_buf s) = 1212" "stap_bytes s = 0"
    using Suc.prems(1) by (simp_all add: holds_def)
  have n: "(if 1198 < length body - offset then 1198 else length body - offset) = n"
    by (simp add: n_def)
  have chunk: "slice_at offset n body = chunk" "length chunk = n" "n \<le> 1198"
    by (auto simp: slice_at_def chunk_def n_def min_def)
  have blen: "length b = 2 + n" using chunk by (simp add: b_def)
  have 1: "write_rtp_header (pkt_buf s) ses m (pk_seq s) = Some (?h @ drop 12 (pkt_buf s))"
    using len by (simp add: write_header_fits)
  have 2: "put_at (?h @ drop 12 (pkt_buf s)) 12 ?two = Some (?h @ ?two @ drop 14 (pkt_buf s))"
    using len by (simp add: put_at_def)
  have 3: "put_at (?h @ ?two @ drop 14 (pkt_buf s)) (12 + 2) chunk = Some ?b3"
    using len chunk by (simp add: put_at_def b_def add.commute)
  have cut: "take (12 + 2 + n) ?b3 = ?h @ b" using blen by simp
  let ?s = "\<lambda>c. s\<lparr>pkt_buf := ?b3, pk_seq := pk_seq s + 1, user_ctx := c\<rparr>"
  have "holds (?s c) []" for c using len chunk blen by (simp add: holds_def slice_at_def)
  moreover have "offset + n \<le> length body" "length body - (offset + n) \<le> todo * 1198"
    using Suc.prems(2,3) by (auto simp: n_def min_def)
  ultimately have IH: "andthen (fu_loop cb ses last_nal hdr body (length body) False todo (offset + n)
        (?s c)) k
      = deliver cb ses (fragments todo last_nal hdr False (drop (offset + n) body))
          (pk_seq s + 1) c k'" for c
    using Suc.IH [of "?s c" "offset + n" False] by simp
  have "drop (offset + n) body = drop 1198 (drop offset body)"
    by (auto simp: n_def min_def add.commute)
  then have frs: "fragments (Suc todo) last_nal hdr first (drop offset body)
      = (Frag hdr first (todo = 0) chunk, m)
        # fragments todo last_nal hdr False (drop (offset + n) body)"
    by (simp add: chunk_def m_def)
  show ?case
    using chunk(3) unfolding fu_loop.simps Let_def n frs m_def [symmetric] 1 2 3 chunk(1)
      option.case cut deliver.simps b_def [symmetric] blen
    by (auto simp: IH split: prod.split)
qed

text \<open>
  A NAL unit the code can read: its data covers its length, and the length is within
  \<open>L4C_MAX_AU_SIZE\<close>, so the count of fragments does not wrap.
\<close>

definition nal_ok :: "l4c_nal_desc \<Rightarrow> bool" where
  "nal_ok nal \<longleftrightarrow> nal_length nal \<le> 2097152 \<and>
     (case nal_data nal of None \<Rightarrow> True | Some D \<Rightarrow> nal_length nal \<le> length D)"

lemma frag_count_eq: "n \<le> 2097152 \<Longrightarrow> frag_count n = (n + 1197) div 1198"
  by (simp add: frag_count_def)

lemma frag_count_covers: "n \<le> 2097152 \<Longrightarrow> n \<le> frag_count n * 1198"
  using div_mult_mod_eq [of "n + 1197" 1198] mod_less_divisor [of 1198 "n + 1197"]
  by (simp add: frag_count_eq)

lemma plan_oversized:
  assumes "1200 \<le> length (aggregate g)"
  shows "deliver cb ses (plan ns g) seq c k = Overrun"
  using assms
proof (induction ns)
  case (Cons nal rest)
  then have "g \<noteq> []" by auto
  then show ?case using Cons by (auto simp: pending_def Let_def split: option.split)
qed auto

lemma aggregate_start_overrun:
  assumes "holds s []" "length D = L" "1198 < L"
  shows "stap_append s 0 D L = Overrun"
  using assms by (auto simp: stap_append_def holds_def put_at_def split: option.split)

lemma stap_append_start:
  assumes "holds s []" "length D = L" "0 < L" "L \<le> 1200"
    and IH: "\<And>s'. holds s' [D] \<Longrightarrow> k s' = deliver cb ses (plan rest [D]) (pk_seq s') (user_ctx s') k'"
  shows "andthen (stap_append s 0 D L) k = deliver cb ses (plan rest [D]) (pk_seq s) (user_ctx s) k'"
proof (cases "L \<le> 1198")
  case True
  then obtain s' where "stap_append s 0 D L = Run s'" "holds s' [D]" "pk_seq s' = pk_seq s"
      "user_ctx s' = user_ctx s"
    using stap_append_holds [OF assms(1,2)] by (auto simp: assms)
  then show ?thesis using IH by simp
next
  case False
  then show ?thesis
    using aggregate_start_overrun [OF assms(1,2)] assms by (simp add: plan_oversized)
qed

lemma packetize_nal_deliver:
  assumes "holds s g" "nal_ok nal"
    and k: "\<And>s' g'. holds s' g' \<Longrightarrow> k s' = deliver cb ses (plan rest g') (pk_seq s') (user_ctx s') k'"
  shows "andthen (packetize_nal cb ses (rest = []) nal s) k
         = deliver cb ses (plan (nal # rest) g) (pk_seq s) (user_ctx s) k'"
proof (cases "nal_data nal")
  case None
  then show ?thesis using assms by (simp add: packetize_nal_def)
next
  case (Some D0)
  define L where "L = nal_length nal"
  define D where "D = take L D0"
  have lens: "length D = L" "stap_bytes s = length (aggregate g)"
    using assms(1,2) Some by (auto simp: nal_ok_def L_def D_def holds_def)
  have take_D: "stap_append t off D0 L = stap_append t off D L"
    "single_nal cb ses t D0 L = single_nal cb ses t D L" for t :: "'a packetizer" and off
    by (simp_all only: stap_append_def single_nal_def D_def take_take min.idem)
  have k0: "k s' = k' (pk_seq s') (user_ctx s')" if "rest = []" "holds s' []" for s'
    using k [OF that(2)] that(1) by simp
  consider "L = 0" | "0 < L" "L \<le> 1200" "length (aggregate g) + (2 + L) \<le> 1200"
    | "0 < L" "L \<le> 1200" "1200 < length (aggregate g) + (2 + L)" | "1200 < L"
    by fastforce
  then show ?thesis
  proof cases
    case 1
    then show ?thesis using assms Some by (simp add: packetize_nal_def L_def)
  next
    case 2
    then obtain s' where s': "stap_append s (length (aggregate g)) D L = Run s'"
        "holds s' (g @ [D])" "pk_seq s' = pk_seq s" "user_ctx s' = user_ctx s"
      using stap_append_holds [OF assms(1) lens(1)] by blast
    have "andthen (flush_stap cb ses s' True) k
        = deliver cb ses [(Stap (g @ [D]), True)] (pk_seq s) (user_ctx s) k'" if "rest = []"
      using flush_stap_deliver [where k = k and k' = k', OF s'(2)] k0 [OF that] s'(3,4) by simp
    then show ?thesis
      using 2 s' k [OF s'(2)]
      by (simp add: packetize_nal_def Some lens take_D flip: L_def D_def)
  next
    case 3
    let ?k = "\<lambda>s. andthen (if rest = [] then single_nal cb ses s D L else stap_append s 0 D L) k"
    let ?k' = "\<lambda>q c. deliver cb ses (if rest = [] then [(Single D, True)] else plan rest [D]) q c k'"
    have tail: "?k s' = ?k' (pk_seq s') (user_ctx s')" if "holds s' []" for s'
      using single_nal_deliver [where k = k and k' = k', OF that lens(1) 3(2)] k0
        stap_append_start [where k = k, OF that lens(1) 3(1,2) k] by simp
    show ?thesis
      using 3 flush_pending_deliver [where k = ?k and k' = ?k', OF assms(1) tail]
      by (cases "rest = []")
        (simp_all add: packetize_nal_def Some lens take_D andthen_assoc deliver_append flip: L_def D_def)
  next
    case 4
    let ?fr = "fragments (frag_count (L - 1)) (rest = []) (D0 ! 0) True (tl D)"
    let ?k = "\<lambda>s. andthen (fu_loop cb ses (rest = []) (D0 ! 0) (take (L - 1) (drop 1 D0)) (L - 1)
        True (frag_count (L - 1)) 0 s) k"
    let ?k' = "\<lambda>q c. deliver cb ses (?fr @ plan rest []) q c k'"
    have body: "take (L - 1) (drop 1 D0) = tl D" "length (tl D) = L - 1"
      using 4 lens(1) by (simp_all add: D_def drop_Suc tl_take)
    have "L \<le> 2097152" using assms(2) by (simp add: nal_ok_def L_def)
    then have "L - 1 \<le> frag_count (L - 1) * 1198" by (intro frag_count_covers) linarith
    then have tail: "?k s' = ?k' (pk_seq s') (user_ctx s')" if "holds s' []" for s'
      using fu_loop_deliver [where k = k and offset = 0 and body = "tl D"
          and k' = "\<lambda>q c. deliver cb ses (plan rest []) q c k'", OF that] k
      by (simp add: body [simplified] lens(1) deliver_append)
    show ?thesis
      using 4 flush_pending_deliver [where k = ?k and k' = ?k', OF assms(1) tail]
      by (simp add: packetize_nal_def Some andthen_assoc deliver_append flip: L_def D_def)
  qed
qed

lemma packetize_nals_deliver:
  assumes "holds s g" "\<forall>nal\<in>set ns. nal_ok nal"
  shows "andthen (andthen (packetize_nals cb ses ns s) (\<lambda>s. flush_pending cb ses s True))
           (\<lambda>s. Halt L4C_OK (user_ctx s))
         = deliver cb ses (plan ns g) (pk_seq s) (user_ctx s) (\<lambda>q c. Halt L4C_OK c)"
  using assms
proof (induction ns arbitrary: s g)
  case Nil
  show ?case
  proof (cases "g = []")
    case True
    then show ?thesis using Nil by (simp add: flush_pending_def holds_def)
  next
    case False
    then have "0 < stap_bytes s" using Nil by (simp add: holds_def)
    then show ?thesis
      using flush_stap_deliver [where k' = "\<lambda>q c. Halt L4C_OK c" and k = "\<lambda>s. Halt L4C_OK (user_ctx s)",
          OF Nil(1) False] False
      by (simp add: flush_pending_def)
  qed
next
  case (Cons nal rest)
  let ?k = "\<lambda>s. andthen (andthen (packetize_nals cb ses rest s) (\<lambda>s. flush_pending cb ses s True))
    (\<lambda>s. Halt L4C_OK (user_ctx s))"
  show ?case
    using packetize_nal_deliver [where k = ?k and rest = rest, OF Cons.prems(1) _ Cons.IH] Cons.prems(2)
    by (simp add: andthen_assoc)
qed

text \<open>
  the packetizer refines its plan. For readable NAL units the code hands the callback exactly
  the planned packets, each behind an RTP header with consecutive sequence numbers, stops at the
  first one the callback refuses, and overruns its buffer exactly when it reaches a planned packet
  of more than 1212 bytes.
\<close>

theorem packetize_delivers_plan:
  assumes "length junk = 1212" "\<forall>nal\<in>set (nals au). nal_ok nal"
  shows "l4c_rtp_packetize_au junk au ses seq cb ctx
         = deliver cb ses (plan (nals au) []) seq ctx (\<lambda>q c. Halt L4C_OK c)"
  using packetize_nals_deliver [OF holds_cleared [OF assms(1)] assms(2)]
  by (simp add: l4c_rtp_packetize_au_def)

theorem packetize_delivers_plan_witness:
  "l4c_rtp_packetize_au (replicate 1212 0)
     \<lparr>nals = [\<lparr>nal_data = Some [101, 1, 2], nal_length = 3\<rparr>,
              \<lparr>nal_data = Some [65, 7], nal_length = 2\<rparr>], pts_ms = 0\<rparr>
     \<lparr>payload_type = 96, rtp_timestamp = 90000, ssrc = 1\<rparr> 65535
     (\<lambda>c pkt final. (True, c @ [(pkt, final)])) []
   = Halt L4C_OK [([128, 224, 255, 255, 0, 1, 95, 144, 0, 0, 0, 1,
                    120, 0, 3, 101, 1, 2, 0, 2, 65, 7], True)]"
proof -
  let ?au = "\<lparr>nals = [\<lparr>nal_data = Some [101, 1, 2], nal_length = 3\<rparr>,
              \<lparr>nal_data = Some [65, 7], nal_length = 2\<rparr>], pts_ms = 0\<rparr>"
  have "l4c_rtp_packetize_au (replicate 1212 0) ?au ses seq cb ctx
      = deliver cb ses (plan (nals ?au) []) seq ctx (\<lambda>q c. Halt L4C_OK c)"
    for ses seq and cb :: "(bytes \<times> bool) list packet_cb" and ctx
    by (rule packetize_delivers_plan) (simp_all add: nal_ok_def)
  then show ?thesis
    by (simp add: rtp_header_def aggregate_def prefixed_def be16_def be32_def)
qed

section \<open>The number of packets and the marker\<close>

text \<open>The code counts a NAL unit by its length alone, so a length comes with data.\<close>

definition nal_present :: "l4c_nal_desc \<Rightarrow> bool" where
  "nal_present nal \<longleftrightarrow> nal_ok nal \<and> (nal_data nal = None \<longrightarrow> nal_length nal = 0)"

lemma fragments_length [simp]: "length (fragments n l hdr f body) = n"
  by (induction n arbitrary: f body) simp_all

lemma fragments_empty_iff [simp]: "fragments n l hdr f body = [] \<longleftrightarrow> n = 0"
  by (cases n) simp_all

lemma pending_length: "length (pending g) = (if 0 < length (aggregate g) then 1 else 0)"
  by (simp add: pending_def)

lemma nal_present_cases:
  assumes "nal_present nal"
  obtains "nal_length nal = 0"
  | D where "nal_data nal = Some D" "0 < nal_length nal" "length (take (nal_length nal) D) = nal_length nal"
  using assms by (cases "nal_data nal") (auto simp: nal_present_def nal_ok_def)

lemma count_loop_plan:
  assumes "\<forall>nal\<in>set ns. nal_present nal"
  shows "(case count_loop ns count (length (aggregate g)) of (c, st) \<Rightarrow> if 0 < st then c + 1 else c)
         = count + length (plan ns g)"
  using assms
proof (induction ns arbitrary: count g)
  case Nil
  then show ?case by simp
next
  case (Cons nal rest)
  have IH: "(case count_loop rest count (length (aggregate g)) of (c, st) \<Rightarrow> if 0 < st then c + 1 else c)
         = count + length (plan rest g)" for count g
    using Cons by simp
  from IH [of _ "[]"] have IH0: "(case count_loop rest count 0 of (c, st) \<Rightarrow> if 0 < st then c + 1 else c)
         = count + length (plan rest [])" for count
    by simp
  have "nal_present nal" using Cons by simp
  then show ?case
  proof (cases rule: nal_present_cases)
    case 1
    then show ?thesis using IH by (cases "nal_data nal") simp_all
  next
    case (2 D)
    let ?L = "nal_length nal"
    let ?n = "take ?L D"
    have "length (aggregate [?n]) = 2 + ?L" "length (aggregate (g @ [?n])) = length (aggregate g) + (2 + ?L)"
      using 2 by simp_all
    then show ?thesis
      using 2 IH [of _ "[?n]"] IH [of _ "g @ [?n]"] IH0
      by (cases "rest = []") (simp_all add: Let_def pending_length)
  qed
qed

definition unmarked :: "(rtp_payload \<times> bool) list \<Rightarrow> bool" where
  "unmarked fs \<longleftrightarrow> (\<forall>(f, m) \<in> set fs. \<not> m)"

lemma unmarked_simps [simp]:
  "unmarked []" "unmarked ((f, m) # fs) \<longleftrightarrow> \<not> m \<and> unmarked fs"
  "unmarked (xs @ ys) \<longleftrightarrow> unmarked xs \<and> unmarked ys" "unmarked (pending g)"
  "unmarked (butlast (pending g))"
  by (auto simp: unmarked_def pending_def)

lemma fragments_marks:
  "unmarked (butlast (fragments n l hdr f body))" "unmarked (fragments n False hdr f body)"
proof (induction n arbitrary: f body)
  case (Suc n)
  { case 1 then show ?case using Suc by auto }
  { case 2 then show ?case using Suc by simp }
qed auto

lemma fragments_last: "0 < n \<Longrightarrow> snd (last (fragments n l hdr f body)) = l"
proof (induction n arbitrary: f body)
  case (Suc n)
  then show ?case by auto
qed simp

lemma plan_marks: "unmarked (butlast (plan ns g))"
proof (induction ns arbitrary: g)
  case (Cons nal rest)
  then show ?case
    by (auto simp: Let_def butlast_append fragments_marks split: option.split)
qed simp

lemma plan_last_marked:
  assumes "ns \<noteq> []" "nal_present (last ns)" "0 < nal_length (last ns)"
  shows "plan ns g \<noteq> [] \<and> snd (last (plan ns g))"
  using assms
proof (induction ns arbitrary: g)
  case (Cons nal rest)
  show ?case
  proof (cases "rest = []")
    case True
    have "nal_length nal \<le> 2097152" "1200 < nal_length nal \<Longrightarrow> 0 < frag_count (nal_length nal - 1)"
      using Cons.prems True by (auto simp: nal_present_def nal_ok_def frag_count_eq div_greater_zero_iff)
    moreover obtain D where "nal_data nal = Some D"
      using Cons.prems True by (auto simp: nal_present_def)
    ultimately show ?thesis
      using Cons.prems True by (auto simp: Let_def fragments_last)
  next
    case False
    then show ?thesis using Cons by (auto simp: Let_def split: option.split)
  qed
qed simp

text \<open>
  the sender advances its sequence counter by \<open>l4c_rtp_count_packets\<close>. That number is the
  number of packets the packetizer plans, every packet but the last has a clear marker, and the
  last one has it set when the last NAL unit of the access unit is not empty.
\<close>

theorem packet_count_and_marker:
  assumes "\<forall>nal\<in>set (nals au). nal_present nal"
  shows "l4c_rtp_count_packets au = length (plan (nals au) [])
    \<and> (\<forall>i. i + 1 < length (plan (nals au) []) \<longrightarrow> \<not> snd (plan (nals au) [] ! i))
    \<and> (nals au \<noteq> [] \<longrightarrow> 0 < nal_length (last (nals au)) \<longrightarrow> snd (last (plan (nals au) [])))"
proof (intro conjI allI impI)
  show "l4c_rtp_count_packets au = length (plan (nals au) [])"
    using count_loop_plan [OF assms, of 0 "[]"] by (simp add: l4c_rtp_count_packets_def)
next
  fix i assume i: "i + 1 < length (plan (nals au) [])"
  have "butlast (plan (nals au) []) ! i \<in> set (butlast (plan (nals au) []))"
    using i by (intro nth_mem) simp
  then have "\<not> snd (butlast (plan (nals au) []) ! i)"
    using plan_marks [of "nals au" "[]"] by (auto simp: unmarked_def case_prod_beta)
  then show "\<not> snd (plan (nals au) [] ! i)" using i by (simp add: nth_butlast)
next
  assume "nals au \<noteq> []" "0 < nal_length (last (nals au))"
  then show "snd (last (plan (nals au) []))" using plan_last_marked assms by simp
qed

theorem packet_count_and_marker_witness:
  "l4c_rtp_count_packets \<lparr>nals = [\<lparr>nal_data = Some (replicate 2400 65), nal_length = 2400\<rparr>,
      \<lparr>nal_data = Some [65, 7], nal_length = 2\<rparr>], pts_ms = 0\<rparr> = 4
   \<and> \<not> snd (plan [\<lparr>nal_data = Some (replicate 2400 65), nal_length = 2400\<rparr>,
      \<lparr>nal_data = Some [65, 7], nal_length = 2\<rparr>] [] ! 2)
   \<and> snd (last (plan [\<lparr>nal_data = Some (replicate 2400 65), nal_length = 2400\<rparr>,
      \<lparr>nal_data = Some [65, 7], nal_length = 2\<rparr>] []))"
proof -
  let ?au = "\<lparr>nals = [\<lparr>nal_data = Some (replicate 2400 65), nal_length = 2400\<rparr>,
      \<lparr>nal_data = Some [65, 7], nal_length = 2\<rparr>], pts_ms = 0\<rparr>"
  have "\<forall>nal\<in>set (nals ?au). nal_present nal" by (simp add: nal_present_def nal_ok_def)
  note counted = packet_count_and_marker [OF this]
  have n: "l4c_rtp_count_packets ?au = 4"
    by (simp add: l4c_rtp_count_packets_def frag_count_def)
  then have "length (plan (nals ?au) []) = 4" using counted by metis
  moreover from this have "\<not> snd (plan (nals ?au) [] ! 2)"
    using conjunct1 [OF conjunct2 [OF counted], rule_format, of 2] by simp
  moreover have "snd (last (plan (nals ?au) []))" using counted by simp
  ultimately show ?thesis using n by simp
qed

section \<open>An RFC 6184 receiver\<close>

text \<open>
  What a receiver does with the payloads in sequence: a STAP-A payload (type 24) is cut at its
  length prefixes, FU-A payloads (type 28) are joined from the one with the start bit to the one
  with the end bit, types 1 to 23 are NAL units themselves. \<open>part\<close> is the unit being joined.
\<close>

fun unstap :: "bytes \<Rightarrow> bytes list option" where
  "unstap [] = Some []"
| "unstap [a] = None"
| "unstap (a # b # r) =
     (let n = unat (rd_be16 a b) in
      if n = 0 \<or> length r < n then None
      else map_option ((#) (take n r)) (unstap (drop n r)))"

fun receive :: "bytes list \<Rightarrow> bytes option \<Rightarrow> bytes list option" where
  "receive [] part = (if part = None then Some [] else None)"
| "receive ([] # ps) part = None"
| "receive ((ind # body) # ps) part =
     (if ind AND 31 = 24 then
        (if part \<noteq> None then None
         else case unstap body of None \<Rightarrow> None
              | Some ns \<Rightarrow> map_option ((@) ns) (receive ps None))
      else if ind AND 31 = 28 then
        (case body of [] \<Rightarrow> None
         | fh # chunk \<Rightarrow>
             (case (if \<not> bit fh 7 then part
                    else if part = None then Some [(ind AND 224) OR (fh AND 31)] else None) of
                None \<Rightarrow> None
              | Some q \<Rightarrow> if bit fh 6 then map_option ((#) (q @ chunk)) (receive ps None)
                          else receive ps (Some (q @ chunk))))
      else if 1 \<le> ind AND 31 \<and> ind AND 31 \<le> 23 \<and> part = None
        then map_option ((#) (ind # body)) (receive ps None)
      else None)"

abbreviation payloads :: "(rtp_payload \<times> bool) list \<Rightarrow> bytes list" where
  "payloads fs \<equiv> map (\<lambda>a. payload_bytes (fst a)) fs"

fun nal_units :: "l4c_nal_desc list \<Rightarrow> bytes list" where
  "nal_units [] = []"
| "nal_units (nal # rest) =
     (case nal_data nal of None \<Rightarrow> nal_units rest
      | Some D \<Rightarrow> if nal_length nal = 0 then nal_units rest
                  else take (nal_length nal) D # nal_units rest)"

lemma bit_below_8:
  "(P 0 \<and> P 1 \<and> P 2 \<and> P 3 \<and> P 4 \<and> P 5 \<and> P 6 \<and> P 7) \<Longrightarrow> n < 8 \<Longrightarrow> P (n :: nat)"
  by (auto simp: less_Suc_eq numeral_eq_Suc)

lemma u8_eqI:
  assumes "bit a 0 = bit b 0" "bit a 1 = bit b 1" "bit a 2 = bit b 2" "bit a 3 = bit b 3"
    "bit a 4 = bit b 4" "bit a 5 = bit b 5" "bit a 6 = bit b 6" "bit a 7 = bit b 7"
  shows "a = (b :: u8)"
proof (rule bit_word_eqI)
  fix n assume "n < LENGTH(8)"
  then show "bit a n = bit b n"
    using bit_below_8 [of "\<lambda>n. bit a n = bit b n" n] assms by simp
qed

lemma fu_indicator_type: "((hdr AND 224) OR 28) AND 31 = (28 :: u8)"
  by (rule u8_eqI) (simp_all add: bit_simps)

lemma fu_header_restores:
  "(((hdr AND 224) OR 28) AND 224)
     OR (((hdr AND 31) OR (if first then 128 else 0) OR (if final then 64 else 0)) AND 31) = (hdr :: u8)"
  by (rule u8_eqI) (auto simp: bit_simps)

lemma fu_start_bit:
  "bit ((hdr AND 31) OR (if first then 128 else 0) OR (if final then 64 else 0) :: u8) 7 = first"
  by (auto simp: bit_simps)

lemma fu_end_bit:
  "bit ((hdr AND 31) OR (if first then 128 else 0) OR (if final then 64 else 0) :: u8) 6 = final"
  by (auto simp: bit_simps)

lemma receive_fu:
  assumes "part = (if first then None else Some q)"
    and "u = (if first then [hdr] else q) @ chunk"
  shows "receive (payload_bytes (Frag hdr first final chunk) # ps) part
         = (if final then map_option ((#) u) (receive ps None) else receive ps (Some u))"
proof -
  define fh where "fh = (hdr AND 31) OR (if first then 128 else 0) OR (if final then 64 else 0)"
  have "bit fh 7 = first" "bit fh 6 = final" "(((hdr AND 224) OR 28) AND 224) OR (fh AND 31) = hdr"
    by (simp_all only: fh_def fu_start_bit fu_end_bit fu_header_restores)
  then show ?thesis
    using assms unfolding payload_bytes.simps fh_def [symmetric] by (simp add: fu_indicator_type)
qed

lemma receive_fragments:
  assumes "length body \<le> n * 1198" "0 < n" "part = (if first then None else Some q)"
  shows "receive (payloads (fragments n l hdr first body) @ ps) part
         = map_option ((#) ((if first then [hdr] else q) @ body)) (receive ps None)"
  using assms
proof (induction n arbitrary: first q part body)
  case (Suc n)
  let ?u = "(if first then [hdr] else q) @ take 1198 body"
  note step = receive_fu [where part = part and first = first and q = q and hdr = hdr
      and chunk = "take 1198 body", OF Suc.prems(3) refl]
  show ?case
  proof (cases "n = 0")
    case True
    then show ?thesis using step Suc.prems(1) by (simp del: payload_bytes.simps receive.simps)
  next
    case False
    then have "receive (payloads (fragments n l hdr False (drop 1198 body)) @ ps) (Some ?u)
        = map_option ((#) (?u @ drop 1198 body)) (receive ps None)"
      using Suc.IH [of "drop 1198 body" "Some ?u" False ?u] Suc.prems(1) by simp
    then show ?thesis using step False by (simp del: payload_bytes.simps receive.simps)
  qed
qed simp

lemma unstap_aggregate:
  assumes "\<forall>n\<in>set g. 0 < length n \<and> length n < 65536"
  shows "unstap (aggregate g) = Some g"
  using assms
proof (induction g)
  case (Cons n g)
  have "prefixed n @ xs = be16 (of_nat (length n)) ! 0 # be16 (of_nat (length n)) ! Suc 0 # n @ xs" for xs
    by (simp add: prefixed_def be16_def)
  then have "aggregate (n # g) = be16 (of_nat (length n)) ! 0 # be16 (of_nat (length n)) ! Suc 0
      # n @ aggregate g"
    by (simp add: aggregate_def)
  moreover have "unat (of_nat (length n) :: u16) = length n"
    using Cons.prems by (simp add: unat_of_nat)
  ultimately show ?case using Cons by (simp add: rd_be16_be16)
qed simp

lemma receive_stap:
  assumes "\<forall>n\<in>set g. 0 < length n \<and> length n < 65536"
  shows "receive (payload_bytes (Stap g) # ps) None = map_option ((@) g) (receive ps None)"
  using unstap_aggregate [OF assms] by simp

lemma receive_pending:
  assumes "\<forall>n\<in>set g. 0 < length n \<and> length n < 65536"
  shows "receive (payloads (pending g) @ ps) None = map_option ((@) g) (receive ps None)"
proof (cases "g = []")
  case True
  then show ?thesis by (cases "receive ps None") (simp_all add: pending_def)
next
  case False
  then show ?thesis
    using receive_stap [OF assms] by (simp add: pending_def del: receive.simps payload_bytes.simps)
qed

text \<open>A NAL unit of one of the types a single-NAL packet may have.\<close>

definition plain_type :: "l4c_nal_desc \<Rightarrow> bool" where
  "plain_type nal \<longleftrightarrow> (case nal_data nal of None \<Rightarrow> True
     | Some D \<Rightarrow> D \<noteq> [] \<longrightarrow> 1 \<le> hd D AND 31 \<and> hd D AND 31 \<le> 23)"

lemma receive_single:
  assumes "n \<noteq> []" "1 \<le> hd n AND 31" "hd n AND 31 \<le> 23"
  shows "receive (payload_bytes (Single n) # ps) None = map_option ((#) n) (receive ps None)"
proof -
  have "hd n AND 31 \<noteq> 24" "hd n AND 31 \<noteq> 28" using assms(3) by auto
  then show ?thesis using assms by (cases n) auto
qed

lemma map_option_append: "map_option ((@) g) (map_option ((#) n) x) = map_option ((@) (g @ [n])) x"
  by (cases x) auto

lemma receive_plan:
  assumes "\<forall>nal\<in>set ns. nal_present nal \<and> plain_type nal"
    and "\<forall>n\<in>set g. 0 < length n \<and> length n < 65536"
  shows "receive (payloads (plan ns g)) None = Some (g @ nal_units ns)"
  using assms
proof (induction ns arbitrary: g)
  case Nil
  then show ?case
    using receive_stap [of g "[]"] by (simp del: payload_bytes.simps receive.simps(3))
next
  case (Cons nal rest)
  have IH: "receive (payloads (plan rest g)) None = Some (g @ nal_units rest)"
    if "\<forall>n\<in>set g. 0 < length n \<and> length n < 65536" for g
    using Cons.IH Cons.prems(1) that by simp
  from IH [of "[]"] have IH0: "receive (payloads (plan rest [])) None = Some (nal_units rest)"
    by simp
  have "nal_present nal" using Cons.prems by simp
  then show ?case
  proof (cases rule: nal_present_cases)
    case 1
    then show ?thesis using IH [OF Cons.prems(2)] by (cases "nal_data nal") simp_all
  next
    case (2 D)
    define L where "L = nal_length nal"
    define n where "n = take L D"
    have n: "length n = L" "0 < L" "D \<noteq> []" "L \<le> 2097152"
      using 2 \<open>nal_present nal\<close> by (auto simp: n_def L_def nal_present_def nal_ok_def)
    have hd: "hd n = hd D" "D ! 0 = hd D" "n \<noteq> []" "hd D # tl n = n"
      using n by (auto simp: n_def hd_conv_nth take_Cons' neq_Nil_conv)
    have type: "1 \<le> hd n AND 31" "hd n AND 31 \<le> 23"
      using Cons.prems(1) 2(1) n(3) by (auto simp: hd plain_type_def)
    have units: "nal_units (nal # rest) = n # nal_units rest"
      using 2 by (simp add: n_def L_def)
    consider "L \<le> 1200" "length (aggregate g) + (2 + L) \<le> 1200"
      | "L \<le> 1200" "1200 < length (aggregate g) + (2 + L)" | "1200 < L" by linarith
    then show ?thesis
    proof cases
      case 1
      have gn: "\<forall>m\<in>set (g @ [n]). 0 < length m \<and> length m < 65536"
        using Cons.prems(2) n 1 by auto
      have "plan (nal # rest) g = (if rest = [] then [(Stap (g @ [n]), True)] else plan rest (g @ [n]))"
        using 1 2 n by (simp add: n_def L_def)
      then show ?thesis
        using IH [OF gn] receive_stap [OF gn, of "[]"] units
        by (simp del: payload_bytes.simps receive.simps(3))
    next
      case b: 2
      have gn: "\<forall>m\<in>set [n]. 0 < length m \<and> length m < 65536" using n b by auto
      have "plan (nal # rest) g = pending g @ (if rest = [] then [(Single n, True)] else plan rest [n])"
        using b 2 n by (simp add: n_def L_def)
      then show ?thesis
        using IH [OF gn] receive_single [OF hd(3) type, of "[]"] units receive_pending [OF Cons.prems(2)]
        by (simp del: payload_bytes.simps receive.simps(3))
    next
      case 3
      have pos: "0 < frag_count (L - 1)" "length (tl n) \<le> frag_count (L - 1) * 1198"
        using 3 n frag_count_covers [of "L - 1"] by (auto simp: frag_count_eq div_greater_zero_iff)
      have "plan (nal # rest) g = pending g
          @ fragments (frag_count (L - 1)) (rest = []) (hd D) True (tl n) @ plan rest []"
        using 3 2 n hd(2) by (simp add: n_def L_def Let_def)
      moreover have "receive (payloads (fragments (frag_count (L - 1)) (rest = []) (hd D) True (tl n))
            @ payloads (plan rest [])) None = Some (n # nal_units rest)"
        using receive_fragments [OF pos(2,1), where first = True] hd(4) IH0 by simp
      ultimately show ?thesis
        using units receive_pending [OF Cons.prems(2)] by simp
    qed
  qed
qed

section \<open>What the packetizer sends\<close>

text \<open>A callback that accepts every packet and keeps it with its flag.\<close>

definition keep :: "(bytes \<times> bool) list packet_cb" where
  "keep sent pkt is_last_of_au = (True, sent @ [(pkt, is_last_of_au)])"

fun packets :: "rtp_session \<Rightarrow> (rtp_payload \<times> bool) list \<Rightarrow> u16 \<Rightarrow> (bytes \<times> bool) list" where
  "packets ses [] seq = []"
| "packets ses ((f, m) # fs) seq = (rtp_header ses m seq @ payload_bytes f, m) # packets ses fs (seq + 1)"

definition fits_buffer :: "(rtp_payload \<times> bool) list \<Rightarrow> bool" where
  "fits_buffer fs \<longleftrightarrow> list_all (\<lambda>(f, m). length (payload_bytes f) \<le> 1200) fs"

lemma fits_buffer_simps [simp]:
  "fits_buffer []" "fits_buffer ((f, m) # fs) \<longleftrightarrow> length (payload_bytes f) \<le> 1200 \<and> fits_buffer fs"
  "fits_buffer (xs @ ys) \<longleftrightarrow> fits_buffer xs \<and> fits_buffer ys"
  by (simp_all add: fits_buffer_def)

lemma deliver_keep:
  "deliver keep ses fs seq sent (\<lambda>q c. Halt L4C_OK c)
     = (if fits_buffer fs then Halt L4C_OK (sent @ packets ses fs seq) else Overrun)"
  by (induction fs arbitrary: seq sent) (auto simp: keep_def)

lemma packets_facts:
  "length (packets ses fs seq) = length fs"
  "map (\<lambda>(pkt, m). drop 12 pkt) (packets ses fs seq) = payloads fs"
  "i < length fs \<Longrightarrow> packets ses fs seq ! i
     = (rtp_header ses (snd (fs ! i)) (seq + of_nat i) @ payload_bytes (fst (fs ! i)), snd (fs ! i))"
proof -
  show "length (packets ses fs seq) = length fs" "map (\<lambda>(pkt, m). drop 12 pkt) (packets ses fs seq) = payloads fs"
    by (induction fs arbitrary: seq) auto
  show "i < length fs \<Longrightarrow> packets ses fs seq ! i
     = (rtp_header ses (snd (fs ! i)) (seq + of_nat i) @ payload_bytes (fst (fs ! i)), snd (fs ! i))"
    by (induction fs arbitrary: seq i) (auto simp: nth_Cons add.assoc split: nat.split)
qed

text \<open>The units that may travel in an aggregate, each with the two bytes of its length.\<close>

definition small_bytes :: "l4c_nal_desc list \<Rightarrow> nat" where
  "small_bytes ns = sum_list (map (\<lambda>nal. if 0 < nal_length nal \<and> nal_length nal \<le> 1200 then nal_length nal + 2 else 0) ns)"

lemma small_bytes_Cons:
  "small_bytes (nal # ns) = (if 0 < nal_length nal \<and> nal_length nal \<le> 1200 then nal_length nal + 2 else 0) + small_bytes ns"
  by (simp add: small_bytes_def)

lemma fragments_fit: "fits_buffer (fragments n l hdr f body)"
  by (induction n arbitrary: f body) simp_all

lemma plan_fits:
  "\<forall>nal\<in>set ns. nal_ok nal \<Longrightarrow> length (aggregate g) + small_bytes ns < 1200 \<Longrightarrow> fits_buffer (plan ns g)"
proof (induction ns arbitrary: g)
  case (Cons nal rest)
  have ok: "\<forall>nal\<in>set rest. nal_ok nal" using Cons.prems(1) by simp
  have sum: "length (aggregate g) + (if 0 < nal_length nal \<and> nal_length nal \<le> 1200 then nal_length nal + 2 else 0)
      + small_bytes rest < 1200" using Cons.prems(2) by (simp add: small_bytes_Cons)
  have pend: "fits_buffer (pending g)" using sum by (simp add: pending_def split: if_splits)
  show ?case
  proof (cases "nal_data nal")
    case None
    then show ?thesis using Cons.IH [OF ok, of g] sum by simp
  next
    case (Some D)
    let ?L = "nal_length nal"
    have len: "length (take ?L D) = ?L" using Cons.prems(1) Some by (auto simp: nal_ok_def)
    consider "?L = 0" | "0 < ?L" "?L \<le> 1200" | "1200 < ?L" by linarith
    then show ?thesis
    proof cases
      case 1
      then show ?thesis using Some Cons.IH [OF ok, of g] sum by simp
    next
      case 2
      then have "length (aggregate (g @ [take ?L D])) + small_bytes rest < 1200" using sum len by simp
      from Cons.IH [OF ok this] 2 sum len show ?thesis using Some by (simp add: Let_def)
    next
      case 3
      then show ?thesis using Some Cons.IH [OF ok, of "[]"] sum pend by (simp add: fragments_fit Let_def)
    qed
  qed
qed simp

text \<open>
  C27: nothing is lost or reordered on the wire. Take an access unit of readable units of at most two
  megabytes, of types 1 to 23. The packetizer writes past its buffer exactly when one of the payloads
  the units are grouped into is longer than 1200 bytes, which happens only when the units of at most
  1200 bytes come, with two bytes of length each, to 1200 bytes or more. Otherwise it hands the callback
  packets of at most 1212 bytes, as many as \<open>l4c_rtp_count_packets\<close> says, each behind an RTP header
  with the next sequence number and its marker, which all but the last have clear and which the last has
  set when the last unit is not empty; and a receiver that follows RFC 6184 turns their payloads back
  into exactly the non-empty NAL units of the access unit, in order, whatever mixture of aggregates,
  single units and fragments was chosen.
\<close>

theorem receiver_recovers_nals:
  assumes "length junk = 1212" "\<forall>nal\<in>set (nals au). nal_present nal \<and> plain_type nal"
  shows "l4c_rtp_packetize_au junk au ses seq keep [] = Overrun
      \<and> \<not> fits_buffer (plan (nals au) []) \<and> 1200 \<le> small_bytes (nals au)
    \<or> (\<exists>sent. l4c_rtp_packetize_au junk au ses seq keep [] = Halt L4C_OK sent \<and> fits_buffer (plan (nals au) [])
         \<and> receive (map (\<lambda>(pkt, m). drop 12 pkt) sent) None = Some (nal_units (nals au))
         \<and> length sent = l4c_rtp_count_packets au
         \<and> (nals au \<noteq> [] \<longrightarrow> 0 < nal_length (last (nals au)) \<longrightarrow> sent \<noteq> [] \<and> snd (last sent))
         \<and> (\<forall>i < length sent. take 12 (fst (sent ! i)) = rtp_header ses (snd (sent ! i)) (seq + of_nat i)
              \<and> length (fst (sent ! i)) \<le> 1212 \<and> (i + 1 < length sent \<longrightarrow> \<not> snd (sent ! i))))"
proof -
  let ?fs = "plan (nals au) []"
  let ?sent = "packets ses ?fs seq"
  have ok: "\<forall>nal\<in>set (nals au). nal_ok nal" and present: "\<forall>nal\<in>set (nals au). nal_present nal"
    using assms(2) by (auto simp: nal_present_def)
  have run: "l4c_rtp_packetize_au junk au ses seq keep [] = (if fits_buffer ?fs then Halt L4C_OK ?sent else Overrun)"
    using packetize_nals_deliver [OF holds_cleared [OF assms(1)] ok, of keep ses seq "[]"]
    by (simp add: l4c_rtp_packetize_au_def deliver_keep)
  show ?thesis
  proof (cases "fits_buffer ?fs")
    case True
    have "receive (map (\<lambda>(pkt, m). drop 12 pkt) ?sent) None = Some (nal_units (nals au))"
      using receive_plan [OF assms(2), of "[]"] by (simp add: packets_facts(2))
    moreover have "length ?sent = l4c_rtp_count_packets au"
      using count_loop_plan [OF present, of 0 "[]"] by (simp add: l4c_rtp_count_packets_def packets_facts(1))
    moreover have "take 12 (fst (?sent ! i)) = rtp_header ses (snd (?sent ! i)) (seq + of_nat i)
        \<and> length (fst (?sent ! i)) \<le> 1212 \<and> (i + 1 < length ?sent \<longrightarrow> \<not> snd (?sent ! i))" if "i < length ?sent" for i
    proof -
      have i: "i < length ?fs" using that by (simp add: packets_facts(1))
      have "length (payload_bytes (fst (?fs ! i))) \<le> 1200"
        using True i by (auto simp: fits_buffer_def list_all_length case_prod_beta)
      moreover have "\<not> snd (?fs ! i)" if "i + 1 < length ?fs"
      proof -
        have "butlast ?fs ! i \<in> set (butlast ?fs)" using that by (intro nth_mem) simp
        then show ?thesis using plan_marks [of "nals au" "[]"] that by (auto simp: unmarked_def case_prod_beta nth_butlast)
      qed
      ultimately show ?thesis by (simp add: packets_facts(3) [OF i] packets_facts(1))
    qed
    moreover have "?sent \<noteq> [] \<and> snd (last ?sent)" if "nals au \<noteq> []" "0 < nal_length (last (nals au))"
    proof -
      have "?fs \<noteq> []" "snd (last ?fs)" using plan_last_marked [OF that(1) _ that(2), of "[]"] present that(1) by simp_all
      then show ?thesis
        using packets_facts(3) [of "length ?fs - 1" ?fs ses seq] packets_facts(1) [of ses ?fs seq]
        by (auto simp: last_conv_nth simp flip: length_greater_0_conv)
    qed
    ultimately show ?thesis using run True by (intro disjI2 exI [of _ ?sent]) simp
  next
    case False
    then have "1200 \<le> small_bytes (nals au)" using plan_fits [OF ok, of "[]"] by (intro leI notI) simp
    then show ?thesis using run False by simp
  qed
qed

theorem receiver_recovers_nals_witness:
  "\<exists>sent. l4c_rtp_packetize_au (replicate 1212 0)
       \<lparr>nals = [\<lparr>nal_data = Some [103, 66], nal_length = 2\<rparr>,
         \<lparr>nal_data = Some (replicate 1500 101), nal_length = 1500\<rparr>], pts_ms = 0\<rparr>
       \<lparr>payload_type = 96, rtp_timestamp = 90000, ssrc = 1\<rparr> 65535 keep [] = Halt L4C_OK sent
     \<and> receive (map (\<lambda>(pkt, m). drop 12 pkt) sent) None = Some [[103, 66], replicate 1500 101]"
proof -
  let ?au = "\<lparr>nals = [\<lparr>nal_data = Some [103, 66], nal_length = 2\<rparr>,
      \<lparr>nal_data = Some (replicate 1500 101), nal_length = 1500\<rparr>], pts_ms = 0\<rparr>"
  have "\<forall>nal\<in>set (nals ?au). nal_present nal \<and> plain_type nal"
    by (simp add: nal_present_def nal_ok_def plain_type_def)
  moreover have "length (replicate 1212 (0 :: u8)) = 1212" by simp
  moreover have "\<not> 1200 \<le> small_bytes (nals ?au)" by (simp add: small_bytes_def)
  moreover have "nal_units (nals ?au) = [[103, 66], replicate 1500 101]" by simp
  ultimately show ?thesis
    using receiver_recovers_nals [of "replicate 1212 0" ?au "\<lparr>payload_type = 96, rtp_timestamp = 90000, ssrc = 1\<rparr>" 65535]
    by metis
qed

text \<open>One NAL unit of 1198 bytes is enough to overrun the buffer by a byte.\<close>

lemma packetizer_overrun_1198:
  assumes "length junk = 1212" "length D = 1198"
  shows "l4c_rtp_packetize_au junk \<lparr>nals = [\<lparr>nal_data = Some D, nal_length = 1198\<rparr>], pts_ms = p\<rparr>
           ses seq cb ctx = Overrun"
proof -
  let ?ns = "[\<lparr>nal_data = Some D, nal_length = 1198\<rparr>]"
  have "\<forall>nal\<in>set ?ns. nal_ok nal" using assms(2) by (simp add: nal_ok_def)
  from packetize_nals_deliver [OF holds_cleared [OF assms(1)] this] show ?thesis
    using assms(2) by (simp add: l4c_rtp_packetize_au_def)
qed

end
