(* ===== verification/Rtp_Sender.thy ===== *)
theory Rtp_Sender
  imports Rtp_Packetizer
begin

text \<open>
  The RTP session of \<open>tools/l4capture/src/network/rtp_sender.c\<close> and the RTCP packets of
  \<open>rtcp_sender.c\<close>. The operating system is a record of oracles: the verdicts of the successive
  \<open>sendto\<close> calls, the successive readings of the monotonic clock and the datagrams waiting on
  the RTCP socket; every theorem holds for all of them. Statistics and timestamps keep their
  widths.
\<close>

section \<open>Definitions of the source\<close>

record net =
  verdicts :: "nat \<Rightarrow> bool"
  attempts :: nat
  clock :: "nat \<Rightarrow> u64"
  readings :: nat
  inbox :: "bytes list"
  rtp_out :: "bytes list"
  rtcp_out :: "bytes list"

definition l4c_now_monotonic_ms :: "net \<Rightarrow> u64 \<times> net" where
  "l4c_now_monotonic_ms w = (clock w (readings w), w\<lparr>readings := readings w + 1\<rparr>)"

definition sendto_rtp :: "net \<Rightarrow> bytes \<Rightarrow> bool \<times> net" where
  "sendto_rtp w pkt =
     (let ok = verdicts w (attempts w) in
      (ok, w\<lparr>attempts := attempts w + 1, rtp_out := (if ok then rtp_out w @ [pkt] else rtp_out w)\<rparr>))"

definition sendto_rtcp :: "net \<Rightarrow> bytes \<Rightarrow> bool \<times> net" where
  "sendto_rtcp w pkt =
     (let ok = verdicts w (attempts w) in
      (ok, w\<lparr>attempts := attempts w + 1, rtcp_out := (if ok then rtcp_out w @ [pkt] else rtcp_out w)\<rparr>))"

text \<open>A datagram larger than the 256 bytes of the caller's buffer makes \<open>recv\<close> fail.\<close>

definition recv_rtcp :: "net \<Rightarrow> bytes option \<times> net" where
  "recv_rtcp w =
     (case inbox w of
        [] \<Rightarrow> (None, w)
      | d # ds \<Rightarrow> (if 256 < length d then None else Some d, w\<lparr>inbox := ds\<rparr>))"

record l4c_rtp_stats =
  packets_sent :: u32
  bytes_sent :: u64
  transport_drops :: u32
  rtcp_sr_sent :: u32
  last_rtp_timestamp :: u32
  last_send_tick_ms :: u64

record l4c_rtp_config =
  dest_ip :: "string option"
  cfg_rtp_port :: u16
  cfg_rtcp_port :: u16
  cfg_payload_type :: u8
  cfg_ssrc :: u32
  cfg_cname :: "bytes option"

record l4c_rtp_sender =
  rtp_addr :: "string \<times> u16"
  rtcp_addr :: "string \<times> u16"
  snd_ssrc :: u32
  seq_num :: u16
  snd_payload_type :: u8
  base_ts :: u32
  pts_start_ms :: u64
  first_send_tick_ms :: u64
  pts_start_set :: bool
  stats :: l4c_rtp_stats
  last_rtcp_ms :: u64
  cname :: bytes
  last_pli_ms :: u64

text \<open>
  The callback's context: the sender, the drop flag and the encoder, of which only the number of
  forced IDR requests is observed (\<open>None\<close> when there is no encoder or no such entry).
\<close>

record send_ctx =
  sender :: l4c_rtp_sender
  dropped :: bool
  encoder :: "nat option"
  wire :: net

definition rtp_packet_send_cb :: "send_ctx packet_cb" where
  "rtp_packet_send_cb ctx buf is_last_of_au =
     (case sendto_rtp (wire ctx) buf of
        (ok, w) \<Rightarrow>
          let s = sender ctx; st = stats s; len = length buf in
          if \<not> ok then
            (False, ctx\<lparr>wire := w, dropped := True,
                        sender := s\<lparr>stats := st\<lparr>transport_drops := transport_drops st + 1\<rparr>\<rparr>,
                        encoder := map_option Suc (encoder ctx)\<rparr>)
          else
            (case l4c_now_monotonic_ms w of
               (now, w) \<Rightarrow>
                 (True, ctx\<lparr>wire := w,
                   sender := s\<lparr>stats := st\<lparr>packets_sent := packets_sent st + 1,
                     bytes_sent := bytes_sent st
                       + (if L4C_RTP_HEADER_SIZE < len then of_nat (len - L4C_RTP_HEADER_SIZE) else 0),
                     last_send_tick_ms := now\<rparr>\<rparr>\<rparr>)))"

definition zero_stats :: l4c_rtp_stats where
  "zero_stats = \<lparr>packets_sent = 0, bytes_sent = 0, transport_drops = 0, rtcp_sr_sent = 0,
     last_rtp_timestamp = 0, last_send_tick_ms = 0\<rparr>"

definition default_cname :: bytes where
  "default_cname = map (\<lambda>c. of_nat (of_char c)) ''l4capture@127.0.0.1''"

text \<open>
  Creation: whether the allocation succeeds, Winsock starts and the two sockets open, and the three values of the random
  generator, come from outside. The socket options have no state of their own.
\<close>

definition l4c_rtp_sender_create ::
  "l4c_rtp_config \<Rightarrow> bool \<Rightarrow> bool \<Rightarrow> bool \<Rightarrow> bool \<Rightarrow> u32 \<Rightarrow> u32 \<Rightarrow> u32 \<Rightarrow> net \<Rightarrow>
     (l4c_status + l4c_rtp_sender) \<times> net" where
  "l4c_rtp_sender_create config mem_ok wsa_ok rtp_ok rtcp_ok rng1 rng2 rng3 w =
     (if \<not> mem_ok then (Inl L4C_ERR_OUT_OF_MEMORY, w)
      else if \<not> wsa_ok then (Inl L4C_ERR_NETWORK, w)
      else if \<not> rtp_ok then (Inl L4C_ERR_NETWORK, w)
      else if \<not> rtcp_ok then (Inl L4C_ERR_NETWORK, w)
      else case l4c_now_monotonic_ms w of (now, w) \<Rightarrow>
        let host = (case dest_ip config of Some ip \<Rightarrow> ip | None \<Rightarrow> ''127.0.0.1'') in
        (Inr \<lparr>rtp_addr = (host, if cfg_rtp_port config \<noteq> 0 then cfg_rtp_port config else 5004),
          rtcp_addr = (host, if cfg_rtcp_port config \<noteq> 0 then cfg_rtcp_port config else 5005),
          snd_ssrc = (if cfg_ssrc config \<noteq> 0 then cfg_ssrc config else rng1),
          seq_num = ucast (rng2 AND 65535),
          snd_payload_type = (if cfg_payload_type config \<noteq> 0 then cfg_payload_type config else 96),
          base_ts = rng3,
          pts_start_ms = 0, first_send_tick_ms = 0, pts_start_set = False,
          stats = zero_stats,
          last_rtcp_ms = now,
          cname = (case cfg_cname config of Some n \<Rightarrow> take 63 n | None \<Rightarrow> default_cname),
          last_pli_ms = 0\<rparr>, w))"

text \<open>The RTP timestamp of an access unit: 90 ticks per millisecond since the first one.\<close>

definition rtp_ts_of :: "l4c_rtp_sender \<Rightarrow> u64 \<Rightarrow> u32" where
  "rtp_ts_of s pts =
     (let elapsed_ms = (if pts_start_ms s < pts then pts - pts_start_ms s else 0) in
      base_ts s + ucast (elapsed_ms * 90))"

definition record_start :: "l4c_rtp_sender \<Rightarrow> u64 \<Rightarrow> net \<Rightarrow> l4c_rtp_sender \<times> net" where
  "record_start s pts w =
     (if pts_start_set s then (s, w)
      else case l4c_now_monotonic_ms w of (now, w) \<Rightarrow>
        (s\<lparr>pts_start_ms := pts, first_send_tick_ms := now, pts_start_set := True\<rparr>, w))"

text \<open>\<open>None\<close> is the undefined behaviour of an overrun packet buffer.\<close>

definition l4c_rtp_send_au ::
  "bytes \<Rightarrow> l4c_rtp_sender \<Rightarrow> l4c_access_unit \<Rightarrow> nat option \<Rightarrow> net \<Rightarrow>
     (l4c_status \<times> l4c_rtp_sender \<times> nat option \<times> net) option" where
  "l4c_rtp_send_au junk s au enc w =
     (if nals au = [] then Some (L4C_OK, s, enc, w)
      else case record_start s (pts_ms au) w of (s, w) \<Rightarrow>
        let rtp_ts = rtp_ts_of s (pts_ms au);
            s = s\<lparr>stats := (stats s)\<lparr>last_rtp_timestamp := rtp_ts\<rparr>\<rparr>;
            ctx = \<lparr>sender = s, dropped = False, encoder = enc, wire = w\<rparr>;
            ses = \<lparr>payload_type = snd_payload_type s, rtp_timestamp = rtp_ts, ssrc = snd_ssrc s\<rparr> in
        case l4c_rtp_packetize_au junk au ses (seq_num s) rtp_packet_send_cb ctx of
          Overrun \<Rightarrow> None
        | Run _ \<Rightarrow> None
        | Halt pkt_status ctx \<Rightarrow>
            let ctx = (if pkt_status \<noteq> L4C_OK \<and> \<not> dropped ctx then ctx\<lparr>dropped := True\<rparr> else ctx);
                pkt_count = l4c_rtp_count_packets au;
                s = (sender ctx)\<lparr>seq_num := seq_num (sender ctx) + of_nat pkt_count\<rparr> in
            if dropped ctx then Some (L4C_ERR_NETWORK, s, encoder ctx, wire ctx)
            else Some (L4C_OK, s, encoder ctx, wire ctx))"

section \<open>Sending an access unit\<close>

text \<open>The datagrams of a plan, numbered from \<open>seq\<close> on.\<close>

fun datagrams :: "rtp_session \<Rightarrow> (rtp_payload \<times> bool) list \<Rightarrow> u16 \<Rightarrow> bytes list" where
  "datagrams ses [] seq = []"
| "datagrams ses ((f, m) # fs) seq =
     (rtp_header ses m seq @ payload_bytes f) # datagrams ses fs (seq + 1)"

definition plan_fits :: "(rtp_payload \<times> bool) list \<Rightarrow> bool" where
  "plan_fits fs \<longleftrightarrow> (\<forall>(f, m) \<in> set fs. length (payload_bytes f) \<le> 1200)"

definition octets :: "(rtp_payload \<times> bool) list \<Rightarrow> nat" where
  "octets fs = sum_list (map (\<lambda>(f, m). length (payload_bytes f)) fs)"

text \<open>
  What is left of a delivery: \<open>k\<close> packets went out, and the statistics, the drop flag and the
  encoder of \<open>c'\<close> follow from those of \<open>c\<close>.
\<close>

definition delivered ::
  "rtp_session \<Rightarrow> (rtp_payload \<times> bool) list \<Rightarrow> u16 \<Rightarrow> send_ctx \<Rightarrow> nat \<Rightarrow> send_ctx \<Rightarrow> bool" where
  "delivered ses fs seq c k c' \<longleftrightarrow>
     k \<le> length fs \<and>
     rtp_out (wire c') = rtp_out (wire c) @ take k (datagrams ses fs seq) \<and>
     rtcp_out (wire c') = rtcp_out (wire c) \<and>
     packets_sent (stats (sender c')) = packets_sent (stats (sender c)) + of_nat k \<and>
     bytes_sent (stats (sender c')) = bytes_sent (stats (sender c)) + of_nat (octets (take k fs)) \<and>
     transport_drops (stats (sender c'))
       = transport_drops (stats (sender c)) + (if k < length fs then 1 else 0) \<and>
     last_rtp_timestamp (stats (sender c')) = last_rtp_timestamp (stats (sender c)) \<and>
     rtcp_sr_sent (stats (sender c')) = rtcp_sr_sent (stats (sender c)) \<and>
     (sender c')\<lparr>stats := stats (sender c)\<rparr> = sender c \<and>
     dropped c' = (dropped c \<or> k < length fs) \<and>
     encoder c' = (if k < length fs then map_option Suc (encoder c) else encoder c)"

lemma datagrams_length [simp]: "length (datagrams ses fs seq) = length fs"
  by (induction fs arbitrary: seq) auto

lemma plan_fits_Cons [simp]:
  "plan_fits ((f, m) # fs) \<longleftrightarrow> length (payload_bytes f) \<le> 1200 \<and> plan_fits fs"
  by (auto simp: plan_fits_def)

lemma octets_simps [simp]:
  "octets [] = 0" "octets ((f, m) # fs) = length (payload_bytes f) + octets fs"
  by (simp_all add: octets_def)

lemma send_cb_refused:
  assumes "\<not> verdicts (wire c) (attempts (wire c))"
  obtains c' where "rtp_packet_send_cb c buf m = (False, c')"
    "delivered ses ((f, m) # fs) seq c 0 c'"
  using assms that
  by (simp add: rtp_packet_send_cb_def sendto_rtp_def delivered_def Let_def)

lemma send_cb_accepted:
  assumes "verdicts (wire c) (attempts (wire c))" "buf = rtp_header ses m seq @ payload_bytes f"
  obtains c' where "rtp_packet_send_cb c buf m = (True, c')"
    "delivered ses [(f, m)] seq c 1 c'"
  using assms that
  by (cases "payload_bytes f")
    (simp_all add: rtp_packet_send_cb_def sendto_rtp_def delivered_def Let_def l4c_now_monotonic_ms_def)

lemma delivered_Cons:
  assumes "delivered ses [(f, m)] seq c 1 c'" "delivered ses fs (seq + 1) c' k c''"
  shows "delivered ses ((f, m) # fs) seq c (Suc k) c''"
proof -
  have "(sender c'')\<lparr>stats := stats (sender c)\<rparr> = ((sender c'')\<lparr>stats := stats (sender c')\<rparr>)\<lparr>stats := stats (sender c)\<rparr>"
    by simp
  also have "\<dots> = sender c" using assms by (simp add: delivered_def)
  finally show ?thesis using assms by (auto simp: delivered_def)
qed

lemma deliver_sends:
  assumes "plan_fits fs"
  shows "\<exists>k c'. deliver rtp_packet_send_cb ses fs seq c (\<lambda>q c. Halt L4C_OK c)
             = Halt (if k < length fs then L4C_ERR_NETWORK else L4C_OK) c'
           \<and> delivered ses fs seq c k c'"
  using assms
proof (induction fs arbitrary: seq c)
  case Nil
  have "delivered ses [] seq c 0 c" by (auto simp: delivered_def)
  then show ?case by auto
next
  case (Cons fm fs)
  obtain f m where fm: "fm = (f, m)" by (cases fm)
  let ?buf = "rtp_header ses m seq @ payload_bytes f"
  show ?case
  proof (cases "verdicts (wire c) (attempts (wire c))")
    case True
    then obtain c' where c': "rtp_packet_send_cb c ?buf m = (True, c')"
        "delivered ses [(f, m)] seq c 1 c'"
      using send_cb_accepted by metis
    obtain k c'' where k: "deliver rtp_packet_send_cb ses fs (seq + 1) c' (\<lambda>q c. Halt L4C_OK c)
        = Halt (if k < length fs then L4C_ERR_NETWORK else L4C_OK) c''"
        "delivered ses fs (seq + 1) c' k c''"
      using Cons fm by (metis plan_fits_Cons)
    then show ?thesis
      using c' delivered_Cons [OF c'(2) k(2)] Cons.prems fm
      by (intro exI [of _ "Suc k"] exI [of _ c'']) simp
  next
    case False
    then obtain c' where "rtp_packet_send_cb c ?buf m = (False, c')"
        "delivered ses ((f, m) # fs) seq c 0 c'"
      using send_cb_refused by metis
    then show ?thesis
      using Cons.prems fm by (intro exI [of _ 0] exI [of _ c']) simp
  qed
qed

text \<open>
  one access unit through the session. For NAL units with data whose planned packets fit the
  buffer, and for every behaviour of the network and the clock, \<open>l4c_rtp_send_au\<close> hands the first
  \<open>k\<close> planned datagrams to the socket, in order and under consecutive sequence numbers from the
  session's counter; it answers \<open>L4C_OK\<close> exactly when all went out, and otherwise counts one
  transport drop and asks the encoder for one IDR. The counters grow by the packets and payload
  octets sent, the sequence counter by the planned number of packets in both cases, so the gap
  the receiver sees is exactly the packets that were not sent; all packets carry the timestamp
  \<open>base + 90 * elapsed\<close>.
\<close>

theorem send_au_exact:
  assumes "length junk = 1212" "nals au \<noteq> []" "\<forall>nal\<in>set (nals au). nal_present nal"
    and "plan_fits (plan (nals au) [])" and "pts_start_set s"
  defines "ts \<equiv> rtp_ts_of s (pts_ms au)"
  shows "\<exists>k s' enc' w'.
    l4c_rtp_send_au junk s au enc w
      = Some (if k < length (plan (nals au) []) then L4C_ERR_NETWORK else L4C_OK, s', enc', w')
    \<and> k \<le> length (plan (nals au) [])
    \<and> rtp_out w' = rtp_out w @ take k (datagrams
        \<lparr>payload_type = snd_payload_type s, rtp_timestamp = ts, ssrc = snd_ssrc s\<rparr>
        (plan (nals au) []) (seq_num s))
    \<and> seq_num s' = seq_num s + of_nat (length (plan (nals au) []))
    \<and> packets_sent (stats s') = packets_sent (stats s) + of_nat k
    \<and> bytes_sent (stats s') = bytes_sent (stats s) + of_nat (octets (take k (plan (nals au) [])))
    \<and> transport_drops (stats s') = transport_drops (stats s)
        + (if k < length (plan (nals au) []) then 1 else 0)
    \<and> last_rtp_timestamp (stats s') = ts
    \<and> enc' = (if k < length (plan (nals au) []) then map_option Suc enc else enc)"
proof -
  define fs where "fs = plan (nals au) []"
  define ses where "ses = \<lparr>payload_type = snd_payload_type s, rtp_timestamp = ts, ssrc = snd_ssrc s\<rparr>"
  define s1 where "s1 = s\<lparr>stats := (stats s)\<lparr>last_rtp_timestamp := ts\<rparr>\<rparr>"
  define c where "c = \<lparr>sender = s1, dropped = False, encoder = enc, wire = w\<rparr>"
  have run: "l4c_rtp_packetize_au junk au ses (seq_num s) rtp_packet_send_cb c
      = deliver rtp_packet_send_cb ses fs (seq_num s) c (\<lambda>q c. Halt L4C_OK c)"
    using packetize_nals_deliver [OF holds_cleared [OF assms(1)], of "nals au"] assms(3)
    by (simp add: l4c_rtp_packetize_au_def fs_def nal_present_def)
  have count: "l4c_rtp_count_packets au = length fs"
    using count_loop_plan [OF assms(3), of 0 "[]"] by (simp add: l4c_rtp_count_packets_def fs_def)
  obtain k c' where k: "deliver rtp_packet_send_cb ses fs (seq_num s) c (\<lambda>q c. Halt L4C_OK c)
      = Halt (if k < length fs then L4C_ERR_NETWORK else L4C_OK) c'"
      "delivered ses fs (seq_num s) c k c'"
    using deliver_sends assms(4) unfolding fs_def by blast
  define s2 where "s2 = (sender c')\<lparr>seq_num := seq_num (sender c') + of_nat (length fs)\<rparr>"
  have "dropped c' = (k < length fs)" using k(2) by (simp add: delivered_def c_def)
  then have "l4c_rtp_send_au junk s au enc w
      = Some (if k < length fs then L4C_ERR_NETWORK else L4C_OK, s2, encoder c', wire c')"
    using assms(2,5) run k(1) count
    by (simp add: l4c_rtp_send_au_def record_start_def Let_def s1_def c_def ses_def s2_def
        flip: ts_def)
  moreover have "seq_num (sender c') = seq_num s"
  proof -
    have "seq_num (sender c') = seq_num ((sender c')\<lparr>stats := stats (sender c)\<rparr>)" by simp
    also have "\<dots> = seq_num (sender c)" using k(2) by (simp only: delivered_def)
    finally show ?thesis by (simp add: c_def s1_def)
  qed
  ultimately show ?thesis
    using k(2) unfolding fs_def [symmetric] ses_def [symmetric]
    by (intro exI [of _ k] exI [of _ s2] exI [of _ "encoder c'"] exI [of _ "wire c'"])
      (simp add: delivered_def c_def s1_def s2_def)
qed

theorem send_au_exact_witness:
  "\<exists>s' w'. l4c_rtp_send_au (replicate 1212 0)
      \<lparr>rtp_addr = ([], 5004), rtcp_addr = ([], 5005), snd_ssrc = 7, seq_num = 65535, snd_payload_type = 96,
       base_ts = 100, pts_start_ms = 10, first_send_tick_ms = 0, pts_start_set = True,
       stats = zero_stats, last_rtcp_ms = 0, cname = [], last_pli_ms = 0\<rparr>
      \<lparr>nals = [\<lparr>nal_data = Some [101, 1], nal_length = 2\<rparr>], pts_ms = 20\<rparr> (Some 0)
      \<lparr>verdicts = (\<lambda>_. False), attempts = 0, clock = (\<lambda>_. 0), readings = 0, inbox = [],
       rtp_out = [], rtcp_out = []\<rparr> = Some (L4C_ERR_NETWORK, s', Some 1, w')
    \<and> seq_num s' = 0 \<and> last_rtp_timestamp (stats s') = 1000 \<and> transport_drops (stats s') = 1"
  (is "\<exists>s' w'. l4c_rtp_send_au ?junk ?s ?au ?enc ?w = _ \<and> _")
proof -
  define s where "s = ?s"
  define au where "au = ?au"
  define w where "w = ?w"
  have p: "plan (nals au) [] = [(Stap [[101, 1]], True)]" by (simp add: au_def)
  have fits: "length ?junk = 1212" "nals au \<noteq> []" "\<forall>nal\<in>set (nals au). nal_present nal"
      "plan_fits (plan (nals au) [])" "pts_start_set s"
    by (simp_all add: plan_fits_def nal_present_def nal_ok_def au_def s_def)
  have "map_option fst (l4c_rtp_send_au ?junk ?s ?au ?enc ?w) = Some L4C_ERR_NETWORK" by code_simp
  then have st: "map_option fst (l4c_rtp_send_au ?junk s au ?enc w) = Some L4C_ERR_NETWORK"
    by (simp only: s_def au_def w_def)
  from send_au_exact [OF fits, of ?enc w] obtain k s' enc' w' where
      run: "l4c_rtp_send_au ?junk s au ?enc w
          = Some (if k < length (plan (nals au) []) then L4C_ERR_NETWORK else L4C_OK, s', enc', w')"
        and res: "seq_num s' = seq_num s + of_nat (length (plan (nals au) []))"
        "transport_drops (stats s') = transport_drops (stats s)
          + (if k < length (plan (nals au) []) then 1 else 0)"
        "last_rtp_timestamp (stats s') = rtp_ts_of s (pts_ms au)"
        "enc' = (if k < length (plan (nals au) []) then map_option Suc (Some 0) else Some 0)"
    by blast
  have "k < length (plan (nals au) [])" using st run by (auto split: if_splits)
  then have "l4c_rtp_send_au ?junk s au ?enc w = Some (L4C_ERR_NETWORK, s', Some 1, w')"
      "seq_num s' = 0" "last_rtp_timestamp (stats s') = 1000" "transport_drops (stats s') = 1"
    using run res p by (simp_all add: s_def au_def zero_stats_def rtp_ts_of_def)
  then show ?thesis unfolding s_def au_def w_def by blast
qed

end
