(* ===== verification/Rtcp_Sender.thy ===== *)
theory Rtcp_Sender
  imports Rtp_Sender
begin

text \<open>
  The RTCP side of the RTP session: the compound packets of
  \<open>tools/l4capture/src/network/rtcp_sender.c\<close> (sender report, CNAME, BYE) and the poll of
  \<open>rtp_sender.c\<close> that sends them once a second and reads picture-loss indications. The NTP
  conversion is exact, the packets walk back into their fields, and the poll keeps its two
  rate limits on every run.
\<close>

section \<open>Definitions of the source\<close>

abbreviation NTP_FILETIME_OFFSET :: u64 where "NTP_FILETIME_OFFSET \<equiv> 9435484800"
abbreviation FILETIME_TICKS_PER_SEC :: u64 where "FILETIME_TICKS_PER_SEC \<equiv> 10000000"

definition ntp_sec :: "u64 \<Rightarrow> u64" where
  "ntp_sec filetime = filetime div FILETIME_TICKS_PER_SEC - NTP_FILETIME_OFFSET"

definition ntp_frac :: "u64 \<Rightarrow> u32" where
  "ntp_frac filetime =
     ucast (push_bit 32 (filetime mod FILETIME_TICKS_PER_SEC) div FILETIME_TICKS_PER_SEC)"

text \<open>The padding loop.\<close>

function pad4 :: "nat \<Rightarrow> nat" where
  "pad4 n = (if n mod 4 \<noteq> 0 then pad4 (n + 1) else n)"
  by auto
termination
  by (relation "measure (\<lambda>n. (4 - n mod 4) mod 4)") (auto simp: mod_Suc)

text \<open>The bytes written at the front of the buffer; their number is the returned size.\<close>

definition build_rtcp_compound ::
  "nat \<Rightarrow> u32 \<Rightarrow> u32 \<Rightarrow> u32 \<Rightarrow> u32 \<Rightarrow> bytes option \<Rightarrow> u64 \<Rightarrow> bytes" where
  "build_rtcp_compound buf_size src rtp_ts pkt_count octet_count name filetime =
     (if buf_size < 28 then []
      else
        let sr = [128, 200, 0, 6] @ be32 src @ be32 (ucast (ntp_sec filetime))
                 @ be32 (ntp_frac filetime) @ be32 rtp_ts @ be32 pkt_count @ be32 octet_count;
            name = (case name of None \<Rightarrow> default_cname | Some n \<Rightarrow> n);
            cname_len = (if 255 < length name then 255 else length name);
            sdes_item_len = cname_len + 3;
            sdes_total = pad4 (4 + 4 + sdes_item_len);
            sdes_words = sdes_total div 4 - 1 in
        if buf_size < 28 + sdes_total then sr
        else sr @ [129, 201] @ be16 (of_nat sdes_words) @ be32 src
             @ [1, of_nat cname_len] @ take cname_len name @ [0]
             @ replicate (sdes_total - (11 + cname_len)) 0)"

definition l4c_rtcp_build_bye :: "nat \<Rightarrow> u32 \<Rightarrow> bytes" where
  "l4c_rtcp_build_bye buf_size src =
     (if buf_size < 8 then [] else [129, 203, 0, 1] @ be32 src)"

text \<open>
  One poll. \<open>filetime\<close> is the system time the report quotes, \<open>want\<close> whether the caller passed
  a place for the indication; the first result says whether it was set.
\<close>

definition send_report :: "l4c_rtp_sender \<Rightarrow> u64 \<Rightarrow> u64 \<Rightarrow> net \<Rightarrow> l4c_rtp_sender \<times> net" where
  "send_report s now filetime w =
     (if pts_start_set s \<and> 1000 \<le> now - last_rtcp_ms s then
        let report_rtp_ts = base_ts s
              + (if pts_start_set s \<and> first_send_tick_ms s \<le> now
                 then ucast ((now - first_send_tick_ms s) * 90) else 0);
            pkt = build_rtcp_compound 512 (snd_ssrc s) report_rtp_ts (packets_sent (stats s))
                    (ucast (bytes_sent (stats s) AND 4294967295)) (Some (cname s)) filetime in
        if 0 < length pkt then
          (case sendto_rtcp w pkt of
             (ok, w) \<Rightarrow>
               (if ok then s\<lparr>stats := (stats s)\<lparr>rtcp_sr_sent := rtcp_sr_sent (stats s) + 1\<rparr>,
                             last_rtcp_ms := now\<rparr>
                else s\<lparr>last_rtcp_ms := now\<rparr>, w))
        else (s\<lparr>last_rtcp_ms := now\<rparr>, w)
      else (s, w))"

definition read_feedback :: "l4c_rtp_sender \<Rightarrow> u64 \<Rightarrow> bool \<Rightarrow> net \<Rightarrow> bool \<times> l4c_rtp_sender \<times> net" where
  "read_feedback s now want w =
     (case recv_rtcp w of
        (None, w) \<Rightarrow> (False, s, w)
      | (Some buf, w) \<Rightarrow>
          if 12 \<le> length buf \<and> buf ! 1 = 206 \<and> buf ! 0 AND 31 = 1 \<and> want
             \<and> 500 \<le> now - last_pli_ms s
          then (True, s\<lparr>last_pli_ms := now\<rparr>, w)
          else (False, s, w))"

definition l4c_rtp_sender_poll_rtcp ::
  "l4c_rtp_sender \<Rightarrow> u64 \<Rightarrow> bool \<Rightarrow> net \<Rightarrow> bool \<times> l4c_rtp_sender \<times> net" where
  "l4c_rtp_sender_poll_rtcp s filetime want w =
     (case l4c_now_monotonic_ms w of (now, w) \<Rightarrow>
        case send_report s now filetime w of (s, w) \<Rightarrow> read_feedback s now want w)"

text \<open>Closing the session sends a BYE; the sockets have no further state.\<close>

definition l4c_rtp_sender_destroy :: "l4c_rtp_sender \<Rightarrow> net \<Rightarrow> net" where
  "l4c_rtp_sender_destroy s w = snd (sendto_rtcp w (l4c_rtcp_build_bye 8 (snd_ssrc s)))"

section \<open>Reading a compound packet back\<close>

text \<open>
  A receiver's walk over a compound packet: the version, and the length field in words after the
  header word.
\<close>

fun rtcp_split :: "bytes \<Rightarrow> (u8 \<times> u8 \<times> bytes) list option" where
  "rtcp_split [] = Some []"
| "rtcp_split (v # pt # a # b # r) =
     (let n = 4 * unat (rd_be16 a b) in
      if v AND 192 \<noteq> 128 \<or> length r < n then None
      else map_option ((#) (v AND 31, pt, take n r)) (rtcp_split (drop n r)))"
| "rtcp_split _ = None"

declare pad4.simps [simp del]

lemma pad4_eq: "pad4 n = n + (4 - n mod 4) mod 4"
proof (induction n rule: pad4.induct)
  case (1 n)
  then show ?case
    by (subst pad4.simps) (auto simp: mod_Suc)
qed

lemma pad4_props: "n \<le> pad4 n" "pad4 n < n + 4" "4 dvd pad4 n"
proof -
  show "n \<le> pad4 n" "pad4 n < n + 4" by (simp_all add: pad4_eq)
  show "4 dvd pad4 n"
  proof (induction n rule: pad4.induct)
    case (1 n)
    then show ?case by (subst pad4.simps) (simp add: dvd_eq_mod_eq_0)
  qed
qed

lemma rtcp_split_packet:
  assumes "length body = 4 * k" "k < 65536" "v AND 192 = 128"
  shows "rtcp_split (v # pt # be16 (of_nat k) @ body @ rest)
         = map_option ((#) (v AND 31, pt, body)) (rtcp_split rest)"
proof -
  have bytes: "be16 (of_nat k) @ body @ rest
      = be16 (of_nat k) ! 0 # be16 (of_nat k) ! Suc 0 # body @ rest"
    by (simp add: be16_def)
  have "unat (of_nat k :: u16) = k" using assms(2) by (simp add: unat_of_nat)
  then show ?thesis using assms unfolding bytes by (simp add: rd_be16_be16)
qed

definition report_body :: "u32 \<Rightarrow> u32 \<Rightarrow> u32 \<Rightarrow> u32 \<Rightarrow> u64 \<Rightarrow> bytes" where
  "report_body src ts pc oc ft =
     be32 src @ be32 (ucast (ntp_sec ft)) @ be32 (ntp_frac ft) @ be32 ts @ be32 pc @ be32 oc"

definition cname_body :: "u32 \<Rightarrow> bytes \<Rightarrow> bytes" where
  "cname_body src name = be32 src @ [1, of_nat (length name)] @ name
     @ replicate (pad4 (11 + length name) - (10 + length name)) 0"

lemma compound_shape:
  assumes "length name \<le> 63"
  shows "build_rtcp_compound 512 src ts pc oc (Some name) ft
    = 128 # 200 # be16 (of_nat 6) @ report_body src ts pc oc ft
      @ (129 # 201 # be16 (of_nat (pad4 (11 + length name) div 4 - 1)) @ cname_body src name @ [])"
proof -
  define t where "t = pad4 (11 + length name)"
  have t: "11 + length name \<le> t" "t \<le> 77" using pad4_props [of "11 + length name"] assms
    by (simp_all add: t_def)
  have pad: "[0] @ replicate (t - (11 + length name)) (0 :: u8) = replicate (t - (10 + length name)) 0"
    using t(1) by (simp flip: replicate_Suc add: Suc_diff_le)
  have "4 + 4 + (length name + 3) = 11 + length name" by simp
  then show ?thesis
    using assms t pad unfolding build_rtcp_compound_def report_body_def cname_body_def
    by (simp add: Let_def be16_def flip: t_def)
qed

lemma cname_body_length:
  assumes "length name \<le> 63"
  shows "length (cname_body src name) = 4 * (pad4 (11 + length name) div 4 - 1)"
    and "pad4 (11 + length name) \<le> 76"
proof -
  define t where "t = pad4 (11 + length name)"
  have t: "11 + length name \<le> t" "t < 15 + length name" "4 dvd t"
    using pad4_props [of "11 + length name"] by (simp_all add: t_def)
  then have "t < 78" using assms by linarith
  then show "pad4 (11 + length name) \<le> 76" using t(3) unfolding t_def [symmetric] by presburger
  from t have "6 + length name + (t - (10 + length name)) = t - 4" "4 * (t div 4 - 1) = t - 4" by auto
  then show "length (cname_body src name) = 4 * (pad4 (11 + length name) div 4 - 1)"
    by (simp add: cname_body_def flip: t_def)
qed

lemma compound_split:
  assumes "length name \<le> 63"
  shows "rtcp_split (build_rtcp_compound 512 src ts pc oc (Some name) ft)
    = Some [(0, 200, report_body src ts pc oc ft), (1, 201, cname_body src name)]"
proof -
  have r: "length (report_body src ts pc oc ft) = 4 * 6" by (simp add: report_body_def)
  have "pad4 (11 + length name) div 4 - 1 < 65536"
    using cname_body_length(2) [OF assms] by linarith
  note sdes = rtcp_split_packet [OF cname_body_length(1) [OF assms, of src] this]
  show ?thesis
    unfolding compound_shape [OF assms]
    by (subst rtcp_split_packet [OF r], simp, simp) (subst sdes, simp, simp)
qed

text \<open>The NTP timestamp of the report as the fixed-point number it denotes.\<close>

lemma ntp_exact:
  assumes "9435484800 * 10000000 \<le> unat ft" "unat ft < (9435484800 + 2 ^ 32) * 10000000"
  shows "unat (ucast (ntp_sec ft) :: u32) * 2 ^ 32 + unat (ntp_frac ft)
         = (unat ft - 9435484800 * 10000000) * 2 ^ 32 div 10000000"
proof -
  define d where "d = unat ft div 10000000"
  define m where "m = unat ft mod 10000000"
  have dm: "unat ft = d * 10000000 + m" "m < 10000000" by (simp_all add: d_def m_def)
  have d: "9435484800 \<le> d" "d < 9435484800 + 2 ^ 32" using assms dm by auto
  have sec: "unat (ntp_sec ft) = d - 9435484800"
    using d unfolding ntp_sec_def by (subst unat_sub) (simp_all add: word_le_nat_alt unat_div d_def)
  then have sec': "unat (ucast (ntp_sec ft) :: u32) = d - 9435484800"
    using d by (subst unat_ucast_narrow) auto
  have "unat (push_bit 32 (ft mod 10000000)) = m * 2 ^ 32"
    using dm(2) by (simp add: push_bit_eq_mult unat_word_ariths unat_mod m_def)
  then have fr: "unat (push_bit 32 (ft mod 10000000) div 10000000) = m * 2 ^ 32 div 10000000"
    by (simp add: unat_div)
  also have "\<dots> < 2 ^ 32" using dm(2) by (simp add: div_less_iff_less_mult)
  finally have frac: "unat (ntp_frac ft) = m * 2 ^ 32 div 10000000"
    using fr by (simp add: ntp_frac_def unat_ucast_narrow)
  have "(unat ft - 9435484800 * 10000000) * 2 ^ 32
      = m * 2 ^ 32 + 10000000 * ((d - 9435484800) * 2 ^ 32)"
    using dm d by (simp add: algebra_simps)
  then have "(unat ft - 9435484800 * 10000000) * 2 ^ 32 div 10000000
      = (d - 9435484800) * 2 ^ 32 + m * 2 ^ 32 div 10000000"
    by (simp only: div_mult_self2)
  then show ?thesis unfolding sec' frac by simp
qed

text \<open>
  the once-a-second report is exact. For a CNAME the session can hold (at most 63 bytes) and a
  system time between 1900 and the end of the NTP era, the compound packet walks back, by its own
  length fields, into a sender report and a CNAME chunk with the given fields, zero-terminated and
  padded to a word, in at most 104 bytes; and the two NTP words are the fixed-point time since 1900,
  rounded down.
\<close>

theorem rtcp_report_exact:
  assumes "length name \<le> 63"
    and "9435484800 * 10000000 \<le> unat ft" "unat ft < (9435484800 + 2 ^ 32) * 10000000"
  shows "\<exists>hi lo z. rtcp_split (build_rtcp_compound 512 src ts pc oc (Some name) ft)
      = Some [(0, 200, be32 src @ be32 hi @ be32 lo @ be32 ts @ be32 pc @ be32 oc),
              (1, 201, be32 src @ [1, of_nat (length name)] @ name @ replicate z 0)]
    \<and> 1 \<le> z \<and> z \<le> 4
    \<and> unat hi * 2 ^ 32 + unat lo = (unat ft - 9435484800 * 10000000) * 2 ^ 32 div 10000000
    \<and> length (build_rtcp_compound 512 src ts pc oc (Some name) ft) \<le> 104"
proof -
  let ?z = "pad4 (11 + length name) - (10 + length name)"
  have "1 \<le> ?z" "?z \<le> 4" using pad4_props [of "11 + length name"] by linarith+
  moreover have "length (build_rtcp_compound 512 src ts pc oc (Some name) ft) \<le> 104"
    using cname_body_length(1) [OF assms(1), of src] cname_body_length(2) [OF assms(1)]
    by (simp add: compound_shape [OF assms(1)] report_body_def)
  moreover note compound_split [OF assms(1), unfolded report_body_def cname_body_def]
    ntp_exact [OF assms(2,3)]
  ultimately show ?thesis by blast
qed

theorem rtcp_report_exact_witness:
  "\<exists>hi lo z. rtcp_split (build_rtcp_compound 512 7 90 3 600 (Some [108, 52]) 133500000000000000)
      = Some [(0, 200, be32 7 @ be32 hi @ be32 lo @ be32 90 @ be32 3 @ be32 600),
              (1, 201, be32 7 @ [1, 2] @ [108, 52] @ replicate z 0)]
    \<and> unat hi = 3914515200"
proof -
  have "length [108, 52 :: u8] \<le> 63"
    "9435484800 * 10000000 \<le> unat (133500000000000000 :: u64)"
    "unat (133500000000000000 :: u64) < (9435484800 + 2 ^ 32) * 10000000"
    by simp_all
  from rtcp_report_exact [OF this, of 7 90 3 600] obtain hi lo :: u32 and z where
    r: "rtcp_split (build_rtcp_compound 512 7 90 3 600 (Some [108, 52]) 133500000000000000)
      = Some [(0, 200, be32 7 @ be32 hi @ be32 lo @ be32 90 @ be32 3 @ be32 600),
              (1, 201, be32 7 @ [1, of_nat (length [108, 52 :: u8])] @ [108, 52] @ replicate z 0)]"
    and n: "unat hi * 2 ^ 32 + unat lo
      = (unat (133500000000000000 :: u64) - 9435484800 * 10000000) * 2 ^ 32 div 10000000"
    by blast
  have "unat hi * 2 ^ 32 + unat lo = 3914515200 * 2 ^ 32" using n by simp
  then have "unat hi = 3914515200" using unat_lt [of lo] by simp
  then show ?thesis using r by auto
qed

section \<open>The rate limits of the poll\<close>

text \<open>
  A run of polls. Before each one, datagrams may arrive; an entry of the log has the time of the
  poll, whether it tried to send a report, and whether it announced a picture loss.
\<close>

type_synonym poll_entry = "u64 \<times> bool \<times> bool"

fun poll_run :: "l4c_rtp_sender \<Rightarrow> net \<Rightarrow> (u64 \<times> bool \<times> bytes list) list \<Rightarrow> poll_entry list" where
  "poll_run s w [] = []"
| "poll_run s w ((filetime, want, arrivals) # ps) =
     (case l4c_rtp_sender_poll_rtcp s filetime want (w\<lparr>inbox := inbox w @ arrivals\<rparr>) of
        (pli, s', w') \<Rightarrow> (clock w (readings w), attempts w < attempts w', pli) # poll_run s' w' ps)"

definition spaced :: "nat \<Rightarrow> u64 list \<Rightarrow> bool" where
  "spaced d ts \<longleftrightarrow> sorted_wrt (\<lambda>a b. unat a + d \<le> unat b) ts"

definition report_times :: "poll_entry list \<Rightarrow> u64 list" where
  "report_times log = map fst (filter (\<lambda>(t, r, p). r) log)"

definition pli_times :: "poll_entry list \<Rightarrow> u64 list" where
  "pli_times log = map fst (filter (\<lambda>(t, r, p). p) log)"

lemma poll_effect:
  assumes "l4c_rtp_sender_poll_rtcp s ft want w = (pli, s', w')"
    and "last_rtcp_ms s \<le> clock w (readings w)" "last_pli_ms s \<le> clock w (readings w)"
  defines "now \<equiv> clock w (readings w)"
  shows "clock w' = clock w \<and> readings w' = readings w + 1 \<and>
    (if attempts w < attempts w' then unat (last_rtcp_ms s) + 1000 \<le> unat now \<and> last_rtcp_ms s' = now
     else last_rtcp_ms s' = last_rtcp_ms s \<or> last_rtcp_ms s' = now) \<and>
    (if pli then unat (last_pli_ms s) + 500 \<le> unat now \<and> last_pli_ms s' = now
     else last_pli_ms s' = last_pli_ms s)"
proof -
  have elapsed: "unat a + d \<le> unat now" if "of_nat d \<le> now - a" "a \<le> now" "d < 2 ^ 64" for a :: u64 and d
    using that unat_sub [of a now] by (simp add: word_le_nat_alt unat_of_nat)
  show ?thesis
    using assms(1-3) elapsed [of 1000 "last_rtcp_ms s"] elapsed [of 500 "last_pli_ms s"]
    unfolding l4c_rtp_sender_poll_rtcp_def l4c_now_monotonic_ms_def send_report_def
      read_feedback_def recv_rtcp_def sendto_rtcp_def Let_def now_def [symmetric]
    by (auto split: if_splits prod.splits option.splits list.splits)
qed

text \<open>A mark \<open>a\<close> before the mark \<open>b\<close> of a spaced list, with the poll's own time in between.\<close>

lemma spaced_extend:
  assumes "spaced d (b # ts)"
    and "if hit then unat a + d \<le> unat now \<and> b = now else unat a \<le> unat b"
  shows "spaced d (a # (if hit then now # ts else ts))"
proof -
  have "unat a + d \<le> unat t" if "t \<in> set ts" for t
  proof -
    have "unat b + d \<le> unat t" using assms(1) that by (simp add: spaced_def)
    then show ?thesis using assms(2) by (auto split: if_splits)
  qed
  then show ?thesis using assms by (auto simp: spaced_def)
qed

lemma poll_run_spaced:
  assumes "\<And>i j. i \<le> j \<Longrightarrow> clock w i \<le> clock w j"
    and "last_rtcp_ms s \<le> clock w (readings w)" "last_pli_ms s \<le> clock w (readings w)"
  shows "spaced 1000 (last_rtcp_ms s # report_times (poll_run s w ps))
    \<and> spaced 500 (last_pli_ms s # pli_times (poll_run s w ps))"
  using assms
proof (induction ps arbitrary: s w)
  case Nil
  then show ?case by (simp add: spaced_def report_times_def pli_times_def)
next
  case (Cons p ps)
  obtain ft want arr where p: "p = (ft, want, arr)" by (cases p) auto
  let ?w = "w\<lparr>inbox := inbox w @ arr\<rparr>"
  obtain pli s' w' where step: "l4c_rtp_sender_poll_rtcp s ft want ?w = (pli, s', w')"
    by (cases "l4c_rtp_sender_poll_rtcp s ft want ?w") auto
  define now where "now = clock w (readings w)"
  define rest where "rest = poll_run s' w' ps"
  have eff: "clock w' = clock w" "readings w' = readings w + 1"
    "if attempts w < attempts w' then unat (last_rtcp_ms s) + 1000 \<le> unat now \<and> last_rtcp_ms s' = now
     else last_rtcp_ms s' = last_rtcp_ms s \<or> last_rtcp_ms s' = now"
    "if pli then unat (last_pli_ms s) + 500 \<le> unat now \<and> last_pli_ms s' = now
     else last_pli_ms s' = last_pli_ms s"
    using poll_effect [OF step] Cons.prems(2,3) by (auto simp: now_def split: if_splits)
  have later: "now \<le> clock w' (readings w')"
    using Cons.prems(1) [of "readings w" "readings w + 1"] by (simp add: eff now_def)
  have before: "last_rtcp_ms s \<le> now" "last_pli_ms s \<le> now"
    using Cons.prems(2,3) by (simp_all add: now_def)
  have "last_rtcp_ms s' \<le> now" "last_pli_ms s' \<le> now"
    using eff(3,4) before by (auto split: if_splits)
  then have IH: "spaced 1000 (last_rtcp_ms s' # report_times rest)"
      "spaced 500 (last_pli_ms s' # pli_times rest)"
    using Cons.IH [of w' s'] Cons.prems(1) later unfolding rest_def eff(1) by (auto intro: order_trans)
  have log: "poll_run s w (p # ps) = (now, attempts w < attempts w', pli) # rest"
    by (simp add: p step now_def rest_def)
  have "spaced 1000 (last_rtcp_ms s # report_times (poll_run s w (p # ps)))"
    using spaced_extend [OF IH(1), of "attempts w < attempts w'" "last_rtcp_ms s" now] eff(3) before(1)
    unfolding log by (auto simp: report_times_def word_le_nat_alt split: if_splits)
  moreover have "spaced 500 (last_pli_ms s # pli_times (poll_run s w (p # ps)))"
    using spaced_extend [OF IH(2), of pli "last_pli_ms s" now] eff(4)
    unfolding log by (auto simp: pli_times_def split: if_splits)
  ultimately show ?case by simp
qed

text \<open>
  C32: the poll's rate limits hold on every run. Whatever arrives on the RTCP socket and whatever
  the sends answer, with a clock that does not run backwards the reports of a session are at least
  a second apart and the picture losses it announces at least half a second apart, the first ones
  counted from the session's own marks.
\<close>

theorem poll_rate_limits:
  assumes "\<forall>i j. i \<le> j \<longrightarrow> clock w i \<le> clock w j"
    and "last_rtcp_ms s \<le> clock w (readings w)" "last_pli_ms s \<le> clock w (readings w)"
  shows "spaced 1000 (last_rtcp_ms s # report_times (poll_run s w ps))
    \<and> spaced 500 (last_pli_ms s # pli_times (poll_run s w ps))"
  using assms by (intro poll_run_spaced) auto

theorem poll_rate_limits_witness:
  "\<exists>s w. poll_run s w (replicate 3 (0, True, [[129, 206, 0, 2, 0, 0, 0, 0, 0, 0, 0, 1]]))
      = [(1000, True, True), (1400, False, False), (2500, True, True)]
    \<and> spaced 1000 (last_rtcp_ms s # [1000, 2500]) \<and> spaced 500 (last_pli_ms s # [1000, 2500])"
proof -
  define s where "s = \<lparr>rtp_addr = ([], 5004), rtcp_addr = ([], 5005), snd_ssrc = 7, seq_num = 65535,
       snd_payload_type = 96, base_ts = 100, pts_start_ms = 10, first_send_tick_ms = 0,
       pts_start_set = True, stats = zero_stats, last_rtcp_ms = 0, cname = [], last_pli_ms = 0\<rparr>"
  define w where "w = \<lparr>verdicts = (\<lambda>_. True), attempts = 0,
      clock = (\<lambda>i. if i = 0 then 1000 else if i = 1 then 1400 else 2500), readings = 0, inbox = [],
      rtp_out = [], rtcp_out = []\<rparr>"
  let ?ps = "replicate 3 (0, True, [[129, 206, 0, 2, 0, 0, 0, 0, 0, 0, 0, 1]])"
  have run: "poll_run s w ?ps = [(1000, True, True), (1400, False, False), (2500, True, True)]"
    unfolding s_def w_def by code_simp
  have "\<forall>i j. i \<le> j \<longrightarrow> clock w i \<le> clock w j" by (simp add: w_def)
  from poll_rate_limits [OF this, of s ?ps] run show ?thesis
    by (intro exI [of _ s] exI [of _ w]) (simp add: s_def w_def report_times_def pli_times_def)
qed

end
