(* ===== verification/Ingress_Feedback.thy ===== *)
theory Ingress_Feedback
  imports L4_Prelude "HOL-Library.Sublist"
begin

text \<open>
  The media ingress service, \<open>l4media/ingress/src/l4media_ingress.c\<close>: the connection record, and the
  RTCP feedback path from Janus back to the publisher. Feedback datagrams are checked, rate limited,
  framed into a byte queue and written to a TCP stream that accepts any number of bytes at a time;
  a route change may cut the queue at any moment. The theory shows that the datagram check accepts
  exactly the sequences of well-formed RTCP packets, that the publisher always sees whole frames,
  and that keyframe requests keep their distance.
\<close>

section \<open>Definitions of the source\<close>

abbreviation FEEDBACK_QUEUE_SIZE :: nat where "FEEDBACK_QUEUE_SIZE \<equiv> 131072"
abbreviation MAX_RTP_PAYLOAD_SIZE :: nat where "MAX_RTP_PAYLOAD_SIZE \<equiv> 65507"
abbreviation L4RTP_FRAME_RTCP :: u8 where "L4RTP_FRAME_RTCP \<equiv> 2"

datatype client_state = STATE_PREAMBLE | STATE_FRAMING

text \<open>
  A connection. Buffers hold the bytes written so far (\<open>rx_buf\<close> up to \<open>rx_len\<close>, \<open>tx_buf\<close> up to
  \<open>tx_len\<close>); the address of a target is the port, the host being the same for all; \<open>rtcp_open\<close>
  says that the feedback descriptor is open and \<open>want_out\<close> that write readiness is polled.
\<close>

record ingress_client =
  cl_state :: client_state
  cl_sn :: string
  epoch :: u64
  camera_route_generation :: u32
  camera_route_revoked :: bool
  rx_buf :: bytes
  rtp_target :: int
  rtcp_target :: int
  cl_rtp_port :: int
  cl_rtcp_port :: int
  rtcp_open :: bool
  rtcp_generation :: u64
  tx_buf :: bytes
  tx_off :: nat
  tx_first_end :: nat
  feedback_dropped :: u64
  keyframe_feedback_at_ms :: u64
  keyframe_feedback_interval_ms :: u32
  want_out :: bool
  rtp_packets :: u64
  rtcp_packets :: u64
  unrouted_packets :: u64
  keepalive_packets :: u64
  total_bytes :: u64
  connect_time :: int
  last_activity :: int
  last_activity_monotonic_ms :: u64
  last_rtp_monotonic_ms :: u64
  last_rtp_time :: int
  last_rtcp_time :: int

abbreviation tx_len :: "ingress_client \<Rightarrow> nat" where "tx_len c \<equiv> length (tx_buf c)"

text \<open>The record of a new connection, zero but for its epoch, its state and the times.\<close>

definition new_client :: "u64 \<Rightarrow> int \<Rightarrow> u64 \<Rightarrow> ingress_client" where
  "new_client ep now mono_ms =
     \<lparr>cl_state = STATE_PREAMBLE, cl_sn = [], epoch = ep, camera_route_generation = 0,
      camera_route_revoked = False, rx_buf = [], rtp_target = 0, rtcp_target = 0, cl_rtp_port = 0,
      cl_rtcp_port = 0, rtcp_open = False, rtcp_generation = 0, tx_buf = [], tx_off = 0,
      tx_first_end = 0, feedback_dropped = 0, keyframe_feedback_at_ms = 0,
      keyframe_feedback_interval_ms = 0, want_out = False, rtp_packets = 0, rtcp_packets = 0,
      unrouted_packets = 0, keepalive_packets = 0, total_bytes = 0, connect_time = now,
      last_activity = now, last_activity_monotonic_ms = mono_ms, last_rtp_monotonic_ms = 0,
      last_rtp_time = 0, last_rtcp_time = 0\<rparr>"

definition update_feedback_interest :: "ingress_client \<Rightarrow> ingress_client" where
  "update_feedback_interest c = c\<lparr>want_out := (tx_off c < tx_len c)\<rparr>"

definition reset_feedback :: "ingress_client \<Rightarrow> ingress_client" where
  "reset_feedback c =
     (let c = c\<lparr>keyframe_feedback_at_ms := 0, keyframe_feedback_interval_ms := 0\<rparr>;
          c = (if rtcp_open c then c\<lparr>rtcp_open := False\<rparr> else c);
          c = (if tx_off c \<noteq> 0 \<and> tx_off c < tx_first_end c
               then c\<lparr>tx_buf := take (tx_first_end c) (tx_buf c)\<rparr>
               else c\<lparr>tx_buf := [], tx_off := 0, tx_first_end := 0\<rparr>) in
      update_feedback_interest c)"

text \<open>The length in bytes an RTCP header announces.\<close>

definition rtcp_bytes :: "bytes \<Rightarrow> nat" where
  "rtcp_bytes p = (unat (rd_be16 (p ! 2) (p ! 3)) + 1) * 4"

lemma rtcp_bytes_pos: "4 \<le> rtcp_bytes p"
  by (simp add: rtcp_bytes_def)

lemma rtcp_bytes_shrinks: "d \<noteq> [] \<Longrightarrow> length d - rtcp_bytes d < length d"
  using rtcp_bytes_pos [of d] by (cases d) auto

text \<open>The loop of \<open>valid_rtcp\<close> on the bytes from \<open>off\<close> on.\<close>

function rtcp_walk :: "bytes \<Rightarrow> bool" where
  "rtcp_walk d =
     (if d = [] then True
      else if length d < 4 \<or> drop_bit 6 (d ! 0) \<noteq> 2 \<or> d ! 1 < 192 \<or> 223 < d ! 1 then False
      else let n = rtcp_bytes d in
        if length d < n then False
        else if d ! 0 AND 32 \<noteq> 0 \<and>
                (n \<noteq> length d \<or> d ! (n - 1) = 0 \<or> n - 4 < unat (d ! (n - 1))) then False
        else rtcp_walk (drop n d))"
  by auto
termination
  by (relation "measure length") (auto simp: rtcp_bytes_shrinks)

definition valid_rtcp :: "bytes \<Rightarrow> bool" where
  "valid_rtcp d \<longleftrightarrow> rtcp_walk d \<and> 4 \<le> length d"

text \<open>
  What one \<open>send\<close> on the publisher's socket may answer. \<open>Sent n\<close> is a socket that takes up to \<open>n\<close>
  of the bytes it is offered; taking none, and \<open>Broken\<close>, end the connection; \<open>Interrupted\<close> is
  retried; when the list of answers is used up the socket is full.
\<close>

datatype send_result = Sent nat | Interrupted | WouldBlock | Broken

definition mark_first :: "ingress_client \<Rightarrow> ingress_client" where
  "mark_first c =
     (if tx_first_end c = 0
      then c\<lparr>tx_first_end := tx_off c + 4
             + unat (rd_be16 (tx_buf c ! (tx_off c + 2)) (tx_buf c ! (tx_off c + 3)))\<rparr>
      else c)"

definition advance :: "ingress_client \<Rightarrow> nat \<Rightarrow> ingress_client" where
  "advance c n =
     (let c = c\<lparr>tx_off := tx_off c + n\<rparr> in
      if tx_off c = tx_first_end c then c\<lparr>tx_first_end := 0\<rparr> else c)"

fun flush_loop :: "ingress_client \<Rightarrow> send_result list \<Rightarrow> bool \<times> ingress_client \<times> bytes" where
  "flush_loop c [] = (True, if tx_off c < tx_len c then mark_first c else c, [])"
| "flush_loop c (out # outs) =
     (if tx_off c < tx_len c then
        (case out of
           WouldBlock \<Rightarrow> (True, mark_first c, [])
         | Broken \<Rightarrow> (False, mark_first c, [])
         | Interrupted \<Rightarrow> flush_loop (mark_first c) outs
         | Sent most \<Rightarrow>
             let n = min most (tx_first_end (mark_first c) - tx_off c) in
             if n = 0 then (False, mark_first c, [])
             else case flush_loop (advance (mark_first c) n) outs of
               (ok, c', later) \<Rightarrow> (ok, c', slice_at (tx_off c) n (tx_buf c) @ later))
      else (True, c, []))"

text \<open>
  \<open>current\<close> is the answer of \<open>camera_connection_current\<close>, \<open>epoll_ok\<close> that of \<open>epoll_ctl\<close>. The
  results are whether the connection goes on, the connection and the bytes the socket took.
\<close>

definition flush_feedback ::
  "bool \<Rightarrow> bool \<Rightarrow> ingress_client \<Rightarrow> send_result list \<Rightarrow> bool \<times> ingress_client \<times> bytes" where
  "flush_feedback current epoll_ok c outs =
     (if \<not> current then (False, c, [])
      else case flush_loop c outs of
        (False, c, sent) \<Rightarrow> (False, c, sent)
      | (True, c, sent) \<Rightarrow>
          let c = (if tx_off c = tx_len c then c\<lparr>tx_buf := [], tx_off := 0, tx_first_end := 0\<rparr> else c) in
          (epoll_ok, update_feedback_interest c, sent))"

text \<open>The loop over the packets of a datagram: what is kept, and the connection after it.\<close>

function coalesce_loop :: "ingress_client \<Rightarrow> bytes \<Rightarrow> u64 \<Rightarrow> bytes \<times> ingress_client" where
  "coalesce_loop c p now_ms =
     (if p = [] then ([], c)
      else
        let n = rtcp_bytes p;
            fmt = p ! 0 AND 31;
            keyframe = (p ! 1 = 206 \<and> (fmt = 1 \<or> fmt = 4));
            limited = (keyframe \<and> keyframe_feedback_at_ms c \<noteq> 0
                       \<and> now_ms - keyframe_feedback_at_ms c < ucast (keyframe_feedback_interval_ms c)) in
        if \<not> limited then
          (case coalesce_loop (if keyframe then c\<lparr>keyframe_feedback_at_ms := now_ms\<rparr> else c)
                  (drop n p) now_ms of
             (rest, c') \<Rightarrow> (take n p @ rest, c'))
        else coalesce_loop (c\<lparr>feedback_dropped := feedback_dropped c + 1\<rparr>) (drop n p) now_ms)"
  by auto
termination
  by (relation "measure (\<lambda>(c, p, now). length p)") (auto simp: rtcp_bytes_shrinks)

declare coalesce_loop.simps [simp del] rtcp_walk.simps [simp del]

definition coalesce_feedback :: "ingress_client \<Rightarrow> bytes \<Rightarrow> u64 \<Rightarrow> bytes \<times> ingress_client" where
  "coalesce_feedback c p now_ms =
     (if keyframe_feedback_interval_ms c = 0 then (p, c) else coalesce_loop c p now_ms)"

text \<open>One datagram of the feedback socket; \<open>now_ms\<close> is the clock read for it.\<close>

definition receive_one :: "ingress_client \<Rightarrow> bytes \<Rightarrow> u64 \<Rightarrow> ingress_client" where
  "receive_one c packet now_ms =
     (if MAX_RTP_PAYLOAD_SIZE < length packet \<or> \<not> valid_rtcp packet then c
      else if FEEDBACK_QUEUE_SIZE - tx_len c < length packet + 4
        then c\<lparr>feedback_dropped := feedback_dropped c + 1\<rparr>
      else case coalesce_feedback c packet now_ms of
        (kept, c) \<Rightarrow>
          if kept = [] then c
          else c\<lparr>tx_buf := tx_buf c @ [L4RTP_FRAME_RTCP, 0] @ be16 (of_nat (length kept)) @ kept\<rparr>)"

text \<open>At most 32 datagrams are read before the queue is flushed.\<close>

definition receive_feedback ::
  "bool \<Rightarrow> bool \<Rightarrow> ingress_client \<Rightarrow> (bytes \<times> u64) list \<Rightarrow> send_result list \<Rightarrow>
     bool \<times> ingress_client \<times> bytes" where
  "receive_feedback current epoll_ok c packets outs =
     (if \<not> current then (False, c, [])
      else flush_feedback current epoll_ok
             (foldl (\<lambda>c (packet, now_ms). receive_one c packet now_ms) c (take 32 packets)) outs)"

section \<open>What the datagram check accepts\<close>

text \<open>
  An RTCP packet by RFC 3550: version 2, a packet type of the RTCP range, the announced length, and
  the padding count when the padding bit is set.
\<close>

definition rtcp_packet :: "bytes \<Rightarrow> bool" where
  "rtcp_packet p \<longleftrightarrow> 4 \<le> length p \<and> drop_bit 6 (p ! 0) = 2 \<and> 192 \<le> p ! 1 \<and> p ! 1 \<le> 223
     \<and> length p = rtcp_bytes p
     \<and> (p ! 0 AND 32 \<noteq> 0 \<longrightarrow> last p \<noteq> 0 \<and> unat (last p) \<le> length p - 4)"

definition padded :: "bytes \<Rightarrow> bool" where
  "padded p \<longleftrightarrow> p ! 0 AND 32 \<noteq> 0"

fun compound :: "bytes list \<Rightarrow> bool" where
  "compound [] = True"
| "compound (p # ps) \<longleftrightarrow> rtcp_packet p \<and> (padded p \<longrightarrow> ps = []) \<and> compound ps"

lemma rtcp_bytes_take: "4 \<le> n \<Longrightarrow> rtcp_bytes (take n d) = rtcp_bytes d"
  by (simp add: rtcp_bytes_def)

lemma rtcp_bytes_append: "4 \<le> length p \<Longrightarrow> rtcp_bytes (p @ d) = rtcp_bytes p"
  by (simp add: rtcp_bytes_def nth_append)

lemma packet_head:
  assumes "4 \<le> rtcp_bytes d" "rtcp_bytes d \<le> length d"
  shows "last (take (rtcp_bytes d) d) = d ! (rtcp_bytes d - 1)"
proof -
  have "take (rtcp_bytes d) d \<noteq> []" using assms by (cases d) auto
  then show ?thesis using assms by (simp add: last_conv_nth)
qed

lemma rtcp_walk_step:
  assumes "d \<noteq> []"
  shows "rtcp_walk d \<longleftrightarrow> rtcp_bytes d \<le> length d \<and> rtcp_packet (take (rtcp_bytes d) d)
    \<and> (padded d \<longrightarrow> rtcp_bytes d = length d) \<and> rtcp_walk (drop (rtcp_bytes d) d)"
proof (cases "4 \<le> length d \<and> rtcp_bytes d \<le> length d")
  case True
  have b: "4 \<le> rtcp_bytes d" by (rule rtcp_bytes_pos)
  have "(take (rtcp_bytes d) d) ! 0 = d ! 0" "(take (rtcp_bytes d) d) ! 1 = d ! 1"
    using b by auto
  then show ?thesis
    using True assms b packet_head [OF b] rtcp_bytes_take [OF b, of d]
    by (subst rtcp_walk.simps) (auto simp: rtcp_packet_def padded_def Let_def not_less)
next
  case False
  then show ?thesis
    using assms by (subst rtcp_walk.simps) (auto simp: rtcp_packet_def Let_def)
qed

lemma rtcp_walk_compound: "rtcp_walk d \<longleftrightarrow> (\<exists>ps. compound ps \<and> d = concat ps)"
proof
  show "\<exists>ps. compound ps \<and> d = concat ps" if "rtcp_walk d"
    using that
  proof (induction d rule: length_induct)
    case (1 d)
    show ?case
    proof (cases "d = []")
      case True
      then show ?thesis by (intro exI [of _ "[]"]) simp
    next
      case False
      let ?n = "rtcp_bytes d"
      from 1(2) False have d: "?n \<le> length d" "rtcp_packet (take ?n d)" "padded d \<longrightarrow> ?n = length d"
          "rtcp_walk (drop ?n d)"
        by (simp_all add: rtcp_walk_step)
      have "length (drop ?n d) < length d" using False rtcp_bytes_shrinks by simp
      then obtain ps where ps: "compound ps" "drop ?n d = concat ps" using 1(1) d(4) by blast
      show ?thesis
      proof (cases "padded d")
        case True
        then have "take ?n d = d" using d(3) by simp
        then show ?thesis using d(2) by (intro exI [of _ "[d]"]) simp
      next
        case False
        then have "\<not> padded (take ?n d)" using rtcp_bytes_pos [of d] by (simp add: padded_def)
        then show ?thesis
          using ps d(2) append_take_drop_id [of ?n d] by (intro exI [of _ "take ?n d # ps"]) simp
      qed
    qed
  qed
next
  assume "\<exists>ps. compound ps \<and> d = concat ps"
  then obtain ps where "compound ps" "d = concat ps" by blast
  then show "rtcp_walk d"
  proof (induction ps arbitrary: d)
    case Nil
    then show ?case by (simp add: rtcp_walk.simps [of "[]"])
  next
    case (Cons p ps)
    then have p: "rtcp_packet p" "padded p \<longrightarrow> ps = []" by simp_all
    then have "4 \<le> length p" "rtcp_bytes p = length p" by (simp_all add: rtcp_packet_def)
    note p = p this
    have b: "rtcp_bytes d = length p"
      using p Cons.prems(2) by (simp add: rtcp_bytes_append rtcp_packet_def)
    have "padded d = padded p" "d \<noteq> []"
      using p Cons.prems(2) by (auto simp: padded_def nth_append)
    then show ?case
      using p b Cons by (simp add: rtcp_walk_step)
  qed
qed

lemma valid_rtcp_compound: "compound (p # ps) \<Longrightarrow> valid_rtcp (concat (p # ps))"
proof -
  assume c: "compound (p # ps)"
  then have "4 \<le> length (concat (p # ps))" by (simp add: rtcp_packet_def trans_le_add1)
  then show ?thesis unfolding valid_rtcp_def rtcp_walk_compound using c by blast
qed

text \<open>
  the check of a feedback datagram is exact. It accepts a byte string if and only if it is a
  non-empty sequence of well-formed RTCP packets of which only the last may be padded.
\<close>

theorem valid_rtcp_exact: "valid_rtcp d \<longleftrightarrow> (\<exists>ps. ps \<noteq> [] \<and> compound ps \<and> d = concat ps)"
proof
  assume "valid_rtcp d"
  then obtain ps where "compound ps" "d = concat ps" "4 \<le> length d"
    by (auto simp: valid_rtcp_def rtcp_walk_compound)
  then show "\<exists>ps. ps \<noteq> [] \<and> compound ps \<and> d = concat ps" by (intro exI [of _ ps]) auto
next
  assume "\<exists>ps. ps \<noteq> [] \<and> compound ps \<and> d = concat ps"
  then obtain p ps where "compound (p # ps)" "d = concat (p # ps)" by (metis neq_Nil_conv)
  then show "valid_rtcp d" using valid_rtcp_compound by blast
qed

section \<open>The keyframe limit\<close>

text \<open>What the rate limit keeps of a list of packets, and the mark it leaves.\<close>

definition keyframe :: "bytes \<Rightarrow> bool" where
  "keyframe p \<longleftrightarrow> p ! 1 = 206 \<and> (p ! 0 AND 31 = 1 \<or> p ! 0 AND 31 = 4)"

fun kept :: "u64 \<Rightarrow> u64 \<Rightarrow> u64 \<Rightarrow> bytes list \<Rightarrow> bytes list \<times> u64" where
  "kept at interval now [] = ([], at)"
| "kept at interval now (p # ps) =
     (if keyframe p \<and> at \<noteq> 0 \<and> now - at < interval then kept at interval now ps
      else map_prod ((#) p) id (kept (if keyframe p then now else at) interval now ps))"

lemma kept_subseq: "subseq (fst (kept at interval now ps)) ps"
  by (induction ps arbitrary: at) auto

lemma compound_subseq: "subseq qs ps \<Longrightarrow> compound ps \<Longrightarrow> compound qs"
proof (induction rule: list_emb.induct)
  case (list_emb_Cons2 x y xs ys)
  then show ?case by (auto elim: list_emb.cases)
qed auto

lemma coalesce_loop_kept:
  assumes "compound ps"
  shows "fst (coalesce_loop c (concat ps) now)
         = concat (fst (kept (keyframe_feedback_at_ms c) (ucast (keyframe_feedback_interval_ms c)) now ps))
    \<and> (\<exists>d. snd (coalesce_loop c (concat ps) now)
         = c\<lparr>keyframe_feedback_at_ms := snd (kept (keyframe_feedback_at_ms c)
               (ucast (keyframe_feedback_interval_ms c)) now ps), feedback_dropped := d\<rparr>)"
  using assms
proof (induction ps arbitrary: c)
  case Nil
  show ?case
    by (subst (1 2) coalesce_loop.simps) (simp, metis ingress_client.surjective ingress_client.update_convs(16,17))
next
  case (Cons p ps)
  have p: "rtcp_packet p" "compound ps" using Cons.prems by simp_all
  then have len: "4 \<le> length p" "rtcp_bytes p = length p" by (simp_all add: rtcp_packet_def)
  define d where "d = p @ concat ps"
  have b: "rtcp_bytes d = length p" "d \<noteq> []" "d ! 0 = p ! 0" "d ! 1 = p ! 1"
    using len by (auto simp: rtcp_bytes_append nth_append d_def)
  have d: "take (length p) d = p" "drop (length p) d = concat ps" by (simp_all add: d_def)
  have step: "coalesce_loop c d now =
     (if keyframe p \<and> keyframe_feedback_at_ms c \<noteq> 0
         \<and> now - keyframe_feedback_at_ms c < ucast (keyframe_feedback_interval_ms c)
      then coalesce_loop (c\<lparr>feedback_dropped := feedback_dropped c + 1\<rparr>) (concat ps) now
      else case coalesce_loop (if keyframe p then c\<lparr>keyframe_feedback_at_ms := now\<rparr> else c) (concat ps) now of
             (rest, c') \<Rightarrow> (p @ rest, c'))"
    using b d by (subst coalesce_loop.simps) (auto simp: Let_def keyframe_def)
  let ?c1 = "c\<lparr>feedback_dropped := feedback_dropped c + 1\<rparr>"
  let ?c2 = "if keyframe p then c\<lparr>keyframe_feedback_at_ms := now\<rparr> else c"
  show ?case
    using Cons.IH [OF p(2), of ?c1] Cons.IH [OF p(2), of ?c2] step
    by (cases "coalesce_loop ?c2 (concat ps) now") (auto simp flip: d_def)
qed

lemma coalesce_feedback_kept:
  assumes "compound ps"
  shows "\<exists>qs at d. subseq qs ps \<and>
    coalesce_feedback c (concat ps) now
      = (concat qs, c\<lparr>keyframe_feedback_at_ms := at, feedback_dropped := d\<rparr>)"
proof (cases "keyframe_feedback_interval_ms c = 0")
  case True
  then have "coalesce_feedback c (concat ps) now = (concat ps,
      c\<lparr>keyframe_feedback_at_ms := keyframe_feedback_at_ms c, feedback_dropped := feedback_dropped c\<rparr>)"
    by (simp add: coalesce_feedback_def)
  then show ?thesis using subseq_order.order_refl by blast
next
  case False
  let ?k = "kept (keyframe_feedback_at_ms c) (ucast (keyframe_feedback_interval_ms c)) now ps"
  from coalesce_loop_kept [OF assms, of c now] obtain d where
    "coalesce_loop c (concat ps) now
      = (concat (fst ?k), c\<lparr>keyframe_feedback_at_ms := snd ?k, feedback_dropped := d\<rparr>)"
    by (metis prod.collapse)
  then show ?thesis
    using False kept_subseq unfolding coalesce_feedback_def by fastforce
qed

section \<open>Whole frames on the publisher's stream\<close>

definition feedback_frame :: "bytes \<Rightarrow> bytes" where
  "feedback_frame body = [L4RTP_FRAME_RTCP, 0] @ be16 (of_nat (length body)) @ body"

definition is_frame :: "bytes \<Rightarrow> bool" where
  "is_frame f \<longleftrightarrow> (\<exists>body. f = feedback_frame body \<and> valid_rtcp body \<and> length body \<le> MAX_RTP_PAYLOAD_SIZE)"

text \<open>The frame one datagram adds to the queue, if any.\<close>

definition new_frame :: "ingress_client \<Rightarrow> bytes \<Rightarrow> u64 \<Rightarrow> bytes list" where
  "new_frame c packet now =
     (if tx_buf (receive_one c packet now) = tx_buf c then []
      else [drop (tx_len c) (tx_buf (receive_one c packet now))])"

lemma concat_subseq_length: "subseq qs ps \<Longrightarrow> length (concat qs) \<le> length (concat ps)"
  by (induction rule: list_emb.induct) auto

lemma receive_one_queue:
  "\<exists>fs. length fs \<le> 1 \<and> list_all is_frame fs \<and> new_frame c packet now = fs
    \<and> tx_buf (receive_one c packet now) = tx_buf c @ concat fs
    \<and> tx_off (receive_one c packet now) = tx_off c
    \<and> tx_first_end (receive_one c packet now) = tx_first_end c
    \<and> length (tx_buf (receive_one c packet now)) \<le> max (tx_len c) FEEDBACK_QUEUE_SIZE"
proof (cases "MAX_RTP_PAYLOAD_SIZE < length packet \<or> \<not> valid_rtcp packet
    \<or> FEEDBACK_QUEUE_SIZE - tx_len c < length packet + 4")
  case True
  then have "tx_buf (receive_one c packet now) = tx_buf c"
    "tx_off (receive_one c packet now) = tx_off c"
    "tx_first_end (receive_one c packet now) = tx_first_end c"
    by (auto simp: receive_one_def)
  then show ?thesis by (simp add: new_frame_def)
next
  case False
  then obtain ps where ps: "compound ps" "packet = concat ps" by (auto simp: valid_rtcp_def rtcp_walk_compound)
  then obtain qs at d where q: "subseq qs ps"
      "coalesce_feedback c packet now = (concat qs, c\<lparr>keyframe_feedback_at_ms := at, feedback_dropped := d\<rparr>)"
    using coalesce_feedback_kept by blast
  have len: "length (concat qs) \<le> length packet" using concat_subseq_length q(1) ps(2) by blast
  define r where "r = receive_one c packet now"
  show ?thesis
  proof (cases "concat qs = []")
    case True
    then have "r = c\<lparr>keyframe_feedback_at_ms := at, feedback_dropped := d\<rparr>"
      using False q(2) by (simp add: r_def receive_one_def)
    then show ?thesis by (simp add: new_frame_def flip: r_def)
  next
    case some: False
    then have r: "r = c\<lparr>keyframe_feedback_at_ms := at, feedback_dropped := d,
        tx_buf := tx_buf c @ feedback_frame (concat qs)\<rparr>"
      using False q(2) by (simp add: r_def receive_one_def feedback_frame_def)
    have "compound qs" "qs \<noteq> []" using compound_subseq [OF q(1) ps(1)] some by auto
    then have "valid_rtcp (concat qs)" using valid_rtcp_compound by (cases qs) auto
    then have "is_frame (feedback_frame (concat qs))"
      using len False unfolding is_frame_def by (intro exI [of _ "concat qs"]) auto
    then show ?thesis
      using len False by (auto simp: r new_frame_def feedback_frame_def be16_def simp flip: r_def)
  qed
qed

text \<open>
  The state of the stream: \<open>sent\<close> is what the socket has taken, \<open>acc\<close> the frames ever queued. What was
  sent is whole frames \<open>fs\<close> and a part \<open>p\<close> of one whose rest \<open>q\<close> is at the head of the queue, before
  the whole frames \<open>gs\<close>.
\<close>

definition stream_state ::
  "ingress_client \<Rightarrow> bytes \<Rightarrow> bytes list \<Rightarrow> bytes list \<Rightarrow> bytes \<Rightarrow> bytes \<Rightarrow> bytes list \<Rightarrow> bool" where
  "stream_state c sent acc fs p q gs \<longleftrightarrow>
     sent = concat fs @ p \<and> tx_off c \<le> tx_len c \<and> drop (tx_off c) (tx_buf c) = q @ concat gs \<and>
     subseq (fs @ (if q = [] then [] else [p @ q]) @ gs) acc \<and>
     (if q = [] then p = [] \<and> tx_first_end c = 0
      else tx_first_end c = tx_off c + length q \<and> length p \<le> tx_off c)"

definition stream_ok :: "ingress_client \<Rightarrow> bytes \<Rightarrow> bytes list \<Rightarrow> bool" where
  "stream_ok c sent acc \<longleftrightarrow> list_all is_frame acc \<and> tx_len c \<le> FEEDBACK_QUEUE_SIZE \<and>
     (\<exists>fs p q gs. stream_state c sent acc fs p q gs)"

lemma is_frame_facts:
  assumes "is_frame f"
  shows "4 < length f" "length f = 4 + unat (rd_be16 (f ! 2) (f ! 3))"
proof -
  obtain body where b: "f = feedback_frame body" "valid_rtcp body" "length body \<le> MAX_RTP_PAYLOAD_SIZE"
    using assms by (auto simp: is_frame_def)
  have "be16 (of_nat (length body)) = [f ! 2, f ! 3]"
    by (simp add: b(1) feedback_frame_def be16_def numeral_2_eq_2 numeral_3_eq_3)
  then have "rd_be16 (f ! 2) (f ! 3) = of_nat (length body)"
    by (metis be16_inject be16_rd_be16)
  then show "4 < length f" "length f = 4 + unat (rd_be16 (f ! 2) (f ! 3))"
    using b by (auto simp: feedback_frame_def unat_of_nat valid_rtcp_def)
qed

lemma stream_frames:
  assumes "stream_ok c sent acc" "stream_state c sent acc fs p q gs"
  shows "list_all is_frame fs" "list_all is_frame gs" "q \<noteq> [] \<Longrightarrow> is_frame (p @ q)"
proof -
  have "set (fs @ (if q = [] then [] else [p @ q]) @ gs) \<subseteq> set acc"
    using assms(2) by (auto simp: stream_state_def dest: list_emb_set)
  then show "list_all is_frame fs" "list_all is_frame gs" "q \<noteq> [] \<Longrightarrow> is_frame (p @ q)"
    using assms(1) by (auto simp: stream_ok_def list_all_iff split: if_splits)
qed

lemma mark_first_state:
  assumes "stream_ok c sent acc" "stream_state c sent acc fs p q gs" "tx_off c < tx_len c"
  obtains p' q' gs' where "stream_state (mark_first c) sent acc fs p' q' gs'" "q' \<noteq> []"
proof (cases "q = []")
  case False
  then have "mark_first c = c"
    using assms(2) by (auto simp: mark_first_def stream_state_def)
  then show ?thesis using that False assms(2) by simp
next
  case True
  have st: "drop (tx_off c) (tx_buf c) = concat gs" "tx_first_end c = 0" "p = []"
      "sent = concat fs" "subseq (fs @ gs) acc" "tx_off c \<le> tx_len c"
    using assms(2) True by (auto simp: stream_state_def)
  have "list_all is_frame gs" using stream_frames(2) [OF assms(1,2)] .
  moreover have "gs \<noteq> []" using st(1) assms(3) by auto
  ultimately obtain g gs' where g: "gs = g # gs'" "is_frame g" by (cases gs) auto
  have at: "tx_buf c ! (tx_off c + k) = g ! k" if "k < length g" for k
  proof -
    have "tx_buf c ! (tx_off c + k) = drop (tx_off c) (tx_buf c) ! k" using st(6) by simp
    then show ?thesis using that by (simp add: st(1) g(1) nth_append)
  qed
  have "tx_first_end (mark_first c) = tx_off c + length g" "tx_buf (mark_first c) = tx_buf c"
      "tx_off (mark_first c) = tx_off c"
    using is_frame_facts [OF g(2)] at [of 2] at [of 3] st(2) by (simp_all add: mark_first_def)
  then have "stream_state (mark_first c) sent acc fs [] g gs'"
    using st g is_frame_facts(1) [OF g(2)] by (auto simp: stream_state_def)
  moreover have "g \<noteq> []" using is_frame_facts(1) [OF g(2)] by auto
  ultimately show ?thesis using that by blast
qed

lemma advance_state:
  assumes "stream_state c sent acc fs p q gs" "0 < n" "n \<le> length q"
  shows "\<exists>fs p q. stream_state (advance c n) (sent @ slice_at (tx_off c) n (tx_buf c)) acc fs p q gs"
proof -
  have st: "drop (tx_off c) (tx_buf c) = q @ concat gs" "tx_first_end c = tx_off c + length q"
      "sent = concat fs @ p" "subseq (fs @ [p @ q] @ gs) acc" "length p \<le> tx_off c" "tx_off c \<le> tx_len c"
    using assms by (auto simp: stream_state_def split: if_splits)
  have sl: "slice_at (tx_off c) n (tx_buf c) = take n q"
    using assms(3) by (simp add: slice_at_def st(1))
  have "length (drop (tx_off c) (tx_buf c)) = length q + length (concat gs)" by (simp add: st(1))
  then have len: "tx_off c + n \<le> tx_len c" using assms(3) st(6) by simp
  have dr: "drop (tx_off c + n) (tx_buf c) = drop n q @ concat gs"
    using assms(3) by (metis st(1) add.commute drop_drop drop_append diff_is_0_eq drop0)
  show ?thesis
  proof (cases "n = length q")
    case True
    then have "stream_state (advance c n) (sent @ slice_at (tx_off c) n (tx_buf c)) acc (fs @ [p @ q]) [] [] gs"
      using st len dr sl by (simp add: stream_state_def advance_def)
    then show ?thesis by blast
  next
    case False
    then have "stream_state (advance c n) (sent @ slice_at (tx_off c) n (tx_buf c)) acc fs
        (p @ take n q) (drop n q) gs"
      using st len dr sl assms(3) by (simp add: stream_state_def advance_def)
    then show ?thesis by blast
  qed
qed

lemma stream_ok_same_queue:
  assumes "stream_ok c sent acc" "tx_buf c' = tx_buf c" "tx_off c' = tx_off c"
    "tx_first_end c' = tx_first_end c"
  shows "stream_ok c' sent acc"
  using assms(1) unfolding stream_ok_def stream_state_def assms(2-4) .

lemma mark_first_ok:
  assumes "stream_ok c sent acc" "tx_off c < tx_len c"
  shows "stream_ok (mark_first c) sent acc"
proof -
  obtain fs p q gs where "stream_state c sent acc fs p q gs" using assms(1) by (auto simp: stream_ok_def)
  then obtain p' q' gs' where "stream_state (mark_first c) sent acc fs p' q' gs'"
    using mark_first_state assms by metis
  moreover have "tx_buf (mark_first c) = tx_buf c" by (simp add: mark_first_def)
  ultimately show ?thesis using assms(1) by (auto simp: stream_ok_def)
qed

lemma sent_ok:
  assumes "stream_ok c sent acc" "tx_off c < tx_len c" "0 < n"
    "n \<le> tx_first_end (mark_first c) - tx_off c"
  shows "stream_ok (advance (mark_first c) n) (sent @ slice_at (tx_off c) n (tx_buf c)) acc"
proof -
  obtain fs p q gs where "stream_state c sent acc fs p q gs" using assms(1) by (auto simp: stream_ok_def)
  then obtain p' q' gs' where st: "stream_state (mark_first c) sent acc fs p' q' gs'" "q' \<noteq> []"
    using mark_first_state assms by metis
  have same: "tx_buf (mark_first c) = tx_buf c" "tx_off (mark_first c) = tx_off c"
    by (simp_all add: mark_first_def)
  then have "n \<le> length q'" using st assms(4) by (auto simp: stream_state_def)
  from advance_state [OF st(1) assms(3) this] obtain fs p q where
    "stream_state (advance (mark_first c) n) (sent @ slice_at (tx_off c) n (tx_buf c)) acc fs p q gs'"
    unfolding same by blast
  moreover have "tx_buf (advance (mark_first c) n) = tx_buf c" by (simp add: advance_def Let_def same)
  ultimately show ?thesis using assms(1) by (auto simp: stream_ok_def)
qed

lemma flush_loop_ok:
  assumes "stream_ok c sent acc" "flush_loop c outs = (ok, c', more_sent)"
  shows "stream_ok c' (sent @ more_sent) acc"
  using assms
proof (induction c outs arbitrary: sent ok c' more_sent rule: flush_loop.induct)
  case (1 c)
  then show ?case by (auto simp: mark_first_ok split: if_splits)
next
  case (2 c out outs)
  show ?case
  proof (cases "tx_off c < tx_len c")
    case False
    then show ?thesis using 2 by simp
  next
    case True
    note mark = mark_first_ok [OF "2.prems"(1) True]
    show ?thesis
    proof (cases out)
      case (Sent most)
      define n where "n = min most (tx_first_end (mark_first c) - tx_off c)"
      show ?thesis
      proof (cases "n = 0")
        case True
        then show ?thesis using 2 Sent \<open>tx_off c < tx_len c\<close> mark by (simp add: n_def Let_def)
      next
        case False
        obtain ok2 c2 m2 where rec: "flush_loop (advance (mark_first c) n) outs = (ok2, c2, m2)"
          by (cases "flush_loop (advance (mark_first c) n) outs")
        have res: "c' = c2" "more_sent = slice_at (tx_off c) n (tx_buf c) @ m2"
          using "2.prems"(2) Sent True False rec by (simp_all add: Let_def flip: n_def)
        have "stream_ok (advance (mark_first c) n) (sent @ slice_at (tx_off c) n (tx_buf c)) acc"
          using sent_ok [OF "2.prems"(1) True] False by (simp add: n_def)
        from "2.IH"(1) [OF True Sent n_def False this rec] show ?thesis by (simp add: res)
      qed
    qed (use 2 True mark in auto)
  qed
qed

lemma flush_feedback_ok:
  assumes "stream_ok c sent acc" "flush_feedback current epoll_ok c outs = (ok, c', more_sent)"
  shows "stream_ok c' (sent @ more_sent) acc"
proof (cases current)
  case False
  then show ?thesis using assms by (simp add: flush_feedback_def)
next
  case True
  obtain ok1 c1 m1 where loop: "flush_loop c outs = (ok1, c1, m1)" by (cases "flush_loop c outs")
  note ok1 = flush_loop_ok [OF assms(1) loop]
  define c2 where "c2 = (if tx_off c1 = tx_len c1 then c1\<lparr>tx_buf := [], tx_off := 0, tx_first_end := 0\<rparr> else c1)"
  have "stream_ok c2 (sent @ m1) acc"
  proof (cases "tx_off c1 = tx_len c1")
    case True
    obtain fs p q gs where st: "stream_state c1 (sent @ m1) acc fs p q gs"
      using ok1 by (auto simp: stream_ok_def)
    have "q = [] \<and> p = []" "concat gs = []" using st True by (auto simp: stream_state_def split: if_splits)
    moreover have "subseq fs acc"
      using st calculation by (auto simp: stream_state_def intro: subseq_order.order_trans)
    ultimately have "stream_state c2 (sent @ m1) acc fs [] [] []"
      using st True by (simp add: stream_state_def c2_def)
    then show ?thesis using ok1 True by (auto simp: stream_ok_def c2_def)
  next
    case False
    then show ?thesis using ok1 by (simp add: c2_def)
  qed
  then have "stream_ok (update_feedback_interest c2) (sent @ m1) acc"
    by (rule stream_ok_same_queue) (simp_all add: update_feedback_interest_def)
  then show ?thesis
    using assms(2) True loop ok1 by (auto simp: flush_feedback_def c2_def Let_def split: bool.splits)
qed

lemma reset_feedback_ok:
  assumes "stream_ok c sent acc"
  shows "stream_ok (reset_feedback c) sent acc"
proof -
  obtain fs p q gs where st: "stream_state c sent acc fs p q gs" using assms by (auto simp: stream_ok_def)
  define keep where "keep = (tx_off c \<noteq> 0 \<and> tx_off c < tx_first_end c)"
  define r where "r = reset_feedback c"
  have r: "tx_buf r = (if keep then take (tx_first_end c) (tx_buf c) else [])"
    "tx_off r = (if keep then tx_off c else 0)" "tx_first_end r = (if keep then tx_first_end c else 0)"
    by (simp_all add: r_def reset_feedback_def update_feedback_interest_def Let_def keep_def)
  have "\<exists>fs p q. stream_state r sent acc fs p q []"
  proof (cases keep)
    case True
    then have q: "q \<noteq> []" "tx_first_end c = tx_off c + length q" "drop (tx_off c) (tx_buf c) = q @ concat gs"
        "sent = concat fs @ p" "length p \<le> tx_off c" "tx_off c \<le> tx_len c"
      using st by (auto simp: keep_def stream_state_def split: if_splits)
    have "subseq (fs @ [p @ q]) (fs @ [p @ q] @ gs)" by (metis append_assoc subseq_rev_drop_many subseq_order.order_refl)
    then have "subseq (fs @ [p @ q]) acc"
      using st q(1) by (auto simp: stream_state_def intro: subseq_order.order_trans)
    moreover have "drop (tx_off c) (take (tx_first_end c) (tx_buf c)) = q"
      using q(2,3) by (simp add: drop_take)
    moreover have "length (drop (tx_off c) (tx_buf c)) = length q + length (concat gs)" by (simp add: q(3))
    ultimately have "stream_state r sent acc fs p q []"
      using True r q by (simp add: stream_state_def)
    then show ?thesis by blast
  next
    case False
    then have "p = []" using st by (auto simp: keep_def stream_state_def split: if_splits)
    moreover have "subseq fs acc"
      using st by (auto simp: stream_state_def intro: subseq_order.order_trans [rotated] subseq_rev_drop_many)
    ultimately have "stream_state r sent acc fs [] [] []"
      using False r st by (simp add: stream_state_def)
    then show ?thesis by blast
  qed
  moreover have "tx_len r \<le> FEEDBACK_QUEUE_SIZE" using assms by (auto simp: r stream_ok_def)
  ultimately show ?thesis using assms by (auto simp: stream_ok_def r_def)
qed

lemma receive_one_ok:
  assumes "stream_ok c sent acc"
  shows "stream_ok (receive_one c packet now) sent (acc @ new_frame c packet now)"
proof -
  obtain fs p q gs where st: "stream_state c sent acc fs p q gs" using assms by (auto simp: stream_ok_def)
  define r where "r = receive_one c packet now"
  obtain new where new: "list_all is_frame new" "new_frame c packet now = new"
      "tx_buf r = tx_buf c @ concat new" "tx_off r = tx_off c" "tx_first_end r = tx_first_end c"
      "tx_len r \<le> max (tx_len c) FEEDBACK_QUEUE_SIZE"
    using receive_one_queue [of c packet now] unfolding r_def by blast
  have "subseq ((fs @ (if q = [] then [] else [p @ q]) @ gs) @ new) (acc @ new)"
    using st unfolding stream_state_def by (intro list_emb_append_mono) auto
  then have "stream_state r sent (acc @ new) fs p q (gs @ new)"
    using st new(3-5) by (simp add: stream_state_def)
  then show ?thesis
    using assms new by (auto simp: stream_ok_def simp flip: r_def)
qed

section \<open>Runs of the feedback path\<close>

text \<open>
  The events of a connection: datagrams from Janus followed by a flush, a writable socket, a route
  change. The log has the bytes sent and the frames queued.
\<close>

datatype fb_event =
    Feedback bool bool "(bytes \<times> u64) list" "send_result list"
  | Writable bool bool "send_result list"
  | RouteChange

fun queue_all :: "ingress_client \<times> bytes list \<Rightarrow> (bytes \<times> u64) list \<Rightarrow> ingress_client \<times> bytes list" where
  "queue_all (c, acc) [] = (c, acc)"
| "queue_all (c, acc) ((packet, now) # ps) =
     queue_all (receive_one c packet now, acc @ new_frame c packet now) ps"

fun fb_exec :: "ingress_client \<times> bytes \<times> bytes list \<Rightarrow> fb_event \<Rightarrow> ingress_client \<times> bytes \<times> bytes list" where
  "fb_exec (c, sent, acc) (Feedback current epoll_ok packets outs) =
     (case receive_feedback current epoll_ok c packets outs of
        (ok, c', s) \<Rightarrow> (c', sent @ s,
          if current then snd (queue_all (c, acc) (take 32 packets)) else acc))"
| "fb_exec (c, sent, acc) (Writable current epoll_ok outs) =
     (case flush_feedback current epoll_ok c outs of (ok, c', s) \<Rightarrow> (c', sent @ s, acc))"
| "fb_exec (c, sent, acc) RouteChange = (reset_feedback c, sent, acc)"

lemma queue_all_receive:
  "fst (queue_all (c, acc) ps) = foldl (\<lambda>c (packet, now_ms). receive_one c packet now_ms) c ps"
  by (induction "(c, acc)" ps arbitrary: c acc rule: queue_all.induct) auto

lemma queue_all_ok:
  assumes "stream_ok c sent acc"
  shows "stream_ok (fst (queue_all (c, acc) ps)) sent (snd (queue_all (c, acc) ps))"
  using assms
  by (induction "(c, acc)" ps arbitrary: c acc rule: queue_all.induct) (auto intro: receive_one_ok)

interpretation fb_runs: step_invariant fb_exec "\<lambda>(c, sent, acc). stream_ok c sent acc"
proof
  fix s e assume inv: "case s of (c, sent, acc) \<Rightarrow> stream_ok c sent acc"
  obtain c sent acc where s: "s = (c, sent, acc)" by (cases s)
  show "case fb_exec s e of (c, sent, acc) \<Rightarrow> stream_ok c sent acc"
  proof (cases e)
    case (Feedback current epoll_ok packets outs)
    let ?q = "queue_all (c, acc) (take 32 packets)"
    obtain ok c' m where f: "flush_feedback current epoll_ok (fst ?q) outs = (ok, c', m)"
      by (cases "flush_feedback current epoll_ok (fst ?q) outs")
    have "stream_ok (fst ?q) sent (snd ?q)" using queue_all_ok inv s by simp
    from flush_feedback_ok [OF this f] show ?thesis
      using Feedback f inv s by (cases current) (simp_all add: receive_feedback_def queue_all_receive)
  next
    case (Writable current epoll_ok outs)
    obtain ok c' m where f: "flush_feedback current epoll_ok c outs = (ok, c', m)"
      by (cases "flush_feedback current epoll_ok c outs")
    then show ?thesis using flush_feedback_ok [OF _ f] inv s Writable by simp
  next
    case RouteChange
    then show ?thesis using reset_feedback_ok inv s by simp
  qed
qed

text \<open>
  C30: the publisher's stream never tears. Whatever datagrams arrive, however few bytes the socket
  takes at a time, and at whatever points route changes cut the queue, the bytes sent on a
  connection are a beginning of a sequence of whole feedback frames; these are, in order, frames
  the service had queued, each around a valid RTCP datagram, and the queue stays within its
  128 KB.
\<close>

theorem feedback_stream_whole_frames:
  assumes "tx_buf c = []" "tx_off c = 0" "tx_first_end c = 0"
    and "foldl fb_exec (c, [], []) events = (c', sent, acc)"
  shows "\<exists>fs. prefix sent (concat fs) \<and> subseq fs acc \<and> (\<forall>f \<in> set acc. is_frame f)
    \<and> tx_len c' \<le> FEEDBACK_QUEUE_SIZE"
proof -
  have "stream_state c [] [] [] [] [] []" using assms by (simp add: stream_state_def)
  then have "stream_ok c [] []" using assms by (auto simp: stream_ok_def)
  then have ok: "stream_ok c' sent acc" using fb_runs.inv_run [of "(c, [], [])" events] assms(4) by simp
  then obtain fs p q gs where st: "stream_state c' sent acc fs p q gs" by (auto simp: stream_ok_def)
  let ?cur = "if q = [] then [] else [p @ q]"
  have "subseq (fs @ ?cur) (fs @ ?cur @ gs)"
    by (metis append_assoc subseq_rev_drop_many subseq_order.order_refl)
  then have "subseq (fs @ ?cur) acc"
    using st unfolding stream_state_def by (blast intro: subseq_order.order_trans)
  moreover have "prefix sent (concat (fs @ ?cur))" using st by (auto simp: stream_state_def split: if_splits)
  ultimately show ?thesis using ok unfolding stream_ok_def list_all_iff by blast
qed

theorem feedback_stream_whole_frames_witness:
  "\<exists>fs. prefix [2, 0, 0] (concat fs :: bytes) \<and> subseq fs [[2, 0, 0, 4, 128, 201, 0, 0]]
     \<and> (\<forall>f \<in> set [[2, 0, 0, 4, 128, 201, 0, 0]]. is_frame f)"
proof -
  let ?p = "[128, 201, 0, 0] :: bytes" and ?c = "new_client 1 0 0"
  let ?f = "[2, 0, 0, 4, 128, 201, 0, 0] :: bytes"
  have r: "rtcp_bytes ?p = 4" by (simp add: rtcp_bytes_def rd_be16_def)
  have v: "valid_rtcp ?p"
    using valid_rtcp_compound [of ?p "[]"] r by (simp add: rtcp_packet_def padded_def)
  have c: "tx_buf ?c = []" "tx_off ?c = 0" "tx_first_end ?c = 0" "keyframe_feedback_interval_ms ?c = 0"
    by (simp_all add: new_client_def)
  have b: "be16 4 = [0, 4]" by (simp add: be16_def)
  have one: "receive_one ?c ?p 5 = ?c\<lparr>tx_buf := ?f\<rparr>"
    using v by (simp add: receive_one_def coalesce_feedback_def b c)
  then have fr: "new_frame ?c ?p 5 = [?f]" by (simp add: new_frame_def c)
  have fl: "flush_loop (?c\<lparr>tx_buf := ?f\<rparr>) [Sent 3]
      = (True, ?c\<lparr>tx_buf := ?f, tx_off := 3, tx_first_end := 8\<rparr>, [2, 0, 0])"
    by (simp add: c mark_first_def advance_def slice_at_def rd_be16_def numeral_3_eq_3)
  have "snd (fb_exec (?c, [], []) (Feedback True True [(?p, 5)] [Sent 3])) = ([2, 0, 0], [?f])"
    by (simp add: receive_feedback_def flush_feedback_def one fr fl Let_def del: flush_loop.simps)
  then have "snd (foldl fb_exec (?c, [], []) [Feedback True True [(?p, 5)] [Sent 3], RouteChange])
      = ([2, 0, 0], [?f])"
    by (cases "fb_exec (?c, [], []) (Feedback True True [(?p, 5)] [Sent 3])")
      (simp del: fb_exec.simps(1))
  then obtain c' where "foldl fb_exec (?c, [], []) [Feedback True True [(?p, 5)] [Sent 3], RouteChange]
      = (c', [2, 0, 0], [?f])"
    by (metis prod.collapse)
  from feedback_stream_whole_frames [OF _ _ _ this] show ?thesis by (auto simp: c)
qed

end
