(* ===== verification/C_Text.thy ===== *)
theory C_Text
  imports L4_Prelude "HOL-Library.Sublist"
begin

text \<open>
  The functions of the C library on text that the services and tools call, in the "C" locale. A C
  string is the list of its characters up to the terminating zero.
\<close>

section \<open>The C library on strings\<close>

abbreviation DQ :: char where "DQ \<equiv> CHR 0x22"
abbreviation BACKSLASH :: char where "BACKSLASH \<equiv> CHR 0x5C"

definition isspace :: "char \<Rightarrow> bool" where
  "isspace c \<longleftrightarrow> of_char c = (32 :: nat) \<or> 9 \<le> (of_char c :: nat) \<and> (of_char c :: nat) \<le> 13"

definition isdigit :: "char \<Rightarrow> bool" where
  "isdigit c \<longleftrightarrow> 48 \<le> (of_char c :: nat) \<and> (of_char c :: nat) \<le> 57"

definition to_lower :: "char \<Rightarrow> char" where
  "to_lower c = (if 65 \<le> (of_char c :: nat) \<and> (of_char c :: nat) \<le> 90
                 then char_of ((of_char c :: nat) + 32) else c)"

definition digits_value :: "string \<Rightarrow> int" where
  "digits_value ds = foldl (\<lambda>n c. 10 * n + (of_char c - 48)) 0 ds"

text \<open>
  A decimal integer after optional white space and sign: whether it is negative, its magnitude, and
  the text behind it; no conversion without a digit.
\<close>

definition scan_integer :: "string \<Rightarrow> (bool \<times> int \<times> string) option" where
  "scan_integer s =
     (let s = dropWhile isspace s;
          neg = (s \<noteq> [] \<and> hd s = CHR ''-'');
          s = (if s \<noteq> [] \<and> (hd s = CHR ''-'' \<or> hd s = CHR ''+'') then tl s else s);
          ds = takeWhile isdigit s in
      if ds = [] then None else Some (neg, digits_value ds, dropWhile isdigit s))"

text \<open>\<open>strtol\<close> and \<open>strtoll\<close>, both 64 bits: value, text behind it, and whether \<open>errno\<close> is set.\<close>

definition strtol :: "string \<Rightarrow> (int \<times> string \<times> bool) option" where
  "strtol s = map_option (\<lambda>(neg, n, rest).
     let v = (if neg then - n else n) in
     if v < - (2 ^ 63) then (- (2 ^ 63), rest, True)
     else if 2 ^ 63 \<le> v then (2 ^ 63 - 1, rest, True) else (v, rest, False)) (scan_integer s)"

definition strtoul :: "string \<Rightarrow> (int \<times> string \<times> bool) option" where
  "strtoul s = map_option (\<lambda>(neg, n, rest).
     if 2 ^ 64 \<le> n then (2 ^ 64 - 1, rest, True)
     else ((if neg then - n else n) mod 2 ^ 64, rest, False)) (scan_integer s)"

text \<open>The suffix of the text that starts with the first occurrence of the needle.\<close>

fun strstr :: "string \<Rightarrow> string \<Rightarrow> string option" where
  "strstr [] needle = (if needle = [] then Some [] else None)"
| "strstr (c # s) needle =
     (if take (length needle) (c # s) = needle then Some (c # s) else strstr s needle)"

fun strcasestr :: "string \<Rightarrow> string \<Rightarrow> string option" where
  "strcasestr [] needle = (if needle = [] then Some [] else None)"
| "strcasestr (c # s) needle =
     (if map to_lower (take (length needle) (c # s)) = map to_lower needle then Some (c # s)
      else strcasestr s needle)"

text \<open>The low 32 bits of a \<open>long\<close> as an \<open>int\<close>.\<close>

definition int_cast :: "int \<Rightarrow> int" where
  "int_cast v = sint (word_of_int v :: u32)"

definition isalnum :: "char \<Rightarrow> bool" where
  "isalnum c \<longleftrightarrow> isdigit c \<or> 65 \<le> (of_char c :: nat) \<and> (of_char c :: nat) \<le> 90
     \<or> 97 \<le> (of_char c :: nat) \<and> (of_char c :: nat) \<le> 122"

text \<open>\<open>_stricmp(s, t) == 0\<close>, and \<open>_strnicmp(s, t, n) == 0\<close> for a literal \<open>t\<close> of length \<open>n\<close>.\<close>

definition same_nocase :: "string \<Rightarrow> string \<Rightarrow> bool" where
  "same_nocase s t \<longleftrightarrow> map to_lower s = map to_lower t"

definition starts_nocase :: "string \<Rightarrow> string \<Rightarrow> bool" where
  "starts_nocase s t \<longleftrightarrow> same_nocase (take (length t) s) t"

lemma lower_letters:
  "to_lower (CHR ''A'') = CHR ''a''" "to_lower (CHR ''B'') = CHR ''b''" "to_lower (CHR ''C'') = CHR ''c''"
  "to_lower (CHR ''D'') = CHR ''d''" "to_lower (CHR ''E'') = CHR ''e''" "to_lower (CHR ''F'') = CHR ''f''"
  "to_lower (CHR ''G'') = CHR ''g''" "to_lower (CHR ''H'') = CHR ''h''" "to_lower (CHR ''I'') = CHR ''i''"
  "to_lower (CHR ''J'') = CHR ''j''" "to_lower (CHR ''K'') = CHR ''k''" "to_lower (CHR ''L'') = CHR ''l''"
  "to_lower (CHR ''M'') = CHR ''m''" "to_lower (CHR ''N'') = CHR ''n''" "to_lower (CHR ''O'') = CHR ''o''"
  "to_lower (CHR ''P'') = CHR ''p''" "to_lower (CHR ''Q'') = CHR ''q''" "to_lower (CHR ''R'') = CHR ''r''"
  "to_lower (CHR ''S'') = CHR ''s''" "to_lower (CHR ''T'') = CHR ''t''" "to_lower (CHR ''U'') = CHR ''u''"
  "to_lower (CHR ''V'') = CHR ''v''" "to_lower (CHR ''W'') = CHR ''w''" "to_lower (CHR ''X'') = CHR ''x''"
  "to_lower (CHR ''Y'') = CHR ''y''" "to_lower (CHR ''Z'') = CHR ''z''" "to_lower (CHR ''_'') = CHR ''_''"
  by code_simp+

end
