(* ===== verification/Media_Text.thy ===== *)
theory Media_Text
  imports C_Text
begin

text \<open>
  The text helpers of the media service, \<open>l4media/ingress/src/media_lifecycle.h\<close>: the reader that finds a
  member of a flat JSON object by searching for its quoted name, and the check of the service token.
  The reader is shown to return what a printer of flat objects wrote, and the token check to fail
  closed.
\<close>

section \<open>Definitions of the source\<close>

definition lifecycle_safe_strcpy :: "string \<Rightarrow> nat \<Rightarrow> string" where
  "lifecycle_safe_strcpy src dst_size =
     (let len = length src; len = (if dst_size \<le> len then dst_size - 1 else len) in take len src)"

definition json_space :: "char \<Rightarrow> bool" where
  "json_space c \<longleftrightarrow> c = CHR '' '' \<or> c = CHR 0x09 \<or> c = CHR 0x0D \<or> c = CHR 0x0A"

definition json_find_key :: "string \<Rightarrow> string \<Rightarrow> string option" where
  "json_find_key json key =
     (let needle = take 127 (DQ # key @ [DQ]) in
      case strstr json needle of
        None \<Rightarrow> None
      | Some p \<Rightarrow>
          (case dropWhile json_space (drop (length needle) p) of
             [] \<Rightarrow> None
           | c # p \<Rightarrow> if c \<noteq> CHR '':'' then None else Some (dropWhile json_space p)))"

text \<open>The copying loop of \<open>json_get_string\<close>; the number is the room left, \<open>out_sz - 1 - i\<close>.\<close>

fun copy_string :: "nat \<Rightarrow> string \<Rightarrow> string" where
  "copy_string 0 p = []"
| "copy_string (Suc room) [] = []"
| "copy_string (Suc room) (c # p) =
     (if c = DQ then []
      else if c = BACKSLASH \<and> p \<noteq> [] then hd p # copy_string room (tl p)
      else c # copy_string room p)"

definition json_get_string :: "string \<Rightarrow> string \<Rightarrow> nat \<Rightarrow> string option" where
  "json_get_string json key out_sz =
     (case json_find_key json key of
        None \<Rightarrow> None
      | Some p \<Rightarrow> (case p of [] \<Rightarrow> None
          | c # p \<Rightarrow> if c \<noteq> DQ then None else Some (copy_string (out_sz - 1) p)))"

definition json_get_int :: "string \<Rightarrow> string \<Rightarrow> int option" where
  "json_get_int json key =
     (case json_find_key json key of
        None \<Rightarrow> None
      | Some p \<Rightarrow> map_option (\<lambda>(v, _, _). int_cast v) (strtol p))"

definition json_get_uint32 :: "string \<Rightarrow> string \<Rightarrow> u32 option" where
  "json_get_uint32 json key =
     (case json_find_key json key of
        None \<Rightarrow> None
      | Some p \<Rightarrow> map_option (\<lambda>(v, _, _). word_of_int v) (strtoul p))"

text \<open>The comparison of the token at \<open>p\<close>, with the character behind it.\<close>

definition token_at :: "string \<Rightarrow> string \<Rightarrow> bool" where
  "token_at token p \<longleftrightarrow> take (length token) p = token
     \<and> (case drop (length token) p of [] \<Rightarrow> True
        | next # _ \<Rightarrow> next = CHR 0x0D \<or> next = CHR 0x0A \<or> next = CHR '' '' \<or> next = CHR 0x09)"

definition blank :: "char \<Rightarrow> bool" where
  "blank c \<longleftrightarrow> c = CHR '' '' \<or> c = CHR 0x09"

definition check_service_auth :: "string \<Rightarrow> string \<Rightarrow> bool" where
  "check_service_auth g_service_token req_buf =
     (if g_service_token = [] then False
      else if (case strcasestr req_buf ''X-Media-Service-Token:'' of
                 None \<Rightarrow> False
               | Some hdr \<Rightarrow> token_at g_service_token (dropWhile blank (drop 22 hdr))) then True
      else (case strcasestr req_buf ''Authorization:'' of
              None \<Rightarrow> False
            | Some auth \<Rightarrow>
                let auth = dropWhile blank (drop 14 auth) in
                map to_lower (take 6 auth) = ''bearer''
                \<and> token_at g_service_token (dropWhile blank (drop 6 auth))))"

section \<open>Reading what a printer wrote\<close>

text \<open>A printer of flat objects of strings, the reference the reader is compared with.\<close>

fun escape :: "string \<Rightarrow> string" where
  "escape [] = []"
| "escape (c # v) = (if c = DQ \<or> c = BACKSLASH then [BACKSLASH, c] else [c]) @ escape v"

fun print_members :: "(string \<times> string) list \<Rightarrow> string" where
  "print_members [] = ''}''"
| "print_members ((k, v) # kvs) =
     DQ # k @ DQ # CHR '':'' # DQ # escape v @ DQ # (if kvs = [] then [] else '','') @ print_members kvs"

definition print_object :: "(string \<times> string) list \<Rightarrow> string" where
  "print_object kvs = CHR ''{'' # print_members kvs"

definition plain_key :: "string \<Rightarrow> bool" where
  "plain_key k \<longleftrightarrow> list_all (\<lambda>c. c \<noteq> DQ \<and> c \<noteq> BACKSLASH \<and> c \<noteq> CHR '':'' \<and> c \<noteq> CHR '','' ) k
     \<and> k \<noteq> [] \<and> length k \<le> 125"

text \<open>
  A value that is the name itself, or that ends in a quote and the name, prints the quoted name and
  leads the search astray.
\<close>

definition shadows :: "string \<Rightarrow> string \<Rightarrow> bool" where
  "shadows v key \<longleftrightarrow> suffix (DQ # key) (DQ # v)"

lemma strstr_skip: "c \<noteq> q \<Longrightarrow> strstr (c # s) (q # n) = strstr s (q # n)"
  by simp

lemma strstr_skip_all: "q \<notin> set s \<Longrightarrow> strstr (s @ t) (q # n) = strstr t (q # n)"
  by (induction s) auto

lemma quoted_eq:
  assumes "q \<notin> set s" "q \<notin> set k"
  shows "take (length k + 2) (q # s @ q # y) = q # k @ [q] \<longleftrightarrow> s = k"
proof
  assume "take (length k + 2) (q # s @ q # y) = q # k @ [q]"
  then have t: "take (Suc (length k)) (s @ q # y) = k @ [q]" by simp
  have "takeWhile (\<lambda>c. c \<noteq> q) (k @ [q]) = k" using assms(2) by (simp add: takeWhile_append takeWhile_eq_all_conv)
  moreover have "takeWhile (\<lambda>c. c \<noteq> q) (take (Suc (length k)) (s @ q # y)) = take (Suc (length k)) s"
    using assms(1)
    by (cases "length k - length s")
       (auto simp: takeWhile_append takeWhile_eq_all_conv take_Cons' Suc_diff_le dest: in_set_takeD)
  ultimately have "take (Suc (length k)) s = k" using t by simp
  then show "s = k" by (metis Suc_n_not_le_n length_take min.absorb_iff2 nle_le take_all)
qed auto

lemma strstr_quoted:
  assumes "q \<notin> set s" "q \<notin> set k"
  shows "strstr (q # s @ q # y) (q # k @ [q])
    = (if s = k then Some (q # s @ q # y) else strstr (q # y) (q # k @ [q]))"
  using quoted_eq [OF assms, of y] strstr_skip_all [OF assms(1), of "q # y" "k @ [q]"] by simp

lemma suffix_past: "x \<notin> set n \<Longrightarrow> suffix n (u @ x # w) \<longleftrightarrow> suffix n w"
  by (auto simp: suffix_append suffix_Cons)

lemma strstr_escaped:
  assumes k: "DQ \<notin> set k" "BACKSLASH \<notin> set k"
  shows "DQ \<notin> set s \<Longrightarrow> \<not> suffix (DQ # k) (DQ # s @ v) \<Longrightarrow>
    strstr (DQ # s @ escape v @ DQ # y) (DQ # k @ [DQ]) = strstr (DQ # y) (DQ # k @ [DQ])"
proof (induction v arbitrary: s)
  case Nil
  then have "s \<noteq> k" by auto
  then show ?case using strstr_quoted [OF Nil(1) k(1), of y] by simp
next
  case (Cons c v)
  consider "c = DQ" | "c = BACKSLASH" | "c \<noteq> DQ" "c \<noteq> BACKSLASH" by blast
  then show ?case
  proof cases
    case 1
    have "DQ \<notin> set (s @ [BACKSLASH])" "s @ [BACKSLASH] \<noteq> k" using Cons(2) k(2) by auto
    from strstr_quoted [OF this(1) k(1), of "escape v @ DQ # y"] this(2)
    have "strstr (DQ # (s @ [BACKSLASH]) @ DQ # escape v @ DQ # y) (DQ # k @ [DQ])
        = strstr (DQ # escape v @ DQ # y) (DQ # k @ [DQ])" by simp
    moreover have "\<not> suffix (DQ # k) (DQ # v)"
      using Cons(3) 1 by (auto simp: suffix_append suffix_Cons)
    then have "strstr (DQ # [] @ escape v @ DQ # y) (DQ # k @ [DQ]) = strstr (DQ # y) (DQ # k @ [DQ])"
      by (intro Cons.IH) auto
    ultimately show ?thesis using 1 by simp
  next
    case 2
    have b: "BACKSLASH \<notin> set (DQ # k)" using k(2) by simp
    have "\<not> suffix (DQ # k) (DQ # (s @ [BACKSLASH, BACKSLASH]) @ v)"
      using Cons(3) 2 suffix_past [OF b, of "DQ # s" v] suffix_past [OF b, of "DQ # s @ [BACKSLASH]" v]
      by simp
    then show ?thesis using Cons.IH [of "s @ [BACKSLASH, BACKSLASH]"] Cons(2) 2 by simp
  next
    case 3
    then show ?thesis using Cons.IH [of "s @ [c]"] Cons(2,3) by simp
  qed
qed

lemma strstr_separator:
  assumes "plain_key key" "c \<noteq> DQ" "c = CHR '':'' \<or> c = CHR '',''"
  shows "strstr (DQ # c # DQ # y) (DQ # key @ [DQ]) = strstr (DQ # y) (DQ # key @ [DQ])"
proof -
  have k: "\<forall>x \<in> set key. x \<noteq> DQ \<and> x \<noteq> CHR '':'' \<and> x \<noteq> CHR '',''"
    using assms(1) unfolding plain_key_def list_all_iff by blast
  then have "c \<notin> set key" "DQ \<notin> set key" using assms(3) by blast+
  then have "[c] \<noteq> key" "DQ \<notin> set key" by (metis list.set_intros(1))+
  then show ?thesis using strstr_quoted [of DQ "[c]" key y] assms(2) by simp
qed

lemma print_members_head: "kvs \<noteq> [] \<Longrightarrow> \<exists>t. print_members kvs = DQ # t"
  by (cases kvs) auto

lemma strstr_members:
  assumes key: "plain_key key"
  shows "list_all (\<lambda>(k, v). plain_key k \<and> \<not> shadows v key) kvs \<Longrightarrow>
    (map_of kvs key = None \<longrightarrow> strstr (print_members kvs) (DQ # key @ [DQ]) = None) \<and>
    (\<forall>v. map_of kvs key = Some v \<longrightarrow> (\<exists>rest. strstr (print_members kvs) (DQ # key @ [DQ])
       = Some (DQ # key @ [DQ] @ CHR '':'' # DQ # escape v @ DQ # rest)))"
proof (induction kvs)
  case Nil
  then show ?case by simp
next
  case (Cons kv kvs)
  obtain k v where kv: "kv = (k, v)" by (cases kv)
  let ?n = "DQ # key @ [DQ]"
  let ?rest = "(if kvs = [] then [] else '','') @ print_members kvs"
  have kk: "DQ \<notin> set key" "BACKSLASH \<notin> set key" using key by (auto simp: plain_key_def list_all_iff)
  have k: "DQ \<notin> set k" using Cons(2) kv by (auto simp: plain_key_def list_all_iff)
  have p: "print_members (kv # kvs) = DQ # k @ DQ # CHR '':'' # DQ # escape v @ DQ # ?rest"
    using kv by simp
  note find = strstr_quoted [OF k kk(1), of "CHR '':'' # DQ # escape v @ DQ # ?rest"]
  show ?case
  proof (cases "k = key")
    case True
    then show ?thesis using find p kv by (auto intro!: exI [of _ ?rest])
  next
    case False
    have "strstr (DQ # ?rest) ?n = strstr (print_members kvs) ?n"
    proof (cases "kvs = []")
      case True
      then show ?thesis using key by (auto simp: plain_key_def)
    next
      case False
      then obtain t where "print_members kvs = DQ # t" using print_members_head by blast
      then show ?thesis using False strstr_separator [OF key, of "CHR '',''" t] by simp
    qed
    moreover have "strstr (DQ # escape v @ DQ # ?rest) ?n = strstr (DQ # ?rest) ?n"
      using strstr_escaped [OF kk, of "[]" v ?rest] Cons(2) kv by (simp add: shadows_def)
    ultimately have "strstr (print_members (kv # kvs)) ?n = strstr (print_members kvs) ?n"
      using False find p strstr_separator [OF key, of "CHR '':''" "escape v @ DQ # ?rest"] by simp
    then show ?thesis using Cons False kv by simp
  qed
qed

lemma copy_escaped: "copy_string room (escape v @ DQ # rest) = take room v"
proof (induction v arbitrary: room)
  case Nil
  then show ?case by (cases room) auto
next
  case (Cons c v)
  then show ?case by (cases room) auto
qed

text \<open>
  the reader of request bodies returns what was written. For a flat object of strings printed
  with JSON escapes, asking for a member gives its value (of the first member of that name), cut to
  the size of the destination, and asking for a name that is not there gives nothing. The one
  condition on the values is that none is the name asked for, or ends in a quote and that name:
  the search does not tell a quoted name from a quoted value.
\<close>

theorem json_get_string_reads_object:
  assumes "plain_key key" "list_all (\<lambda>(k, v). plain_key k \<and> \<not> shadows v key) kvs"
  shows "json_get_string (print_object kvs) key out_sz = map_option (take (out_sz - 1)) (map_of kvs key)"
proof -
  have "length (DQ # key @ [DQ]) \<le> 127" using assms(1) by (auto simp: plain_key_def)
  then have n: "take 127 (DQ # key @ [DQ]) = DQ # key @ [DQ]" by (rule take_all)
  have o: "strstr (print_object kvs) (DQ # key @ [DQ]) = strstr (print_members kvs) (DQ # key @ [DQ])"
    by (simp add: print_object_def)
  note s = strstr_members [OF assms]
  show ?thesis
  proof (cases "map_of kvs key")
    case None
    then show ?thesis using s o n by (simp add: json_get_string_def json_find_key_def Let_def)
  next
    case (Some v)
    then obtain rest where "strstr (print_members kvs) (DQ # key @ [DQ])
        = Some (DQ # key @ [DQ] @ CHR '':'' # DQ # escape v @ DQ # rest)" using s by blast
    then have "json_find_key (print_object kvs) key = Some (DQ # escape v @ DQ # rest)"
      using o n by (simp add: json_find_key_def Let_def json_space_def)
    then show ?thesis using Some by (simp add: json_get_string_def copy_escaped)
  qed
qed

theorem json_get_string_reads_object_witness:
  "json_get_string (print_object [(''sn'', ''a'' @ [DQ] @ ''b''), (''reason'', ''user'')]) ''reason'' 4
     = Some ''use''"
proof -
  have "plain_key ''reason''" "list_all (\<lambda>(k, v). plain_key k \<and> \<not> shadows v ''reason'')
      [(''sn'', ''a'' @ [DQ] @ ''b''), (''reason'', ''user'')]"
    by (simp_all add: plain_key_def shadows_def suffix_Cons)
  from json_get_string_reads_object [OF this, of 4] show ?thesis by simp
qed

text \<open>The condition is needed: a value equal to the name hides the member.\<close>

lemma json_value_hides_member:
  "json_get_string (print_object [(''reason'', ''sn''), (''sn'', ''X1'')]) ''sn'' 128 = None"
  by code_simp

section \<open>The service token\<close>

definition delimited :: "string \<Rightarrow> bool" where
  "delimited post \<longleftrightarrow> post = [] \<or> hd post = CHR 0x0D \<or> hd post = CHR 0x0A \<or> blank (hd post)"

text \<open>The text in front of the token, in any case of letters.\<close>

definition token_header :: "string \<Rightarrow> bool" where
  "token_header name \<longleftrightarrow> map to_lower name = ''x-media-service-token:''
     \<or> (\<exists>bl. list_all blank bl \<and> map to_lower name = ''authorization:'' @ bl @ ''bearer'')"

lemma strcasestr_split:
  "strcasestr s n = Some p \<Longrightarrow> \<exists>pre. s = pre @ p \<and> map to_lower (take (length n) p) = map to_lower n"
proof (induction s n rule: strcasestr.induct)
  case (2 c s n)
  then show ?case by (cases "map to_lower (take (length n) (c # s)) = map to_lower n")
      (auto intro: exI [of _ "[]"] exI [of _ "c # _"])
qed (auto split: if_splits)

lemma token_at_split: "token_at token p \<longleftrightarrow> (\<exists>post. p = token @ post \<and> delimited post)"
proof
  assume t: "token_at token p"
  then have "p = token @ drop (length token) p"
    by (metis append_take_drop_id token_at_def)
  then show "\<exists>post. p = token @ post \<and> delimited post"
    using t by (auto simp: token_at_def delimited_def blank_def split: list.splits)
next
  assume "\<exists>post. p = token @ post \<and> delimited post"
  then show "token_at token p"
    by (auto simp: token_at_def delimited_def blank_def split: list.splits)
qed

lemma token_behind_blanks:
  assumes "token_at token (dropWhile blank p)"
  shows "\<exists>bl post. p = bl @ token @ post \<and> list_all blank bl \<and> delimited post"
proof -
  obtain post where "dropWhile blank p = token @ post" "delimited post"
    using assms token_at_split by blast
  moreover have "list_all blank (takeWhile blank p)" by (auto simp: list_all_iff dest: set_takeWhileD)
  ultimately show ?thesis by (metis takeWhile_dropWhile_id)
qed

lemma lower_blank: "blank c \<Longrightarrow> to_lower c = c"
  unfolding blank_def by (elim disjE) (simp_all add: to_lower_def)

lemma header_names:
  "map to_lower ''X-Media-Service-Token:'' = ''x-media-service-token:''"
  "map to_lower ''Authorization:'' = ''authorization:''"
  "length ''X-Media-Service-Token:'' = 22" "length ''Authorization:'' = 14"
  by (code_simp, code_simp, simp_all)

lemma blanks_then_token:
  assumes "list_all blank bl" "token \<noteq> []" "\<not> blank (hd token)"
  shows "dropWhile blank (bl @ token @ post) = token @ post"
  using assms by (cases token) (auto simp: dropWhile_append list_all_iff)

text \<open>
  C34: the control interface fails closed. Without a configured token nothing is accepted, and an
  accepted request holds the whole token as a word: behind a header name and blanks, and followed
  by a blank, a line end or the end of the request. Conversely a request whose first service-token
  header carries the token is accepted.
\<close>

theorem service_auth_fails_closed:
  "(check_service_auth token req \<longrightarrow> token \<noteq> [] \<and>
      (\<exists>pre name bl post. req = pre @ name @ bl @ token @ post \<and> list_all blank bl \<and> delimited post
        \<and> token_header name)) \<and>
   (token \<noteq> [] \<and> \<not> blank (hd token) \<and> list_all blank bl \<and> delimited post \<and> length name = 22
      \<and> strcasestr req ''X-Media-Service-Token:'' = Some (name @ bl @ token @ post)
      \<longrightarrow> check_service_auth token req)"
proof (intro conjI impI)
  assume acc: "check_service_auth token req"
  then show "token \<noteq> []" by (auto simp: check_service_auth_def split: if_splits)
  have "(\<exists>hdr. strcasestr req ''X-Media-Service-Token:'' = Some hdr
          \<and> token_at token (dropWhile blank (drop 22 hdr)))
      \<or> (\<exists>auth. strcasestr req ''Authorization:'' = Some auth
          \<and> map to_lower (take 6 (dropWhile blank (drop 14 auth))) = ''bearer''
          \<and> token_at token (dropWhile blank (drop 6 (dropWhile blank (drop 14 auth)))))"
    using acc by (auto simp: check_service_auth_def Let_def split: if_splits option.splits)
  then show "\<exists>pre name bl post. req = pre @ name @ bl @ token @ post \<and> list_all blank bl \<and> delimited post
        \<and> token_header name"
  proof (elim disjE exE conjE)
    fix hdr assume h: "strcasestr req ''X-Media-Service-Token:'' = Some hdr"
      "token_at token (dropWhile blank (drop 22 hdr))"
    obtain pre where pre: "req = pre @ hdr" "map to_lower (take 22 hdr) = ''x-media-service-token:''"
      using strcasestr_split [OF h(1), unfolded header_names] that by (elim exE conjE)
    obtain bl post where "drop 22 hdr = bl @ token @ post" "list_all blank bl" "delimited post"
      using token_behind_blanks [OF h(2)] by blast
    moreover from this(1) pre(1) have "req = pre @ take 22 hdr @ bl @ token @ post"
      by (metis append_take_drop_id)
    moreover have "token_header (take 22 hdr)" unfolding token_header_def using pre(2) by (rule disjI1)
    ultimately show ?thesis by blast
  next
    fix auth assume a: "strcasestr req ''Authorization:'' = Some auth"
      "map to_lower (take 6 (dropWhile blank (drop 14 auth))) = ''bearer''"
      "token_at token (dropWhile blank (drop 6 (dropWhile blank (drop 14 auth))))"
    let ?a = "dropWhile blank (drop 14 auth)" and ?b = "takeWhile blank (drop 14 auth)"
    obtain pre where pre: "req = pre @ auth" "map to_lower (take 14 auth) = ''authorization:''"
      using strcasestr_split [OF a(1), unfolded header_names] that by (elim exE conjE)
    obtain bl post where bl: "drop 6 ?a = bl @ token @ post" "list_all blank bl" "delimited post"
      using token_behind_blanks [OF a(3)] by blast
    have "auth = take 14 auth @ ?b @ take 6 ?a @ drop 6 ?a"
      by (metis append_take_drop_id takeWhile_dropWhile_id)
    then have r: "req = pre @ (take 14 auth @ ?b @ take 6 ?a) @ bl @ token @ post"
      using pre(1) bl(1) by simp
    have lb: "list_all blank ?b" by (auto simp: list_all_iff dest: set_takeWhileD)
    have "map to_lower ?b = ?b"
      using lb lower_blank by (intro map_idI) (simp add: list_all_iff)
    then have "map to_lower (take 14 auth @ ?b @ take 6 ?a) = ''authorization:'' @ ?b @ ''bearer''"
      using pre(2) a(2) by simp
    then have th: "token_header (take 14 auth @ ?b @ take 6 ?a)"
      unfolding token_header_def using lb by (intro disjI2 exI [of _ ?b] conjI)
    from r bl(2,3) th show ?thesis by blast
  qed
next
  assume a: "token \<noteq> [] \<and> \<not> blank (hd token) \<and> list_all blank bl \<and> delimited post \<and> length name = 22
      \<and> strcasestr req ''X-Media-Service-Token:'' = Some (name @ bl @ token @ post)"
  have "token_at token (token @ post)" using a token_at_split by blast
  then show "check_service_auth token req"
    using a blanks_then_token [of bl token post] by (simp add: check_service_auth_def)
qed

theorem service_auth_fails_closed_witness:
  "check_service_auth ''s3'' ''x-media-service-token: s3'' \<and> \<not> check_service_auth [] ''x-media-service-token: s3''"
proof -
  have "strcasestr ''x-media-service-token: s3'' ''X-Media-Service-Token:''
      = Some (''x-media-service-token:'' @ '' '' @ ''s3'' @ [])" by code_simp
  then have "check_service_auth ''s3'' ''x-media-service-token: s3''"
    using service_auth_fails_closed [of "''s3''" "''x-media-service-token: s3''" "'' ''" "[]" "''x-media-service-token:''"]
    by (simp add: delimited_def blank_def del: strcasestr.simps)
  moreover have "\<not> check_service_auth [] ''x-media-service-token: s3''"
    using service_auth_fails_closed [of "[]" "''x-media-service-token: s3''" "[]" "[]" "[]"] by blast
  ultimately show ?thesis by blast
qed

end
