(* ===== verification/Media_State.thy ===== *)
theory Media_State
  imports Ingress_Feedback Media_Text
begin

text \<open>
  The state of the media ingress service: the route table, the connections and the media sessions
  of \<open>l4media_ingress.c\<close> and \<open>media_lifecycle.h\<close>, and the services the process talks to. The
  operating system's clocks, Janus and Redis are functions of a world state of any type, one call
  after the other; nothing is assumed of them but what a theorem says.
\<close>

section \<open>Data of the source\<close>

abbreviation MAX_ROUTES :: nat where "MAX_ROUTES \<equiv> 512"
abbreviation MAX_CLIENTS :: nat where "MAX_CLIENTS \<equiv> 128"
abbreviation MAX_MEDIA_SESSIONS :: nat where "MAX_MEDIA_SESSIONS \<equiv> 128"
abbreviation INT64_MAX :: int where "INT64_MAX \<equiv> 2 ^ 63 - 1"

record route_entry =
  re_sn :: string
  re_rtp_port :: int
  re_rtcp_port :: int
  is_static :: bool

datatype media_session_state =
  MEDIA_STATE_EMPTY | MEDIA_STATE_STARTING | MEDIA_STATE_ACTIVE | MEDIA_STATE_STOPPING
  | MEDIA_STATE_STOPPED | MEDIA_STATE_FAILED

text \<open>
  A media session. The descriptor and request texts of the second and third contract, which only
  their handlers read, are left out.
\<close>

record media_session =
  session_id :: string
  operation_id :: string
  ms_sn :: string
  device_id :: u32
  mountpoint_id :: u32
  ms_rtp_port :: int
  ms_rtcp_port :: int
  pin :: string
  contract_version :: int
  route_generation :: u32
  camera_source :: bool
  minimum_camera_connection_epoch :: u64
  ms_state :: media_session_state
  ttl_sec :: int
  monotonic_deadline_ms :: u64
  issuer_expiry_utc :: int
  created_at :: int
  started_at :: int
  renewed_at :: int
  stopped_at :: int
  stop_reason :: string
  final_rtp_packets :: u64
  final_bytes :: u64
  last_rtp_at :: int

text \<open>The record \<open>memset\<close> leaves.\<close>

definition empty_session :: media_session where
  "empty_session =
     \<lparr>session_id = [], operation_id = [], ms_sn = [], device_id = 0, mountpoint_id = 0, ms_rtp_port = 0,
      ms_rtcp_port = 0, pin = [], contract_version = 0, route_generation = 0, camera_source = False,
      minimum_camera_connection_epoch = 0, ms_state = MEDIA_STATE_EMPTY, ttl_sec = 0,
      monotonic_deadline_ms = 0, issuer_expiry_utc = 0, created_at = 0, started_at = 0, renewed_at = 0,
      stopped_at = 0, stop_reason = [], final_rtp_packets = 0, final_bytes = 0, last_rtp_at = 0\<rparr>"

text \<open>The states in which a session owns its route and mountpoint.\<close>

definition live :: "media_session \<Rightarrow> bool" where
  "live s \<longleftrightarrow> ms_state s = MEDIA_STATE_ACTIVE \<or> ms_state s = MEDIA_STATE_STARTING"

text \<open>The values of the Janus interface, as the JSON library gives them.\<close>

datatype json = JNull | JBool bool | JInt int | JReal | JString string
  | JArray "json list" | JObject "(string \<times> json) list"

text \<open>
  What the process calls: \<open>time\<close>, the two clocks (seconds and nanoseconds, or an error), whether the
  boot identifier could be read, a Janus request with its parsed answer, and the Redis records.
  \<open>redis_save_session\<close> gets the session with the renewal time the record shall carry, and
  \<open>rtcp_socket\<close> says whether a feedback socket could be made, connected and polled.
\<close>

record 'w services =
  time_now :: "'w \<Rightarrow> int \<times> 'w"
  clock_monotonic :: "'w \<Rightarrow> (int \<times> int) option \<times> 'w"
  clock_realtime :: "'w \<Rightarrow> (int \<times> int) option \<times> 'w"
  boot_id_known :: "'w \<Rightarrow> bool \<times> 'w"
  mj_request :: "json \<Rightarrow> 'w \<Rightarrow> json option \<times> 'w"
  redis_save_session :: "media_session \<Rightarrow> int \<Rightarrow> 'w \<Rightarrow> 'w"
  redis_save_route :: "string \<Rightarrow> int \<Rightarrow> int \<Rightarrow> u32 \<Rightarrow> int \<Rightarrow> 'w \<Rightarrow> 'w"
  redis_drop_session :: "string \<Rightarrow> string \<Rightarrow> u32 \<Rightarrow> 'w \<Rightarrow> 'w"
  redis_owns_sn :: "string \<Rightarrow> 'w \<Rightarrow> bool \<times> 'w"
  mv_persist :: "media_session \<Rightarrow> 'w \<Rightarrow> 'w"
  rtcp_socket :: "'w \<Rightarrow> (bool \<times> bool \<times> bool) \<times> 'w"

text \<open>The global variables. Tables are lists of their used entries; pointers into them are indices.\<close>

record 'w server =
  g_routes :: "route_entry list"
  g_clients :: "ingress_client list"
  g_next_epoch :: u64
  g_next_rtcp_generation :: u64
  g_media_sessions :: "media_session list"
  g_media_monotonic_last :: u64
  g_media_monotonic_failed :: bool
  g_server_start_time :: int
  g_metric_sessions_started :: u64
  g_metric_sessions_stopped :: u64
  g_metric_sessions_failed :: u64
  g_metric_orphans_mountpoints :: u64
  g_metric_orphans_routes :: u64
  world :: 'w

definition start_server :: "int \<Rightarrow> 'w \<Rightarrow> 'w server" where
  "start_server now w =
     \<lparr>g_routes = [], g_clients = [], g_next_epoch = 1, g_next_rtcp_generation = 1, g_media_sessions = [],
      g_media_monotonic_last = 0, g_media_monotonic_failed = False, g_server_start_time = now,
      g_metric_sessions_started = 0, g_metric_sessions_stopped = 0, g_metric_sessions_failed = 0,
      g_metric_orphans_mountpoints = 0, g_metric_orphans_routes = 0, world = w\<rparr>"

text \<open>A call that changes the world only, with or without a result.\<close>

definition ask :: "('w \<Rightarrow> 'a \<times> 'w) \<Rightarrow> 'w server \<Rightarrow> 'a \<times> 'w server" where
  "ask f g = (case f (world g) of (a, w) \<Rightarrow> (a, g\<lparr>world := w\<rparr>))"

definition tell :: "('w \<Rightarrow> 'w) \<Rightarrow> 'w server \<Rightarrow> 'w server" where
  "tell f g = g\<lparr>world := f (world g)\<rparr>"

definition set_session :: "nat \<Rightarrow> (media_session \<Rightarrow> media_session) \<Rightarrow> 'w server \<Rightarrow> 'w server" where
  "set_session i f g = g\<lparr>g_media_sessions := (g_media_sessions g)[i := f (g_media_sessions g ! i)]\<rparr>"

lemma ask_keeps [simp]:
  "g_routes (snd (ask f g)) = g_routes g" "g_clients (snd (ask f g)) = g_clients g"
  "g_media_sessions (snd (ask f g)) = g_media_sessions g"
  "g_media_monotonic_last (snd (ask f g)) = g_media_monotonic_last g"
  "g_media_monotonic_failed (snd (ask f g)) = g_media_monotonic_failed g"
  by (simp_all add: ask_def split: prod.splits)

lemma ask_result:
  assumes "ask f g = (a, g')"
  shows "g_routes g' = g_routes g" "g_clients g' = g_clients g"
    "g_media_sessions g' = g_media_sessions g"
    "g_media_monotonic_last g' = g_media_monotonic_last g"
    "g_media_monotonic_failed g' = g_media_monotonic_failed g"
  using assms by (auto simp: ask_def split: prod.splits)

lemma tell_keeps [simp]:
  "g_routes (tell f g) = g_routes g" "g_clients (tell f g) = g_clients g"
  "g_media_sessions (tell f g) = g_media_sessions g"
  "g_media_monotonic_last (tell f g) = g_media_monotonic_last g"
  "g_media_monotonic_failed (tell f g) = g_media_monotonic_failed g"
  by (simp_all add: tell_def)

lemma set_session_keeps [simp]:
  "g_routes (set_session i f g) = g_routes g" "g_clients (set_session i f g) = g_clients g"
  "g_media_sessions (set_session i f g) = (g_media_sessions g)[i := f (g_media_sessions g ! i)]"
  "g_media_monotonic_last (set_session i f g) = g_media_monotonic_last g"
  "g_media_monotonic_failed (set_session i f g) = g_media_monotonic_failed g"
  by (simp_all add: set_session_def)

section \<open>Searching a table\<close>

text \<open>The search loops of the service: the index of the first entry that satisfies a test.\<close>

fun first_index :: "('a \<Rightarrow> bool) \<Rightarrow> 'a list \<Rightarrow> nat option" where
  "first_index P [] = None"
| "first_index P (x # xs) = (if P x then Some 0 else map_option Suc (first_index P xs))"

lemma first_index_None: "first_index P xs = None \<longleftrightarrow> (\<forall>x \<in> set xs. \<not> P x)"
  by (induction xs) auto

lemma first_index_Some:
  "first_index P xs = Some i \<Longrightarrow> i < length xs \<and> P (xs ! i) \<and> (\<forall>j < i. \<not> P (xs ! j))"
proof (induction xs arbitrary: i)
  case (Cons x xs)
  then show ?case by (fastforce split: if_splits simp: nth_Cons split: nat.splits)
qed simp

lemma first_index_eqI:
  assumes "i < length xs" "P (xs ! i)" "\<And>j. j < i \<Longrightarrow> \<not> P (xs ! j)"
  shows "first_index P xs = Some i"
proof (cases "first_index P xs")
  case None
  then show ?thesis using assms(1,2) by (metis first_index_None nth_mem)
next
  case (Some k)
  then show ?thesis using first_index_Some [OF Some] assms by (metis linorder_neqE_nat)
qed

lemma first_index_append:
  "first_index P (xs @ ys) = (case first_index P xs of Some i \<Rightarrow> Some i
     | None \<Rightarrow> map_option (\<lambda>i. i + length xs) (first_index P ys))"
  by (induction xs) (auto simp: option.map_comp comp_def option.map_ident split: option.splits)

section \<open>A concrete environment\<close>

text \<open>
  An environment in which theorems about the services are tried out: the world is the time in
  seconds, Janus answers by a given function, and Redis holds nothing.
\<close>

definition fixed_services :: "(json \<Rightarrow> json option) \<Rightarrow> int services" where
  "fixed_services janus =
     \<lparr>time_now = \<lambda>w. (w, w), clock_monotonic = \<lambda>w. (Some (w, 0), w), clock_realtime = \<lambda>w. (Some (w, 0), w),
      boot_id_known = \<lambda>w. (True, w), mj_request = \<lambda>r w. (janus r, w),
      redis_save_session = \<lambda>s t w. w, redis_save_route = \<lambda>sn rtp rtcp m ttl w. w,
      redis_drop_session = \<lambda>sid sn m w. w, redis_owns_sn = \<lambda>sn w. (False, w), mv_persist = \<lambda>s w. w,
      rtcp_socket = \<lambda>w. ((True, True, True), w)\<rparr>"

end
