(* ===== verification/Media_Deadline.thy ===== *)
theory Media_Deadline
  imports Media_State
begin

text \<open>
  The clocks and the lease deadlines of the third media contract, the first part of
  \<open>l4media/ingress/src/media_lifecycle.h\<close>. A deadline is kept on the monotonic clock and described
  by the wall-clock second the issuer named; it is shown that renewals of a camera session move
  both together, that no deadline lies further ahead than two hours, and that an expired deadline
  is never revived.
\<close>

section \<open>Definitions of the source\<close>

definition media_monotonic_ms :: "'w services \<Rightarrow> 'w server \<Rightarrow> u64 option \<times> 'w server" where
  "media_monotonic_ms svc g =
     (case ask (clock_monotonic svc) g of
        (None, g) \<Rightarrow> (None, g\<lparr>g_media_monotonic_failed := True\<rparr>)
      | (Some (tv_sec, tv_nsec), g) \<Rightarrow>
          if tv_sec < 0 \<or> tv_nsec < 0 \<or> 1000000000 \<le> tv_nsec \<or> (INT64_MAX - 999) div 1000 < tv_sec
          then (None, g\<lparr>g_media_monotonic_failed := True\<rparr>)
          else let now = word_of_int tv_sec * 1000 + word_of_int tv_nsec div 1000000 in
            if g_media_monotonic_failed g \<or> now < g_media_monotonic_last g \<or> word_of_int INT64_MAX < now
            then (None, g\<lparr>g_media_monotonic_failed := True\<rparr>)
            else (Some now, g\<lparr>g_media_monotonic_last := now\<rparr>))"

definition media_realtime_receipt_ms :: "'w services \<Rightarrow> 'w server \<Rightarrow> u64 option \<times> 'w server" where
  "media_realtime_receipt_ms svc g =
     (case ask (clock_realtime svc) g of
        (None, g) \<Rightarrow> (None, g)
      | (Some (tv_sec, tv_nsec), g) \<Rightarrow>
          if tv_sec < 0 \<or> tv_nsec < 0 \<or> 1000000000 \<le> tv_nsec \<or> (INT64_MAX - 1000) div 1000 < tv_sec
          then (None, g)
          else (Some (word_of_int tv_sec * 1000 + (word_of_int tv_nsec + 999999) div 1000000), g))"

definition media_v3_receipt_deadline :: "'w services \<Rightarrow> int \<Rightarrow> 'w server \<Rightarrow> u64 option \<times> 'w server" where
  "media_v3_receipt_deadline svc expiry g =
     (if expiry \<le> 0 \<or> INT64_MAX div 1000 < expiry then (None, g)
      else case media_monotonic_ms svc g of
        (None, g) \<Rightarrow> (None, g)
      | (Some now, g) \<Rightarrow>
          (case media_realtime_receipt_ms svc g of
             (None, g) \<Rightarrow> (None, g)
           | (Some wall_ms, g) \<Rightarrow>
               (case ask (boot_id_known svc) g of
                  (False, g) \<Rightarrow> (None, g)
                | (True, g) \<Rightarrow>
                    let expiry_ms = word_of_int expiry * 1000 in
                    if expiry_ms \<le> wall_ms \<or> 7200000 < expiry_ms - wall_ms then (None, g)
                    else let remaining = expiry_ms - wall_ms in
                      if word_of_int INT64_MAX - remaining < now then (None, g)
                      else (Some (now + remaining), g))))"

definition media_v3_begin_deadline ::
  "'w services \<Rightarrow> media_session \<Rightarrow> int \<Rightarrow> 'w server \<Rightarrow> bool \<times> media_session \<times> 'w server" where
  "media_v3_begin_deadline svc s expiry g =
     (case media_v3_receipt_deadline svc expiry g of
        (None, g) \<Rightarrow> (False, s, g)
      | (Some deadline, g) \<Rightarrow>
          (True, s\<lparr>issuer_expiry_utc := expiry, monotonic_deadline_ms := deadline\<rparr>, g))"

text \<open>The assignments of a renewal that is granted.\<close>

definition grant :: "media_session \<Rightarrow> int \<Rightarrow> u64 \<Rightarrow> u64 \<Rightarrow> media_session" where
  "grant s expiry candidate now =
     s\<lparr>issuer_expiry_utc := expiry, monotonic_deadline_ms := candidate,
       ttl_sec := sint (ucast ((candidate - now + 999) div 1000) :: u32)\<rparr>"

definition media_v3_renew_deadline ::
  "'w services \<Rightarrow> media_session \<Rightarrow> int \<Rightarrow> 'w server \<Rightarrow> bool \<times> media_session \<times> 'w server" where
  "media_v3_renew_deadline svc s expiry g =
     (case media_monotonic_ms svc g of
        (None, g) \<Rightarrow> (False, s, g)
      | (Some now, g) \<Rightarrow>
          if monotonic_deadline_ms s = 0 \<or> monotonic_deadline_ms s \<le> now then (False, s, g)
          else if expiry = issuer_expiry_utc s then (True, s, g)
          else if \<not> camera_source s then
            (case media_v3_receipt_deadline svc expiry g of
               (None, g) \<Rightarrow> (False, s, g)
             | (Some candidate, g) \<Rightarrow>
                 (case media_monotonic_ms svc g of
                    (None, g) \<Rightarrow> (False, s, g)
                  | (Some now, g) \<Rightarrow>
                      if monotonic_deadline_ms s \<le> now \<or> candidate \<le> now then (False, s, g)
                      else (True, grant s expiry candidate now, g)))
          else if expiry < issuer_expiry_utc s then (True, s, g)
          else
            let delta = word_of_int expiry - word_of_int (issuer_expiry_utc s) in
            if 7200 < delta \<or> word_of_int INT64_MAX - delta * 1000 < monotonic_deadline_ms s
            then (False, s, g)
            else let candidate = monotonic_deadline_ms s + delta * 1000 in
              if candidate \<le> now \<or> 7200000 < candidate - now then (False, s, g)
              else (True, grant s expiry candidate now, g))"

section \<open>The monotonic clock\<close>

lemma monotonic_grows: "g_media_monotonic_last g \<le> g_media_monotonic_last (snd (media_monotonic_ms svc g))"
  by (auto simp: media_monotonic_ms_def Let_def not_less ask_result(4) split: prod.splits option.splits)

lemma monotonic_reads:
  assumes "media_monotonic_ms svc g = (Some now, g')"
  shows "g_media_monotonic_last g' = now" "g_media_monotonic_last g \<le> now" "now \<le> word_of_int INT64_MAX"
  using assms
  by (auto simp: media_monotonic_ms_def Let_def not_less ask_result(4)
      split: prod.splits option.splits if_splits)

lemma monotonic_failed_latches:
  "g_media_monotonic_failed g \<Longrightarrow> fst (media_monotonic_ms svc g) = None
     \<and> g_media_monotonic_failed (snd (media_monotonic_ms svc g))"
  by (auto simp: media_monotonic_ms_def Let_def ask_result(5) split: prod.splits option.splits)

lemma realtime_result:
  "media_realtime_receipt_ms svc g = (r, g') \<Longrightarrow> g_media_monotonic_last g' = g_media_monotonic_last g"
  by (auto simp: media_realtime_receipt_ms_def Let_def ask_result(4)
      split: prod.splits option.splits if_splits)

lemma receipt_deadline_grows:
  "g_media_monotonic_last g \<le> g_media_monotonic_last (snd (media_v3_receipt_deadline svc expiry g))"
proof -
  have "g_media_monotonic_last g1 \<le> g_media_monotonic_last g'" if "media_v3_receipt_deadline svc expiry g1 = (d, g')" for g1 g' d
    using that monotonic_grows [of g1 svc]
    by (auto simp: media_v3_receipt_deadline_def Let_def ask_result(4) realtime_result
        split: prod.splits option.splits if_splits bool.splits)
  then show ?thesis by (metis prod.collapse)
qed

text \<open>A deadline taken at a receipt: between the clock reading and two hours after it.\<close>

lemma receipt_deadline_range:
  assumes "media_v3_receipt_deadline svc expiry g = (Some d, g')"
  shows "0 < expiry" "expiry \<le> INT64_MAX div 1000"
    "unat (g_media_monotonic_last g') < unat d" "unat d \<le> unat (g_media_monotonic_last g') + 7200000"
    "unat d \<le> nat INT64_MAX"
proof -
  let ?e = "word_of_int expiry * 1000 :: u64"
  obtain g1 g2 now wall where m: "media_monotonic_ms svc g = (Some now, g1)"
      "media_realtime_receipt_ms svc g1 = (Some wall, g2)" "ask (boot_id_known svc) g2 = (True, g')"
    and e: "0 < expiry" "expiry \<le> INT64_MAX div 1000"
    and r: "wall < ?e" "?e - wall \<le> 7200000" "now \<le> word_of_int INT64_MAX - (?e - wall)" "d = now + (?e - wall)"
    using assms by (auto simp: media_v3_receipt_deadline_def Let_def not_less not_le
        split: prod.splits option.splits if_splits bool.splits)
  show "0 < expiry" "expiry \<le> INT64_MAX div 1000" using e by simp_all
  have last: "g_media_monotonic_last g' = now"
    using monotonic_reads(1) [OF m(1)] realtime_result [OF m(2)] ask_result(4) [OF m(3)] by simp
  define rem where "rem = ?e - wall"
  have "rem \<noteq> 0" using r(1) by (auto simp: rem_def)
  then have rem: "0 < unat rem" "unat rem \<le> 7200000"
    using r(2) by (simp_all add: rem_def word_le_nat_alt unat_gt_0)
  have "unat (word_of_int INT64_MAX - rem :: u64) = nat INT64_MAX - unat rem"
    using rem by (subst unat_sub_no_wrap) (simp_all add: word_le_nat_alt)
  then have "unat now \<le> nat INT64_MAX - unat rem" using r(3) by (simp add: word_le_nat_alt rem_def)
  moreover from this have "unat d = unat now + unat rem"
    using r(4) rem unfolding rem_def [symmetric] by (intro trans [OF _ unat_add_no_wrap]) simp_all
  ultimately show "unat (g_media_monotonic_last g') < unat d"
    "unat d \<le> unat (g_media_monotonic_last g') + 7200000" "unat d \<le> nat INT64_MAX"
    using rem last by simp_all
qed

section \<open>Renewals\<close>

text \<open>The candidate of a camera renewal, with its two overflow guards.\<close>

lemma camera_candidate:
  fixes d delta :: u64
  assumes "0 < i" "i < e" "e < 2 ^ 63" "delta = word_of_int e - word_of_int i"
    and "delta \<le> 7200" "d \<le> word_of_int INT64_MAX - delta * 1000"
  shows "int (unat (d + delta * 1000)) = int (unat d) + 1000 * (e - i)" "unat (d + delta * 1000) \<le> nat INT64_MAX"
proof -
  have "uint (word_of_int (e - i) :: u64) = (e - i) mod 2 ^ 64" by (subst uint_word_of_int) simp
  also have "\<dots> = e - i" using assms(1-3) by (intro mod_pos_pos_trivial) simp_all
  finally have delta: "unat delta = nat (e - i)"
    unfolding unat_eq_nat_uint assms(4) of_int_diff [symmetric] by simp
  have le: "unat delta \<le> 7200" using assms(5) by (simp add: word_le_nat_alt)
  then have m: "unat (delta * 1000) = unat delta * 1000" by (simp add: unat_word_ariths)
  then have "unat (word_of_int INT64_MAX - delta * 1000 :: u64) = nat INT64_MAX - unat delta * 1000"
    using le by (subst unat_sub_no_wrap) (simp_all add: word_le_nat_alt)
  then have b: "unat d \<le> nat INT64_MAX - unat delta * 1000" using assms(6) by (simp add: word_le_nat_alt)
  then have "unat (d + delta * 1000) = unat d + unat delta * 1000"
    using le m by (subst unat_add_no_wrap) simp_all
  then show "int (unat (d + delta * 1000)) = int (unat d) + 1000 * (e - i)"
    "unat (d + delta * 1000) \<le> nat INT64_MAX"
    using b le delta assms(2) by simp_all
qed

text \<open>The renewals a session receives; an \<open>int64_t\<close> is a signed 64-bit word.\<close>

definition renewal :: "'w services \<Rightarrow> media_session \<times> 'w server \<Rightarrow> 64 word \<Rightarrow> media_session \<times> 'w server" where
  "renewal svc = (\<lambda>(s, g) expiry. snd (media_v3_renew_deadline svc s (sint expiry) g))"

definition deadline_ok :: "media_session \<Rightarrow> media_session \<times> 'w server \<Rightarrow> bool" where
  "deadline_ok s0 = (\<lambda>(s, g).
     0 < issuer_expiry_utc s \<and> issuer_expiry_utc s < 2 ^ 63 \<and> camera_source s = camera_source s0
     \<and> unat (monotonic_deadline_ms s) \<le> unat (g_media_monotonic_last g) + 7200000
     \<and> (camera_source s0 \<longrightarrow> issuer_expiry_utc s0 \<le> issuer_expiry_utc s
         \<and> int (unat (monotonic_deadline_ms s))
           = int (unat (monotonic_deadline_ms s0)) + 1000 * (issuer_expiry_utc s - issuer_expiry_utc s0)))"

lemma renew_deadline_ok:
  assumes inv: "deadline_ok s0 (s, g)" and e: "expiry < 2 ^ 63"
    and r: "media_v3_renew_deadline svc s expiry g = (ok, s', g')"
  shows "deadline_ok s0 (s', g')"
proof -
  obtain now g1 where m: "media_monotonic_ms svc g = (now, g1)" by (cases "media_monotonic_ms svc g")
  have grow: "unat (g_media_monotonic_last g) \<le> unat (g_media_monotonic_last g1)"
    using monotonic_grows [of g svc] m by (simp add: word_le_nat_alt)
  have idle: "deadline_ok s0 (s, g2)" if "g_media_monotonic_last g1 \<le> g_media_monotonic_last g2" for g2
    using inv grow that by (auto simp: deadline_ok_def word_le_nat_alt)
  show ?thesis
  proof (cases "s' = s")
    case True
    have "g_media_monotonic_last g1 \<le> g_media_monotonic_last g'"
    proof (cases "g' = g1")
      case False
      then obtain d g2 where d: "media_v3_receipt_deadline svc expiry g1 = (d, g2)"
          "g' = g2 \<or> g' = snd (media_monotonic_ms svc g2)"
        using r m by (auto simp: media_v3_renew_deadline_def Let_def split: prod.splits option.splits if_splits)
      then show ?thesis
        using receipt_deadline_grows [of g1 svc expiry] monotonic_grows [of g2 svc]
        by (auto intro: order_trans)
    qed simp
    with True idle show ?thesis by simp
  next
    case False
    show ?thesis
    proof (cases "camera_source s")
      case True
      let ?delta = "word_of_int expiry - word_of_int (issuer_expiry_utc s) :: u64"
      let ?d = "monotonic_deadline_ms s"
      obtain t where t: "now = Some t" "g' = g1" "s' = grant s expiry (?d + ?delta * 1000) t"
          "issuer_expiry_utc s < expiry" "?delta \<le> 7200" "?d \<le> word_of_int INT64_MAX - ?delta * 1000"
          "t < ?d + ?delta * 1000" "?d + ?delta * 1000 - t \<le> 7200000"
        using r m True False
        by (auto simp: media_v3_renew_deadline_def Let_def not_less not_le split: option.splits if_splits)
      have i: "0 < issuer_expiry_utc s" using inv by (simp add: deadline_ok_def)
      note c = camera_candidate(1) [OF i t(4) e refl t(5,6)]
      have "unat (?d + ?delta * 1000) \<le> unat t + 7200000"
        using t(7,8) unat_sub_no_wrap [of t "?d + ?delta * 1000"] by (simp add: word_le_nat_alt word_less_nat_alt)
      then show ?thesis
        using c t(1-4) True inv e monotonic_reads(1) [of svc g t g1] m
        by (auto simp: deadline_ok_def grant_def)
    next
      case cam: False
      obtain t g2 d t' g3 where t: "now = Some t" "media_v3_receipt_deadline svc expiry g1 = (Some d, g2)"
          "media_monotonic_ms svc g2 = (Some t', g')" "s' = grant s expiry d t'"
        using r m cam False
        by (auto simp: media_v3_renew_deadline_def Let_def split: prod.splits option.splits if_splits)
      have "g_media_monotonic_last g2 \<le> t'" "g_media_monotonic_last g' = t'" using monotonic_reads t(3) by auto
      then show ?thesis
        using receipt_deadline_range [OF t(2)] t(4) cam inv e
        by (auto simp: deadline_ok_def grant_def word_le_nat_alt)
    qed
  qed
qed

interpretation renewals: step_invariant "renewal svc" "deadline_ok s0" for svc s0
proof
  fix x :: "media_session \<times> 'a server" and e :: "64 word"
  assume "deadline_ok s0 x"
  moreover obtain s g where x: "x = (s, g)" by (cases x)
  moreover obtain ok s' g' where r: "media_v3_renew_deadline svc s (sint e) g = (ok, s', g')"
    by (cases "media_v3_renew_deadline svc s (sint e) g")
  moreover have "sint e < 2 ^ 63" using sint_lt [of e] by simp
  ultimately show "deadline_ok s0 (renewal svc x e)"
    using renew_deadline_ok by (fastforce simp: renewal_def)
qed

lemma expired_not_renewed:
  assumes "monotonic_deadline_ms s \<le> g_media_monotonic_last g"
  shows "fst (media_v3_renew_deadline svc s expiry g) = False"
    and "fst (snd (media_v3_renew_deadline svc s expiry g)) = s"
    and "monotonic_deadline_ms s \<le> g_media_monotonic_last (snd (snd (media_v3_renew_deadline svc s expiry g)))"
proof -
  obtain now g1 where m: "media_monotonic_ms svc g = (now, g1)" by (cases "media_monotonic_ms svc g")
  have "monotonic_deadline_ms s \<le> t" if "now = Some t" for t
    using monotonic_reads(2) [of svc g t g1] m that assms by auto
  then have "media_v3_renew_deadline svc s expiry g = (False, s, g1)"
    using m by (auto simp: media_v3_renew_deadline_def split: option.splits)
  moreover have "monotonic_deadline_ms s \<le> g_media_monotonic_last g1"
    using assms monotonic_grows [of g svc] m by auto
  ultimately show "fst (media_v3_renew_deadline svc s expiry g) = False"
    "fst (snd (media_v3_renew_deadline svc s expiry g)) = s"
    "monotonic_deadline_ms s \<le> g_media_monotonic_last (snd (snd (media_v3_renew_deadline svc s expiry g)))"
    by simp_all
qed

text \<open>An expired session is latched: no renewal changes it again.\<close>

interpretation expiry_latch: latch "renewal svc"
  "\<lambda>(s, g). monotonic_deadline_ms s \<le> g_media_monotonic_last g" fst for svc
proof
  fix x :: "media_session \<times> 'a server" and e :: "64 word"
  assume l: "case x of (s, g) \<Rightarrow> monotonic_deadline_ms s \<le> g_media_monotonic_last g"
  obtain s g where x: "x = (s, g)" by (cases x)
  obtain ok s' g' where r: "media_v3_renew_deadline svc s (sint e) g = (ok, s', g')"
    by (cases "media_v3_renew_deadline svc s (sint e) g")
  show "case renewal svc x e of (s, g) \<Rightarrow> monotonic_deadline_ms s \<le> g_media_monotonic_last g"
    and "fst (renewal svc x e) = fst x"
    using expired_not_renewed [of s g svc "sint e"] l x r by (auto simp: renewal_def)
qed

text \<open>
  C7: the deadline of a lease, from the moment it is set and through any number of renewals. It
  never lies more than two hours behind the last reading of the monotonic clock. For a camera the
  deadline moves by exactly the seconds the issuer's expiry moved, and never backwards. Once the
  clock has reached the deadline, no sequence of renewals is granted or changes the session.
\<close>

theorem v3_deadline_discipline:
  assumes "media_v3_begin_deadline svc s expiry g = (True, s0, g0)"
    and "foldl (renewal svc) (s0, g0) es = (s1, g1)"
  shows "unat (monotonic_deadline_ms s1) \<le> unat (g_media_monotonic_last g1) + 7200000
    \<and> (camera_source s \<longrightarrow> expiry \<le> issuer_expiry_utc s1
        \<and> int (unat (monotonic_deadline_ms s1))
          = int (unat (monotonic_deadline_ms s0)) + 1000 * (issuer_expiry_utc s1 - expiry))
    \<and> (monotonic_deadline_ms s1 \<le> g_media_monotonic_last g1 \<longrightarrow>
        fst (foldl (renewal svc) (s1, g1) fs) = s1 \<and> \<not> fst (media_v3_renew_deadline svc s1 expiry' g1))"
proof -
  obtain d where d: "media_v3_receipt_deadline svc expiry g = (Some d, g0)"
      "s0 = s\<lparr>issuer_expiry_utc := expiry, monotonic_deadline_ms := d\<rparr>"
    using assms(1) by (auto simp: media_v3_begin_deadline_def split: prod.splits option.splits)
  have "deadline_ok s0 (s0, g0)" using receipt_deadline_range [OF d(1)] d(2) by (auto simp: deadline_ok_def)
  then have "deadline_ok s0 (s1, g1)" using renewals.inv_run [of s0 "(s0, g0)" svc es] assms(2) by simp
  moreover have "fst (foldl (renewal svc) (s1, g1) fs) = s1 \<and> \<not> fst (media_v3_renew_deadline svc s1 expiry' g1)"
    if "monotonic_deadline_ms s1 \<le> g_media_monotonic_last g1"
    using that expiry_latch.view_run [of "(s1, g1)" svc fs] expired_not_renewed(1) [OF that] by simp
  ultimately show ?thesis using d(2) by (simp add: deadline_ok_def)
qed

theorem v3_deadline_discipline_witness:
  "\<exists>s1 g1. foldl (renewal (fixed_services Map.empty))
      (snd (media_v3_begin_deadline (fixed_services Map.empty) (empty_session\<lparr>camera_source := True\<rparr>) 1100
        (start_server 0 1000))) [1160] = (s1, g1)
    \<and> int (unat (monotonic_deadline_ms s1)) = 1100000 + 1000 * (issuer_expiry_utc s1 - 1100)"
proof -
  let ?svc = "fixed_services Map.empty" and ?s = "empty_session\<lparr>camera_source := True\<rparr>"
  let ?d = "?s\<lparr>issuer_expiry_utc := 1100, monotonic_deadline_ms := 1100000\<rparr>"
  let ?g = "start_server 0 1000\<lparr>g_media_monotonic_last := 1000000\<rparr> :: int server"
  have b: "media_v3_begin_deadline ?svc ?s 1100 (start_server 0 1000) = (True, ?d, ?g)"
    by (simp add: media_v3_begin_deadline_def media_v3_receipt_deadline_def media_monotonic_ms_def
        media_realtime_receipt_ms_def fixed_services_def ask_def start_server_def Let_def)
  obtain s1 g1 where r: "foldl (renewal ?svc) (?d, ?g) [1160] = (s1, g1)" by fastforce
  from v3_deadline_discipline [OF b r]
  have "int (unat (monotonic_deadline_ms s1)) = 1100000 + 1000 * (issuer_expiry_utc s1 - 1100)" by simp
  with r b show ?thesis by simp
qed

end
