(* ===== verification/Ingress_Routes.thy ===== *)
theory Ingress_Routes
  imports Media_State
begin

text \<open>
  The route table of the ingress service, \<open>l4media/ingress/src/l4media_ingress.c\<close>: which UDP ports
  of Janus the media of a serial number is sent to, and the connections that are told when this
  changes. The table is shown to be a map from serial numbers to port pairs, and a connection to
  hold the ports of its route after every change of the table.
\<close>

section \<open>Definitions of the source\<close>

definition safe_strcpy :: "string \<Rightarrow> nat \<Rightarrow> string" where
  "safe_strcpy src dst_size =
     (let len = length src; len = (if dst_size \<le> len then dst_size - 1 else len) in take len src)"

text \<open>The body of the loop of \<open>update_client_targets_for_sn\<close>.\<close>

definition retarget :: "int \<Rightarrow> int \<Rightarrow> ingress_client \<Rightarrow> ingress_client" where
  "retarget rtp rtcp c =
     (let c = reset_feedback c in
      if camera_route_generation c \<noteq> 0 \<or> camera_route_revoked c then
        c\<lparr>camera_route_revoked := True, cl_rtp_port := 0, cl_rtcp_port := 0, rtp_target := 0, rtcp_target := 0\<rparr>
      else
        c\<lparr>cl_rtp_port := rtp, cl_rtcp_port := rtcp,
          rtp_target := (if 0 < rtp then rtp mod 65536 else 0),
          rtcp_target := (if 0 < rtcp then rtcp mod 65536 else 0)\<rparr>)"

definition update_client_targets_for_sn :: "string \<Rightarrow> int \<Rightarrow> int \<Rightarrow> 'w server \<Rightarrow> nat \<times> 'w server" where
  "update_client_targets_for_sn sn rtp rtcp g =
     (length (filter (\<lambda>c. cl_sn c = sn) (g_clients g)),
      g\<lparr>g_clients := map (\<lambda>c. if cl_sn c = sn then retarget rtp rtcp c else c) (g_clients g)\<rparr>)"

text \<open>One \<open>fgets\<close> of 256 bytes: at most 255 characters, up to and including a line end.\<close>

fun fgets :: "nat \<Rightarrow> string \<Rightarrow> string \<times> string" where
  "fgets 0 s = ([], s)"
| "fgets (Suc n) [] = ([], [])"
| "fgets (Suc n) (c # s) =
     (if c = CHR 0x0A then ([c], s) else case fgets n s of (line, rest) \<Rightarrow> (c # line, rest))"

lemma fgets_shrinks: "length (snd (fgets n s)) \<le> length s"
  by (induction n s rule: fgets.induct) (auto split: prod.splits)

lemma fgets_shrinks_strictly: "s \<noteq> [] \<Longrightarrow> length (snd (fgets (Suc n) s)) < length s"
  using fgets_shrinks [of n "tl s"] by (cases s) (auto split: prod.splits)

lemma fgets_shrinks_255: "s \<noteq> [] \<Longrightarrow> length (snd (fgets 255 s)) < length s"
  using fgets_shrinks_strictly [of s 254] by (simp del: fgets.simps)

text \<open>\<open>sscanf\<close> with the format of a routes file.\<close>

definition parse_route :: "string \<Rightarrow> (string \<times> int \<times> int) option" where
  "parse_route p =
     (let p = dropWhile isspace p; sn = take 127 (takeWhile (\<lambda>c. \<not> isspace c) p) in
      if sn = [] then None
      else case scan_integer (drop (length sn) p) of
        None \<Rightarrow> None
      | Some (neg1, n1, p) \<Rightarrow>
          (case scan_integer p of
             None \<Rightarrow> None
           | Some (neg2, n2, p) \<Rightarrow>
               Some (sn, int_cast (if neg1 then - n1 else n1), int_cast (if neg2 then - n2 else n2))))"

definition load_line :: "route_entry list \<Rightarrow> string \<Rightarrow> route_entry list" where
  "load_line rs line =
     (let p = dropWhile blank line in
      if p = [] \<or> hd p = CHR ''#'' \<or> hd p = CHR 0x0D \<or> hd p = CHR 0x0A then rs
      else case parse_route p of
        None \<Rightarrow> rs
      | Some (sn, rtp, rtcp) \<Rightarrow>
          if length rs < MAX_ROUTES
          then rs @ [\<lparr>re_sn = safe_strcpy sn 128, re_rtp_port = rtp, re_rtcp_port = rtcp, is_static = True\<rparr>]
          else rs)"

function load_lines :: "route_entry list \<Rightarrow> string \<Rightarrow> route_entry list" where
  "load_lines rs file =
     (if file = [] then rs
      else case fgets 255 file of (line, file) \<Rightarrow> load_lines (load_line rs line) file)"
  by auto
termination
  by (relation "measure (length \<circ> snd)")
    (use fgets_shrinks_255 in \<open>auto split: prod.splits simp del: fgets.simps, metis snd_conv\<close>)

text \<open>The routes file, \<open>None\<close> when it cannot be opened.\<close>

definition load_routes :: "string option \<Rightarrow> 'w server \<Rightarrow> 'w server" where
  "load_routes file g =
     (case file of None \<Rightarrow> g | Some text_of_file \<Rightarrow> g\<lparr>g_routes := load_lines [] text_of_file\<rparr>)"

definition find_route :: "string \<Rightarrow> 'w server \<Rightarrow> route_entry option" where
  "find_route sn g = map_option (\<lambda>i. g_routes g ! i) (first_index (\<lambda>r. re_sn r = sn) (g_routes g))"

text \<open>The result says whether the route is in the table and how many connections were told.\<close>

definition upsert_route :: "string \<Rightarrow> int \<Rightarrow> int \<Rightarrow> 'w server \<Rightarrow> (nat option) \<times> 'w server" where
  "upsert_route sn rtp rtcp g =
     (let rs = g_routes g;
          rs' = (case first_index (\<lambda>r. re_sn r = sn) rs of
                   Some i \<Rightarrow> Some (rs[i := (rs ! i)\<lparr>re_rtp_port := rtp, re_rtcp_port := rtcp\<rparr>])
                 | None \<Rightarrow>
                     if length rs < MAX_ROUTES
                     then Some (rs @ [\<lparr>re_sn = safe_strcpy sn 128, re_rtp_port = rtp, re_rtcp_port = rtcp,
                                       is_static = False\<rparr>])
                     else None) in
      case rs' of
        None \<Rightarrow> (None, g)
      | Some rs' \<Rightarrow>
          (case update_client_targets_for_sn sn rtp rtcp (g\<lparr>g_routes := rs'\<rparr>) of
             (updated, g) \<Rightarrow> (Some updated, g)))"

text \<open>
  The serial number handed to \<open>delete_route\<close> is a text of the caller's own or the text inside an
  entry of the table; the second reads what the entry holds at the time.
\<close>

datatype sn_arg = Text string | EntrySn nat

primrec read_sn :: "route_entry list \<Rightarrow> sn_arg \<Rightarrow> string" where
  "read_sn cells (Text t) = t"
| "read_sn cells (EntrySn i) = re_sn (cells ! i)"

text \<open>
  Entries behind the deleted one move down by one cell; the cell that was the last keeps its
  contents, though it is no longer counted.
\<close>

definition delete_route :: "sn_arg \<Rightarrow> 'w server \<Rightarrow> (nat option) \<times> 'w server" where
  "delete_route sn g =
     (let rs = g_routes g in
      case first_index (\<lambda>r. re_sn r = read_sn rs sn) rs of
        None \<Rightarrow> (None, g)
      | Some i \<Rightarrow>
          let rs' = take i rs @ drop (Suc i) rs; cells = rs' @ [last rs] in
          (case update_client_targets_for_sn (read_sn cells sn) 0 0 (g\<lparr>g_routes := rs'\<rparr>) of
             (updated, g) \<Rightarrow> (Some updated, g)))"

section \<open>The table as a map\<close>

abbreviation ports :: "route_entry \<Rightarrow> int \<times> int" where "ports r \<equiv> (re_rtp_port r, re_rtcp_port r)"

definition route_map :: "'w server \<Rightarrow> string \<Rightarrow> (int \<times> int) option" where
  "route_map g sn = map_option ports (find_route sn g)"

definition routes_ok :: "'w server \<Rightarrow> bool" where
  "routes_ok g \<longleftrightarrow> distinct (map re_sn (g_routes g)) \<and> length (g_routes g) \<le> MAX_ROUTES"

lemma find_route_None: "find_route sn g = None \<longleftrightarrow> sn \<notin> re_sn ` set (g_routes g)"
  by (auto simp: find_route_def first_index_None)

lemma route_map_None: "route_map g sn = None \<longleftrightarrow> sn \<notin> re_sn ` set (g_routes g)"
  by (simp add: route_map_def find_route_None)

lemma route_map_of: "route_map g = map_of (map (\<lambda>r. (re_sn r, ports r)) (g_routes g))"
proof
  fix sn
  have "map_option (\<lambda>i. ports (rs ! i)) (first_index (\<lambda>r. re_sn r = sn) rs)
      = map_of (map (\<lambda>r. (re_sn r, ports r)) rs) sn" for rs
    by (induction rs) (auto simp: option.map_comp comp_def)
  then show "route_map g sn = map_of (map (\<lambda>r. (re_sn r, ports r)) (g_routes g)) sn"
    by (simp add: route_map_def find_route_def option.map_comp comp_def)
qed

lemma route_map_card:
  assumes "routes_ok g" shows "card (dom (route_map g)) = length (g_routes g)"
proof -
  have "dom (route_map g) = set (map re_sn (g_routes g))"
    unfolding route_map_of by (simp add: dom_map_of_conv_image_fst image_image)
  then show ?thesis using assms distinct_card by (force simp: routes_ok_def)
qed

lemma map_of_replace:
  assumes "distinct (map fst kvs)" "i < length kvs" "fst (kvs ! i) = k"
  shows "map_of (kvs[i := (k, v)]) = (map_of kvs)(k \<mapsto> v)"
  using assms
proof (induction kvs arbitrary: i)
  case (Cons kv kvs)
  have "i = Suc j \<Longrightarrow> fst kv \<noteq> k" for j
    using Cons.prems imageI [OF nth_mem, of j kvs fst] by auto
  then show ?case using Cons by (cases i) (auto simp: fun_eq_iff)
qed simp

lemma map_of_snoc: "map_of kvs k = None \<Longrightarrow> map_of (kvs @ [(k, v)]) = (map_of kvs)(k \<mapsto> v)"
  by (auto simp: map_add_def fun_eq_iff split: option.splits)

lemma map_of_remove:
  assumes "distinct (map fst kvs)" "i < length kvs" "fst (kvs ! i) = k"
  shows "map_of (take i kvs @ drop (Suc i) kvs) = (map_of kvs)(k := None)"
  using assms
proof (induction kvs arbitrary: i)
  case (Cons kv kvs)
  have "i = Suc j \<Longrightarrow> fst kv \<noteq> k" for j
    using Cons.prems imageI [OF nth_mem, of j kvs fst] by auto
  then show ?case using Cons by (cases i) (auto simp: fun_eq_iff map_of_eq_None_iff)
qed simp

lemma safe_strcpy_short: "length s < n \<Longrightarrow> safe_strcpy s n = s"
  by (simp add: safe_strcpy_def)

lemma route_index:
  assumes "first_index (\<lambda>r. re_sn r = sn) (g_routes g) = Some i"
  shows "i < length (g_routes g)" "re_sn (g_routes g ! i) = sn" "route_map g sn \<noteq> None"
proof -
  show i: "i < length (g_routes g)" "re_sn (g_routes g ! i) = sn"
    using first_index_Some [OF assms] by simp_all
  then have "sn \<in> re_sn ` set (g_routes g)" by (metis nth_mem imageI)
  then show "route_map g sn \<noteq> None" by (simp add: route_map_None)
qed

lemma upsert_full:
  "upsert_route sn rtp rtcp g = (None, g') \<longleftrightarrow>
     g' = g \<and> route_map g sn = None \<and> MAX_ROUTES \<le> length (g_routes g)"
proof (cases "first_index (\<lambda>r. re_sn r = sn) (g_routes g)")
  case None
  then have "route_map g sn = None" by (auto simp: route_map_None first_index_None)
  then show ?thesis using None
    by (auto simp: upsert_route_def Let_def update_client_targets_for_sn_def not_less)
next
  case (Some i)
  then show ?thesis using route_index [OF Some]
    by (simp add: upsert_route_def Let_def update_client_targets_for_sn_def)
qed

lemma upsert_done:
  assumes u: "upsert_route sn rtp rtcp g = (Some n, g')" and ok: "routes_ok g" and sn: "length sn < 128"
  shows "routes_ok g'" "route_map g' = (route_map g)(sn \<mapsto> (rtp, rtcp))"
    "g_clients g' = map (\<lambda>c. if cl_sn c = sn then retarget rtp rtcp c else c) (g_clients g)"
proof -
  let ?rs = "g_routes g"
  consider (old) i where "first_index (\<lambda>r. re_sn r = sn) ?rs = Some i"
      "g_routes g' = ?rs[i := (?rs ! i)\<lparr>re_rtp_port := rtp, re_rtcp_port := rtcp\<rparr>]"
    | (new) "first_index (\<lambda>r. re_sn r = sn) ?rs = None" "length ?rs < MAX_ROUTES"
      "g_routes g' = ?rs @ [\<lparr>re_sn = sn, re_rtp_port = rtp, re_rtcp_port = rtcp, is_static = False\<rparr>]"
    using u sn by (auto simp: upsert_route_def Let_def update_client_targets_for_sn_def safe_strcpy_short
        split: option.splits if_splits)
  then have "routes_ok g' \<and> route_map g' = (route_map g)(sn \<mapsto> (rtp, rtcp))"
  proof cases
    case old
    note i = route_index [OF old(1)]
    have "map re_sn (g_routes g') = map re_sn ?rs" using old(2) i by (simp add: map_update list_update_same_conv)
    moreover have "length (g_routes g') = length ?rs" using old(2) by simp
    moreover have "route_map g' = (route_map g)(sn \<mapsto> (rtp, rtcp))"
      using ok i map_of_replace [of "map (\<lambda>r. (re_sn r, ports r)) ?rs" i sn "(rtp, rtcp)"]
      by (simp add: route_map_of old(2) map_update routes_ok_def comp_def)
    ultimately show ?thesis using ok by (simp add: routes_ok_def)
  next
    case new
    then have "sn \<notin> re_sn ` set ?rs" by (auto simp: first_index_None)
    then have "route_map g sn = None" "routes_ok g'"
      using ok new(2,3) by (auto simp: route_map_None routes_ok_def)
    then show ?thesis
      using map_of_snoc [of "map (\<lambda>r. (re_sn r, ports r)) ?rs" sn "(rtp, rtcp)"] new(3)
      by (simp add: route_map_of)
  qed
  then show "routes_ok g'" "route_map g' = (route_map g)(sn \<mapsto> (rtp, rtcp))" by simp_all
  show "g_clients g' = map (\<lambda>c. if cl_sn c = sn then retarget rtp rtcp c else c) (g_clients g)"
    using u by (auto simp: upsert_route_def Let_def update_client_targets_for_sn_def split: option.splits if_splits)
qed

lemma delete_absent:
  "delete_route (Text sn) g = (None, g') \<longleftrightarrow> g' = g \<and> route_map g sn = None"
  using route_index(3) [of sn g]
  by (auto simp: delete_route_def Let_def update_client_targets_for_sn_def route_map_None first_index_None
      split: option.splits)

lemma delete_done:
  assumes u: "delete_route (Text sn) g = (Some n, g')" and ok: "routes_ok g"
  shows "routes_ok g'" "route_map g' = (route_map g)(sn := None)"
    "g_clients g' = map (\<lambda>c. if cl_sn c = sn then retarget 0 0 c else c) (g_clients g)"
proof -
  let ?rs = "g_routes g"
  obtain i where i: "first_index (\<lambda>r. re_sn r = sn) ?rs = Some i"
      "g_routes g' = take i ?rs @ drop (Suc i) ?rs"
    and c: "g_clients g' = map (\<lambda>c. if cl_sn c = sn then retarget 0 0 c else c) (g_clients g)"
    using u by (auto simp: delete_route_def Let_def update_client_targets_for_sn_def split: option.splits)
  note ix = route_index [OF i(1)]
  show "g_clients g' = map (\<lambda>c. if cl_sn c = sn then retarget 0 0 c else c) (g_clients g)" by (rule c)
  show "route_map g' = (route_map g)(sn := None)"
    using ok ix map_of_remove [of "map (\<lambda>r. (re_sn r, ports r)) ?rs" i sn]
    by (simp add: route_map_of i(2) routes_ok_def comp_def take_map drop_map)
  have "distinct (map re_sn (take i ?rs @ drop (Suc i) ?rs))"
    using ok ix(1) id_take_nth_drop [of i "map re_sn ?rs"]
    by (simp add: routes_ok_def take_map drop_map)
  then show "routes_ok g'" using ok ix(1) i(2) by (auto simp: routes_ok_def)
qed

section \<open>The contract of a port table\<close>

datatype route_op = Upsert string int int | Delete string

text \<open>The table as its users see it: a map that refuses a new name when it is full.\<close>

fun route_spec :: "nat \<Rightarrow> (string \<Rightarrow> (int \<times> int) option) \<Rightarrow> route_op \<Rightarrow> string \<Rightarrow> (int \<times> int) option" where
  "route_spec cap m (Upsert sn rtp rtcp) =
     (if m sn = None \<and> cap \<le> card (dom m) then m else m(sn \<mapsto> (rtp, rtcp)))"
| "route_spec cap m (Delete sn) = m(sn := None)"

fun op_sn :: "route_op \<Rightarrow> string" where
  "op_sn (Upsert sn rtp rtcp) = sn"
| "op_sn (Delete sn) = sn"

locale port_table =
  fixes lookup :: "'t \<Rightarrow> string \<Rightarrow> (int \<times> int) option" and exec :: "'t \<Rightarrow> route_op \<Rightarrow> 't"
    and ok :: "'t \<Rightarrow> bool" and cap :: nat and fits :: "string \<Rightarrow> bool"
  assumes ok_exec: "ok t \<Longrightarrow> fits (op_sn e) \<Longrightarrow> ok (exec t e)"
    and lookup_exec: "ok t \<Longrightarrow> fits (op_sn e) \<Longrightarrow> lookup (exec t e) = route_spec cap (lookup t) e"
begin

lemma run_refines:
  "ok t \<Longrightarrow> list_all (\<lambda>e. fits (op_sn e)) es \<Longrightarrow>
     ok (foldl exec t es) \<and> lookup (foldl exec t es) = foldl (route_spec cap) (lookup t) es"
  by (induction es arbitrary: t) (simp_all add: ok_exec lookup_exec)

end

fun route_exec :: "'w server \<Rightarrow> route_op \<Rightarrow> 'w server" where
  "route_exec g (Upsert sn rtp rtcp) = snd (upsert_route sn rtp rtcp g)"
| "route_exec g (Delete sn) = snd (delete_route (Text sn) g)"

text \<open>
  What a connection past its preamble sends to: the ports of its route, or nothing. The addresses
  handed to \<open>sendto\<close> and \<open>connect\<close> carry the low 16 bits of these ports, and are cleared with them.
  A connection tied to one generation of a camera route loses its ports for good at the first change.
\<close>

definition target_ok :: "(string \<Rightarrow> (int \<times> int) option) \<Rightarrow> ingress_client \<Rightarrow> bool" where
  "target_ok m c \<longleftrightarrow> cl_state c = STATE_FRAMING \<and> camera_route_generation c = 0 \<and> \<not> camera_route_revoked c \<longrightarrow>
     (cl_rtp_port c, cl_rtcp_port c) = (case m (cl_sn c) of Some p \<Rightarrow> p | None \<Rightarrow> (0, 0))
     \<and> (0 \<le> cl_rtp_port c \<longrightarrow> rtp_target c = cl_rtp_port c mod 65536)
     \<and> (0 \<le> cl_rtcp_port c \<longrightarrow> rtcp_target c = cl_rtcp_port c mod 65536)"

definition table_ok :: "'w server \<Rightarrow> bool" where
  "table_ok g \<longleftrightarrow> routes_ok g \<and> list_all (target_ok (route_map g)) (g_clients g)"

lemma reset_feedback_keeps [simp]:
  "cl_sn (reset_feedback c) = cl_sn c" "cl_state (reset_feedback c) = cl_state c"
  "camera_route_generation (reset_feedback c) = camera_route_generation c"
  "camera_route_revoked (reset_feedback c) = camera_route_revoked c" "epoch (reset_feedback c) = epoch c"
  by (simp_all add: reset_feedback_def update_feedback_interest_def Let_def)

lemma retarget_keeps [simp]:
  "cl_sn (retarget rtp rtcp c) = cl_sn c" "cl_state (retarget rtp rtcp c) = cl_state c"
  "camera_route_generation (retarget rtp rtcp c) = camera_route_generation c" "epoch (retarget rtp rtcp c) = epoch c"
  by (simp_all add: retarget_def Let_def)

lemma retarget_ports:
  "cl_rtp_port (retarget rtp rtcp c) = (if camera_route_generation c \<noteq> 0 \<or> camera_route_revoked c then 0 else rtp)"
  "cl_rtcp_port (retarget rtp rtcp c) = (if camera_route_generation c \<noteq> 0 \<or> camera_route_revoked c then 0 else rtcp)"
  "camera_route_revoked (retarget rtp rtcp c)
     = (camera_route_generation c \<noteq> 0 \<or> camera_route_revoked c)"
  "camera_route_generation c = 0 \<Longrightarrow> \<not> camera_route_revoked c \<Longrightarrow>
     rtp_target (retarget rtp rtcp c) = (if 0 < rtp then rtp mod 65536 else 0)
     \<and> rtcp_target (retarget rtp rtcp c) = (if 0 < rtcp then rtcp mod 65536 else 0)"
  by (simp_all add: retarget_def Let_def)

lemma retarget_all_ok:
  assumes "list_all (target_ok m) cs" "(case m' sn of Some p \<Rightarrow> p | None \<Rightarrow> (0, 0)) = (rtp, rtcp)"
    and "\<And>x. x \<noteq> sn \<Longrightarrow> m' x = m x"
  shows "list_all (target_ok m') (map (\<lambda>c. if cl_sn c = sn then retarget rtp rtcp c else c) cs)"
  using assms by (auto simp: list_all_iff target_ok_def retarget_ports)

interpretation routes: port_table route_map route_exec table_ok MAX_ROUTES "\<lambda>sn. length sn < 128"
proof
  fix g :: "'a server" and e
  assume g: "table_ok g" and e: "length (op_sn e) < 128"
  then have rok: "routes_ok g" and cok: "list_all (target_ok (route_map g)) (g_clients g)"
    by (simp_all add: table_ok_def)
  have "table_ok (route_exec g e) \<and> route_map (route_exec g e) = route_spec MAX_ROUTES (route_map g) e"
  proof (cases e)
    case (Upsert sn rtp rtcp)
    obtain r g' where u: "upsert_route sn rtp rtcp g = (r, g')" by (cases "upsert_route sn rtp rtcp g")
    show ?thesis
    proof (cases r)
      case None
      then show ?thesis using u upsert_full [of sn rtp rtcp g g'] Upsert g route_map_card [OF rok] by simp
    next
      case (Some n)
      have "\<not> (route_map g sn = None \<and> MAX_ROUTES \<le> length (g_routes g))"
        using u Some upsert_full [of sn rtp rtcp g g] by auto
      then show ?thesis
        using upsert_done [of sn rtp rtcp g n g'] retarget_all_ok [OF cok, of "route_map g'" sn rtp rtcp]
          u Some Upsert e rok route_map_card [OF rok] by (auto simp: table_ok_def)
    qed
  next
    case (Delete sn)
    obtain r g' where u: "delete_route (Text sn) g = (r, g')" by (cases "delete_route (Text sn) g")
    show ?thesis
    proof (cases r)
      case None
      then show ?thesis using u delete_absent [of sn g g'] Delete g by (simp add: fun_upd_idem)
    next
      case (Some n)
      then show ?thesis
        using delete_done [of sn g n g'] retarget_all_ok [OF cok, of "route_map g'" sn 0 0]
          u Delete rok by (simp add: table_ok_def)
    qed
  qed
  then show "table_ok (route_exec g e)" "route_map (route_exec g e) = route_spec MAX_ROUTES (route_map g) e"
    by simp_all
qed

text \<open>
  C6: the route table is a bounded map, and the connections follow it. Take a table of at most 512
  entries with distinct names whose connections agree with it, and any sequence of upserts and
  deletes of names of fewer than 128 characters, each name a text of the caller's own. Then the table
  answers exactly as a map of 512 names that took the same changes, and every connection past its
  preamble that is not tied to a camera route holds the ports of its route, or zeros when it has no
  route, and the addresses it sends RTP and RTCP to carry these ports. Deletion by the name inside a
  table entry, the way reconciliation calls it, is not covered: there the connections do not follow
  (\<open>delete_by_entry_cuts_neighbour\<close>).
\<close>

theorem routes_refine_map:
  assumes "table_ok g" "list_all (\<lambda>e. length (op_sn e) < 128) es"
  shows "route_map (foldl route_exec g es) = foldl (route_spec MAX_ROUTES) (route_map g) es
    \<and> (\<forall>c \<in> set (g_clients (foldl route_exec g es)).
         target_ok (foldl (route_spec MAX_ROUTES) (route_map g) es) c)"
  using routes.run_refines [OF assms] by (auto simp: table_ok_def list_all_iff)

definition one_publisher :: "unit server" where
  "one_publisher = (start_server 0 ())
     \<lparr>g_clients := [(new_client 1 0 0)\<lparr>cl_state := STATE_FRAMING, cl_sn := ''B''\<rparr>]\<rparr>"

theorem routes_refine_map_witness:
  "route_map (foldl route_exec one_publisher [Upsert ''A'' 6010 6011, Upsert ''B'' 6012 6013, Delete ''A'']) ''B''
     = Some (6012, 6013)
   \<and> map (\<lambda>c. (rtp_target c, rtcp_target c))
       (g_clients (foldl route_exec one_publisher [Upsert ''A'' 6010 6011, Upsert ''B'' 6012 6013, Delete ''A'']))
     = [(6012, 6013)]"
proof -
  let ?es = "[Upsert ''A'' 6010 6011, Upsert ''B'' 6012 6013, Delete ''A'']"
  have "route_map one_publisher = Map.empty"
    by (simp add: route_map_of one_publisher_def start_server_def)
  moreover have "table_ok one_publisher"
    by (simp add: table_ok_def target_ok_def routes_ok_def route_map_of one_publisher_def start_server_def new_client_def)
  moreover have "g_clients (foldl route_exec one_publisher ?es) = [retarget 6012 6013
      ((new_client 1 0 0)\<lparr>cl_state := STATE_FRAMING, cl_sn := ''B''\<rparr>)]"
    by (simp add: one_publisher_def start_server_def new_client_def upsert_route_def delete_route_def
        update_client_targets_for_sn_def safe_strcpy_def Let_def)
  ultimately show ?thesis
    using routes_refine_map [of one_publisher ?es] by (simp add: target_ok_def retarget_ports new_client_def)
qed

section \<open>Deleting an entry by its own name\<close>

text \<open>
  Handing \<open>delete_route\<close> the name inside an entry removes that entry, but the connections told are
  those of the entry that moved into its place: here the connection of B is cut although its route
  stays, and that of A goes on sending to ports that are no longer its own.
\<close>

definition two_publishers :: "unit server" where
  "two_publishers = (start_server 0 ())
     \<lparr>g_routes := [\<lparr>re_sn = ''A'', re_rtp_port = 6010, re_rtcp_port = 6011, is_static = False\<rparr>,
                  \<lparr>re_sn = ''B'', re_rtp_port = 6012, re_rtcp_port = 6013, is_static = False\<rparr>],
      g_clients := [(new_client 1 0 0)\<lparr>cl_state := STATE_FRAMING, cl_sn := ''A'', cl_rtp_port := 6010, cl_rtcp_port := 6011\<rparr>,
                    (new_client 2 0 0)\<lparr>cl_state := STATE_FRAMING, cl_sn := ''B'', cl_rtp_port := 6012, cl_rtcp_port := 6013\<rparr>]\<rparr>"

lemma delete_by_entry_cuts_neighbour:
  "let g = snd (delete_route (EntrySn 0) two_publishers) in
   map re_sn (g_routes g) = [''B''] \<and> map (\<lambda>c. (cl_sn c, cl_rtp_port c)) (g_clients g) = [(''A'', 6010), (''B'', 0)]"
  by (simp add: two_publishers_def delete_route_def update_client_targets_for_sn_def retarget_ports new_client_def
      start_server_def Let_def)

end
