(* ===== verification/Media_Janus.thy ===== *)
theory Media_Janus
  imports Media_State
begin

text \<open>
  The Janus adapter of the media service, \<open>l4media/ingress/src/media_janus.h\<close> and the two calls of
  \<open>media_lifecycle.h\<close> that destroy and list mountpoints: the JSON of the requests and how the
  answers are read. Sending a request and parsing the answer is the service \<open>mj_request\<close>.
\<close>

section \<open>Definitions of the source\<close>

definition LEGACY_VIDEO_FMTP :: string where
  "LEGACY_VIDEO_FMTP = ''profile-level-id=42e01f;packetization-mode=1''"

record janus_mountpoint_info =
  found :: bool
  videoport :: int
  videortcpport :: int
  payload_type :: int
  mp_pin :: string
  codec :: string
  fmtp :: string

text \<open>What the JSON library answers: on the wrong kind of value, zero, nothing or no member.\<close>

fun json_object_get :: "json \<Rightarrow> string \<Rightarrow> json option" where
  "json_object_get (JObject kvs) key = map_of kvs key"
| "json_object_get _ key = None"

fun json_integer_value :: "json option \<Rightarrow> int" where
  "json_integer_value (Some (JInt i)) = i"
| "json_integer_value _ = 0"

fun json_string_value :: "json option \<Rightarrow> string option" where
  "json_string_value (Some (JString s)) = Some s"
| "json_string_value _ = None"

fun json_elements :: "json option \<Rightarrow> json list" where
  "json_elements (Some (JArray xs)) = xs"
| "json_elements _ = []"

definition opt_get :: "json option \<Rightarrow> string \<Rightarrow> json option" where
  "opt_get v key = (case v of None \<Rightarrow> None | Some v \<Rightarrow> json_object_get v key)"

definition opt_text :: "string option \<Rightarrow> string" where
  "opt_text s = (case s of None \<Rightarrow> [] | Some s \<Rightarrow> s)"

fun first_some :: "'a option list \<Rightarrow> 'a option" where
  "first_some [] = None"
| "first_some (x # xs) = (case x of None \<Rightarrow> first_some xs | Some y \<Rightarrow> Some y)"

text \<open>The search for a name at any depth; the number is how many more levels are entered.\<close>

fun mj_find :: "nat \<Rightarrow> json \<Rightarrow> string \<Rightarrow> json option" where
  "mj_find 0 v key = None"
| "mj_find (Suc n) v key =
     (case json_object_get v key of
        Some x \<Rightarrow> Some x
      | None \<Rightarrow>
          (case v of
             JObject kvs \<Rightarrow> first_some (map (\<lambda>(k, child). mj_find n child key) kvs)
           | JArray xs \<Rightarrow> first_some (map (\<lambda>child. mj_find n child key) xs)
           | _ \<Rightarrow> None))"

definition mj_search :: "json option \<Rightarrow> string \<Rightarrow> json option" where
  "mj_search v key = (case v of None \<Rightarrow> None | Some v \<Rightarrow> mj_find 33 v key)"

definition janus_get_mountpoint_info ::
  "'w services \<Rightarrow> u32 \<Rightarrow> 'w server \<Rightarrow> janus_mountpoint_info option \<times> 'w server" where
  "janus_get_mountpoint_info svc mid g =
     (case ask (mj_request svc (JObject [(''request'', JString ''info''), (''id'', JInt (sint mid))])) g of
        (None, g) \<Rightarrow> (None, g)
      | (Some response, g) \<Rightarrow>
          (case mj_search (Some response) ''info'' of
             None \<Rightarrow>
               if json_integer_value (mj_search (Some response) ''error_code'') \<noteq> 455 then (None, g)
               else (Some \<lparr>found = False, videoport = 0, videortcpport = 0, payload_type = 0, mp_pin = [],
                           codec = [], fmtp = []\<rparr>, g)
           | Some info \<Rightarrow>
               let media = json_elements (json_object_get info ''media'');
                   video = (case first_index (\<lambda>item. json_string_value (json_object_get item ''type'')
                                                   = Some ''video'') media of
                              Some i \<Rightarrow> Some (media ! i)
                            | None \<Rightarrow> if length media = 1 then Some (media ! 0) else None) in
               (Some \<lparr>found = True,
                      videoport = int_cast (json_integer_value (opt_get video ''port'')),
                      videortcpport = int_cast (json_integer_value (opt_get video ''rtcpport'')),
                      payload_type = int_cast (json_integer_value (opt_get video ''pt'')),
                      mp_pin = lifecycle_safe_strcpy (opt_text (json_string_value (json_object_get info ''pin''))) 513,
                      codec = lifecycle_safe_strcpy (opt_text (json_string_value (opt_get video ''codec''))) 16,
                      fmtp = lifecycle_safe_strcpy (opt_text (json_string_value (opt_get video ''fmtp''))) 256\<rparr>, g)))"

definition create_request :: "u32 \<Rightarrow> int \<Rightarrow> int \<Rightarrow> string \<Rightarrow> string \<Rightarrow> int \<Rightarrow> string \<Rightarrow> json" where
  "create_request mid rtp rtcp mpin codec_name pt fmtp_text =
     JObject ([(''request'', JString ''create''), (''type'', JString ''rtp''), (''id'', JInt (sint mid)),
       (''video'', JBool True), (''audio'', JBool False), (''videoport'', JInt rtp),
       (''videortcpport'', JInt rtcp), (''videopt'', JInt pt), (''videocodec'', JString codec_name),
       (''videofmtp'', JString fmtp_text), (''videobufferkf'', JBool True)]
       @ (if mpin \<noteq> [] then [(''pin'', JString mpin)] else []))"

definition janus_create_format ::
  "'w services \<Rightarrow> u32 \<Rightarrow> int \<Rightarrow> int \<Rightarrow> string \<Rightarrow> string \<Rightarrow> int \<Rightarrow> string \<Rightarrow> 'w server \<Rightarrow> int \<times> 'w server" where
  "janus_create_format svc mid rtp rtcp mpin codec_name pt fmtp_text g =
     (case ask (mj_request svc (create_request mid rtp rtcp mpin codec_name pt fmtp_text)) g of
        (response, g) \<Rightarrow>
          (if json_string_value (mj_search response ''streaming'') = Some ''created'' then 0 else - 1, g))"

definition janus_ensure_format ::
  "'w services \<Rightarrow> u32 \<Rightarrow> int \<Rightarrow> int \<Rightarrow> string \<Rightarrow> string \<Rightarrow> int \<Rightarrow> string \<Rightarrow> bool \<Rightarrow> 'w server \<Rightarrow> int \<times> 'w server" where
  "janus_ensure_format svc mid rtp rtcp mpin codec_name pt fmtp_text strict g =
     (case janus_get_mountpoint_info svc mid g of
        (None, g) \<Rightarrow> (- 1, g)
      | (Some info, g) \<Rightarrow>
          if found info then
            let format = (map to_lower (codec info) = map to_lower codec_name \<and> payload_type info = pt
                          \<and> fmtp info = fmtp_text);
                format = (if \<not> strict \<and> codec info = [] \<and> fmtp info = [] then True else format) in
            if videoport info \<noteq> rtp \<or> videortcpport info \<noteq> rtcp \<or> mp_pin info \<noteq> mpin \<or> \<not> format
            then (- 2, g) else (0, g)
          else janus_create_format svc mid rtp rtcp mpin codec_name pt fmtp_text g)"

definition janus_mountpoint_ensure ::
  "'w services \<Rightarrow> u32 \<Rightarrow> int \<Rightarrow> int \<Rightarrow> string \<Rightarrow> 'w server \<Rightarrow> int \<times> 'w server" where
  "janus_mountpoint_ensure svc mid rtp rtcp mpin g =
     janus_ensure_format svc mid rtp rtcp mpin ''h264'' 96 LEGACY_VIDEO_FMTP False g"

definition janus_destroy_mountpoint :: "'w services \<Rightarrow> u32 \<Rightarrow> 'w server \<Rightarrow> bool \<times> 'w server" where
  "janus_destroy_mountpoint svc mid g =
     (case ask (mj_request svc (JObject [(''request'', JString ''destroy''), (''id'', JInt (sint mid))])) g of
        (response, g) \<Rightarrow>
          (json_string_value (mj_search response ''streaming'') = Some ''destroyed''
           \<or> json_integer_value (mj_search response ''error_code'') = 455, g))"

text \<open>The loop over the listed mountpoints gives up at the first one without a proper number.\<close>

fun mountpoint_ids :: "json list \<Rightarrow> u32 list option" where
  "mountpoint_ids [] = Some []"
| "mountpoint_ids (item # items) =
     (let n = json_integer_value (json_object_get item ''id'') in
      if n \<le> 0 \<or> 2147483647 < n then None
      else map_option ((#) (word_of_int n)) (mountpoint_ids items))"

definition janus_list_mountpoints :: "'w services \<Rightarrow> nat \<Rightarrow> 'w server \<Rightarrow> u32 list option \<times> 'w server" where
  "janus_list_mountpoints svc max_ids g =
     (case ask (mj_request svc (JObject [(''request'', JString ''list'')])) g of
        (response, g) \<Rightarrow>
          ((case mj_search response ''list'' of
              Some (JArray items) \<Rightarrow> if max_ids < length items then None else mountpoint_ids items
            | _ \<Rightarrow> None), g))"

section \<open>What the adapter leaves alone\<close>

text \<open>The adapter asks Janus and changes nothing of the service itself.\<close>

definition same_tables :: "'w server \<Rightarrow> 'w server \<Rightarrow> bool" where
  "same_tables g g' \<longleftrightarrow> (\<exists>w. g' = g\<lparr>world := w\<rparr>)"

lemma same_tables_refl [simp]: "same_tables g g"
  unfolding same_tables_def by (rule exI [of _ "world g"]) simp

lemma same_tables_trans: "same_tables g g1 \<Longrightarrow> same_tables g1 g2 \<Longrightarrow> same_tables g g2"
  by (auto simp: same_tables_def)

lemma same_tables_fields:
  assumes "same_tables g g'"
  shows "g_routes g' = g_routes g" "g_clients g' = g_clients g" "g_media_sessions g' = g_media_sessions g"
  using assms by (auto simp: same_tables_def)

lemma ask_same: "same_tables g (snd (ask f g))" "ask f g = (a, g') \<Longrightarrow> same_tables g g'"
  by (auto simp: ask_def same_tables_def split: prod.splits)

lemma tell_same: "same_tables g (tell f g)"
  by (auto simp: tell_def same_tables_def)

lemma janus_info_same: "janus_get_mountpoint_info svc mid g = (r, g') \<Longrightarrow> same_tables g g'"
  by (auto simp: janus_get_mountpoint_info_def Let_def intro: ask_same
      split: prod.splits option.splits if_splits)

lemma janus_create_same: "janus_create_format svc mid rtp rtcp p c pt f g = (r, g') \<Longrightarrow> same_tables g g'"
  by (auto simp: janus_create_format_def intro: ask_same split: prod.splits)

lemma janus_ensure_same: "janus_mountpoint_ensure svc mid rtp rtcp p g = (r, g') \<Longrightarrow> same_tables g g'"
  by (auto simp: janus_mountpoint_ensure_def janus_ensure_format_def Let_def
      intro: same_tables_trans dest!: janus_info_same janus_create_same
      split: prod.splits option.splits if_splits)

lemma janus_destroy_same: "janus_destroy_mountpoint svc mid g = (r, g') \<Longrightarrow> same_tables g g'"
  by (auto simp: janus_destroy_mountpoint_def intro: ask_same split: prod.splits)

lemma janus_list_same: "janus_list_mountpoints svc n g = (r, g') \<Longrightarrow> same_tables g g'"
  by (auto simp: janus_list_mountpoints_def intro: ask_same split: prod.splits)

lemma mountpoint_ids_length: "mountpoint_ids items = Some ids \<Longrightarrow> length ids = length items"
  by (induction items arbitrary: ids) (auto simp: Let_def split: if_splits)

lemma janus_list_bounded: "janus_list_mountpoints svc n g = (Some ids, g') \<Longrightarrow> length ids \<le> n"
  by (auto simp: janus_list_mountpoints_def dest!: mountpoint_ids_length
      split: prod.splits option.splits json.splits if_splits)

text \<open>
  A mountpoint is used only when Janus reports it with the ports and the pin asked for, or confirms
  that it was created: a mountpoint that exists with other ports is a conflict, and is left as it is.
\<close>

lemma janus_ensure_conflict:
  assumes "janus_get_mountpoint_info svc mid g = (Some info, g')" "found info"
  shows "janus_mountpoint_ensure svc mid rtp rtcp p g
    = (if videoport info = rtp \<and> videortcpport info = rtcp \<and> mp_pin info = p
          \<and> (codec info = [] \<and> fmtp info = []
             \<or> map to_lower (codec info) = ''h264'' \<and> payload_type info = 96 \<and> fmtp info = LEGACY_VIDEO_FMTP)
       then 0 else - 2, g')"
proof -
  have "map to_lower ''h264'' = ''h264''" by code_simp
  then show ?thesis using assms by (simp add: janus_mountpoint_ensure_def janus_ensure_format_def Let_def) blast
qed

end
