(* ===== verification/Media_Sessions.thy ===== *)
theory Media_Sessions
  imports Media_Deadline Ingress_Routes Media_Janus
begin

text \<open>
  The media sessions of the ingress service, \<open>l4media/ingress/src/media_lifecycle.h\<close>: the session
  table, the port pool, and the handlers that start, renew, stop, inspect and reconcile sessions.
  An HTTP answer is its status code with the values its text is made of.
\<close>

section \<open>Definitions of the source\<close>

abbreviation DEFAULT_PORT_BASE :: int where "DEFAULT_PORT_BASE \<equiv> 6010"
abbreviation DEFAULT_PORT_MAX :: int where "DEFAULT_PORT_MAX \<equiv> 6200"
abbreviation L4MEDIA_RTP_FRESH_RECONCILE_SEC :: int where "L4MEDIA_RTP_FRESH_RECONCILE_SEC \<equiv> 20"
abbreviation RTP_STALE_DEADLINE_SEC :: int where "RTP_STALE_DEADLINE_SEC \<equiv> 10"

definition media_active_session_count :: "'w server \<Rightarrow> nat" where
  "media_active_session_count g = length (filter live (g_media_sessions g))"

definition pair_used :: "int \<Rightarrow> int \<Rightarrow> int \<Rightarrow> bool" where
  "pair_used p rtp rtcp \<longleftrightarrow> rtp = p \<or> rtcp = p + 1 \<or> rtp = p + 1 \<or> rtcp = p"

function port_search :: "int \<Rightarrow> 'w server \<Rightarrow> (int \<times> int) option" where
  "port_search p g =
     (if DEFAULT_PORT_MAX < p then None
      else if list_ex (\<lambda>r. pair_used p (re_rtp_port r) (re_rtcp_port r)) (g_routes g) then port_search (p + 2) g
      else if list_ex (\<lambda>s. live s \<and> pair_used p (ms_rtp_port s) (ms_rtcp_port s)) (g_media_sessions g)
        then port_search (p + 2) g
      else Some (p, p + 1))"
  by auto
termination
  by (relation "measure (\<lambda>(p, g). nat (DEFAULT_PORT_MAX + 1 - p))") auto

declare port_search.simps [simp del]

definition allocate_port_pair :: "'w server \<Rightarrow> (int \<times> int) option" where
  "allocate_port_pair g = port_search DEFAULT_PORT_BASE g"

definition find_session_by_id :: "string \<Rightarrow> 'w server \<Rightarrow> nat option" where
  "find_session_by_id sid g =
     (if sid = [] then None else first_index (\<lambda>s. session_id s = sid) (g_media_sessions g))"

definition find_active_session_for_sn :: "string \<Rightarrow> 'w server \<Rightarrow> nat option" where
  "find_active_session_for_sn sn g =
     (if sn = [] then None else first_index (\<lambda>s. live s \<and> ms_sn s = sn) (g_media_sessions g))"

definition find_sn_for_mountpoint :: "u32 \<Rightarrow> 'w server \<Rightarrow> string option" where
  "find_sn_for_mountpoint mid g =
     map_option (\<lambda>i. ms_sn (g_media_sessions g ! i))
       (first_index (\<lambda>s. mountpoint_id s = mid \<and> ms_sn s \<noteq> []) (g_media_sessions g))"

definition rtp_is_fresh_for_sn :: "string \<Rightarrow> int \<Rightarrow> 'w server \<Rightarrow> bool" where
  "rtp_is_fresh_for_sn sn now g \<longleftrightarrow> sn \<noteq> [] \<and>
     list_ex (\<lambda>c. cl_sn c \<noteq> [] \<and> cl_sn c = sn \<and> 0 < last_rtp_time c
                 \<and> now - last_rtp_time c \<le> L4MEDIA_RTP_FRESH_RECONCILE_SEC) (g_clients g)"

text \<open>The index of the stopped or failed session that stopped first, the earlier one on a tie.\<close>

fun oldest_stopped :: "media_session list \<Rightarrow> nat \<Rightarrow> (nat \<times> int) option \<Rightarrow> nat option" where
  "oldest_stopped [] i best = map_option fst best"
| "oldest_stopped (s # ss) i best =
     oldest_stopped ss (Suc i)
       (if (ms_state s = MEDIA_STATE_STOPPED \<or> ms_state s = MEDIA_STATE_FAILED)
           \<and> (case best of None \<Rightarrow> True | Some (_, oldest_time) \<Rightarrow> stopped_at s < oldest_time)
        then Some (i, stopped_at s) else best)"

text \<open>A slot for a new session; a new or reused one is cleared.\<close>

definition allocate_session_slot :: "'w server \<Rightarrow> nat option \<times> 'w server" where
  "allocate_session_slot g =
     (let ss = g_media_sessions g in
      case first_index (\<lambda>s. ms_state s = MEDIA_STATE_EMPTY) ss of
        Some i \<Rightarrow> (Some i, g)
      | None \<Rightarrow>
          if length ss < MAX_MEDIA_SESSIONS
          then (Some (length ss), g\<lparr>g_media_sessions := ss @ [empty_session]\<rparr>)
          else (case oldest_stopped ss 0 None of
                  Some i \<Rightarrow> (Some i, set_session i (\<lambda>_. empty_session) g)
                | None \<Rightarrow> (None, g)))"

text \<open>The answers of the handlers, by the values they print.\<close>

datatype reply =
    Error string
  | Session media_session
  | Already_terminated string string
  | Already_stopped string
  | Stopped media_session int
  | No_active_session
  | Renewed string int

text \<open>The counters of the first connection of the session's serial number.\<close>

definition harvest :: "ingress_client list \<Rightarrow> media_session \<Rightarrow> media_session" where
  "harvest cs s =
     (case first_index (\<lambda>c. cl_sn c = ms_sn s) cs of
        None \<Rightarrow> s
      | Some i \<Rightarrow> s\<lparr>final_rtp_packets := rtp_packets (cs ! i), final_bytes := total_bytes (cs ! i),
                    last_rtp_at := last_rtp_time (cs ! i)\<rparr>)"

definition stop_media_session ::
  "'w services \<Rightarrow> string \<Rightarrow> string \<Rightarrow> 'w server \<Rightarrow> (int \<times> reply) \<times> 'w server" where
  "stop_media_session svc sid reason g =
     (case find_session_by_id sid g of
        None \<Rightarrow> ((200, Already_stopped sid), g)
      | Some i \<Rightarrow>
          if ms_state (g_media_sessions g ! i) = MEDIA_STATE_STOPPED then ((200, Already_stopped sid), g)
          else case ask (time_now svc) g of (now, g) \<Rightarrow>
            let g = set_session i (\<lambda>s. s\<lparr>ms_state := MEDIA_STATE_STOPPING\<rparr>) g;
                g = set_session i (harvest (g_clients g)) g;
                g = snd (delete_route (Text (ms_sn (g_media_sessions g ! i))) g);
                g = snd (janus_destroy_mountpoint svc (mountpoint_id (g_media_sessions g ! i)) g);
                g = set_session i (\<lambda>s. s\<lparr>ms_state := MEDIA_STATE_STOPPED, stopped_at := now,
                      stop_reason := lifecycle_safe_strcpy (if reason \<noteq> [] then reason else ''user_closed'') 64\<rparr>) g;
                s = g_media_sessions g ! i;
                g = tell (redis_drop_session svc (session_id s) (ms_sn s) (mountpoint_id s)) g;
                g = (if contract_version s = 2 \<or> contract_version s = 3 then tell (mv_persist svc s) g else g);
                g = g\<lparr>g_metric_sessions_stopped := g_metric_sessions_stopped g + 1\<rparr>;
                duration = stopped_at s - started_at s;
                duration = (if duration < 0 then 0 else duration) in
            ((200, Stopped s duration), g))"

text \<open>The lifetime the request binds the session to: nothing on a bad deadline; else the time to live and whether one was named.\<close>

definition media_lease_ttl :: "string \<Rightarrow> int \<Rightarrow> int \<Rightarrow> (int \<times> bool) option" where
  "media_lease_ttl body now ttl =
     (case json_find_key body ''lease_expires_at'' of
        None \<Rightarrow> Some (ttl, False)
      | Some p \<Rightarrow>
          (case strtol p of
             None \<Rightarrow> None
           | Some (expiry, rest, errno) \<Rightarrow>
               let rest = dropWhile json_space rest in
               if errno \<or> rest = [] \<or> hd rest \<noteq> CHR '','' \<and> hd rest \<noteq> CHR ''}'' \<or> expiry \<le> now \<or> 7200 < expiry - now
               then None
               else Some (int_cast (expiry - now), True)))"

definition renewal_time :: "media_session \<Rightarrow> int" where
  "renewal_time s = (if renewed_at s \<noteq> 0 then renewed_at s else started_at s)"

definition expire_media_session :: "'w services \<Rightarrow> nat option \<Rightarrow> int \<Rightarrow> 'w server \<Rightarrow> 'w server" where
  "expire_media_session svc slot now g =
     (case slot of
        None \<Rightarrow> g
      | Some i \<Rightarrow>
          let s = g_media_sessions g ! i in
          if \<not> live s then g
          else case (if contract_version s = 3 then
                       (case media_monotonic_ms svc g of
                          (None, g) \<Rightarrow> (True, g)
                        | (Some monotonic, g) \<Rightarrow> (monotonic_deadline_ms s = 0 \<or> monotonic_deadline_ms s \<le> monotonic, g))
                     else (0 < ttl_sec s \<and> ttl_sec s \<le> now - renewal_time s, g)) of
            (expired, g) \<Rightarrow>
              if expired then snd (stop_media_session svc (session_id s) ''ttl_expired'' g) else g)"

text \<open>The members a handler reads, empty or a default when they are absent.\<close>

definition text_member :: "string \<Rightarrow> string \<Rightarrow> nat \<Rightarrow> string" where
  "text_member body key n = (case json_get_string body key n of None \<Rightarrow> [] | Some s \<Rightarrow> s)"

definition int_member :: "string \<Rightarrow> string \<Rightarrow> int \<Rightarrow> int" where
  "int_member body key dflt = (case json_get_int body key of None \<Rightarrow> dflt | Some v \<Rightarrow> v)"

definition clamp_ttl :: "int \<Rightarrow> int" where
  "clamp_ttl ttl =
     (let ttl = (if ttl \<le> 0 then 600 else ttl); ttl = (if ttl < 10 then 10 else ttl) in
      if 7200 < ttl then 7200 else ttl)"

text \<open>The record Redis keeps of a session, and of its route.\<close>

definition save_session :: "'w services \<Rightarrow> media_session \<Rightarrow> int \<Rightarrow> 'w server \<Rightarrow> 'w server" where
  "save_session svc s renewed g =
     tell (redis_save_route svc (ms_sn s) (ms_rtp_port s) (ms_rtcp_port s) (mountpoint_id s) (ttl_sec s))
       (tell (redis_save_session svc s renewed) g)"

text \<open>Step 1 of a start, a session of that name in slot \<open>i\<close>: an answer, or going on.\<close>

definition start_existing ::
  "'w services \<Rightarrow> nat \<Rightarrow> string \<Rightarrow> string \<Rightarrow> int \<Rightarrow> bool \<Rightarrow> int \<Rightarrow> 'w server \<Rightarrow>
     (int \<times> reply) option \<times> 'w server" where
  "start_existing svc i op sn ttl lease_bound request_at g =
     (let s = g_media_sessions g ! i in
      if contract_version s = 2 \<or> contract_version s = 3 then (Some (409, Error ''session_busy''), g)
      else if live s then
        if ms_sn s \<noteq> sn \<or> op \<noteq> [] \<and> operation_id s \<noteq> op then (Some (409, Error ''session_busy''), g)
        else case janus_mountpoint_ensure svc (mountpoint_id s) (ms_rtp_port s) (ms_rtcp_port s) (pin s) g of
          (ensure_result, g) \<Rightarrow>
            if ensure_result \<noteq> 0
            then (Some (if ensure_result = - 2 then 409 else 502, Error ''janus_error''), g)
            else
              let g = (if lease_bound then set_session i (\<lambda>s. s\<lparr>ttl_sec := ttl, renewed_at := request_at\<rparr>) g else g);
                  s = g_media_sessions g ! i;
                  g = snd (upsert_route (ms_sn s) (ms_rtp_port s) (ms_rtcp_port s) g);
                  g = save_session svc s (renewal_time s) g in
              (Some (200, Session s), g)
      else if ms_state s = MEDIA_STATE_STOPPED then
        if op \<noteq> [] \<and> operation_id s = op
        then (Some (200, Already_terminated (session_id s) (operation_id s)), g)
        else (Some (409, Error ''session_terminated''), g)
      else (None, g))"

text \<open>Steps 4 to 7, with the ports settled.\<close>

definition start_new ::
  "'w services \<Rightarrow> string \<Rightarrow> string \<Rightarrow> string \<Rightarrow> u32 \<Rightarrow> string \<Rightarrow> int \<Rightarrow> int \<Rightarrow> int \<Rightarrow> bool \<Rightarrow> int \<Rightarrow>
     'w server \<Rightarrow> (int \<times> reply) \<times> 'w server" where
  "start_new svc sid op sn dev mpin rtp rtcp ttl lease_bound request_at g =
     (let mid = (if 0 < dev then dev else word_of_int rtp) in
      case allocate_session_slot g of
        (None, g) \<Rightarrow> ((503, Error ''max_sessions_exceeded''), g)
      | (Some i, g) \<Rightarrow>
          let g = set_session i (\<lambda>s. s\<lparr>session_id := lifecycle_safe_strcpy sid 64,
                    operation_id := lifecycle_safe_strcpy op 64, ms_sn := lifecycle_safe_strcpy sn 128,
                    device_id := dev, mountpoint_id := mid, ms_rtp_port := rtp, ms_rtcp_port := rtcp,
                    pin := lifecycle_safe_strcpy mpin 513, ttl_sec := ttl, ms_state := MEDIA_STATE_STARTING\<rparr>) g in
          case ask (time_now svc) g of (now, g) \<Rightarrow>
          let g = set_session i (\<lambda>s. s\<lparr>created_at := now\<rparr>) g in
          case janus_mountpoint_ensure svc mid rtp rtcp mpin g of (ensure_result, g) \<Rightarrow>
          if ensure_result \<noteq> 0 then
            let g = set_session i (\<lambda>s. s\<lparr>ms_state := MEDIA_STATE_FAILED, stop_reason := ''janus_create_failed''\<rparr>) g in
            ((502, Error ''janus_error''), g\<lparr>g_metric_sessions_failed := g_metric_sessions_failed g + 1\<rparr>)
          else case upsert_route sn rtp rtcp g of
            (None, g) \<Rightarrow>
              let g = snd (janus_destroy_mountpoint svc mid g);
                  g = set_session i (\<lambda>s. s\<lparr>ms_state := MEDIA_STATE_FAILED, stop_reason := ''route_upsert_failed''\<rparr>) g in
              ((500, Error ''route_creation_failed''), g\<lparr>g_metric_sessions_failed := g_metric_sessions_failed g + 1\<rparr>)
          | (Some _, g) \<Rightarrow>
              case ask (time_now svc) g of (now, g) \<Rightarrow>
              let g = set_session i (\<lambda>s. s\<lparr>ms_state := MEDIA_STATE_ACTIVE, started_at := now,
                        renewed_at := (if lease_bound then request_at else now)\<rparr>) g;
                  g = g\<lparr>g_metric_sessions_started := g_metric_sessions_started g + 1\<rparr> in
              case ask (time_now svc) g of (now, g) \<Rightarrow>
              let g = expire_media_session svc (Some i) now g; s = g_media_sessions g ! i in
              if ms_state s = MEDIA_STATE_STOPPED then ((409, Error ''lease_expired''), g)
              else ((201, Session s), save_session svc s (renewed_at s) g))"

text \<open>Steps 2 and 3: no other live session for the serial number, and a pair of ports.\<close>

definition start_admit ::
  "'w services \<Rightarrow> string \<Rightarrow> string \<Rightarrow> string \<Rightarrow> u32 \<Rightarrow> string \<Rightarrow> int \<Rightarrow> int \<Rightarrow> int \<Rightarrow> bool \<Rightarrow> int \<Rightarrow>
     'w server \<Rightarrow> (int \<times> reply) \<times> 'w server" where
  "start_admit svc sid op sn dev mpin rtp rtcp ttl lease_bound request_at g =
     (let g = expire_media_session svc (find_active_session_for_sn sn g) request_at g in
      if (case find_active_session_for_sn sn g of None \<Rightarrow> False
          | Some i \<Rightarrow> session_id (g_media_sessions g ! i) \<noteq> sid)
      then ((409, Error ''session_busy''), g)
      else case (if rtp \<le> 0 \<or> rtcp \<le> 0 then allocate_port_pair g else Some (rtp, rtcp)) of
        None \<Rightarrow> ((503, Error ''port_exhaustion''), g)
      | Some (rtp, rtcp) \<Rightarrow> start_new svc sid op sn dev mpin rtp rtcp ttl lease_bound request_at g)"

definition handle_media_session_start ::
  "'w services \<Rightarrow> string \<Rightarrow> 'w server \<Rightarrow> (int \<times> reply) \<times> 'w server" where
  "handle_media_session_start svc body g =
     (if body = [] then ((400, Error ''invalid_request''), g)
      else
        let sid = text_member body ''session_id'' 64;
            op = text_member body ''operation_id'' 64;
            sn = text_member body ''sn'' 128;
            dev = (case json_get_uint32 body ''device_id'' of None \<Rightarrow> 0 | Some v \<Rightarrow> v);
            mpin = text_member body ''pin'' 64;
            rtp = int_member body ''rtp_port'' 0;
            rtcp = int_member body ''rtcp_port'' 0;
            ttl = int_member body ''ttl_sec'' 600 in
        if sid = [] \<or> sn = [] then ((400, Error ''invalid_request''), g)
        else case ask (time_now svc) g of (request_at, g) \<Rightarrow>
          (case media_lease_ttl body request_at (clamp_ttl ttl) of
             None \<Rightarrow> ((409, Error ''invalid_lease_deadline''), g)
           | Some (ttl, lease_bound) \<Rightarrow>
               (case find_session_by_id sid g of
                  None \<Rightarrow> start_admit svc sid op sn dev mpin rtp rtcp ttl lease_bound request_at g
                | Some i \<Rightarrow>
                    (case start_existing svc i op sn ttl lease_bound request_at
                            (expire_media_session svc (Some i) request_at g) of
                       (Some answer, g) \<Rightarrow> (answer, g)
                     | (None, g) \<Rightarrow> start_admit svc sid op sn dev mpin rtp rtcp ttl lease_bound request_at g))))"

definition renew_media_session ::
  "'w services \<Rightarrow> string \<Rightarrow> string \<Rightarrow> 'w server \<Rightarrow> (int \<times> reply) \<times> 'w server" where
  "renew_media_session svc sid body g =
     (let sn = text_member body ''sn'' 128 in
      case ask (time_now svc) g of (now, g) \<Rightarrow>
      (case find_session_by_id sid g of
         None \<Rightarrow> ((404, Error ''active_session_not_found''), g)
       | Some i \<Rightarrow>
           let s = g_media_sessions g ! i in
           if ms_state s \<noteq> MEDIA_STATE_ACTIVE \<or> sn = [] \<or> ms_sn s \<noteq> sn \<or> ttl_sec s \<le> now - renewal_time s
           then ((404, Error ''active_session_not_found''), g)
           else case media_lease_ttl body now (ttl_sec s) of
             None \<Rightarrow> ((409, Error ''invalid_lease_deadline''), g)
           | Some (ttl, lease_bound) \<Rightarrow>
               if lease_bound \<and> session_id s \<noteq> text_member body ''lease_id'' 64
                  \<and> session_id s \<noteq> text_member body ''stream_instance_id'' 64
               then ((409, Error ''session_mismatch''), g)
               else
                 let g = set_session i (\<lambda>s. s\<lparr>ttl_sec := ttl, renewed_at := now\<rparr>) g;
                     s = g_media_sessions g ! i;
                     g = save_session svc s (renewed_at s) g in
                 ((200, Renewed (session_id s) (ttl_sec s)), g)))"

definition stop_media_session_for_sn ::
  "'w services \<Rightarrow> string \<Rightarrow> 'w server \<Rightarrow> (int \<times> reply) \<times> 'w server" where
  "stop_media_session_for_sn svc body g =
     (let sn = text_member body ''sn'' 128; lease = text_member body ''lease_id'' 64;
          stream = text_member body ''stream_instance_id'' 64; reason = text_member body ''reason'' 64 in
      if sn = [] \<or> lease = [] then ((400, Error ''missing_sn_or_lease_id''), g)
      else case find_active_session_for_sn sn g of
        None \<Rightarrow> ((200, No_active_session), g)
      | Some i \<Rightarrow>
          let s = g_media_sessions g ! i in
          if session_id s \<noteq> lease \<and> (stream = [] \<or> session_id s \<noteq> stream)
          then ((409, Error ''session_mismatch''), g)
          else stop_media_session svc (session_id s) reason g)"

definition renew_media_session_for_sn ::
  "'w services \<Rightarrow> string \<Rightarrow> 'w server \<Rightarrow> (int \<times> reply) \<times> 'w server" where
  "renew_media_session_for_sn svc body g =
     (let sn = text_member body ''sn'' 128 in
      case (if sn \<noteq> [] then find_active_session_for_sn sn g else None) of
        None \<Rightarrow> ((404, Error ''active_session_not_found''), g)
      | Some i \<Rightarrow> renew_media_session svc (session_id (g_media_sessions g ! i)) body g)"

text \<open>What the health report says of the session and of its connection.\<close>

datatype media_health = Disconnected | Waiting_media | Live_media | Stale_media

record health_report =
  h_session :: media_session
  h_transport_connected :: bool
  h_fresh_rtp :: bool
  h_media_state :: media_health
  h_rtp_packets :: u64
  h_bytes :: u64
  h_last_rtp :: int
  h_idle_sec :: int
  h_elapsed_sec :: int
  h_ttl_remaining_sec :: int

definition client_health :: "int \<Rightarrow> ingress_client \<Rightarrow> health_report \<Rightarrow> health_report" where
  "client_health now c h =
     (let rtp_idle = (if 0 < last_rtp_time c then now - last_rtp_time c else - 1);
          trans_idle = now - last_activity c;
          idl = (if 0 < last_rtp_time c then rtp_idle else trans_idle);
          idl = (if idl < 0 then 0 else idl);
          h = h\<lparr>h_transport_connected := True, h_rtp_packets := rtp_packets c, h_bytes := total_bytes c,
                h_last_rtp := last_rtp_time c, h_idle_sec := idl\<rparr> in
      if 0 < rtp_packets c \<and> 0 \<le> rtp_idle \<and> rtp_idle \<le> RTP_STALE_DEADLINE_SEC
      then h\<lparr>h_fresh_rtp := True, h_media_state := Live_media\<rparr>
      else if 0 < rtp_packets c then h\<lparr>h_fresh_rtp := False, h_media_state := Stale_media\<rparr>
      else h\<lparr>h_fresh_rtp := False, h_media_state := Waiting_media\<rparr>)"

definition get_media_session_health ::
  "'w services \<Rightarrow> string \<Rightarrow> 'w server \<Rightarrow> (int \<times> health_report option) \<times> 'w server" where
  "get_media_session_health svc sid g =
     (case find_session_by_id sid g of
        None \<Rightarrow> ((404, None), g)
      | Some i \<Rightarrow>
          case ask (time_now svc) g of (now, g) \<Rightarrow>
          let g = expire_media_session svc (Some i) now g;
              s = g_media_sessions g ! i;
              elapsed = (if 0 < stopped_at s then stopped_at s else now) - started_at s;
              elapsed = (if elapsed < 0 then 0 else elapsed);
              ttl_rem = ttl_sec s - (now - renewal_time s);
              ttl_rem = (if ttl_rem < 0 then 0 else ttl_rem);
              h = \<lparr>h_session = s, h_transport_connected = False, h_fresh_rtp = False,
                   h_media_state = (if ms_state s = MEDIA_STATE_ACTIVE then Waiting_media else Disconnected),
                   h_rtp_packets = final_rtp_packets s, h_bytes = final_bytes s, h_last_rtp = last_rtp_at s,
                   h_idle_sec = - 1, h_elapsed_sec = elapsed, h_ttl_remaining_sec = ttl_rem\<rparr>;
              h = (case first_index (\<lambda>c. cl_sn c = ms_sn s) (g_clients g) of
                     None \<Rightarrow> h
                   | Some k \<Rightarrow> client_health now (g_clients g ! k) h) in
          ((200, Some h), g))"

text \<open>
  Reconciliation of one listed mountpoint: kept when it is the demo mountpoint, has a live session,
  or its serial number still sends or is owned by another instance.
\<close>

definition reconcile_mountpoint :: "'w services \<Rightarrow> int \<Rightarrow> u32 \<Rightarrow> nat \<times> 'w server \<Rightarrow> nat \<times> 'w server" where
  "reconcile_mountpoint svc now mid = (\<lambda>(cleaned, g).
     if mid = 1 \<or> list_ex (\<lambda>s. live s \<and> mountpoint_id s = mid) (g_media_sessions g) then (cleaned, g)
     else
       case find_sn_for_mountpoint mid g of
         None \<Rightarrow> (case janus_destroy_mountpoint svc mid g of (_, g) \<Rightarrow>
           (cleaned + 1, g\<lparr>g_metric_orphans_mountpoints := g_metric_orphans_mountpoints g + 1\<rparr>))
       | Some sn \<Rightarrow>
           if rtp_is_fresh_for_sn sn now g then (cleaned, g)
           else (case ask (redis_owns_sn svc sn) g of (owned, g) \<Rightarrow>
             if owned then (cleaned, g)
             else case janus_destroy_mountpoint svc mid g of (_, g) \<Rightarrow>
               (cleaned + 1, g\<lparr>g_metric_orphans_mountpoints := g_metric_orphans_mountpoints g + 1\<rparr>)))"

definition has_active_session :: "'w server \<Rightarrow> string \<Rightarrow> bool" where
  "has_active_session g sn \<longleftrightarrow> list_ex (\<lambda>s. live s \<and> ms_sn s = sn) (g_media_sessions g)"

lemma delete_entry_shrinks:
  assumes "i < length (g_routes g)"
  shows "length (g_routes (snd (delete_route (EntrySn i) g))) = length (g_routes g) - 1"
proof (cases "first_index (\<lambda>r. re_sn r = re_sn (g_routes g ! i)) (g_routes g)")
  case None
  then show ?thesis using assms by (auto simp: first_index_None)
next
  case (Some k)
  then show ?thesis using first_index_Some [OF Some]
    by (auto simp: delete_route_def Let_def update_client_targets_for_sn_def)
qed

text \<open>The loop over the routes; after a removal the same index is looked at again.\<close>

function reconcile_routes :: "'w services \<Rightarrow> int \<Rightarrow> nat \<Rightarrow> nat \<times> 'w server \<Rightarrow> nat \<times> 'w server" where
  "reconcile_routes svc now i (cleaned, g) =
     (if length (g_routes g) \<le> i then (cleaned, g)
      else
        let r = g_routes g ! i in
        if is_static r \<or> has_active_session g (re_sn r) \<or> rtp_is_fresh_for_sn (re_sn r) now g
        then reconcile_routes svc now (Suc i) (cleaned, g)
        else case ask (redis_owns_sn svc (re_sn r)) g of (owned, g') \<Rightarrow>
          if owned then reconcile_routes svc now (Suc i) (cleaned, g')
          else
            let g'' = snd (delete_route (EntrySn i) g');
                g'' = g''\<lparr>g_metric_orphans_routes := g_metric_orphans_routes g'' + 1\<rparr> in
            reconcile_routes svc now i (cleaned + 1, g''))"
  by pat_completeness auto
termination
  by (relation "measure (\<lambda>(svc, now, i, cleaned, g). length (g_routes g) - i)")
    (auto dest!: ask_result(1) [OF sym] simp: delete_entry_shrinks)

declare reconcile_routes.simps [simp del]

record reconcile_report =
  reconciled_at :: int
  active_sessions :: nat
  orphans_cleaned_mountpoints :: nat
  orphans_cleaned_routes :: nat

definition reconcile_resources :: "'w services \<Rightarrow> 'w server \<Rightarrow> reconcile_report \<times> 'w server" where
  "reconcile_resources svc g =
     (case ask (time_now svc) g of (now, g) \<Rightarrow>
      case janus_list_mountpoints svc (MAX_MEDIA_SESSIONS * 2) g of (listed, g) \<Rightarrow>
      case (case listed of None \<Rightarrow> (0, g)
            | Some ids \<Rightarrow> foldl (\<lambda>st mid. reconcile_mountpoint svc now mid st) (0, g) ids) of (mountpoints, g) \<Rightarrow>
      case reconcile_routes svc now 0 (0, g) of (routes, g) \<Rightarrow>
      (\<lparr>reconciled_at = now, active_sessions = media_active_session_count g,
        orphans_cleaned_mountpoints = mountpoints, orphans_cleaned_routes = routes\<rparr>, g))"

record media_metrics =
  uptime_sec :: int
  active_media_sessions :: nat
  total_sessions :: "u64 \<times> u64 \<times> u64"
  orphans_cleaned :: "u64 \<times> u64"
  total_rtp_packets :: u64
  total_media_bytes :: u64

definition handle_media_metrics :: "'w services \<Rightarrow> 'w server \<Rightarrow> media_metrics \<times> 'w server" where
  "handle_media_metrics svc g =
     (case ask (time_now svc) g of (now, g) \<Rightarrow>
      (\<lparr>uptime_sec = now - g_server_start_time g, active_media_sessions = media_active_session_count g,
        total_sessions = (g_metric_sessions_started g, g_metric_sessions_stopped g, g_metric_sessions_failed g),
        orphans_cleaned = (g_metric_orphans_mountpoints g, g_metric_orphans_routes g),
        total_rtp_packets = foldl (\<lambda>t c. t + rtp_packets c)
          (foldl (\<lambda>t s. t + final_rtp_packets s) 0 (g_media_sessions g)) (g_clients g),
        total_media_bytes = foldl (\<lambda>t c. t + total_bytes c)
          (foldl (\<lambda>t s. t + final_bytes s) 0 (g_media_sessions g)) (g_clients g)\<rparr>, g))"

text \<open>A session record found in Redis at start-up; \<open>state\<close> is the number stored with it.\<close>

definition media_redis_restore_one ::
  "'w services \<Rightarrow> string \<Rightarrow> string \<Rightarrow> string \<Rightarrow> u32 \<Rightarrow> u32 \<Rightarrow> int \<Rightarrow> int \<Rightarrow> string \<Rightarrow> int \<Rightarrow> int \<Rightarrow> int \<Rightarrow> int \<Rightarrow> int \<Rightarrow>
     'w server \<Rightarrow> 'w server" where
  "media_redis_restore_one svc sid op sn dev mid rtp rtcp mpin state ttl created started renewed g =
     (if sid = [] \<or> sn = [] then g
      else case (case find_session_by_id sid g of
                   Some i \<Rightarrow> (Some i, g)
                 | None \<Rightarrow>
                     (case allocate_session_slot g of
                        (None, g) \<Rightarrow> (None, g)
                      | (Some i, g) \<Rightarrow> (Some i, set_session i (\<lambda>_. empty_session) g))) of
        (None, g) \<Rightarrow> g
      | (Some i, g) \<Rightarrow>
          let g = set_session i (\<lambda>s. s\<lparr>session_id := lifecycle_safe_strcpy sid 64,
                    operation_id := lifecycle_safe_strcpy op 64, ms_sn := lifecycle_safe_strcpy sn 128,
                    device_id := dev, mountpoint_id := mid, ms_rtp_port := rtp, ms_rtcp_port := rtcp,
                    pin := lifecycle_safe_strcpy mpin 513, ttl_sec := ttl, created_at := created,
                    started_at := started, renewed_at := (if renewed \<noteq> 0 then renewed else started)\<rparr>) g;
              s = g_media_sessions g ! i in
          case (if (state = 2 \<or> state = 1) \<and> 0 < ttl_sec s
                then (case ask (time_now svc) g of (now, g) \<Rightarrow> (now - renewed_at s < ttl_sec s, g))
                else (False, g)) of
            (True, g) \<Rightarrow>
              (case (if started_at s = 0 then (case ask (time_now svc) g of (now, g) \<Rightarrow>
                       set_session i (\<lambda>s. s\<lparr>started_at := now\<rparr>) g) else g) of g \<Rightarrow>
               let g = set_session i (\<lambda>s. s\<lparr>ms_state := MEDIA_STATE_ACTIVE\<rparr>) g in
               snd (upsert_route (ms_sn s) (ms_rtp_port s) (ms_rtcp_port s) g))
          | (False, g) \<Rightarrow>
              tell (redis_drop_session svc (session_id s) (ms_sn s) (mountpoint_id s))
                (set_session i (\<lambda>s. s\<lparr>ms_state := MEDIA_STATE_STOPPED\<rparr>) g))"

end
