(* ===== verification/Media_Exclusion.thy ===== *)
theory Media_Exclusion
  imports Media_Sessions
begin

text \<open>
  What the session handlers guarantee: the port pool hands out the first free pair, session names
  stay unique and a device never has two live sessions, a stop ends the session it names, and a
  started session lives exactly as long as its lease says.
\<close>

section \<open>The port pool\<close>

definition ports_in_use :: "'w server \<Rightarrow> int set" where
  "ports_in_use g =
     (\<Union>r \<in> set (g_routes g). {re_rtp_port r, re_rtcp_port r})
     \<union> (\<Union>s \<in> {s \<in> set (g_media_sessions g). live s}. {ms_rtp_port s, ms_rtcp_port s})"

definition pool :: "int list" where
  "pool = map (\<lambda>k. DEFAULT_PORT_BASE + 2 * int k) [0..<96]"

lemma pair_free:
  "{p, p + 1} \<inter> ports_in_use g = {} \<longleftrightarrow>
     \<not> list_ex (\<lambda>r. pair_used p (re_rtp_port r) (re_rtcp_port r)) (g_routes g)
     \<and> \<not> list_ex (\<lambda>s. live s \<and> pair_used p (ms_rtp_port s) (ms_rtcp_port s)) (g_media_sessions g)"
  by (fastforce simp: ports_in_use_def pair_used_def list_ex_iff)

lemma port_search_step:
  "p \<le> DEFAULT_PORT_MAX \<Longrightarrow>
     port_search p g = (if {p, p + 1} \<inter> ports_in_use g = {} then Some (p, p + 1) else port_search (p + 2) g)"
  unfolding pair_free by (subst port_search.simps) auto

lemma port_search_pool:
  assumes "k \<le> 96"
  shows "port_search (DEFAULT_PORT_BASE + 2 * int k) g
    = map_option (\<lambda>p. (p, p + 1))
        (find (\<lambda>p. {p, p + 1} \<inter> ports_in_use g = {}) (map (\<lambda>k. DEFAULT_PORT_BASE + 2 * int k) [k..<96]))"
  using assms
proof (induction rule: inc_induct)
  case base
  then show ?case by (subst port_search.simps) simp
next
  case (step k)
  then show ?case
    using port_search_step [of "DEFAULT_PORT_BASE + 2 * int k" g]
    by (auto simp: upt_conv_Cons algebra_simps)
qed

text \<open>
  port allocation is exact. It gives the first pair of the 96 even-numbered pairs from 6010 on
  of which neither port is used by a route or a live session, and fails only when there is none.
\<close>

theorem port_pair_first_free:
  "allocate_port_pair g
     = map_option (\<lambda>p. (p, p + 1)) (find (\<lambda>p. {p, p + 1} \<inter> ports_in_use g = {}) pool)"
  using port_search_pool [of 0 g] by (simp add: allocate_port_pair_def pool_def)

section \<open>Operations that only end sessions\<close>

text \<open>Names and serial numbers stay, and no session comes to life.\<close>

definition sessions_le :: "media_session list \<Rightarrow> media_session list \<Rightarrow> bool" where
  "sessions_le ss ss' \<longleftrightarrow> list_all2 (\<lambda>s s'. session_id s' = session_id s \<and> ms_sn s' = ms_sn s
     \<and> (live s' \<longrightarrow> live s) \<and> ms_state s' \<in> {ms_state s, MEDIA_STATE_STOPPED}) ss ss'"

abbreviation ends_only :: "'w server \<Rightarrow> 'w server \<Rightarrow> bool" where
  "ends_only g g' \<equiv> sessions_le (g_media_sessions g) (g_media_sessions g')"

lemma sessions_le_refl [simp, intro]: "sessions_le ss ss"
  by (simp add: sessions_le_def list_all2_refl)

lemma sessions_le_trans [trans]: "sessions_le ss ts \<Longrightarrow> sessions_le ts us \<Longrightarrow> sessions_le ss us"
  unfolding sessions_le_def by (rule list_all2_trans [where ?P1.0 = "\<lambda>s s'. _ s s'"]) auto

lemma sessions_le_nth:
  assumes "sessions_le ss ts" "i < length ss"
  shows "session_id (ts ! i) = session_id (ss ! i)" "ms_sn (ts ! i) = ms_sn (ss ! i)"
    "live (ts ! i) \<Longrightarrow> live (ss ! i)" "ms_state (ts ! i) \<in> {ms_state (ss ! i), MEDIA_STATE_STOPPED}"
  using assms by (auto simp: sessions_le_def list_all2_conv_all_nth)

lemma sessions_le_length: "sessions_le ss ts \<Longrightarrow> length ts = length ss"
  by (simp add: sessions_le_def list_all2_lengthD)

lemma sessions_le_update:
  assumes "session_id s' = session_id (ss ! i)" "ms_sn s' = ms_sn (ss ! i)"
    "live s' \<Longrightarrow> live (ss ! i)" "ms_state s' \<in> {ms_state (ss ! i), MEDIA_STATE_STOPPED}"
  shows "sessions_le ss (ss[i := s'])"
proof (cases "i < length ss")
  case True
  then show ?thesis using assms by (auto simp: sessions_le_def list_all2_conv_all_nth nth_list_update)
qed (simp add: list_update_beyond)

lemma same_tables_ends: "same_tables g g' \<Longrightarrow> g_media_sessions g' = g_media_sessions g"
  by (rule same_tables_fields)

lemma delete_route_sessions [simp]: "g_media_sessions (snd (delete_route sn g)) = g_media_sessions g"
  by (simp add: delete_route_def Let_def update_client_targets_for_sn_def split: option.splits)

lemma upsert_route_sessions: "upsert_route sn rtp rtcp g = (r, g') \<Longrightarrow> g_media_sessions g' = g_media_sessions g"
  by (auto simp: upsert_route_def Let_def update_client_targets_for_sn_def split: option.splits if_splits)

lemma janus_destroy_sessions [simp]:
  "g_media_sessions (snd (janus_destroy_mountpoint svc mid g)) = g_media_sessions g"
  "g_routes (snd (janus_destroy_mountpoint svc mid g)) = g_routes g"
  "g_clients (snd (janus_destroy_mountpoint svc mid g)) = g_clients g"
  using same_tables_fields [OF janus_destroy_same] by (metis prod.collapse)+

lemma monotonic_sessions:
  "media_monotonic_ms svc g = (r, g') \<Longrightarrow> g_media_sessions g' = g_media_sessions g
     \<and> g_routes g' = g_routes g \<and> g_clients g' = g_clients g"
  by (auto simp: media_monotonic_ms_def Let_def ask_result split: prod.splits option.splits if_splits)

lemma harvest_keeps [simp]:
  "session_id (harvest cs s) = session_id s" "ms_sn (harvest cs s) = ms_sn s" "ms_state (harvest cs s) = ms_state s"
  "mountpoint_id (harvest cs s) = mountpoint_id s"
  "ms_rtp_port (harvest cs s) = ms_rtp_port s" "started_at (harvest cs s) = started_at s"
  by (simp_all add: harvest_def split: option.splits)

text \<open>A stop replaces the session it finds by one that is stopped and otherwise has its identity.\<close>

lemma stop_effect:
  assumes "find_session_by_id sid g = Some i" "ms_state (g_media_sessions g ! i) \<noteq> MEDIA_STATE_STOPPED"
    and "stop_media_session svc sid reason g = (r, g')"
  shows "\<exists>s'. g_media_sessions g' = (g_media_sessions g)[i := s'] \<and> session_id s' = session_id (g_media_sessions g ! i)
     \<and> ms_sn s' = ms_sn (g_media_sessions g ! i) \<and> ms_state s' = MEDIA_STATE_STOPPED
     \<and> (\<exists>d. r = (200, Stopped s' d))"
proof -
  have i: "i < length (g_media_sessions g)"
    using assms(1) by (auto simp: find_session_by_id_def dest!: first_index_Some split: if_splits)
  then show ?thesis
    using assms by (auto simp: stop_media_session_def Let_def ask_result split: prod.splits if_splits)
qed

lemma stop_ends: "ends_only g (snd (stop_media_session svc sid reason g))"
proof -
  obtain r g' where st: "stop_media_session svc sid reason g = (r, g')"
    by (cases "stop_media_session svc sid reason g")
  show ?thesis
  proof (cases "find_session_by_id sid g")
    case None
    then show ?thesis by (simp add: stop_media_session_def)
  next
    case (Some i)
    show ?thesis
    proof (cases "ms_state (g_media_sessions g ! i) = MEDIA_STATE_STOPPED")
      case True
      then show ?thesis using Some by (simp add: stop_media_session_def)
    next
      case False
      from stop_effect [OF Some False st] st show ?thesis
        by (auto intro!: sessions_le_update simp: live_def)
    qed
  qed
qed

lemma expire_ends: "ends_only g (expire_media_session svc slot now g)"
proof -
  have "ends_only g (expire_media_session svc (Some i) now g)" for i
  proof -
    let ?s = "g_media_sessions g ! i"
    obtain b g1 where e: "(if contract_version ?s = 3 then
          (case media_monotonic_ms svc g of (None, g) \<Rightarrow> (True, g)
           | (Some t, g) \<Rightarrow> (monotonic_deadline_ms ?s = 0 \<or> monotonic_deadline_ms ?s \<le> t, g))
        else (0 < ttl_sec ?s \<and> ttl_sec ?s \<le> now - renewal_time ?s, g)) = (b, g1)"
      by fastforce
    then have "g_media_sessions g1 = g_media_sessions g"
      by (auto split: if_splits prod.splits option.splits dest!: monotonic_sessions)
    then show ?thesis using e stop_ends [of g1 svc "session_id ?s" "''ttl_expired''"]
      by (simp add: expire_media_session_def Let_def)
  qed
  then show ?thesis by (cases slot) (simp_all add: expire_media_session_def)
qed

lemma save_session_keeps [simp]:
  "g_media_sessions (save_session svc s t g) = g_media_sessions g"
  "g_routes (save_session svc s t g) = g_routes g" "g_clients (save_session svc s t g) = g_clients g"
  by (simp_all add: save_session_def)

lemma renew_ends: "ends_only g (snd (renew_media_session svc sid body g))"
  by (auto simp: renew_media_session_def Let_def ask_result live_def intro!: sessions_le_update
      split: prod.splits option.splits if_splits)

lemma stop_for_sn_ends: "ends_only g (snd (stop_media_session_for_sn svc body g))"
  by (auto simp: stop_media_session_for_sn_def Let_def stop_ends split: option.splits)

lemma renew_for_sn_ends: "ends_only g (snd (renew_media_session_for_sn svc body g))"
  by (auto simp: renew_media_session_for_sn_def Let_def renew_ends split: option.splits)

lemma health_ends: "ends_only g (snd (get_media_session_health svc sid g))"
proof (cases "find_session_by_id sid g")
  case (Some i)
  obtain now g1 where 1: "ask (time_now svc) g = (now, g1)" by fastforce
  then show ?thesis using expire_ends [of g1 svc "Some i" now] ask_result(3) [OF 1]
    by (simp add: get_media_session_health_def Let_def Some)
qed (simp add: get_media_session_health_def)

lemma reconcile_mountpoint_sessions:
  "g_media_sessions (snd (reconcile_mountpoint svc now mid st)) = g_media_sessions (snd st)"
proof (cases st)
  case (Pair c g)
  have d: "g_media_sessions g2 = g_media_sessions g1" if "janus_destroy_mountpoint svc mid g1 = (r, g2)" for r g1 g2
    by (rule same_tables_ends [OF janus_destroy_same [OF that]])
  show ?thesis
    using Pair by (auto simp: reconcile_mountpoint_def ask_result(3) d split: prod.splits option.splits)
qed

lemma reconcile_mountpoints_sessions:
  "g_media_sessions (snd (foldl (\<lambda>st mid. reconcile_mountpoint svc now mid st) st ids)) = g_media_sessions (snd st)"
  by (induction ids arbitrary: st) (simp_all add: reconcile_mountpoint_sessions)

lemma reconcile_routes_sessions:
  "g_media_sessions (snd (reconcile_routes svc now i st)) = g_media_sessions (snd st)"
proof (induction svc now i st rule: reconcile_routes.induct)
  case (1 svc now i cleaned g)
  then show ?case
    by (subst reconcile_routes.simps)
      (auto simp: Let_def ask_result(3) split: prod.splits if_splits)
qed

lemma reconcile_ends: "g_media_sessions (snd (reconcile_resources svc g)) = g_media_sessions g"
proof -
  obtain now g1 where 1: "ask (time_now svc) g = (now, g1)" by fastforce
  obtain l g2 where 2: "janus_list_mountpoints svc 256 g1 = (l, g2)" by fastforce
  have "g_media_sessions g2 = g_media_sessions g"
    using ask_result(3) [OF 1] same_tables_ends [OF janus_list_same [OF 2]] by simp
  moreover obtain m g3 where 3: "(case l of None \<Rightarrow> (0, g2)
      | Some ids \<Rightarrow> foldl (\<lambda>st mid. reconcile_mountpoint svc now mid st) (0, g2) ids) = (m, g3)" by fastforce
  moreover have "g_media_sessions g3 = g_media_sessions g2"
    using 3 reconcile_mountpoints_sessions [of svc now "(0, g2)"] by (cases l) (auto, metis snd_conv)
  moreover obtain n g4 where 4: "reconcile_routes svc now 0 (0, g3) = (n, g4)" by fastforce
  moreover have "g_media_sessions g4 = g_media_sessions g3"
    using reconcile_routes_sessions [of svc now 0 "(0, g3)"] 4 by simp
  ultimately show ?thesis by (simp add: reconcile_resources_def 1 2)
qed

section \<open>The session table\<close>

definition sessions_ok :: "media_session list \<Rightarrow> bool" where
  "sessions_ok ss \<longleftrightarrow> distinct (map session_id ss) \<and> length ss \<le> MAX_MEDIA_SESSIONS
     \<and> (\<forall>s \<in> set ss. session_id s \<noteq> [] \<and> ms_state s \<noteq> MEDIA_STATE_EMPTY \<and> ms_state s \<noteq> MEDIA_STATE_STOPPING)
     \<and> (\<forall>i < length ss. \<forall>j < length ss. live (ss ! i) \<and> live (ss ! j) \<and> ms_sn (ss ! i) = ms_sn (ss ! j) \<longrightarrow> i = j)"

lemma sessions_le_ids: "sessions_le ss ts \<Longrightarrow> map session_id ts = map session_id ss"
  by (auto simp: sessions_le_def list_all2_conv_all_nth intro: nth_equalityI)

lemma sessions_le_ok:
  assumes "sessions_le ss ts" "sessions_ok ss"
  shows "sessions_ok ts"
proof -
  note len = sessions_le_length [OF assms(1)] and nth = sessions_le_nth [OF assms(1)]
  have "session_id (ts ! i) \<noteq> [] \<and> ms_state (ts ! i) \<noteq> MEDIA_STATE_EMPTY \<and> ms_state (ts ! i) \<noteq> MEDIA_STATE_STOPPING"
    if "i < length ts" for i
  proof -
    have "i < length ss" "ss ! i \<in> set ss" using that len by simp_all
    then show ?thesis using nth(1,4) [of i] assms(2) unfolding sessions_ok_def by fastforce
  qed
  moreover have "i = j" if "i < length ts" "j < length ts" "live (ts ! i)" "live (ts ! j)" "ms_sn (ts ! i) = ms_sn (ts ! j)" for i j
    using that nth(2,3) [of i] nth(2,3) [of j] len assms(2) unfolding sessions_ok_def by simp
  ultimately show ?thesis
    using assms(2) sessions_le_ids [OF assms(1)] len
    unfolding sessions_ok_def by (auto simp: in_set_conv_nth)
qed

text \<open>A slot for a new session is one more entry or that of a session that has ended.\<close>

definition slot_for :: "media_session list \<Rightarrow> nat \<Rightarrow> media_session list \<Rightarrow> bool" where
  "slot_for ss i ss' \<longleftrightarrow>
     i = length ss \<and> ss' = ss @ [empty_session] \<and> length ss < MAX_MEDIA_SESSIONS
     \<or> i < length ss \<and> ss' = ss[i := empty_session] \<and> \<not> live (ss ! i)"

lemma oldest_stopped_range:
  "oldest_stopped ss k best = Some i \<Longrightarrow>
     (\<exists>t. best = Some (i, t)) \<or> k \<le> i \<and> i < k + length ss \<and> \<not> live (ss ! (i - k))"
proof (induction ss arbitrary: k best)
  case Nil
  then show ?case by auto
next
  case (Cons s ss)
  let ?b = "if (ms_state s = MEDIA_STATE_STOPPED \<or> ms_state s = MEDIA_STATE_FAILED)
      \<and> (case best of None \<Rightarrow> True | Some (_, oldest_time) \<Rightarrow> stopped_at s < oldest_time)
    then Some (k, stopped_at s) else best"
  have "oldest_stopped ss (Suc k) ?b = Some i" using Cons.prems by simp
  from Cons.IH [OF this] show ?case
  proof
    assume "\<exists>t. ?b = Some (i, t)"
    then show ?thesis by (auto simp: live_def split: if_splits)
  next
    assume r: "Suc k \<le> i \<and> i < Suc k + length ss \<and> \<not> live (ss ! (i - Suc k))"
    then have "(s # ss) ! (i - k) = ss ! (i - Suc k)" by (simp add: nth_Cons' Suc_diff_le)
    then show ?thesis using r by simp
  qed
qed

lemma slot_allocated:
  assumes "sessions_ok (g_media_sessions g)" "allocate_session_slot g = (Some i, g')"
  shows "slot_for (g_media_sessions g) i (g_media_sessions g')"
proof -
  have "first_index (\<lambda>s. ms_state s = MEDIA_STATE_EMPTY) (g_media_sessions g) = None"
    using assms(1) by (auto simp: sessions_ok_def first_index_None)
  then show ?thesis
    using assms(2) oldest_stopped_range [of "g_media_sessions g" 0 None i]
    by (auto simp: allocate_session_slot_def slot_for_def Let_def split: if_splits option.splits)
qed

lemma slot_none: "allocate_session_slot g = (None, g') \<Longrightarrow> g' = g"
  by (auto simp: allocate_session_slot_def Let_def split: if_splits option.splits)

text \<open>Filling the slot keeps the table in order when the name is new and the device free.\<close>

lemma slot_filled_ok:
  assumes ok: "sessions_ok ss" and slot: "slot_for ss i ss'"
    and s: "session_id s \<notin> session_id ` set ss" "session_id s \<noteq> []"
      "ms_state s \<noteq> MEDIA_STATE_EMPTY" "ms_state s \<noteq> MEDIA_STATE_STOPPING"
    and free: "\<forall>x \<in> set ss. live x \<longrightarrow> ms_sn x \<noteq> ms_sn s"
  shows "sessions_ok (ss'[i := s])"
proof -
  have nth: "x < length ss \<Longrightarrow> ss ! x \<in> set ss" for x by simp
  consider "i = length ss" "ss'[i := s] = ss @ [s]" "length ss < MAX_MEDIA_SESSIONS"
    | "i < length ss" "ss'[i := s] = ss[i := s]"
    using slot by (auto simp: slot_for_def)
  then show ?thesis
  proof cases
    case 1
    have "j = k" if "j < Suc (length ss)" "k < Suc (length ss)" "live ((ss @ [s]) ! j)" "live ((ss @ [s]) ! k)"
        "ms_sn ((ss @ [s]) ! j) = ms_sn ((ss @ [s]) ! k)" for j k
      using that ok free nth [of j] nth [of k]
      by (auto simp: sessions_ok_def nth_append less_Suc_eq split: if_splits)
    then show ?thesis using 1 ok s by (auto simp: sessions_ok_def)
  next
    case 2
    have ids: "map session_id (ss[i := s]) = (map session_id ss)[i := session_id s]" by (simp add: map_update)
    have "distinct (map session_id (ss[i := s]))"
      unfolding ids using ok s(1) by (intro distinct_list_update) (auto simp: sessions_ok_def)
    moreover have "j = k" if "j < length ss" "k < length ss" "live (ss[i := s] ! j)" "live (ss[i := s] ! k)"
        "ms_sn (ss[i := s] ! j) = ms_sn (ss[i := s] ! k)" for j k
      using that 2(1) ok free nth [of j] nth [of k]
      by (auto simp: sessions_ok_def nth_list_update split: if_splits)
    ultimately show ?thesis
      using 2 ok s set_update_subset_insert [of ss i s] by (auto simp: sessions_ok_def)
  qed
qed

section \<open>Starting a session\<close>

lemma safe_copy_short: "length x < n \<Longrightarrow> lifecycle_safe_strcpy x n = x"
  by (simp add: lifecycle_safe_strcpy_def)

lemma text_member_short: "0 < n \<Longrightarrow> length (text_member body key n) < n"
proof -
  have "length (copy_string m p) \<le> m" for m p
    by (induction m p rule: copy_string.induct) auto
  then show "0 < n \<Longrightarrow> ?thesis"
    by (auto simp: text_member_def json_get_string_def less_Suc_eq_le split: option.splits list.splits if_splits)
      (metis Suc_pred le_imp_less_Suc)+
qed

text \<open>
  The outcome of the last steps: the slot holds the new session, failed, or active and then possibly
  expired at once. What the session is made of is fixed by the request.
\<close>

definition session_of ::
  "string \<Rightarrow> string \<Rightarrow> int \<Rightarrow> int \<Rightarrow> int \<Rightarrow> media_session \<Rightarrow> bool" where
  "session_of sid sn rtp rtcp ttl s \<longleftrightarrow>
     session_id s = lifecycle_safe_strcpy sid 64 \<and> ms_sn s = lifecycle_safe_strcpy sn 128
     \<and> ms_rtp_port s = rtp \<and> ms_rtcp_port s = rtcp \<and> ttl_sec s = ttl"

lemma slot_index: "slot_for ss i ss' \<Longrightarrow> i < length ss'"
  by (auto simp: slot_for_def)

lemma start_new_outcome:
  fixes g g' g0 :: "'w server"
  assumes r: "start_new svc sid op sn dev mpin rtp rtcp ttl lb rq g = (r, g')"
    and a: "allocate_session_slot g = (Some i, g0)" and i: "i < length (g_media_sessions g0)"
    and e: "g_media_sessions g0 ! i = empty_session"
  obtains (failed) s where "g_media_sessions g' = (g_media_sessions g0)[i := s]" "session_of sid sn rtp rtcp ttl s"
      "ms_state s = MEDIA_STATE_FAILED" "fst r \<noteq> 201"
  | (made) s and g1 :: "'w server" and now and g2 :: "'w server" and n and g3 :: "'w server" and now' where "g_media_sessions g1 = (g_media_sessions g0)[i := s]" "session_of sid sn rtp rtcp ttl s"
      "ms_state s = MEDIA_STATE_ACTIVE" "contract_version s = 0"
      "renewed_at s = (if lb then rq else now)" "started_at s = now"
      "upsert_route sn rtp rtcp g2 = (Some n, g3)" "g_routes g1 = g_routes g3" "g_clients g1 = g_clients g3"
      "g_routes g2 = g_routes g0" "g_clients g2 = g_clients g0"
      "r = (if ms_state (g_media_sessions (expire_media_session svc (Some i) now' g1) ! i) = MEDIA_STATE_STOPPED
            then (409, Error ''lease_expired'')
            else (201, Session (g_media_sessions (expire_media_session svc (Some i) now' g1) ! i)))"
      "g_media_sessions g' = g_media_sessions (expire_media_session svc (Some i) now' g1)"
      "g_routes g' = g_routes (expire_media_session svc (Some i) now' g1)"
proof -
  define mid where "mid = (if 0 < dev then dev else word_of_int rtp)"
  let ?f = "\<lambda>s. s\<lparr>session_id := lifecycle_safe_strcpy sid 64,
      operation_id := lifecycle_safe_strcpy op 64, ms_sn := lifecycle_safe_strcpy sn 128,
      device_id := dev, mountpoint_id := mid, ms_rtp_port := rtp, ms_rtcp_port := rtcp,
      pin := lifecycle_safe_strcpy mpin 513, ttl_sec := ttl, ms_state := MEDIA_STATE_STARTING\<rparr>"
  obtain t ga where t: "ask (time_now svc) (set_session i ?f g0) = (t, ga)" by fastforce
  let ?s = "(?f empty_session)\<lparr>created_at := t\<rparr>"
  obtain res gb where b: "janus_mountpoint_ensure svc mid rtp rtcp mpin (set_session i (\<lambda>s. s\<lparr>created_at := t\<rparr>) ga) = (res, gb)"
    by fastforce
  have gb: "g_media_sessions gb = (g_media_sessions g0)[i := ?s]" "g_routes gb = g_routes g0" "g_clients gb = g_clients g0"
    using same_tables_fields [OF janus_ensure_same [OF b]] ask_result [OF t] i e by (simp_all add: list_update_overwrite)
  show thesis
  proof (cases "res = 0")
    case False
    then show thesis
      using r a t b gb i by (intro failed [of "?s\<lparr>ms_state := MEDIA_STATE_FAILED, stop_reason := ''janus_create_failed''\<rparr>"])
        (auto simp: start_new_def Let_def session_of_def simp flip: mid_def)
  next
    case True
    obtain up gc where c: "upsert_route sn rtp rtcp gb = (up, gc)" by fastforce
    have gc: "g_media_sessions gc = (g_media_sessions g0)[i := ?s]" using upsert_route_sessions [OF c] gb by simp
    show thesis
    proof (cases up)
      case None
      then show thesis
        using r a t b c gb gc i True
        by (intro failed [of "?s\<lparr>ms_state := MEDIA_STATE_FAILED, stop_reason := ''route_upsert_failed''\<rparr>"])
          (auto simp: start_new_def Let_def session_of_def simp flip: mid_def)
    next
      case (Some n)
      obtain now gd where d: "ask (time_now svc) gc = (now, gd)" by fastforce
      let ?a = "?s\<lparr>ms_state := MEDIA_STATE_ACTIVE, started_at := now, renewed_at := (if lb then rq else now)\<rparr>"
      let ?g = "set_session i (\<lambda>s. s\<lparr>ms_state := MEDIA_STATE_ACTIVE, started_at := now,
            renewed_at := (if lb then rq else now)\<rparr>) gd"
      obtain now' ge where ge: "ask (time_now svc)
          (?g\<lparr>g_metric_sessions_started := g_metric_sessions_started ?g + 1\<rparr>) = (now', ge)" by fastforce
      have gs: "g_media_sessions ge = (g_media_sessions g0)[i := ?a]" "g_routes ge = g_routes gc" "g_clients ge = g_clients gc"
        using ask_result [OF ge] ask_result [OF d] gc i by simp_all
      show thesis
        using r a t b c d ge gb gs Some True
        by (intro made [of ge ?a now gb n gc now'])
          (auto simp: start_new_def Let_def session_of_def empty_session_def simp flip: mid_def split: if_splits)
    qed
  qed
qed

lemma find_session_None:
  "sid \<noteq> [] \<Longrightarrow> find_session_by_id sid g = None \<longleftrightarrow> sid \<notin> session_id ` set (g_media_sessions g)"
  by (auto simp: find_session_by_id_def first_index_None)

lemma find_session_Some:
  assumes "find_session_by_id sid g = Some i"
  shows "i < length (g_media_sessions g)" "session_id (g_media_sessions g ! i) = sid" "sid \<noteq> []"
  using assms by (auto simp: find_session_by_id_def dest!: first_index_Some split: if_splits)

lemma find_active_None:
  "sn \<noteq> [] \<Longrightarrow> find_active_session_for_sn sn g = None \<longleftrightarrow> (\<forall>s \<in> set (g_media_sessions g). live s \<longrightarrow> ms_sn s \<noteq> sn)"
  by (auto simp: find_active_session_for_sn_def first_index_None)

lemma find_active_Some:
  assumes "find_active_session_for_sn sn g = Some i"
  shows "i < length (g_media_sessions g)" "ms_sn (g_media_sessions g ! i) = sn" "live (g_media_sessions g ! i)"
  using assms by (auto simp: find_active_session_for_sn_def dest!: first_index_Some split: if_splits)

lemma start_new_ok:
  assumes ok: "sessions_ok (g_media_sessions g)" and new: "sid \<notin> session_id ` set (g_media_sessions g)"
    and sid: "sid \<noteq> []" "length sid < 64" and sn: "length sn < 128"
    and free: "\<forall>s \<in> set (g_media_sessions g). live s \<longrightarrow> ms_sn s \<noteq> sn"
  shows "sessions_ok (g_media_sessions (snd (start_new svc sid op sn dev mpin rtp rtcp ttl lb rq g)))"
proof -
  obtain r g' where r: "start_new svc sid op sn dev mpin rtp rtcp ttl lb rq g = (r, g')" by fastforce
  obtain slot g0 where a: "allocate_session_slot g = (slot, g0)" by fastforce
  show ?thesis
  proof (cases slot)
    case None
    then show ?thesis using a slot_none [of g g0] ok by (simp add: start_new_def Let_def)
  next
    case (Some i)
    have slot: "slot_for (g_media_sessions g) i (g_media_sessions g0)" using slot_allocated ok a Some by blast
    have e: "g_media_sessions g0 ! i = empty_session" using slot by (auto simp: slot_for_def)
    have filled: "sessions_ok ((g_media_sessions g0)[i := s])"
      if "session_of sid sn rtp rtcp ttl s" "ms_state s \<noteq> MEDIA_STATE_EMPTY" "ms_state s \<noteq> MEDIA_STATE_STOPPING" for s
      using slot_filled_ok [OF ok slot, of s] that new sid free safe_copy_short [OF sid(2)] safe_copy_short [OF sn]
      by (simp add: session_of_def)
    from r a [unfolded Some] slot_index [OF slot] e show ?thesis
    proof (cases rule: start_new_outcome)
      case (failed s)
      then show ?thesis using filled [of s] r by simp
    next
      case (made s g1 now g2 n g3 now')
      then have "sessions_ok (g_media_sessions g1)" using filled [of s] by simp
      then show ?thesis
        using sessions_le_ok [OF expire_ends, of g1 svc "Some i" now'] made(13) r by simp
    qed
  qed
qed

lemma start_admit_ok:
  assumes ok: "sessions_ok (g_media_sessions g)" and new: "sid \<notin> session_id ` set (g_media_sessions g)"
    and sid: "sid \<noteq> []" "length sid < 64" and sn: "sn \<noteq> []" "length sn < 128"
  shows "sessions_ok (g_media_sessions (snd (start_admit svc sid op sn dev mpin rtp rtcp ttl lb rq g)))"
proof -
  let ?g = "expire_media_session svc (find_active_session_for_sn sn g) rq g"
  have le: "ends_only g ?g" by (rule expire_ends)
  note ok' = sessions_le_ok [OF le ok]
  have new': "sid \<notin> session_id ` set (g_media_sessions ?g)"
    using new sessions_le_ids [OF le] by (metis set_map)
  show ?thesis
  proof (cases "find_active_session_for_sn sn ?g")
    case None
    then have "\<forall>s \<in> set (g_media_sessions ?g). live s \<longrightarrow> ms_sn s \<noteq> sn" using find_active_None [OF sn(1)] by blast
    from start_new_ok [OF ok' new' sid sn(2) this] None ok' show ?thesis
      by (auto simp: start_admit_def Let_def split: option.splits)
  next
    case (Some i)
    then have "session_id (g_media_sessions ?g ! i) \<noteq> sid"
      using find_active_Some(1) [OF Some] new' by (metis imageI nth_mem)
    then show ?thesis using Some ok' by (simp add: start_admit_def Let_def)
  qed
qed

lemma start_existing_ends:
  assumes "start_existing svc i op sn ttl lb rq g = (a, g')" shows "ends_only g g'"
proof -
  let ?s = "g_media_sessions g ! i"
  have "ends_only g g'" if "janus_mountpoint_ensure svc (mountpoint_id ?s) (ms_rtp_port ?s) (ms_rtcp_port ?s) (pin ?s) g
      = (res, g1)" for res g1
  proof -
    note s1 = same_tables_ends [OF janus_ensure_same [OF that]]
    have u: "g_media_sessions (snd (upsert_route sn rtp rtcp g2)) = g_media_sessions g2" for sn rtp rtcp and g2 :: "'a server"
      using upsert_route_sessions by (metis prod.collapse)
    show ?thesis
      using assms that s1
      by (auto simp: start_existing_def Let_def u live_def intro!: sessions_le_update split: if_splits)
  qed
  then show ?thesis by (metis prod.collapse)
qed

text \<open>Whether a request names a session whose start failed.\<close>

definition retries_failed :: "string \<Rightarrow> 'w server \<Rightarrow> bool" where
  "retries_failed body g \<longleftrightarrow> list_ex (\<lambda>s. session_id s = text_member body ''session_id'' 64
     \<and> ms_state s = MEDIA_STATE_FAILED) (g_media_sessions g)"

text \<open>A session that is found and did not fail is answered for.\<close>

lemma existing_answered:
  assumes ok: "sessions_ok (g_media_sessions g)" and found: "find_session_by_id sid g = Some i"
    and nf: "\<not> list_ex (\<lambda>s. session_id s = sid \<and> ms_state s = MEDIA_STATE_FAILED) (g_media_sessions g)"
  shows "fst (start_existing svc i op sn ttl lb rq (expire_media_session svc (Some i) now g)) \<noteq> None"
proof -
  let ?s = "g_media_sessions g ! i" and ?g = "expire_media_session svc (Some i) now g"
  note i = find_session_Some [OF found]
  have "?s \<in> set (g_media_sessions g)" using i by simp
  then have "ms_state ?s \<notin> {MEDIA_STATE_EMPTY, MEDIA_STATE_STOPPING, MEDIA_STATE_FAILED}"
    using ok nf i(2) by (auto simp: sessions_ok_def list_ex_iff)
  then have "live (g_media_sessions ?g ! i) \<or> ms_state (g_media_sessions ?g ! i) = MEDIA_STATE_STOPPED"
    using sessions_le_nth(4) [OF expire_ends i(1), of svc "Some i" now] by (cases "ms_state ?s") (auto simp: live_def)
  then show ?thesis by (auto simp: start_existing_def Let_def split: prod.splits)
qed

lemma start_ok:
  assumes ok: "sessions_ok (g_media_sessions g)" and nr: "\<not> retries_failed body g"
  shows "sessions_ok (g_media_sessions (snd (handle_media_session_start svc body g)))"
proof -
  define sid where "sid = text_member body ''session_id'' 64"
  define sn where "sn = text_member body ''sn'' 128"
  have len: "length sid < 64" "length sn < 128" by (simp_all add: sid_def sn_def text_member_short)
  obtain rq g1 where t: "ask (time_now svc) g = (rq, g1)" by fastforce
  have g1: "g_media_sessions g1 = g_media_sessions g" by (rule ask_result(3) [OF t])
  show ?thesis
  proof (cases "body = [] \<or> sid = [] \<or> sn = []")
    case True
    then show ?thesis using ok by (auto simp: handle_media_session_start_def Let_def simp flip: sid_def sn_def)
  next
    case False
    then have ne: "sid \<noteq> []" "sn \<noteq> []" "body \<noteq> []" by auto
    note defs = handle_media_session_start_def Let_def t ne
    show ?thesis
    proof (cases "find_session_by_id sid g1")
      case None
      then have "sid \<notin> session_id ` set (g_media_sessions g1)" using find_session_None [OF ne(1)] by blast
      from start_admit_ok [OF ok [folded g1] this ne(1) len(1) ne(2) len(2)] None ok g1 show ?thesis
        by (auto simp: defs split: option.splits simp flip: sid_def sn_def)
    next
      case (Some i)
      let ?g2 = "expire_media_session svc (Some i) rq g1"
      have le: "ends_only g1 ?g2" by (rule expire_ends)
      have ans: "fst (start_existing svc i op sn ttl lb rq ?g2) \<noteq> None" for op ttl lb
        using existing_answered [OF _ Some] ok nr g1 by (simp add: retries_failed_def flip: sid_def)
      show ?thesis
      proof (cases "media_lease_ttl body rq (clamp_ttl (int_member body ''ttl_sec'' 600))")
        case None
        then show ?thesis using ok g1 by (simp add: defs flip: sid_def sn_def)
      next
        case (Some tl)
        obtain ttl lb where tl: "tl = (ttl, lb)" by (cases tl)
        let ?op = "text_member body ''operation_id'' 64"
        obtain a g3 where ex: "start_existing svc i ?op sn ttl lb rq ?g2 = (a, g3)" by fastforce
        then obtain answer where "a = Some answer" using ans [of ?op ttl lb] by auto
        moreover have "sessions_ok (g_media_sessions g3)"
          using sessions_le_ok [OF start_existing_ends [OF ex]] sessions_le_ok [OF le] ok g1 by simp
        ultimately show ?thesis
          using Some ex tl \<open>find_session_by_id sid g1 = Some i\<close> by (simp add: defs flip: sid_def sn_def)
      qed
    qed
  qed
qed

section \<open>Restoring a session at start-up\<close>

text \<open>
  The restore of a record writes the session into the table without asking whether its device has
  another live one (\<open>restore_doubles_device\<close> below). It keeps the table in order for a record
  that fits: its names are no longer than the table's fields and its device has no live session
  under another name.
\<close>

definition restore_fits :: "string \<Rightarrow> string \<Rightarrow> 'w server \<Rightarrow> bool" where
  "restore_fits sid sn g \<longleftrightarrow> length sid < 64 \<and> length sn < 128
     \<and> list_all (\<lambda>s. live s \<and> ms_sn s = sn \<longrightarrow> session_id s = sid) (g_media_sessions g)"

lemma slot_replaced_ok:
  assumes ok: "sessions_ok ss" and i: "i < length ss" and s: "session_id s = session_id (ss ! i)"
      "ms_state s \<noteq> MEDIA_STATE_EMPTY" "ms_state s \<noteq> MEDIA_STATE_STOPPING"
    and free: "\<forall>x \<in> set ss. live x \<and> ms_sn x = ms_sn s \<longrightarrow> session_id x = session_id s"
  shows "sessions_ok (ss[i := s])"
proof -
  have ids: "map session_id (ss[i := s]) = map session_id ss"
    using i s(1) by (metis list_update_id map_update nth_map)
  have only: "j = i" if "j < length ss" "live (ss ! j)" "ms_sn (ss ! j) = ms_sn s" for j
  proof -
    have "ss ! j \<in> set ss" using that(1) by simp
    then have "session_id (ss ! j) = session_id s" using free that(2,3) by blast
    then show ?thesis
      using s(1) that(1) i ok nth_eq_iff_index_eq [of "map session_id ss" j i] by (simp add: sessions_ok_def)
  qed
  have "j = k" if "j < length ss" "k < length ss" "live (ss[i := s] ! j)" "live (ss[i := s] ! k)"
      "ms_sn (ss[i := s] ! j) = ms_sn (ss[i := s] ! k)" for j k
  proof -
    have uniq: "j = k" if "live (ss ! j)" "live (ss ! k)" "ms_sn (ss ! j) = ms_sn (ss ! k)"
      using ok that \<open>j < length ss\<close> \<open>k < length ss\<close> unfolding sessions_ok_def by blast
    consider "j = i" "k = i" | "j = i" "k \<noteq> i" | "j \<noteq> i" "k = i" | "j \<noteq> i" "k \<noteq> i" by blast
    then show ?thesis
    proof cases
      case 2
      then show ?thesis using that i only [of k] by simp
    next
      case 3
      then show ?thesis using that i only [of j] by simp
    next
      case 4
      then have "ss[i := s] ! j = ss ! j" "ss[i := s] ! k = ss ! k" by simp_all
      then show ?thesis using uniq that(3-5) by metis
    qed simp
  qed
  moreover have "session_id s \<noteq> []" using ok i s(1) by (simp add: sessions_ok_def)
  ultimately show ?thesis
    using ok s(2,3) ids set_update_subset_insert [of ss i s] unfolding sessions_ok_def by auto
qed

text \<open>The fields a restored record fills in, and the table after it.\<close>

definition restored_as :: "string \<Rightarrow> string \<Rightarrow> media_session \<Rightarrow> bool" where
  "restored_as sid sn s \<longleftrightarrow> session_id s = lifecycle_safe_strcpy sid 64 \<and> ms_sn s = lifecycle_safe_strcpy sn 128
     \<and> (ms_state s = MEDIA_STATE_ACTIVE \<or> ms_state s = MEDIA_STATE_STOPPED)"

lemma restore_outcome:
  assumes "(case find_session_by_id sid g of
                   Some i \<Rightarrow> (Some i, g)
                 | None \<Rightarrow>
                     (case allocate_session_slot g of
                        (None, g) \<Rightarrow> (None, g)
                      | (Some i, g) \<Rightarrow> (Some i, set_session i (\<lambda>_. empty_session) g))) = (Some i, g0)"
    and i: "i < length (g_media_sessions g0)" and ne: "sid \<noteq> []" "sn \<noteq> []"
  shows "\<exists>s. restored_as sid sn s
    \<and> g_media_sessions (media_redis_restore_one svc sid op sn dev mid rtp rtcp mpin state ttl created started renewed g)
        = (g_media_sessions g0)[i := s]"
proof -
  have u: "g_media_sessions (snd (upsert_route x p q g1)) = g_media_sessions g1" for x p q and g1 :: "'a server"
    using upsert_route_sessions by (metis prod.collapse)
  let ?f = "\<lambda>s. s\<lparr>session_id := lifecycle_safe_strcpy sid 64,
      operation_id := lifecycle_safe_strcpy op 64, ms_sn := lifecycle_safe_strcpy sn 128,
      device_id := dev, mountpoint_id := mid, ms_rtp_port := rtp, ms_rtcp_port := rtcp,
      pin := lifecycle_safe_strcpy mpin 513, ttl_sec := ttl, created_at := created,
      started_at := started, renewed_at := (if renewed \<noteq> 0 then renewed else started)\<rparr>"
  let ?g = "set_session i ?f g0" and ?s = "?f (g_media_sessions g0 ! i)"
  have s: "g_media_sessions ?g ! i = ?s" using i by simp
  obtain fresh g1 where t: "(if (state = 2 \<or> state = 1) \<and> 0 < ttl_sec ?s
      then (case ask (time_now svc) ?g of (now, g) \<Rightarrow> (now - renewed_at ?s < ttl_sec ?s, g)) else (False, ?g))
    = (fresh, g1)" by fastforce
  have g1: "g_media_sessions g1 = g_media_sessions ?g" using t by (auto simp: ask_result split: if_splits prod.splits)
  note u [simp]
  show ?thesis
  proof (cases fresh)
    case False
    let ?x = "?s\<lparr>ms_state := MEDIA_STATE_STOPPED\<rparr>"
    have "media_redis_restore_one svc sid op sn dev mid rtp rtcp mpin state ttl created started renewed g
        = tell (redis_drop_session svc (session_id ?s) (ms_sn ?s) (mountpoint_id ?s))
            (set_session i (\<lambda>s. s\<lparr>ms_state := MEDIA_STATE_STOPPED\<rparr>) g1)"
      unfolding media_redis_restore_one_def assms(1) using ne by (simp only: t s Let_def False if_False prod.case bool.case option.case simp_thms)
    then show ?thesis using g1 i by (intro exI [of _ ?x]) (simp add: restored_as_def)
  next
    case True
    have e: "media_redis_restore_one svc sid op sn dev mid rtp rtcp mpin state ttl created started renewed g
        = snd (upsert_route (ms_sn ?s) (ms_rtp_port ?s) (ms_rtcp_port ?s)
            (set_session i (\<lambda>s. s\<lparr>ms_state := MEDIA_STATE_ACTIVE\<rparr>)
              (if started_at ?s = 0 then (case ask (time_now svc) g1 of (now, g) \<Rightarrow>
                 set_session i (\<lambda>s. s\<lparr>started_at := now\<rparr>) g) else g1)))"
      unfolding media_redis_restore_one_def assms(1) using ne by (simp only: t s Let_def True if_False prod.case bool.case option.case simp_thms)
    obtain now g2 where n: "ask (time_now svc) g1 = (now, g2)" by fastforce
    have g2: "g_media_sessions g2 = g_media_sessions ?g" using g1 ask_result(3) [OF n] by simp
    show ?thesis
    proof (cases "started = 0")
      case True
      then show ?thesis unfolding e using g2 i by (intro exI [of _ "?s\<lparr>started_at := now, ms_state := MEDIA_STATE_ACTIVE\<rparr>"]) (simp add: restored_as_def n)
    next
      case False
      then show ?thesis unfolding e using g1 i
        by (intro exI [of _ "?s\<lparr>ms_state := MEDIA_STATE_ACTIVE\<rparr>"]) (simp add: restored_as_def)
    qed
  qed
qed

lemma restore_ok:
  assumes ok: "sessions_ok (g_media_sessions g)" and fits: "restore_fits sid sn g"
  shows "sessions_ok (g_media_sessions
    (media_redis_restore_one svc sid op sn dev mid rtp rtcp mpin state ttl created started renewed g))"
proof (cases "sid = [] \<or> sn = []")
  case True
  then show ?thesis using ok by (auto simp: media_redis_restore_one_def)
next
  case False
  note len = safe_copy_short [of sid 64] safe_copy_short [of sn 128]
  have free: "\<forall>x \<in> set (g_media_sessions g). live x \<and> ms_sn x = sn \<longrightarrow> session_id x = sid"
    and short: "length sid < 64" "length sn < 128"
    using fits by (auto simp: restore_fits_def list_all_iff)
  have st: "ms_state s \<noteq> MEDIA_STATE_EMPTY" "ms_state s \<noteq> MEDIA_STATE_STOPPING" "session_id s = sid" "ms_sn s = sn"
    if "restored_as sid sn s" for s using that len short by (auto simp: restored_as_def)
  show ?thesis
  proof (cases "find_session_by_id sid g")
    case (Some i)
    note i = find_session_Some [OF Some]
    obtain s where s: "restored_as sid sn s" and
      tab: "g_media_sessions (media_redis_restore_one svc sid op sn dev mid rtp rtcp mpin state ttl created started renewed g)
        = (g_media_sessions g)[i := s]"
      using restore_outcome [of g sid i g sn svc op dev mid rtp rtcp mpin state ttl created started renewed]
        Some i(1) False by auto
    have "sessions_ok ((g_media_sessions g)[i := s])"
      using st [OF s] i(2) free by (intro slot_replaced_ok [OF ok i(1)]) simp_all
    then show ?thesis unfolding tab .
  next
    case None
    then have new: "sid \<notin> session_id ` set (g_media_sessions g)" using find_session_None False by blast
    obtain slot g0 where a: "allocate_session_slot g = (slot, g0)" by fastforce
    show ?thesis
    proof (cases slot)
      case None
      then show ?thesis using a slot_none [of g g0] ok \<open>find_session_by_id sid g = None\<close>
        by (simp add: media_redis_restore_one_def)
    next
      case (Some i)
      have slot: "slot_for (g_media_sessions g) i (g_media_sessions g0)" using slot_allocated ok a Some by blast
      have "\<forall>x \<in> set (g_media_sessions g). live x \<longrightarrow> ms_sn x \<noteq> sn" using free new by blast
      then have filled: "sessions_ok ((g_media_sessions g0)[i := s])" if "restored_as sid sn s" for s
        using slot_filled_ok [OF ok slot, of s] st [OF that] new False by simp
      show ?thesis
        using restore_outcome [of g sid i "set_session i (\<lambda>_. empty_session) g0" sn svc op dev mid rtp rtcp mpin state
            ttl created started renewed]
          filled None a Some slot_index [OF slot] False by (auto simp: list_update_overwrite)
    qed
  qed
qed

section \<open>Runs of the service\<close>

text \<open>
  The histories of the session table under the first contract: the service starts with an empty
  table, takes over session records of the first contract that fit, and then serves requests of the
  first contract in any order; between them happens anything that leaves the table alone
  (connections, routes, time). No start names a session whose start failed before. The starts,
  updates and the restore of the second and third contract (\<open>mv_start\<close>, \<open>mv_update\<close>,
  \<open>media_v2_restore\<close>) write the same table and are not steps of this relation.
\<close>

inductive session_run :: "'w services \<Rightarrow> 'w server \<Rightarrow> bool" for svc :: "'w services" where
  boot: "session_run svc (start_server now w)"
| restore: "session_run svc g \<Longrightarrow> restore_fits sid sn g \<Longrightarrow> session_run svc
    (media_redis_restore_one svc sid op sn dev mid rtp rtcp mpin state ttl created started renewed g)"
| start: "session_run svc g \<Longrightarrow> \<not> retries_failed body g \<Longrightarrow> session_run svc (snd (handle_media_session_start svc body g))"
| stop: "session_run svc g \<Longrightarrow> session_run svc (snd (stop_media_session svc sid reason g))"
| renew: "session_run svc g \<Longrightarrow> session_run svc (snd (renew_media_session svc sid body g))"
| stop_sn: "session_run svc g \<Longrightarrow> session_run svc (snd (stop_media_session_for_sn svc body g))"
| renew_sn: "session_run svc g \<Longrightarrow> session_run svc (snd (renew_media_session_for_sn svc body g))"
| health: "session_run svc g \<Longrightarrow> session_run svc (snd (get_media_session_health svc sid g))"
| watchdog: "session_run svc g \<Longrightarrow> session_run svc (expire_media_session svc slot now g)"
| reconcile: "session_run svc g \<Longrightarrow> session_run svc (snd (reconcile_resources svc g))"
| outside: "session_run svc g \<Longrightarrow> g_media_sessions g' = g_media_sessions g \<Longrightarrow> session_run svc g'"

lemma session_run_ok: "session_run svc g \<Longrightarrow> sessions_ok (g_media_sessions g)"
proof (induction rule: session_run.induct)
  case (boot now w)
  then show ?case by (simp add: start_server_def sessions_ok_def)
next
  case (restore g)
  then show ?case using restore_ok by blast
next
  case (start g body)
  then show ?case using start_ok by blast
next
  case (reconcile g)
  then show ?case by (simp add: reconcile_ends)
qed (auto intro: sessions_le_ok stop_ends renew_ends stop_for_sn_ends renew_for_sn_ends health_ends expire_ends)

lemma at_most_one:
  assumes "\<And>i j. i < length xs \<Longrightarrow> j < length xs \<Longrightarrow> P (xs ! i) \<Longrightarrow> P (xs ! j) \<Longrightarrow> i = j"
  shows "length (filter P xs) \<le> 1"
  unfolding length_filter_conv_card One_nat_def
  by (subst card_le_Suc0_iff_eq) (use assms in auto)

lemma stop_by_id:
  assumes "sessions_ok (g_media_sessions g)" "s \<in> set (g_media_sessions (snd (stop_media_session svc sid reason g)))"
    and "session_id s = sid"
  shows "ms_state s = MEDIA_STATE_STOPPED"
proof -
  let ?ss = "g_media_sessions g"
  obtain r g' where st: "stop_media_session svc sid reason g = (r, g')" by fastforce
  have le: "sessions_le ?ss (g_media_sessions g')" using stop_ends [of g svc sid reason] st by simp
  obtain j where j: "j < length ?ss" "s = g_media_sessions g' ! j"
    using assms(2) st sessions_le_length [OF le] by (auto simp: in_set_conv_nth)
  then have id: "session_id (?ss ! j) = sid" using assms(3) sessions_le_nth(1) [OF le] by simp
  have ne: "sid \<noteq> []" using id j(1) assms(1) by (metis nth_mem sessions_ok_def)
  then have "find_session_by_id sid g \<noteq> None" using find_session_None [OF ne] id j(1) by (metis imageI nth_mem)
  then obtain i where i: "find_session_by_id sid g = Some i" by blast
  then have "i = j"
    using find_session_Some [OF i] id j(1) assms(1) nth_eq_iff_index_eq [of "map session_id ?ss" i j]
    by (simp add: sessions_ok_def)
  show ?thesis
  proof (cases "ms_state (?ss ! i) = MEDIA_STATE_STOPPED")
    case True
    then have "g' = g" using st i by (simp add: stop_media_session_def)
    then show ?thesis using True j(2) \<open>i = j\<close> by simp
  next
    case False
    then show ?thesis using stop_effect [OF i False st] j \<open>i = j\<close> by auto
  qed
qed

text \<open>
  C3: session names are unique, a device has at most one live session, and stopping a session ends
  it, in every history of the service under the first contract: from an empty table, records of the
  first contract restored from Redis whose device has no live session under another name (the restore
  itself does not check this), then starts, stops, renewals, health queries, expiry and reconciliation
  in any order, where no start names a session whose start had failed. The requests of the second and
  third contract, and the restore of their records, are not part of these histories.
\<close>

theorem one_live_session_per_device:
  assumes "session_run svc g"
  shows "distinct (map session_id (g_media_sessions g))
    \<and> length (g_media_sessions g) \<le> MAX_MEDIA_SESSIONS
    \<and> length (filter (\<lambda>s. live s \<and> ms_sn s = sn) (g_media_sessions g)) \<le> 1
    \<and> (\<forall>s \<in> set (g_media_sessions (snd (stop_media_session svc sid reason g))). session_id s = sid \<longrightarrow> \<not> live s)"
proof -
  note ok = session_run_ok [OF assms]
  then have "length (filter (\<lambda>s. live s \<and> ms_sn s = sn) (g_media_sessions g)) \<le> 1"
    by (intro at_most_one) (auto simp: sessions_ok_def)
  moreover have "\<not> live s" if "s \<in> set (g_media_sessions (snd (stop_media_session svc sid reason g)))" "session_id s = sid" for s
    using stop_by_id [OF ok that] by (simp add: live_def)
  ultimately show ?thesis using ok by (simp add: sessions_ok_def)
qed

section \<open>What a started session is\<close>

lemma int_cast_small: "0 \<le> v \<Longrightarrow> v < 2 ^ 31 \<Longrightarrow> int_cast v = v"
  unfolding int_cast_def by (simp add: sint_uint uint_word_of_int_eq take_bit_int_eq_self signed_take_bit_int_eq_self)

lemma clamp_ttl_range: "10 \<le> clamp_ttl ttl" "clamp_ttl ttl \<le> 7200"
  by (simp_all add: clamp_ttl_def Let_def)

lemma lease_ttl_range:
  assumes "media_lease_ttl body now ttl = Some (t, bound)" "0 < ttl" "ttl \<le> 7200"
  shows "0 < t" "t \<le> 7200"
    and "json_find_key body ''lease_expires_at'' = Some p \<Longrightarrow> strtol p = Some (e, rest, err) \<Longrightarrow> bound \<and> now + t = e"
proof -
  show "0 < t" "t \<le> 7200" using assms int_cast_small
    by (auto simp: media_lease_ttl_def Let_def split: option.splits if_splits)
  show "json_find_key body ''lease_expires_at'' = Some p \<Longrightarrow> strtol p = Some (e, rest, err) \<Longrightarrow> bound \<and> now + t = e"
    using assms(1) int_cast_small [of "e - now"]
    by (auto simp: media_lease_ttl_def Let_def split: if_splits)
qed

lemma stop_routes_ok:
  assumes "routes_ok g" shows "routes_ok (snd (stop_media_session svc sid reason g))"
proof (cases "find_session_by_id sid g")
  case (Some i)
  have d: "routes_ok (snd (delete_route (Text sn) g1))" if "routes_ok g1" for sn and g1 :: "'a server"
  proof (cases "delete_route (Text sn) g1")
    case (Pair r g2)
    then show ?thesis using that delete_absent [of sn g1 g2] delete_done(1) [of sn g1 _ g2] by (cases r) auto
  qed
  have k: "routes_ok g2 = routes_ok g1" if "g_routes g2 = g_routes g1" for g1 g2 :: "'a server"
    using that by (simp add: routes_ok_def)
  obtain now g1 where t: "ask (time_now svc) g = (now, g1)" by fastforce
  let ?a = "set_session i (\<lambda>s. s\<lparr>ms_state := MEDIA_STATE_STOPPING\<rparr>) g1"
  let ?b = "set_session i (harvest (g_clients ?a)) ?a"
  let ?c = "snd (delete_route (Text (ms_sn (g_media_sessions ?b ! i))) ?b)"
  have "routes_ok ?b" using assms ask_result(1) [OF t] by (simp add: routes_ok_def)
  then have "routes_ok ?c" by (rule d)
  moreover have "ms_state (g_media_sessions g ! i) \<noteq> MEDIA_STATE_STOPPED \<Longrightarrow>
      g_routes (snd (stop_media_session svc sid reason g)) = g_routes ?c"
    using Some t by (auto simp: stop_media_session_def Let_def)
  ultimately have "ms_state (g_media_sessions g ! i) \<noteq> MEDIA_STATE_STOPPED \<Longrightarrow>
      routes_ok (snd (stop_media_session svc sid reason g))" using k by metis
  moreover have "ms_state (g_media_sessions g ! i) = MEDIA_STATE_STOPPED \<Longrightarrow>
      snd (stop_media_session svc sid reason g) = g" using Some by (simp add: stop_media_session_def)
  ultimately show ?thesis using assms by metis
qed (simp add: stop_media_session_def assms)

lemma expire_routes_ok:
  assumes "routes_ok g" shows "routes_ok (expire_media_session svc slot now g)"
proof (cases slot)
  case (Some i)
  let ?s = "g_media_sessions g ! i"
  obtain b g1 where e: "(if contract_version ?s = 3 then
        (case media_monotonic_ms svc g of (None, g) \<Rightarrow> (True, g)
         | (Some t, g) \<Rightarrow> (monotonic_deadline_ms ?s = 0 \<or> monotonic_deadline_ms ?s \<le> t, g))
      else (0 < ttl_sec ?s \<and> ttl_sec ?s \<le> now - renewal_time ?s, g)) = (b, g1)"
    by fastforce
  then have "routes_ok g1"
    using assms by (auto simp: routes_ok_def split: if_splits prod.splits option.splits dest!: monotonic_sessions)
  then show ?thesis using e assms Some stop_routes_ok [of g1 svc "session_id ?s" "''ttl_expired''"]
    by (simp add: expire_media_session_def Let_def)
qed (simp add: expire_media_session_def assms)

text \<open>A live session of the first contract that survives the check was not touched by it.\<close>

lemma expire_survivor:
  assumes ok: "sessions_ok (g_media_sessions g)" and i: "i < length (g_media_sessions g)"
    and s: "live (g_media_sessions g ! i)" "contract_version (g_media_sessions g ! i) = 0"
    and alive: "ms_state (g_media_sessions (expire_media_session svc (Some i) now g) ! i) \<noteq> MEDIA_STATE_STOPPED"
  shows "expire_media_session svc (Some i) now g = g"
proof (cases "0 < ttl_sec (g_media_sessions g ! i) \<and> ttl_sec (g_media_sessions g ! i) \<le> now - renewal_time (g_media_sessions g ! i)")
  case True
  let ?sid = "session_id (g_media_sessions g ! i)"
  let ?g = "snd (stop_media_session svc ?sid ''ttl_expired'' g)"
  have e: "expire_media_session svc (Some i) now g = ?g"
    using True s by (simp add: expire_media_session_def Let_def)
  have le: "ends_only g ?g" by (rule stop_ends)
  then have "g_media_sessions ?g ! i \<in> set (g_media_sessions ?g)" using i sessions_le_length [OF le] by simp
  then have "ms_state (g_media_sessions ?g ! i) = MEDIA_STATE_STOPPED"
    using stop_by_id [OF ok] sessions_le_nth(1) [OF le i] by blast
  then show ?thesis using alive e by simp
next
  case False
  then show ?thesis using s by (auto simp: expire_media_session_def Let_def)
qed

text \<open>What the answer 201 says of the session and of the state after it.\<close>

definition started_well :: "string \<Rightarrow> string \<Rightarrow> int \<Rightarrow> bool \<Rightarrow> int \<Rightarrow> media_session \<Rightarrow> 'w server \<Rightarrow> bool" where
  "started_well sid sn ttl lb rq s g' \<longleftrightarrow>
     s \<in> set (g_media_sessions g') \<and> ms_state s = MEDIA_STATE_ACTIVE \<and> session_id s = sid \<and> ms_sn s = sn
     \<and> route_map g' sn = Some (ms_rtp_port s, ms_rtcp_port s) \<and> ttl_sec s = ttl \<and> (lb \<longrightarrow> renewed_at s = rq)"

lemma start_new_created:
  assumes ok: "sessions_ok (g_media_sessions g)" "routes_ok g" and new: "sid \<notin> session_id ` set (g_media_sessions g)"
    and sid: "sid \<noteq> []" "length sid < 64" and sn: "length sn < 128"
    and free: "\<forall>s \<in> set (g_media_sessions g). live s \<longrightarrow> ms_sn s \<noteq> sn"
    and r: "start_new svc sid op sn dev mpin rtp rtcp ttl lb rq g = ((201, Session s), g')"
  shows "started_well sid sn ttl lb rq s g'"
proof -
  obtain slot g0 where a: "allocate_session_slot g = (slot, g0)" by fastforce
  then obtain i where i: "slot = Some i" using r by (cases slot) (auto simp: start_new_def Let_def)
  have slot: "slot_for (g_media_sessions g) i (g_media_sessions g0)" using slot_allocated ok(1) a i by blast
  have e: "g_media_sessions g0 ! i = empty_session" using slot by (auto simp: slot_for_def)
  have g0: "g_routes g0 = g_routes g"
    using a by (auto simp: allocate_session_slot_def Let_def split: option.splits if_splits)
  from r a [unfolded i] slot_index [OF slot] e show ?thesis
  proof (cases rule: start_new_outcome)
    case (failed s)
    then show ?thesis by simp
  next
    case (made x g1 now g2 n g3 now')
    have x: "session_id x = sid" "ms_sn x = sn" "ms_rtp_port x = rtp" "ms_rtcp_port x = rtcp" "ttl_sec x = ttl"
      using made(2) safe_copy_short [OF sid(2)] safe_copy_short [OF sn] by (simp_all add: session_of_def)
    have ok1: "sessions_ok (g_media_sessions g1)"
      using slot_filled_ok [OF ok(1) slot, of x] made(1,3) x new sid free by simp
    have len: "i < length (g_media_sessions g1)" using slot_index [OF slot] made(1) by simp
    have nth: "g_media_sessions g1 ! i = x" using slot_index [OF slot] made(1) by simp
    have "expire_media_session svc (Some i) now' g1 = g1"
      using expire_survivor [OF ok1 len, of svc now'] nth made(3,4,12) by (auto simp: live_def split: if_splits)
    then have s: "s = x" "g_media_sessions g' = g_media_sessions g1" "g_routes g' = g_routes g1"
      using made(12-14) nth made(3) by (auto split: if_splits)
    have "routes_ok g2" using ok(2) g0 made(10) by (simp add: routes_ok_def)
    from upsert_done(2) [OF made(7) this sn] have "route_map g3 sn = Some (rtp, rtcp)" by simp
    then have "route_map g' sn = Some (rtp, rtcp)" using s(3) made(8) by (simp add: route_map_of)
    moreover have "x \<in> set (g_media_sessions g')" using nth len s(2) by (metis nth_mem)
    ultimately show ?thesis using x s(1) made(3,5) by (simp add: started_well_def)
  qed
qed

lemma start_admit_created:
  assumes ok: "sessions_ok (g_media_sessions g)" "routes_ok g" and new: "sid \<notin> session_id ` set (g_media_sessions g)"
    and sid: "sid \<noteq> []" "length sid < 64" and sn: "sn \<noteq> []" "length sn < 128"
    and r: "start_admit svc sid op sn dev mpin rtp rtcp ttl lb rq g = ((201, Session s), g')"
  shows "started_well sid sn ttl lb rq s g'"
proof -
  let ?g = "expire_media_session svc (find_active_session_for_sn sn g) rq g"
  have le: "ends_only g ?g" by (rule expire_ends)
  have new': "sid \<notin> session_id ` set (g_media_sessions ?g)"
    using new sessions_le_ids [OF le] by (metis set_map)
  have "find_active_session_for_sn sn ?g = None"
  proof (cases "find_active_session_for_sn sn ?g")
    case (Some i)
    then have "session_id (g_media_sessions ?g ! i) \<noteq> sid"
      using find_active_Some(1) [OF Some] new' by (metis imageI nth_mem)
    then show ?thesis using Some r by (simp add: start_admit_def Let_def)
  qed
  then have free: "\<forall>s \<in> set (g_media_sessions ?g). live s \<longrightarrow> ms_sn s \<noteq> sn"
    and n: "find_active_session_for_sn sn ?g = None" using find_active_None [OF sn(1)] by blast+
  obtain a b where "start_new svc sid op sn dev mpin a b ttl lb rq ?g = ((201, Session s), g')"
    using r n by (auto simp: start_admit_def Let_def split: option.splits)
  then show ?thesis
    by (rule start_new_created [OF sessions_le_ok [OF le ok(1)] expire_routes_ok [OF ok(2)] new' sid sn(2) free])
qed

lemma start_existing_not_created: "start_existing svc i op sn ttl lb rq g = (Some (c, a), g') \<Longrightarrow> c \<noteq> 201"
  by (auto simp: start_existing_def Let_def split: if_splits prod.splits)

text \<open>
  C28: what a start promises with its answer 201, on a table in order and a name that did not fail
  before. The session is in the table, active, under the name and for the device of the request; its
  route leads to its ports; its time to live is between one second and two hours; and when the
  request named the second at which the lease ends, renewal time and time to live add up to it.
\<close>

theorem start_created_promises:
  assumes "session_run svc g" "routes_ok g" "\<not> retries_failed body g"
    and "handle_media_session_start svc body g = ((201, Session s), g')"
  shows "s \<in> set (g_media_sessions g') \<and> ms_state s = MEDIA_STATE_ACTIVE
    \<and> session_id s = text_member body ''session_id'' 64 \<and> ms_sn s = text_member body ''sn'' 128
    \<and> route_map g' (ms_sn s) = Some (ms_rtp_port s, ms_rtcp_port s)
    \<and> 0 < ttl_sec s \<and> ttl_sec s \<le> 7200
    \<and> (json_find_key body ''lease_expires_at'' = Some p \<and> strtol p = Some (e, rest, err)
        \<longrightarrow> renewed_at s + ttl_sec s = e)"
proof -
  define sid where "sid = text_member body ''session_id'' 64"
  define sn where "sn = text_member body ''sn'' 128"
  have len: "length sid < 64" "length sn < 128" by (simp_all add: sid_def sn_def text_member_short)
  note ok = session_run_ok [OF assms(1)]
  obtain rq g1 where t: "ask (time_now svc) g = (rq, g1)" by fastforce
  note g1 = ask_result [OF t]
  have ne: "body \<noteq> []" "sid \<noteq> []" "sn \<noteq> []"
    using assms(4) by (auto simp: handle_media_session_start_def Let_def split: if_splits simp flip: sid_def sn_def)
  note defs = handle_media_session_start_def Let_def t ne
  obtain ttl lb where lease: "media_lease_ttl body rq (clamp_ttl (int_member body ''ttl_sec'' 600)) = Some (ttl, lb)"
    using assms(4) by (auto simp: defs split: option.splits prod.splits simp flip: sid_def sn_def)
  have None: "find_session_by_id sid g1 = None"
  proof (cases "find_session_by_id sid g1")
    case (Some i)
    let ?g2 = "expire_media_session svc (Some i) rq g1" and ?op = "text_member body ''operation_id'' 64"
    obtain a g3 where ex: "start_existing svc i ?op sn ttl lb rq ?g2 = (a, g3)" by fastforce
    have "a \<noteq> None"
      using existing_answered [OF _ Some, of svc ?op sn ttl lb rq rq] ok assms(3) g1 ex
      by (simp add: retries_failed_def flip: sid_def)
    then obtain c z where "a = Some (c, z)" by (cases a) auto
    then show ?thesis
      using assms(4) ex start_existing_not_created [of svc i ?op sn ttl lb rq ?g2 c z g3] Some lease
      by (simp add: defs flip: sid_def sn_def)
  qed
  then have new: "sid \<notin> session_id ` set (g_media_sessions g1)" using find_session_None [OF ne(2)] by blast
  have rok: "routes_ok g1" using assms(2) g1 by (simp add: routes_ok_def)
  have "started_well sid sn ttl lb rq s g'"
    using assms(4) None lease ok g1
    by (intro start_admit_created [OF _ rok new ne(2) len(1) ne(3) len(2)]) (auto simp: defs simp flip: sid_def sn_def)
  moreover have "0 < clamp_ttl (int_member body ''ttl_sec'' 600)"
    using clamp_ttl_range(1) [of "int_member body ''ttl_sec'' 600"] by simp
  note lease_ttl_range [OF lease this clamp_ttl_range(2)]
  ultimately show ?thesis unfolding started_well_def sid_def sn_def by auto
qed

section \<open>Concrete runs\<close>

text \<open>A Janus without mountpoints that creates and destroys whatever it is asked to.\<close>

definition willing_janus :: "json \<Rightarrow> json option" where
  "willing_janus r =
     (let t = json_string_value (json_object_get r ''request'') in
      if t = Some ''info'' then Some (JObject [(''error_code'', JInt 455)])
      else if t = Some ''create'' then Some (JObject [(''streaming'', JString ''created'')])
      else Some (JObject [(''streaming'', JString ''destroyed'')]))"

definition start_request :: "string \<Rightarrow> string" where
  \<open>start_request sid = ''{"session_id":"'' @ sid @ ''","sn":"X","lease_expires_at":1060}''\<close>

theorem one_live_session_per_device_witness:
  "length (filter (\<lambda>s. live s \<and> ms_sn s = ''X'')
     (g_media_sessions (snd (handle_media_session_start (fixed_services willing_janus) (start_request ''A'')
       (media_redis_restore_one (fixed_services willing_janus) ''B'' [] ''X'' 0 1 6010 6011 [] 2 60 990 990 990
         (start_server 0 1000)))))) \<le> 1"
proof -
  let ?svc = "fixed_services willing_janus" and ?g = "start_server 0 (1000 :: int)"
  let ?r = "media_redis_restore_one ?svc ''B'' [] ''X'' 0 1 6010 6011 [] 2 60 990 990 990 ?g"
  have "restore_fits ''B'' ''X'' ?g" by (simp add: restore_fits_def start_server_def)
  then have "session_run ?svc ?r" by (intro session_run.restore session_run.boot)
  moreover have "\<not> retries_failed (start_request ''A'') ?r" by code_simp
  ultimately have "session_run ?svc (snd (handle_media_session_start ?svc (start_request ''A'') ?r))"
    by (intro session_run.start)
  from one_live_session_per_device [OF this, of "''X''" "''A''" "[]"] show ?thesis by blast
qed

theorem start_created_promises_witness:
  "\<exists>s g'. handle_media_session_start (fixed_services willing_janus) (start_request ''A'') (start_server 0 1000)
      = ((201, Session s), g')
    \<and> route_map g' ''X'' = Some (ms_rtp_port s, ms_rtcp_port s) \<and> renewed_at s + ttl_sec s = 1060"
proof -
  let ?svc = "fixed_services willing_janus" and ?b = "start_request ''A''" and ?g = "start_server 0 (1000 :: int)"
  have n: "\<not> retries_failed ?b ?g" by (simp add: retries_failed_def start_server_def)
  have r: "routes_ok ?g" by (simp add: routes_ok_def start_server_def)
  have "(case fst (handle_media_session_start ?svc ?b ?g) of (c, Session s) \<Rightarrow> c = 201 | _ \<Rightarrow> False)" by code_simp
  then obtain s where "fst (handle_media_session_start ?svc ?b ?g) = (201, Session s)"
    by (cases "fst (handle_media_session_start ?svc ?b ?g)") (auto split: reply.splits)
  then obtain g' where h: "handle_media_session_start ?svc ?b ?g = ((201, Session s), g')" by (metis prod.collapse)
  have "(case json_find_key ?b ''lease_expires_at'' of Some p \<Rightarrow> strtol p | None \<Rightarrow> None) = Some (1060, ''}'', False)"
    by code_simp
  then obtain p where p: "json_find_key ?b ''lease_expires_at'' = Some p" "strtol p = Some (1060, ''}'', False)"
    by (cases "json_find_key ?b ''lease_expires_at''") auto
  have sn: "text_member ?b ''sn'' 128 = ''X''" by code_simp
  from start_created_promises [OF session_run.boot r n h, of p 1060 "''}''" False] p sn h show ?thesis by auto
qed

text \<open>
  The restriction on restored records is needed. Two records of one device, both in their time to
  live, make two live sessions: the restore of the second finds no session of its name and does not
  look for the device.
\<close>

definition restored_twice :: "int server" where
  "restored_twice =
     (let restore = (\<lambda>sid. media_redis_restore_one (fixed_services willing_janus) sid [] ''X'' 0 1 6010 6011 [] 2 60 990 990 990)
      in restore ''B'' (restore ''A'' (start_server 0 1000)))"

lemma restore_doubles_device:
  "map (\<lambda>s. (session_id s, ms_sn s, ms_state s)) (g_media_sessions restored_twice)
     = [(''A'', ''X'', MEDIA_STATE_ACTIVE), (''B'', ''X'', MEDIA_STATE_ACTIVE)]"
  by code_simp

text \<open>
  The restriction to names that did not fail is needed. A first start of A fails at Janus and leaves
  its record; the second succeeds in a slot behind it. From then on every search for A finds the
  failed record: a stop marks that one, the live session never ends, neither by request nor by its
  time to live, and the device stays busy for everybody else.
\<close>

definition flaky_services :: "(int \<times> nat) services" where
  "flaky_services =
     \<lparr>time_now = \<lambda>w. (fst w, w), clock_monotonic = \<lambda>w. (Some (fst w, 0), w), clock_realtime = \<lambda>w. (Some (fst w, 0), w),
      boot_id_known = \<lambda>w. (True, w),
      mj_request = \<lambda>r (t, n). (if n = 0 then None else willing_janus r, (t, Suc n)),
      redis_save_session = \<lambda>s t w. w, redis_save_route = \<lambda>sn rtp rtcp m ttl w. w,
      redis_drop_session = \<lambda>sid sn m w. w, redis_owns_sn = \<lambda>sn w. (False, w), mv_persist = \<lambda>s w. w,
      rtcp_socket = \<lambda>w. ((True, True, True), w)\<rparr>"

definition retried_server :: "(int \<times> nat) server" where
  "retried_server =
     (let start = (\<lambda>g. snd (handle_media_session_start flaky_services (start_request ''A'') g)) in
      start (start (start_server 0 (1000, 0))))"

definition locked_server :: "(int \<times> nat) server" where
  "locked_server =
     (let g = snd (stop_media_session flaky_services ''A'' [] retried_server) in g\<lparr>world := (1050, 9)\<rparr>)"

lemma retried_states:
  "map (\<lambda>s. (session_id s, ms_state s)) (g_media_sessions retried_server)
     = [(''A'', MEDIA_STATE_FAILED), (''A'', MEDIA_STATE_ACTIVE)]"
  by code_simp

lemma locked_states:
  "map ms_state (g_media_sessions locked_server) = [MEDIA_STATE_STOPPED, MEDIA_STATE_ACTIVE]"
  by code_simp

lemma locked_not_expired:
  "map ms_state (g_media_sessions (expire_media_session flaky_services (Some 1) 90000 locked_server))
     = [MEDIA_STATE_STOPPED, MEDIA_STATE_ACTIVE]"
  by code_simp

lemma failed_start_locks_device:
  "fst (handle_media_session_start flaky_services (start_request ''B'') locked_server) = (409, Error ''session_busy'')"
  by code_simp

end
