(* ===== verification/Media_Reconcile.thy ===== *)
theory Media_Reconcile
  imports Media_Exclusion
begin

text \<open>
  Reconciliation of the ingress service, \<open>reconcile_resources\<close> of \<open>media_lifecycle.h\<close>: which routes
  a pass removes and which it keeps, and what it does to the connections.
\<close>

section \<open>Facts a pass does not change\<close>

lemma retarget_last_rtp [simp]: "last_rtp_time (retarget rtp rtcp c) = last_rtp_time c"
  by (simp add: retarget_def reset_feedback_def update_feedback_interest_def Let_def)

lemma delete_route_fresh:
  "rtp_is_fresh_for_sn sn now (snd (delete_route arg g)) = rtp_is_fresh_for_sn sn now g"
proof -
  have "list_ex (\<lambda>c. cl_sn c \<noteq> [] \<and> cl_sn c = sn \<and> 0 < last_rtp_time c
        \<and> now - last_rtp_time c \<le> L4MEDIA_RTP_FRESH_RECONCILE_SEC)
        (map (\<lambda>c. if cl_sn c = x then retarget rtp rtcp c else c) cs)
      = list_ex (\<lambda>c. cl_sn c \<noteq> [] \<and> cl_sn c = sn \<and> 0 < last_rtp_time c
        \<and> now - last_rtp_time c \<le> L4MEDIA_RTP_FRESH_RECONCILE_SEC) cs" for x rtp rtcp cs
    by (induction cs) auto
  then show ?thesis
    by (simp add: delete_route_def Let_def update_client_targets_for_sn_def rtp_is_fresh_for_sn_def split: option.splits)
qed

lemma same_client_facts:
  assumes "g_clients g' = g_clients g" "g_media_sessions g' = g_media_sessions g"
  shows "rtp_is_fresh_for_sn sn now g' = rtp_is_fresh_for_sn sn now g" "has_active_session g' sn = has_active_session g sn"
  using assms by (simp_all add: rtp_is_fresh_for_sn_def has_active_session_def)

text \<open>Deleting an entry by its own name removes that entry, when names are unique.\<close>

lemma delete_entry_routes:
  assumes "distinct (map re_sn (g_routes g))" "i < length (g_routes g)"
  shows "g_routes (snd (delete_route (EntrySn i) g)) = take i (g_routes g) @ drop (Suc i) (g_routes g)"
proof -
  have "first_index (\<lambda>r. re_sn r = re_sn (g_routes g ! i)) (g_routes g) = Some i"
    using assms nth_eq_iff_index_eq [OF assms(1)] by (intro first_index_eqI) auto
  then show ?thesis by (simp add: delete_route_def Let_def update_client_targets_for_sn_def)
qed

text \<open>A route is kept when it is static, or its device is in a session, still sends, or is owned elsewhere.\<close>

definition keep_route :: "(string \<Rightarrow> bool) \<Rightarrow> int \<Rightarrow> 'w server \<Rightarrow> route_entry \<Rightarrow> bool" where
  "keep_route owns now g r \<longleftrightarrow> is_static r \<or> has_active_session g (re_sn r)
     \<or> rtp_is_fresh_for_sn (re_sn r) now g \<or> owns (re_sn r)"

lemma drop_at: "i < length xs \<Longrightarrow> drop i xs = xs ! i # drop (Suc i) xs"
  by (rule Cons_nth_drop_Suc [symmetric])

text \<open>What the loop does from an index on, for a Redis whose answers depend on the name only.\<close>

definition pass_ok :: "(string \<Rightarrow> bool) \<Rightarrow> int \<Rightarrow> nat \<Rightarrow> nat \<times> 'w server \<Rightarrow> nat \<times> 'w server \<Rightarrow> bool" where
  "pass_ok owns now i st st' \<longleftrightarrow>
     (let rs = g_routes (snd st); kept = filter (keep_route owns now (snd st)) (drop i rs) in
      g_routes (snd st') = take i rs @ kept \<and> fst st' + length kept = fst st + (length rs - i))"

lemma keep_route_eq:
  assumes "g_media_sessions g' = g_media_sessions g"
    "\<And>sn. rtp_is_fresh_for_sn sn now g' = rtp_is_fresh_for_sn sn now g"
  shows "keep_route owns now g' = keep_route owns now g"
  using assms by (auto simp: keep_route_def has_active_session_def)

lemma reconcile_routes_pass:
  "(\<And>sn w. fst (redis_owns_sn svc sn w) = owns sn) \<Longrightarrow> distinct (map re_sn (g_routes (snd st))) \<Longrightarrow>
    pass_ok owns now i st (reconcile_routes svc now i st)"
proof (induction svc now i st rule: reconcile_routes.induct)
  case (1 svc now i cleaned g)
  let ?rs = "g_routes g"
  let ?r = "?rs ! i"
  show ?case
  proof (cases "i < length ?rs")
    case False
    then show ?thesis by (subst reconcile_routes.simps) (simp add: pass_ok_def)
  next
    case i: True
    then have d: "drop i ?rs = ?r # drop (Suc i) ?rs" by (rule drop_at)
    obtain owned g1 where a: "ask (redis_owns_sn svc (re_sn ?r)) g = (owned, g1)" by fastforce
    have owned: "owned = owns (re_sn ?r)"
      using a 1(4) [of "re_sn ?r" "world g"] by (auto simp: ask_def split: prod.splits)
    note g1 = ask_result [OF a]
    have k1: "keep_route owns now g1 = keep_route owns now g"
      using g1 by (intro keep_route_eq) (simp_all add: rtp_is_fresh_for_sn_def)
    let ?keep = "is_static ?r \<or> has_active_session g (re_sn ?r) \<or> rtp_is_fresh_for_sn (re_sn ?r) now g"
    consider (keep) ?keep | (owned) "\<not> ?keep" owned | (gone) "\<not> ?keep" "\<not> owned" by blast
    then show ?thesis
    proof cases
      case keep
      then have "pass_ok owns now (Suc i) (cleaned, g) (reconcile_routes svc now (Suc i) (cleaned, g))"
        using 1(1) i 1(4,5) by simp
      moreover have "reconcile_routes svc now i (cleaned, g) = reconcile_routes svc now (Suc i) (cleaned, g)"
        using i keep by (subst reconcile_routes.simps) (simp add: Let_def)
      moreover have "keep_route owns now g ?r" using keep by (auto simp: keep_route_def)
      ultimately show ?thesis using i d by (simp add: pass_ok_def Let_def take_Suc_conv_app_nth)
    next
      case owned
      then have "pass_ok owns now (Suc i) (cleaned, g1) (reconcile_routes svc now (Suc i) (cleaned, g1))"
        using 1(2) i a 1(4,5) g1(1) by simp
      moreover have "reconcile_routes svc now i (cleaned, g) = reconcile_routes svc now (Suc i) (cleaned, g1)"
        using i owned a by (subst reconcile_routes.simps) (simp add: Let_def)
      moreover have "keep_route owns now g ?r" using owned \<open>owned = owns (re_sn ?r)\<close> by (simp add: keep_route_def)
      ultimately show ?thesis using i d g1(1) k1 by (simp add: pass_ok_def Let_def take_Suc_conv_app_nth)
    next
      case gone
      let ?g2 = "snd (delete_route (EntrySn i) g1)"
      let ?g3 = "?g2\<lparr>g_metric_orphans_routes := g_metric_orphans_routes ?g2 + 1\<rparr>"
      have r3: "g_routes ?g3 = take i ?rs @ drop (Suc i) ?rs"
        using delete_entry_routes [of g1 i] 1(5) i g1(1) by simp
      have k3: "keep_route owns now ?g3 = keep_route owns now g"
      proof -
        have "keep_route owns now ?g3 = keep_route owns now g1"
        proof (rule keep_route_eq)
          fix sn
          have "rtp_is_fresh_for_sn sn now ?g3 = rtp_is_fresh_for_sn sn now ?g2" by (simp add: rtp_is_fresh_for_sn_def)
          then show "rtp_is_fresh_for_sn sn now ?g3 = rtp_is_fresh_for_sn sn now g1" by (simp add: delete_route_fresh)
        qed simp
        with k1 show ?thesis by simp
      qed
      have "distinct (map re_sn (g_routes ?g3))"
        using 1(5) i id_take_nth_drop [of i "map re_sn ?rs"] unfolding r3 by (simp add: take_map drop_map)
      then have "pass_ok owns now i (cleaned + 1, ?g3) (reconcile_routes svc now i (cleaned + 1, ?g3))"
        using 1(3) i gone a 1(4) by simp
      moreover have "reconcile_routes svc now i (cleaned, g) = reconcile_routes svc now i (cleaned + 1, ?g3)"
        using i gone a by (subst reconcile_routes.simps) (simp add: Let_def)
      moreover have "\<not> keep_route owns now g ?r" using gone owned by (simp add: keep_route_def)
      ultimately show ?thesis using i d r3 k3 by (simp add: pass_ok_def Let_def)
    qed
  qed
qed

lemma reconcile_mountpoint_tables:
  "g_routes (snd (reconcile_mountpoint svc now mid st)) = g_routes (snd st)
   \<and> g_clients (snd (reconcile_mountpoint svc now mid st)) = g_clients (snd st)"
proof (cases st)
  case (Pair c g)
  have d: "g_routes g2 = g_routes g1" "g_clients g2 = g_clients g1"
    if "janus_destroy_mountpoint svc mid g1 = (r, g2)" for r g1 g2
    using same_tables_fields [OF janus_destroy_same [OF that]] by simp_all
  show ?thesis
    using Pair by (auto simp: reconcile_mountpoint_def ask_result d split: prod.splits option.splits)
qed

lemma reconcile_mountpoints_tables:
  "g_routes (snd (foldl (\<lambda>st mid. reconcile_mountpoint svc now mid st) st ids)) = g_routes (snd st)
   \<and> g_clients (snd (foldl (\<lambda>st mid. reconcile_mountpoint svc now mid st) st ids)) = g_clients (snd st)"
  by (induction ids arbitrary: st) (simp_all add: reconcile_mountpoint_tables)

text \<open>
  C31: a reconciliation pass removes exactly the orphan routes. With unique names in the table, and
  a Redis whose answers depend on the name asked for, the routes left are those that are static,
  belong to a device with a live session, saw RTP within the last twenty seconds, or are owned in
  Redis, in their order; the report counts the others; and no session is touched.
\<close>

theorem reconcile_removes_orphans:
  assumes "routes_ok g" "\<And>sn w. fst (redis_owns_sn svc sn w) = owns sn"
    and "reconcile_resources svc g = (report, g')"
  shows "g_routes g' = filter (keep_route owns (reconciled_at report) g) (g_routes g)
    \<and> orphans_cleaned_routes report + length (g_routes g') = length (g_routes g)
    \<and> g_media_sessions g' = g_media_sessions g"
proof -
  obtain now g1 where 1: "ask (time_now svc) g = (now, g1)" by fastforce
  obtain l g2 where 2: "janus_list_mountpoints svc 256 g1 = (l, g2)" by fastforce
  have g2: "g_routes g2 = g_routes g" "g_clients g2 = g_clients g" "g_media_sessions g2 = g_media_sessions g"
    using ask_result [OF 1] same_tables_fields [OF janus_list_same [OF 2]] by simp_all
  obtain m g3 where 3: "(case l of None \<Rightarrow> (0, g2)
      | Some ids \<Rightarrow> foldl (\<lambda>st mid. reconcile_mountpoint svc now mid st) (0, g2) ids) = (m, g3)" by fastforce
  have g3: "g_routes g3 = g_routes g" "g_clients g3 = g_clients g" "g_media_sessions g3 = g_media_sessions g"
    using 3 g2 reconcile_mountpoints_tables [of svc now "(0, g2)"] reconcile_mountpoints_sessions [of svc now "(0, g2)"]
    by (cases l; auto; metis snd_conv)+
  obtain n g4 where 4: "reconcile_routes svc now 0 (0, g3) = (n, g4)" by fastforce
  have k: "keep_route owns now g3 = keep_route owns now g"
    using g3 by (intro keep_route_eq) (simp_all add: rtp_is_fresh_for_sn_def)
  have "pass_ok owns now 0 (0, g3) (n, g4)"
    using reconcile_routes_pass [of svc owns "(0, g3)" now 0] assms(1,2) g3(1) 4 by (simp add: routes_ok_def)
  moreover have "g' = g4" "orphans_cleaned_routes report = n" "reconciled_at report = now"
    using assms(3) 1 2 3 4 by (auto simp: reconcile_resources_def)
  ultimately show ?thesis
    using g3 k reconcile_ends [of svc g] assms(3) by (simp add: pass_ok_def Let_def)
qed

text \<open>
  The connections are another matter: the pass hands \<open>delete_route\<close> the name inside the table, so
  what it cuts is the connection of the next route. Here the orphan A is removed; B, whose device
  has just sent and whose route stays, loses its ports.
\<close>

definition orphan_and_sender :: "int server" where
  "orphan_and_sender = (start_server 0 1000)
     \<lparr>g_routes := [\<lparr>re_sn = ''A'', re_rtp_port = 6010, re_rtcp_port = 6011, is_static = False\<rparr>,
                  \<lparr>re_sn = ''B'', re_rtp_port = 6012, re_rtcp_port = 6013, is_static = False\<rparr>],
      g_clients := [(new_client 1 0 0)\<lparr>cl_state := STATE_FRAMING, cl_sn := ''B'', cl_rtp_port := 6012,
                       cl_rtcp_port := 6013, last_rtp_time := 999\<rparr>]\<rparr>"

theorem reconcile_removes_orphans_witness:
  "map re_sn (g_routes (snd (reconcile_resources (fixed_services willing_janus) orphan_and_sender))) = [''B'']"
proof -
  let ?svc = "fixed_services willing_janus" and ?g = "orphan_and_sender"
  obtain rep g' where r: "reconcile_resources ?svc ?g = (rep, g')" by fastforce
  have ok: "routes_ok ?g" by (simp add: routes_ok_def orphan_and_sender_def)
  have o: "fst (redis_owns_sn ?svc sn w) = False" for sn w by (simp add: fixed_services_def)
  have "reconciled_at (fst (reconcile_resources ?svc ?g)) = 1000" by code_simp
  then have t: "reconciled_at rep = 1000" using r by simp
  have "filter (keep_route (\<lambda>_. False) 1000 ?g) (g_routes ?g) = [g_routes ?g ! 1]"
    by (simp add: keep_route_def has_active_session_def rtp_is_fresh_for_sn_def orphan_and_sender_def
        start_server_def new_client_def)
  then show ?thesis
    using reconcile_removes_orphans [OF ok o r] r t by (simp add: orphan_and_sender_def)
qed

lemma reconcile_cuts_neighbour:
  "map cl_rtp_port (g_clients (snd (reconcile_resources (fixed_services willing_janus) orphan_and_sender))) = [0]"
  by code_simp

end
