(* ===== verification/Ingress_Framing.thy ===== *)
theory Ingress_Framing
  imports Media_Exclusion
begin

text \<open>
  The connections of the ingress service, \<open>l4media/ingress/src/l4media_ingress.c\<close>: accepting and
  removing them, the preamble that names the device, and the frames of RTP and RTCP that are
  forwarded to Janus. A connection is referred to by its epoch, as the events of the service do.
  It is shown that the media forwarded does not depend on how the byte stream is cut into reads,
  and that the receive buffer never fills up.
\<close>

section \<open>Definitions of the source\<close>

abbreviation RX_BUFFER_SIZE :: nat where "RX_BUFFER_SIZE \<equiv> 131072"
abbreviation CLIENT_IDLE_TIMEOUT_SEC :: int where "CLIENT_IDLE_TIMEOUT_SEC \<equiv> 120"
abbreviation L4RTP_FRAME_RTP :: u8 where "L4RTP_FRAME_RTP \<equiv> 1"
abbreviation L4RTP_FRAME_KEEPALIVE :: u8 where "L4RTP_FRAME_KEEPALIVE \<equiv> 3"

definition L4RTP_MAGIC :: bytes where "L4RTP_MAGIC = [0x4C, 0x34, 0x52, 0x54]"

text \<open>The connection behind a pointer, and an assignment through it.\<close>

definition client_at :: "u64 \<Rightarrow> 'w server \<Rightarrow> ingress_client" where
  "client_at ep g = (case find (\<lambda>c. epoch c = ep) (g_clients g) of Some c \<Rightarrow> c | None \<Rightarrow> new_client ep 0 0)"

definition set_client :: "u64 \<Rightarrow> (ingress_client \<Rightarrow> ingress_client) \<Rightarrow> 'w server \<Rightarrow> 'w server" where
  "set_client ep f g = g\<lparr>g_clients := map (\<lambda>c. if epoch c = ep then f c else c) (g_clients g)\<rparr>"

definition find_event_client :: "u64 \<Rightarrow> 'w server \<Rightarrow> ingress_client option" where
  "find_event_client tag g =
     find (\<lambda>c. tag AND 3 = 2 \<and> epoch c = drop_bit 2 tag
             \<or> tag AND 3 = 3 \<and> rtcp_open c \<and> rtcp_generation c = drop_bit 2 tag) (g_clients g)"

definition ensure_rtcp_socket :: "'w services \<Rightarrow> u64 \<Rightarrow> 'w server \<Rightarrow> bool \<times> 'w server" where
  "ensure_rtcp_socket svc ep g =
     (if rtcp_open (client_at ep g) then (True, g)
      else if cl_rtcp_port (client_at ep g) \<le> 0 then (False, g)
      else case ask (rtcp_socket svc) g of ((made, connected, polled), g) \<Rightarrow>
        if \<not> made then (False, g)
        else if \<not> connected then (False, g)
        else
          let g = set_client ep (\<lambda>c. c\<lparr>rtcp_generation := g_next_rtcp_generation g\<rparr>) g;
              g = g\<lparr>g_next_rtcp_generation := g_next_rtcp_generation g + 1\<rparr> in
          if \<not> polled then (False, g)
          else (True, set_client ep (\<lambda>c. c\<lparr>rtcp_open := True\<rparr>) g))"

definition camera_connection_current :: "'w services \<Rightarrow> u64 \<Rightarrow> 'w server \<Rightarrow> bool \<times> 'w server" where
  "camera_connection_current svc ep g =
     (let c = client_at ep g in
      if camera_route_revoked c then (False, g)
      else if camera_route_generation c = 0 then (True, g)
      else
        let owner = find_active_session_for_sn (cl_sn c) g;
            g = (case owner of
                   Some i \<Rightarrow>
                     if contract_version (g_media_sessions g ! i) = 3
                     then (case ask (time_now svc) g of (now, g) \<Rightarrow> expire_media_session svc owner now g)
                     else g
                 | None \<Rightarrow> g);
            current = (case owner of
                         None \<Rightarrow> False
                       | Some i \<Rightarrow>
                           let s = g_media_sessions g ! i in
                           live s \<and> camera_source s \<and> route_generation s = camera_route_generation c
                           \<and> minimum_camera_connection_epoch s \<le> epoch c) in
        (current, if current then g else set_client ep (\<lambda>c. c\<lparr>camera_route_revoked := True\<rparr>) g))"

definition ingress_client_idle :: "'w services \<Rightarrow> u64 \<Rightarrow> int \<Rightarrow> 'w server \<Rightarrow> bool \<times> 'w server" where
  "ingress_client_idle svc ep wall g =
     (let c = client_at ep g in
      case find_active_session_for_sn (cl_sn c) g of
        Some i \<Rightarrow>
          if contract_version (g_media_sessions g ! i) = 3 then
            (case media_monotonic_ms svc g of
               (None, g) \<Rightarrow> (True, g)
             | (Some now, g) \<Rightarrow>
                 (now < last_activity_monotonic_ms c \<or> 120000 < now - last_activity_monotonic_ms c, g))
          else (CLIENT_IDLE_TIMEOUT_SEC < wall - last_activity c, g)
      | None \<Rightarrow> (CLIENT_IDLE_TIMEOUT_SEC < wall - last_activity c, g))"

text \<open>\<open>allocated\<close> and \<open>polled\<close> are the answers of \<open>calloc\<close> and \<open>epoll_ctl\<close>.\<close>

definition add_ingress_client :: "'w services \<Rightarrow> bool \<Rightarrow> bool \<Rightarrow> 'w server \<Rightarrow> u64 option \<times> 'w server" where
  "add_ingress_client svc allocated polled g =
     (if g_next_epoch g = 0 \<or> drop_bit 2 (- 1) < g_next_epoch g then (None, g)
      else if MAX_CLIENTS \<le> length (g_clients g) then (None, g)
      else if \<not> allocated then (None, g)
      else
        let ep = g_next_epoch g; g = g\<lparr>g_next_epoch := ep + 1\<rparr> in
        case ask (time_now svc) g of (now, g) \<Rightarrow>
        case media_monotonic_ms svc g of (mono_ms, g) \<Rightarrow>
        if \<not> polled then (None, g)
        else (Some ep, g\<lparr>g_clients := g_clients g
                @ [new_client ep now (case mono_ms of None \<Rightarrow> 0 | Some ms \<Rightarrow> ms)]\<rparr>))"

definition remove_ingress_client :: "'w services \<Rightarrow> u64 \<Rightarrow> 'w server \<Rightarrow> 'w server" where
  "remove_ingress_client svc ep g =
     (case ask (time_now svc) g of (_, g) \<Rightarrow> g\<lparr>g_clients := filter (\<lambda>c. epoch c \<noteq> ep) (g_clients g)\<rparr>)"

text \<open>The datagrams sent to Janus, with the port they go to.\<close>

datatype datagram = RtpOut int bytes | RtcpOut int bytes

text \<open>One complete frame of an accepted connection.\<close>

definition take_frame :: "'w services \<Rightarrow> u64 \<Rightarrow> u8 \<Rightarrow> bytes \<Rightarrow> 'w server \<Rightarrow> datagram list \<times> 'w server" where
  "take_frame svc ep kind payload g =
     (if kind = L4RTP_FRAME_RTP then
        case ask (time_now svc) g of (now, g) \<Rightarrow>
        case media_monotonic_ms svc (set_client ep (\<lambda>c. c\<lparr>last_rtp_time := now\<rparr>) g) of (mono_ms, g) \<Rightarrow>
        let g = (case mono_ms of None \<Rightarrow> g | Some ms \<Rightarrow> set_client ep (\<lambda>c. c\<lparr>last_rtp_monotonic_ms := ms\<rparr>) g);
            c = client_at ep g in
        if 0 < cl_rtp_port c then
          let g = set_client ep (\<lambda>c. c\<lparr>rtp_packets := rtp_packets c + 1,
                    total_bytes := total_bytes c + of_nat (length payload)\<rparr>) g in
          ([RtpOut (rtp_target c) payload],
           case find_active_session_for_sn (cl_sn c) g of
             None \<Rightarrow> g
           | Some i \<Rightarrow>
               let s = g_media_sessions g ! i in
               if (contract_version s = 2 \<or> contract_version s = 3) \<and> ms_state s = MEDIA_STATE_STARTING
               then let g = set_session i (\<lambda>s. s\<lparr>ms_state := MEDIA_STATE_ACTIVE\<rparr>) g in
                    tell (mv_persist svc (g_media_sessions g ! i)) g
               else g)
        else ([], set_client ep (\<lambda>c. c\<lparr>unrouted_packets := unrouted_packets c + 1\<rparr>) g)
      else if kind = L4RTP_FRAME_RTCP then
        case ask (time_now svc) g of (now, g) \<Rightarrow>
        let g = set_client ep (\<lambda>c. c\<lparr>last_rtcp_time := now\<rparr>) g; c = client_at ep g in
        if 0 < cl_rtcp_port c then
          case ensure_rtcp_socket svc ep g of (ok, g) \<Rightarrow>
          (if ok then [RtcpOut (rtcp_target c) payload] else [],
           set_client ep (\<lambda>c. c\<lparr>rtcp_packets := rtcp_packets c + 1,
             total_bytes := total_bytes c + of_nat (length payload)\<rparr>) g)
        else ([], set_client ep (\<lambda>c. c\<lparr>unrouted_packets := unrouted_packets c + 1\<rparr>) g)
      else if kind = L4RTP_FRAME_KEEPALIVE then
        ([], set_client ep (\<lambda>c. c\<lparr>keepalive_packets := keepalive_packets c + 1\<rparr>) g)
      else ([], g))"

text \<open>
  The loop over the frames in the buffer; \<open>rest\<close> is what lies behind \<open>off\<close>. The results are whether
  the connection goes on, the bytes left over and the datagrams sent.
\<close>

function frame_loop ::
  "'w services \<Rightarrow> u64 \<Rightarrow> bytes \<Rightarrow> 'w server \<Rightarrow> bool \<times> bytes \<times> datagram list \<times> 'w server" where
  "frame_loop svc ep rest g =
     (if length rest < 4 then (True, rest, [], g)
      else
        let payload_len = unat (rd_be16 (rest ! 2) (rest ! 3)) in
        if MAX_RTP_PAYLOAD_SIZE < payload_len then (False, rest, [], remove_ingress_client svc ep g)
        else if length rest < 4 + payload_len then (True, rest, [], g)
        else case camera_connection_current svc ep g of
          (False, g) \<Rightarrow> (False, rest, [], remove_ingress_client svc ep g)
        | (True, g) \<Rightarrow>
            let owner = find_active_session_for_sn (cl_sn (client_at ep g)) g;
                g = (case owner of
                       Some i \<Rightarrow>
                         if contract_version (g_media_sessions g ! i) = 3
                         then (case ask (time_now svc) g of (now, g) \<Rightarrow> expire_media_session svc owner now g)
                         else g
                     | None \<Rightarrow> g) in
            case take_frame svc ep (rest ! 0) (slice_at 4 payload_len rest) g of
              (out, g) \<Rightarrow>
                (case frame_loop svc ep (drop (4 + payload_len) rest) g of
                   (alive, left, outs, g) \<Rightarrow> (alive, left, out @ outs, g)))"
  by pat_completeness auto
termination
  by (relation "measure (\<lambda>(svc, ep, rest, g). length rest)") auto

declare frame_loop.simps [simp del]

text \<open>The answer of one \<open>recv\<close>; a reader that has no more answers would block.\<close>

datatype recv_result = Data bytes | RecvError | PeerClosed

datatype preamble_result = More_data | Rejected | Accepted

definition preamble :: "'w services \<Rightarrow> u64 \<Rightarrow> 'w server \<Rightarrow> preamble_result \<times> 'w server" where
  "preamble svc ep g =
     (let buf = rx_buf (client_at ep g) in
      if length buf < 8 then (More_data, g)
      else if take 4 buf \<noteq> L4RTP_MAGIC \<or> buf ! 4 \<noteq> 1 then (Rejected, remove_ingress_client svc ep g)
      else
        let sn_len = unat (rd_be16 (buf ! 6) (buf ! 7)) in
        if sn_len = 0 \<or> 127 < sn_len then (Rejected, remove_ingress_client svc ep g)
        else if length buf < 8 + sn_len then (More_data, g)
        else
          let sn = map (\<lambda>b. char_of (unat b)) (takeWhile (\<lambda>b. b \<noteq> 0) (slice_at 8 sn_len buf));
              g = set_client ep (\<lambda>c. c\<lparr>cl_sn := sn\<rparr>) g;
              too_old = (\<lambda>g. case find_active_session_for_sn sn g of
                           None \<Rightarrow> False
                         | Some i \<Rightarrow> camera_source (g_media_sessions g ! i)
                             \<and> ep < minimum_camera_connection_epoch (g_media_sessions g ! i)) in
          if too_old g then (Rejected, remove_ingress_client svc ep g)
          else
            let g = (case find (\<lambda>c. epoch c \<noteq> ep \<and> cl_sn c = sn) (g_clients g) of
                       None \<Rightarrow> g
                     | Some old \<Rightarrow> remove_ingress_client svc (epoch old) g);
                owner = find_active_session_for_sn sn g;
                g = set_client ep (\<lambda>c. c\<lparr>keyframe_feedback_interval_ms :=
                      (case owner of None \<Rightarrow> 0
                       | Some i \<Rightarrow> if contract_version (g_media_sessions g ! i) = 2
                                     \<or> contract_version (g_media_sessions g ! i) = 3 then 500 else 0)\<rparr>) g in
            if too_old g then (Rejected, remove_ingress_client svc ep g)
            else
              let g = (case owner of
                         None \<Rightarrow> g
                       | Some i \<Rightarrow>
                           if camera_source (g_media_sessions g ! i)
                           then set_client ep (\<lambda>c. c\<lparr>camera_route_generation := route_generation (g_media_sessions g ! i)\<rparr>) g
                           else g);
                  (rtp, rtcp) = (case find_route sn g of None \<Rightarrow> (0, 0) | Some r \<Rightarrow> ports r);
                  g = set_client ep (\<lambda>c. c\<lparr>cl_rtp_port := rtp, cl_rtcp_port := rtcp, rtp_target := rtp mod 65536,
                        rtcp_target := rtcp mod 65536, rx_buf := drop (8 + sn_len) buf, cl_state := STATE_FRAMING\<rparr>) g in
              (Accepted, g))"

text \<open>The frames in the buffer of a connection that is past its preamble.\<close>

definition framing :: "'w services \<Rightarrow> u64 \<Rightarrow> 'w server \<Rightarrow> bool \<times> datagram list \<times> 'w server" where
  "framing svc ep g =
     (case frame_loop svc ep (rx_buf (client_at ep g)) g of
        (False, rest, outs, g) \<Rightarrow> (False, outs, g)
      | (True, rest, outs, g) \<Rightarrow> (True, outs, set_client ep (\<lambda>c. c\<lparr>rx_buf := rest\<rparr>) g))"

fun receive_loop :: "'w services \<Rightarrow> u64 \<Rightarrow> recv_result list \<Rightarrow> 'w server \<Rightarrow> bool \<times> datagram list \<times> 'w server" where
  "receive_loop svc ep [] g =
     (if RX_BUFFER_SIZE \<le> length (rx_buf (client_at ep g))
      then (False, [], remove_ingress_client svc ep g) else (True, [], g))"
| "receive_loop svc ep (r # rs) g =
     (if RX_BUFFER_SIZE \<le> length (rx_buf (client_at ep g)) then (False, [], remove_ingress_client svc ep g)
      else case r of
        RecvError \<Rightarrow> (False, [], remove_ingress_client svc ep g)
      | PeerClosed \<Rightarrow> (False, [], remove_ingress_client svc ep g)
      | Data bs \<Rightarrow>
          let g = set_client ep (\<lambda>c. c\<lparr>rx_buf := rx_buf c @ bs\<rparr>) g in
          case ask (time_now svc) g of (now, g) \<Rightarrow>
          case media_monotonic_ms svc (set_client ep (\<lambda>c. c\<lparr>last_activity := now\<rparr>) g) of (mono_ms, g) \<Rightarrow>
          let g = (case mono_ms of None \<Rightarrow> g | Some ms \<Rightarrow> set_client ep (\<lambda>c. c\<lparr>last_activity_monotonic_ms := ms\<rparr>) g) in
          case (if cl_state (client_at ep g) = STATE_PREAMBLE then preamble svc ep g else (Accepted, g)) of
            (Rejected, g) \<Rightarrow> (False, [], g)
          | (More_data, g) \<Rightarrow> receive_loop svc ep rs g
          | (Accepted, g) \<Rightarrow>
              (case framing svc ep g of
                 (False, outs, g) \<Rightarrow> (False, outs, g)
               | (True, outs, g) \<Rightarrow>
                   (case receive_loop svc ep rs g of (alive, outs', g) \<Rightarrow> (alive, outs @ outs', g))))"

definition process_ingress_data ::
  "'w services \<Rightarrow> u64 \<Rightarrow> recv_result list \<Rightarrow> 'w server \<Rightarrow> bool \<times> datagram list \<times> 'w server" where
  "process_ingress_data svc ep recvs g =
     (case camera_connection_current svc ep g of
        (False, g) \<Rightarrow> (False, [], remove_ingress_client svc ep g)
      | (True, g) \<Rightarrow> receive_loop svc ep recvs g)"

section \<open>The frames of a byte stream\<close>

text \<open>
  The reference: the complete frames of a whole stream, the bytes behind them, and whether no
  length field was beyond the limit.
\<close>

function frames :: "bytes \<Rightarrow> (u8 \<times> bytes) list \<times> bytes \<times> bool" where
  "frames bs =
     (if length bs < 4 then ([], bs, True)
      else let n = unat (rd_be16 (bs ! 2) (bs ! 3)) in
        if MAX_RTP_PAYLOAD_SIZE < n then ([], bs, False)
        else if length bs < 4 + n then ([], bs, True)
        else case frames (drop (4 + n) bs) of (fs, left, ok) \<Rightarrow> ((bs ! 0, slice_at 4 n bs) # fs, left, ok))"
  by auto
termination
  by (relation "measure length") auto

declare frames.simps [simp del]

lemma frames_left: "frames bs = (fs, left, True) \<Longrightarrow> frames left = ([], left, True) \<and> length left < 65511"
proof (induction bs arbitrary: fs rule: frames.induct)
  case (1 bs)
  let ?n = "unat (rd_be16 (bs ! 2) (bs ! 3))"
  show ?case
  proof (cases "4 \<le> length bs \<and> ?n \<le> MAX_RTP_PAYLOAD_SIZE \<and> 4 + ?n \<le> length bs")
    case True
    then obtain fs' where "frames (drop (4 + ?n) bs) = (fs', left, True)"
      using 1(2) by (subst (asm) frames.simps) (auto simp: Let_def split: prod.splits)
    then show ?thesis using 1(1) [OF _ refl] True by simp
  next
    case False
    then have "left = bs" "length bs < 4 \<or> ?n \<le> MAX_RTP_PAYLOAD_SIZE \<and> length bs < 4 + ?n"
      using 1(2) by (auto simp: frames.simps [of bs] Let_def split: if_splits prod.splits)
    moreover from this(2) have "frames bs = ([], bs, True)" by (subst frames.simps) (auto simp: Let_def)
    ultimately show ?thesis by auto
  qed
qed

lemma frames_append:
  "frames a = (fs, left, ok) \<Longrightarrow>
    frames (a @ b) = (if ok then (case frames (left @ b) of (fs', left', ok') \<Rightarrow> (fs @ fs', left', ok')) else (fs, left @ b, False))"
proof (induction a arbitrary: fs rule: frames.induct)
  case (1 a)
  let ?n = "unat (rd_be16 (a ! 2) (a ! 3))"
  show ?case
  proof (cases "4 \<le> length a \<and> ?n \<le> MAX_RTP_PAYLOAD_SIZE \<and> 4 + ?n \<le> length a")
    case True
    then obtain fs' where f: "frames (drop (4 + ?n) a) = (fs', left, ok)" "fs = (a ! 0, slice_at 4 ?n a) # fs'"
      using 1(2) by (subst (asm) frames.simps) (auto simp: Let_def split: prod.splits)
    have h: "(a @ b) ! 0 = a ! 0" "(a @ b) ! 2 = a ! 2" "(a @ b) ! 3 = a ! 3"
      using True by (auto simp: nth_append)
    have "slice_at 4 ?n (a @ b) = slice_at 4 ?n a" using True by (simp add: slice_at_def)
    moreover have "drop (4 + ?n) (a @ b) = drop (4 + ?n) a @ b" using True by simp
    ultimately show ?thesis
      using 1(1) [OF _ refl _ _ f(1)] True f h
      by (simp add: frames.simps [of "a @ b"] Let_def split: prod.splits if_splits)
  next
    case False
    show ?thesis
    proof (cases ok)
      case True
      then have "left = a" "fs = []" using False 1(2)
        by (auto simp: frames.simps [of a] Let_def split: if_splits prod.splits)
      then show ?thesis using True by (simp split: prod.splits)
    next
      case bad: False
      then have "4 \<le> length a" "MAX_RTP_PAYLOAD_SIZE < ?n" "left = a" "fs = []" using False 1(2)
        by (auto simp: frames.simps [of a] Let_def split: if_splits prod.splits)
      moreover from this(1) have "(a @ b) ! 2 = a ! 2" "(a @ b) ! 3 = a ! 3" by (simp_all add: nth_append)
      ultimately show ?thesis using bad by (simp add: frames.simps [of "a @ b"] Let_def)
    qed
  qed
qed

section \<open>A connection without sessions\<close>

definition has_client :: "u64 \<Rightarrow> 'w server \<Rightarrow> bool" where
  "has_client ep g \<longleftrightarrow> (\<exists>c \<in> set (g_clients g). epoch c = ep)"

text \<open>What the forwarding of media depends on.\<close>

definition view :: "ingress_client \<Rightarrow> client_state \<times> u32 \<times> bool \<times> bytes \<times> int \<times> int" where
  "view c = (cl_state c, camera_route_generation c, camera_route_revoked c, rx_buf c, cl_rtp_port c, rtp_target c)"

lemma client_at_set:
  assumes "has_client ep g" "\<And>c. epoch (f c) = epoch c"
  shows "client_at ep (set_client ep f g) = f (client_at ep g)" "has_client ep (set_client ep f g)"
proof -
  have "find (\<lambda>c. epoch c = ep) (map (\<lambda>c. if epoch c = ep then f c else c) cs) = map_option f (find (\<lambda>c. epoch c = ep) cs)" for cs
    using assms(2) by (induction cs) auto
  moreover obtain c where "find (\<lambda>c. epoch c = ep) (g_clients g) = Some c"
    using assms(1) by (cases "find (\<lambda>c. epoch c = ep) (g_clients g)") (auto simp: has_client_def find_None_iff)
  ultimately show "client_at ep (set_client ep f g) = f (client_at ep g)"
    by (simp add: client_at_def set_client_def)
  show "has_client ep (set_client ep f g)" using assms by (force simp: has_client_def set_client_def)
qed

lemma set_client_sessions [simp]: "g_media_sessions (set_client ep f g) = g_media_sessions g"
  by (simp add: set_client_def)

text \<open>Steps that leave the connection as far as it matters for media, and there are no sessions.\<close>

definition quiet :: "u64 \<Rightarrow> 'w server \<Rightarrow> 'w server \<Rightarrow> bool" where
  "quiet ep g g' \<longleftrightarrow> g_media_sessions g = [] \<and> has_client ep g \<longrightarrow>
     g_media_sessions g' = [] \<and> has_client ep g' \<and> view (client_at ep g') = view (client_at ep g)"

lemma quiet_refl [simp]: "quiet ep g g"
  by (simp add: quiet_def)

lemma quiet_trans [trans]: "quiet ep g g1 \<Longrightarrow> quiet ep g1 g2 \<Longrightarrow> quiet ep g g2"
  by (auto simp: quiet_def)

lemma quiet_set: "(\<And>c. view (f c) = view c \<and> epoch (f c) = epoch c) \<Longrightarrow> quiet ep g (set_client ep f g)"
  using client_at_set [of ep g f] by (auto simp: quiet_def)

lemma quiet_tables:
  assumes "g_clients g' = g_clients g" "g_media_sessions g' = g_media_sessions g"
  shows "quiet ep g g'"
  using assms by (simp add: quiet_def has_client_def client_at_def)

lemma quiet_ask: "ask f g = (a, g') \<Longrightarrow> quiet ep g g'"
  by (intro quiet_tables) (simp_all add: ask_result)

lemma quiet_monotonic: "media_monotonic_ms svc g = (a, g') \<Longrightarrow> quiet ep g g'"
  by (intro quiet_tables) (auto dest: monotonic_sessions)

lemma no_sessions: "g_media_sessions g = [] \<Longrightarrow> find_active_session_for_sn sn g = None"
  by (simp add: find_active_session_for_sn_def)

definition is_rtp :: "datagram \<Rightarrow> bool" where
  "is_rtp d = (case d of RtpOut _ _ \<Rightarrow> True | RtcpOut _ _ \<Rightarrow> False)"

text \<open>The media datagrams a list of frames gives on a connection.\<close>

definition media_of :: "ingress_client \<Rightarrow> (u8 \<times> bytes) list \<Rightarrow> datagram list" where
  "media_of c fs =
     (if 0 < cl_rtp_port c then map (\<lambda>(k, p). RtpOut (rtp_target c) p) (filter (\<lambda>(k, p). k = L4RTP_FRAME_RTP) fs) else [])"

lemma media_of_view: "view c = view c' \<Longrightarrow> media_of c fs = media_of c' fs"
  by (simp add: media_of_def view_def)

lemma ensure_rtcp_quiet:
  assumes "ensure_rtcp_socket svc ep g = (ok, g')" shows "quiet ep g g'"
proof -
  obtain m n d g1 where 1: "ask (rtcp_socket svc) g = ((m, n, d), g1)" by (metis prod.exhaust)
  let ?s = "set_client ep (\<lambda>c. c\<lparr>rtcp_generation := g_next_rtcp_generation g1\<rparr>) g1"
  let ?g2 = "?s\<lparr>g_next_rtcp_generation := g_next_rtcp_generation ?s + 1\<rparr>"
  let ?g3 = "set_client ep (\<lambda>c. c\<lparr>rtcp_open := True\<rparr>) ?g2"
  have q1: "quiet ep g g1" by (rule quiet_ask [OF 1])
  have "quiet ep g1 ?s" by (rule quiet_set) (simp add: view_def)
  moreover have "quiet ep ?s ?g2" by (rule quiet_tables) simp_all
  ultimately have q2: "quiet ep g ?g2" using q1 by (blast intro: quiet_trans)
  have "quiet ep ?g2 ?g3" by (rule quiet_set) (simp add: view_def)
  then have q3: "quiet ep g ?g3" using q2 by (blast intro: quiet_trans)
  have "g' = g \<or> g' = g1 \<or> g' = ?g2 \<or> g' = ?g3"
    using assms 1 by (auto simp: ensure_rtcp_socket_def Let_def split: if_splits)
  then show ?thesis using q1 q2 q3 by (elim disjE) simp_all
qed

lemma take_frame_quiet:
  assumes t: "take_frame svc ep k p g = (out, g')" and g: "g_media_sessions g = []" "has_client ep g"
  shows "quiet ep g g'" "filter is_rtp out = media_of (client_at ep g) [(k, p)]"
proof -
  consider (rtp) "k = 1" | (rtcp) "k = 2" | (other) "k \<noteq> 1" "k \<noteq> 2" by blast
  then have "quiet ep g g' \<and> filter is_rtp out = media_of (client_at ep g) [(k, p)]"
  proof cases
    case rtp
    obtain now g1 where 1: "ask (time_now svc) g = (now, g1)" by fastforce
    obtain ms g2 where 2: "media_monotonic_ms svc (set_client ep (\<lambda>c. c\<lparr>last_rtp_time := now\<rparr>) g1) = (ms, g2)" by fastforce
    define g3 where "g3 = (case ms of None \<Rightarrow> g2 | Some ms \<Rightarrow> set_client ep (\<lambda>c. c\<lparr>last_rtp_monotonic_ms := ms\<rparr>) g2)"
    have "quiet ep g1 (set_client ep (\<lambda>c. c\<lparr>last_rtp_time := now\<rparr>) g1)" by (rule quiet_set) (simp add: view_def)
    then have "quiet ep g g2" using quiet_ask [OF 1] quiet_monotonic [OF 2] by (blast intro: quiet_trans)
    moreover have "quiet ep g2 g3" unfolding g3_def by (cases ms) (auto intro!: quiet_set simp: view_def)
    ultimately have q3: "quiet ep g g3" by (rule quiet_trans)
    then have c3: "view (client_at ep g3) = view (client_at ep g)" "g_media_sessions g3 = []" "has_client ep g3"
      using g by (auto simp: quiet_def)
    let ?count = "\<lambda>c. c\<lparr>rtp_packets := rtp_packets c + 1, total_bytes := total_bytes c + of_nat (length p)\<rparr>"
    have "quiet ep g3 (set_client ep ?count g3)" "quiet ep g3 (set_client ep (\<lambda>c. c\<lparr>unrouted_packets := unrouted_packets c + 1\<rparr>) g3)"
      by (rule quiet_set; simp add: view_def)+
    moreover have "(out, g') = (if 0 < cl_rtp_port (client_at ep g3)
        then ([RtpOut (rtp_target (client_at ep g3)) p], set_client ep ?count g3)
        else ([], set_client ep (\<lambda>c. c\<lparr>unrouted_packets := unrouted_packets c + 1\<rparr>) g3))"
      using t rtp 1 2 c3(2)
      by (cases "0 < cl_rtp_port (client_at ep g3)") (simp_all add: take_frame_def Let_def no_sessions flip: g3_def)
    ultimately have "quiet ep g3 g'" "filter is_rtp out = media_of (client_at ep g3) [(k, p)]"
      using rtp by (auto simp: is_rtp_def media_of_def split: if_splits)
    then show ?thesis using q3 quiet_trans media_of_view [OF c3(1)] by metis
  next
    case rtcp
    obtain now g1 where 1: "ask (time_now svc) g = (now, g1)" by fastforce
    let ?g2 = "set_client ep (\<lambda>c. c\<lparr>last_rtcp_time := now\<rparr>) g1"
    obtain ok g3 where 3: "ensure_rtcp_socket svc ep ?g2 = (ok, g3)" by fastforce
    have "quiet ep g1 ?g2" by (rule quiet_set) (simp add: view_def)
    then have q2: "quiet ep g ?g2" using quiet_ask [OF 1] by (blast intro: quiet_trans)
    then have q3: "quiet ep g g3" using ensure_rtcp_quiet [OF 3] by (blast intro: quiet_trans)
    have "quiet ep g3 (set_client ep (\<lambda>c. c\<lparr>rtcp_packets := rtcp_packets c + 1,
        total_bytes := total_bytes c + of_nat (length p)\<rparr>) g3)"
      "quiet ep ?g2 (set_client ep (\<lambda>c. c\<lparr>unrouted_packets := unrouted_packets c + 1\<rparr>) ?g2)"
      by (rule quiet_set; simp add: view_def)+
    then have "quiet ep g g'"
      using t rtcp 1 3 q2 q3 by (auto simp: take_frame_def Let_def intro: quiet_trans split: if_splits)
    moreover have "filter is_rtp out = []"
      using t rtcp 1 3 by (auto simp: take_frame_def Let_def is_rtp_def split: if_splits)
    ultimately show ?thesis using rtcp by (simp add: media_of_def)
  next
    case other
    have "quiet ep g (set_client ep (\<lambda>c. c\<lparr>keepalive_packets := keepalive_packets c + 1\<rparr>) g)"
      by (rule quiet_set) (simp add: view_def)
    then show ?thesis using t other by (auto simp: take_frame_def media_of_def split: if_splits)
  qed
  then show "quiet ep g g'" "filter is_rtp out = media_of (client_at ep g) [(k, p)]" by simp_all
qed

lemma current_plain:
  assumes "camera_route_generation (client_at ep g) = 0" "\<not> camera_route_revoked (client_at ep g)"
  shows "camera_connection_current svc ep g = (True, g)"
  using assms by (simp add: camera_connection_current_def Let_def)

text \<open>A connection that is past its preamble, not tied to a camera route, and no sessions.\<close>

definition plain :: "u64 \<Rightarrow> 'w server \<Rightarrow> bool" where
  "plain ep g \<longleftrightarrow> g_media_sessions g = [] \<and> has_client ep g \<and> cl_state (client_at ep g) = STATE_FRAMING
     \<and> camera_route_generation (client_at ep g) = 0 \<and> \<not> camera_route_revoked (client_at ep g)"

lemma plain_quiet: "plain ep g \<Longrightarrow> quiet ep g g' \<Longrightarrow> plain ep g' \<and> view (client_at ep g') = view (client_at ep g)"
  by (simp add: plain_def quiet_def view_def)

lemma frame_loop_plain:
  "plain ep g \<Longrightarrow> frame_loop svc ep rest g = (alive, left, outs, g') \<Longrightarrow> frames rest = (fs, left', ok) \<Longrightarrow>
     alive = ok \<and> left = left' \<and> filter is_rtp outs = media_of (client_at ep g) fs
     \<and> (alive \<longrightarrow> plain ep g' \<and> view (client_at ep g') = view (client_at ep g))"
proof (induction svc ep rest g arbitrary: alive left outs g' fs left' ok rule: frame_loop.induct)
  case (1 svc ep rest g)
  let ?n = "unat (rd_be16 (rest ! 2) (rest ! 3))" and ?c = "client_at ep g"
  show ?case
  proof (cases "4 \<le> length rest \<and> ?n \<le> MAX_RTP_PAYLOAD_SIZE \<and> 4 + ?n \<le> length rest")
    case False
    then show ?thesis using 1(2-4)
      by (auto simp: frame_loop.simps [of svc ep rest] frames.simps [of rest] Let_def media_of_def split: if_splits)
  next
    case True
    have cur: "camera_connection_current svc ep g = (True, g)" using 1(2) by (simp add: plain_def current_plain)
    have own: "find_active_session_for_sn sn g = None" for sn using 1(2) by (simp add: plain_def no_sessions)
    obtain out g1 where t: "take_frame svc ep (rest ! 0) (slice_at 4 ?n rest) g = (out, g1)" by fastforce
    obtain al l os g2 where l: "frame_loop svc ep (drop (4 + ?n) rest) g1 = (al, l, os, g2)" by (metis prod_cases4)
    obtain fs' l' ok' where f: "frames (drop (4 + ?n) rest) = (fs', l', ok')" by (metis prod_cases3)
    have r: "alive = al" "left = l" "outs = out @ os" "g' = g2"
      using 1(3) True cur own t l by (auto simp: frame_loop.simps [of svc ep rest] Let_def)
    have fr: "fs = (rest ! 0, slice_at 4 ?n rest) # fs'" "left' = l'" "ok = ok'"
      using 1(4) True f by (auto simp: frames.simps [of rest] Let_def)
    have q: "quiet ep g g1" "filter is_rtp out = media_of ?c [(rest ! 0, slice_at 4 ?n rest)]"
      using take_frame_quiet [OF t] 1(2) by (auto simp: plain_def)
    note p1 = plain_quiet [OF 1(2) q(1)]
    have "al = ok' \<and> l = l' \<and> filter is_rtp os = media_of (client_at ep g1) fs'
        \<and> (al \<longrightarrow> plain ep g2 \<and> view (client_at ep g2) = view (client_at ep g1))"
      using True t p1 l f by (intro 1(1) [OF _ refl _ _ cur [symmetric] refl refl, of g out g1]) (auto simp: own)
    then show ?thesis
      using r fr q(2) p1 media_of_view [of "client_at ep g1" ?c fs'] by (auto simp: media_of_def)
  qed
qed

section \<open>Reads of any size\<close>

text \<open>What \<open>recv\<close> can answer: never more than the room left in the buffer.\<close>

fun chunks_fit :: "bytes \<Rightarrow> bytes list \<Rightarrow> bool" where
  "chunks_fit buf [] = True"
| "chunks_fit buf (b # bs) \<longleftrightarrow> length buf + length b \<le> RX_BUFFER_SIZE \<and> chunks_fit (fst (snd (frames (buf @ b)))) bs"

lemma receive_step_plain:
  assumes p: "plain ep g" and r: "ask (time_now svc) (set_client ep (\<lambda>c. c\<lparr>rx_buf := rx_buf c @ b\<rparr>) g) = (now, g1)"
    and m: "media_monotonic_ms svc (set_client ep (\<lambda>c. c\<lparr>last_activity := now\<rparr>) g1) = (ms, g2)"
    and g3: "g3 = (case ms of None \<Rightarrow> g2 | Some ms \<Rightarrow> set_client ep (\<lambda>c. c\<lparr>last_activity_monotonic_ms := ms\<rparr>) g2)"
  shows "plain ep g3" "view (client_at ep g3) = view ((client_at ep g)\<lparr>rx_buf := rx_buf (client_at ep g) @ b\<rparr>)"
proof -
  let ?g0 = "set_client ep (\<lambda>c. c\<lparr>rx_buf := rx_buf c @ b\<rparr>) g"
  have c0: "client_at ep ?g0 = (client_at ep g)\<lparr>rx_buf := rx_buf (client_at ep g) @ b\<rparr>" "has_client ep ?g0"
    using client_at_set [of ep g "\<lambda>c. c\<lparr>rx_buf := rx_buf c @ b\<rparr>"] p by (auto simp: plain_def)
  then have p0: "plain ep ?g0" using p by (simp add: plain_def)
  have "quiet ep g1 (set_client ep (\<lambda>c. c\<lparr>last_activity := now\<rparr>) g1)" by (rule quiet_set) (simp add: view_def)
  then have "quiet ep ?g0 g2" using quiet_ask [OF r] quiet_monotonic [OF m] by (blast intro: quiet_trans)
  moreover have "quiet ep g2 g3" unfolding g3 by (cases ms) (auto intro!: quiet_set simp: view_def)
  ultimately have "quiet ep ?g0 g3" by (rule quiet_trans)
  from plain_quiet [OF p0 this] show "plain ep g3"
    "view (client_at ep g3) = view ((client_at ep g)\<lparr>rx_buf := rx_buf (client_at ep g) @ b\<rparr>)"
    by (simp_all add: c0)
qed

lemma framing_plain:
  assumes p: "plain ep g" and f: "frames (rx_buf (client_at ep g)) = (fs, left, ok)"
    and r: "framing svc ep g = (alive, outs, g')"
  shows "alive = ok" "filter is_rtp outs = media_of (client_at ep g) fs"
    "alive \<Longrightarrow> plain ep g' \<and> rx_buf (client_at ep g') = left
       \<and> cl_rtp_port (client_at ep g') = cl_rtp_port (client_at ep g) \<and> rtp_target (client_at ep g') = rtp_target (client_at ep g)"
proof -
  obtain al l os g1 where l: "frame_loop svc ep (rx_buf (client_at ep g)) g = (al, l, os, g1)" by (metis prod_cases4)
  note fl = frame_loop_plain [OF p l f]
  show "alive = ok" "filter is_rtp outs = media_of (client_at ep g) fs"
    using r l fl by (auto simp: framing_def split: bool.splits)
  assume alive
  then have g': "g' = set_client ep (\<lambda>c. c\<lparr>rx_buf := left\<rparr>) g1" and p1: "plain ep g1" "view (client_at ep g1) = view (client_at ep g)"
    using r l fl by (auto simp: framing_def split: bool.splits)
  have "client_at ep g' = (client_at ep g1)\<lparr>rx_buf := left\<rparr>" "has_client ep g'"
    using client_at_set [of ep g1 "\<lambda>c. c\<lparr>rx_buf := left\<rparr>"] p1(1) g' by (auto simp: plain_def)
  then show "plain ep g' \<and> rx_buf (client_at ep g') = left
       \<and> cl_rtp_port (client_at ep g') = cl_rtp_port (client_at ep g) \<and> rtp_target (client_at ep g') = rtp_target (client_at ep g)"
    using p1 g' by (simp add: plain_def view_def)
qed

lemma media_of_append: "media_of c (fs @ fs') = media_of c fs @ media_of c fs'"
  by (simp add: media_of_def)

lemma media_of_ports:
  "cl_rtp_port c = cl_rtp_port c' \<Longrightarrow> rtp_target c = rtp_target c' \<Longrightarrow> media_of c fs = media_of c' fs"
  by (simp add: media_of_def)

lemma receive_loop_plain:
  "plain ep g \<Longrightarrow> frames (rx_buf (client_at ep g)) = ([], rx_buf (client_at ep g), True) \<Longrightarrow>
    chunks_fit (rx_buf (client_at ep g)) chunks \<Longrightarrow>
    receive_loop svc ep (map Data chunks) g = (alive, outs, g') \<Longrightarrow>
    frames (rx_buf (client_at ep g) @ concat chunks) = (fs, left, ok) \<Longrightarrow>
    alive = ok \<and> filter is_rtp outs = media_of (client_at ep g) fs
    \<and> (alive \<longrightarrow> rx_buf (client_at ep g') = left)"
proof (induction chunks arbitrary: g alive outs g' fs left ok)
  case Nil
  then show ?case using frames_left [OF Nil(2)] by (auto simp: media_of_def split: if_splits)
next
  case (Cons b chunks)
  let ?buf = "rx_buf (client_at ep g)"
  obtain now g1 where 1: "ask (time_now svc) (set_client ep (\<lambda>c. c\<lparr>rx_buf := rx_buf c @ b\<rparr>) g) = (now, g1)" by fastforce
  obtain ms g2 where 2: "media_monotonic_ms svc (set_client ep (\<lambda>c. c\<lparr>last_activity := now\<rparr>) g1) = (ms, g2)" by fastforce
  define g3 where "g3 = (case ms of None \<Rightarrow> g2 | Some ms \<Rightarrow> set_client ep (\<lambda>c. c\<lparr>last_activity_monotonic_ms := ms\<rparr>) g2)"
  note p3 = receive_step_plain [OF Cons(2) 1 2 g3_def]
  obtain al os g4 where 4: "framing svc ep g3 = (al, os, g4)" by (metis prod_cases3)
  obtain fs1 l1 ok1 where f: "frames (?buf @ b) = (fs1, l1, ok1)" by (metis prod_cases3)
  have b3: "rx_buf (client_at ep g3) = ?buf @ b" "cl_rtp_port (client_at ep g3) = cl_rtp_port (client_at ep g)"
      "rtp_target (client_at ep g3) = rtp_target (client_at ep g)"
    using p3(2) by (simp_all add: view_def)
  note fr = framing_plain [OF p3(1) _ 4, unfolded b3(1), OF f]
  have m: "media_of (client_at ep g3) x = media_of (client_at ep g) x" for x using b3 by (intro media_of_ports)
  have step: "receive_loop svc ep (map Data (b # chunks)) g
      = (if al then case receive_loop svc ep (map Data chunks) g4 of (alive, outs', g) \<Rightarrow> (alive, os @ outs', g)
         else (False, os, g4))"
    using frames_left [OF Cons(3)] p3(1) 1 2 4 by (auto simp: Let_def plain_def simp flip: g3_def split: bool.splits)
  note whole = frames_append [OF f, of "concat chunks"]
  show ?case
  proof (cases al)
    case False
    then show ?thesis using step Cons(5,6) fr(1,2) whole m by simp
  next
    case True
    obtain a2 os2 g5 where 5: "receive_loop svc ep (map Data chunks) g4 = (a2, os2, g5)" by (metis prod_cases3)
    obtain fs2 l2 ok2 where f2: "frames (l1 @ concat chunks) = (fs2, l2, ok2)" by (metis prod_cases3)
    have ok1 using True fr(1) by simp
    then have "frames (?buf @ b) = (fs1, l1, True)" using f by simp
    note f4 = fr(3) [OF True] and l1 = frames_left [OF this]
    have "a2 = ok2 \<and> filter is_rtp os2 = media_of (client_at ep g4) fs2 \<and> (a2 \<longrightarrow> rx_buf (client_at ep g5) = l2)"
      using Cons(1) [of g4 a2 os2 g5 fs2 l2 ok2] f4 l1 5 f2 Cons(4) f by simp
    moreover have "media_of (client_at ep g4) fs2 = media_of (client_at ep g) fs2"
      using f4 b3 by (intro media_of_ports) simp_all
    ultimately show ?thesis
      using step 5 True Cons(5,6) whole f2 fr(2) m \<open>ok1\<close> by (auto simp: media_of_append)
  qed
qed

text \<open>
  C8: how the stream is cut into reads does not matter. For a connection past its preamble that is
  not tied to a camera route, with no session in play and what is buffered an incomplete frame, any
  sequence of reads forwards the RTP payloads of exactly the complete frames of the whole stream,
  in order and to the port of the route (or none without a route). The connection goes on unless a
  length field is beyond the limit, what stays buffered is the incomplete rest, and it always leaves
  room in the buffer.
\<close>

theorem ingress_any_split:
  assumes "plain ep g" "frames (rx_buf (client_at ep g)) = ([], rx_buf (client_at ep g), True)"
    and "chunks_fit (rx_buf (client_at ep g)) chunks"
    and "process_ingress_data svc ep (map Data chunks) g = (alive, outs, g')"
    and "frames (rx_buf (client_at ep g) @ concat chunks) = (fs, left, ok)"
  shows "filter is_rtp outs = media_of (client_at ep g) fs \<and> alive = ok
    \<and> (alive \<longrightarrow> rx_buf (client_at ep g') = left \<and> length left < RX_BUFFER_SIZE)"
proof -
  have "receive_loop svc ep (map Data chunks) g = (alive, outs, g')"
    using assms(1,4) current_plain [of ep g svc] by (simp add: process_ingress_data_def plain_def)
  from receive_loop_plain [OF assms(1-3) this assms(5)] frames_left [of _ fs left] assms(5)
  show ?thesis by (cases ok) fastforce+
qed

definition one_sender :: "int server" where
  "one_sender = (start_server 0 1000)
     \<lparr>g_clients := [(new_client 1 0 0)\<lparr>cl_state := STATE_FRAMING, cl_sn := ''X'', cl_rtp_port := 6010, rtp_target := 6010\<rparr>]\<rparr>"

theorem ingress_any_split_witness:
  "filter is_rtp (fst (snd (process_ingress_data (fixed_services Map.empty) 1 [Data [1, 0, 0], Data [2, 9, 8, 3, 0]] one_sender)))
     = [RtpOut 6010 [9, 8]]"
proof -
  let ?cs = "[[1, 0, 0], [2, 9, 8, 3, 0]] :: bytes list"
  have c: "client_at 1 one_sender = (new_client 1 0 0)\<lparr>cl_state := STATE_FRAMING, cl_sn := ''X'', cl_rtp_port := 6010, rtp_target := 6010\<rparr>"
    by (simp add: client_at_def one_sender_def new_client_def)
  have b: "rx_buf (client_at 1 one_sender) = []" by (simp add: c new_client_def)
  have p: "plain 1 one_sender"
    by (simp add: plain_def has_client_def c) (simp add: one_sender_def start_server_def new_client_def)
  have e: "frames [] = ([], [], True)" "frames [1, 0, 0] = ([], [1, 0, 0], True)" "frames [3, 0] = ([], [3, 0], True)"
    by (simp_all add: frames.simps)
  have n: "rd_be16 0 2 = 2" by (simp add: rd_be16_def)
  have w: "frames [1, 0, 0, 2, 9, 8, 3, 0] = ([(1, [9, 8])], [3, 0], True)"
    by (subst frames.simps) (simp add: n slice_at_def e)
  have fit: "chunks_fit [] ?cs" by (simp add: e)
  obtain alive outs g' where r: "process_ingress_data (fixed_services Map.empty) 1 (map Data ?cs) one_sender = (alive, outs, g')"
    by (metis prod_cases3)
  have "frames (rx_buf (client_at 1 one_sender) @ concat ?cs) = ([(1, [9, 8])], [3, 0], True)" using w b by simp
  from ingress_any_split [OF p _ _ r this] e fit b
  have "filter is_rtp outs = media_of (client_at 1 one_sender) [(1, [9, 8])]" by simp
  then show ?thesis using r by (simp add: media_of_def c)
qed

end
