(* ===== verification/Color_Convert.thy ===== *)
theory Color_Convert
  imports Capture_Limits "HOL-Library.Monad_Syntax"
begin

text \<open>
  The conversion of captured BGRA pictures to planar YUV,
  \<open>tools/l4capture/src/pipeline/color_convert.c\<close>. The functions write through pointers into
  planes that share one allocation or belong to the caller, so the model has an explicit store:
  a memory maps the number of a block to its bytes, a pointer is a block and an offset, and an
  access outside a block, undefined in C, is \<open>None\<close>. Pointer offsets are natural numbers (an
  object never exceeds the address space); the \<open>uint32_t\<close> index arithmetic of a pixel wraps.
  The theorems state which byte every cell of the planes gets, that nothing else is written, that
  the clamps of the fixed-point formulas never act, and that the interleaved plane of NV12 is the
  two chroma planes of I420.
\<close>

section \<open>Memory\<close>

type_synonym c_mem = "nat \<Rightarrow> bytes option"
type_synonym c_ptr = "nat \<times> nat"

definition byte_at :: "c_mem \<Rightarrow> c_ptr \<Rightarrow> u8 option" where
  "byte_at m p =
     (case m (fst p) of
        None \<Rightarrow> None
      | Some buf \<Rightarrow> if snd p < length buf then Some (buf ! snd p) else None)"

definition put_byte :: "c_ptr \<Rightarrow> u8 \<Rightarrow> c_mem \<Rightarrow> c_mem option" where
  "put_byte p v m =
     (case m (fst p) of
        None \<Rightarrow> None
      | Some buf \<Rightarrow>
          if snd p < length buf then Some (m(fst p \<mapsto> buf[snd p := v])) else None)"

definition ptr_add :: "c_ptr \<Rightarrow> nat \<Rightarrow> c_ptr" where
  "ptr_add p n = (fst p, snd p + n)"

primrec for_upto :: "(nat \<Rightarrow> 'a \<Rightarrow> 'a option) \<Rightarrow> nat \<Rightarrow> 'a \<Rightarrow> 'a option" where
  "for_upto body 0 s = Some s"
| "for_upto body (Suc n) s = for_upto body n s \<bind> body n"

section \<open>The converter\<close>

datatype l4c_pixel_format = L4C_PIX_FMT_BGRA | L4C_PIX_FMT_I420 | L4C_PIX_FMT_NV12

record 'w l4c_raw_frame =
  rf_planes :: "c_ptr option list"
  rf_strides :: "u32 list"
  rf_width :: u32
  rf_height :: u32
  rf_format :: l4c_pixel_format
  rf_pts_ms :: u64
  rf_force_idr :: bool
  rf_plane_sizes :: "'w list"

record 'w l4c_color_converter =
  cv_width :: u32
  cv_height :: u32
  stride_y :: int
  stride_u :: int
  stride_v :: int
  stride_uv :: int
  plane_y :: c_ptr
  plane_u :: c_ptr
  plane_v :: c_ptr
  plane_uv :: c_ptr
  cv_buffer :: nat
  plane_y_size :: 'w
  plane_u_size :: 'w
  plane_v_size :: 'w
  plane_uv_size :: 'w

definition align16 :: "int \<Rightarrow> int" where
  "align16 v = (v + 15) AND NOT 15"

text \<open>\<open>(n + 1u) / 2u\<close>, the number of chroma rows or columns.\<close>

definition half_up :: "u32 \<Rightarrow> u32" where
  "half_up n = (n + 1) div 2"

text \<open>
  The allocator is a parameter: whether the converter itself could be allocated, and the block
  and its indeterminate contents a call of \<open>malloc\<close> returns.
\<close>

definition l4c_color_converter_create ::
    "bool \<Rightarrow> ('s::len word \<Rightarrow> (nat \<times> bytes) option) \<Rightarrow> u32 \<Rightarrow> u32 \<Rightarrow> c_mem
     \<Rightarrow> l4c_status + 's word l4c_color_converter \<times> c_mem" where
  "l4c_color_converter_create calloc_ok malloc width height m =
     (if width = 0 \<or> height = 0 then Inl L4C_ERR_INVALID_ARG
      else if L4C_MAX_PIXELS_AREA < ucast width * ucast height then Inl L4C_ERR_OVERFLOW
      else if \<not> calloc_ok then Inl L4C_ERR_OUT_OF_MEMORY
      else
        let sy = align16 (sint width);
            half_w = half_up width;
            half_h = half_up height;
            su = align16 (sint half_w);
            sv = align16 (sint half_w);
            suv = sy;
            y_size = of_int sy * ucast height;
            u_size = of_int su * ucast half_h;
            v_size = of_int sv * ucast half_h;
            uv_size = of_int suv * ucast half_h;
            total = y_size + u_size + v_size + uv_size in
        if L4C_ADMISSION_MEMORY_LIMIT < total then Inl L4C_ERR_OUT_OF_MEMORY
        else case malloc total of
            None \<Rightarrow> Inl L4C_ERR_OUT_OF_MEMORY
          | Some (buf, contents) \<Rightarrow>
              let py = (buf, 0);
                  pu = ptr_add py (unat y_size);
                  pv = ptr_add pu (unat u_size);
                  puv = ptr_add pv (unat v_size) in
              Inr (\<lparr>cv_width = width, cv_height = height, stride_y = sy, stride_u = su,
                    stride_v = sv, stride_uv = suv, plane_y = py, plane_u = pu, plane_v = pv,
                    plane_uv = puv, cv_buffer = buf, plane_y_size = y_size,
                    plane_u_size = u_size, plane_v_size = v_size, plane_uv_size = uv_size\<rparr>,
                   m(buf \<mapsto> contents)))"

definition l4c_color_converter_destroy :: "('s::len) word l4c_color_converter \<Rightarrow> c_mem \<Rightarrow> c_mem" where
  "l4c_color_converter_destroy cvt m = m(cv_buffer cvt := None)"

section \<open>Fixed-point colour formulas\<close>

definition limit_to :: "int \<Rightarrow> int \<Rightarrow> int \<Rightarrow> int" where
  "limit_to lo hi v = (let v = (if v < lo then lo else v) in if hi < v then hi else v)"

definition luma :: "u8 \<Rightarrow> u8 \<Rightarrow> u8 \<Rightarrow> u8" where
  "luma b g r =
     word_of_int (limit_to 16 235
       (drop_bit 8 (66 * uint r + 129 * uint g + 25 * uint b + 128) + 16))"

definition box_average :: "u8 \<Rightarrow> u8 \<Rightarrow> u8 \<Rightarrow> u8 \<Rightarrow> int" where
  "box_average p q s t = drop_bit 2 (uint p + uint q + uint s + uint t + 2)"

definition chroma_u :: "int \<Rightarrow> int \<Rightarrow> int \<Rightarrow> u8" where
  "chroma_u b g r = word_of_int (limit_to 16 240 (drop_bit 8 (- 38 * r - 74 * g + 112 * b + 128) + 128))"

definition chroma_v :: "int \<Rightarrow> int \<Rightarrow> int \<Rightarrow> u8" where
  "chroma_v b g r = word_of_int (limit_to 16 240 (drop_bit 8 (112 * r - 94 * g - 18 * b + 128) + 128))"

section \<open>The loops over the picture\<close>

text \<open>The index of component \<open>c\<close> of the pixel in column \<open>x\<close>, as \<open>uint32_t\<close>.\<close>

definition pix :: "nat \<Rightarrow> nat \<Rightarrow> nat" where
  "pix x c = (x * 4 + c) mod 2 ^ 32"

definition luma_at :: "c_ptr \<Rightarrow> c_ptr \<Rightarrow> nat \<Rightarrow> c_mem \<Rightarrow> c_mem option" where
  "luma_at row y_row x m = do {
     b \<leftarrow> byte_at m (ptr_add row (pix x 0));
     g \<leftarrow> byte_at m (ptr_add row (pix x 1));
     r \<leftarrow> byte_at m (ptr_add row (pix x 2));
     put_byte (ptr_add y_row x) (luma b g r) m
   }"

definition luma_plane :: "c_ptr \<Rightarrow> int \<Rightarrow> c_ptr \<Rightarrow> int \<Rightarrow> u32 \<Rightarrow> u32 \<Rightarrow> c_mem \<Rightarrow> c_mem option" where
  "luma_plane src src_stride dst dst_stride w h =
     for_upto (\<lambda>y.
       for_upto (luma_at (ptr_add src (y * nat src_stride)) (ptr_add dst (y * nat dst_stride)))
         (unat w))
       (unat h)"

text \<open>One component of the average of a 2x2 block, and the chroma of the block.\<close>

definition block_component :: "c_ptr \<Rightarrow> c_ptr \<Rightarrow> nat \<Rightarrow> nat \<Rightarrow> nat \<Rightarrow> c_mem \<Rightarrow> int option" where
  "block_component row0 row1 sx0 sx1 c m = do {
     p \<leftarrow> byte_at m (ptr_add row0 (pix sx0 c));
     q \<leftarrow> byte_at m (ptr_add row0 (pix sx1 c));
     s \<leftarrow> byte_at m (ptr_add row1 (pix sx0 c));
     t \<leftarrow> byte_at m (ptr_add row1 (pix sx1 c));
     Some (box_average p q s t)
   }"

definition next_or_last :: "nat \<Rightarrow> nat \<Rightarrow> nat" where
  "next_or_last i n = (if n \<le> i + 1 then n - 1 else i + 1)"

definition chroma_at :: "c_ptr \<Rightarrow> int \<Rightarrow> u32 \<Rightarrow> u32 \<Rightarrow> nat \<Rightarrow> nat \<Rightarrow> c_mem \<Rightarrow> (u8 \<times> u8) option" where
  "chroma_at src src_stride w h y x m =
     (let sy0 = y * 2;
          sy1 = next_or_last sy0 (unat h);
          row0 = ptr_add src (sy0 * nat src_stride);
          row1 = ptr_add src (sy1 * nat src_stride);
          sx0 = x * 2;
          sx1 = next_or_last sx0 (unat w) in
      do {
        b \<leftarrow> block_component row0 row1 sx0 sx1 0 m;
        g \<leftarrow> block_component row0 row1 sx0 sx1 1 m;
        r \<leftarrow> block_component row0 row1 sx0 sx1 2 m;
        Some (chroma_u b g r, chroma_v b g r)
      })"

definition chroma_planes ::
    "c_ptr \<Rightarrow> int \<Rightarrow> c_ptr \<Rightarrow> int \<Rightarrow> c_ptr \<Rightarrow> int \<Rightarrow> u32 \<Rightarrow> u32 \<Rightarrow> c_mem \<Rightarrow> c_mem option" where
  "chroma_planes src src_stride pu su pv sv w h =
     for_upto (\<lambda>y. for_upto (\<lambda>x m. do {
         uv \<leftarrow> chroma_at src src_stride w h y x m;
         m \<leftarrow> put_byte (ptr_add pu (y * nat su + x)) (fst uv) m;
         put_byte (ptr_add pv (y * nat sv + x)) (snd uv) m
       }) (unat (half_up w))) (unat (half_up h))"

definition chroma_interleaved ::
    "c_ptr \<Rightarrow> int \<Rightarrow> c_ptr \<Rightarrow> int \<Rightarrow> u32 \<Rightarrow> u32 \<Rightarrow> c_mem \<Rightarrow> c_mem option" where
  "chroma_interleaved src src_stride puv suv w h =
     for_upto (\<lambda>y. for_upto (\<lambda>x m. do {
         uv \<leftarrow> chroma_at src src_stride w h y x m;
         m \<leftarrow> put_byte (ptr_add puv (y * nat suv + x * 2)) (fst uv) m;
         put_byte (ptr_add puv (y * nat suv + (x * 2 + 1))) (snd uv) m
       }) (unat (half_up w))) (unat (half_up h))"

section \<open>The conversions\<close>

definition l4c_color_convert_bgra_to_i420 ::
    "('s::len) word l4c_color_converter \<Rightarrow> c_ptr \<Rightarrow> int \<Rightarrow> u64 \<Rightarrow> c_mem
     \<Rightarrow> ((l4c_status + 's word l4c_raw_frame) \<times> c_mem) option" where
  "l4c_color_convert_bgra_to_i420 cvt bgra bgra_stride pts_ms m =
     (if bgra_stride \<le> 0 then Some (Inl L4C_ERR_INVALID_ARG, m)
      else
        let w = cv_width cvt; h = cv_height cvt;
            sy = stride_y cvt; su = stride_u cvt; sv = stride_v cvt in
        do {
          m \<leftarrow> luma_plane bgra bgra_stride (plane_y cvt) sy w h m;
          m \<leftarrow> chroma_planes bgra bgra_stride (plane_u cvt) su (plane_v cvt) sv w h m;
          Some (Inr \<lparr>rf_planes = [Some (plane_y cvt), Some (plane_u cvt), Some (plane_v cvt)],
                     rf_strides = [of_int sy, of_int su, of_int sv],
                     rf_width = w, rf_height = h, rf_format = L4C_PIX_FMT_I420,
                     rf_pts_ms = pts_ms, rf_force_idr = False,
                     rf_plane_sizes = [plane_y_size cvt, plane_u_size cvt, plane_v_size cvt]\<rparr>, m)
        })"

definition l4c_color_convert_bgra_to_nv12 ::
    "('s::len) word l4c_color_converter option \<Rightarrow> c_ptr \<Rightarrow> int \<Rightarrow> c_ptr option \<Rightarrow> int \<Rightarrow> c_ptr option
     \<Rightarrow> int \<Rightarrow> u32 \<Rightarrow> u32 \<Rightarrow> c_mem \<Rightarrow> (l4c_status \<times> c_mem) option" where
  "l4c_color_convert_bgra_to_nv12 cvt src src_stride dst_y dst_stride_y dst_uv dst_stride_uv
       width height m =
     (if src_stride \<le> 0 then Some (L4C_ERR_INVALID_ARG, m)
      else if (width = 0 \<or> height = 0) \<and> cvt = None then Some (L4C_ERR_INVALID_ARG, m)
      else
        let (w, h) = (if width = 0 \<or> height = 0
                      then (cv_width (the cvt), cv_height (the cvt)) else (width, height)) in
        if L4C_MAX_PIXELS_AREA < ucast w * ucast h then Some (L4C_ERR_OVERFLOW, m)
        else if dst_y = None \<and> cvt = None then Some (L4C_ERR_INVALID_ARG, m)
        else
          let (py, sy) = (case dst_y of
                Some p \<Rightarrow> (p, dst_stride_y)
              | None \<Rightarrow> (plane_y (the cvt), stride_y (the cvt))) in
          if dst_uv = None \<and> cvt = None then Some (L4C_ERR_INVALID_ARG, m)
          else
            let (puv, suv) = (case dst_uv of
                  Some p \<Rightarrow> (p, dst_stride_uv)
                | None \<Rightarrow> (plane_uv (the cvt), stride_uv (the cvt))) in
            if sy < sint w \<or> suv < sint w then Some (L4C_ERR_INVALID_ARG, m)
            else do {
              m \<leftarrow> luma_plane src src_stride py sy w h m;
              m \<leftarrow> chroma_interleaved src src_stride puv suv w h m;
              Some (L4C_OK, m)
            })"

definition l4c_color_convert_bgra_to_nv12_frame ::
    "('s::len) word l4c_color_converter \<Rightarrow> c_ptr \<Rightarrow> int \<Rightarrow> u64 \<Rightarrow> c_mem
     \<Rightarrow> ((l4c_status + 's word l4c_raw_frame) \<times> c_mem) option" where
  "l4c_color_convert_bgra_to_nv12_frame cvt bgra bgra_stride pts_ms m = do {
     (status, m) \<leftarrow> l4c_color_convert_bgra_to_nv12 (Some cvt) bgra bgra_stride
                     (Some (plane_y cvt)) (stride_y cvt) (Some (plane_uv cvt)) (stride_uv cvt)
                     (cv_width cvt) (cv_height cvt) m;
     if status \<noteq> L4C_OK then Some (Inl status, m)
     else Some (Inr \<lparr>rf_planes = [Some (plane_y cvt), Some (plane_uv cvt), None],
                     rf_strides = [of_int (stride_y cvt), of_int (stride_uv cvt), 0],
                     rf_width = cv_width cvt, rf_height = cv_height cvt,
                     rf_format = L4C_PIX_FMT_NV12, rf_pts_ms = pts_ms, rf_force_idr = False,
                     rf_plane_sizes = [plane_y_size cvt, plane_uv_size cvt, 0]\<rparr>, m)
   }"


section \<open>The formulas stay in the limited range\<close>

definition rgb_range :: "int \<Rightarrow> int \<Rightarrow> int \<Rightarrow> bool" where
  "rgb_range b g r \<longleftrightarrow> 0 \<le> b \<and> b \<le> 255 \<and> 0 \<le> g \<and> g \<le> 255 \<and> 0 \<le> r \<and> r \<le> 255"

lemma u8_range: "0 \<le> uint (a :: u8) \<and> uint (a :: u8) \<le> 255"
  using uint_lt2p [of a] by simp

lemma rgb_range_bytes: "rgb_range (uint (b :: u8)) (uint (g :: u8)) (uint (r :: u8))"
  using u8_range by (simp add: rgb_range_def)

lemma average_range:
  "0 \<le> p \<and> p \<le> 255 \<Longrightarrow> 0 \<le> q \<and> q \<le> 255 \<Longrightarrow> 0 \<le> s \<and> s \<le> 255 \<Longrightarrow> 0 \<le> t \<and> t \<le> (255 :: int)
   \<Longrightarrow> 0 \<le> (p + q + s + t + 2) div 4 \<and> (p + q + s + t + 2) div 4 \<le> 255"
  by auto

lemma box_average_range: "0 \<le> box_average p q s t \<and> box_average p q s t \<le> 255"
  unfolding box_average_def drop_bit_eq_div
  using average_range [OF u8_range u8_range u8_range u8_range, of p q s t] by simp

lemma box_average_same: "box_average p p p p = uint p"
  by (simp add: box_average_def drop_bit_eq_div)

lemma clamped_byte:
  assumes "lo \<le> v \<and> v \<le> hi" "0 \<le> lo" "hi \<le> 255"
  shows "uint (word_of_int (limit_to lo hi v) :: u8) = v"
proof -
  have "limit_to lo hi v = v" using assms(1) by (simp add: limit_to_def)
  moreover have "take_bit 8 v = v"
    using assms by (simp add: take_bit_int_eq_self_iff)
  ultimately show ?thesis by (simp add: uint_word_of_int_eq)
qed

lemma shift_eight: "drop_bit 8 (v :: int) = v div 256"
  by (simp add: drop_bit_eq_div)

lemma luma_range:
  "rgb_range b g r \<Longrightarrow> 16 \<le> (66 * r + 129 * g + 25 * b + 128) div 256 + 16
     \<and> (66 * r + 129 * g + 25 * b + 128) div 256 + 16 \<le> 235"
  unfolding rgb_range_def by auto

lemma chroma_u_range:
  "rgb_range b g r \<Longrightarrow> 16 \<le> (- 38 * r - 74 * g + 112 * b + 128) div 256 + 128
     \<and> (- 38 * r - 74 * g + 112 * b + 128) div 256 + 128 \<le> 240"
  unfolding rgb_range_def by auto

lemma chroma_v_range:
  "rgb_range b g r \<Longrightarrow> 16 \<le> (112 * r - 94 * g - 18 * b + 128) div 256 + 128
     \<and> (112 * r - 94 * g - 18 * b + 128) div 256 + 128 \<le> 240"
  unfolding rgb_range_def by auto

lemma luma_value:
  "uint (luma b g r) = (66 * uint r + 129 * uint g + 25 * uint b + 128) div 256 + 16"
  unfolding luma_def shift_eight
  by (rule clamped_byte [OF luma_range [OF rgb_range_bytes]]) simp_all

lemma chroma_u_value:
  "rgb_range b g r
   \<Longrightarrow> uint (chroma_u b g r) = (- 38 * r - 74 * g + 112 * b + 128) div 256 + 128"
  unfolding chroma_u_def shift_eight by (rule clamped_byte [OF chroma_u_range]) simp_all

lemma chroma_v_value:
  "rgb_range b g r
   \<Longrightarrow> uint (chroma_v b g r) = (112 * r - 94 * g - 18 * b + 128) div 256 + 128"
  unfolding chroma_v_def shift_eight by (rule clamped_byte [OF chroma_v_range]) simp_all

section \<open>Writing a set of cells\<close>

text \<open>
  \<open>fills m m' A v\<close>: between \<open>m\<close> and \<open>m'\<close> exactly the cells of \<open>A\<close> were written, each with the
  value \<open>v\<close> assigns to it. Loops compose such steps.
\<close>

definition fills :: "c_mem \<Rightarrow> c_mem \<Rightarrow> c_ptr set \<Rightarrow> (c_ptr \<Rightarrow> u8) \<Rightarrow> bool" where
  "fills m m' A v \<longleftrightarrow> (\<forall>p. byte_at m' p = (if p \<in> A then Some (v p) else byte_at m p))"

lemma fillsD: "fills m m' A v \<Longrightarrow> byte_at m' p = (if p \<in> A then Some (v p) else byte_at m p)"
  unfolding fills_def by blast

lemma fillsI: "(\<And>p. byte_at m' p = (if p \<in> A then Some (v p) else byte_at m p)) \<Longrightarrow> fills m m' A v"
  unfolding fills_def by blast

lemma fills_refl: "fills m m {} v"
  by (rule fillsI) simp

lemma fills_trans: "fills m m' A v \<Longrightarrow> fills m' m'' B v \<Longrightarrow> fills m m'' (A \<union> B) v"
  by (rule fillsI) (simp add: fillsD)

lemma fills_outside: "fills m m' A v \<Longrightarrow> p \<notin> A \<Longrightarrow> byte_at m' p = byte_at m p"
  by (simp add: fillsD)

lemma fills_inside: "fills m m' A v \<Longrightarrow> p \<in> A \<Longrightarrow> byte_at m' p = Some (v p)"
  by (simp add: fillsD)

lemma fills_keeps_cell: "fills m m' A v \<Longrightarrow> byte_at m p \<noteq> None \<Longrightarrow> byte_at m' p \<noteq> None"
  by (simp add: fillsD)

lemma put_byte_fills:
  assumes "byte_at m p \<noteq> None"
  shows "\<exists>m'. put_byte p (v p) m = Some m' \<and> fills m m' {p} v"
  using assms
  by (cases p) (auto simp: put_byte_def byte_at_def fills_def split: option.splits if_splits)

lemma put_byte_outside: "byte_at m p = None \<Longrightarrow> put_byte p v m = None"
  by (auto simp: put_byte_def byte_at_def split: option.splits if_splits)

lemma for_upto_fills:
  assumes "\<And>i m'. i < n \<Longrightarrow> fills m m' (\<Union>j<i. A j) v
           \<Longrightarrow> \<exists>m''. body i m' = Some m'' \<and> fills m' m'' (A i) v"
  shows "\<exists>m'. for_upto body n m = Some m' \<and> fills m m' (\<Union>j<n. A j) v"
  using assms
proof (induction n)
  case 0
  then show ?case by (simp add: fills_refl)
next
  case (Suc n)
  then obtain m' where m': "for_upto body n m = Some m'" "fills m m' (\<Union>j<n. A j) v"
    by (metis less_Suc_eq)
  then obtain m'' where "body n m' = Some m''" "fills m' m'' (A n) v"
    using Suc.prems by blast
  moreover from this m' have "fills m m'' ((\<Union>j<n. A j) \<union> A n) v"
    using fills_trans by blast
  ultimately show ?case
    using m' by (simp add: lessThan_Suc Un_commute)
qed

text \<open>
  Two nested loops that write row by row; \<open>A y x\<close> are the cells written for one position, and
  the body only reads cells outside all of them.
\<close>

lemma for_rows_fill:
  assumes body: "\<And>y x m'. y < h \<Longrightarrow> x < w \<Longrightarrow> \<forall>p. p \<notin> R \<longrightarrow> byte_at m' p = byte_at m p
           \<Longrightarrow> \<forall>p. byte_at m p \<noteq> None \<longrightarrow> byte_at m' p \<noteq> None
           \<Longrightarrow> \<exists>m''. body y x m' = Some m'' \<and> fills m' m'' (A y x) v"
    and R: "(\<Union>y<h. \<Union>x<w. A y x) \<subseteq> R"
  shows "\<exists>m'. for_upto (\<lambda>y. for_upto (body y) w) h m = Some m' \<and> fills m m' (\<Union>y<h. \<Union>x<w. A y x) v"
proof (rule for_upto_fills)
  fix y m1
  assume y: "y < h" and m1: "fills m m1 (\<Union>j<y. \<Union>x<w. A j x) v"
  show "\<exists>m2. for_upto (body y) w m1 = Some m2 \<and> fills m1 m2 (\<Union>x<w. A y x) v"
  proof (rule for_upto_fills)
    fix x m2
    assume x: "x < w" and m2: "fills m1 m2 (\<Union>j<x. A y j) v"
    let ?D = "(\<Union>j<y. \<Union>x<w. A j x) \<union> (\<Union>j<x. A y j)"
    have D: "?D \<subseteq> R"
    proof -
      have "?D \<subseteq> (\<Union>y<h. \<Union>x<w. A y x)"
        using y x by (auto intro: less_trans)
      then show ?thesis using R by blast
    qed
    have f: "fills m m2 ?D v" using fills_trans [OF m1 m2] .
    show "\<exists>m3. body y x m2 = Some m3 \<and> fills m2 m3 (A y x) v"
    proof (rule body [OF y x])
      show "\<forall>p. p \<notin> R \<longrightarrow> byte_at m2 p = byte_at m p"
      proof (intro allI impI)
        fix p assume "p \<notin> R"
        then have "p \<notin> ?D" using D by (rule contra_subsetD [rotated])
        then show "byte_at m2 p = byte_at m p" by (rule fills_outside [OF f])
      qed
      show "\<forall>p. byte_at m p \<noteq> None \<longrightarrow> byte_at m2 p \<noteq> None"
        using fills_keeps_cell [OF f] by (intro allI impI)
    qed
  qed
qed

section \<open>What the loops write\<close>

definition readable :: "c_mem \<Rightarrow> c_ptr \<Rightarrow> nat \<Rightarrow> bool" where
  "readable m p n \<longleftrightarrow> (\<forall>i<n. byte_at m (ptr_add p i) \<noteq> None)"

text \<open>The bytes a picture or plane of \<open>h\<close> rows of \<open>n\<close> bytes occupies.\<close>

definition extent :: "nat \<Rightarrow> nat \<Rightarrow> nat \<Rightarrow> nat" where
  "extent st h n = (h - 1) * st + n"

definition sample :: "c_mem \<Rightarrow> c_ptr \<Rightarrow> nat \<Rightarrow> nat \<Rightarrow> nat \<Rightarrow> nat \<Rightarrow> u8" where
  "sample m src st y x c = the (byte_at m (ptr_add src (y * st + (x * 4 + c))))"

definition luma_of :: "c_mem \<Rightarrow> c_ptr \<Rightarrow> nat \<Rightarrow> nat \<Rightarrow> nat \<Rightarrow> u8" where
  "luma_of m src st y x =
     luma (sample m src st y x 0) (sample m src st y x 1) (sample m src st y x 2)"

definition average_of :: "c_mem \<Rightarrow> c_ptr \<Rightarrow> nat \<Rightarrow> nat \<Rightarrow> nat \<Rightarrow> nat \<Rightarrow> nat \<Rightarrow> nat \<Rightarrow> int" where
  "average_of m src st w h y x c =
     (let x1 = min (2 * x + 1) (w - 1); y1 = min (2 * y + 1) (h - 1) in
      box_average (sample m src st (2 * y) (2 * x) c) (sample m src st (2 * y) x1 c)
        (sample m src st y1 (2 * x) c) (sample m src st y1 x1 c))"

definition u_of :: "c_mem \<Rightarrow> c_ptr \<Rightarrow> nat \<Rightarrow> nat \<Rightarrow> nat \<Rightarrow> nat \<Rightarrow> nat \<Rightarrow> u8" where
  "u_of m src st w h y x =
     chroma_u (average_of m src st w h y x 0) (average_of m src st w h y x 1)
       (average_of m src st w h y x 2)"

definition v_of :: "c_mem \<Rightarrow> c_ptr \<Rightarrow> nat \<Rightarrow> nat \<Rightarrow> nat \<Rightarrow> nat \<Rightarrow> nat \<Rightarrow> u8" where
  "v_of m src st w h y x =
     chroma_v (average_of m src st w h y x 0) (average_of m src st w h y x 1)
       (average_of m src st w h y x 2)"

text \<open>Column \<open>k\<close> of the interleaved plane.\<close>

definition uv_of :: "c_mem \<Rightarrow> c_ptr \<Rightarrow> nat \<Rightarrow> nat \<Rightarrow> nat \<Rightarrow> nat \<Rightarrow> nat \<Rightarrow> u8" where
  "uv_of m src st w h y k =
     (if even k then u_of m src st w h y (k div 2) else v_of m src st w h y (k div 2))"

lemma ptr_add_add [simp]: "ptr_add (ptr_add p a) b = ptr_add p (a + b)"
  by (simp add: ptr_add_def)

lemma fst_ptr_add [simp]: "fst (ptr_add p a) = fst p"
  by (simp add: ptr_add_def)

lemma ptr_add_inject [simp]: "ptr_add p a = ptr_add p b \<longleftrightarrow> a = b"
  by (simp add: ptr_add_def)

lemma row_in_extent: "y < h \<Longrightarrow> x < n \<Longrightarrow> y * st + x < extent st h n"
proof -
  assume "y < h" "x < n"
  then have "y * st \<le> (h - 1) * st" by (intro mult_le_mono1) simp
  with \<open>x < n\<close> show ?thesis unfolding extent_def by linarith
qed

lemma readable_row:
  "readable m p (extent st h n) \<Longrightarrow> y < h \<Longrightarrow> x < n
   \<Longrightarrow> byte_at m (ptr_add p (y * st + x)) \<noteq> None"
  unfolding readable_def using row_in_extent by blast

lemma readable_mono: "readable m p n \<Longrightarrow> k \<le> n \<Longrightarrow> readable m p k"
  by (simp add: readable_def)

lemma pix_exact: "x < 2 ^ 30 \<Longrightarrow> c < 4 \<Longrightarrow> pix x c = x * 4 + c"
  by (simp add: pix_def)

definition same_block :: "c_mem \<Rightarrow> c_mem \<Rightarrow> c_ptr \<Rightarrow> bool" where
  "same_block m m' src \<longleftrightarrow> (\<forall>i. byte_at m' (ptr_add src i) = byte_at m (ptr_add src i))"

lemma sample_read:
  assumes "readable m src (extent st h (4 * w))" "same_block m m' src"
    and "y < h" "x < w" "w \<le> 2 ^ 30" "c < 4"
  shows "byte_at m' (ptr_add src (y * st + pix x c)) = Some (sample m src st y x c)"
proof -
  have x: "x < 2 ^ 30" using assms by simp
  have "x * 4 + c < 4 * w" using assms by simp
  then have "byte_at m (ptr_add src (y * st + (x * 4 + c))) \<noteq> None"
    using readable_row assms(1,3) by blast
  then show ?thesis
    using assms(2) unfolding pix_exact [OF x assms(6)] same_block_def sample_def by auto
qed

lemma luma_at_eq:
  assumes "readable m src (extent st h (4 * w))" "same_block m m' src"
    and "y < h" "x < w" "w \<le> 2 ^ 30"
  shows "luma_at (ptr_add src (y * st)) row x m' =
         put_byte (ptr_add row x) (luma_of m src st y x) m'"
  using sample_read [OF assms(1-5)] by (simp add: luma_at_def luma_of_def)

lemma next_or_last_min: "next_or_last i n = min (i + 1) (n - 1)"
  unfolding next_or_last_def by auto

lemma block_component_eq:
  assumes "readable m src (extent st h (4 * w))" "same_block m m' src"
    and "2 * y < h" "2 * x < w" "w \<le> 2 ^ 30" "c < 4"
  shows "block_component (ptr_add src (2 * y * st))
           (ptr_add src (min (2 * y + 1) (h - 1) * st)) (2 * x) (min (2 * x + 1) (w - 1)) c m'
         = Some (average_of m src st w h y x c)"
proof -
  have y1: "min (2 * y + 1) (h - 1) < h" and x1: "min (2 * x + 1) (w - 1) < w"
    using assms by auto
  note rd = sample_read [OF assms(1,2) _ _ assms(5,6)]
  show ?thesis
    using rd [OF assms(3,4)] rd [OF assms(3) x1] rd [OF y1 assms(4)] rd [OF y1 x1]
    by (simp add: block_component_def average_of_def Let_def)
qed

lemma unat_half_up: "unat n < 2 ^ 32 - 1 \<Longrightarrow> unat (half_up n) = (unat n + 1) div 2"
  by (simp add: half_up_def unat_div unat_word_ariths)

lemma chroma_at_eq:
  assumes "readable m src (extent (nat ss) (unat h) (4 * unat w))" "same_block m m' src"
    and "2 * y < unat h" "2 * x < unat w" "unat w \<le> 2 ^ 30"
  shows "chroma_at src ss w h y x m' =
         Some (u_of m src (nat ss) (unat w) (unat h) y x, v_of m src (nat ss) (unat w) (unat h) y x)"
  using block_component_eq [OF assms, of 0] block_component_eq [OF assms, of 1]
    block_component_eq [OF assms, of 2]
  by (simp add: chroma_at_def next_or_last_min u_of_def v_of_def Let_def mult.commute)


definition cells :: "c_ptr \<Rightarrow> nat \<Rightarrow> nat \<Rightarrow> nat \<Rightarrow> c_ptr set" where
  "cells p st h n = (\<Union>y<h. \<Union>x<n. {ptr_add p (y * st + x)})"

definition cell_row :: "c_ptr \<Rightarrow> nat \<Rightarrow> c_ptr \<Rightarrow> nat" where
  "cell_row p st q = (snd q - snd p) div st"

definition cell_col :: "c_ptr \<Rightarrow> nat \<Rightarrow> c_ptr \<Rightarrow> nat" where
  "cell_col p st q = (snd q - snd p) mod st"

lemma cell_row_col:
  assumes "x < st"
  shows "cell_row p st (ptr_add p (y * st + x)) = y" "cell_col p st (ptr_add p (y * st + x)) = x"
  using assms by (simp_all add: cell_row_def cell_col_def ptr_add_def)

lemma cellsI: "y < h \<Longrightarrow> x < n \<Longrightarrow> ptr_add p (y * st + x) \<in> cells p st h n"
  unfolding cells_def by blast

lemma cellsE:
  assumes "q \<in> cells p st h n"
  obtains y x where "y < h" "x < n" "q = ptr_add p (y * st + x)"
  using assms unfolding cells_def by blast

lemma cells_in_extent: "q \<in> cells p st h n \<Longrightarrow> fst q = fst p \<and> snd p \<le> snd q \<and> snd q < snd p + extent st h n"
  by (erule cellsE) (simp add: ptr_add_def row_in_extent)

lemma outside_blockD:
  "\<forall>p. p \<notin> {p. fst p \<noteq> fst src} \<longrightarrow> byte_at m' p = byte_at m p \<Longrightarrow> same_block m m' src"
  unfolding same_block_def by (simp add: ptr_add_def)

lemma put_two_fills:
  assumes "byte_at m p \<noteq> None" "byte_at m q \<noteq> None"
  shows "\<exists>m'. (put_byte p (v p) m \<bind> put_byte q (v q)) = Some m' \<and> fills m m' ({p} \<union> {q}) v"
proof -
  obtain m1 where m1: "put_byte p (v p) m = Some m1" "fills m m1 {p} v"
    using put_byte_fills [OF assms(1)] by blast
  then have "byte_at m1 q \<noteq> None" using fills_keeps_cell assms(2) by blast
  then obtain m2 where "put_byte q (v q) m1 = Some m2" "fills m1 m2 {q} v"
    using put_byte_fills by blast
  then show ?thesis using m1 fills_trans by fastforce
qed

lemma luma_plane_fills:
  assumes src: "readable m src (extent (nat ss) (unat h) (4 * unat w))"
    and dst: "readable m dst (extent (nat ds) (unat h) (unat w))"
    and apart: "fst dst \<noteq> fst src" and w: "unat w \<le> 2 ^ 30" and ds: "unat w \<le> nat ds"
  shows "\<exists>m'. luma_plane src ss dst ds w h m = Some m'
         \<and> fills m m' (cells dst (nat ds) (unat h) (unat w))
             (\<lambda>p. luma_of m src (nat ss) (cell_row dst (nat ds) p) (cell_col dst (nat ds) p))"
  unfolding luma_plane_def cells_def
proof (rule for_rows_fill [where R = "{p. fst p \<noteq> fst src}"])
  fix y x m'
  assume y: "y < unat h" and x: "x < unat w"
    and same: "\<forall>p. p \<notin> {p. fst p \<noteq> fst src} \<longrightarrow> byte_at m' p = byte_at m p"
    and live: "\<forall>p. byte_at m p \<noteq> None \<longrightarrow> byte_at m' p \<noteq> None"
  let ?p = "ptr_add dst (y * nat ds + x)"
  let ?v = "\<lambda>p. luma_of m src (nat ss) (cell_row dst (nat ds) p) (cell_col dst (nat ds) p)"
  have "byte_at m' ?p \<noteq> None" using live readable_row [OF dst y x] by blast
  then have "\<exists>m''. put_byte ?p (?v ?p) m' = Some m'' \<and> fills m' m'' {?p} ?v"
    by (rule put_byte_fills)
  moreover have "?v ?p = luma_of m src (nat ss) y x"
    using x ds by (simp add: cell_row_col)
  ultimately show "\<exists>m''. luma_at (ptr_add src (y * nat ss)) (ptr_add dst (y * nat ds)) x m' = Some m''
      \<and> fills m' m'' {?p} ?v"
    by (simp add: luma_at_eq [OF src outside_blockD [OF same] y x w])
next
  show "(\<Union>y<unat h. \<Union>x<unat w. {ptr_add dst (y * nat ds + x)}) \<subseteq> {p. fst p \<noteq> fst src}"
    using apart by auto
qed

text \<open>The two chroma layouts differ only in where a sample of row \<open>y\<close> and column \<open>x\<close> goes.\<close>

lemma chroma_loop_fills:
  assumes src: "readable m src (extent (nat ss) (unat h) (4 * unat w))"
    and w: "unat w \<le> 2 ^ 30" and h: "unat h < 2 ^ 32 - 1"
    and cell: "\<And>y x. y < unat (half_up h) \<Longrightarrow> x < unat (half_up w)
        \<Longrightarrow> byte_at m (pu y x) \<noteq> None \<and> byte_at m (pv y x) \<noteq> None
          \<and> fst (pu y x) \<noteq> fst src \<and> fst (pv y x) \<noteq> fst src
          \<and> v (pu y x) = u_of m src (nat ss) (unat w) (unat h) y x
          \<and> v (pv y x) = v_of m src (nat ss) (unat w) (unat h) y x"
  shows "\<exists>m'. for_upto (\<lambda>y. for_upto (\<lambda>x m. do {
             uv \<leftarrow> chroma_at src ss w h y x m;
             m \<leftarrow> put_byte (pu y x) (fst uv) m;
             put_byte (pv y x) (snd uv) m
           }) (unat (half_up w))) (unat (half_up h)) m = Some m'
         \<and> fills m m' (\<Union>y<unat (half_up h). \<Union>x<unat (half_up w). {pu y x} \<union> {pv y x}) v"
proof (rule for_rows_fill [where R = "{p. fst p \<noteq> fst src}"])
  fix y x m'
  assume y: "y < unat (half_up h)" and x: "x < unat (half_up w)"
    and same: "\<forall>p. p \<notin> {p. fst p \<noteq> fst src} \<longrightarrow> byte_at m' p = byte_at m p"
    and live: "\<forall>p. byte_at m p \<noteq> None \<longrightarrow> byte_at m' p \<noteq> None"
  have "2 * y < unat h" "2 * x < unat w"
    using y x h w by (auto simp: unat_half_up)
  then have "chroma_at src ss w h y x m' = Some (v (pu y x), v (pv y x))"
    using chroma_at_eq [OF src outside_blockD [OF same] _ _ w] cell [OF y x] by metis
  moreover have "byte_at m' (pu y x) \<noteq> None" "byte_at m' (pv y x) \<noteq> None"
    using live cell [OF y x] by blast+
  ultimately show "\<exists>m''. (do {
        uv \<leftarrow> chroma_at src ss w h y x m';
        m \<leftarrow> put_byte (pu y x) (fst uv) m';
        put_byte (pv y x) (snd uv) m
      }) = Some m'' \<and> fills m' m'' ({pu y x} \<union> {pv y x}) v"
    using put_two_fills by simp
next
  show "(\<Union>y<unat (half_up h). \<Union>x<unat (half_up w). {pu y x} \<union> {pv y x}) \<subseteq> {p. fst p \<noteq> fst src}"
    using cell by auto
qed

lemma chroma_planes_fills:
  assumes src: "readable m src (extent (nat ss) (unat h) (4 * unat w))"
    and w: "unat w \<le> 2 ^ 30" and h: "unat h < 2 ^ 32 - 1"
    and pu: "readable m pu (extent (nat su) (unat (half_up h)) (unat (half_up w)))"
    and pv: "readable m pv (extent (nat sv) (unat (half_up h)) (unat (half_up w)))"
    and strides: "unat (half_up w) \<le> nat su" "unat (half_up w) \<le> nat sv"
    and block: "fst pv = fst pu" "fst pu \<noteq> fst src"
    and order: "snd pu + extent (nat su) (unat (half_up h)) (unat (half_up w)) \<le> snd pv"
  shows "\<exists>m'. chroma_planes src ss pu su pv sv w h m = Some m'
         \<and> fills m m' (cells pu (nat su) (unat (half_up h)) (unat (half_up w))
                      \<union> cells pv (nat sv) (unat (half_up h)) (unat (half_up w)))
             (\<lambda>p. if snd p < snd pv
               then u_of m src (nat ss) (unat w) (unat h) (cell_row pu (nat su) p) (cell_col pu (nat su) p)
               else v_of m src (nat ss) (unat w) (unat h) (cell_row pv (nat sv) p) (cell_col pv (nat sv) p))"
    (is "\<exists>m'. _ \<and> fills m m' ?A ?v")
proof -
  let ?pu = "\<lambda>y x. ptr_add pu (y * nat su + x)" and ?pv = "\<lambda>y x. ptr_add pv (y * nat sv + x)"
  have set: "(\<Union>y<unat (half_up h). \<Union>x<unat (half_up w). {?pu y x} \<union> {?pv y x}) = ?A"
    unfolding cells_def by blast
  have "byte_at m (?pu y x) \<noteq> None \<and> byte_at m (?pv y x) \<noteq> None
      \<and> fst (?pu y x) \<noteq> fst src \<and> fst (?pv y x) \<noteq> fst src
      \<and> ?v (?pu y x) = u_of m src (nat ss) (unat w) (unat h) y x
      \<and> ?v (?pv y x) = v_of m src (nat ss) (unat w) (unat h) y x"
    if y: "y < unat (half_up h)" and x: "x < unat (half_up w)" for y x
  proof -
    have "snd (?pu y x) < snd pv"
      using row_in_extent [OF y x, of "nat su"] order by (simp add: ptr_add_def)
    moreover have "\<not> snd (?pv y x) < snd pv" by (simp add: ptr_add_def)
    ultimately show ?thesis
      using readable_row [OF pu y x] readable_row [OF pv y x] block strides x
      by (simp add: cell_row_col)
  qed
  then show ?thesis
    using chroma_loop_fills [where pu = ?pu and pv = ?pv and v = ?v, OF src w h]
    unfolding chroma_planes_def set by blast
qed


lemma chroma_interleaved_fills:
  assumes src: "readable m src (extent (nat ss) (unat h) (4 * unat w))"
    and w: "unat w \<le> 2 ^ 30" and h: "unat h < 2 ^ 32 - 1"
    and puv: "readable m puv (extent (nat suv) (unat (half_up h)) (2 * unat (half_up w)))"
    and st: "2 * unat (half_up w) \<le> nat suv" and block: "fst puv \<noteq> fst src"
  shows "\<exists>m'. chroma_interleaved src ss puv suv w h m = Some m'
         \<and> fills m m' (cells puv (nat suv) (unat (half_up h)) (2 * unat (half_up w)))
             (\<lambda>p. uv_of m src (nat ss) (unat w) (unat h) (cell_row puv (nat suv) p) (cell_col puv (nat suv) p))"
    (is "\<exists>m'. _ \<and> fills m m' ?A ?v")
proof -
  let ?pu = "\<lambda>y x. ptr_add puv (y * nat suv + x * 2)"
    and ?pv = "\<lambda>y x. ptr_add puv (y * nat suv + (x * 2 + 1))"
  have set: "(\<Union>y<unat (half_up h). \<Union>x<unat (half_up w). {?pu y x} \<union> {?pv y x}) = ?A"
  proof -
    have "(\<Union>x<n. {f (x * 2)} \<union> {f (x * 2 + 1)}) = (\<Union>x<2 * n. {f x})" for n and f :: "nat \<Rightarrow> c_ptr"
    proof (induction n)
      case (Suc n)
      have "{..<2 * Suc n} = {..<2 * n} \<union> {n * 2, n * 2 + 1}" by auto
      then show ?case using Suc by (simp add: lessThan_Suc)
    qed simp
    from this [of "\<lambda>i. ptr_add puv (y * nat suv + i)" "unat (half_up w)" for y]
    show ?thesis unfolding cells_def by simp
  qed
  have "byte_at m (?pu y x) \<noteq> None \<and> byte_at m (?pv y x) \<noteq> None
      \<and> fst (?pu y x) \<noteq> fst src \<and> fst (?pv y x) \<noteq> fst src
      \<and> ?v (?pu y x) = u_of m src (nat ss) (unat w) (unat h) y x
      \<and> ?v (?pv y x) = v_of m src (nat ss) (unat w) (unat h) y x"
    if y: "y < unat (half_up h)" and x: "x < unat (half_up w)" for y x
  proof -
    have c: "x * 2 < 2 * unat (half_up w)" "x * 2 + 1 < 2 * unat (half_up w)"
      using x by auto
    then have "x * 2 < nat suv" "x * 2 + 1 < nat suv" using st by auto
    then show ?thesis
      using readable_row [OF puv y c(1)] readable_row [OF puv y c(2)] block
      by (simp add: cell_row_col uv_of_def del: add_Suc_right One_nat_def)
  qed
  then show ?thesis
    using chroma_loop_fills [where pu = ?pu and pv = ?pv and v = ?v, OF src w h]
    unfolding chroma_interleaved_def set by blast
qed


section \<open>The layout of the planes\<close>

definition round16 :: "nat \<Rightarrow> nat" where
  "round16 n = (n + 15) div 16 * 16"

definition converter_ok :: "c_mem \<Rightarrow> ('s::len) word l4c_color_converter \<Rightarrow> bool" where
  "converter_ok m c \<longleftrightarrow>
     (let w = unat (cv_width c); h = unat (cv_height c); hh = (h + 1) div 2;
          sy = round16 w; su = round16 ((w + 1) div 2); b = cv_buffer c in
      0 < w \<and> 0 < h \<and> w * h \<le> 8294400
      \<and> stride_y c = int sy \<and> stride_u c = int su \<and> stride_v c = int su \<and> stride_uv c = int sy
      \<and> plane_y c = (b, 0) \<and> plane_u c = (b, sy * h) \<and> plane_v c = (b, sy * h + su * hh)
      \<and> plane_uv c = (b, sy * h + su * hh + su * hh)
      \<and> unat (plane_y_size c) = sy * h \<and> unat (plane_u_size c) = su * hh
      \<and> unat (plane_v_size c) = su * hh \<and> unat (plane_uv_size c) = sy * hh
      \<and> sy * h + su * hh + su * hh + sy * hh \<le> 134217728
      \<and> readable m (b, 0) (sy * h + su * hh + su * hh + sy * hh))"

lemma round16_bounds: "n \<le> round16 n" "round16 n \<le> n + 15"
  by (auto simp: round16_def)

lemma round16_even: "2 * ((n + 1) div 2) \<le> round16 n"
  unfolding round16_def by presburger

lemma int_and_not_mask: "(a :: int) AND NOT (mask n) = a div 2 ^ n * 2 ^ n"
proof -
  have "a AND NOT (mask n) = push_bit n (drop_bit n a)"
    by (rule bit_eqI) (auto simp: bit_simps)
  then show ?thesis by (simp add: push_bit_eq_mult drop_bit_eq_div)
qed

lemma align16_exact: "align16 (int n) = int (round16 n)"
proof -
  have "align16 (int n) = (int n + 15) AND NOT (mask 4)"
    by (simp add: align16_def mask_numeral)
  also have "\<dots> = int (round16 n)"
    unfolding int_and_not_mask round16_def by simp
  finally show ?thesis .
qed

lemma sint_small:
  assumes "unat (w :: u32) < 2 ^ 31"
  shows "sint w = int (unat w)"
proof -
  have "unat w < 2147483648" using assms by simp
  then have "- 2147483648 \<le> int (unat w)" "int (unat w) < 2147483648"
    by linarith+
  then have "signed_take_bit 31 (int (unat w)) = int (unat w)"
    by (intro signed_take_bit_int_eq_self) simp_all
  then show ?thesis by (simp add: sint_uint)
qed

lemma area_exact:
  "L4C_MAX_PIXELS_AREA < ucast (w :: u32) * ucast (h :: u32) \<longleftrightarrow> 8294400 < unat w * unat h"
proof -
  have "unat w * unat h \<le> 2 ^ 32 * 2 ^ 32 - 1"
  proof -
    have "unat w * unat h \<le> (2 ^ 32 - 1) * (2 ^ 32 - 1)"
      using unat_lt [of w] unat_lt [of h] by (intro mult_le_mono) auto
    then show ?thesis by simp
  qed
  then have "unat (ucast w * ucast h :: u64) = unat w * unat h"
    by (subst unat_mult_lem [THEN iffD1]) (simp_all add: unat_ucast_widen)
  then show ?thesis by (simp add: word_less_nat_alt)
qed

lemma unat_of_nat_small: "k < 2 ^ LENGTH('s) \<Longrightarrow> unat (of_nat k :: 's::len word) = k"
  by (simp add: unat_of_nat)

lemma size_as_nat:
  "of_int (int k) * (ucast (h :: u32) :: 's::len word) = of_nat (k * unat h)"
proof -
  have "(ucast h :: 's word) = of_nat (unat h)" by simp
  then show ?thesis by simp
qed

lemma plane_bound:
  assumes "w * h \<le> (8294400 :: nat)" "0 < w" "k \<le> w" "j \<le> h"
  shows "round16 k * j \<le> 132710400"
proof -
  have "round16 k * j \<le> (w + 15) * h"
    using round16_bounds(2) [of k] assms by (intro mult_le_mono) auto
  also have "\<dots> \<le> 16 * (w * h)"
    using assms(2) by (cases w) (auto simp: algebra_simps)
  finally show ?thesis using assms(1) by simp
qed

text \<open>The total size of the planes, and the converter that starts them at block \<open>b\<close>.\<close>

definition planes_total :: "nat \<Rightarrow> nat \<Rightarrow> nat" where
  "planes_total w h =
     (let hh = (h + 1) div 2; sy = round16 w; su = round16 ((w + 1) div 2) in
      sy * h + su * hh + su * hh + sy * hh)"

definition converter_at :: "u32 \<Rightarrow> u32 \<Rightarrow> nat \<Rightarrow> ('s::len) word l4c_color_converter" where
  "converter_at width height b =
     (let w = unat width; h = unat height; hh = (h + 1) div 2;
          sy = round16 w; su = round16 ((w + 1) div 2) in
      \<lparr>cv_width = width, cv_height = height, stride_y = int sy, stride_u = int su,
       stride_v = int su, stride_uv = int sy, plane_y = (b, 0), plane_u = (b, sy * h),
       plane_v = (b, sy * h + su * hh), plane_uv = (b, sy * h + su * hh + su * hh),
       cv_buffer = b, plane_y_size = of_nat (sy * h), plane_u_size = of_nat (su * hh),
       plane_v_size = of_nat (su * hh), plane_uv_size = of_nat (sy * hh)\<rparr>)"

lemma area_factor:
  assumes "a * b \<le> (n :: nat)" "0 < b"
  shows "a \<le> n"
proof -
  have "a * 1 \<le> a * b" using assms(2) by (intro mult_le_mono) auto
  then show ?thesis using assms(1) by linarith
qed

lemma create_strides:
  assumes "0 < unat w" "0 < unat h" "unat w * unat h \<le> 8294400"
  shows "align16 (sint w) = int (round16 (unat w))"
    and "align16 (sint (half_up w)) = int (round16 ((unat w + 1) div 2))"
    and "unat (half_up h) = (unat h + 1) div 2"
proof -
  have w: "unat w \<le> 8294400" using area_factor assms by blast
  have "unat h * unat w \<le> 8294400" using assms(3) by (simp add: mult.commute)
  then have h: "unat h \<le> 8294400" using area_factor assms(1) by blast
  have "sint w = int (unat w)" using w by (intro sint_small) simp
  then show "align16 (sint w) = int (round16 (unat w))" by (simp only: align16_exact)
  have hw: "unat (half_up w) = (unat w + 1) div 2" using w by (simp add: unat_half_up)
  then have "sint (half_up w) = int ((unat w + 1) div 2)"
    using w by (subst sint_small) simp_all
  then show "align16 (sint (half_up w)) = int (round16 ((unat w + 1) div 2))"
    by (simp only: align16_exact)
  show "unat (half_up h) = (unat h + 1) div 2" using h by (simp add: unat_half_up)
qed

lemma planes_total_bound:
  assumes "0 < w" "0 < h" "w * h \<le> 8294400"
  shows "planes_total w h < 2 ^ 32"
proof -
  have le: "(w + 1) div 2 \<le> w" "(h + 1) div 2 \<le> h" using assms by auto
  have "round16 w * h \<le> 132710400" "round16 ((w + 1) div 2) * ((h + 1) div 2) \<le> 132710400"
    "round16 w * ((h + 1) div 2) \<le> 132710400"
    using plane_bound [OF assms(3,1)] le by simp_all
  then show ?thesis by (simp add: planes_total_def Let_def)
qed

lemma unat_below_total:
  assumes "32 \<le> LENGTH('s)" "0 < w" "0 < h" "w * h \<le> 8294400" "k \<le> planes_total w h"
  shows "unat (of_nat k :: 's::len word) = k"
proof -
  have "(2 :: nat) ^ 32 \<le> 2 ^ LENGTH('s)" using assms(1) by (rule power_increasing) simp
  then show ?thesis
    using planes_total_bound [OF assms(2-4)] assms(5) by (intro unat_of_nat_small) linarith
qed

lemma memory_limit_unat:
  assumes "32 \<le> LENGTH('s)"
  shows "unat (L4C_ADMISSION_MEMORY_LIMIT :: 's::len word) = 134217728"
proof -
  have "(2 :: nat) ^ 32 \<le> 2 ^ LENGTH('s)" using assms by (rule power_increasing) simp
  then have "unat (of_nat 134217728 :: 's word) = 134217728"
    by (intro unat_of_nat_small) simp
  then show ?thesis by simp
qed

lemma create_eq:
  fixes malloc :: "'s::len word \<Rightarrow> (nat \<times> bytes) option"
  assumes size: "32 \<le> LENGTH('s)" and pos: "0 < unat w" "0 < unat h"
    and area: "unat w * unat h \<le> 8294400"
  shows "l4c_color_converter_create calloc_ok malloc w h m =
     (if \<not> calloc_ok \<or> 134217728 < planes_total (unat w) (unat h) then Inl L4C_ERR_OUT_OF_MEMORY
      else case malloc (of_nat (planes_total (unat w) (unat h))) of
          None \<Rightarrow> Inl L4C_ERR_OUT_OF_MEMORY
        | Some (b, cs) \<Rightarrow> Inr (converter_at w h b, m(b \<mapsto> cs)))"
proof -
  have nz: "w \<noteq> 0" "h \<noteq> 0" using pos by auto
  define sy su hh where "sy = round16 (unat w)" and "su = round16 ((unat w + 1) div 2)"
    and "hh = (unat h + 1) div 2"
  have total: "planes_total (unat w) (unat h) = sy * unat h + su * hh + su * hh + sy * hh"
    by (simp add: planes_total_def sy_def su_def hh_def Let_def)
  have sizes: "of_int (int sy) * (ucast h :: 's word) = of_nat (sy * unat h)"
    "of_int (int su) * (ucast (half_up h) :: 's word) = of_nat (su * hh)"
    "of_int (int sy) * (ucast (half_up h) :: 's word) = of_nat (sy * hh)"
    unfolding size_as_nat create_strides(3) [OF pos area] hh_def by (rule refl)+
  have exact: "unat (of_nat (sy * unat h) :: 's word) = sy * unat h"
    "unat (of_nat (su * hh) :: 's word) = su * hh"
    by (rule unat_below_total [OF size pos area], simp add: total)+
  have sum: "of_nat (sy * unat h) + of_nat (su * hh) + of_nat (su * hh) + of_nat (sy * hh)
      = (of_nat (planes_total (unat w) (unat h)) :: 's word)"
    by (simp add: total)
  have limit: "L4C_ADMISSION_MEMORY_LIMIT < (of_nat (planes_total (unat w) (unat h)) :: 's word)
      \<longleftrightarrow> 134217728 < planes_total (unat w) (unat h)"
    unfolding word_less_nat_alt memory_limit_unat [OF size]
    by (subst unat_below_total [OF size pos area]) simp_all
  show ?thesis
    unfolding l4c_color_converter_create_def Let_def create_strides [OF pos area]
    unfolding sy_def [symmetric] su_def [symmetric] sizes sum exact limit converter_at_def hh_def
      [symmetric] Let_def
    using nz area
    by (simp add: area_exact ptr_add_def sy_def su_def hh_def del: of_nat_mult split: option.split)
qed

lemma create_layout:
  fixes malloc :: "'s::len word \<Rightarrow> (nat \<times> bytes) option"
  assumes size: "32 \<le> LENGTH('s)"
    and malloc: "\<forall>n b cs. malloc n = Some (b, cs) \<longrightarrow> length cs = unat n"
    and ok: "l4c_color_converter_create calloc_ok malloc w h m = Inr (c, m')"
  shows "converter_ok m' c \<and> c = converter_at w h (cv_buffer c)
         \<and> (\<forall>p. fst p \<noteq> cv_buffer c \<longrightarrow> byte_at m' p = byte_at m p)"
proof -
  have pos: "0 < unat w" "0 < unat h" and area: "unat w * unat h \<le> 8294400"
    using ok area_exact [of w h]
    by (auto simp: l4c_color_converter_create_def unat_gt_0 split: if_splits)
  obtain b cs where b: "malloc (of_nat (planes_total (unat w) (unat h))) = Some (b, cs)"
      "c = converter_at w h b" "m' = m(b \<mapsto> cs)" "planes_total (unat w) (unat h) \<le> 134217728"
    using ok unfolding create_eq [OF size pos area] by (auto split: if_splits option.splits)
  note exact = unat_below_total [OF size pos area]
  have len: "length cs = planes_total (unat w) (unat h)"
    using malloc b(1) exact by simp
  have "readable m' (b, 0) (planes_total (unat w) (unat h))"
    by (simp add: readable_def byte_at_def ptr_add_def b(3) len)
  moreover have "\<forall>p. fst p \<noteq> b \<longrightarrow> byte_at m' p = byte_at m p"
    by (simp add: byte_at_def b(3))
  ultimately show ?thesis
    using pos area b(4) unfolding b(2) converter_ok_def
    by (simp add: converter_at_def Let_def planes_total_def exact del: of_nat_mult)
qed


lemma readable_block: "m b = Some buf \<Longrightarrow> off + n \<le> length buf \<Longrightarrow> readable m (b, off) n"
  by (simp add: readable_def byte_at_def ptr_add_def)

lemma readable_part: "readable m (b, 0) n \<Longrightarrow> off + k \<le> n \<Longrightarrow> readable m (b, off) k"
  by (simp add: readable_def ptr_add_def)

lemma readable_fills: "fills m m' A v \<Longrightarrow> readable m p n \<Longrightarrow> readable m' p n"
  unfolding readable_def using fills_keeps_cell by blast

lemma extent_le: "0 < h \<Longrightarrow> n \<le> st \<Longrightarrow> extent st h n \<le> st * h"
  by (cases h) (simp_all add: extent_def algebra_simps)

lemma same_block_fills: "fills m m' A v \<Longrightarrow> \<forall>p\<in>A. fst p \<noteq> fst src \<Longrightarrow> same_block m m' src"
  unfolding same_block_def using fills_outside by (metis fst_ptr_add)

lemma sample_same: "same_block m m' src \<Longrightarrow> sample m' src = sample m src"
  by (intro ext) (simp add: sample_def same_block_def)

lemma chroma_same:
  assumes "same_block m m' src"
  shows "u_of m' src = u_of m src" "v_of m' src = v_of m src" "uv_of m' src = uv_of m src"
  using sample_same [OF assms] by (auto simp: uv_of_def u_of_def v_of_def average_of_def fun_eq_iff)

lemma cells_block: "q \<in> cells p st h n \<Longrightarrow> fst q = fst p"
  using cells_in_extent by blast

text \<open>Where the planes of a converter lie: inside its block, one after the other.\<close>

lemma converter_planes:
  assumes ok: "converter_ok m c"
  defines "w \<equiv> unat (cv_width c)" and "h \<equiv> unat (cv_height c)"
    and "hw \<equiv> unat (half_up (cv_width c))" and "hh \<equiv> unat (half_up (cv_height c))"
  shows "w \<le> 2 ^ 30" "h < 2 ^ 32 - 1" "w \<le> nat (stride_y c)" "hw \<le> nat (stride_u c)"
    "hw \<le> nat (stride_v c)" "2 * hw \<le> nat (stride_uv c)"
    and "readable m (plane_y c) (extent (nat (stride_y c)) h w)"
    and "readable m (plane_u c) (extent (nat (stride_u c)) hh hw)"
    and "readable m (plane_v c) (extent (nat (stride_v c)) hh hw)"
    and "readable m (plane_uv c) (extent (nat (stride_uv c)) hh (2 * hw))"
    and "snd (plane_y c) + extent (nat (stride_y c)) h w \<le> snd (plane_u c)"
    and "snd (plane_u c) + extent (nat (stride_u c)) hh hw \<le> snd (plane_v c)"
    and "snd (plane_y c) + extent (nat (stride_y c)) h w \<le> snd (plane_uv c)"
    and "fst (plane_y c) = cv_buffer c" "fst (plane_u c) = cv_buffer c"
    and "fst (plane_v c) = cv_buffer c" "fst (plane_uv c) = cv_buffer c"
proof -
  have pos: "0 < w" "0 < h" and area: "w * h \<le> 8294400"
    using ok by (auto simp: converter_ok_def Let_def w_def h_def)
  have w: "w \<le> 8294400" using area_factor area pos by blast
  have "h * w \<le> 8294400" using area by (simp add: mult.commute)
  then have h: "h \<le> 8294400" using area_factor pos by blast
  show "w \<le> 2 ^ 30" "h < 2 ^ 32 - 1" using w h by simp_all
  have half: "hw = (w + 1) div 2" "hh = (h + 1) div 2"
    using w h by (simp_all add: hw_def hh_def w_def h_def unat_half_up)
  define sy su where "sy = round16 w" and "su = round16 ((w + 1) div 2)"
  have st: "stride_y c = int sy" "stride_u c = int su" "stride_v c = int su" "stride_uv c = int sy"
    and pl: "plane_y c = (cv_buffer c, 0)" "plane_u c = (cv_buffer c, sy * h)"
      "plane_v c = (cv_buffer c, sy * h + su * hh)"
      "plane_uv c = (cv_buffer c, sy * h + su * hh + su * hh)"
    and all: "readable m (cv_buffer c, 0) (sy * h + su * hh + su * hh + sy * hh)"
    using ok by (simp_all add: converter_ok_def Let_def w_def h_def sy_def su_def half)
  have le: "w \<le> sy" "hw \<le> su" "2 * hw \<le> sy" and hh: "0 < hh"
    using round16_bounds(1) round16_even pos by (simp_all add: sy_def su_def half)
  note ext = extent_le [OF pos(2) le(1)] extent_le [OF hh le(2)] extent_le [OF hh le(3)]
  show "w \<le> nat (stride_y c)" "hw \<le> nat (stride_u c)" "hw \<le> nat (stride_v c)"
    "2 * hw \<le> nat (stride_uv c)"
    using le by (simp_all add: st)
  show "readable m (plane_y c) (extent (nat (stride_y c)) h w)"
    "readable m (plane_u c) (extent (nat (stride_u c)) hh hw)"
    "readable m (plane_v c) (extent (nat (stride_v c)) hh hw)"
    "readable m (plane_uv c) (extent (nat (stride_uv c)) hh (2 * hw))"
    unfolding st pl nat_int by (rule readable_part [OF all], use ext in simp)+
  show "snd (plane_y c) + extent (nat (stride_y c)) h w \<le> snd (plane_u c)"
    "snd (plane_u c) + extent (nat (stride_u c)) hh hw \<le> snd (plane_v c)"
    "snd (plane_y c) + extent (nat (stride_y c)) h w \<le> snd (plane_uv c)"
    using ext by (simp_all add: st pl)
  show "fst (plane_y c) = cv_buffer c" "fst (plane_u c) = cv_buffer c"
    "fst (plane_v c) = cv_buffer c" "fst (plane_uv c) = cv_buffer c"
    by (simp_all add: pl)
qed

lemma converter_ok_fills: "fills m m' A v \<Longrightarrow> converter_ok m c \<Longrightarrow> converter_ok m' c"
  unfolding converter_ok_def Let_def using readable_fills by blast

section \<open>The conversions write exactly the picture\<close>

definition picture_ready :: "c_mem \<Rightarrow> ('s::len) word l4c_color_converter \<Rightarrow> c_ptr \<Rightarrow> int \<Rightarrow> bool" where
  "picture_ready m c bgra st \<longleftrightarrow>
     converter_ok m c \<and> 0 < st \<and> fst bgra \<noteq> cv_buffer c
     \<and> readable m bgra (extent (nat st) (unat (cv_height c)) (4 * unat (cv_width c)))"

definition shows_luma :: "c_mem \<Rightarrow> ('s::len) word l4c_color_converter \<Rightarrow> c_mem \<Rightarrow> c_ptr \<Rightarrow> int \<Rightarrow> bool" where
  "shows_luma m' c m bgra st \<longleftrightarrow>
     (\<forall>y<unat (cv_height c). \<forall>x<unat (cv_width c).
        byte_at m' (ptr_add (plane_y c) (y * nat (stride_y c) + x)) = Some (luma_of m bgra (nat st) y x))"

text \<open>
  \<open>pu\<close> and \<open>pv\<close> say where the chroma sample of row \<open>y\<close> and column \<open>x\<close> of the half-size planes is.
\<close>

definition shows_chroma ::
    "c_mem \<Rightarrow> ('s::len) word l4c_color_converter \<Rightarrow> (nat \<Rightarrow> nat \<Rightarrow> c_ptr) \<Rightarrow> (nat \<Rightarrow> nat \<Rightarrow> c_ptr)
     \<Rightarrow> c_mem \<Rightarrow> c_ptr \<Rightarrow> int \<Rightarrow> bool" where
  "shows_chroma m' c pu pv m bgra st \<longleftrightarrow>
     (\<forall>y<unat (half_up (cv_height c)). \<forall>x<unat (half_up (cv_width c)).
        byte_at m' (pu y x) = Some (u_of m bgra (nat st) (unat (cv_width c)) (unat (cv_height c)) y x)
        \<and> byte_at m' (pv y x) = Some (v_of m bgra (nat st) (unat (cv_width c)) (unat (cv_height c)) y x))"

definition only_block :: "nat \<Rightarrow> c_mem \<Rightarrow> c_mem \<Rightarrow> bool" where
  "only_block b m m' \<longleftrightarrow> (\<forall>p. fst p \<noteq> b \<longrightarrow> byte_at m' p = byte_at m p)"

lemma only_block_fills: "fills m m' A v \<Longrightarrow> \<forall>p\<in>A. fst p = b \<Longrightarrow> only_block b m m'"
  unfolding only_block_def using fills_outside by blast

lemma only_block_trans: "only_block b m m1 \<Longrightarrow> only_block b m1 m2 \<Longrightarrow> only_block b m m2"
  by (simp add: only_block_def)

lemma picture_ready_fills:
  "fills m m' A v \<Longrightarrow> picture_ready m c bgra st \<Longrightarrow> picture_ready m' c bgra st"
  unfolding picture_ready_def using readable_fills converter_ok_fills by blast

lemma luma_done:
  assumes ready: "picture_ready m c bgra st"
  obtains m1 where
    "luma_plane bgra st (plane_y c) (stride_y c) (cv_width c) (cv_height c) m = Some m1"
    "shows_luma m1 c m bgra st" "only_block (cv_buffer c) m m1" "picture_ready m1 c bgra st"
    "same_block m m1 bgra"
proof -
  have ok: "converter_ok m c" and apart: "fst bgra \<noteq> cv_buffer c"
    and src: "readable m bgra (extent (nat st) (unat (cv_height c)) (4 * unat (cv_width c)))"
    using ready by (simp_all add: picture_ready_def)
  note pl = converter_planes [OF ok]
  have "fst (plane_y c) \<noteq> fst bgra" using apart pl(14) by simp
  then obtain m1 where run: "luma_plane bgra st (plane_y c) (stride_y c) (cv_width c) (cv_height c) m = Some m1"
    and f: "fills m m1 (cells (plane_y c) (nat (stride_y c)) (unat (cv_height c)) (unat (cv_width c)))
       (\<lambda>p. luma_of m bgra (nat st) (cell_row (plane_y c) (nat (stride_y c)) p)
          (cell_col (plane_y c) (nat (stride_y c)) p))"
    using luma_plane_fills [OF src pl(7) _ pl(1,3)] by blast
  have inside: "\<forall>p\<in>cells (plane_y c) (nat (stride_y c)) (unat (cv_height c)) (unat (cv_width c)).
      fst p = cv_buffer c"
    unfolding pl(14) [symmetric] by (intro ballI cells_block)
  have luma: "shows_luma m1 c m bgra st"
    unfolding shows_luma_def using fills_inside [OF f cellsI] pl(3) by (simp add: cell_row_col)
  show thesis
  proof (rule that [OF run luma only_block_fills [OF f inside]])
    show "picture_ready m1 c bgra st"
      by (rule picture_ready_fills [OF f ready])
    show "same_block m m1 bgra" using same_block_fills [OF f] inside apart by simp
  qed
qed


lemma luma_kept:
  assumes f: "fills m1 m2 A v"
    and above: "\<forall>p\<in>A. snd (plane_y c) + extent (nat (stride_y c)) (unat (cv_height c)) (unat (cv_width c)) \<le> snd p"
    and luma: "shows_luma m1 c m bgra st"
  shows "shows_luma m2 c m bgra st"
  unfolding shows_luma_def
proof (intro allI impI)
  fix y x assume y: "y < unat (cv_height c)" and x: "x < unat (cv_width c)"
  let ?p = "ptr_add (plane_y c) (y * nat (stride_y c) + x)"
  have "snd ?p < snd (plane_y c) + extent (nat (stride_y c)) (unat (cv_height c)) (unat (cv_width c))"
    using row_in_extent [OF y x, of "nat (stride_y c)"] by (simp add: ptr_add_def)
  then have "?p \<notin> A" using above by (meson not_less)
  then show "byte_at m2 ?p = Some (luma_of m bgra (nat st) y x)"
    using fills_outside [OF f] luma y x by (simp add: shows_luma_def)
qed

definition i420_frame :: "('s::len) word l4c_color_converter \<Rightarrow> u64 \<Rightarrow> 's word l4c_raw_frame" where
  "i420_frame c pts =
     \<lparr>rf_planes = [Some (plane_y c), Some (plane_u c), Some (plane_v c)],
      rf_strides = [of_int (stride_y c), of_int (stride_u c), of_int (stride_v c)],
      rf_width = cv_width c, rf_height = cv_height c, rf_format = L4C_PIX_FMT_I420,
      rf_pts_ms = pts, rf_force_idr = False,
      rf_plane_sizes = [plane_y_size c, plane_u_size c, plane_v_size c]\<rparr>"

definition nv12_frame :: "('s::len) word l4c_color_converter \<Rightarrow> u64 \<Rightarrow> 's word l4c_raw_frame" where
  "nv12_frame c pts =
     \<lparr>rf_planes = [Some (plane_y c), Some (plane_uv c), None],
      rf_strides = [of_int (stride_y c), of_int (stride_uv c), 0],
      rf_width = cv_width c, rf_height = cv_height c, rf_format = L4C_PIX_FMT_NV12,
      rf_pts_ms = pts, rf_force_idr = False,
      rf_plane_sizes = [plane_y_size c, plane_uv_size c, 0]\<rparr>"

abbreviation u_cell :: "('s::len) word l4c_color_converter \<Rightarrow> nat \<Rightarrow> nat \<Rightarrow> c_ptr" where
  "u_cell c y x \<equiv> ptr_add (plane_u c) (y * nat (stride_u c) + x)"

abbreviation v_cell :: "('s::len) word l4c_color_converter \<Rightarrow> nat \<Rightarrow> nat \<Rightarrow> c_ptr" where
  "v_cell c y x \<equiv> ptr_add (plane_v c) (y * nat (stride_v c) + x)"

abbreviation uv_cell :: "('s::len) word l4c_color_converter \<Rightarrow> nat \<Rightarrow> nat \<Rightarrow> nat \<Rightarrow> c_ptr" where
  "uv_cell c k y x \<equiv> ptr_add (plane_uv c) (y * nat (stride_uv c) + (x * 2 + k))"

lemma i420_picture:
  assumes ready: "picture_ready m c bgra st"
  shows "\<exists>m'. l4c_color_convert_bgra_to_i420 c bgra st pts m = Some (Inr (i420_frame c pts), m')
           \<and> shows_luma m' c m bgra st
           \<and> shows_chroma m' c (u_cell c) (v_cell c) m bgra st
           \<and> only_block (cv_buffer c) m m' \<and> picture_ready m' c bgra st"
proof -
  obtain m1 where run1: "luma_plane bgra st (plane_y c) (stride_y c) (cv_width c) (cv_height c) m = Some m1"
    and luma: "shows_luma m1 c m bgra st" and only1: "only_block (cv_buffer c) m m1"
    and ready1: "picture_ready m1 c bgra st" and same: "same_block m m1 bgra"
    using luma_done [OF ready] .
  have ok: "converter_ok m1 c" and apart: "fst bgra \<noteq> cv_buffer c" and st: "0 < st"
    and src: "readable m1 bgra (extent (nat st) (unat (cv_height c)) (4 * unat (cv_width c)))"
    using ready1 by (simp_all add: picture_ready_def)
  note pl = converter_planes [OF ok]
  have blk: "fst (plane_v c) = fst (plane_u c)" "fst (plane_u c) \<noteq> fst bgra"
    using pl(15,16) apart by simp_all
  let ?hh = "unat (half_up (cv_height c))" and ?hw = "unat (half_up (cv_width c))"
  let ?A = "cells (plane_u c) (nat (stride_u c)) ?hh ?hw \<union> cells (plane_v c) (nat (stride_v c)) ?hh ?hw"
  obtain m2 where run2: "chroma_planes bgra st (plane_u c) (stride_u c) (plane_v c) (stride_v c)
        (cv_width c) (cv_height c) m1 = Some m2"
    and f: "fills m1 m2 ?A (\<lambda>p. if snd p < snd (plane_v c)
        then u_of m bgra (nat st) (unat (cv_width c)) (unat (cv_height c))
          (cell_row (plane_u c) (nat (stride_u c)) p) (cell_col (plane_u c) (nat (stride_u c)) p)
        else v_of m bgra (nat st) (unat (cv_width c)) (unat (cv_height c))
          (cell_row (plane_v c) (nat (stride_v c)) p) (cell_col (plane_v c) (nat (stride_v c)) p))"
    using chroma_planes_fills [OF src pl(1,2,8,9,4,5) blk pl(12)]
    unfolding chroma_same [OF same] by blast
  have in_block: "\<forall>p\<in>?A. fst p = cv_buffer c"
    using cells_block pl(15,16) by (metis UnE)
  have above: "\<forall>p\<in>?A. snd (plane_y c) + extent (nat (stride_y c)) (unat (cv_height c)) (unat (cv_width c)) \<le> snd p"
    using cells_in_extent pl(11,12) by fastforce
  have "shows_chroma m2 c (u_cell c) (v_cell c) m bgra st"
    unfolding shows_chroma_def
  proof (intro allI impI)
    fix y x assume y: "y < ?hh" and x: "x < ?hw"
    have "snd (u_cell c y x) < snd (plane_v c)"
      using row_in_extent [OF y x, of "nat (stride_u c)"] pl(12) by (simp add: ptr_add_def)
    moreover have "\<not> snd (v_cell c y x) < snd (plane_v c)" by (simp add: ptr_add_def)
    moreover have "u_cell c y x \<in> ?A" "v_cell c y x \<in> ?A" using cellsI [OF y x] by blast+
    ultimately show "byte_at m2 (u_cell c y x) = Some (u_of m bgra (nat st) (unat (cv_width c)) (unat (cv_height c)) y x)
      \<and> byte_at m2 (v_cell c y x) = Some (v_of m bgra (nat st) (unat (cv_width c)) (unat (cv_height c)) y x)"
      using fills_inside [OF f] x pl(4,5) by (simp add: cell_row_col)
  qed
  moreover have "picture_ready m2 c bgra st"
    by (rule picture_ready_fills [OF f ready1])
  moreover have "only_block (cv_buffer c) m m2"
    using only_block_trans only1 only_block_fills [OF f in_block] by blast
  ultimately show ?thesis
    using run1 run2 st luma_kept [OF f above luma]
    by (simp add: l4c_color_convert_bgra_to_i420_def i420_frame_def Let_def)
qed


lemma nv12_frame_run:
  assumes ready: "picture_ready m c bgra st"
  shows "l4c_color_convert_bgra_to_nv12_frame c bgra st pts m =
     (luma_plane bgra st (plane_y c) (stride_y c) (cv_width c) (cv_height c) m
      \<bind> chroma_interleaved bgra st (plane_uv c) (stride_uv c) (cv_width c) (cv_height c))
     \<bind> (\<lambda>m'. Some (Inr (nv12_frame c pts), m'))"
proof -
  have ok: "converter_ok m c" and st: "0 < st" using ready by (simp_all add: picture_ready_def)
  note pl = converter_planes [OF ok]
  have nz: "cv_width c \<noteq> 0" "cv_height c \<noteq> 0"
    and area: "unat (cv_width c) * unat (cv_height c) \<le> 8294400"
    using ok by (auto simp: converter_ok_def Let_def)
  have "sint (cv_width c) = int (unat (cv_width c))" using pl(1) by (intro sint_small) simp
  moreover have "stride_uv c = stride_y c" using ok by (simp add: converter_ok_def Let_def)
  moreover have "int (unat (cv_width c)) \<le> stride_y c"
    using ok round16_bounds(1) [of "unat (cv_width c)"] by (simp only: converter_ok_def Let_def of_nat_le_iff)
  ultimately have strides: "sint (cv_width c) \<le> stride_y c" "sint (cv_width c) \<le> stride_uv c"
    by simp_all
  have no_area: "\<not> L4C_MAX_PIXELS_AREA < ucast (cv_width c) * ucast (cv_height c)"
    using area by (simp only: area_exact not_less)
  show ?thesis
    using st nz strides
    by (simp add: l4c_color_convert_bgra_to_nv12_frame_def l4c_color_convert_bgra_to_nv12_def
        no_area nv12_frame_def Let_def split: Option.bind_split)
qed

lemma nv12_picture:
  assumes ready: "picture_ready m c bgra st"
  shows "\<exists>m'. l4c_color_convert_bgra_to_nv12_frame c bgra st pts m = Some (Inr (nv12_frame c pts), m')
           \<and> shows_luma m' c m bgra st
           \<and> shows_chroma m' c (uv_cell c 0) (uv_cell c 1) m bgra st
           \<and> only_block (cv_buffer c) m m' \<and> picture_ready m' c bgra st"
proof -
  obtain m1 where run1: "luma_plane bgra st (plane_y c) (stride_y c) (cv_width c) (cv_height c) m = Some m1"
    and luma: "shows_luma m1 c m bgra st" and only1: "only_block (cv_buffer c) m m1"
    and ready1: "picture_ready m1 c bgra st" and same: "same_block m m1 bgra"
    using luma_done [OF ready] .
  have ok: "converter_ok m1 c" and apart: "fst bgra \<noteq> cv_buffer c"
    and src: "readable m1 bgra (extent (nat st) (unat (cv_height c)) (4 * unat (cv_width c)))"
    using ready1 by (simp_all add: picture_ready_def)
  note pl = converter_planes [OF ok]
  have blk: "fst (plane_uv c) \<noteq> fst bgra" using pl(17) apart by simp
  let ?hh = "unat (half_up (cv_height c))" and ?hw = "unat (half_up (cv_width c))"
  let ?A = "cells (plane_uv c) (nat (stride_uv c)) ?hh (2 * ?hw)"
  obtain m2 where run2: "chroma_interleaved bgra st (plane_uv c) (stride_uv c) (cv_width c) (cv_height c) m1 = Some m2"
    and f: "fills m1 m2 ?A (\<lambda>p. uv_of m bgra (nat st) (unat (cv_width c)) (unat (cv_height c))
        (cell_row (plane_uv c) (nat (stride_uv c)) p) (cell_col (plane_uv c) (nat (stride_uv c)) p))"
    using chroma_interleaved_fills [OF src pl(1,2,10,6) blk, unfolded chroma_same [OF same]]
    by (elim exE conjE)
  have in_block: "\<forall>p\<in>?A. fst p = cv_buffer c"
    unfolding pl(17) [symmetric] by (intro ballI cells_block)
  have above: "\<forall>p\<in>?A. snd (plane_y c) + extent (nat (stride_y c)) (unat (cv_height c)) (unat (cv_width c)) \<le> snd p"
    using cells_in_extent pl(13) by fastforce
  have "shows_chroma m2 c (uv_cell c 0) (uv_cell c 1) m bgra st"
    unfolding shows_chroma_def
  proof (intro allI impI)
    fix y x assume y: "y < ?hh" and x: "x < ?hw"
    have col: "x * 2 + 0 < 2 * ?hw" "x * 2 + 1 < 2 * ?hw" using x by simp_all
    then have "x * 2 + 0 < nat (stride_uv c)" "x * 2 + 1 < nat (stride_uv c)"
      using pl(6) by linarith+
    then show "byte_at m2 (uv_cell c 0 y x) = Some (u_of m bgra (nat st) (unat (cv_width c)) (unat (cv_height c)) y x)
      \<and> byte_at m2 (uv_cell c 1 y x) = Some (v_of m bgra (nat st) (unat (cv_width c)) (unat (cv_height c)) y x)"
      using fills_inside [OF f cellsI [OF y col(1)]] fills_inside [OF f cellsI [OF y col(2)]]
      by (simp add: cell_row_col uv_of_def del: add_Suc_right One_nat_def)
  qed
  moreover have "only_block (cv_buffer c) m m2"
    using only_block_trans only1 only_block_fills [OF f in_block] by blast
  ultimately show ?thesis
    using run1 run2 luma_kept [OF f above luma] picture_ready_fills [OF f ready1]
    by (simp add: nv12_frame_run [OF ready])
qed

section \<open>Properties\<close>

text \<open>
  C37: Both conversions of a picture that fits, into the planes of a converter as created, return
  success and give the same picture in two layouts: every cell of the luma plane is the luma of
  its pixel, in both results; the interleaved plane of NV12 alternates the cells of the U and V
  planes of I420, which are the chroma of the averaged 2x2 blocks (a missing right or lower
  neighbour is replaced by the last column or row); no byte outside the converter's block changes.
\<close>

theorem nv12_is_interleaved_i420:
  assumes "picture_ready m c bgra st"
  shows "\<exists>m1 m2. l4c_color_convert_bgra_to_i420 c bgra st pts m = Some (Inr (i420_frame c pts), m1)
     \<and> l4c_color_convert_bgra_to_nv12_frame c bgra st pts m = Some (Inr (nv12_frame c pts), m2)
     \<and> shows_luma m1 c m bgra st \<and> shows_luma m2 c m bgra st
     \<and> shows_chroma m1 c (u_cell c) (v_cell c) m bgra st
     \<and> (\<forall>y<unat (half_up (cv_height c)). \<forall>x<unat (half_up (cv_width c)).
          byte_at m2 (uv_cell c 0 y x) = byte_at m1 (u_cell c y x)
          \<and> byte_at m2 (uv_cell c 1 y x) = byte_at m1 (v_cell c y x))
     \<and> only_block (cv_buffer c) m m1 \<and> only_block (cv_buffer c) m m2"
proof -
  obtain m1 where m1: "l4c_color_convert_bgra_to_i420 c bgra st pts m = Some (Inr (i420_frame c pts), m1)"
    "shows_luma m1 c m bgra st" "shows_chroma m1 c (u_cell c) (v_cell c) m bgra st"
    "only_block (cv_buffer c) m m1"
    using i420_picture [OF assms] by blast
  obtain m2 where m2: "l4c_color_convert_bgra_to_nv12_frame c bgra st pts m = Some (Inr (nv12_frame c pts), m2)"
    "shows_luma m2 c m bgra st" "shows_chroma m2 c (uv_cell c 0) (uv_cell c 1) m bgra st"
    "only_block (cv_buffer c) m m2"
    using nv12_picture [OF assms] by blast
  have "\<forall>y<unat (half_up (cv_height c)). \<forall>x<unat (half_up (cv_width c)).
      byte_at m2 (uv_cell c 0 y x) = byte_at m1 (u_cell c y x)
      \<and> byte_at m2 (uv_cell c 1 y x) = byte_at m1 (v_cell c y x)"
    using m1(3) m2(3) unfolding shows_chroma_def by simp
  then show ?thesis using m1 m2 by blast
qed

definition demo_memory :: c_mem where
  "demo_memory = [0 \<mapsto> replicate 12 200, 1 \<mapsto> replicate 64 0]"

theorem nv12_is_interleaved_i420_witness:
  "\<exists>m1 m2. l4c_color_convert_bgra_to_i420 (converter_at 3 1 1 :: 64 word l4c_color_converter) (0, 0) 12 7 demo_memory
       = Some (Inr (i420_frame (converter_at 3 1 1) 7), m1)
     \<and> l4c_color_convert_bgra_to_nv12_frame (converter_at 3 1 1 :: 64 word l4c_color_converter) (0, 0) 12 7 demo_memory
       = Some (Inr (nv12_frame (converter_at 3 1 1) 7), m2)
     \<and> shows_luma m1 (converter_at 3 1 1 :: 64 word l4c_color_converter) demo_memory (0, 0) 12"
proof -
  have "picture_ready demo_memory (converter_at 3 1 1 :: 64 word l4c_color_converter) (0, 0) 12"
  proof -
    have "readable demo_memory (0, 0) 12" "readable demo_memory (1, 0) 64"
      by (rule readable_block, simp add: demo_memory_def, simp)+
    then show ?thesis
      by (simp add: picture_ready_def converter_ok_def converter_at_def round16_def extent_def Let_def)
  qed
  then show ?thesis using nv12_is_interleaved_i420 by blast
qed


lemma average_of_range: "rgb_range (average_of m src st w h y x 0) (average_of m src st w h y x 1)
    (average_of m src st w h y x 2)"
  using box_average_range by (simp add: rgb_range_def average_of_def Let_def)

text \<open>
  The fixed-point formulas need no limit_to and stay in the limited range of BT.601: the luma of
  a pixel is the rounded weighted sum, between 16 and 235; the chroma samples of every block of
  every picture are the rounded weighted sums of the block's averages, between 16 and 240; and
  a block of one grey has the neutral chroma 128.
\<close>

theorem colour_formulas_exact:
  "uint (luma b g r) = (66 * uint r + 129 * uint g + 25 * uint b + 128) div 256 + 16
   \<and> 16 \<le> uint (luma b g r) \<and> uint (luma b g r) \<le> 235
   \<and> uint (u_of m src st w h y x) = (- 38 * average_of m src st w h y x 2
        - 74 * average_of m src st w h y x 1 + 112 * average_of m src st w h y x 0 + 128) div 256 + 128
   \<and> 16 \<le> uint (u_of m src st w h y x) \<and> uint (u_of m src st w h y x) \<le> 240
   \<and> uint (v_of m src st w h y x) = (112 * average_of m src st w h y x 2
        - 94 * average_of m src st w h y x 1 - 18 * average_of m src st w h y x 0 + 128) div 256 + 128
   \<and> 16 \<le> uint (v_of m src st w h y x) \<and> uint (v_of m src st w h y x) \<le> 240
   \<and> chroma_u (box_average a a a a) (box_average a a a a) (box_average a a a a) = 128
   \<and> chroma_v (box_average a a a a) (box_average a a a a) (box_average a a a a) = 128"
proof -
  note avg = average_of_range [of m src st w h y x]
  have "chroma_u n n n = 128" "chroma_v n n n = 128" for n
    by (simp_all add: chroma_u_def chroma_v_def limit_to_def shift_eight)
  then show ?thesis
    using luma_range [OF rgb_range_bytes, of r g b] chroma_u_range [OF avg] chroma_v_range [OF avg]
    unfolding luma_value u_of_def v_of_def chroma_u_value [OF avg] chroma_v_value [OF avg]
    by (intro conjI) simp_all
qed

text \<open>
  Creating a converter with a working allocator succeeds exactly when the picture is not empty,
  has at most the admitted number of pixels, and its four planes together stay within the memory
  limit; no size computation wraps, on 32 or 64 bits. The converter it returns has its planes one
  after the other inside the block that was allocated, with rows at a multiple of 16 bytes that
  hold the picture, and no other block changes.
\<close>

theorem converter_create_exact:
  fixes malloc :: "'s::len word \<Rightarrow> (nat \<times> bytes) option"
  assumes "32 \<le> LENGTH('s)"
    and "\<forall>n. \<exists>b cs. malloc n = Some (b, cs) \<and> length cs = unat n"
  shows "(if w = 0 \<or> h = 0 then l4c_color_converter_create True malloc w h m = Inl L4C_ERR_INVALID_ARG
     else if 8294400 < unat w * unat h then l4c_color_converter_create True malloc w h m = Inl L4C_ERR_OVERFLOW
     else if 134217728 < planes_total (unat w) (unat h)
     then l4c_color_converter_create True malloc w h m = Inl L4C_ERR_OUT_OF_MEMORY
     else (\<exists>b m'. l4c_color_converter_create True malloc w h m = Inr (converter_at w h b, m')
             \<and> converter_ok m' (converter_at w h b :: 's word l4c_color_converter) \<and> only_block b m m'))"
proof (cases "w = 0 \<or> h = 0 \<or> 8294400 < unat w * unat h")
  case True
  then show ?thesis by (auto simp: l4c_color_converter_create_def area_exact)
next
  case False
  then have pos: "0 < unat w" "0 < unat h" and area: "unat w * unat h \<le> 8294400"
    by (auto simp: unat_gt_0)
  note eq = create_eq [OF assms(1) pos area, of True malloc m]
  show ?thesis
  proof (cases "134217728 < planes_total (unat w) (unat h)")
    case True
    then show ?thesis using eq False by simp
  next
    case small: False
    obtain b cs where b: "malloc (of_nat (planes_total (unat w) (unat h))) = Some (b, cs)"
      using assms(2) by blast
    have run: "l4c_color_converter_create True malloc w h m = Inr (converter_at w h b, m(b \<mapsto> cs))"
      using eq small b by simp
    have "\<forall>n b cs. malloc n = Some (b, cs) \<longrightarrow> length cs = unat n"
      using assms(2) by (metis option.inject prod.inject)
    from create_layout [OF assms(1) this run] show ?thesis
      using run False small by (auto simp: only_block_def converter_at_def Let_def)
  qed
qed

theorem converter_create_exact_witness:
  "\<exists>b m'. l4c_color_converter_create True (\<lambda>n :: u64. Some (1, replicate (unat n) 0)) 3 1 (\<lambda>_. None)
       = Inr (converter_at 3 1 b, m')
     \<and> converter_ok m' (converter_at 3 1 b :: 64 word l4c_color_converter)"
  using converter_create_exact [of "\<lambda>n :: u64. Some (1, replicate (unat n) 0)" 3 1 "\<lambda>_. None"]
  by (simp add: planes_total_def round16_def) blast

text \<open>
  The stride check of the conversion into buffers of the caller admits a stride equal to an odd
  width, but the interleaved row has one byte more: the last chroma sample of the plane is written
  behind its end.
\<close>

lemma nv12_odd_stride_overrun:
  "l4c_color_convert_bgra_to_nv12 (None :: 64 word l4c_color_converter option) (0, 0) 4 (Some (1, 0)) 1
     (Some (2, 0)) 1 1 1 [0 \<mapsto> [10, 20, 30, 0], 1 \<mapsto> [0], 2 \<mapsto> [0]] = None"
proof -
  have "unat (half_up 1) = Suc 0" by (simp add: unat_half_up)
  then show ?thesis
    by (simp add: l4c_color_convert_bgra_to_nv12_def luma_plane_def chroma_interleaved_def
        luma_at_def chroma_at_def block_component_def next_or_last_def byte_at_def put_byte_def
        ptr_add_def pix_def Let_def)
qed

end
