(* ===== verification/Sql_Validator.thy ===== *)
theory Sql_Validator
  imports C_Text
begin

text \<open>
  The gate of the database client, \<open>tools/l4sql/src/sql_validator.c\<close>: the expansion of shortcuts,
  the tokenizer, and the validation that only lets read queries and procedures with the prefix
  \<open>l4_\<close> through. The validation is compared with a grammar of token sequences; concrete texts show
  what the grammar lets pass.
\<close>

section \<open>Definitions of the source\<close>

abbreviation QUOTE :: char where "QUOTE \<equiv> CHR 0x27"
abbreviation NL :: char where "NL \<equiv> CHR 0x0A"
abbreviation CR :: char where "CR \<equiv> CHR 0x0D"

datatype SqlValidationResult =
  SQL_VALID_OK | SQL_ERR_EMPTY | SQL_ERR_FORBIDDEN_KEYWORD | SQL_ERR_SP_PREFIX_REQUIRED
| SQL_ERR_INVALID_SYNTAX

definition FORBIDDEN_KEYWORDS :: "string list" where
  "FORBIDDEN_KEYWORDS =
     [''INSERT'', ''UPDATE'', ''DELETE'', ''DROP'', ''ALTER'', ''CREATE'', ''TRUNCATE'', ''MERGE'',
      ''GRANT'', ''REVOKE'', ''DENY'', ''BULK'', ''OPENROWSET'', ''OPENDATASOURCE'', ''XP_CMDSHELL'',
      ''SP_EXECUTESQL'', ''WRITETEXT'', ''UPDATETEXT'']"

definition trim :: "string \<Rightarrow> string" where
  "trim s = rev (dropWhile isspace (rev (dropWhile isspace s)))"

definition is_word_char :: "char \<Rightarrow> bool" where
  "is_word_char c \<longleftrightarrow> isalnum c \<or> c = CHR ''_'' \<or> c = CHR ''$'' \<or> c = CHR ''@'' \<or> c = CHR ''#''"

text \<open>
  The loop over the text after \<open>select\<close>: whether it meets \<open>from\<close> or a character or word of a full
  query. The first argument says that the position starts a word.
\<close>

fun select_is_full :: "bool \<Rightarrow> string \<Rightarrow> bool" where
  "select_is_full word_start [] = False"
| "select_is_full word_start (c # p) =
     (if c \<in> set '',()=<>'' then True
      else if word_start \<and> starts_nocase (c # p) ''from''
              \<and> \<not> (case drop 4 (c # p) of [] \<Rightarrow> False | d # _ \<Rightarrow> is_word_char d) then True
      else if word_start \<and> (starts_nocase (c # p) ''top'' \<or> starts_nocase (c # p) ''distinct''
              \<or> starts_nocase (c # p) ''where'') then True
      else select_is_full (\<not> is_word_char c) p)"

text \<open>\<open>None\<close>: the output was not written (no room); otherwise the text of the output buffer.\<close>

definition sql_validator_expand_shortcuts :: "string \<Rightarrow> nat \<Rightarrow> string option" where
  "sql_validator_expand_shortcuts input_sql out_max =
     (if out_max = 0 then None
      else
        let trimmed = trim (take 4095 input_sql);
            rest = dropWhile isspace (drop 7 trimmed) in
        if trimmed = [] then Some []
        else if (starts_nocase trimmed ''tb_'' \<or> starts_nocase trimmed ''[tb_''
                 \<or> strstr trimmed ''.tb_'' \<noteq> None \<or> strstr trimmed ''.[tb_'' \<noteq> None)
                \<and> \<not> starts_nocase trimmed ''select'' \<and> \<not> starts_nocase trimmed ''exec''
                \<and> \<not> starts_nocase trimmed ''with''
        then Some (take (out_max - 1) (''SELECT * FROM '' @ trimmed))
        else if starts_nocase trimmed ''select '' \<and> \<not> select_is_full True rest \<and> rest \<noteq> []
        then Some (take (out_max - 1) (''SELECT * FROM '' @ rest))
        else Some (take (out_max - 1) trimmed))"

text \<open>The text behind a block comment whose opening was read.\<close>

fun skip_block :: "string \<Rightarrow> string" where
  "skip_block [] = []"
| "skip_block (c # s) =
     (if c = CHR ''*'' \<and> s \<noteq> [] \<and> hd s = CHR ''/'' then tl s else skip_block s)"

lemma skip_block_length: "length (skip_block s) \<le> length s"
  by (induction s rule: skip_block.induct) (auto simp: le_SucI)

function skip_whitespace_and_comments :: "string \<Rightarrow> string" where
  "skip_whitespace_and_comments [] = []"
| "skip_whitespace_and_comments (c # s) =
     (if isspace c then skip_whitespace_and_comments s
      else if c = CHR ''-'' \<and> s \<noteq> [] \<and> hd s = CHR ''-''
      then skip_whitespace_and_comments (dropWhile (\<lambda>d. d \<noteq> NL \<and> d \<noteq> CR) (tl s))
      else if c = CHR ''/'' \<and> s \<noteq> [] \<and> hd s = CHR ''*''
      then skip_whitespace_and_comments (skip_block (tl s))
      else c # s)"
  by pat_completeness auto
termination
proof (relation "measure length", goal_cases)
  case (3 c s)
  have "length (dropWhile (\<lambda>d. d \<noteq> NL \<and> d \<noteq> CR) (tl s)) \<le> length (tl s)" by (rule length_dropWhile_le)
  then show ?case by (cases s) auto
next
  case (4 c s)
  then show ?case using skip_block_length [of "tl s"] by (cases s) auto
qed auto

text \<open>A string literal behind its opening quote: its characters, the closing quote included, and
  the text behind it.\<close>

fun literal_rest :: "string \<Rightarrow> string \<times> string" where
  "literal_rest [] = ([], [])"
| "literal_rest [c] = ([c], [])"
| "literal_rest (c # d # s) =
     (if c = QUOTE
      then if d = QUOTE then (let (t, r) = literal_rest s in (c # d # t, r)) else ([c], d # s)
      else (let (t, r) = literal_rest (d # s) in (c # t, r)))"

definition bracketed :: "string \<Rightarrow> string \<times> string" where
  "bracketed p =
     (let t = takeWhile (\<lambda>c. c \<noteq> CHR '']'') p; r = dropWhile (\<lambda>c. c \<noteq> CHR '']'') p in
      if r = [] then (t, []) else (t @ [hd r], tl r))"

text \<open>The next token, cut to the room of its buffer, and the text behind it.\<close>

definition get_next_token :: "string \<Rightarrow> nat \<Rightarrow> string \<times> string" where
  "get_next_token p token_max =
     (case skip_whitespace_and_comments p of
        [] \<Rightarrow> ([], [])
      | c # s \<Rightarrow>
          if c = QUOTE then (let (t, r) = literal_rest s in (take (token_max - 1) (c # t), r))
          else if c = CHR ''['' then (let (t, r) = bracketed (c # s) in (take (token_max - 1) t, r))
          else if is_word_char c
          then (take (token_max - 1) (takeWhile is_word_char (c # s)), dropWhile is_word_char (c # s))
          else ([c], s))"

definition extract_clean_proc_name :: "string \<Rightarrow> nat \<Rightarrow> string" where
  "extract_clean_proc_name raw_proc clean_max =
     take (clean_max - 1)
       (filter (\<lambda>c. c \<noteq> CHR ''['' \<and> c \<noteq> CHR '']'' \<and> c \<noteq> CHR 0x22 \<and> \<not> isspace c)
         (rev (takeWhile (\<lambda>c. c \<noteq> CHR ''.'') (rev raw_proc))))"


lemma skip_length: "length (skip_whitespace_and_comments s) \<le> length s"
proof (induction s rule: skip_whitespace_and_comments.induct)
  case (2 c s)
  have "length (dropWhile (\<lambda>d. d \<noteq> NL \<and> d \<noteq> CR) (tl s)) \<le> length s"
    by (metis length_dropWhile_le length_tl diff_le_self order_trans)
  moreover have "length (skip_block (tl s)) \<le> length s"
    by (metis skip_block_length length_tl diff_le_self order_trans)
  ultimately show ?case using 2 by (auto intro: le_SucI)
qed simp

lemma literal_rest_length: "length (snd (literal_rest s)) \<le> length s"
  by (induction s rule: literal_rest.induct) (auto split: prod.splits)

lemma bracketed_length: "s \<noteq> [] \<Longrightarrow> hd s = CHR ''['' \<Longrightarrow> length (snd (bracketed s)) < length s"
  using length_dropWhile_le [of "\<lambda>c. c \<noteq> CHR '']''" "tl s"]
  by (cases s) (auto simp: bracketed_def Let_def dest!: sym [of "dropWhile _ _"])

lemma get_next_token_shorter:
  assumes "get_next_token p n = (t, r)" "t \<noteq> []"
  shows "length r < length p"
proof (cases "skip_whitespace_and_comments p")
  case Nil
  then show ?thesis using assms by (simp add: get_next_token_def)
next
  case (Cons c s)
  then have le: "length (c # s) \<le> length p" using skip_length [of p] by simp
  have w: "length (dropWhile is_word_char s) \<le> length s" by (rule length_dropWhile_le)
  have "length r < length (c # s)"
    using assms Cons literal_rest_length [of s] bracketed_length [of "c # s"] w
    by (auto simp: get_next_token_def Let_def split: if_splits prod.splits)
  then show ?thesis using le by simp
qed

text \<open>The loop that reads a qualified procedure name; the buffer holds 511 characters.\<close>

function qualified_name :: "string \<Rightarrow> string \<Rightarrow> string \<times> string" where
  "qualified_name full_proc p =
     (if p = [] then (full_proc, p)
      else
        let (next_token, next_p) = get_next_token p 256 in
        if next_token \<noteq> [] \<and> hd next_token = CHR ''.''
        then
          let full_proc = take 511 (full_proc @ ''.'');
              (token2, p2) = get_next_token next_p 256 in
          if token2 \<noteq> [] then qualified_name (take 511 (full_proc @ token2)) p2
          else qualified_name full_proc next_p
        else (full_proc, p))"
  by pat_completeness auto
termination
  by (relation "measure (length \<circ> snd)")
     (auto dest!: get_next_token_shorter [OF sym] intro: less_trans)

declare qualified_name.simps [simp del]

lemma qualified_name_length: "length (snd (qualified_name full p)) \<le> length p"
proof (induction full p rule: qualified_name.induct)
  case (1 full p)
  obtain t q where t: "get_next_token p 256 = (t, q)" by fastforce
  obtain t2 q2 where t2: "get_next_token q 256 = (t2, q2)" by fastforce
  show ?case
  proof (cases "p = [] \<or> t = [] \<or> hd t \<noteq> CHR ''.''")
    case True
    then show ?thesis by (subst qualified_name.simps) (auto simp: t)
  next
    case False
    then have "length q < length p" using get_next_token_shorter t by blast
    moreover have "t2 \<noteq> [] \<Longrightarrow> length q2 < length q" using get_next_token_shorter t2 by blast
    moreover note IH = 1(1) [OF _ t [symmetric] refl _ refl t2 [symmetric] refl]
      and IH2 = 1(2) [OF _ t [symmetric] refl _ refl t2 [symmetric] refl]
    ultimately show ?thesis
      using False by (subst qualified_name.simps) (auto simp: t t2 Let_def intro: order_trans)
  qed
qed

definition blocked_command :: "string \<Rightarrow> string" where
  "blocked_command token = ''Blocked command '' @ [QUOTE] @ token @ [QUOTE]
     @ '': only SELECT / read-only queries and '' @ [QUOTE] @ ''EXEC l4_*'' @ [QUOTE]
     @ '' procedures are permitted''"

definition blocked_procedure :: "string \<Rightarrow> string" where
  "blocked_procedure name = ''Blocked procedure '' @ [QUOTE] @ name @ [QUOTE]
     @ '': only stored procedures with '' @ [QUOTE] @ ''l4_'' @ [QUOTE]
     @ '' prefix are permitted (e.g. '' @ [QUOTE] @ ''EXEC l4_...'' @ [QUOTE] @ '')''"

definition blocked_keyword :: "string \<Rightarrow> string" where
  "blocked_keyword token = ''Blocked keyword '' @ [QUOTE] @ token @ [QUOTE]
     @ '': modification/DDL operations are prohibited in read-only mode''"

definition blocked_into :: string where
  "blocked_into = ''Blocked '' @ [QUOTE] @ ''INTO'' @ [QUOTE]
     @ '' keyword: creating tables via SELECT INTO is prohibited''"

definition read_keyword :: "string \<Rightarrow> bool" where
  "read_keyword token \<longleftrightarrow> same_nocase token ''SELECT'' \<or> same_nocase token ''WITH''
     \<or> same_nocase token ''SHOW'' \<or> same_nocase token ''DESCRIBE'' \<or> same_nocase token ''EXPLAIN''"

definition exec_keyword :: "string \<Rightarrow> bool" where
  "exec_keyword token \<longleftrightarrow> same_nocase token ''EXEC'' \<or> same_nocase token ''EXECUTE''"

definition forbidden :: "string \<Rightarrow> bool" where
  "forbidden token \<longleftrightarrow> list_ex (same_nocase token) FORBIDDEN_KEYWORDS"

function validate_loop ::
    "bool \<Rightarrow> bool \<Rightarrow> bool \<Rightarrow> string \<Rightarrow> SqlValidationResult \<times> string" where
  "validate_loop statement_started is_exec checked_proc_name p =
     (if p = [] then (SQL_VALID_OK, [])
      else
        let (token, p) = get_next_token p 256 in
        if token = [] then (SQL_VALID_OK, [])
        else if hd token = CHR '';'' then validate_loop False False False p
        else if \<not> statement_started
        then
          if read_keyword token then validate_loop True False checked_proc_name p
          else if exec_keyword token then validate_loop True True False p
          else (SQL_ERR_FORBIDDEN_KEYWORD, blocked_command token)
        else if is_exec \<and> \<not> checked_proc_name
        then
          let (full_proc, p) = qualified_name (take 511 token) p;
              clean_name = extract_clean_proc_name full_proc 128 in
          if \<not> starts_nocase clean_name ''l4_''
          then (SQL_ERR_SP_PREFIX_REQUIRED, blocked_procedure clean_name)
          else validate_loop True True True p
        else if \<not> is_exec \<and> forbidden token
        then (SQL_ERR_FORBIDDEN_KEYWORD, blocked_keyword token)
        else if \<not> is_exec \<and> same_nocase token ''INTO''
        then (SQL_ERR_FORBIDDEN_KEYWORD, blocked_into)
        else validate_loop statement_started is_exec checked_proc_name p)"
  by pat_completeness auto
termination
proof (relation "measure (\<lambda>(_, _, _, p). length p)", goal_cases)
  case (5 st ex ck p tp token q fq full q')
  then have "length q < length p" using get_next_token_shorter by (metis prod.collapse)
  moreover have "length q' \<le> length q"
    using 5 qualified_name_length [of "take 511 token" q] by (metis snd_conv)
  ultimately show ?case by simp
qed (auto dest!: get_next_token_shorter [OF sym])

declare validate_loop.simps [simp del]

definition sql_validator_validate :: "string \<Rightarrow> nat \<Rightarrow> SqlValidationResult \<times> string" where
  "sql_validator_validate sql err_msg_max =
     (let (res, msg) = (if sql = [] then (SQL_ERR_EMPTY, ''Empty SQL query'')
                        else validate_loop False False False sql) in
      (res, take (err_msg_max - 1) msg))"

definition sql_validator_error_str :: "SqlValidationResult \<Rightarrow> string" where
  "sql_validator_error_str res =
     (case res of
        SQL_VALID_OK \<Rightarrow> ''OK''
      | SQL_ERR_EMPTY \<Rightarrow> ''Query is empty''
      | SQL_ERR_FORBIDDEN_KEYWORD \<Rightarrow> ''Forbidden keyword or statement''
      | SQL_ERR_SP_PREFIX_REQUIRED \<Rightarrow> ''Stored procedure must start with '' @ [QUOTE] @ ''l4_'' @ [QUOTE]
      | SQL_ERR_INVALID_SYNTAX \<Rightarrow> ''Invalid SQL syntax'')"


section \<open>The validation reads tokens\<close>

function tokens :: "string \<Rightarrow> string list" where
  "tokens p = (let (t, r) = get_next_token p 256 in if t = [] then [] else t # tokens r)"
  by pat_completeness auto
termination
  by (relation "measure length") (auto dest!: get_next_token_shorter [OF sym])

declare tokens.simps [simp del]

lemma tokens_step:
  "get_next_token p 256 = (t, r) \<Longrightarrow> tokens p = (if t = [] then [] else t # tokens r)"
  by (subst tokens.simps) simp

lemma get_next_token_Nil [simp]: "get_next_token [] n = ([], [])"
  by (simp add: get_next_token_def)

lemma tokens_Nil [simp]: "tokens [] = []"
  by (simp add: tokens_step [OF get_next_token_Nil])

lemma tokens_nonempty: "t \<in> set (tokens p) \<Longrightarrow> t \<noteq> []"
proof (induction p rule: tokens.induct)
  case (1 p)
  obtain u r where "get_next_token p 256 = (u, r)" by fastforce
  then show ?case using 1 by (auto simp: tokens_step split: if_splits)
qed

fun token_name :: "string \<Rightarrow> string list \<Rightarrow> string \<times> string list" where
  "token_name full [] = (full, [])"
| "token_name full (d # ts) =
     (if hd d = CHR ''.''
      then (case ts of
              [] \<Rightarrow> (take 511 (full @ ''.''), [])
            | u # us \<Rightarrow> token_name (take 511 (take 511 (full @ ''.'') @ u)) us)
      else (full, d # ts))"

lemma qualified_name_tokens:
  "map_prod id tokens (qualified_name full p) = token_name full (tokens p)"
proof (induction full p rule: qualified_name.induct)
  case (1 full p)
  obtain t q where t: "get_next_token p 256 = (t, q)" by fastforce
  obtain t2 q2 where t2: "get_next_token q 256 = (t2, q2)" by fastforce
  show ?case
  proof (cases "p = [] \<or> t = [] \<or> hd t \<noteq> CHR ''.''")
    case True
    moreover have "p = [] \<Longrightarrow> t = []" using t by auto
    ultimately show ?thesis by (subst qualified_name.simps) (auto simp: t tokens_step [OF t])
  next
    case False
    have q: "qualified_name full p =
        (if t2 \<noteq> [] then qualified_name (take 511 (take 511 (full @ ''.'') @ t2)) q2
         else qualified_name (take 511 (full @ ''.'')) q)"
      using False by (subst qualified_name.simps) (simp add: t t2 Let_def)
    show ?thesis
    proof (cases "t2 = []")
      case True
      then show ?thesis
        using False q 1(2) [OF _ t [symmetric] refl _ refl t2 [symmetric] refl]
        by (simp add: tokens_step [OF t] tokens_step [OF t2])
    next
      case nonempty: False
      then show ?thesis
        using False q 1(1) [OF _ t [symmetric] refl _ refl t2 [symmetric] refl]
        by (simp add: tokens_step [OF t] tokens_step [OF t2])
    qed
  qed
qed

lemma token_name_shorter: "length (snd (token_name full ts)) \<le> length ts"
  by (induction full ts rule: token_name.induct) (auto split: list.splits)

function (sequential) validate_tokens :: "bool \<Rightarrow> bool \<Rightarrow> bool \<Rightarrow> string list \<Rightarrow> SqlValidationResult" where
  "validate_tokens st ex ck [] = SQL_VALID_OK"
| "validate_tokens st ex ck (t # ts) =
     (if hd t = CHR '';'' then validate_tokens False False False ts
      else if \<not> st
      then if read_keyword t then validate_tokens True False ck ts
           else if exec_keyword t then validate_tokens True True False ts
           else SQL_ERR_FORBIDDEN_KEYWORD
      else if ex \<and> \<not> ck
      then if starts_nocase (extract_clean_proc_name (fst (token_name (take 511 t) ts)) 128) ''l4_''
           then validate_tokens True True True (snd (token_name (take 511 t) ts))
           else SQL_ERR_SP_PREFIX_REQUIRED
      else if \<not> ex \<and> (forbidden t \<or> same_nocase t ''INTO'') then SQL_ERR_FORBIDDEN_KEYWORD
      else validate_tokens st ex ck ts)"
  by pat_completeness auto
termination
  by (relation "measure (\<lambda>(_, _, _, ts). length ts)")
     (auto simp: less_Suc_eq_le token_name_shorter)

lemma validate_loop_tokens: "fst (validate_loop st ex ck p) = validate_tokens st ex ck (tokens p)"
proof (induction st ex ck p rule: validate_loop.induct)
  case (1 st ex ck p)
  obtain t q where t: "get_next_token p 256 = (t, q)" by fastforce
  obtain full r where n: "qualified_name (take 511 t) q = (full, r)" by fastforce
  have name: "token_name (take 511 t) (tokens q) = (full, tokens r)"
    using qualified_name_tokens [of "take 511 t" q] n by simp
  note IH = 1 [OF _ t [symmetric] refl]
  show ?case
  proof (cases "p = [] \<or> t = []")
    case True
    then have "t = []" using t by auto
    then show ?thesis
      by (subst validate_loop.simps) (simp add: t tokens_step [OF t])
  next
    case False
    then show ?thesis
      using IH(1,2,3,5) IH(4) [OF _ _ _ _ _ n [symmetric] refl]
      by (subst validate_loop.simps)
         (cases st; cases ex; cases ck; simp add: t n name tokens_step [OF t] Let_def)
  qed
qed

lemma validate_by_tokens:
  "fst (sql_validator_validate sql n) =
     (if sql = [] then SQL_ERR_EMPTY else validate_tokens False False False (tokens sql))"
  by (simp add: sql_validator_validate_def validate_loop_tokens [symmetric] case_prod_beta)

section \<open>The grammar of admitted batches\<close>

definition harmless :: "string \<Rightarrow> bool" where
  "harmless t \<longleftrightarrow> hd t \<noteq> CHR '';'' \<and> \<not> forbidden t \<and> \<not> same_nocase t ''INTO''"

definition statement_end :: "string list \<Rightarrow> bool" where
  "statement_end ts \<longleftrightarrow> ts = [] \<or> hd (hd ts) = CHR '';''"

text \<open>
  A batch is a sequence of statements that end at a semicolon token or at the end: a read query
  without harmful tokens, the bare word \<open>EXEC\<close>, or a call of a procedure whose name, of the parts
  joined by dots, has the prefix, with anything behind the name.
\<close>

inductive admitted :: "string list \<Rightarrow> bool" where
  nothing: "admitted []"
| separator: "hd t = CHR '';'' \<Longrightarrow> admitted ts \<Longrightarrow> admitted (t # ts)"
| query: "read_keyword k \<Longrightarrow> list_all harmless body \<Longrightarrow> statement_end rest \<Longrightarrow> admitted rest
    \<Longrightarrow> admitted (k # body @ rest)"
| bare: "exec_keyword k \<Longrightarrow> statement_end rest \<Longrightarrow> admitted rest \<Longrightarrow> admitted (k # rest)"
| call: "exec_keyword k \<Longrightarrow> hd n \<noteq> CHR '';'' \<Longrightarrow> token_name (take 511 n) ts = (full, args @ rest)
    \<Longrightarrow> starts_nocase (extract_clean_proc_name full 128) ''l4_''
    \<Longrightarrow> list_all (\<lambda>t. hd t \<noteq> CHR '';'') args \<Longrightarrow> statement_end rest \<Longrightarrow> admitted rest
    \<Longrightarrow> admitted (k # n # ts)"


lemma validate_at_end:
  "statement_end rest \<Longrightarrow> validate_tokens st ex ck rest = validate_tokens False False False rest"
  by (cases rest) (auto simp: statement_end_def)

lemma validate_query_body:
  assumes "statement_end rest"
  shows "list_all harmless body
   \<Longrightarrow> validate_tokens True False ck (body @ rest) = validate_tokens False False False rest"
proof (induction body)
  case Nil
  then show ?case using validate_at_end [OF assms, of True False ck] by simp
qed (simp add: harmless_def)

lemma validate_call_args:
  assumes "statement_end rest"
  shows "list_all (\<lambda>t. hd t \<noteq> CHR '';'') args
   \<Longrightarrow> validate_tokens True True True (args @ rest) = validate_tokens False False False rest"
proof (induction args)
  case Nil
  then show ?case using validate_at_end [OF assms, of True True True] by simp
qed simp







lemma lower_keywords:
  "map to_lower ''SELECT'' = ''select''" "map to_lower ''WITH'' = ''with''"
  "map to_lower ''SHOW'' = ''show''" "map to_lower ''DESCRIBE'' = ''describe''"
  "map to_lower ''EXPLAIN'' = ''explain''" "map to_lower ''EXEC'' = ''exec''"
  "map to_lower ''EXECUTE'' = ''execute''" "to_lower (CHR '';'') = CHR '';''"
  by code_simp+

lemma same_nocase_head:
  assumes "same_nocase k s" "s \<noteq> []"
  shows "to_lower (hd k) = to_lower (hd s)"
  using assms unfolding same_nocase_def by (metis hd_map list.map_disc_iff)

lemma keyword_not_separator:
  "read_keyword k \<Longrightarrow> hd k \<noteq> CHR '';''" "exec_keyword k \<Longrightarrow> hd k \<noteq> CHR '';''"
  "exec_keyword k \<Longrightarrow> \<not> read_keyword k"
proof -
  have semi: "same_nocase k (c # s) \<Longrightarrow> to_lower c \<noteq> CHR '';'' \<Longrightarrow> hd k \<noteq> CHR '';''" for c s
    using same_nocase_head [of k "c # s"] lower_keywords(8) by auto
  have "to_lower (CHR ''S'') \<noteq> CHR '';''" "to_lower (CHR ''W'') \<noteq> CHR '';''"
    "to_lower (CHR ''D'') \<noteq> CHR '';''" "to_lower (CHR ''E'') \<noteq> CHR '';''"
    by code_simp+
  then show "read_keyword k \<Longrightarrow> hd k \<noteq> CHR '';''" "exec_keyword k \<Longrightarrow> hd k \<noteq> CHR '';''"
    unfolding read_keyword_def exec_keyword_def using semi by blast+
  show "exec_keyword k \<Longrightarrow> \<not> read_keyword k"
    unfolding read_keyword_def exec_keyword_def same_nocase_def lower_keywords by auto
qed

lemma admitted_is_accepted: "admitted ts \<Longrightarrow> validate_tokens False False False ts = SQL_VALID_OK"
proof (induction rule: admitted.induct)
  case (query k body rest)
  then show ?case using validate_query_body [of rest body False] keyword_not_separator(1) by simp
next
  case (bare k rest)
  then show ?case
    using validate_at_end [of rest True True False] keyword_not_separator(2,3) by simp
next
  case (call k n ts full args rest)
  then show ?case using validate_call_args [of rest args] keyword_not_separator(2,3) by simp
qed simp_all


section \<open>Case does not matter\<close>

abbreviation low :: "string \<Rightarrow> string" where "low \<equiv> map to_lower"

definition caseless :: "char \<Rightarrow> bool" where
  "caseless x \<longleftrightarrow> \<not> (65 \<le> (of_char x :: nat) \<and> (of_char x :: nat) \<le> 90)
     \<and> \<not> (97 \<le> (of_char x :: nat) \<and> (of_char x :: nat) \<le> 122)"

lemma of_char_to_lower:
  "of_char (to_lower c) = (if 65 \<le> (of_char c :: nat) \<and> (of_char c :: nat) \<le> 90
     then of_char c + 32 else of_char c :: nat)"
  by (simp add: to_lower_def)

lemma to_lower_idem [simp]: "to_lower (to_lower c) = to_lower c"
  by (simp add: to_lower_def)

lemma to_lower_caseless: "caseless x \<Longrightarrow> to_lower c = x \<longleftrightarrow> c = x"
  unfolding caseless_def using of_char_to_lower [of c] by (auto simp: to_lower_def)

lemma caseless_punctuation:
  "caseless (CHR ''-'')" "caseless (CHR ''/'')" "caseless (CHR ''*'')" "caseless NL" "caseless CR"
  "caseless QUOTE" "caseless (CHR ''['')" "caseless (CHR '']'')" "caseless (CHR ''.'')"
  "caseless (CHR '';'')" "caseless (CHR 0x22)" "caseless (CHR ''_'')" "caseless (CHR ''$'')"
  "caseless (CHR ''@'')" "caseless (CHR ''#'')"
  by code_simp+

lemmas lower_eq [simp] = caseless_punctuation [THEN to_lower_caseless]

lemma isspace_lower [simp]: "isspace (to_lower c) = isspace c"
  unfolding isspace_def of_char_to_lower by auto

lemma is_word_char_lower [simp]: "is_word_char (to_lower c) = is_word_char c"
  unfolding is_word_char_def isalnum_def isdigit_def lower_eq of_char_to_lower by auto

lemma hd_low [simp]: "s \<noteq> [] \<Longrightarrow> hd (low s) = to_lower (hd s)"
  by (simp add: hd_map)

lemma takeWhile_low:
  "(\<And>c. P (to_lower c) = P c) \<Longrightarrow> takeWhile P (low s) = low (takeWhile P s)"
  "(\<And>c. P (to_lower c) = P c) \<Longrightarrow> dropWhile P (low s) = low (dropWhile P s)"
  by (simp_all add: takeWhile_map dropWhile_map comp_def)

lemma skip_block_low: "skip_block (low s) = low (skip_block s)"
  by (induction s) (auto simp: map_tl)

lemma skip_low: "skip_whitespace_and_comments (low s) = low (skip_whitespace_and_comments s)"
proof (induction s rule: skip_whitespace_and_comments.induct)
  case (2 c s)
  have "dropWhile (\<lambda>d. d \<noteq> NL \<and> d \<noteq> CR) (tl (low s)) = low (dropWhile (\<lambda>d. d \<noteq> NL \<and> d \<noteq> CR) (tl s))"
    by (simp add: takeWhile_low flip: map_tl)
  moreover have "skip_block (tl (low s)) = low (skip_block (tl s))"
    by (simp add: skip_block_low flip: map_tl)
  ultimately show ?case using 2 by auto
qed simp

lemma literal_rest_low: "literal_rest (low s) = map_prod low low (literal_rest s)"
  by (induction s rule: literal_rest.induct) (auto simp: case_prod_beta)

lemma bracketed_low: "bracketed (low s) = map_prod low low (bracketed s)"
  by (auto simp: bracketed_def Let_def takeWhile_low map_tl)

lemma get_next_token_low: "get_next_token (low p) n = map_prod low low (get_next_token p n)"
proof (cases "skip_whitespace_and_comments p")
  case Nil
  then show ?thesis by (simp add: get_next_token_def skip_low)
next
  case (Cons c s)
  then show ?thesis
    using bracketed_low [of "c # s"] takeWhile_low [of is_word_char "c # s"]
      take_map [of "n - 1" to_lower "c # fst (literal_rest s)"]
    by (auto simp: get_next_token_def skip_low literal_rest_low case_prod_beta take_map
        simp del: takeWhile.simps dropWhile.simps)
qed

lemma tokens_low: "tokens (low p) = map low (tokens p)"
proof (induction p rule: tokens.induct)
  case (1 p)
  obtain t r where t: "get_next_token p 256 = (t, r)" by fastforce
  then have "get_next_token (low p) 256 = (low t, low r)" by (simp add: get_next_token_low)
  then show ?case using 1 [OF t [symmetric] refl] by (simp add: tokens_step [OF t] tokens_step)
qed

lemma extract_low: "extract_clean_proc_name (low s) n = low (extract_clean_proc_name s n)"
  by (simp add: extract_clean_proc_name_def rev_map takeWhile_low take_map filter_map comp_def)

lemma same_nocase_low [simp]: "same_nocase (low s) t = same_nocase s t"
  by (simp add: same_nocase_def comp_def)

lemma starts_nocase_low [simp]: "starts_nocase (low s) t = starts_nocase s t"
  by (simp add: starts_nocase_def take_map)

lemma keywords_low [simp]:
  "read_keyword (low t) = read_keyword t" "exec_keyword (low t) = exec_keyword t"
  "forbidden (low t) = forbidden t"
  by (simp_all add: read_keyword_def exec_keyword_def forbidden_def list_ex_iff)

lemma to_lower_dot [simp]: "to_lower (CHR ''.'') = CHR ''.''"
  by code_simp

lemma token_name_low:
  "[] \<notin> set ts \<Longrightarrow> token_name (low full) (map low ts) = map_prod low (map low) (token_name full ts)"
proof (induction full ts rule: token_name.induct)
  case (2 full d ts)
  have dot: "take 511 (low full @ ''.'') = low (take 511 (full @ ''.''))"
    using take_map [of 511 to_lower "full @ ''.''"] by simp
  have head: "(hd (low d) = CHR ''.'') = (hd d = CHR ''.'')" using 2(2) by auto
  show ?case
  proof (cases ts)
    case Nil
    then show ?thesis by (simp add: dot head del: take_append)
  next
    case (Cons u us)
    have "take 511 (low (take 511 (full @ ''.'')) @ low u) = low (take 511 (take 511 (full @ ''.'') @ u))"
      using take_map [of 511 to_lower "take 511 (full @ ''.'') @ u"] by (simp del: take_append)
    then show ?thesis using 2 Cons by (simp add: dot head del: take_append)
  qed
qed simp

lemma token_name_set: "set (snd (token_name full ts)) \<subseteq> set ts"
  by (induction full ts rule: token_name.induct) (auto split: list.splits)

lemma validate_tokens_low:
  "[] \<notin> set ts \<Longrightarrow> validate_tokens st ex ck (map low ts) = validate_tokens st ex ck ts"
proof (induction st ex ck ts rule: validate_tokens.induct)
  case (2 st ex ck t ts)
  have "token_name (low (take 511 t)) (map low ts) = map_prod low (map low) (token_name (take 511 t) ts)"
    using 2 by (intro token_name_low) simp
  moreover have "(hd (low t) = CHR '';'') = (hd t = CHR '';'')" using 2 by auto
  moreover have "[] \<notin> set (snd (token_name (take 511 t) ts))"
    using 2 token_name_set [of "take 511 t" ts] by auto
  ultimately show ?case
    using 2 by (cases st; cases ex; cases ck; simp add: take_map extract_low)
qed simp


section \<open>Properties\<close>


text \<open>
  The verdict of the validation, acceptance and the kind of refusal, does not depend on the case
  of any letter of the text.
\<close>

theorem validate_ignores_case:
  "fst (sql_validator_validate (map to_lower sql) n) = fst (sql_validator_validate sql n')"
proof -
  have "[] \<notin> set (tokens sql)" using tokens_nonempty by blast
  then show ?thesis by (simp add: validate_by_tokens tokens_low validate_tokens_low)
qed


section \<open>Texts that pass although they are more than a query\<close>

text \<open>
  Behind the name of a permitted procedure nothing is checked, and the dialect of the server does
  not need a semicolon between statements.
\<close>

lemma harmless_low:
  "harmless t \<longleftrightarrow> hd t \<noteq> CHR '';'' \<and> low t \<notin> set
     [''insert'', ''update'', ''delete'', ''drop'', ''alter'', ''create'', ''truncate'',
      ''merge'', ''grant'', ''revoke'', ''deny'', ''bulk'', ''openrowset'', ''opendatasource'',
      ''xp_cmdshell'', ''sp_executesql'', ''writetext'', ''updatetext'', ''into'']"
  by (simp add: harmless_def forbidden_def FORBIDDEN_KEYWORDS_def same_nocase_def lower_letters)

lemma accepted_by_tokens:
  "tokens sql = ts \<Longrightarrow> ts \<noteq> [] \<Longrightarrow> admitted ts \<Longrightarrow> fst (sql_validator_validate sql n) = SQL_VALID_OK"
  using admitted_is_accepted by (auto simp: validate_by_tokens)

lemma admitted_query:
  "read_keyword k \<Longrightarrow> list_all harmless body \<Longrightarrow> admitted (k # body)"
  using admitted.query [of k body "[]"] by (simp add: admitted.nothing statement_end_def)

lemma admitted_call:
  assumes "exec_keyword k" "hd n \<noteq> CHR '';''" "token_name (take 511 n) ts = (full, args)"
    and "starts_nocase (extract_clean_proc_name full 128) ''l4_''"
    and "list_all (\<lambda>t. hd t \<noteq> CHR '';'') args"
  shows "admitted (k # n # ts)"
  using admitted.call [of k n ts full args "[]"] assms by (simp add: admitted.nothing statement_end_def)

lemma call_hides_statement:
  "fst (sql_validator_validate ''EXEC l4_x DROP TABLE t'' 512) = SQL_VALID_OK"
proof (rule accepted_by_tokens)
  show "tokens ''EXEC l4_x DROP TABLE t'' = [''EXEC'', ''l4_x'', ''DROP'', ''TABLE'', ''t'']"
    by code_simp
  show "admitted [''EXEC'', ''l4_x'', ''DROP'', ''TABLE'', ''t'']"
  proof (rule admitted_call)
    show "token_name (take 511 ''l4_x'') [''DROP'', ''TABLE'', ''t''] = (''l4_x'', [''DROP'', ''TABLE'', ''t''])"
      by code_simp
    show "starts_nocase (extract_clean_proc_name ''l4_x'' 128) ''l4_''" by code_simp
  qed code_simp+
qed simp

text \<open>Inside a read query \<open>EXEC\<close> is not a forbidden word.\<close>

lemma query_hides_call:
  "fst (sql_validator_validate ''SELECT 1 EXEC sp_configure'' 512) = SQL_VALID_OK"
proof (rule accepted_by_tokens)
  show "tokens ''SELECT 1 EXEC sp_configure'' = [''SELECT'', ''1'', ''EXEC'', ''sp_configure'']"
    by code_simp
  show "admitted [''SELECT'', ''1'', ''EXEC'', ''sp_configure'']"
  proof (rule admitted_query)
    have "low ''1'' = ''1''" "low ''sp_configure'' = ''sp_configure''" by code_simp+
    then show "list_all harmless [''1'', ''EXEC'', ''sp_configure'']"
      by (simp add: harmless_low lower_letters)
  qed code_simp
qed simp

text \<open>
  Comments do not nest here, but they do for the server, which takes the first quote for a part of
  the comment and the keyword for a statement.
\<close>

definition nested_comment_text :: string where
  "nested_comment_text = ''SELECT 1 /* /* */ '' @ [QUOTE] @ ''*/ DROP TABLE t --'' @ [QUOTE]"

lemma nested_comment_hides_statement:
  "fst (sql_validator_validate nested_comment_text 512) = SQL_VALID_OK"
proof (rule accepted_by_tokens)
  show "tokens nested_comment_text = [''SELECT'', ''1'', QUOTE # ''*/ DROP TABLE t --'' @ [QUOTE]]"
    by code_simp
  show "admitted [''SELECT'', ''1'', QUOTE # ''*/ DROP TABLE t --'' @ [QUOTE]]"
  proof (rule admitted_query)
    have "low ''1'' = ''1''" "to_lower QUOTE = QUOTE" by code_simp+
    then show "list_all harmless [''1'', QUOTE # ''*/ DROP TABLE t --'' @ [QUOTE]]"
      by (simp add: harmless_low)
  qed code_simp
qed simp

section \<open>The tokenizer is bounded and ends\<close>

lemma skip_block_suffix: "suffix (skip_block s) s"
  by (induction s rule: skip_block.induct) (auto intro: suffix_ConsI suffix_order.trans [OF suffix_tl])

lemma skip_suffix: "suffix (skip_whitespace_and_comments s) s"
proof (induction s rule: skip_whitespace_and_comments.induct)
  case (2 c s)
  have "suffix (dropWhile (\<lambda>d. d \<noteq> NL \<and> d \<noteq> CR) (tl s)) s" "suffix (skip_block (tl s)) s"
    using suffix_dropWhile skip_block_suffix suffix_tl by (metis suffix_order.trans)+
  then show ?case using 2 by (auto intro: suffix_ConsI suffix_order.trans)
qed simp

lemma literal_rest_suffix: "suffix (snd (literal_rest s)) s"
  by (induction s rule: literal_rest.induct) (auto simp: case_prod_beta suffix_Cons)

lemma bracketed_suffix: "suffix (snd (bracketed s)) s"
  unfolding bracketed_def Let_def
  by (simp add: suffix_dropWhile suffix_order.trans [OF suffix_tl suffix_dropWhile])

lemma get_next_token_suffix: "suffix (snd (get_next_token p n)) p"
proof (cases "skip_whitespace_and_comments p")
  case Nil
  then show ?thesis by (simp add: get_next_token_def)
next
  case (Cons c s)
  then have "suffix (c # s) p" using skip_suffix [of p] by simp
  moreover have "suffix (snd (get_next_token p n)) (c # s)"
    using Cons bracketed_suffix [of "c # s"] suffix_dropWhile [of is_word_char "c # s"]
      literal_rest_suffix [of s]
    by (auto simp: get_next_token_def case_prod_beta intro: suffix_ConsI)
  ultimately show ?thesis using suffix_order.trans by blast
qed

lemma get_next_token_bounded: "2 \<le> n \<Longrightarrow> length (fst (get_next_token p n)) < n"
  by (auto simp: get_next_token_def case_prod_beta split: list.splits)

lemma tokens_count: "length (tokens p) \<le> length p"
proof (induction p rule: tokens.induct)
  case (1 p)
  obtain t r where t: "get_next_token p 256 = (t, r)" by fastforce
  then show ?case
    using 1 [OF t [symmetric] refl] get_next_token_shorter [OF t] by (auto simp: tokens_step [OF t])
qed

text \<open>
  C38: Reading a token stays inside the token's buffer, consumes a prefix of the text, and consumes
  at least one character unless only blanks and comments are left, when the token is empty and
  the whole text is consumed. The loop of the validation therefore ends after at most as many
  tokens as the text has characters, none longer than 255.
\<close>

theorem tokenizer_ends:
  assumes "2 \<le> n"
  shows "case get_next_token p n of (t, r) \<Rightarrow>
     length t < n \<and> suffix r p \<and> (t = [] \<longleftrightarrow> skip_whitespace_and_comments p = [])
     \<and> (t = [] \<longrightarrow> r = []) \<and> (t \<noteq> [] \<longrightarrow> length r < length p)
     \<and> length (tokens p) \<le> length p \<and> list_all (\<lambda>u. u \<noteq> [] \<and> length u < 256) (tokens p)"
proof -
  have "t \<noteq> [] \<and> length t < 256" if "t \<in> set (tokens p)" for t
    using that
  proof (induction p rule: tokens.induct)
    case (1 p)
    obtain u r where u: "get_next_token p 256 = (u, r)" by fastforce
    then have "length u < 256" using get_next_token_bounded [of 256 p] by simp
    then show ?case using 1 u by (auto simp: tokens_step [OF u] split: if_splits)
  qed
  then have all: "list_all (\<lambda>u. u \<noteq> [] \<and> length u < 256) (tokens p)" by (simp add: list_all_iff)
  have "fst (get_next_token p n) = [] \<longleftrightarrow> skip_whitespace_and_comments p = []"
    using assms by (auto simp: get_next_token_def bracketed_def Let_def case_prod_beta split: list.splits if_splits)
  moreover have "skip_whitespace_and_comments p = [] \<Longrightarrow> snd (get_next_token p n) = []"
    by (simp add: get_next_token_def)
  ultimately show ?thesis
    using all tokens_count [of p] get_next_token_bounded [OF assms, of p] get_next_token_suffix [of p n]
      get_next_token_shorter [of p n] by (auto simp: case_prod_beta prod_eq_iff)
qed

theorem tokenizer_ends_witness:
  "length (tokens ''select 1'') \<le> 8 \<and> list_all (\<lambda>u. u \<noteq> [] \<and> length u < 256) (tokens ''select 1'')"
  using tokenizer_ends [of 256 "''select 1''"] by (simp add: case_prod_beta)


section \<open>Shortcuts for tables\<close>

definition table_name :: "string \<Rightarrow> bool" where
  "table_name t \<longleftrightarrow> starts_nocase t ''tb_'' \<and> list_all is_word_char t \<and> length t \<le> 255"

lemma word_not_space: "is_word_char c \<Longrightarrow> \<not> isspace c"
  by (auto simp: is_word_char_def isspace_def isalnum_def isdigit_def)

lemma table_name_shape:
  assumes "table_name t"
  obtains a b c r where "t = a # b # c # r" "to_lower a = CHR ''t''" "to_lower b = CHR ''b''" "to_lower c = CHR ''_''"
proof -
  have "to_lower (CHR ''t'') = CHR ''t''" "to_lower (CHR ''b'') = CHR ''b''" by code_simp+
  then have h: "map to_lower (take (Suc (Suc (Suc 0))) t) = [CHR ''t'', CHR ''b'', CHR ''_'']"
    using assms by (simp add: table_name_def starts_nocase_def same_nocase_def lower_letters)
  then obtain a t1 where "t = a # t1" by (cases t) auto
  moreover from this h obtain b t2 where "t1 = b # t2" by (cases t1) auto
  moreover from calculation h obtain c r where "t2 = c # r" by (cases t2) auto
  ultimately show thesis using h that by simp
qed

lemma starts_nocase_head:
  "starts_nocase (a # t) (b # s) \<Longrightarrow> to_lower a = to_lower b"
  by (simp add: starts_nocase_def same_nocase_def)

lemma starts_nocase_second:
  "starts_nocase (a # a' # t) (b # b' # s) \<Longrightarrow> to_lower a' = to_lower b'"
  by (simp add: starts_nocase_def same_nocase_def)

lemma select_is_full_word: "list_all is_word_char t \<Longrightarrow> \<not> select_is_full False t"
proof (induction t)
  case (Cons c t)
  then have "c \<notin> set '',()=<>''"
    by (auto simp: is_word_char_def isalnum_def isdigit_def)
  then show ?case using Cons by simp
qed simp

lemma table_not_full:
  assumes "table_name t"
  shows "\<not> select_is_full True t"
proof -
  obtain a b c r where t: "t = a # b # c # r" "to_lower a = CHR ''t''" "to_lower b = CHR ''b''"
    using table_name_shape [OF assms] by metis
  have w: "list_all is_word_char (b # c # r)" "is_word_char a"
    using assms t(1) by (simp_all add: table_name_def)
  have "to_lower (CHR ''f'') \<noteq> CHR ''t''" "to_lower (CHR ''d'') \<noteq> CHR ''t''"
    "to_lower (CHR ''w'') \<noteq> CHR ''t''" "to_lower (CHR ''o'') \<noteq> CHR ''b''" by code_simp+
  then have "\<not> starts_nocase t ''from''" "\<not> starts_nocase t ''distinct''" "\<not> starts_nocase t ''where''"
    "\<not> starts_nocase t ''top''"
    using t starts_nocase_head starts_nocase_second by metis+
  moreover have "a \<notin> set '',()=<>''"
    using w(2) by (auto simp: is_word_char_def isalnum_def isdigit_def)
  ultimately show ?thesis using select_is_full_word [OF w(1)] w(2) t(1) by simp
qed

lemma trim_words: "list_all is_word_char t \<Longrightarrow> trim t = t"
proof -
  assume "list_all is_word_char t"
  then have "\<forall>c\<in>set t. \<not> isspace c" using word_not_space by (auto simp: list_all_iff)
  then have "dropWhile isspace t = t" "dropWhile isspace (rev t) = rev t"
    by (auto simp: dropWhile_eq_self_iff hd_rev)
  then show ?thesis by (simp add: trim_def)
qed

lemma table_tokens:
  assumes "table_name t"
  shows "tokens (''SELECT * FROM '' @ t) = [''SELECT'', ''*'', ''FROM'', t]"
proof -
  have w: "list_all is_word_char t" "t \<noteq> []" "length t \<le> 255"
    using assms table_name_shape [OF assms] by (auto simp: table_name_def)
  obtain a r where t: "t = a # r" using w(2) by (cases t) auto
  have a: "is_word_char a" "\<not> isspace a" using w(1) t word_not_space by auto
  have ne: "a \<noteq> QUOTE" "a \<noteq> CHR ''[''" "a \<noteq> CHR ''-''" "a \<noteq> CHR ''/''"
    using a(1) by (auto simp: is_word_char_def isalnum_def isdigit_def)
  have tw: "takeWhile is_word_char t = t" "dropWhile is_word_char t = []"
    using w(1) by (auto simp: list_all_iff)
  have 4: "get_next_token (CHR '' '' # t) 256 = (t, [])"
  proof -
    have "isspace (CHR '' '')" by code_simp
    then have "skip_whitespace_and_comments (CHR '' '' # t) = a # r"
      using a ne t by simp
    moreover have "takeWhile is_word_char (a # r) = t" "dropWhile is_word_char (a # r) = []"
      "take 255 t = t"
      using tw t w(3) by simp_all
    ultimately show ?thesis
      using a ne unfolding get_next_token_def by (simp del: takeWhile.simps dropWhile.simps)
  qed
  have c: "isspace (CHR '' '')" "\<not> isspace (CHR ''*'')" "\<not> isspace (CHR ''S'')" "\<not> isspace (CHR ''F'')"
    "\<not> is_word_char (CHR '' '')" "\<not> is_word_char (CHR ''*'')" "list_all is_word_char ''SELECT''"
    "list_all is_word_char ''FROM''" by code_simp+
  have 1: "get_next_token (''SELECT * FROM '' @ t) 256 = (''SELECT'', '' * FROM '' @ t)"
    using c by (simp add: get_next_token_def)
  have 2: "get_next_token ('' * FROM '' @ t) 256 = (''*'', '' FROM '' @ t)"
    using c by (simp add: get_next_token_def)
  have 3: "get_next_token ('' FROM '' @ t) 256 = (''FROM'', CHR '' '' # t)"
    using c by (simp add: get_next_token_def)
  show ?thesis
    using w(2) by (simp add: tokens_step [OF 1] tokens_step [OF 2] tokens_step [OF 3] tokens_step [OF 4] del: append.simps)
qed


lemma table_harmless:
  assumes "table_name t"
  shows "harmless t"
proof -
  obtain a b c r where t: "t = a # b # c # r" "to_lower a = CHR ''t''" "to_lower b = CHR ''b''"
    using table_name_shape [OF assms] by metis
  moreover have "to_lower (CHR '';'') \<noteq> CHR ''t''" by code_simp
  ultimately have "a \<noteq> CHR '';''" by metis
  then show ?thesis unfolding harmless_low using t by simp
qed

lemma table_query_valid:
  assumes "table_name t"
  shows "fst (sql_validator_validate (''SELECT * FROM '' @ t) n) = SQL_VALID_OK"
proof (rule accepted_by_tokens [OF table_tokens [OF assms]])
  show "admitted [''SELECT'', ''*'', ''FROM'', t]"
  proof (rule admitted_query)
    have "to_lower (CHR ''*'') = CHR ''*''" by code_simp
    then show "list_all harmless [''*'', ''FROM'', t]"
      using table_harmless [OF assms] by (simp add: harmless_low lower_letters)
  qed code_simp
qed simp

text \<open>
  A table name (a word with the prefix \<open>tb_\<close>, in any case), alone or behind \<open>select\<close>, is
  expanded to the query of the whole table, and that query passes the validation.
\<close>

theorem table_shortcut_expands:
  assumes "table_name t" "300 \<le> out_max"
  shows "sql_validator_expand_shortcuts t out_max = Some (''SELECT * FROM '' @ t)
     \<and> sql_validator_expand_shortcuts (''select '' @ t) out_max = Some (''SELECT * FROM '' @ t)
     \<and> fst (sql_validator_validate (''SELECT * FROM '' @ t) n) = SQL_VALID_OK"
proof -
  obtain a b c r where t: "t = a # b # c # r" "to_lower a = CHR ''t''"
    using table_name_shape [OF assms(1)] by metis
  have w: "list_all is_word_char t" "length t \<le> 255" "starts_nocase t ''tb_''"
    using assms(1) by (simp_all add: table_name_def)
  have "to_lower (CHR ''s'') \<noteq> CHR ''t''" "to_lower (CHR ''e'') \<noteq> CHR ''t''"
    "to_lower (CHR ''w'') \<noteq> CHR ''t''" by code_simp+
  then have not_query: "\<not> starts_nocase t ''select''" "\<not> starts_nocase t ''exec''" "\<not> starts_nocase t ''with''"
    using t starts_nocase_head by metis+
  have room: "take (out_max - 1) (''SELECT * FROM '' @ t) = ''SELECT * FROM '' @ t"
    using w(2) assms(2) by (intro take_all) simp
  have cut: "take 4095 t = t" using w(2) by simp
  have first: "sql_validator_expand_shortcuts t out_max = Some (''SELECT * FROM '' @ t)"
    using w not_query room assms(2) t
    unfolding sql_validator_expand_shortcuts_def Let_def cut trim_words [OF w(1)] by simp
  have trimmed: "trim (take 4095 (''select '' @ t)) = ''select '' @ t"
  proof -
    have "take 4095 (''select '' @ t) = ''select '' @ t" using w(2) by (intro take_all) simp
    moreover have "\<not> isspace (CHR ''s'')" by code_simp
    moreover have "trim t = t" "t \<noteq> []" "\<not> isspace a"
      using trim_words [OF w(1)] w(1) word_not_space t by simp_all
    then have "dropWhile isspace (rev t) = rev t"
      using t by (metis dropWhile.simps(2) rev_swap trim_def)
    then have "dropWhile isspace (rev t @ u) = rev t @ u" for u
      using dropWhile_append1 [of a "rev t" isspace u] \<open>\<not> isspace a\<close> t(1) by simp
    ultimately show ?thesis by (simp add: trim_def)
  qed
  have rest: "dropWhile isspace (drop 7 (''select '' @ t)) = t"
    using w(1) word_not_space t(1) by simp
  have "\<not> starts_nocase (''select '' @ t) ''tb_''" "\<not> starts_nocase (''select '' @ t) ''[tb_''"
    "starts_nocase (''select '' @ t) ''select''" "starts_nocase (''select '' @ t) ''select ''"
    by (simp_all add: starts_nocase_def same_nocase_def; code_simp)+
  then have "sql_validator_expand_shortcuts (''select '' @ t) out_max = Some (''SELECT * FROM '' @ t)"
    using room assms(2) t(1) table_not_full [OF assms(1)]
    unfolding sql_validator_expand_shortcuts_def Let_def trimmed rest by simp
  then show ?thesis using first table_query_valid [OF assms(1)] by simp
qed


theorem table_shortcut_expands_witness:
  "sql_validator_expand_shortcuts ''tb_Variables'' 8192 = Some (''SELECT * FROM '' @ ''tb_Variables'')
   \<and> fst (sql_validator_validate (''SELECT * FROM '' @ ''tb_Variables'') 512) = SQL_VALID_OK"
proof -
  have "table_name ''tb_Variables''" by code_simp
  then show ?thesis using table_shortcut_expands [of "''tb_Variables''" 8192 512] by simp
qed

end
