(* ===== verification/Update_Guard.thy ===== *)
theory Update_Guard
  imports C_Text
begin

text \<open>
  The guard that keeps ordinary work and an update apart, \<open>tools/l4common/update_guard.c\<close>. Every
  operation holds the guard's lock from start to end, so the operations of concurrent threads are
  a sequence of atomic steps; the model runs such sequences on the guard together with the tickets
  that are held. A ticket is the work it was given for, \<open>None\<close> when it holds no guard. The enum
  types have no other values, so the range checks of the source have no counterpart.
\<close>

section \<open>Definitions of the source\<close>

datatype L4UpdateWindow = L4_UPDATE_COMMUNICATION | L4_UPDATE_OTHER_TOOLS

datatype L4UpdateWork = L4_WORK_COMMUNICATION | L4_WORK_OTHER_TOOLS

record L4UpdateGuard =
  ug_owner :: string
  ug_deadline :: u64
  ug_active :: "L4UpdateWork \<Rightarrow> u32"
  ug_window :: "L4UpdateWindow option"
  ug_expired :: bool

definition guard_zero :: L4UpdateGuard where
  "guard_zero = \<lparr>ug_owner = [], ug_deadline = 0, ug_active = (\<lambda>_. 0), ug_window = None, ug_expired = False\<rparr>"

definition hex_digit :: "char \<Rightarrow> bool" where
  "hex_digit c \<longleftrightarrow> isdigit c \<or> 97 \<le> (of_char c :: nat) \<and> (of_char c :: nat) \<le> 102
     \<or> 65 \<le> (of_char c :: nat) \<and> (of_char c :: nat) \<le> 70"

fun owner_chars :: "nat \<Rightarrow> string \<Rightarrow> bool" where
  "owner_chars i [] = True"
| "owner_chars i (c # s) =
     ((if i = 8 \<or> i = 13 \<or> i = 18 \<or> i = 23 then c = CHR ''-'' else hex_digit c) \<and> owner_chars (Suc i) s)"

fun owner_nonzero :: "nat \<Rightarrow> string \<Rightarrow> bool" where
  "owner_nonzero i [] = False"
| "owner_nonzero i (c # s) =
     (\<not> (i = 8 \<or> i = 13 \<or> i = 18 \<or> i = 23) \<and> c \<noteq> CHR ''0'' \<or> owner_nonzero (Suc i) s)"

definition owner_valid :: "string \<Rightarrow> bool" where
  "owner_valid owner \<longleftrightarrow> length owner = 36 \<and> owner_chars 0 owner \<and> owner_nonzero 0 owner"

definition same_owner :: "L4UpdateGuard \<Rightarrow> string \<Rightarrow> bool" where
  "same_owner guard owner \<longleftrightarrow> owner_valid owner \<and> ug_owner guard \<noteq> [] \<and> same_nocase (ug_owner guard) owner"

definition observe :: "u64 \<Rightarrow> L4UpdateGuard \<Rightarrow> L4UpdateGuard" where
  "observe now guard = (if ug_deadline guard \<le> now then guard\<lparr>ug_expired := True\<rparr> else guard)"

definition l4_update_guard_enter ::
    "L4UpdateWork \<Rightarrow> u64 \<Rightarrow> L4UpdateWork option \<Rightarrow> L4UpdateGuard \<Rightarrow> bool \<times> L4UpdateWork option \<times> L4UpdateGuard" where
  "l4_update_guard_enter work now ticket guard =
     (if ticket \<noteq> None then (False, ticket, guard)
      else
        let guard = (if ug_owner guard \<noteq> [] then observe now guard else guard);
            allowed = (ug_owner guard = [] \<or> ug_window guard = Some L4_UPDATE_OTHER_TOOLS
                         \<and> work = L4_WORK_COMMUNICATION \<and> \<not> ug_expired guard) in
        if allowed \<and> ug_active guard work \<noteq> - 1
        then (True, Some work, guard\<lparr>ug_active := (ug_active guard)(work := ug_active guard work + 1)\<rparr>)
        else (False, ticket, guard))"

definition l4_update_guard_leave ::
    "L4UpdateWork option \<Rightarrow> L4UpdateGuard \<Rightarrow> bool \<times> L4UpdateWork option \<times> L4UpdateGuard" where
  "l4_update_guard_leave ticket guard =
     (case ticket of
        None \<Rightarrow> (False, ticket, guard)
      | Some work \<Rightarrow>
          if ug_active guard work \<noteq> 0
          then (True, None, guard\<lparr>ug_active := (ug_active guard)(work := ug_active guard work - 1)\<rparr>)
          else (False, ticket, guard))"

definition l4_update_guard_begin ::
    "string \<Rightarrow> L4UpdateWindow \<Rightarrow> u64 \<Rightarrow> u64 \<Rightarrow> L4UpdateGuard \<Rightarrow> bool \<times> L4UpdateGuard" where
  "l4_update_guard_begin owner window now deadline guard =
     (if \<not> owner_valid owner \<or> deadline \<le> now then (False, guard)
      else if ug_owner guard \<noteq> []
      then
        if same_owner guard owner \<and> ug_window guard = Some window \<and> ug_deadline guard = deadline
        then (let guard = observe now guard in (\<not> ug_expired guard, guard))
        else (False, guard)
      else (True, guard\<lparr>ug_owner := owner, ug_window := Some window, ug_deadline := deadline,
                        ug_expired := False\<rparr>))"

definition l4_update_guard_ready :: "string \<Rightarrow> u64 \<Rightarrow> L4UpdateGuard \<Rightarrow> bool \<times> L4UpdateGuard" where
  "l4_update_guard_ready owner now guard =
     (if same_owner guard owner
      then
        let guard = observe now guard in
        (\<not> ug_expired guard \<and> ug_active guard L4_WORK_OTHER_TOOLS = 0
           \<and> (ug_window guard = Some L4_UPDATE_OTHER_TOOLS \<or> ug_active guard L4_WORK_COMMUNICATION = 0), guard)
      else (False, guard))"

definition l4_update_guard_finish :: "string \<Rightarrow> L4UpdateGuard \<Rightarrow> bool \<times> L4UpdateGuard" where
  "l4_update_guard_finish owner guard =
     (if same_owner guard owner \<and> ug_active guard L4_WORK_COMMUNICATION = 0
         \<and> ug_active guard L4_WORK_OTHER_TOOLS = 0
      then (True, guard\<lparr>ug_owner := [], ug_window := None, ug_deadline := 0, ug_expired := False\<rparr>)
      else (False, guard))"

section \<open>Runs\<close>

text \<open>
  The guard with the tickets that were handed out. Every caller follows the rule of the header: a
  ticket is handed in once. An operation names the ticket it leaves by its position.
\<close>

record guard_sys =
  sys_guard :: L4UpdateGuard
  sys_tickets :: "L4UpdateWork list"

datatype guard_op =
    Enter L4UpdateWork u64
  | Leave nat
  | Begin string L4UpdateWindow u64 u64
  | Ready string u64
  | Finish string

fun guard_exec :: "guard_op \<Rightarrow> guard_sys \<Rightarrow> bool \<times> guard_sys" where
  "guard_exec (Enter work now) s =
     (case l4_update_guard_enter work now None (sys_guard s) of
        (ok, ticket, g) \<Rightarrow>
          (ok, \<lparr>sys_guard = g,
                sys_tickets = (case ticket of None \<Rightarrow> sys_tickets s | Some w \<Rightarrow> sys_tickets s @ [w])\<rparr>))"
| "guard_exec (Leave i) s =
     (if length (sys_tickets s) \<le> i then (False, s)
      else case l4_update_guard_leave (Some (sys_tickets s ! i)) (sys_guard s) of
        (ok, ticket, g) \<Rightarrow>
          (ok, \<lparr>sys_guard = g,
                sys_tickets = (case ticket of
                    None \<Rightarrow> take i (sys_tickets s) @ drop (Suc i) (sys_tickets s)
                  | Some w \<Rightarrow> sys_tickets s)\<rparr>))"
| "guard_exec (Begin owner window now deadline) s =
     (case l4_update_guard_begin owner window now deadline (sys_guard s) of
        (ok, g) \<Rightarrow> (ok, s\<lparr>sys_guard := g\<rparr>))"
| "guard_exec (Ready owner now) s =
     (case l4_update_guard_ready owner now (sys_guard s) of (ok, g) \<Rightarrow> (ok, s\<lparr>sys_guard := g\<rparr>))"
| "guard_exec (Finish owner) s =
     (case l4_update_guard_finish owner (sys_guard s) of (ok, g) \<Rightarrow> (ok, s\<lparr>sys_guard := g\<rparr>))"

definition guard_step :: "guard_sys \<Rightarrow> guard_op \<Rightarrow> guard_sys" where
  "guard_step s oper = snd (guard_exec oper s)"

definition sys_start :: guard_sys where
  "sys_start = \<lparr>sys_guard = guard_zero, sys_tickets = []\<rparr>"

section \<open>The counters are the tickets\<close>

definition counters_ok :: "guard_sys \<Rightarrow> bool" where
  "counters_ok s \<longleftrightarrow>
     (\<forall>w. unat (ug_active (sys_guard s) w) = count_list (sys_tickets s) w)
     \<and> (ug_owner (sys_guard s) = [] \<longrightarrow> \<not> ug_expired (sys_guard s) \<and> ug_window (sys_guard s) = None)
     \<and> (ug_owner (sys_guard s) \<noteq> [] \<longrightarrow> ug_window (sys_guard s) \<noteq> None)"

lemma observe_fields [simp]:
  "ug_owner (observe now g) = ug_owner g" "ug_deadline (observe now g) = ug_deadline g"
  "ug_active (observe now g) = ug_active g" "ug_window (observe now g) = ug_window g"
  "ug_expired (observe now g) \<longleftrightarrow> ug_expired g \<or> ug_deadline g \<le> now"
  by (simp_all add: observe_def)

lemma count_list_remove_nth:
  "i < length xs \<Longrightarrow> count_list (take i xs @ drop (Suc i) xs) x = count_list xs x - (if xs ! i = x then 1 else 0)"
proof -
  assume "i < length xs"
  then have "xs = take i xs @ xs ! i # drop (Suc i) xs" by (simp add: id_take_nth_drop)
  then have "count_list xs x = count_list (take i xs) x + count_list (xs ! i # drop (Suc i) xs) x"
    by (metis count_list_append)
  then show ?thesis by (auto simp: count_list_append)
qed

lemma unat_incr:
  assumes "(a :: u32) \<noteq> - 1"
  shows "unat (a + 1) = unat a + 1"
proof -
  have "unat a \<noteq> unat (- 1 :: u32)" using assms by (simp only: word_unat_eq_iff not_False_eq_True)
  then have "unat a + 1 < 2 ^ 32" using unat_lt [of a] by (simp add: unat_max)
  then show ?thesis using unat_add_no_wrap [of a 1] by simp
qed

lemma unat_decr: "(a :: u32) \<noteq> 0 \<Longrightarrow> unat (a - 1) = unat a - 1"
  by (metis unat_minus_one)

lemma counters_step:
  assumes ok: "counters_ok s"
  shows "counters_ok (guard_step s oper)"
proof (cases oper)
  case (Enter work now)
  then show ?thesis
    using ok by (auto simp: guard_step_def counters_ok_def l4_update_guard_enter_def Let_def unat_incr)
next
  case (Leave i)
  then show ?thesis
    using ok unfolding guard_step_def counters_ok_def
    by (auto simp: l4_update_guard_leave_def unat_decr count_list_remove_nth simp del: count_list_append)
next
  case (Begin owner window now deadline)
  then show ?thesis
    using ok by (auto simp: guard_step_def counters_ok_def l4_update_guard_begin_def owner_valid_def Let_def)
next
  case (Ready owner now)
  then show ?thesis
    using ok by (auto simp: guard_step_def counters_ok_def l4_update_guard_ready_def same_owner_def Let_def)
next
  case (Finish owner)
  then show ?thesis
    using ok by (auto simp: guard_step_def counters_ok_def l4_update_guard_finish_def)
qed

interpretation guard_counters: step_invariant guard_step counters_ok
  by unfold_locales (rule counters_step)


lemma no_ticket_iff: "counters_ok s \<Longrightarrow> w \<notin> set (sys_tickets s) \<longleftrightarrow> ug_active (sys_guard s) w = 0"
  by (metis counters_ok_def count_list_0_iff unat_eq_0)

section \<open>Update and work exclude each other\<close>

text \<open>The work an update in this window keeps out.\<close>

definition blocked :: "L4UpdateWindow option \<Rightarrow> L4UpdateWork \<Rightarrow> bool" where
  "blocked window w \<longleftrightarrow> w = L4_WORK_OTHER_TOOLS \<or> window \<noteq> Some L4_UPDATE_OTHER_TOOLS"

definition terms_of :: "guard_sys \<Rightarrow> string \<times> L4UpdateWindow option \<times> u64" where
  "terms_of s = (ug_owner (sys_guard s), ug_window (sys_guard s), ug_deadline (sys_guard s))"

lemma held_step:
  assumes "ug_owner (sys_guard s) \<noteq> []" "ug_owner (sys_guard (guard_step s oper)) \<noteq> []"
  shows "terms_of (guard_step s oper) = terms_of s
    \<and> (ug_expired (sys_guard s) \<longrightarrow> ug_expired (sys_guard (guard_step s oper)))
    \<and> (\<forall>w\<in>set (sys_tickets (guard_step s oper)). w \<in> set (sys_tickets s) \<or> \<not> blocked (ug_window (sys_guard s)) w)"
proof (cases oper)
  case (Enter work now)
  then show ?thesis
    using assms by (auto simp: guard_step_def terms_of_def l4_update_guard_enter_def blocked_def Let_def)
next
  case (Leave i)
  then show ?thesis
    using assms by (auto simp: guard_step_def terms_of_def l4_update_guard_leave_def
        dest: in_set_takeD in_set_dropD)
next
  case (Begin owner window now deadline)
  then show ?thesis
    using assms by (auto simp: guard_step_def terms_of_def l4_update_guard_begin_def Let_def)
next
  case (Ready owner now)
  then show ?thesis
    using assms by (auto simp: guard_step_def terms_of_def l4_update_guard_ready_def Let_def)
next
  case (Finish owner)
  then show ?thesis
    using assms by (auto simp: guard_step_def terms_of_def l4_update_guard_finish_def split: if_splits)
qed

text \<open>The update is not released during the run.\<close>

definition held_through :: "guard_sys \<Rightarrow> guard_op list \<Rightarrow> bool" where
  "held_through s ops \<longleftrightarrow>
     (\<forall>k\<le>length ops. ug_owner (sys_guard (foldl guard_step s (take k ops))) \<noteq> [])"

lemma held_through_Cons:
  "held_through s (oper # ops) \<longleftrightarrow> ug_owner (sys_guard s) \<noteq> [] \<and> held_through (guard_step s oper) ops"
proof
  assume h: "held_through s (oper # ops)"
  show "ug_owner (sys_guard s) \<noteq> [] \<and> held_through (guard_step s oper) ops"
    unfolding held_through_def
  proof (intro conjI allI impI)
    show "ug_owner (sys_guard s) \<noteq> []" using h by (auto simp: held_through_def dest: spec [of _ 0])
    fix k assume "k \<le> length ops"
    then show "ug_owner (sys_guard (foldl guard_step (guard_step s oper) (take k ops))) \<noteq> []"
      using h by (auto simp: held_through_def dest: spec [of _ "Suc k"])
  qed
next
  assume "ug_owner (sys_guard s) \<noteq> [] \<and> held_through (guard_step s oper) ops"
  then show "held_through s (oper # ops)"
    by (auto simp: held_through_def take_Cons' split: if_splits)
qed

lemma held_run:
  "held_through s ops \<Longrightarrow> terms_of (foldl guard_step s ops) = terms_of s
    \<and> (ug_expired (sys_guard s) \<longrightarrow> ug_expired (sys_guard (foldl guard_step s ops)))
    \<and> (\<forall>w\<in>set (sys_tickets (foldl guard_step s ops)).
         w \<in> set (sys_tickets s) \<or> \<not> blocked (ug_window (sys_guard s)) w)"
proof (induction ops arbitrary: s)
  case (Cons oper ops)
  then have h: "ug_owner (sys_guard s) \<noteq> []" "held_through (guard_step s oper) ops"
    by (simp_all add: held_through_Cons)
  then have "ug_owner (sys_guard (guard_step s oper)) \<noteq> []"
    by (auto simp: held_through_def dest: spec [of _ 0])
  note step = held_step [OF h(1) this] and rest = Cons.IH [OF h(2)]
  have "ug_window (sys_guard (guard_step s oper)) = ug_window (sys_guard s)"
    using step by (simp add: terms_of_def)
  then show ?case using step rest by auto
qed simp

lemma ready_facts:
  assumes "counters_ok s" "fst (guard_exec (Ready owner now) s)"
  shows "sys_tickets (guard_step s (Ready owner now)) = sys_tickets s"
    and "terms_of (guard_step s (Ready owner now)) = terms_of s"
    and "ug_owner (sys_guard s) \<noteq> []" "now < ug_deadline (sys_guard s)"
    and "\<forall>w. blocked (ug_window (sys_guard s)) w \<longrightarrow> w \<notin> set (sys_tickets s)"
proof -
  have r: "same_owner (sys_guard s) owner" "\<not> ug_expired (observe now (sys_guard s))"
    "ug_active (sys_guard s) L4_WORK_OTHER_TOOLS = 0"
    "ug_window (sys_guard s) = Some L4_UPDATE_OTHER_TOOLS \<or> ug_active (sys_guard s) L4_WORK_COMMUNICATION = 0"
    using assms(2) by (auto simp: l4_update_guard_ready_def Let_def split: if_splits)
  show "sys_tickets (guard_step s (Ready owner now)) = sys_tickets s"
    "terms_of (guard_step s (Ready owner now)) = terms_of s"
    using r by (auto simp: guard_step_def terms_of_def l4_update_guard_ready_def Let_def)
  show "ug_owner (sys_guard s) \<noteq> []" "now < ug_deadline (sys_guard s)"
    using r by (auto simp: same_owner_def not_le)
  show "\<forall>w. blocked (ug_window (sys_guard s)) w \<longrightarrow> w \<notin> set (sys_tickets s)"
  proof (intro allI impI)
    fix w assume "blocked (ug_window (sys_guard s)) w"
    then have "ug_active (sys_guard s) w = 0" using r by (cases w) (auto simp: blocked_def)
    then show "w \<notin> set (sys_tickets s)" using no_ticket_iff [OF assms(1)] by blast
  qed
qed

section \<open>Who releases an update\<close>

text \<open>
  The one release there is: the owner asks for it while no ticket is held. The rule is stated on
  owner and tickets alone; neither the time nor any other operation ends an update.
\<close>

fun releases :: "guard_sys \<Rightarrow> guard_op \<Rightarrow> bool" where
  "releases s (Finish owner) \<longleftrightarrow> same_owner (sys_guard s) owner \<and> sys_tickets s = []"
| "releases s _ \<longleftrightarrow> False"

fun unreleased :: "guard_sys \<Rightarrow> guard_op list \<Rightarrow> bool" where
  "unreleased s [] \<longleftrightarrow> True"
| "unreleased s (oper # ops) \<longleftrightarrow> \<not> releases s oper \<and> unreleased (guard_step s oper) ops"

lemma no_tickets_iff:
  assumes "counters_ok s"
  shows "sys_tickets s = [] \<longleftrightarrow>
    ug_active (sys_guard s) L4_WORK_COMMUNICATION = 0 \<and> ug_active (sys_guard s) L4_WORK_OTHER_TOOLS = 0"
  unfolding no_ticket_iff [OF assms, symmetric]
  by (metis L4UpdateWork.exhaust empty_iff empty_set list.set_intros(1) neq_Nil_conv)

lemma released_iff:
  assumes "counters_ok s" "ug_owner (sys_guard s) \<noteq> []"
  shows "ug_owner (sys_guard (guard_step s oper)) = [] \<longleftrightarrow> releases s oper"
  using assms no_tickets_iff [OF assms(1)]
  by (cases oper) (auto simp: guard_step_def l4_update_guard_enter_def l4_update_guard_leave_def
      l4_update_guard_begin_def l4_update_guard_ready_def l4_update_guard_finish_def Let_def)

lemma unreleased_held:
  "counters_ok s \<Longrightarrow> ug_owner (sys_guard s) \<noteq> [] \<Longrightarrow> unreleased s ops \<Longrightarrow> held_through s ops"
proof (induction ops arbitrary: s)
  case Nil
  then show ?case by (simp add: held_through_def)
next
  case (Cons oper ops)
  then show ?case using released_iff [of s oper] counters_step [of s oper] by (simp add: held_through_Cons)
qed

lemma enter_grant:
  assumes "ug_owner (sys_guard s) \<noteq> []" "fst (guard_exec (Enter w now) s)"
  shows "\<not> blocked (ug_window (sys_guard s)) w" "now < ug_deadline (sys_guard s)"
  using assms by (auto simp: l4_update_guard_enter_def Let_def blocked_def not_le split: if_splits)

text \<open>
  C13: An update and the work it excludes never overlap. Take any interleaving of operations from
  the zeroed guard. When \<open>l4_update_guard_ready\<close> answers yes, the deadline has not passed and no
  ticket of excluded work (everything in the communication window, the other tools in the second
  window) is held; and however the run continues, as long as the owner has not released the update
  no such ticket is held either, owner, window and deadline stay what they were, whatever the times
  are, and an entry is granted only to work that is not excluded and only before the deadline. The
  update ends only by its owner's finish and only when no ticket at all is held, and such a finish
  succeeds: no other operation and no time that passes releases it.
\<close>

theorem guard_excludes_work:
  assumes "s = foldl guard_step sys_start ops" "fst (guard_exec (Ready owner now) s)"
    and "s' = guard_step s (Ready owner now)" "unreleased s' more_ops"
    and "t = foldl guard_step s' more_ops"
  shows "(\<forall>w. blocked (ug_window (sys_guard s)) w \<longrightarrow> w \<notin> set (sys_tickets s) \<and> w \<notin> set (sys_tickets t))
     \<and> now < ug_deadline (sys_guard s) \<and> terms_of t = terms_of s
     \<and> (\<forall>w now'. fst (guard_exec (Enter w now') t) \<longrightarrow>
           \<not> blocked (ug_window (sys_guard s)) w \<and> now' < ug_deadline (sys_guard s))
     \<and> (\<forall>oper. ug_owner (sys_guard (guard_step t oper)) = [] \<longleftrightarrow>
           (\<exists>owner'. oper = Finish owner' \<and> same_owner (sys_guard t) owner' \<and> sys_tickets t = []))
     \<and> (fst (guard_exec (Finish owner') t) \<longleftrightarrow> same_owner (sys_guard t) owner' \<and> sys_tickets t = [])"
proof -
  have "counters_ok sys_start" by (simp add: sys_start_def counters_ok_def guard_zero_def)
  then have ok: "counters_ok s" using guard_counters.inv_run assms(1) by simp
  then have ok': "counters_ok s'" and okt: "counters_ok t"
    using assms(3,5) counters_step guard_counters.inv_run by simp_all
  note ready = ready_facts [OF ok assms(2), folded assms(3)]
  have "ug_owner (sys_guard s') \<noteq> []" using ready(2,3) by (simp add: terms_of_def)
  then have held: "held_through s' more_ops" by (rule unreleased_held [OF ok' _ assms(4)])
  note run = held_run [OF held, folded assms(5)]
  then have terms: "terms_of t = terms_of s" using ready(2) by simp
  then have t: "ug_owner (sys_guard t) \<noteq> []" using ready(3) by (simp add: terms_of_def)
  have rel: "releases t oper \<longleftrightarrow>
      (\<exists>owner'. oper = Finish owner' \<and> same_owner (sys_guard t) owner' \<and> sys_tickets t = [])" for oper
    by (cases oper) auto
  have "fst (guard_exec (Finish owner') t) \<longleftrightarrow> same_owner (sys_guard t) owner' \<and> sys_tickets t = []"
    using no_tickets_iff [OF okt] by (auto simp: l4_update_guard_finish_def)
  moreover have "\<forall>w. blocked (ug_window (sys_guard s)) w \<longrightarrow> w \<notin> set (sys_tickets s) \<and> w \<notin> set (sys_tickets t)"
    using run ready by (auto simp: terms_of_def)
  moreover have "\<forall>w now'. fst (guard_exec (Enter w now') t) \<longrightarrow>
      \<not> blocked (ug_window (sys_guard s)) w \<and> now' < ug_deadline (sys_guard s)"
    using enter_grant [OF t] terms by (simp add: terms_of_def)
  ultimately show ?thesis using ready(4) terms released_iff [OF okt t] rel by simp
qed

lemma held_through_Nil: "held_through s [] \<longleftrightarrow> ug_owner (sys_guard s) \<noteq> []"
  by (simp add: held_through_def)

definition demo_owner :: string where
  "demo_owner = ''01234567-89ab-cdef-0123-456789abcdef''"

definition demo_ops :: "guard_op list" where
  "demo_ops = [Enter L4_WORK_COMMUNICATION 1, Begin demo_owner L4_UPDATE_COMMUNICATION 2 100, Leave 0]"

definition demo_sys :: guard_sys where
  "demo_sys = foldl guard_step sys_start demo_ops"

theorem guard_excludes_work_witness:
  "L4_WORK_OTHER_TOOLS \<notin> set (sys_tickets (foldl guard_step (guard_step demo_sys (Ready demo_owner 5))
       [Enter L4_WORK_OTHER_TOOLS 200]))
   \<and> 5 < ug_deadline (sys_guard demo_sys)"
proof -
  have ready: "fst (guard_exec (Ready demo_owner 5) demo_sys)" by code_simp
  have "unreleased (guard_step demo_sys (Ready demo_owner 5)) [Enter L4_WORK_OTHER_TOOLS 200]" by simp
  then show ?thesis
    using guard_excludes_work [OF demo_sys_def ready refl _ refl, of "[Enter L4_WORK_OTHER_TOOLS 200]" "[]"]
    by (auto simp: blocked_def)
qed

text \<open>
  Expiry is final until the release. Once work asked for entry at or after the deadline of an
  update that is under way, then as long as the update is not released no work enters, the update is
  never reported ready, and its owner cannot begin it again, at whatever times these are asked.
\<close>

theorem guard_expiry_final:
  assumes "ug_owner (sys_guard s) \<noteq> []" "ug_deadline (sys_guard s) \<le> now"
    and "held_through (guard_step s (Enter w now)) ops"
    and "t = foldl guard_step (guard_step s (Enter w now)) ops"
  shows "ug_expired (sys_guard t) \<and> terms_of t = terms_of s
     \<and> \<not> fst (guard_exec (Enter w' now') t) \<and> \<not> fst (guard_exec (Ready owner now') t)
     \<and> \<not> fst (guard_exec (Begin owner window now' deadline) t)"
proof -
  have s': "ug_expired (sys_guard (guard_step s (Enter w now)))" "terms_of (guard_step s (Enter w now)) = terms_of s"
    using assms(1,2)
    by (auto simp: guard_step_def terms_of_def l4_update_guard_enter_def Let_def)
  then have t: "ug_expired (sys_guard t)" "terms_of t = terms_of s"
    using held_run [OF assms(3)] assms(4) by auto
  moreover from t(2) have "ug_owner (sys_guard t) \<noteq> []" using assms(1) by (simp add: terms_of_def)
  ultimately show ?thesis
    by (auto simp: l4_update_guard_enter_def l4_update_guard_ready_def l4_update_guard_begin_def Let_def)
qed

definition late_sys :: guard_sys where
  "late_sys = guard_step sys_start (Begin demo_owner L4_UPDATE_OTHER_TOOLS 2 100)"

theorem guard_expiry_final_witness:
  "\<not> fst (guard_exec (Enter L4_WORK_COMMUNICATION 3) (guard_step late_sys (Enter L4_WORK_COMMUNICATION 100)))"
proof -
  have "ug_owner (sys_guard late_sys) \<noteq> []" "ug_deadline (sys_guard late_sys) \<le> 100"
    "ug_owner (sys_guard (guard_step late_sys (Enter L4_WORK_COMMUNICATION 100))) \<noteq> []"
    by code_simp+
  then show ?thesis
    using guard_expiry_final [of late_sys 100 L4_WORK_COMMUNICATION "[]"] by (simp add: held_through_Nil)
qed

end
