(* ===== verification/Update_Journal.thy ===== *)
theory Update_Journal
  imports Ipc_Protocol "HOL-Library.Sublist"
begin

text \<open>
  The operation journal of the updater, \<open>tools/l4common/journal.c\<close>: an append-only file of records
  chained by a hash, written through and flushed before an append is acknowledged, and scanned when
  it is opened; the incomplete record a crash left at the end is cut off. The file is a byte string
  in the journal's record; SHA-256 of the system library is a parameter. Names, locks and access
  rights of the file, and failures of reading or allocation (which change nothing), are outside.
  The theorems state what a crash at any byte of any append leaves behind.
\<close>

section \<open>Definitions of the source\<close>

datatype store_error =
    ERROR_INVALID_PARAMETER | ERROR_INVALID_DATA | ERROR_CRC | ERROR_DISK_FULL | ERROR_WRITE_FAULT
  | ERROR_NOT_FOUND | ERROR_CALLBACK | ERROR_IO_PENDING

type_synonym sha = "bytes \<Rightarrow> bytes option"

abbreviation HEADER_SIZE :: nat where "HEADER_SIZE \<equiv> 24"
abbreviation FRAME_SIZE :: nat where "FRAME_SIZE \<equiv> 48"
abbreviation JOURNAL_LIMIT :: nat where "JOURNAL_LIMIT \<equiv> 8388608"
abbreviation L4_JOURNAL_MAX_RECORD :: nat where "L4_JOURNAL_MAX_RECORD \<equiv> 262144"
abbreviation END_MARKER :: u32 where "END_MARKER \<equiv> 0xc04d17ed"

record L4Journal =
  jr_sequence :: u64
  jr_end :: nat
  jr_digest :: bytes
  jr_header :: bytes
  jr_poisoned :: bool
  jr_file :: bytes

definition l4_store_u32 :: "u32 \<Rightarrow> bytes" where
  "l4_store_u32 v = map (\<lambda>i. ucast (drop_bit (i * 8) v)) [0..<4]"

definition l4_store_u64 :: "u64 \<Rightarrow> bytes" where
  "l4_store_u64 v = map (\<lambda>i. ucast (drop_bit (i * 8) v)) [0..<8]"

definition l4_store_get32 :: "bytes \<Rightarrow> u32" where
  "l4_store_get32 b = foldl (\<lambda>v i. v OR push_bit (i * 8) (ucast (b ! i))) 0 [0..<4]"

definition l4_store_get64 :: "bytes \<Rightarrow> u64" where
  "l4_store_get64 b = foldl (\<lambda>v i. v OR push_bit (i * 8) (ucast (b ! i))) 0 [0..<8]"

text \<open>
  The first loop of \<open>scan\<close>, on the bytes behind the committed ones: the digest, the number of the
  last record and the end of the committed part. An incomplete record ends it without an error.
\<close>

function scan_loop :: "sha \<Rightarrow> bytes \<Rightarrow> u64 \<Rightarrow> nat \<Rightarrow> bytes \<Rightarrow> store_error + (bytes \<times> u64 \<times> nat)" where
  "scan_loop sha digest sequence end_at frm =
     (if frm = [] \<or> length frm < FRAME_SIZE then Inr (digest, sequence, end_at)
      else
        let kind = l4_store_get32 frm;
            len = unat (l4_store_get32 (drop 4 frm));
            number = l4_store_get64 (drop 8 frm) in
        if kind = 0 \<or> L4_JOURNAL_MAX_RECORD < len \<or> number \<noteq> sequence + 1 then Inl ERROR_INVALID_DATA
        else if length frm < FRAME_SIZE + len + 4 then Inr (digest, sequence, end_at)
        else if l4_store_get32 (drop (FRAME_SIZE + len) frm) \<noteq> END_MARKER then Inl ERROR_CRC
        else case sha (take 16 frm @ digest @ take len (drop FRAME_SIZE frm)) of
            None \<Rightarrow> Inl ERROR_CRC
          | Some actual \<Rightarrow>
              if actual \<noteq> take 32 (drop 16 frm) then Inl ERROR_CRC
              else scan_loop sha actual number (end_at + FRAME_SIZE + len + 4)
                     (drop (FRAME_SIZE + len + 4) frm))"
  by pat_completeness auto
termination
  by (relation "measure (\<lambda>(_, _, _, _, frm). length frm)") auto

declare scan_loop.simps [simp del]

text \<open>The second loop of \<open>scan\<close>, over the committed records.\<close>

function visit_loop :: "(u32 \<Rightarrow> u64 \<Rightarrow> bytes \<Rightarrow> 'c \<Rightarrow> 'c option) \<Rightarrow> bytes \<Rightarrow> 'c \<Rightarrow> 'c option" where
  "visit_loop visit frm context =
     (if frm = [] then Some context
      else
        let len = unat (l4_store_get32 (drop 4 frm)) in
        case visit (l4_store_get32 frm) (l4_store_get64 (drop 8 frm)) (take len (drop FRAME_SIZE frm))
               context of
          None \<Rightarrow> None
        | Some context \<Rightarrow> visit_loop visit (drop (FRAME_SIZE + len + 4) frm) context)"
  by pat_completeness auto
termination
  by (relation "measure (\<lambda>(_, frm, _). length frm)") auto

declare visit_loop.simps [simp del]

text \<open>\<open>truncate_ok\<close>: whether the system could cut the file and flush it.\<close>

definition scan :: "sha \<Rightarrow> bool \<Rightarrow> (u32 \<Rightarrow> u64 \<Rightarrow> bytes \<Rightarrow> 'c \<Rightarrow> 'c option) option \<Rightarrow> 'c \<Rightarrow> bool
    \<Rightarrow> L4Journal \<Rightarrow> store_error + (L4Journal \<times> 'c)" where
  "scan sha truncate_ok visit context repair j =
     (let data = jr_file j in
      if length data < HEADER_SIZE \<or> JOURNAL_LIMIT < length data then Inl ERROR_INVALID_DATA
      else if take HEADER_SIZE data \<noteq> jr_header j then Inl ERROR_INVALID_DATA
      else case sha (take HEADER_SIZE data) of
          None \<Rightarrow> Inl ERROR_CRC
        | Some digest \<Rightarrow>
            (case scan_loop sha digest 0 HEADER_SIZE (drop HEADER_SIZE data) of
               Inl e \<Rightarrow> Inl e
             | Inr (digest, sequence, end_at) \<Rightarrow>
                 if repair \<and> end_at \<noteq> length data \<and> \<not> truncate_ok then Inl ERROR_WRITE_FAULT
                 else
                   let j' = (if repair
                             then j\<lparr>jr_file := take end_at data, jr_sequence := sequence,
                                    jr_end := end_at, jr_digest := digest\<rparr>
                             else j) in
                   (case visit of
                      None \<Rightarrow> Inr (j', context)
                    | Some v \<Rightarrow>
                        (case visit_loop v (take (end_at - HEADER_SIZE) (drop HEADER_SIZE data)) context of
                           None \<Rightarrow> Inl ERROR_CALLBACK
                         | Some c \<Rightarrow> Inr (j', c)))))"

definition journal_header :: "bytes \<Rightarrow> bytes" where
  "journal_header guid = map (\<lambda>c. of_char c) ''L4J1'' @ l4_store_u32 1 @ guid"

definition l4_journal_open :: "sha \<Rightarrow> bool \<Rightarrow> bytes \<Rightarrow> bool \<Rightarrow> bytes \<Rightarrow> store_error + L4Journal" where
  "l4_journal_open sha truncate_ok guid create file_bytes =
     (let header = journal_header guid;
          file_bytes = (if file_bytes = [] \<and> create then header else file_bytes);
          j = \<lparr>jr_sequence = 0, jr_end = 0, jr_digest = replicate 32 0, jr_header = header,
               jr_poisoned = False, jr_file = file_bytes\<rparr> in
      if length file_bytes < HEADER_SIZE \<or> take HEADER_SIZE file_bytes \<noteq> header
      then Inl ERROR_INVALID_DATA
      else map_sum id fst (scan sha truncate_ok None () True j))"

text \<open>
  The outcome of the writes is an argument: \<open>None\<close> when everything was written and flushed, \<open>Some n\<close>
  when an error is reported after \<open>n\<close> bytes have reached the file.
\<close>

definition l4_journal_append ::
    "sha \<Rightarrow> nat option \<Rightarrow> u32 \<Rightarrow> bytes \<Rightarrow> L4Journal \<Rightarrow> (store_error + u64) \<times> L4Journal" where
  "l4_journal_append sha io kind bs j =
     (if jr_poisoned j \<or> kind = 0 \<or> L4_JOURNAL_MAX_RECORD < length bs
      then (Inl ERROR_INVALID_PARAMETER, j)
      else if JOURNAL_LIMIT < jr_end j + FRAME_SIZE + length bs + 4 then (Inl ERROR_DISK_FULL, j)
      else
        let head = l4_store_u32 kind @ l4_store_u32 (of_nat (length bs)) @ l4_store_u64 (jr_sequence j + 1) in
        case sha (head @ jr_digest j @ bs) of
          None \<Rightarrow> (Inl ERROR_CRC, j\<lparr>jr_poisoned := True\<rparr>)
        | Some hash \<Rightarrow>
            let rec = head @ hash @ bs @ l4_store_u32 END_MARKER in
            (case io of
               Some n \<Rightarrow>
                 (Inl ERROR_WRITE_FAULT,
                  j\<lparr>jr_poisoned := True,
                    jr_file := take (jr_end j) (jr_file j) @ take n rec @ drop (jr_end j + n) (jr_file j)\<rparr>)
             | None \<Rightarrow>
                 (Inr (jr_sequence j + 1),
                  j\<lparr>jr_sequence := jr_sequence j + 1, jr_end := jr_end j + FRAME_SIZE + length bs + 4,
                    jr_digest := hash,
                    jr_file := take (jr_end j) (jr_file j) @ rec
                      @ drop (jr_end j + length rec) (jr_file j)\<rparr>)))"

definition l4_journal_replay ::
    "sha \<Rightarrow> (u32 \<Rightarrow> u64 \<Rightarrow> bytes \<Rightarrow> 'c \<Rightarrow> 'c option) \<Rightarrow> 'c \<Rightarrow> L4Journal \<Rightarrow> store_error + 'c" where
  "l4_journal_replay sha visit context j =
     (if jr_poisoned j then Inl ERROR_INVALID_PARAMETER
      else map_sum id snd (scan sha True (Some visit) context False j))"

definition find_record :: "u32 \<Rightarrow> u64 \<Rightarrow> u32 \<Rightarrow> u64 \<Rightarrow> bytes \<Rightarrow> bytes option \<Rightarrow> bytes option option" where
  "find_record want_kind want_sequence kind sequence bs found =
     Some (if kind = want_kind \<and> sequence = want_sequence then Some bs else found)"

definition l4_store_find_record :: "sha \<Rightarrow> L4Journal \<Rightarrow> u32 \<Rightarrow> u64 \<Rightarrow> store_error + bytes" where
  "l4_store_find_record sha j kind sequence =
     (case l4_journal_replay sha (find_record kind sequence) None j of
        Inl e \<Rightarrow> Inl e
      | Inr None \<Rightarrow> Inl ERROR_NOT_FOUND
      | Inr (Some bs) \<Rightarrow> Inr bs)"

text \<open>The reader for journals of other operations, \<open>journal_reader.c\<close>, accepts no
  incomplete record; one that reads a live journal reports it as pending.\<close>

function reader_validate :: "bool \<Rightarrow> sha \<Rightarrow> bytes \<Rightarrow> u64 \<Rightarrow> bytes \<Rightarrow> store_error + (bytes \<times> u64)" where
  "reader_validate live sha digest seq f =
     (if f = [] then Inr (digest, seq)
      else if length f < FRAME_SIZE + 4 then Inl (if live then ERROR_IO_PENDING else ERROR_INVALID_DATA)
      else
        let kind = l4_store_get32 f; size = unat (l4_store_get32 (drop 4 f));
            number = l4_store_get64 (drop 8 f) in
        if kind = 0 \<or> L4_JOURNAL_MAX_RECORD < size \<or> number \<noteq> seq + 1 then Inl ERROR_INVALID_DATA
        else if length f - FRAME_SIZE - 4 < size
        then Inl (if live then ERROR_IO_PENDING else ERROR_INVALID_DATA)
        else if l4_store_get32 (drop (FRAME_SIZE + size) f) \<noteq> END_MARKER then Inl ERROR_CRC
        else case sha (take 16 f @ digest @ take size (drop FRAME_SIZE f)) of
            None \<Rightarrow> Inl ERROR_CRC
          | Some actual \<Rightarrow>
              if actual \<noteq> take 32 (drop 16 f) then Inl ERROR_CRC
              else reader_validate live sha actual number (drop (FRAME_SIZE + size + 4) f))"
  by pat_completeness auto
termination
  by (relation "measure (\<lambda>(_, _, _, _, f). length f)") auto

declare reader_validate.simps [simp del]


section \<open>Fields\<close>

lemma upto_4: "[0..<4] = [0, 1, 2, 3 :: nat]" and upto_8: "[0..<8] = [0, 1, 2, 3, 4, 5, 6, 7 :: nat]"
  by (simp_all add: upt_rec)

lemma store_u32_le: "l4_store_u32 = l4c_write_u32_le"
  by (rule ext) (simp add: l4_store_u32_def l4c_write_u32_le_def upto_4)

lemma store_u64_le: "l4_store_u64 = l4c_write_u64_le"
  by (rule ext)
     (auto simp: l4_store_u64_def l4c_write_u64_le_def l4c_write_u32_le_def upto_8 bit_simps intro!: bit_word_eqI)

lemma store_get32_le: "l4_store_get32 = l4c_read_u32_le"
  by (rule ext) (simp add: l4_store_get32_def l4c_read_u32_le_def upto_4 or.assoc)

lemma widen_shifted_byte:
  "k \<le> 24 \<Longrightarrow> (ucast (push_bit k (ucast (b :: u8) :: u32)) :: u64) = push_bit k (ucast b)"
  by (rule bit_word_eqI) (auto simp: bit_simps bit_u8_high dest: bit_in_width)

lemma store_get64_le:
  assumes "8 \<le> length b"
  shows "l4_store_get64 b = l4c_read_u64_le b"
proof -
  have byte: "(ucast (ucast x :: u32) :: u64) = ucast x" for x :: u8
    using widen_shifted_byte [of 0 x] by simp
  show ?thesis
    using assms
    by (simp add: l4_store_get64_def l4c_read_u64_le_def l4c_read_u32_le_def upto_8 unsigned_or_eq
        widen_shifted_byte byte push_bit_or or.assoc)
qed

lemmas store_fields = store_u32_le store_u64_le store_get32_le


section \<open>The log a journal file encodes\<close>

type_synonym journal_record = "u32 \<times> bytes"

definition rec_ok :: "journal_record \<Rightarrow> bool" where
  "rec_ok r \<longleftrightarrow> fst r \<noteq> 0 \<and> length (snd r) \<le> L4_JOURNAL_MAX_RECORD"

definition rec_head :: "u64 \<Rightarrow> journal_record \<Rightarrow> bytes" where
  "rec_head n r = l4_store_u32 (fst r) @ l4_store_u32 (of_nat (length (snd r))) @ l4_store_u64 n"

definition rec_digest :: "(bytes \<Rightarrow> bytes) \<Rightarrow> bytes \<Rightarrow> u64 \<Rightarrow> journal_record \<Rightarrow> bytes" where
  "rec_digest H d n r = H (rec_head n r @ d @ snd r)"

definition rec_bytes :: "(bytes \<Rightarrow> bytes) \<Rightarrow> bytes \<Rightarrow> u64 \<Rightarrow> journal_record \<Rightarrow> bytes" where
  "rec_bytes H d n r = rec_head n r @ rec_digest H d n r @ snd r @ l4_store_u32 END_MARKER"

fun log_bytes :: "(bytes \<Rightarrow> bytes) \<Rightarrow> bytes \<Rightarrow> u64 \<Rightarrow> journal_record list \<Rightarrow> bytes" where
  "log_bytes H d n [] = []"
| "log_bytes H d n (r # rs) = rec_bytes H d (n + 1) r @ log_bytes H (rec_digest H d (n + 1) r) (n + 1) rs"

fun log_digest :: "(bytes \<Rightarrow> bytes) \<Rightarrow> bytes \<Rightarrow> u64 \<Rightarrow> journal_record list \<Rightarrow> bytes" where
  "log_digest H d n [] = d"
| "log_digest H d n (r # rs) = log_digest H (rec_digest H d (n + 1) r) (n + 1) rs"

abbreviation total_sha :: "(bytes \<Rightarrow> bytes) \<Rightarrow> sha" where
  "total_sha H \<equiv> \<lambda>x. Some (H x)"

lemma rec_head_length [simp]: "length (rec_head n r) = 16"
  by (simp add: rec_head_def store_fields u32le.put_width u64le.put_width)

lemma rec_bytes_length:
  "\<forall>x. length (H x) = 32 \<Longrightarrow> length (rec_bytes H d n r) = FRAME_SIZE + length (snd r) + 4"
  by (simp add: rec_bytes_def rec_digest_def store_fields u32le.put_width)

lemma head_fields:
  assumes "16 \<le> length f" "take 16 f = rec_head n r" "rec_ok r"
  shows "l4_store_get32 f = fst r" "unat (l4_store_get32 (drop 4 f)) = length (snd r)"
    "l4_store_get64 (drop 8 f) = n"
proof -
  let ?k = "l4c_write_u32_le (fst r)" and ?l = "l4c_write_u32_le (of_nat (length (snd r)))"
    and ?n = "l4c_write_u64_le n"
  have f: "f = ?k @ ?l @ ?n @ drop 16 f"
    using assms(2) append_take_drop_id [of 16 f] by (simp add: rec_head_def store_fields)
  then have d4: "drop 4 f = ?l @ ?n @ drop 16 f"
    using u32le.drop_put [of "fst r" "?l @ ?n @ drop 16 f"] by simp
  then have d8: "drop 8 f = ?n @ drop 16 f"
    using u32le.drop_put [of "of_nat (length (snd r))" "?n @ drop 16 f"] by (metis drop_drop numeral_Bit0)
  show "l4_store_get32 f = fst r" using f u32le.get_put by (metis store_get32_le)
  have "unat (of_nat (length (snd r)) :: u32) = length (snd r)"
    using assms(3) by (simp add: rec_ok_def unat_of_nat)
  then show "unat (l4_store_get32 (drop 4 f)) = length (snd r)"
    using d4 u32le.get_put by (simp add: store_get32_le)
  have "8 \<le> length (drop 8 f)" using assms(1) by simp
  then show "l4_store_get64 (drop 8 f) = n"
    using d8 u64le.get_put by (simp add: store_get64_le)
qed

lemma scan_short: "length f < FRAME_SIZE \<Longrightarrow> scan_loop sha d n e f = Inr (d, n, e)"
  by (subst scan_loop.simps) simp

lemma scan_step:
  assumes "FRAME_SIZE \<le> length f" "l4_store_get32 f = k" "unat (l4_store_get32 (drop 4 f)) = len"
    and "l4_store_get64 (drop 8 f) = m"
  shows "scan_loop sha d n e f =
     (if k = 0 \<or> L4_JOURNAL_MAX_RECORD < len \<or> m \<noteq> n + 1 then Inl ERROR_INVALID_DATA
      else if length f < 52 + len then Inr (d, n, e)
      else if l4_store_get32 (drop (48 + len) f) \<noteq> END_MARKER then Inl ERROR_CRC
      else case sha (take 16 f @ d @ take len (drop 48 f)) of
          None \<Rightarrow> Inl ERROR_CRC
        | Some actual \<Rightarrow>
            if actual \<noteq> take 32 (drop 16 f) then Inl ERROR_CRC
            else scan_loop sha actual m (e + (52 + len)) (drop (52 + len) f))"
proof -
  have "f \<noteq> []" using assms(1) by auto
  moreover have "e + FRAME_SIZE + len + 4 = e + (52 + len)" "FRAME_SIZE + len + 4 = 52 + len" by simp_all
  ultimately show ?thesis
    using assms(1) unfolding scan_loop.simps [of _ _ _ _ f] assms(2-4) Let_def
    by (simp add: add.left_commute split: option.split)
qed

lemma scan_record:
  assumes H: "\<forall>x. length (H x) = 32" and r: "rec_ok r"
  shows "scan_loop (total_sha H) d n e (rec_bytes H d (n + 1) r @ rest)
    = scan_loop (total_sha H) (rec_digest H d (n + 1) r) (n + 1) (e + FRAME_SIZE + length (snd r) + 4) rest"
proof -
  let ?f = "rec_bytes H d (n + 1) r @ rest" and ?len = "length (snd r)"
  have head: "take 16 ?f = rec_head (n + 1) r" by (simp add: rec_bytes_def)
  have long: "length ?f = FRAME_SIZE + ?len + 4 + length rest"
    using rec_bytes_length [OF H] by simp
  note fields = head_fields [OF _ head r]
  have hash: "take 32 (drop 16 ?f) = rec_digest H d (n + 1) r"
    using H by (simp add: rec_bytes_def rec_digest_def)
  have d48: "drop 48 ?f = snd r @ l4_store_u32 END_MARKER @ rest"
    using H by (simp add: rec_bytes_def rec_digest_def)
  have body: "take ?len (drop 48 ?f) = snd r" unfolding d48 by simp
  have marker: "l4_store_get32 (drop (48 + ?len) ?f) = END_MARKER"
  proof -
    have "drop (48 + ?len) ?f = drop ?len (drop 48 ?f)" unfolding drop_drop by (simp only: add.commute)
    also have "\<dots> = l4_store_u32 END_MARKER @ rest" unfolding d48 by simp
    finally show ?thesis by (simp add: store_fields u32le.get_put)
  qed
  have rest: "drop (52 + ?len) ?f = rest"
    using rec_bytes_length [OF H, of d "n + 1" r] by simp
  have "FRAME_SIZE \<le> length ?f" "16 \<le> length ?f" "\<not> length ?f < 52 + ?len" using long by simp_all
  note step = scan_step [OF this(1) fields [OF this(2)], of "total_sha H" d n e] and this(3)
  then show ?thesis
    using r hash unfolding head body marker rest
    by (simp add: rec_digest_def rec_ok_def add.commute add.left_commute)
qed


text \<open>A strict prefix of a record is read as an incomplete record.\<close>

lemma scan_torn:
  assumes H: "\<forall>x. length (H x) = 32" and r: "rec_ok r" and short: "k < length (rec_bytes H d (n + 1) r)"
  shows "scan_loop (total_sha H) d n e (take k (rec_bytes H d (n + 1) r)) = Inr (d, n, e)"
proof (cases "k < 48")
  case True
  then show ?thesis by (intro scan_short) simp
next
  case False
  let ?f = "take k (rec_bytes H d (n + 1) r)"
  have k: "k < FRAME_SIZE + length (snd r) + 4" using short rec_bytes_length [OF H] by simp
  have "take 16 ?f = rec_head (n + 1) r" using False by (simp add: rec_bytes_def min_def)
  moreover have "length ?f = k" using short by simp
  ultimately show ?thesis
    using scan_step [OF _ head_fields [of ?f "n + 1" r], of "total_sha H" d n e] r k False
    by (simp add: rec_ok_def)
qed

lemma scan_log:
  assumes H: "\<forall>x. length (H x) = 32"
    and tail: "\<And>d n e. d = log_digest H d0 n0 rs \<Longrightarrow> n = n0 + of_nat (length rs)
        \<Longrightarrow> scan_loop (total_sha H) d n e tail = Inr (d, n, e)"
  shows "list_all rec_ok rs \<Longrightarrow> scan_loop (total_sha H) d0 n0 e (log_bytes H d0 n0 rs @ tail)
    = Inr (log_digest H d0 n0 rs, n0 + of_nat (length rs), e + length (log_bytes H d0 n0 rs))"
  using tail
proof (induction rs arbitrary: d0 n0 e)
  case (Cons r rs)
  have "scan_loop (total_sha H) (rec_digest H d0 (n0 + 1) r) (n0 + 1) (e + FRAME_SIZE + length (snd r) + 4)
      (log_bytes H (rec_digest H d0 (n0 + 1) r) (n0 + 1) rs @ tail)
    = Inr (log_digest H (rec_digest H d0 (n0 + 1) r) (n0 + 1) rs, n0 + 1 + of_nat (length rs),
        e + FRAME_SIZE + length (snd r) + 4 + length (log_bytes H (rec_digest H d0 (n0 + 1) r) (n0 + 1) rs))"
    using Cons.prems by (intro Cons.IH) (simp_all add: add.assoc)
  then show ?case
    using Cons.prems scan_record [OF H, of r d0 n0 e] rec_bytes_length [OF H, of d0 "n0 + 1" r]
    by (simp add: add.assoc)
qed simp

lemma scan_nothing: "scan_loop sha d n e [] = Inr (d, n, e)"
  by (subst scan_loop.simps) simp

text \<open>Conversely, whatever a scan accepts is the encoding of a log and an incomplete record.\<close>

lemma record_of_bytes:
  fixes f :: bytes
  defines "k \<equiv> l4_store_get32 f" and "len \<equiv> unat (l4_store_get32 (drop 4 f))"
    and "n \<equiv> l4_store_get64 (drop 8 f)"
  assumes long: "FRAME_SIZE + len + 4 \<le> length f"
    and marker: "l4_store_get32 (drop (FRAME_SIZE + len) f) = END_MARKER"
    and hash: "H (take 16 f @ d @ take len (drop FRAME_SIZE f)) = take 32 (drop 16 f)"
  shows "f = rec_bytes H d n (k, take len (drop FRAME_SIZE f)) @ drop (FRAME_SIZE + len + 4) f"
proof -
  let ?b = "take len (drop FRAME_SIZE f)"
  have len: "length ?b = len" using long by simp
  then have "of_nat (length ?b) = l4_store_get32 (drop 4 f)" by (simp add: len_def)
  moreover have "l4_store_u32 (l4_store_get32 g) = take 4 g" if "4 \<le> length g" for g
    using that by (simp add: store_fields u32le.put_get_take)
  moreover have "l4_store_u64 (l4_store_get64 g) = take 8 g" if "8 \<le> length g" for g
    using that by (simp add: store_u64_le store_get64_le u64le.put_get_take)
  ultimately have "rec_head n (k, ?b) = take 4 f @ take 4 (drop 4 f) @ take 8 (drop 8 f)"
    using long by (simp add: rec_head_def k_def n_def)
  also have "\<dots> = take 16 f"
    using take_add [of 4 4 f] take_add [of 8 8 f] by simp
  finally have head: "rec_head n (k, ?b) = take 16 f" .
  have mark: "l4_store_u32 END_MARKER = take 4 (drop (FRAME_SIZE + len) f)"
    using marker long u32le.put_get_take [of "drop (FRAME_SIZE + len) f"] by (simp add: store_fields)
  have "f = take 16 f @ take 32 (drop 16 f) @ ?b @ take 4 (drop (FRAME_SIZE + len) f)
      @ drop (FRAME_SIZE + len + 4) f"
    using drop_glue [of "FRAME_SIZE + len + 4" "FRAME_SIZE + len" 4 f] drop_glue [of "FRAME_SIZE + len" FRAME_SIZE len f]
      drop_glue [of FRAME_SIZE 16 32 f] by simp
  then show ?thesis
    using head hash mark by (simp add: rec_bytes_def rec_digest_def)
qed

lemma scan_sound:
  "scan_loop (total_sha H) d n e f = Inr (d', n', e') \<Longrightarrow> \<exists>rs tail. f = log_bytes H d n rs @ tail
     \<and> list_all rec_ok rs \<and> d' = log_digest H d n rs \<and> n' = n + of_nat (length rs)
     \<and> e' = e + length (log_bytes H d n rs) \<and> scan_loop (total_sha H) d' n' e' tail = Inr (d', n', e')"
proof (induction "length f" arbitrary: d n e f rule: less_induct)
  case (less f d n e)
  define k where "k = l4_store_get32 f"
  define len where "len = unat (l4_store_get32 (drop 4 f))"
  define m where "m = l4_store_get64 (drop 8 f)"
  let ?b = "take len (drop FRAME_SIZE f)"
  show ?case
  proof (cases "length f < FRAME_SIZE")
    case True
    then show ?thesis
      using less(2) scan_short by (intro exI [of _ "[]"] exI [of _ f]) auto
  next
    case False
    note step = scan_step [of f k len m "total_sha H" d n e, OF _ k_def [symmetric] len_def [symmetric] m_def [symmetric]]
    show ?thesis
    proof (cases "length f < 52 + len")
      case True
      then have "scan_loop (total_sha H) d n e f = Inr (d, n, e)"
        using step False less(2) by (auto split: if_splits)
      then show ?thesis using less(2) by (intro exI [of _ "[]"] exI [of _ f]) auto
    next
      case long: False
      have ok: "k \<noteq> 0" "len \<le> L4_JOURNAL_MAX_RECORD" "m = n + 1"
        and marker: "l4_store_get32 (drop (48 + len) f) = END_MARKER"
        and hash: "H (take 16 f @ d @ ?b) = take 32 (drop 16 f)"
        and rest: "scan_loop (total_sha H) (H (take 16 f @ d @ ?b)) m (e + (52 + len)) (drop (52 + len) f) = Inr (d', n', e')"
        using less(2) step False long by (auto split: if_splits)
      have f: "f = rec_bytes H d (n + 1) (k, ?b) @ drop (52 + len) f"
        using record_of_bytes [of f H d] long marker hash ok
        by (simp add: k_def len_def m_def add.commute)
      have lenb: "length ?b = len" using long by simp
      then have rok: "rec_ok (k, ?b)" using ok by (simp add: rec_ok_def)
      have dig: "H (take 16 f @ d @ ?b) = rec_digest H d (n + 1) (k, ?b)"
        unfolding rec_digest_def by (subst (1) f) (simp add: rec_bytes_def)
      have "\<exists>rs tail. drop (52 + len) f = log_bytes H (rec_digest H d (n + 1) (k, ?b)) (n + 1) rs @ tail
          \<and> list_all rec_ok rs \<and> d' = log_digest H (rec_digest H d (n + 1) (k, ?b)) (n + 1) rs
          \<and> n' = n + 1 + of_nat (length rs)
          \<and> e' = e + (52 + len) + length (log_bytes H (rec_digest H d (n + 1) (k, ?b)) (n + 1) rs)
          \<and> scan_loop (total_sha H) d' n' e' tail = Inr (d', n', e')"
      proof (rule less(1))
        show "length (drop (52 + len) f) < length f" using False long by simp
      qed (use rest in \<open>simp only: dig ok(3)\<close>)
      then obtain rs tail where IH: "drop (52 + len) f = log_bytes H (rec_digest H d (n + 1) (k, ?b)) (n + 1) rs @ tail"
        "list_all rec_ok rs" "d' = log_digest H (rec_digest H d (n + 1) (k, ?b)) (n + 1) rs"
        "n' = n + 1 + of_nat (length rs)"
        "e' = e + (52 + len) + length (log_bytes H (rec_digest H d (n + 1) (k, ?b)) (n + 1) rs)"
        "scan_loop (total_sha H) d' n' e' tail = Inr (d', n', e')"
        by (elim exE conjE)
      have "f = log_bytes H d n ((k, ?b) # rs) @ tail" by (subst f) (simp add: IH(1))
      moreover have "length (rec_bytes H d (n + 1) (k, ?b)) = 52 + len"
      proof -
        have "length f = length (rec_bytes H d (n + 1) (k, ?b)) + (length f - (52 + len))"
          by (subst (1) f) simp
        then show ?thesis using long by simp
      qed
      ultimately show ?thesis
        using IH rok by (intro exI [of _ "(k, ?b) # rs"] exI [of _ tail]) (simp add: add.assoc)
    qed
  qed
qed


section \<open>The journal as a log of records\<close>

definition disk_of :: "(bytes \<Rightarrow> bytes) \<Rightarrow> bytes \<Rightarrow> journal_record list \<Rightarrow> bytes" where
  "disk_of H guid recs = journal_header guid @ log_bytes H (H (journal_header guid)) 0 recs"

definition next_bytes :: "(bytes \<Rightarrow> bytes) \<Rightarrow> bytes \<Rightarrow> journal_record list \<Rightarrow> journal_record \<Rightarrow> bytes" where
  "next_bytes H guid recs r = rec_bytes H (log_digest H (H (journal_header guid)) 0 recs) (of_nat (length recs) + 1) r"

definition torn_tail :: "(bytes \<Rightarrow> bytes) \<Rightarrow> bytes \<Rightarrow> journal_record list \<Rightarrow> bytes \<Rightarrow> bool" where
  "torn_tail H guid recs tail \<longleftrightarrow> tail = [] \<or> (\<exists>r k. rec_ok r \<and> k < length (next_bytes H guid recs r)
                  \<and> tail = take k (next_bytes H guid recs r))"

definition journal_ok :: "(bytes \<Rightarrow> bytes) \<Rightarrow> bytes \<Rightarrow> journal_record list \<Rightarrow> L4Journal \<Rightarrow> bool" where
  "journal_ok H guid recs j \<longleftrightarrow>
     list_all rec_ok recs \<and> jr_header j = journal_header guid \<and> jr_file j = disk_of H guid recs
     \<and> jr_digest j = log_digest H (H (journal_header guid)) 0 recs
     \<and> jr_sequence j = of_nat (length recs) \<and> jr_end j = length (jr_file j)
     \<and> length (jr_file j) \<le> JOURNAL_LIMIT"

definition contract :: "(bytes \<Rightarrow> bytes) \<Rightarrow> bytes \<Rightarrow> bool" where
  "contract H guid \<longleftrightarrow> (\<forall>x. length (H x) = 32) \<and> length guid = 16"

lemma contractD:
  assumes "contract H guid"
  shows "\<forall>x. length (H x) = 32" "length (journal_header guid) = 24"
  using assms by (simp_all add: contract_def journal_header_def store_fields u32le.put_width)

lemma log_digest_snoc:
  "log_digest H d n (rs @ [r]) = rec_digest H (log_digest H d n rs) (n + of_nat (length rs) + 1) r"
  by (induction rs arbitrary: d n) (simp_all add: add.assoc)

lemma log_bytes_snoc:
  "log_bytes H d n (rs @ [r]) = log_bytes H d n rs @ rec_bytes H (log_digest H d n rs) (n + of_nat (length rs) + 1) r"
  by (induction rs arbitrary: d n) (simp_all add: add.assoc)

lemma disk_of_snoc: "disk_of H guid (recs @ [r]) = disk_of H guid recs @ next_bytes H guid recs r"
  by (simp add: disk_of_def next_bytes_def log_bytes_snoc)

lemma log_bytes_long: "\<forall>x. length (H x) = 32 \<Longrightarrow> length rs \<le> length (log_bytes H d n rs)"
proof (induction rs arbitrary: d n)
  case (Cons r rs)
  from Cons.IH [OF Cons.prems, of "rec_digest H d (n + 1) r" "n + 1"] show ?case
    using rec_bytes_length [OF Cons.prems, of d "n + 1" r] by simp
qed simp

lemma next_bytes_length:
  "contract H guid \<Longrightarrow> length (next_bytes H guid recs r) = 52 + length (snd r)"
  unfolding next_bytes_def using rec_bytes_length [OF contractD(1)] by simp

text \<open>Reading back a log followed by a strict prefix of the next record.\<close>

lemma scan_disk:
  assumes c: "contract H guid" and recs: "list_all rec_ok recs"
    and torn: "torn_tail H guid recs tail"
  shows "scan_loop (total_sha H) (H (journal_header guid)) 0 24 (log_bytes H (H (journal_header guid)) 0 recs @ tail)
    = Inr (log_digest H (H (journal_header guid)) 0 recs, of_nat (length recs), length (disk_of H guid recs))"
proof -
  have "scan_loop (total_sha H) d n e tail = Inr (d, n, e)"
    if "d = log_digest H (H (journal_header guid)) 0 recs" "n = 0 + of_nat (length recs)" for d n e
    using torn unfolding torn_tail_def
  proof
    assume "tail = []"
    then show ?thesis by (simp only: scan_nothing)
  next
    assume "\<exists>r k. rec_ok r \<and> k < length (next_bytes H guid recs r) \<and> tail = take k (next_bytes H guid recs r)"
    then show ?thesis
      using that scan_torn [OF contractD(1) [OF c]] by (auto simp: next_bytes_def)
  qed
  from scan_log [where e = 24, OF contractD(1) [OF c] this recs] show ?thesis
    using contractD(2) [OF c] by (simp add: disk_of_def)
qed

lemma open_disk:
  assumes c: "contract H guid" and recs: "list_all rec_ok recs"
    and torn: "torn_tail H guid recs tail"
    and fits: "length (disk_of H guid recs @ tail) \<le> JOURNAL_LIMIT"
  shows "\<exists>j. l4_journal_open (total_sha H) True guid create (disk_of H guid recs @ tail) = Inr j
           \<and> journal_ok H guid recs j \<and> \<not> jr_poisoned j"
proof -
  let ?f = "disk_of H guid recs @ tail"
  have hd: "take 24 ?f = journal_header guid" "drop 24 ?f = log_bytes H (H (journal_header guid)) 0 recs @ tail"
    "\<not> length ?f < 24" "?f \<noteq> []"
    using contractD(2) [OF c] by (auto simp: disk_of_def)
  have cut: "take (length (disk_of H guid recs)) ?f = disk_of H guid recs" by simp
  show ?thesis
    using hd cut fits recs scan_disk [OF c recs torn]
    by (auto simp: l4_journal_open_def Let_def scan_def journal_ok_def)
qed

lemma append_ok:
  assumes c: "contract H guid" and j: "journal_ok H guid recs j" "\<not> jr_poisoned j"
    and r: "rec_ok (k, bs)" and fits: "jr_end j + FRAME_SIZE + length bs + 4 \<le> JOURNAL_LIMIT"
  shows "\<exists>j'. l4_journal_append (total_sha H) None k bs j = (Inr (of_nat (length recs) + 1), j')
           \<and> journal_ok H guid (recs @ [(k, bs)]) j' \<and> \<not> jr_poisoned j'"
proof -
  note head = rec_head_def [of "of_nat (length recs) + 1" "(k, bs)"]
  have "take (jr_end j) (jr_file j) = disk_of H guid recs" "drop (jr_end j + m) (jr_file j) = []" for m
    using j by (simp_all add: journal_ok_def)
  moreover have "length (disk_of H guid recs @ next_bytes H guid recs (k, bs)) \<le> JOURNAL_LIMIT"
    using fits j next_bytes_length [OF c] by (simp add: journal_ok_def)
  ultimately show ?thesis
    using j r fits next_bytes_length [OF c, of recs "(k, bs)"] head
    by (auto simp: l4_journal_append_def Let_def journal_ok_def disk_of_snoc log_digest_snoc rec_ok_def
        next_bytes_def rec_bytes_def rec_digest_def)
qed

lemma append_torn:
  assumes c: "contract H guid" and j: "journal_ok H guid recs j" "\<not> jr_poisoned j"
    and r: "rec_ok (k, bs)" and fits: "jr_end j + FRAME_SIZE + length bs + 4 \<le> JOURNAL_LIMIT"
  shows "l4_journal_append (total_sha H) (Some n) k bs j =
     (Inl ERROR_WRITE_FAULT,
      j\<lparr>jr_poisoned := True, jr_file := disk_of H guid recs @ take n (next_bytes H guid recs (k, bs))\<rparr>)"
proof -
  have "take (jr_end j) (jr_file j) = disk_of H guid recs" "drop (jr_end j + m) (jr_file j) = []" for m
    using j by (simp_all add: journal_ok_def)
  moreover have "jr_digest j = log_digest H (H (journal_header guid)) 0 recs"
    "jr_sequence j = of_nat (length recs)" using j by (simp_all add: journal_ok_def)
  ultimately show ?thesis
    using j(2) r fits rec_head_def [of "of_nat (length recs) + 1" "(k, bs)"]
    by (simp add: l4_journal_append_def rec_ok_def next_bytes_def rec_bytes_def rec_digest_def
        del: take_append)
qed

lemma append_refused:
  assumes "\<not> (\<not> jr_poisoned j \<and> rec_ok (k, bs) \<and> jr_end j + FRAME_SIZE + length bs + 4 \<le> JOURNAL_LIMIT)"
  shows "\<exists>e. l4_journal_append sha io k bs j = (Inl e, j)"
  using assms by (auto simp: l4_journal_append_def rec_ok_def)


section \<open>Replay and lookup\<close>

fun visit_records :: "(u32 \<Rightarrow> u64 \<Rightarrow> bytes \<Rightarrow> 'c \<Rightarrow> 'c option) \<Rightarrow> u64 \<Rightarrow> journal_record list \<Rightarrow> 'c \<Rightarrow> 'c option" where
  "visit_records visit n [] c = Some c"
| "visit_records visit n (r # rs) c =
     (case visit (fst r) (n + 1) (snd r) c of None \<Rightarrow> None | Some c' \<Rightarrow> visit_records visit (n + 1) rs c')"

lemma visit_log:
  assumes H: "\<forall>x. length (H x) = 32"
  shows "list_all rec_ok rs \<Longrightarrow> visit_loop visit (log_bytes H d n rs) c = visit_records visit n rs c"
proof (induction rs arbitrary: d n c)
  case (Cons r rs)
  let ?rest = "log_bytes H (rec_digest H d (n + 1) r) (n + 1) rs"
  let ?f = "rec_bytes H d (n + 1) r @ ?rest"
  have r: "rec_ok r" using Cons.prems by simp
  have long: "length (rec_bytes H d (n + 1) r) = 52 + length (snd r)" using rec_bytes_length [OF H] by simp
  then have ne: "?f \<noteq> []" and l16: "16 \<le> length ?f" by auto
  have "take 16 ?f = rec_head (n + 1) r" by (simp add: rec_bytes_def)
  note fields = head_fields [OF l16 this r]
  have body: "take (length (snd r)) (drop 48 ?f) = snd r"
    using H by (simp add: rec_bytes_def rec_digest_def)
  have rest: "drop (FRAME_SIZE + length (snd r) + 4) ?f = ?rest" using long by simp
  have "visit_loop visit ?f c = (case visit (fst r) (n + 1) (snd r) c of
      None \<Rightarrow> None | Some c' \<Rightarrow> visit_loop visit ?rest c')"
    unfolding visit_loop.simps [of _ ?f] if_not_P [OF ne] fields Let_def body rest ..
  then show ?case using Cons by (simp split: option.split)
qed (simp add: visit_loop.simps)

lemma replay_records:
  assumes c: "contract H guid" and j: "journal_ok H guid recs j" "\<not> jr_poisoned j"
  shows "l4_journal_replay (total_sha H) visit x j =
     (case visit_records visit 0 recs x of None \<Rightarrow> Inl ERROR_CALLBACK | Some y \<Rightarrow> Inr y)"
proof -
  let ?h = "journal_header guid"
  have recs: "list_all rec_ok recs" and f: "jr_file j = ?h @ log_bytes H (H ?h) 0 recs" "jr_header j = ?h"
    using j by (simp_all add: journal_ok_def disk_of_def)
  have "length (jr_file j) \<le> JOURNAL_LIMIT" using j unfolding journal_ok_def by blast
  note f = f this
  have "scan_loop (total_sha H) (H ?h) 0 24 (log_bytes H (H ?h) 0 recs) =
    Inr (log_digest H (H ?h) 0 recs, of_nat (length recs), length (disk_of H guid recs))"
    using scan_disk [OF c recs, of "[]"] by (simp add: torn_tail_def)
  then show ?thesis
    using j(2) f contractD(2) [OF c] visit_log [OF contractD(1) [OF c] recs, of visit "H ?h" 0 x]
    by (simp add: l4_journal_replay_def scan_def disk_of_def Let_def split: option.split)
qed

lemma find_in_records:
  "unat n + length rs < 2 ^ 64 \<Longrightarrow> visit_records (find_record k s) n rs c =
     Some (if unat n < unat s \<and> unat s \<le> unat n + length rs \<and> fst (rs ! (unat s - unat n - 1)) = k
           then Some (snd (rs ! (unat s - unat n - 1))) else c)"
proof (induction rs arbitrary: n c)
  case Nil
  show ?case by auto
next
  case (Cons r rs)
  then have n1: "unat (n + 1) = unat n + 1" by (simp add: unat_word_ariths)
  have same: "n + 1 = s \<longleftrightarrow> unat s = unat n + 1" using n1 by (metis unsigned_word_eqI)
  have IH: "visit_records (find_record k s) (n + 1) rs c =
     Some (if unat n + 1 < unat s \<and> unat s \<le> unat n + 1 + length rs \<and> fst (rs ! (unat s - unat n - 2)) = k
           then Some (snd (rs ! (unat s - unat n - 2))) else c)" for c
    using Cons.IH [of "n + 1" c] Cons.prems n1 by simp
  have nth: "(r # rs) ! (unat s - unat n - 1) = rs ! (unat s - unat n - 2)" if "unat n + 1 < unat s"
    using that by (simp add: nth_Cons')
  have step: "visit_records (find_record k s) n (r # rs) c =
      visit_records (find_record k s) (n + 1) rs (if fst r = k \<and> unat s = unat n + 1 then Some (snd r) else c)"
    using find_record_def [of k s "fst r" "n + 1" "snd r" c] by (simp add: same)
  consider "unat s \<le> unat n" | "unat s = unat n + 1" | "unat n + 1 < unat s" by linarith
  then show ?case
    by cases (auto simp del: visit_records.simps simp: step IH nth)
qed

lemma find_in_journal:
  assumes c: "contract H guid" and j: "journal_ok H guid recs j" "\<not> jr_poisoned j"
  shows "l4_store_find_record (total_sha H) j k s =
     (if 0 < unat s \<and> unat s \<le> length recs \<and> fst (recs ! (unat s - 1)) = k
      then Inr (snd (recs ! (unat s - 1))) else Inl ERROR_NOT_FOUND)"
proof -
  have "length (disk_of H guid recs) \<le> JOURNAL_LIMIT" using j by (auto simp: journal_ok_def)
  then have "length recs \<le> JOURNAL_LIMIT"
    using log_bytes_long [OF contractD(1) [OF c], of recs "H (journal_header guid)" 0]
    by (simp add: disk_of_def)
  then show ?thesis
    using replay_records [OF assms, of "find_record k s" None] find_in_records [of 0 recs k s None]
    by (simp add: l4_store_find_record_def)
qed


section \<open>Runs with crashes\<close>

text \<open>
  A process appends records and may stop at any byte of any write (\<open>Append (Some n)\<close>, then
  \<open>Reopen\<close>); the next process opens the file again. Acknowledged are the records whose append
  returned success, with the number it returned.
\<close>

datatype journal_op = Append "nat option" u32 bytes | Reopen bool bool

record journal_sys =
  sy_disk :: bytes
  sy_journal :: "L4Journal option"
  sy_acked :: "(u64 \<times> u32 \<times> bytes) list"

fun journal_exec :: "(bytes \<Rightarrow> bytes) \<Rightarrow> bytes \<Rightarrow> journal_sys \<Rightarrow> journal_op \<Rightarrow> journal_sys" where
  "journal_exec H guid s (Append io k bs) =
     (case sy_journal s of
        None \<Rightarrow> s
      | Some j \<Rightarrow>
          (case l4_journal_append (total_sha H) io k bs j of
             (Inl _, j') \<Rightarrow> s\<lparr>sy_journal := Some j', sy_disk := jr_file j'\<rparr>
           | (Inr n, j') \<Rightarrow> s\<lparr>sy_journal := Some j', sy_disk := jr_file j', sy_acked := sy_acked s @ [(n, k, bs)]\<rparr>))"
| "journal_exec H guid s (Reopen truncate_ok create) =
     (case l4_journal_open (total_sha H) truncate_ok guid create (sy_disk s) of
        Inl _ \<Rightarrow> s\<lparr>sy_journal := None\<rparr>
      | Inr j \<Rightarrow> s\<lparr>sy_journal := Some j, sy_disk := jr_file j\<rparr>)"

abbreviation "journal_fresh \<equiv> \<lparr>sy_disk = [], sy_journal = None, sy_acked = []\<rparr>"

definition acked_in :: "journal_record list \<Rightarrow> u64 \<times> journal_record \<Rightarrow> bool" where
  "acked_in recs a \<longleftrightarrow> 0 < unat (fst a) \<and> unat (fst a) \<le> length recs \<and> recs ! (unat (fst a) - 1) = snd a"

definition sys_ok :: "(bytes \<Rightarrow> bytes) \<Rightarrow> bytes \<Rightarrow> journal_record list \<Rightarrow> bytes \<Rightarrow> journal_sys \<Rightarrow> bool" where
  "sys_ok H guid recs tail s \<longleftrightarrow>
     sy_disk s = disk_of H guid recs @ tail \<and> list_all rec_ok recs \<and> torn_tail H guid recs tail
     \<and> length (sy_disk s) \<le> JOURNAL_LIMIT
     \<and> (\<forall>j. sy_journal s = Some j \<longrightarrow> jr_file j = sy_disk s \<and> (jr_poisoned j \<or> tail = [] \<and> journal_ok H guid recs j))
     \<and> list_all (acked_in recs) (sy_acked s)"

definition sys_inv :: "(bytes \<Rightarrow> bytes) \<Rightarrow> bytes \<Rightarrow> journal_sys \<Rightarrow> bool" where
  "sys_inv H guid s \<longleftrightarrow> contract H guid
     \<and> (sy_disk s = [] \<and> sy_journal s = None \<and> sy_acked s = [] \<or> (\<exists>recs tail. sys_ok H guid recs tail s))"


lemma torn_append:
  assumes "rec_ok r"
  shows "\<exists>recs' tail'. disk_of H guid recs @ take n (next_bytes H guid recs r) = disk_of H guid recs' @ tail'
    \<and> torn_tail H guid recs' tail' \<and> (recs' = recs \<or> recs' = recs @ [r] \<and> tail' = [])"
proof (cases "n < length (next_bytes H guid recs r)")
  case True
  then show ?thesis using assms by (intro exI [of _ recs] exI [of _ "take n (next_bytes H guid recs r)"]) (auto simp only: torn_tail_def)
next
  case False
  then show ?thesis
    by (intro exI [of _ "recs @ [r]"] exI [of _ "[]"]) (simp add: torn_tail_def disk_of_snoc)
qed

lemma acked_kept: "list_all (acked_in recs) as \<Longrightarrow> list_all (acked_in (recs @ rs)) as"
  by (auto simp: acked_in_def nth_append list_all_iff)

lemma sys_okD:
  assumes "sys_ok H guid recs tail s"
  shows "sy_disk s = disk_of H guid recs @ tail" "list_all rec_ok recs" "torn_tail H guid recs tail"
    "length (disk_of H guid recs @ tail) \<le> JOURNAL_LIMIT"
    "list_all (acked_in recs) (sy_acked s)"
    "sy_journal s = Some j \<Longrightarrow> jr_file j = sy_disk s"
  using assms unfolding sys_ok_def by (blast, blast, blast, metis, blast, blast)

lemma append_keeps_sys:
  assumes c: "contract H guid" and s: "sys_ok H guid recs tail s"
  shows "\<exists>recs' tail'. sys_ok H guid recs' tail' (journal_exec H guid s (Append io k bs))"
proof (cases "sy_journal s")
  case None
  then show ?thesis using s by auto
next
  case (Some j)
  note recs = sys_okD(2) [OF s] and ack = sys_okD(5) [OF s] and same = sys_okD(6) [OF s Some]
  show ?thesis
  proof (cases "\<not> jr_poisoned j \<and> rec_ok (k, bs) \<and> jr_end j + FRAME_SIZE + length bs + 4 \<le> JOURNAL_LIMIT")
    case False
    then obtain e where "l4_journal_append (total_sha H) io k bs j = (Inl e, j)"
      using append_refused by blast
    then have "journal_exec H guid s (Append io k bs) = s" using Some same by simp
    then show ?thesis using s by auto
  next
    case True
    then have j: "journal_ok H guid recs j" and tail: "tail = []" using s Some by (auto simp: sys_ok_def)
    have bound: "length (disk_of H guid recs) + (52 + length bs) \<le> JOURNAL_LIMIT"
      using True j by (simp add: journal_ok_def)
    show ?thesis
    proof (cases io)
      case None
      with append_ok [OF c j _ _, of k bs] True obtain j' where
        ap: "l4_journal_append (total_sha H) io k bs j = (Inr (of_nat (length recs) + 1), j')"
        and j': "journal_ok H guid (recs @ [(k, bs)]) j'" by auto
      have "length recs \<le> JOURNAL_LIMIT"
        using log_bytes_long [OF contractD(1) [OF c], of recs "H (journal_header guid)" 0] bound
        by (simp add: disk_of_def)
      then have num: "unat (of_nat (length recs) + 1 :: u64) = length recs + 1"
        by (simp add: unat_word_ariths unat_of_nat)
      have "sys_ok H guid (recs @ [(k, bs)]) [] (journal_exec H guid s (Append io k bs))"
        using j' ap Some acked_kept [OF ack, of "[(k, bs)]"] num
        by (auto simp: sys_ok_def journal_ok_def torn_tail_def acked_in_def)
      then show ?thesis by blast
    next
      case (Some n)
      obtain recs' tail' where
        new: "disk_of H guid recs @ take n (next_bytes H guid recs (k, bs)) = disk_of H guid recs' @ tail'"
        "torn_tail H guid recs' tail'" "recs' = recs \<or> recs' = recs @ [(k, bs)] \<and> tail' = []"
        using torn_append True by metis
      have "length (disk_of H guid recs' @ tail') \<le> JOURNAL_LIMIT"
        unfolding new(1) [symmetric] using bound next_bytes_length [OF c, of recs "(k, bs)"] by simp
      moreover have "list_all rec_ok recs'" using new(3) recs True by auto
      moreover have "list_all (acked_in recs') (sy_acked s)"
        using new(3) ack acked_kept [OF ack] by auto
      ultimately have "sys_ok H guid recs' tail' (journal_exec H guid s (Append io k bs))"
        using append_torn [OF c j, of k bs n] True Some \<open>sy_journal s = Some j\<close> new(1,2)
        by (simp add: sys_ok_def)
      then show ?thesis by blast
    qed
  qed
qed

lemma reopen_keeps_sys:
  assumes c: "contract H guid" and s: "sys_ok H guid recs tail s"
  shows "\<exists>tail'. sys_ok H guid recs tail' (journal_exec H guid s (Reopen truncate_ok create))"
proof (cases "l4_journal_open (total_sha H) truncate_ok guid create (sy_disk s)")
  case (Inl e)
  then show ?thesis using s by (auto simp: sys_ok_def)
next
  case (Inr j)
  have "\<exists>j. l4_journal_open (total_sha H) True guid create (sy_disk s) = Inr j
           \<and> journal_ok H guid recs j \<and> \<not> jr_poisoned j"
    unfolding sys_okD(1) [OF s] by (rule open_disk [OF c sys_okD(2-4) [OF s]])
  moreover have "l4_journal_open (total_sha H) True guid create (sy_disk s) = Inr j"
    using Inr by (auto simp: l4_journal_open_def scan_def Let_def split: if_splits sum.splits)
  ultimately have "journal_ok H guid recs j" by simp
  then have "sys_ok H guid recs [] (journal_exec H guid s (Reopen truncate_ok create))"
    using Inr s by (auto simp: sys_ok_def journal_ok_def torn_tail_def)
  then show ?thesis by blast
qed

lemma open_empty:
  "contract H guid \<Longrightarrow> l4_journal_open sha truncate_ok guid True [] =
      l4_journal_open sha truncate_ok guid True (journal_header guid)"
  using contractD(2) [of H guid] by (auto simp: l4_journal_open_def)

lemma first_open:
  assumes c: "contract H guid" and s: "sy_disk s = []" "sy_journal s = None" "sy_acked s = []"
  shows "sys_inv H guid (journal_exec H guid s (Reopen truncate_ok create))"
proof (cases create)
  case False
  then show ?thesis using s c by (simp add: l4_journal_open_def sys_inv_def)
next
  case True
  have disk: "disk_of H guid [] @ [] = journal_header guid" by (simp add: disk_of_def)
  have "length (disk_of H guid [] @ []) \<le> JOURNAL_LIMIT" unfolding disk contractD(2) [OF c] by simp
  then have t: "sys_ok H guid [] [] (s\<lparr>sy_disk := journal_header guid\<rparr>)"
    using s disk by (simp add: sys_ok_def torn_tail_def)
  note empty = open_empty [OF c, of "total_sha H" truncate_ok]
  from reopen_keeps_sys [OF c t, of truncate_ok create] show ?thesis
    using s c True empty by (auto simp: sys_inv_def split: sum.splits)
qed

interpretation journal_runs: step_invariant "journal_exec H guid" "sys_inv H guid" for H guid
proof
  fix s e
  assume s: "sys_inv H guid s"
  then have c: "contract H guid" by (simp add: sys_inv_def)
  consider (fresh) "sy_disk s = []" "sy_journal s = None" "sy_acked s = []"
    | (used) recs tail where "sys_ok H guid recs tail s" using s by (auto simp: sys_inv_def)
  then show "sys_inv H guid (journal_exec H guid s e)"
  proof cases
    case fresh
    then show ?thesis using first_open [OF c] s by (cases e) simp_all
  next
    case used
    then have "\<exists>recs' tail'. sys_ok H guid recs' tail' (journal_exec H guid s e)"
      using append_keeps_sys [OF c used] reopen_keeps_sys [OF c used] by (cases e) blast+
    then show ?thesis using c by (simp only: sys_inv_def) blast
  qed
qed


interpretation acked: growing "journal_exec H guid" "\<lambda>s. set (sy_acked s)" for H guid
proof
  show "set (sy_acked s) \<le> set (sy_acked (journal_exec H guid s e))" for s e
    by (cases e) (auto split: option.splits sum.splits prod.splits)
qed

lemma first_append_acked:
  assumes c: "contract H guid" and r: "rec_ok (k, bs)"
  shows "(1, k, bs) \<in> set (sy_acked (foldl (journal_exec H guid) journal_fresh
           ([Reopen True True, Append None k bs] @ ops)))"
proof -
  have "length (journal_header guid) \<le> JOURNAL_LIMIT" using contractD(2) [OF c] by simp
  then obtain j where o: "l4_journal_open (total_sha H) True guid True [] = Inr j"
    and j: "journal_ok H guid [] j" "\<not> jr_poisoned j"
    unfolding open_empty [OF c]
    using open_disk [OF c, of "[]" "[]" True] by (auto simp: disk_of_def torn_tail_def)
  have "jr_end j = 24" using j contractD(2) [OF c] by (simp add: journal_ok_def disk_of_def)
  then have "jr_end j + FRAME_SIZE + length bs + 4 \<le> JOURNAL_LIMIT" using r by (simp add: rec_ok_def)
  from append_ok [OF c j r this] obtain j' where
    "l4_journal_append (total_sha H) None k bs j = (Inr 1, j')" by auto
  then have "(1, k, bs) \<in> set (sy_acked (foldl (journal_exec H guid) journal_fresh
      [Reopen True True, Append None k bs]))" using o by simp
  then show ?thesis using acked.grows_between by (rule rev_subsetD)
qed


lemma crash_atomic:
  assumes c: "contract H guid" and j: "journal_ok H guid recs j" "\<not> jr_poisoned j"
    and run: "l4_journal_append (total_sha H) io k bs j = (result, j')"
  shows "\<exists>j''. l4_journal_open (total_sha H) True guid create (jr_file j') = Inr j'' \<and> \<not> jr_poisoned j''
           \<and> (journal_ok H guid (recs @ [(k, bs)]) j'' \<or> (\<exists>e. result = Inl e) \<and> journal_ok H guid recs j'')"
proof -
  let ?s = "\<lparr>sy_disk = jr_file j, sy_journal = Some j, sy_acked = []\<rparr>"
  have "length (jr_file j) \<le> JOURNAL_LIMIT" using j(1) unfolding journal_ok_def by blast
  then have s: "sys_ok H guid recs [] ?s"
    using j(1) by (auto simp: sys_ok_def torn_tail_def journal_ok_def)
  show ?thesis
  proof (cases "rec_ok (k, bs) \<and> jr_end j + FRAME_SIZE + length bs + 4 \<le> JOURNAL_LIMIT")
    case False
    then obtain e where "result = Inl e" "j' = j" using append_refused [of j k bs] run by (metis Pair_inject)
    then show ?thesis using open_disk [OF c sys_okD(2-4) [OF s]] sys_okD(1) [OF s] by auto
  next
    case True
    show ?thesis
    proof (cases io)
      case None
      then have j': "journal_ok H guid (recs @ [(k, bs)]) j'"
        using append_ok [OF c j, of k bs] True run by auto
      then have "length (disk_of H guid (recs @ [(k, bs)]) @ []) \<le> JOURNAL_LIMIT"
        "jr_file j' = disk_of H guid (recs @ [(k, bs)]) @ []" "list_all rec_ok (recs @ [(k, bs)])"
        unfolding journal_ok_def append_Nil2 by (metis, blast, blast)
      then show ?thesis
        using open_disk [OF c, of "recs @ [(k, bs)]" "[]" create] by (auto simp: torn_tail_def)
    next
      case (Some n)
      have out: "result = Inl ERROR_WRITE_FAULT"
        "jr_file j' = disk_of H guid recs @ take n (next_bytes H guid recs (k, bs))"
        using append_torn [OF c j, of k bs n] True Some run by auto
      obtain recs' tail' where new: "jr_file j' = disk_of H guid recs' @ tail'"
        "torn_tail H guid recs' tail'" "recs' = recs \<or> recs' = recs @ [(k, bs)] \<and> tail' = []"
        unfolding out(2) using torn_append True by metis
      have "length (disk_of H guid recs) = jr_end j" using j(1) by (simp add: journal_ok_def)
      then have "length (disk_of H guid recs' @ tail') \<le> JOURNAL_LIMIT"
        unfolding new(1) [symmetric] out(2) using True next_bytes_length [OF c, of recs "(k, bs)"] by (auto simp: min_def)
      moreover have "list_all rec_ok recs'" using new(3) sys_okD(2) [OF s] True by auto
      ultimately show ?thesis
        using open_disk [OF c _ new(2), of create] out(1) new(3) unfolding new(1) by blast
    qed
  qed
qed


section \<open>Readers\<close>

lemma reader_step:
  assumes "52 \<le> length f" "l4_store_get32 f = k" "unat (l4_store_get32 (drop 4 f)) = len"
    and "l4_store_get64 (drop 8 f) = m"
  shows "reader_validate live sha d n f =
     (if k = 0 \<or> L4_JOURNAL_MAX_RECORD < len \<or> m \<noteq> n + 1 then Inl ERROR_INVALID_DATA
      else if length f < 52 + len then Inl (if live then ERROR_IO_PENDING else ERROR_INVALID_DATA)
      else if l4_store_get32 (drop (48 + len) f) \<noteq> END_MARKER then Inl ERROR_CRC
      else case sha (take 16 f @ d @ take len (drop 48 f)) of
          None \<Rightarrow> Inl ERROR_CRC
        | Some actual \<Rightarrow>
            if actual \<noteq> take 32 (drop 16 f) then Inl ERROR_CRC
            else reader_validate live sha actual m (drop (52 + len) f))"
proof -
  have "f \<noteq> []" using assms(1) by auto
  moreover have "length f - FRAME_SIZE - 4 < len \<longleftrightarrow> length f < 52 + len" using assms(1) by linarith
  ultimately show ?thesis
    using assms(1) unfolding reader_validate.simps [of _ _ _ _ f] assms(2-4) Let_def
    by (simp split: option.split)
qed

lemma reader_scans:
  "reader_validate live sha d n f = Inr (d', n') \<longleftrightarrow> scan_loop sha d n e f = Inr (d', n', e + length f)"
proof (induction "length f" arbitrary: d n e f rule: less_induct)
  case (less f d n e)
  note scan = scan_step [of f, OF _ refl refl refl, of sha d n e]
  consider "f = []" | "f \<noteq> []" "length f < 48" | "48 \<le> length f" "length f < 52" | "52 \<le> length f" by linarith
  then show ?case
  proof cases
    case 1
    then show ?thesis by (auto simp: reader_validate.simps [of _ _ _ _ "[]"] scan_nothing)
  next
    case 2
    then show ?thesis using reader_validate.simps [of live sha d n f] by (simp add: scan_short)
  next
    case 3
    then have "f \<noteq> []" by auto
    then show ?thesis using 3 scan reader_validate.simps [of live sha d n f] by auto
  next
    case 4
    let ?len = "unat (l4_store_get32 (drop 4 f))"
    have "reader_validate live sha actual m (drop (52 + ?len) f) = Inr (d', n') \<longleftrightarrow>
        scan_loop sha actual m (e + (52 + ?len)) (drop (52 + ?len) f) = Inr (d', n', e + length f)"
      if "52 + ?len \<le> length f" for actual m
      using less [of "drop (52 + ?len) f" actual m "e + (52 + ?len)"] 4 that by simp
    then show ?thesis
      using 4 scan reader_step [of f, OF _ refl refl refl, of live sha d n]
      by (auto split: option.split if_splits)
  qed
qed

definition demo_journal :: L4Journal where
  "demo_journal = \<lparr>jr_sequence = 0, jr_end = 24, jr_digest = replicate 32 0,
     jr_header = journal_header (replicate 16 1), jr_poisoned = False,
     jr_file = journal_header (replicate 16 1)\<rparr>"

lemma demo_journal_ok: "journal_ok (\<lambda>_. replicate 32 0) (replicate 16 1) [] demo_journal"
  using contractD(2) [of "\<lambda>_. replicate 32 0" "replicate 16 1"]
  by (simp add: demo_journal_def journal_ok_def disk_of_def contract_def)


section \<open>Properties\<close>

text \<open>
  C9: Durability. Take any run of appends, crashes at any byte of an append, and re-openings of one
  journal. Every record whose append returned success is found again, under the number that append
  returned and with its exact bytes, when the journal is next opened.
\<close>

theorem acked_records_survive:
  assumes "\<forall>x. length (H x) = 32" and "length guid = 16"
    and "(n, k, bs) \<in> set (sy_acked (foldl (journal_exec H guid) journal_fresh ops))"
  shows "\<exists>j. l4_journal_open (total_sha H) True guid create
             (sy_disk (foldl (journal_exec H guid) journal_fresh ops)) = Inr j
           \<and> l4_store_find_record (total_sha H) j k n = Inr bs"
proof -
  let ?s = "foldl (journal_exec H guid) journal_fresh ops"
  have c: "contract H guid" using assms by (simp add: contract_def)
  then have "sys_inv H guid journal_fresh" by (simp add: sys_inv_def)
  then have "sys_inv H guid ?s" by (rule journal_runs.inv_run)
  moreover have "sy_acked ?s \<noteq> []" using assms(3) by auto
  ultimately obtain recs tail where s: "sys_ok H guid recs tail ?s" unfolding sys_inv_def by blast
  have "acked_in recs (n, k, bs)" using sys_okD(5) [OF s] assms(3) by (auto simp: list_all_iff)
  moreover obtain j where "l4_journal_open (total_sha H) True guid create (sy_disk ?s) = Inr j"
    "journal_ok H guid recs j" "\<not> jr_poisoned j"
    unfolding sys_okD(1) [OF s] using open_disk [OF c sys_okD(2-4) [OF s]] by blast
  ultimately show ?thesis
    using find_in_journal [OF c, of recs j k n] by (auto simp: acked_in_def)
qed

theorem acked_records_survive_witness:
  "\<exists>j. l4_journal_open (total_sha (\<lambda>_. replicate 32 0)) True (replicate 16 1) False
        (sy_disk (foldl (journal_exec (\<lambda>_. replicate 32 0) (replicate 16 1)) journal_fresh
           ([Reopen True True, Append None 5 [1, 2]] @ [Append (Some 3) 6 [9], Reopen True False]))) = Inr j
      \<and> l4_store_find_record (total_sha (\<lambda>_. replicate 32 0)) j 5 1 = Inr [1, 2]"
  by (rule acked_records_survive [OF _ _ first_append_acked]) (simp_all add: contract_def rec_ok_def)

text \<open>
  Atomicity of one append. Whatever the writes of an append did (all of them, or an error after
  any number of bytes), opening the file afterwards gives the log from before it or the log with
  exactly that record more; the latter whenever the append returned success.
\<close>

theorem append_crash_atomic:
  assumes "\<forall>x. length (H x) = 32" and "length guid = 16"
    and "journal_ok H guid recs j" and "\<not> jr_poisoned j"
    and "l4_journal_append (total_sha H) io k bs j = (result, j')"
  shows "\<exists>j''. l4_journal_open (total_sha H) True guid create (jr_file j') = Inr j'' \<and> \<not> jr_poisoned j''
           \<and> (journal_ok H guid (recs @ [(k, bs)]) j'' \<or> (\<exists>e. result = Inl e) \<and> journal_ok H guid recs j'')"
proof -
  have "contract H guid" using assms(1,2) by (simp add: contract_def)
  then show ?thesis using assms(3-5) by (rule crash_atomic)
qed

theorem append_crash_atomic_witness:
  "\<exists>j''. l4_journal_open (total_sha (\<lambda>_. replicate 32 0)) True (replicate 16 1) False
       (jr_file (snd (l4_journal_append (total_sha (\<lambda>_. replicate 32 0)) (Some 50) 5 [1, 2] demo_journal))) = Inr j''
     \<and> \<not> jr_poisoned j''
     \<and> (journal_ok (\<lambda>_. replicate 32 0) (replicate 16 1) ([] @ [(5, [1, 2])]) j''
        \<or> (\<exists>e. fst (l4_journal_append (total_sha (\<lambda>_. replicate 32 0)) (Some 50) 5 [1, 2] demo_journal) = Inl e)
          \<and> journal_ok (\<lambda>_. replicate 32 0) (replicate 16 1) [] j'')"
  by (rule append_crash_atomic [OF _ _ demo_journal_ok]) (simp_all add: demo_journal_def)

text \<open>
  What a reader accepts. A journal file is accepted to its end exactly when it is the encoding of a
  log of well-formed records, each numbered after the one before it and sealed with the digest of
  its predecessor; the reader then holds the digest and the number of the last of them.
\<close>

theorem reader_accepts_logs:
  assumes "\<forall>x. length (H x) = 32"
  shows "reader_validate live (total_sha H) d n f = Inr (d', n') \<longleftrightarrow>
     (\<exists>rs. list_all rec_ok rs \<and> f = log_bytes H d n rs \<and> d' = log_digest H d n rs
        \<and> n' = n + of_nat (length rs))"
proof
  assume "reader_validate live (total_sha H) d n f = Inr (d', n')"
  then have "scan_loop (total_sha H) d n 0 f = Inr (d', n', 0 + length f)" using reader_scans by blast
  from scan_sound [OF this] show "\<exists>rs. list_all rec_ok rs \<and> f = log_bytes H d n rs \<and> d' = log_digest H d n rs
        \<and> n' = n + of_nat (length rs)" by auto
next
  assume "\<exists>rs. list_all rec_ok rs \<and> f = log_bytes H d n rs \<and> d' = log_digest H d n rs
        \<and> n' = n + of_nat (length rs)"
  then obtain rs where rs: "list_all rec_ok rs" "f = log_bytes H d n rs" "d' = log_digest H d n rs"
    "n' = n + of_nat (length rs)" by blast
  have "scan_loop (total_sha H) d n 0 (log_bytes H d n rs @ []) = Inr (d', n', 0 + length f)"
    using rs by (subst scan_log [OF assms scan_nothing rs(1)]) simp
  then show "reader_validate live (total_sha H) d n f = Inr (d', n')"
    using reader_scans [of live "total_sha H" d n f d' n' 0] rs(2) by simp
qed

theorem reader_accepts_logs_witness:
  "reader_validate True (total_sha (\<lambda>_. replicate 32 0)) (replicate 32 0) 0
     (log_bytes (\<lambda>_. replicate 32 0) (replicate 32 0) 0 [(5, [1, 2]), (7, [])])
   = Inr (log_digest (\<lambda>_. replicate 32 0) (replicate 32 0) 0 [(5, [1, 2]), (7, [])],
          0 + of_nat (length [(5 :: u32, [1, 2 :: u8]), (7, [])]))"
  by (rule reader_accepts_logs [THEN iffD2]) (simp, intro exI [of _ "[(5, [1, 2]), (7, [])]"] conjI, simp_all add: rec_ok_def)

text \<open>
  Soundness of opening. Whatever bytes the file holds, a journal that opens is a well-formed log,
  at most the end of the file was cut off, and the digest, number and end it continues from are those
  of that log; nothing that is not such a log is ever continued.
\<close>

theorem opened_is_log:
  assumes "\<forall>x. length (H x) = 32" and "length guid = 16"
    and "l4_journal_open (total_sha H) truncate_ok guid create f = Inr j"
  shows "\<exists>recs. journal_ok H guid recs j \<and> \<not> jr_poisoned j
           \<and> (prefix (jr_file j) f \<or> f = [] \<and> create \<and> recs = [])"
proof -
  have c: "contract H guid" using assms by (simp add: contract_def)
  define g where "g = (if f = [] \<and> create then journal_header guid else f)"
  let ?h = "journal_header guid"
  obtain d n e where hd: "take 24 g = ?h" "length g \<le> JOURNAL_LIMIT" "24 \<le> length g"
    and loop: "scan_loop (total_sha H) (H ?h) 0 24 (drop 24 g) = Inr (d, n, e)"
    and j: "j = \<lparr>jr_sequence = n, jr_end = e, jr_digest = d, jr_header = ?h, jr_poisoned = False,
                jr_file = take e g\<rparr>"
    using assms(3) unfolding l4_journal_open_def scan_def g_def Let_def
    by (auto split: if_splits sum.splits)
  obtain rs tail where rs: "drop 24 g = log_bytes H (H ?h) 0 rs @ tail" "list_all rec_ok rs"
    "d = log_digest H (H ?h) 0 rs" "n = 0 + of_nat (length rs)" "e = 24 + length (log_bytes H (H ?h) 0 rs)"
    using scan_sound [OF loop] by blast
  have g: "g = disk_of H guid rs @ tail"
    using append_take_drop_id [of 24 g] hd(1) rs(1) by (simp add: disk_of_def)
  have e: "e = length (disk_of H guid rs)" using rs(5) contractD(2) [OF c] by (simp add: disk_of_def)
  then have cut: "take e g = disk_of H guid rs" using g by simp
  have "journal_ok H guid rs j"
    using j cut e rs(2-4) hd(2) g by (simp add: journal_ok_def)
  moreover have "prefix (jr_file j) g" using j by (simp add: take_is_prefix)
  moreover have "rs = []" if "f = []" "create"
  proof -
    have "length (drop 24 g) = 0" using that contractD(2) [OF c] by (simp add: g_def)
    then show ?thesis using rs(1) log_bytes_long [OF contractD(1) [OF c], of rs "H ?h" 0] by simp
  qed
  ultimately show ?thesis using j by (auto simp: g_def split: if_splits)
qed

theorem opened_is_log_witness:
  "\<exists>j recs. l4_journal_open (total_sha (\<lambda>_. replicate 32 0)) True (replicate 16 1) True [] = Inr j
     \<and> journal_ok (\<lambda>_. replicate 32 0) (replicate 16 1) recs j \<and> \<not> jr_poisoned j
     \<and> (prefix (jr_file j) [] \<or> ([] :: bytes) = [] \<and> True \<and> recs = [])"
proof -
  have c: "contract (\<lambda>_. replicate 32 0) (replicate 16 1)" by (simp add: contract_def)
  obtain j where "l4_journal_open (total_sha (\<lambda>_. replicate 32 0)) True (replicate 16 1) True [] = Inr j"
    unfolding open_empty [OF c]
    using open_disk [OF c, of "[]" "[]" True] contractD(2) [OF c] by (auto simp: disk_of_def torn_tail_def)
  with opened_is_log [of "\<lambda>_. replicate 32 0" "replicate 16 1" True True "[]" j] show ?thesis by simp
qed

end
