(* ===== verification/Update_State.thy ===== *)
theory Update_State
  imports Update_Journal
begin

text \<open>
  The published state of an update, \<open>tools/l4common/update_state.c\<close> and \<open>update_state_store.c\<close>: a file
  of 112 bytes that names the operation in charge, its window and its deadline. A transition is
  first recorded in the operation's journal and then published by replacing the file in one step;
  the theorems state which transitions are possible and that a transition interrupted between the
  two is completed by repeating the call. The file is an optional byte string; its path, access
  rights and streams are checked by Windows calls outside the model.
\<close>

section \<open>Definitions of the source\<close>

datatype state_error =
    State_Store store_error
  | State_Invalid_Parameter
  | State_Invalid_Data
  | State_File_Not_Found
  | State_Busy
  | State_Service_Exists
  | State_Revision_Mismatch
  | State_Timeout
  | State_Invalid_State
  | State_Cancelled
  | State_Io

record L4UpdateState =
  us_owner :: bytes
  us_window :: u32
  us_generation :: u64
  us_plan_sequence :: u64
  us_deadline_utc :: u64

abbreviation L4_UPDATE_STATE_SIZE :: nat where "L4_UPDATE_STATE_SIZE \<equiv> 112"
abbreviation L4_RECORD_UPDATE_STATE_INTENT :: u32 where "L4_RECORD_UPDATE_STATE_INTENT \<equiv> 65"

definition state_zero :: L4UpdateState where
  "state_zero = \<lparr>us_owner = replicate 40 0, us_window = 0, us_generation = 0, us_plan_sequence = 0,
                 us_deadline_utc = 0\<rparr>"

fun owner_loop :: "bytes \<Rightarrow> nat \<Rightarrow> bool \<Rightarrow> bool" where
  "owner_loop owner 0 nonzero = nonzero"
| "owner_loop owner (Suc n) nonzero =
     (let i = 35 - n; c = owner ! i in
      if i = 8 \<or> i = 13 \<or> i = 18 \<or> i = 23 then (if c \<noteq> 45 then False else owner_loop owner n nonzero)
      else if 48 \<le> c \<and> c \<le> 57 \<or> 97 \<le> c \<and> c \<le> 102
      then owner_loop owner n (if c \<noteq> 48 then True else nonzero)
      else False)"

definition owner_text_valid :: "bytes \<Rightarrow> bool" where
  "owner_text_valid owner \<longleftrightarrow>
     \<not> (owner ! 36 \<noteq> 0 \<or> owner ! 37 \<noteq> 0 \<or> owner ! 38 \<noteq> 0 \<or> owner ! 39 \<noteq> 0) \<and> owner_loop owner 36 False"

definition state_valid :: "L4UpdateState \<Rightarrow> bool" where
  "state_valid st =
     (if us_generation st = 0
      then us_owner st = replicate 40 0 \<and> us_window st = 0 \<and> us_plan_sequence st = 0 \<and> us_deadline_utc st = 0
      else owner_text_valid (us_owner st) \<and> us_plan_sequence st \<noteq> 0 \<and> us_window st \<le> 2
        \<and> (if us_window st \<noteq> 0 then us_deadline_utc st \<noteq> 0 else us_deadline_utc st = 0))"

definition state_magic :: bytes where
  "state_magic = map (\<lambda>c. of_char c) ''L4UPD01'' @ [0]"

definition l4_update_state_encode :: "sha \<Rightarrow> L4UpdateState \<Rightarrow> state_error + bytes" where
  "l4_update_state_encode sha st =
     (if \<not> state_valid st then Inl State_Invalid_Data
      else
        let body = state_magic @ us_owner st @ l4_store_u32 (us_window st) @ replicate 4 0
              @ l4_store_u64 (us_generation st) @ l4_store_u64 (us_plan_sequence st)
              @ l4_store_u64 (us_deadline_utc st) in
        case sha body of
          None \<Rightarrow> Inl (State_Store ERROR_CRC)
        | Some hash \<Rightarrow> Inr (body @ hash))"

text \<open>\<open>None\<close> is a file that does not exist.\<close>

definition l4_update_state_read :: "sha \<Rightarrow> bytes option \<Rightarrow> state_error + L4UpdateState" where
  "l4_update_state_read sha content =
     (case content of
        None \<Rightarrow> Inl State_File_Not_Found
      | Some b \<Rightarrow>
          if length b \<noteq> L4_UPDATE_STATE_SIZE then Inl State_Invalid_Data
          else if take 8 b \<noteq> state_magic \<or> l4_store_get32 (drop 52 b) \<noteq> 0 then Inl State_Invalid_Data
          else case sha (take 80 b) of
              None \<Rightarrow> Inl (State_Store ERROR_CRC)
            | Some digest \<Rightarrow>
                if digest \<noteq> drop 80 b then Inl State_Invalid_Data
                else
                  let st = \<lparr>us_owner = take 40 (drop 8 b), us_window = l4_store_get32 (drop 48 b),
                            us_generation = l4_store_get64 (drop 56 b),
                            us_plan_sequence = l4_store_get64 (drop 64 b),
                            us_deadline_utc = l4_store_get64 (drop 72 b)\<rparr> in
                  if state_valid st then Inr st else Inl State_Invalid_Data)"

definition same_state :: "L4UpdateState \<Rightarrow> L4UpdateState \<Rightarrow> bool" where
  "same_state a b \<longleftrightarrow> us_owner a = us_owner b \<and> us_window a = us_window b \<and> us_generation a = us_generation b
     \<and> us_plan_sequence a = us_plan_sequence b \<and> us_deadline_utc a = us_deadline_utc b"

text \<open>A consumer outside an installed release is not enabled and sees a clear state.\<close>

definition l4_update_consumer_read :: "sha \<Rightarrow> bool \<Rightarrow> bytes option \<Rightarrow> state_error + L4UpdateState" where
  "l4_update_consumer_read sha enabled content =
     (if \<not> enabled then Inr state_zero else l4_update_state_read sha content)"

text \<open>
  One turn of the loop of \<open>l4_update_consumer_drain\<close> sees the answers of the system at its calls:
  the cancel event, both clocks, whether the lock was free, the file at both reads, whether work is
  still running, the cancel event and the clocks again, and the cancel event during the pause.
\<close>

record drain_view =
  dv_cancelled :: bool
  dv_tick :: u64
  dv_utc :: u64
  dv_locked :: bool
  dv_state :: "bytes option"
  dv_busy :: bool
  dv_state_again :: "bytes option"
  dv_cancelled_after :: bool
  dv_tick_after :: u64
  dv_utc_after :: u64
  dv_cancelled_pause :: bool

datatype drain_result =
  Drain_Success | Drain_Cancelled | Drain_Timeout | Drain_Busy | Drain_Invalid_Data | Drain_Mismatch
  | Drain_Invalid_Parameter

definition drain_check :: "sha \<Rightarrow> L4UpdateState \<Rightarrow> drain_view \<Rightarrow> drain_result" where
  "drain_check sha want v =
     (case l4_update_consumer_read sha True (dv_state v) of
        Inl _ \<Rightarrow> Drain_Invalid_Data
      | Inr cur \<Rightarrow>
          if \<not> same_state cur want then Drain_Mismatch
          else if dv_busy v then Drain_Busy
          else case l4_update_consumer_read sha True (dv_state_again v) of
              Inl _ \<Rightarrow> Drain_Invalid_Data
            | Inr cur \<Rightarrow> if same_state cur want then Drain_Success else Drain_Mismatch)"

definition drain_turn :: "sha \<Rightarrow> L4UpdateState \<Rightarrow> u64 \<Rightarrow> drain_view \<Rightarrow> drain_result option" where
  "drain_turn sha want deadline v =
     (if dv_cancelled v then Some Drain_Cancelled
      else if deadline \<le> dv_tick v \<or> us_deadline_utc want \<le> dv_utc v then Some Drain_Timeout
      else
        let result = (if dv_locked v then None else Some (drain_check sha want v)) in
        if result \<noteq> None \<and> dv_cancelled_after v then Some Drain_Cancelled
        else if result \<noteq> None \<and> (deadline \<le> dv_tick_after v \<or> us_deadline_utc want \<le> dv_utc_after v)
        then Some Drain_Timeout
        else if result \<noteq> None \<and> result \<noteq> Some Drain_Busy then result
        else if dv_cancelled_pause v then Some Drain_Cancelled
        else None)"

fun drain_loop :: "sha \<Rightarrow> L4UpdateState \<Rightarrow> u64 \<Rightarrow> drain_view list \<Rightarrow> drain_result option" where
  "drain_loop sha want deadline [] = None"
| "drain_loop sha want deadline (v # vs) =
     (case drain_turn sha want deadline v of
        Some r \<Rightarrow> Some r
      | None \<Rightarrow> drain_loop sha want deadline vs)"

text \<open>\<open>None\<close>: still waiting after the turns that were given.\<close>

definition l4_update_consumer_drain ::
    "sha \<Rightarrow> bool \<Rightarrow> L4UpdateState \<Rightarrow> u32 \<Rightarrow> u64 \<Rightarrow> drain_view list \<Rightarrow> drain_result option" where
  "l4_update_consumer_drain sha enabled want timeout start views =
     (if \<not> enabled \<or> \<not> state_valid want \<or> us_window want = 0 \<or> timeout = 0 \<or> 300000 < timeout
      then Some Drain_Invalid_Parameter
      else drain_loop sha want (start + ucast timeout) views)"

text \<open>
  The replacement of the file: the new bytes are written and flushed under another name and moved
  over the old file in one step. \<open>ok\<close> is whether all of this succeeded.
\<close>

definition l4_update_state_replace :: "bool \<Rightarrow> bytes \<Rightarrow> bool \<Rightarrow> bytes option \<Rightarrow> (state_error + unit) \<times> bytes option" where
  "l4_update_state_replace ok bs create_only content =
     (if \<not> ok \<or> create_only \<and> content \<noteq> None then (Inl State_Io, content) else (Inr (), Some bs))"

text \<open>What the system answers during one call: the clock, the installed services (an error, or
  whether one of the four is installed), and the outcome of the append and of the replacement.\<close>

record store_env =
  env_now :: u64
  env_services :: "bool option list"
  env_append :: "nat option"
  env_replace :: bool

fun services_absent :: "bool option list \<Rightarrow> state_error + unit" where
  "services_absent [] = Inr ()"
| "services_absent (None # _) = Inl State_Io"
| "services_absent (Some True # _) = Inl State_Service_Exists"
| "services_absent (Some False # ss) = services_absent ss"

type_synonym update_store = "L4Journal \<times> bytes option"

definition append_intent :: "sha \<Rightarrow> store_env \<Rightarrow> bytes \<Rightarrow> bool \<Rightarrow> update_store \<Rightarrow> (state_error + unit) \<times> update_store" where
  "append_intent sha env bs create_only s =
     (case l4_journal_append sha (env_append env) L4_RECORD_UPDATE_STATE_INTENT bs (fst s) of
        (Inl e, j) \<Rightarrow> (Inl (State_Store e), (j, snd s))
      | (Inr _, j) \<Rightarrow>
          (case l4_update_state_replace (env_replace env) bs create_only (snd s) of
             (r, content) \<Rightarrow> (r, (j, content))))"

definition l4_update_state_provision :: "sha \<Rightarrow> store_env \<Rightarrow> update_store \<Rightarrow> (state_error + unit) \<times> update_store" where
  "l4_update_state_provision sha env s =
     (if jr_poisoned (fst s) then (Inl State_Invalid_Parameter, s)
      else case l4_update_state_read sha (snd s) of
          Inr st \<Rightarrow> (if us_window st \<noteq> 0 then Inl State_Busy else Inr (), s)
        | Inl State_File_Not_Found \<Rightarrow>
            (case services_absent (env_services env) of
               Inl e \<Rightarrow> (Inl e, s)
             | Inr _ \<Rightarrow>
                 (case l4_update_state_encode sha state_zero of
                    Inl e \<Rightarrow> (Inl e, s)
                  | Inr bs \<Rightarrow> append_intent sha env bs True s))
        | Inl e \<Rightarrow> (Inl e, s))"

text \<open>\<open>guid_text\<close> stands for \<open>StringFromGUID2\<close>: the text of a GUID in braces, or nothing.\<close>

definition lower_hex :: "u8 \<Rightarrow> u8" where
  "lower_hex c = (if 65 \<le> c \<and> c \<le> 70 then c + 32 else c)"

definition owner_of :: "bytes \<Rightarrow> bytes" where
  "owner_of t = map (\<lambda>i. lower_hex (t ! (i + 1))) [0..<36] @ replicate 4 0"

definition wanted_state :: "bytes \<Rightarrow> u64 \<Rightarrow> u64 \<Rightarrow> u32 \<Rightarrow> u64 \<Rightarrow> L4UpdateState" where
  "wanted_state t plan_sequence expected_generation window deadline =
     \<lparr>us_owner = owner_of t, us_window = window, us_generation = expected_generation + 1,
      us_plan_sequence = plan_sequence, us_deadline_utc = deadline\<rparr>"

text \<open>The checks of a transition from the state on file, \<open>None\<close> when it may go on.\<close>

definition transition_refused :: "u64 \<Rightarrow> u64 \<Rightarrow> L4UpdateState \<Rightarrow> L4UpdateState \<Rightarrow> state_error option" where
  "transition_refused now expected_generation before v =
     (if us_generation before \<noteq> expected_generation then Some State_Revision_Mismatch
      else if us_window v \<noteq> 0
          \<and> (us_deadline_utc v \<le> now \<or> us_window before \<noteq> 0 \<and> us_deadline_utc before \<le> now)
      then Some State_Timeout
      else if us_window before \<noteq> 0
      then
        if \<not> (us_owner before = us_owner v \<and> us_plan_sequence before = us_plan_sequence v)
            \<or> us_window v \<noteq> 0 \<and> \<not> (us_window before = 1 \<and> us_window v = 2)
        then Some State_Busy else None
      else if us_window v = 0 then Some State_Invalid_State else None)"

text \<open>
  The record at the end of the journal: \<open>Inr True\<close> when it is the intent of this very transition,
  \<open>Inr False\<close> when a new intent is to be recorded.
\<close>

definition last_intent :: "sha \<Rightarrow> L4Journal \<Rightarrow> L4UpdateState \<Rightarrow> bytes \<Rightarrow> state_error + bool" where
  "last_intent sha j before bs =
     (case l4_store_find_record sha j L4_RECORD_UPDATE_STATE_INTENT (jr_sequence j) of
        Inl ERROR_NOT_FOUND \<Rightarrow> Inr False
      | Inl e \<Rightarrow> Inl (State_Store e)
      | Inr found \<Rightarrow>
          if length found = L4_UPDATE_STATE_SIZE \<and> found = bs then Inr True
          else if length found = L4_UPDATE_STATE_SIZE \<and> l4_update_state_encode sha before = Inr found
          then Inr False
          else Inl State_Revision_Mismatch)"

definition l4_update_state_publish ::
    "sha \<Rightarrow> (bytes \<Rightarrow> bytes option) \<Rightarrow> store_env \<Rightarrow> u64 \<Rightarrow> u64 \<Rightarrow> u32 \<Rightarrow> u64 \<Rightarrow> update_store
      \<Rightarrow> (state_error + unit) \<times> update_store" where
  "l4_update_state_publish sha guid_text env plan_sequence expected_generation window deadline s =
     (if jr_poisoned (fst s) \<or> plan_sequence = 0 \<or> 2 < window \<or> (if window \<noteq> 0 then deadline = 0 else deadline \<noteq> 0)
         \<or> expected_generation = - 1
      then (Inl State_Invalid_Parameter, s)
      else case l4_store_find_record sha (fst s) 64 plan_sequence of
          Inl e \<Rightarrow> (Inl (State_Store e), s)
        | Inr plan \<Rightarrow>
            if plan = [] then (Inl State_Invalid_Data, s)
            else case guid_text (drop 8 (jr_header (fst s))) of
                None \<Rightarrow> (Inl State_Invalid_Data, s)
              | Some t \<Rightarrow>
                  let v = wanted_state t plan_sequence expected_generation window deadline in
                  case l4_update_state_read sha (snd s) of
                    Inl e \<Rightarrow> (Inl e, s)
                  | Inr before \<Rightarrow>
                      if same_state before v then (Inr (), s)
                      else case transition_refused (env_now env) expected_generation before v of
                          Some e \<Rightarrow> (Inl e, s)
                        | None \<Rightarrow>
                            (case l4_update_state_encode sha v of
                               Inl e \<Rightarrow> (Inl e, s)
                             | Inr bs \<Rightarrow>
                                 (case last_intent sha (fst s) before bs of
                                    Inl e \<Rightarrow> (Inl e, s)
                                  | Inr True \<Rightarrow>
                                      (case l4_update_state_replace (env_replace env) bs False (snd s) of
                                         (r, content) \<Rightarrow> (r, (fst s, content)))
                                  | Inr False \<Rightarrow> append_intent sha env bs False s)))"


section \<open>The file\<close>

lemma magic_length [simp]: "length state_magic = 8"
  by (simp add: state_magic_def)

lemma store_lengths [simp]: "length (l4_store_u32 w) = 4" "length (l4_store_u64 x) = 8"
  by (simp_all add: store_fields u32le.put_width u64le.put_width)

lemma zero_field: "l4_store_u32 0 = replicate 4 0"
  by (simp add: l4_store_u32_def upto_4 numeral_eq_Suc)

lemma get32_put [simp]: "l4_store_get32 (l4_store_u32 w @ rest) = w"
  by (simp add: store_fields u32le.get_put)

lemma get64_put [simp]: "l4_store_get64 (l4_store_u64 x @ rest) = x"
  using store_get64_le [of "l4_store_u64 x @ rest"] by (simp add: store_u64_le u64le.get_put u64le.put_width)

lemma put_get32: "4 \<le> length b \<Longrightarrow> l4_store_u32 (l4_store_get32 b) = take 4 b"
  by (simp add: store_fields u32le.put_get_take)

lemma put_get64: "8 \<le> length b \<Longrightarrow> l4_store_u64 (l4_store_get64 b) = take 8 b"
  by (simp add: store_u64_le store_get64_le u64le.put_get_take)

definition state_body :: "L4UpdateState \<Rightarrow> bytes" where
  "state_body st = state_magic @ us_owner st @ l4_store_u32 (us_window st) @ l4_store_u32 0
              @ l4_store_u64 (us_generation st) @ l4_store_u64 (us_plan_sequence st)
              @ l4_store_u64 (us_deadline_utc st)"

lemma encode_total:
  "l4_update_state_encode (total_sha H) st =
     (if state_valid st then Inr (state_body st @ H (state_body st)) else Inl State_Invalid_Data)"
  by (simp add: l4_update_state_encode_def state_body_def zero_field)

lemma body_length: "length (us_owner st) = 40 \<Longrightarrow> length (state_body st) = 80"
  by (simp add: state_body_def)

lemma read_encoded:
  assumes H: "\<forall>x. length (H x) = 32" and st: "state_valid st" "length (us_owner st) = 40"
  shows "l4_update_state_read (total_sha H) (Some (state_body st @ H (state_body st))) = Inr st"
proof -
  let ?b = "state_body st @ H (state_body st)"
  note l = body_length [OF st(2)]
  have long: "length ?b = 112" using H l by simp
  have fields: "take 8 ?b = state_magic" "take 40 (drop 8 ?b) = us_owner st"
    "l4_store_get32 (drop 48 ?b) = us_window st" "l4_store_get32 (drop 52 ?b) = 0"
    "l4_store_get64 (drop 56 ?b) = us_generation st" "l4_store_get64 (drop 64 ?b) = us_plan_sequence st"
    "l4_store_get64 (drop 72 ?b) = us_deadline_utc st"
    using st(2) by (simp_all add: state_body_def)
  have parts: "take 80 ?b = state_body st" "drop 80 ?b = H (state_body st)" using l by simp_all
  show ?thesis
    using st(1) unfolding l4_update_state_read_def option.case long fields parts Let_def by (cases st) simp
qed

lemma encoded_read:
  assumes "l4_update_state_read (total_sha H) (Some b) = Inr st"
  shows "b = state_body st @ H (state_body st)" "state_valid st" "length (us_owner st) = 40"
proof -
  have b: "length b = 112" "take 8 b = state_magic" "l4_store_get32 (drop 52 b) = 0"
    "H (take 80 b) = drop 80 b" "state_valid st"
    and st: "st = \<lparr>us_owner = take 40 (drop 8 b), us_window = l4_store_get32 (drop 48 b),
                            us_generation = l4_store_get64 (drop 56 b),
                            us_plan_sequence = l4_store_get64 (drop 64 b),
                            us_deadline_utc = l4_store_get64 (drop 72 b)\<rparr>"
    using assms by (auto simp: l4_update_state_read_def Let_def split: if_splits)
  have zero: "l4_store_u32 0 = take 4 (drop 52 b)" using put_get32 [of "drop 52 b"] b by simp
  have "state_body st = take 80 b"
    using b st put_get32 [of "drop 48 b"] put_get64 [of "drop 56 b"] put_get64 [of "drop 64 b"]
      put_get64 [of "drop 72 b"] zero take_add [of 8 40 b] take_add [of 48 4 b] take_add [of 52 4 b]
      take_add [of 56 8 b] take_add [of 64 8 b] take_add [of 72 8 b]
    by (simp add: state_body_def)
  then show "b = state_body st @ H (state_body st)" using b(4) by simp
  show "state_valid st" "length (us_owner st) = 40" using b st by simp_all
qed

lemma owner_of_length [simp]: "length (owner_of t) = 40"
  by (simp add: owner_of_def)

lemma same_state_eq: "same_state a b \<longleftrightarrow> a = b"
  by (auto simp: same_state_def)

lemma replace_error: "l4_update_state_replace ok bs create_only c = (Inl e, c') \<Longrightarrow> c' = c"
  by (auto simp: l4_update_state_replace_def split: if_splits)


section \<open>Publication\<close>

lemma journal_unique:
  assumes "journal_ok H guid recs i" "journal_ok H guid recs j" "\<not> jr_poisoned i" "\<not> jr_poisoned j"
  shows "i = j"
proof -
  have "jr_sequence i = jr_sequence j" "jr_end i = jr_end j" "jr_digest i = jr_digest j"
    "jr_header i = jr_header j" "jr_poisoned i = jr_poisoned j" "jr_file i = jr_file j"
    using assms by (simp_all add: journal_ok_def)
  then show ?thesis by (cases i; cases j) simp
qed

definition call_ok :: "u64 \<Rightarrow> u64 \<Rightarrow> u32 \<Rightarrow> u64 \<Rightarrow> bool" where
  "call_ok plan_sequence want_generation window deadline \<longleftrightarrow>
     plan_sequence \<noteq> 0 \<and> window \<le> 2 \<and> (if window \<noteq> 0 then deadline \<noteq> 0 else deadline = 0) \<and> want_generation \<noteq> - 1"

text \<open>What a call of \<open>l4_update_state_publish\<close> does once its arguments, the plan and the file were found in order.\<close>

definition publish_rest :: "sha \<Rightarrow> store_env \<Rightarrow> u64 \<Rightarrow> L4UpdateState \<Rightarrow> L4UpdateState \<Rightarrow> update_store
      \<Rightarrow> (state_error + unit) \<times> update_store" where
  "publish_rest sha env want_generation before v s =
     (if before = v then (Inr (), s)
      else case transition_refused (env_now env) want_generation before v of
          Some e \<Rightarrow> (Inl e, s)
        | None \<Rightarrow>
            (case l4_update_state_encode sha v of
               Inl e \<Rightarrow> (Inl e, s)
             | Inr bs \<Rightarrow>
                 (case last_intent sha (fst s) before bs of
                    Inl e \<Rightarrow> (Inl e, s)
                  | Inr reuse \<Rightarrow>
                      if reuse
                      then (case l4_update_state_replace (env_replace env) bs False (snd s) of
                              (r, content) \<Rightarrow> (r, (fst s, content)))
                      else append_intent sha env bs False s)))"

lemma publish_unfold:
  assumes "\<not> jr_poisoned j" "call_ok plan gen w dl" "l4_store_find_record sha j 64 plan = Inr p" "p \<noteq> []"
    "guid_text (drop 8 (jr_header j)) = Some t" "l4_update_state_read sha c = Inr before"
  shows "l4_update_state_publish sha guid_text env plan gen w dl (j, c) =
    publish_rest sha env gen before (wanted_state t plan gen w dl) (j, c)"
proof -
  have guards: "(jr_poisoned (fst (j, c)) \<or> plan = 0 \<or> 2 < w \<or> (if w \<noteq> 0 then dl = 0 else dl \<noteq> 0) \<or> gen = - 1) = False"
    using assms(1,2) by (auto simp: call_ok_def)
  show ?thesis
    unfolding l4_update_state_publish_def guards publish_rest_def Let_def same_state_eq
    using assms(3-6) by (auto split: option.split sum.split bool.split)
qed

lemma publish_success:
  assumes "l4_update_state_publish sha guid_text env plan gen w dl (j, c) = (Inr x, s')"
  shows "\<exists>p t before. \<not> jr_poisoned j \<and> call_ok plan gen w dl \<and> l4_store_find_record sha j 64 plan = Inr p
     \<and> p \<noteq> [] \<and> guid_text (drop 8 (jr_header j)) = Some t \<and> l4_update_state_read sha c = Inr before"
proof -
  have "\<not> jr_poisoned j" "call_ok plan gen w dl"
    using assms by (auto simp: l4_update_state_publish_def call_ok_def split: if_splits)
  moreover obtain p where "l4_store_find_record sha j 64 plan = Inr p" "p \<noteq> []"
    using assms by (auto simp: l4_update_state_publish_def split: if_splits sum.splits)
  moreover obtain t where "guid_text (drop 8 (jr_header j)) = Some t"
    using assms calculation by (auto simp: l4_update_state_publish_def split: if_splits option.splits)
  moreover obtain before where "l4_update_state_read sha c = Inr before"
    using assms calculation by (auto simp: l4_update_state_publish_def Let_def split: if_splits sum.splits)
  ultimately show ?thesis by blast
qed

lemma publish_error_keeps:
  assumes "l4_update_state_publish sha guid_text env plan gen w dl s = (Inl e, s')"
  shows "snd s' = snd s"
proof (cases s)
  case (Pair j c)
  have "snd (snd (append_intent sha env bs False (j, c))) = c"
    if "append_intent sha env bs False (j, c) = (Inl e, s')" for bs
    using that by (auto simp: append_intent_def l4_update_state_replace_def split: prod.splits sum.splits if_splits)
  then show ?thesis
    using assms Pair unfolding l4_update_state_publish_def Let_def
    by (auto split: if_splits sum.splits option.splits prod.splits bool.splits dest: replace_error)
qed


lemma journal_short:
  assumes "contract H guid" "journal_ok H guid recs j"
  shows "length recs \<le> JOURNAL_LIMIT"
proof -
  have "length (disk_of H guid recs) \<le> JOURNAL_LIMIT" using assms(2) by (auto simp: journal_ok_def)
  then show ?thesis
    using log_bytes_long [OF contractD(1) [OF assms(1)], of recs "H (journal_header guid)" 0]
    by (simp add: disk_of_def)
qed

lemma last_record_number:
  assumes "contract H guid" "journal_ok H guid (recs @ [r]) j"
  shows "unat (jr_sequence j) = length recs + 1"
proof -
  have "length recs + 1 \<le> JOURNAL_LIMIT" using journal_short [OF assms] by simp
  moreover have seq: "jr_sequence j = of_nat (length recs + 1)" using assms(2) by (simp add: journal_ok_def)
  ultimately show ?thesis unfolding seq by (subst unat_of_nat) simp
qed

lemma last_intent_recorded:
  assumes c: "contract H guid" and j: "journal_ok H guid (recs @ [(65, bs)]) j" "\<not> jr_poisoned j"
    and "length bs = 112"
  shows "last_intent (total_sha H) j before bs = Inr True"
proof -
  have "unat (jr_sequence j) = length recs + 1" by (rule last_record_number [OF c j(1)])
  then have "l4_store_find_record (total_sha H) j 65 (jr_sequence j) = Inr bs"
    using find_in_journal [OF c j, of 65 "jr_sequence j"] by simp
  then show ?thesis using assms(4) by (simp add: last_intent_def)
qed

lemma found_later:
  assumes c: "contract H guid" and j: "journal_ok H guid recs j" "\<not> jr_poisoned j"
    and j': "journal_ok H guid (recs @ rs) j'" "\<not> jr_poisoned j'"
    and "l4_store_find_record (total_sha H) j k n = Inr p"
  shows "l4_store_find_record (total_sha H) j' k n = Inr p"
  using assms(6) unfolding find_in_journal [OF c j] find_in_journal [OF c j']
  by (auto simp: nth_append split: if_splits)

lemma reopen_same:
  assumes c: "contract H guid" and j: "journal_ok H guid recs j" "\<not> jr_poisoned j"
    and "l4_journal_open (total_sha H) True guid create (jr_file j) = Inr j'"
  shows "j' = j"
proof -
  have "torn_tail H guid recs []" "length (disk_of H guid recs @ []) \<le> JOURNAL_LIMIT"
    "jr_file j = disk_of H guid recs @ []" "list_all rec_ok recs"
    using j(1) by (auto simp: journal_ok_def torn_tail_def)
  then show ?thesis using open_disk [OF c, of recs "[]" create] assms(4) journal_unique [OF j(1) _ j(2)] by auto
qed

text \<open>
  A call that would succeed when nothing fails; the same call with any outcome of its writes; the
  journal opened again. The cases are how far the interrupted call came.
\<close>

lemma interrupted_cases:
  assumes c: "contract H guid" and j: "journal_ok H guid recs j" "\<not> jr_poisoned j"
    and bs: "l4_update_state_encode (total_sha H) v = Inr bs" "length bs = 112"
    and li: "last_intent (total_sha H) j before bs = Inr False"
    and ap: "append_intent (total_sha H) ideal bs False (j, cont) = (Inr (), (j0, c0))"
      "env_append ideal = None"
    and run: "publish_rest (total_sha H) env gen before v (j, cont) = (r, (j', c'))"
    and ne: "before \<noteq> v"
    and re: "l4_journal_open (total_sha H) True guid create (jr_file j') = Inr j''"
  shows "j'' = j \<and> c' = cont \<or> j'' = j0 \<and> (c' = cont \<or> c' = Some bs)"
    and "journal_ok H guid (recs @ [(65, bs)]) j0" "\<not> jr_poisoned j0" "c0 = Some bs"
proof -
  obtain n where a0: "l4_journal_append (total_sha H) None 65 bs j = (Inr n, j0)" and c0: "c0 = Some bs"
    using ap by (auto simp: append_intent_def l4_update_state_replace_def split: prod.splits sum.splits if_splits)
  have fits: "rec_ok (65, bs) \<and> jr_end j + FRAME_SIZE + length bs + 4 \<le> JOURNAL_LIMIT"
    using append_refused [of j 65 bs "total_sha H" None] a0 j(2) by auto
  show j0: "journal_ok H guid (recs @ [(65, bs)]) j0" "\<not> jr_poisoned j0"
    using append_ok [OF c j, of 65 bs] fits a0 by auto
  show "c0 = Some bs" by (rule c0)
  have again: "j'' = j" if "j' = j" using reopen_same [OF c j] re that by simp
  show "j'' = j \<and> c' = cont \<or> j'' = j0 \<and> (c' = cont \<or> c' = Some bs)"
  proof (cases "transition_refused (env_now env) gen before v")
    case (Some e)
    then show ?thesis using run ne again by (auto simp: publish_rest_def)
  next
    case None
    then have run': "append_intent (total_sha H) env bs False (j, cont) = (r, (j', c'))"
      using run ne bs li by (simp add: publish_rest_def)
    obtain r1 where r1: "l4_journal_append (total_sha H) (env_append env) 65 bs j = (r1, j')"
      and keeps: "c' = cont \<or> (\<exists>m. r1 = Inr m) \<and> c' = Some bs"
      using run' by (auto simp: append_intent_def l4_update_state_replace_def split: prod.splits sum.splits if_splits)
    obtain j2 where "l4_journal_open (total_sha H) True guid create (jr_file j') = Inr j2" "\<not> jr_poisoned j2"
      "journal_ok H guid (recs @ [(65, bs)]) j2 \<or> (\<exists>e. r1 = Inl e) \<and> journal_ok H guid recs j2"
      using crash_atomic [OF c j r1] by blast
    then show ?thesis
      using re keeps journal_unique [OF j(1) _ j(2)] journal_unique [OF j0(1) _ j0(2)] by auto
  qed
qed



lemma publish_reopens:
  assumes c: "contract H guid" and j: "journal_ok H guid recs j" "\<not> jr_poisoned j"
    and run: "l4_update_state_publish (total_sha H) guid_text env plan gen w dl (j, cont) = (r, (j', c'))"
  shows "\<exists>j''. l4_journal_open (total_sha H) True guid create (jr_file j') = Inr j''"
proof -
  have same: "\<exists>j''. l4_journal_open (total_sha H) True guid create (jr_file j) = Inr j''"
    using crash_atomic [OF c j, of None 0 "[]" "Inl ERROR_INVALID_PARAMETER" j create]
    by (auto simp: l4_journal_append_def)
  have "j' = j \<or> (\<exists>bs x. l4_journal_append (total_sha H) (env_append env) 65 bs j = (x, j'))"
    using run unfolding l4_update_state_publish_def append_intent_def Let_def
    by (auto split: if_splits sum.splits option.splits prod.splits bool.splits)
  then show ?thesis using same crash_atomic [OF c j] by blast
qed


lemma publish_later:
  assumes k: "contract H guid" and j: "journal_ok H guid recs j" "\<not> jr_poisoned j"
    and call: "call_ok plan gen w dl" "l4_store_find_record (total_sha H) j 64 plan = Inr p" "p \<noteq> []"
      "guid_text (drop 8 (jr_header j)) = Some t"
    and i: "journal_ok H guid (recs @ rs) i" "\<not> jr_poisoned i"
    and d: "l4_update_state_read (total_sha H) d = Inr b"
  shows "l4_update_state_publish (total_sha H) guid_text env plan gen w dl (i, d) =
      publish_rest (total_sha H) env gen b (wanted_state t plan gen w dl) (i, d)"
proof -
  have "guid_text (drop 8 (jr_header i)) = Some t" using call(4) j(1) i(1) by (simp add: journal_ok_def)
  then show ?thesis
    by (rule publish_unfold [where guid_text = guid_text, OF i(2) call(1) found_later [OF k j i call(2)] call(3) _ d])
qed

lemma interrupted_rest:
  assumes k: "contract H guid" and j: "journal_ok H guid recs j" "\<not> jr_poisoned j"
    and v: "length (us_owner v) = 40" and c: "l4_update_state_read (total_sha H) c = Inr before"
    and env: "env_append ideal = None"
    and ideal: "publish_rest (total_sha H) ideal gen before v (j, c) = (Inr (), (j0, c0))"
    and run: "publish_rest (total_sha H) env gen before v (j, c) = (r, (j', c'))"
    and re: "l4_journal_open (total_sha H) True guid create (jr_file j') = Inr j''"
  shows "\<exists>b rs. journal_ok H guid (recs @ rs) j'' \<and> \<not> jr_poisoned j''
    \<and> l4_update_state_read (total_sha H) c' = Inr b
    \<and> publish_rest (total_sha H) ideal gen b v (j'', c') = (Inr (), (j0, c0))"
proof (cases "before = v")
  case True
  then have "j0 = j" "c0 = c" "j' = j" "c' = c" using ideal run by (auto simp: publish_rest_def)
  moreover have "j'' = j" using reopen_same [OF k j] re calculation by simp
  ultimately show ?thesis using ideal c j by (intro exI [of _ before] exI [of _ "[]"]) simp
next
  case False
  have settled: "publish_rest (total_sha H) ideal gen v v (i, d) = (Inr (), (i, d))" for i d
    by (simp add: publish_rest_def)
  obtain bs where bs: "l4_update_state_encode (total_sha H) v = Inr bs"
    and open_way: "transition_refused (env_now ideal) gen before v = None"
    using ideal False by (auto simp: publish_rest_def split: option.splits sum.splits)
  have bs': "length bs = 112" "l4_update_state_read (total_sha H) (Some bs) = Inr v"
    using bs read_encoded [OF contractD(1) [OF k], of v] body_length [OF v] contractD(1) [OF k] v
    by (auto simp: encode_total split: if_splits)
  obtain reuse where li: "last_intent (total_sha H) j before bs = Inr reuse"
    using ideal False bs open_way by (auto simp: publish_rest_def split: sum.splits)
  show ?thesis
  proof (cases reuse)
    case True
    then have "j0 = j" "c0 = Some bs"
      using ideal False bs open_way li
      by (auto simp: publish_rest_def l4_update_state_replace_def split: if_splits)
    moreover have "j' = j" "c' = c \<or> c' = Some bs"
      using run False bs li True
      by (auto simp: publish_rest_def l4_update_state_replace_def split: if_splits option.splits)
    moreover have "j'' = j" using reopen_same [OF k j] re calculation by simp
    ultimately show ?thesis
      using ideal c j bs'(2) settled [of j "Some bs"] by (auto intro!: exI [of _ "[]"])
  next
    case fresh: False
    have ap: "append_intent (total_sha H) ideal bs False (j, c) = (Inr (), (j0, c0))"
      using ideal False bs open_way li fresh by (simp add: publish_rest_def)
    note cut = interrupted_cases [OF k j bs bs'(1) _ ap env run False re]
    have how: "j'' = j \<and> c' = c \<or> j'' = j0 \<and> (c' = c \<or> c' = Some bs)"
      and j0: "journal_ok H guid (recs @ [(65, bs)]) j0" "\<not> jr_poisoned j0" and c0: "c0 = Some bs"
      using cut li fresh by auto
    have "env_replace ideal"
      using ap by (auto simp: append_intent_def l4_update_state_replace_def split: prod.splits sum.splits if_splits)
    then have "publish_rest (total_sha H) ideal gen before v (j0, c) = (Inr (), (j0, c0))"
      using False bs open_way last_intent_recorded [OF k j0 bs'(1)] c0
      by (simp add: publish_rest_def l4_update_state_replace_def)
    then show ?thesis
      using how ideal c j j0 bs'(2) settled [of j0 "Some bs"] c0
      by (elim disjE conjE) (auto intro: exI [of _ "[]"] exI [of _ "[(65, bs)]"])
  qed
qed


section \<open>The protocol of the windows\<close>

text \<open>
  The transitions the header promises, on the states themselves: an operation opens a window when
  none is open, goes from the first window to the second, and closes its own window; deadlines lie
  ahead, and every transition takes the next generation.
\<close>

inductive window_step :: "u64 \<Rightarrow> L4UpdateState \<Rightarrow> L4UpdateState \<Rightarrow> bool" for now where
  open_window: "us_window a = 0 \<Longrightarrow> us_window b \<noteq> 0 \<Longrightarrow> now < us_deadline_utc b
    \<Longrightarrow> us_generation b = us_generation a + 1 \<Longrightarrow> window_step now a b"
| next_window: "us_window a = 1 \<Longrightarrow> us_window b = 2 \<Longrightarrow> us_owner a = us_owner b
    \<Longrightarrow> us_plan_sequence a = us_plan_sequence b \<Longrightarrow> now < us_deadline_utc a \<Longrightarrow> now < us_deadline_utc b
    \<Longrightarrow> us_generation b = us_generation a + 1 \<Longrightarrow> window_step now a b"
| close_window: "us_window a \<noteq> 0 \<Longrightarrow> us_window b = 0 \<Longrightarrow> us_owner a = us_owner b
    \<Longrightarrow> us_plan_sequence a = us_plan_sequence b
    \<Longrightarrow> us_generation b = us_generation a + 1 \<Longrightarrow> window_step now a b"

inductive_cases window_stepE: "window_step now a b"

lemma admitted_is_step:
  assumes "transition_refused now gen a b = None" "us_generation b = gen + 1"
  shows "window_step now a b"
proof -
  have gen: "us_generation b = us_generation a + 1"
    using assms by (auto simp: transition_refused_def split: if_splits)
  show ?thesis
  proof (cases "us_window a = 0")
    case True
    then show ?thesis
      using assms gen by (intro open_window) (auto simp: transition_refused_def not_le split: if_splits)
  next
    case active: False
    show ?thesis
    proof (cases "us_window b = 0")
      case True
      then show ?thesis
        using assms active gen by (intro close_window) (auto simp: transition_refused_def split: if_splits)
    next
      case False
      then show ?thesis
        using assms active gen
        by (intro next_window) (auto simp: transition_refused_def not_le split: if_splits)
    qed
  qed
qed

lemma append_intent_result:
  "append_intent sha env bs create_only (j, c) = (r, (j', c')) \<Longrightarrow> c' = c \<or> r = Inr () \<and> c' = Some bs"
  by (auto simp: append_intent_def l4_update_state_replace_def split: prod.splits sum.splits if_splits)

lemma publish_rest_result:
  assumes H: "\<forall>x. length (H x) = 32" and v: "length (us_owner v) = 40" "us_generation v = gen + 1"
    and before: "l4_update_state_read (total_sha H) c = Inr before"
    and run: "publish_rest (total_sha H) env gen before v (j, c) = (Inr x, (j', c'))"
  shows "l4_update_state_read (total_sha H) c' = Inr v \<and> (before = v \<or> window_step (env_now env) before v)"
proof (cases "before = v")
  case True
  then show ?thesis using before run by (simp add: publish_rest_def)
next
  case False
  obtain bs where bs: "l4_update_state_encode (total_sha H) v = Inr bs"
    and free: "transition_refused (env_now env) gen before v = None"
    using run False by (auto simp: publish_rest_def split: option.splits sum.splits)
  obtain reuse where li: "last_intent (total_sha H) j before bs = Inr reuse"
    using run False bs free by (auto simp: publish_rest_def split: sum.splits)
  have "c' = Some bs"
  proof (cases reuse)
    case True
    then show ?thesis
      using run False bs free li by (auto simp: publish_rest_def l4_update_state_replace_def split: if_splits)
  next
    case not_reused: False
    then have "append_intent (total_sha H) env bs False (j, c) = (Inr x, (j', c'))"
      using run False bs free li by (simp add: publish_rest_def)
    then show ?thesis
      by (auto simp: append_intent_def l4_update_state_replace_def split: prod.splits sum.splits if_splits)
  qed
  moreover have "l4_update_state_read (total_sha H) (Some bs) = Inr v"
    using bs read_encoded [OF H _ v(1)] by (auto simp: encode_total split: if_splits)
  ultimately show ?thesis using admitted_is_step [OF free v(2)] by simp
qed


section \<open>Acknowledging an update\<close>

lemma drain_turn_success:
  assumes "drain_turn (total_sha H) want limit v = Some Drain_Success"
  shows "\<not> dv_locked v" "l4_update_state_read (total_sha H) (dv_state v) = Inr want" "\<not> dv_busy v"
    "l4_update_state_read (total_sha H) (dv_state_again v) = Inr want"
    "\<not> dv_cancelled v" "\<not> dv_cancelled_after v" "dv_tick_after v < limit" "dv_utc_after v < us_deadline_utc want"
  using assms
  by (auto simp: drain_turn_def drain_check_def l4_update_consumer_read_def Let_def same_state_eq not_le split: if_splits sum.splits)

lemma drain_loop_success:
  "drain_loop (total_sha H) want limit vs = Some Drain_Success
    \<Longrightarrow> \<exists>v \<in> set vs. \<not> dv_locked v \<and> \<not> dv_busy v \<and> \<not> dv_cancelled_after v
          \<and> l4_update_state_read (total_sha H) (dv_state v) = Inr want
          \<and> l4_update_state_read (total_sha H) (dv_state_again v) = Inr want
          \<and> dv_tick_after v < limit \<and> dv_utc_after v < us_deadline_utc want"
proof (induction vs)
  case (Cons v vs)
  then consider "drain_turn (total_sha H) want limit v = Some Drain_Success"
    | "drain_loop (total_sha H) want limit vs = Some Drain_Success" by (auto split: option.splits)
  then show ?case
  proof cases
    case 1
    from drain_turn_success [OF this] show ?thesis by (intro bexI [of _ v]) simp_all
  next
    case 2
    from Cons.IH [OF this] show ?thesis by (auto intro: bexI)
  qed
qed simp

lemma drain_loop_returns:
  "\<exists>v \<in> set vs. limit \<le> dv_tick v \<Longrightarrow> drain_loop sha want limit vs \<noteq> None"
  by (induction vs) (auto simp: drain_turn_def split: option.splits)


section \<open>A concrete update\<close>

definition demo_text :: bytes where
  "demo_text = map (\<lambda>c. of_char c) ''{0A000000-0000-0000-0000-000000000001}''"

definition demo_wanted :: L4UpdateState where
  "demo_wanted = wanted_state demo_text 1 0 1 100"

abbreviation demo_hash :: "bytes \<Rightarrow> bytes" where "demo_hash \<equiv> (\<lambda>_. replicate 32 0)"
abbreviation demo_guid :: bytes where "demo_guid \<equiv> replicate 16 1"
abbreviation demo_names :: "bytes \<Rightarrow> bytes option" where "demo_names \<equiv> (\<lambda>_. Some demo_text)"
abbreviation "demo_ideal \<equiv> \<lparr>env_now = 5, env_services = [], env_append = None, env_replace = True\<rparr>"
abbreviation "demo_cut \<equiv> \<lparr>env_now = 3, env_services = [], env_append = Some 30, env_replace = True\<rparr>"
abbreviation demo_file :: "bytes option" where "demo_file \<equiv> Some (state_body state_zero @ replicate 32 0)"

lemma demo_wanted_valid: "state_valid demo_wanted"
  by code_simp

lemma demo_read: "l4_update_state_read (total_sha demo_hash) demo_file = Inr state_zero"
  using read_encoded [of demo_hash state_zero] by (simp add: state_valid_def state_zero_def)

lemma demo_read_wanted:
  "l4_update_state_read (total_sha demo_hash) (Some (state_body demo_wanted @ replicate 32 0)) = Inr demo_wanted"
  using read_encoded [of demo_hash demo_wanted] demo_wanted_valid by (simp add: demo_wanted_def wanted_state_def)

lemma demo_contract: "contract demo_hash demo_guid"
  by (simp add: contract_def)

lemma demo_planned: "\<exists>j. journal_ok demo_hash demo_guid [(64, [7])] j \<and> \<not> jr_poisoned j"
  using append_ok [OF demo_contract demo_journal_ok, of 64 "[7]"]
  by (auto simp: demo_journal_def rec_ok_def)

lemma demo_publish:
  assumes j: "journal_ok demo_hash demo_guid [(64, [7])] j" "\<not> jr_poisoned j"
  shows "\<exists>j0. l4_update_state_publish (total_sha demo_hash) demo_names demo_ideal 1 0 1 100 (j, demo_file)
           = (Inr (), (j0, Some (state_body demo_wanted @ replicate 32 0)))"
proof -
  have find: "l4_store_find_record (total_sha demo_hash) j 64 1 = Inr [7]"
    using find_in_journal [OF demo_contract j, of 64 1] by simp
  have none: "l4_store_find_record (total_sha demo_hash) j 65 (jr_sequence j) = Inl ERROR_NOT_FOUND"
    using find_in_journal [OF demo_contract j, of 65 "jr_sequence j"] j by (simp add: journal_ok_def)
  have "length (jr_file j) = 24 + 53"
    using j(1) next_bytes_length [OF demo_contract, of "[]" "(64, [7])"] contractD(2) [OF demo_contract]
      disk_of_snoc [of demo_hash demo_guid "[]" "(64, [7])"]
    by (simp add: journal_ok_def disk_of_def)
  then have "jr_end j + FRAME_SIZE + 112 + 4 \<le> JOURNAL_LIMIT" using j(1) by (simp add: journal_ok_def)
  moreover have long: "length (state_body demo_wanted @ replicate 32 0) = 112"
    using body_length [of demo_wanted] by (simp add: demo_wanted_def wanted_state_def)
  ultimately obtain n j0 where ap: "l4_journal_append (total_sha demo_hash) None 65
      (state_body demo_wanted @ replicate 32 0) j = (Inr n, j0)"
    using append_ok [OF demo_contract j, of 65 "state_body demo_wanted @ replicate 32 0"]
    by (fastforce simp: rec_ok_def)
  have "state_zero \<noteq> demo_wanted" by (simp add: state_zero_def demo_wanted_def wanted_state_def)
  moreover have "transition_refused 5 0 state_zero demo_wanted = None"
    by (simp add: transition_refused_def state_zero_def demo_wanted_def wanted_state_def)
  ultimately have "publish_rest (total_sha demo_hash) demo_ideal 0 state_zero demo_wanted (j, demo_file)
      = (Inr (), (j0, Some (state_body demo_wanted @ replicate 32 0)))"
    using none ap demo_wanted_valid
    by (simp add: publish_rest_def encode_total last_intent_def append_intent_def l4_update_state_replace_def)
  then show ?thesis
    using publish_unfold [where guid_text = demo_names, OF j(2) _ find _ _ demo_read, of 0 1 100 demo_text]
    by (simp add: call_ok_def demo_wanted_def)
qed


section \<open>Properties\<close>

text \<open>Provisioning never touches a file that exists.\<close>

lemma provision_fresh_only:
  assumes "l4_update_state_provision sha env (j, Some b) = (r, (j', c'))"
  shows "j' = j \<and> c' = Some b"
  using assms
  by (auto simp: l4_update_state_provision_def l4_update_state_read_def Let_def
      split: if_splits sum.splits option.splits state_error.splits)

text \<open>
  An intent that was recorded and never published stands in the way of every other transition: when
  the second window was recorded, the file not replaced and the deadline has passed, the operation
  can neither repeat that call nor close its first window, as long as the intent is the last record.
\<close>

lemma stale_intent_blocks_close:
  assumes k: "contract H guid" and j: "journal_ok H guid (recs @ [(65, state_body w2 @ H (state_body w2))]) j" "\<not> jr_poisoned j"
    and w2: "length (us_owner w2) = 40" "state_valid w2" "us_window w2 = 2"
    and call: "call_ok plan gen 0 0" "l4_store_find_record (total_sha H) j 64 plan = Inr p" "p \<noteq> []"
      "guid_text (drop 8 (jr_header j)) = Some t"
    and c: "l4_update_state_read (total_sha H) c = Inr before"
    and before: "us_window before = 1" "us_generation before = gen" "us_owner before = owner_of t"
      "us_plan_sequence before = plan"
  shows "l4_update_state_publish (total_sha H) guid_text env plan gen 0 0 (j, c) = (Inl State_Revision_Mismatch, (j, c))"
proof -
  define v where "v = wanted_state t plan gen 0 0"
  note H = contractD(1) [OF k]
  obtain b where b: "c = Some b" using c by (cases c) (auto simp: l4_update_state_read_def)
  have old: "b = state_body before @ H (state_body before)" "state_valid before"
    using encoded_read [OF c [unfolded b]] by simp_all
  have "owner_text_valid (owner_of t)" using old(2) before by (auto simp: state_valid_def split: if_splits)
  moreover have "gen + 1 \<noteq> 0" using call(1) by (simp add: call_ok_def add_eq_0_iff2)
  ultimately have v: "state_valid v" "length (us_owner v) = 40" "us_window v = 0"
    using call(1) by (simp_all add: v_def wanted_state_def state_valid_def call_ok_def)
  have apart: "state_body w2 @ H (state_body w2) \<noteq> state_body x @ H (state_body x)"
    if "state_valid x" "length (us_owner x) = 40" "us_window x \<noteq> 2" for x
  proof
    assume "state_body w2 @ H (state_body w2) = state_body x @ H (state_body x)"
    then have "Inr w2 = (Inr x :: state_error + L4UpdateState)"
      unfolding read_encoded [OF H w2(2,1), symmetric] read_encoded [OF H that(1,2), symmetric] by (rule arg_cong)
    then show False using w2(3) that(3) by simp
  qed
  have long: "length (state_body w2 @ H (state_body w2)) = 112" using body_length [OF w2(1)] H by simp
  have "unat (jr_sequence j) = length recs + 1"
    using last_record_number [OF k j(1)] by simp
  then have "l4_store_find_record (total_sha H) j 65 (jr_sequence j) = Inr (state_body w2 @ H (state_body w2))"
    using find_in_journal [OF k j, of 65 "jr_sequence j"] by simp
  then have "last_intent (total_sha H) j before (state_body v @ H (state_body v)) = Inl State_Revision_Mismatch"
    using apart [OF v(1,2)] apart [OF old(2)] before v(3) long
    by (simp add: last_intent_def encode_total old(2))
  moreover have "transition_refused (env_now env) gen before v = None"
    using before by (simp add: transition_refused_def v_def wanted_state_def)
  moreover have "before \<noteq> v" using before(1) v(3) by auto
  ultimately show ?thesis
    using publish_unfold [where guid_text = guid_text, OF j(2) call c] v(1)
    by (simp add: publish_rest_def encode_total v_def [symmetric])
qed

text \<open>
  C10: A call of \<open>l4_update_state_publish\<close> that was cut off anywhere (refused, torn at any byte of the
  journal record, or stopped before or after the file was replaced) and is repeated after the
  journal was opened again reaches exactly what the uninterrupted call would have reached: the same
  state file and the same journal, with one intent for the transition and never two.
\<close>

theorem publish_exactly_once:
  assumes "\<forall>x. length (H x) = 32" and "length guid = 16"
    and "journal_ok H guid recs j" and "\<not> jr_poisoned j"
    and "env_append ideal = None"
    and "l4_update_state_publish (total_sha H) guid_text ideal plan gen w dl (j, c) = (Inr (), (j0, c0))"
    and "l4_update_state_publish (total_sha H) guid_text env plan gen w dl (j, c) = (r, (j', c'))"
    and "l4_journal_open (total_sha H) True guid create (jr_file j') = Inr j''"
  shows "l4_update_state_publish (total_sha H) guid_text ideal plan gen w dl (j'', c') = (Inr (), (j0, c0))"
proof -
  have k: "contract H guid" using assms(1,2) by (simp add: contract_def)
  note j = assms(3,4)
  obtain p t before where call: "call_ok plan gen w dl" "l4_store_find_record (total_sha H) j 64 plan = Inr p"
    "p \<noteq> []" "guid_text (drop 8 (jr_header j)) = Some t" and b: "l4_update_state_read (total_sha H) c = Inr before"
    using publish_success [OF assms(6)] by blast
  note rest = publish_unfold [where guid_text = guid_text, OF j(2) call b]
  have v: "length (us_owner (wanted_state t plan gen w dl)) = 40" by (simp add: wanted_state_def)
  obtain b' rs where again: "journal_ok H guid (recs @ rs) j''" "\<not> jr_poisoned j''"
    "l4_update_state_read (total_sha H) c' = Inr b'"
    "publish_rest (total_sha H) ideal gen b' (wanted_state t plan gen w dl) (j'', c') = (Inr (), (j0, c0))"
    using interrupted_rest [OF k j v b assms(5) _ _ assms(8)] assms(6,7) unfolding rest by blast
  show ?thesis
    using publish_later [where guid_text = guid_text, OF k j call again(1-3)] again(4) by simp
qed

theorem publish_exactly_once_witness:
  "\<exists>j j0 c0 r j' c' j''. journal_ok demo_hash demo_guid [(64, [7])] j \<and> \<not> jr_poisoned j
     \<and> l4_update_state_publish (total_sha demo_hash) demo_names demo_ideal 1 0 1 100 (j, demo_file) = (Inr (), (j0, c0))
     \<and> l4_update_state_publish (total_sha demo_hash) demo_names demo_cut 1 0 1 100 (j, demo_file) = (r, (j', c'))
     \<and> l4_journal_open (total_sha demo_hash) True demo_guid True (jr_file j') = Inr j''
     \<and> l4_update_state_publish (total_sha demo_hash) demo_names demo_ideal 1 0 1 100 (j'', c') = (Inr (), (j0, c0))"
proof -
  obtain j where j: "journal_ok demo_hash demo_guid [(64, [7])] j" "\<not> jr_poisoned j" using demo_planned by blast
  obtain j0 c0 where ideal:
    "l4_update_state_publish (total_sha demo_hash) demo_names demo_ideal 1 0 1 100 (j, demo_file) = (Inr (), (j0, c0))"
    using demo_publish [OF j] by blast
  obtain r j' c' where cut:
    "l4_update_state_publish (total_sha demo_hash) demo_names demo_cut 1 0 1 100 (j, demo_file) = (r, (j', c'))"
    using prod_cases3 by blast
  obtain j'' where re: "l4_journal_open (total_sha demo_hash) True demo_guid True (jr_file j') = Inr j''"
    using publish_reopens [OF demo_contract j cut] by blast
  have "\<forall>x. length (demo_hash x) = 32" "length demo_guid = 16" "env_append demo_ideal = None" by simp_all
  from publish_exactly_once [OF this(1,2) j this(3) ideal cut re] show ?thesis
    using j ideal cut re by blast
qed

text \<open>
  C11: The protocol of publication. A successful call leaves exactly the requested state on file, and
  comes from the same state or by one of the three transitions (open a window, go from the first to
  the second, close one's own). A call that fails leaves the file as it was.
\<close>

theorem publish_follows_protocol:
  assumes "\<forall>x. length (H x) = 32"
    and "l4_update_state_publish (total_sha H) guid_text env plan gen w dl (j, c) = (r, (j', c'))"
  shows "case r of
      Inl e \<Rightarrow> c' = c
    | Inr _ \<Rightarrow> \<exists>t before. guid_text (drop 8 (jr_header j)) = Some t
        \<and> l4_update_state_read (total_sha H) c = Inr before
        \<and> l4_update_state_read (total_sha H) c' = Inr (wanted_state t plan gen w dl)
        \<and> (before = wanted_state t plan gen w dl
           \<or> window_step (env_now env) before (wanted_state t plan gen w dl))"
proof (cases r)
  case (Inl e)
  then show ?thesis using publish_error_keeps [OF assms(2) [unfolded Inl]] by simp
next
  case (Inr x)
  obtain p t before where call: "\<not> jr_poisoned j" "call_ok plan gen w dl"
    "l4_store_find_record (total_sha H) j 64 plan = Inr p"
    "p \<noteq> []" "guid_text (drop 8 (jr_header j)) = Some t" "l4_update_state_read (total_sha H) c = Inr before"
    using publish_success [OF assms(2) [unfolded Inr]] by blast
  have "publish_rest (total_sha H) env gen before (wanted_state t plan gen w dl) (j, c) = (Inr x, (j', c'))"
    using assms(2) Inr publish_unfold [where guid_text = guid_text, OF call] by simp
  from publish_rest_result [OF assms(1) _ _ call(6) this] show ?thesis
    using call(5,6) Inr by (auto simp: wanted_state_def)
qed

theorem publish_follows_protocol_witness:
  "\<exists>j j0 c0. l4_update_state_publish (total_sha demo_hash) demo_names demo_ideal 1 0 1 100 (j, demo_file) = (Inr (), (j0, c0))
     \<and> l4_update_state_read (total_sha demo_hash) c0 = Inr demo_wanted \<and> window_step 5 state_zero demo_wanted"
proof -
  obtain j where j: "journal_ok demo_hash demo_guid [(64, [7])] j" "\<not> jr_poisoned j" using demo_planned by blast
  obtain j0 c0 where ideal:
    "l4_update_state_publish (total_sha demo_hash) demo_names demo_ideal 1 0 1 100 (j, demo_file) = (Inr (), (j0, c0))"
    using demo_publish [OF j] by blast
  have "state_zero \<noteq> demo_wanted" by (simp add: state_zero_def demo_wanted_def wanted_state_def)
  with publish_follows_protocol [OF _ ideal] show ?thesis
    using ideal demo_read by (auto simp: demo_wanted_def)
qed

text \<open>
  The file format. Reading what was encoded gives the state back, and a file that is read is the
  encoding of what was read: 112 bytes with the digest of their content, and no second spelling.
\<close>

theorem state_file_exact:
  assumes "\<forall>x. length (H x) = 32"
  shows "l4_update_state_read (total_sha H) (Some b) = Inr st \<longleftrightarrow>
     length (us_owner st) = 40 \<and> l4_update_state_encode (total_sha H) st = Inr b"
proof
  assume "l4_update_state_read (total_sha H) (Some b) = Inr st"
  from encoded_read [OF this] show "length (us_owner st) = 40 \<and> l4_update_state_encode (total_sha H) st = Inr b"
    by (simp add: encode_total)
next
  assume "length (us_owner st) = 40 \<and> l4_update_state_encode (total_sha H) st = Inr b"
  then show "l4_update_state_read (total_sha H) (Some b) = Inr st"
    using read_encoded [OF assms, of st] by (auto simp: encode_total split: if_splits)
qed

theorem state_file_exact_witness:
  "l4_update_state_read (total_sha demo_hash) (Some (state_body demo_wanted @ replicate 32 0)) = Inr demo_wanted"
  by (rule state_file_exact [THEN iffD2])
     (simp_all add: encode_total demo_wanted_valid, simp add: demo_wanted_def wanted_state_def)

text \<open>
  C12: The acknowledgement of an update. It is given only from a turn that held the lock while the
  expected state was on file, no work was running and the state was still the same afterwards, not
  cancelled and within both deadlines; and the call returns at the latest on the first turn that sees
  the end of its time.
\<close>

theorem drain_acknowledges:
  shows "(l4_update_consumer_drain (total_sha H) enabled want timeout start views = Some Drain_Success \<longrightarrow>
       (\<exists>v \<in> set views. \<not> dv_locked v \<and> \<not> dv_busy v \<and> \<not> dv_cancelled_after v
          \<and> l4_update_state_read (total_sha H) (dv_state v) = Inr want
          \<and> l4_update_state_read (total_sha H) (dv_state_again v) = Inr want
          \<and> dv_tick_after v < start + ucast timeout \<and> dv_utc_after v < us_deadline_utc want))
     \<and> ((\<exists>v \<in> set views. start + ucast timeout \<le> dv_tick v) \<longrightarrow>
         l4_update_consumer_drain (total_sha H) enabled want timeout start views \<noteq> None)"
  using drain_loop_success [of H want "start + ucast timeout" views]
    drain_loop_returns [of views "start + ucast timeout" "total_sha H" want]
  by (simp add: l4_update_consumer_drain_def)

theorem drain_acknowledges_witness:
  "let v = \<lparr>dv_cancelled = False, dv_tick = 10, dv_utc = 20, dv_locked = False,
            dv_state = Some (state_body demo_wanted @ replicate 32 0), dv_busy = False,
            dv_state_again = Some (state_body demo_wanted @ replicate 32 0), dv_cancelled_after = False,
            dv_tick_after = 11, dv_utc_after = 21, dv_cancelled_pause = False\<rparr> in
   l4_update_consumer_drain (total_sha demo_hash) True demo_wanted 1000 5 [v] = Some Drain_Success
   \<and> l4_update_state_read (total_sha demo_hash) (dv_state v) = Inr demo_wanted"
proof -
  let ?v = "\<lparr>dv_cancelled = False, dv_tick = 10, dv_utc = 20, dv_locked = False,
            dv_state = Some (state_body demo_wanted @ replicate 32 0), dv_busy = False,
            dv_state_again = Some (state_body demo_wanted @ replicate 32 0), dv_cancelled_after = False,
            dv_tick_after = 11, dv_utc_after = 21, dv_cancelled_pause = False\<rparr>"
  have "us_window demo_wanted = 1" "us_deadline_utc demo_wanted = 100"
    by (simp_all add: demo_wanted_def wanted_state_def)
  then have "l4_update_consumer_drain (total_sha demo_hash) True demo_wanted 1000 5 [?v] = Some Drain_Success"
    using demo_wanted_valid demo_read_wanted
    by (simp add: l4_update_consumer_drain_def drain_turn_def drain_check_def
        l4_update_consumer_read_def same_state_def)
  with drain_acknowledges [of demo_hash True demo_wanted 1000 5 "[?v]"] show ?thesis by simp
qed

end
