(* ===== verification/Update_Catalog.thy ===== *)
theory Update_Catalog
  imports Update_Journal
begin

text \<open>
  The catalog of releases of the updater, \<open>tools/l4common/catalog.c\<close>: resolving a requested version and
  searching a route of admitted transitions from the installed release to it. The arrays of the
  source have 24 places; an access outside what is initialised is the result \<open>Faulted\<close>. The search is
  shown to find a shortest route whenever there is one, and never to leave its arrays.
\<close>

section \<open>Definitions of the source\<close>

abbreviation L4_CATALOG_MAX_RELEASES :: nat where "L4_CATALOG_MAX_RELEASES \<equiv> 24"

record L4CatalogRelease =
  rl_version :: string
  rl_manifest_sha256 :: bytes
  rl_revoked :: bool

record L4CatalogTransition =
  tr_from :: nat
  tr_to :: nat
  tr_arch :: string
  tr_profile :: string
  tr_evidence :: bytes

text \<open>\<open>stable\<close> is \<open>None\<close> where the source has a negative number.\<close>

record L4Catalog =
  ct_revision :: u64
  ct_issued :: u64
  ct_expires :: u64
  ct_digest :: bytes
  ct_key_id :: bytes
  ct_stable :: "nat option"
  ct_releases :: "L4CatalogRelease list"
  ct_transitions :: "L4CatalogTransition list"

datatype 'a answer = Faulted | Failed store_error | Found 'a

definition find_release :: "L4Catalog \<Rightarrow> string \<Rightarrow> nat option" where
  "find_release c version =
     find (\<lambda>i. version = rl_version (ct_releases c ! i)) [0..<length (ct_releases c)]"

definition profile_char :: "char \<Rightarrow> bool" where
  "profile_char ch \<longleftrightarrow>
     (let b = of_char ch :: nat in 97 \<le> b \<and> b \<le> 122 \<or> 48 \<le> b \<and> b \<le> 57)"

definition profile_valid :: "string \<Rightarrow> bool" where
  "profile_valid profile \<longleftrightarrow>
     profile \<noteq> [] \<and> length profile < 64 \<and> profile_char (hd profile)
     \<and> list_all (\<lambda>ch. profile_char ch \<or> ch \<in> set ''_.-'') profile"

text \<open>The release that a request names.\<close>

definition requested_release :: "L4Catalog \<Rightarrow> string \<Rightarrow> nat option" where
  "requested_release c requested = (if requested = ''latest'' then ct_stable c else find_release c requested)"

definition l4_catalog_resolve :: "L4Catalog \<Rightarrow> string \<Rightarrow> L4CatalogRelease answer" where
  "l4_catalog_resolve c requested =
     (case requested_release c requested of
        None \<Rightarrow> Failed ERROR_NOT_FOUND
      | Some i \<Rightarrow>
          if length (ct_releases c) \<le> i then Faulted
          else if rl_revoked (ct_releases c ! i) then Failed ERROR_NOT_FOUND
          else Found (ct_releases c ! i))"

text \<open>The inner loop of the search, on the transitions that are left.\<close>

fun expand_loop :: "L4Catalog \<Rightarrow> string \<Rightarrow> string \<Rightarrow> nat \<Rightarrow> L4CatalogTransition list
    \<Rightarrow> nat option list \<times> nat list \<Rightarrow> (nat option list \<times> nat list) option" where
  "expand_loop c arch profile from [] st = Some st"
| "expand_loop c arch profile from (e # es) (parent, queue) =
     (if tr_from e = from \<and> tr_arch e = arch \<and> tr_profile e = profile
      then
        if length parent \<le> tr_to e then None
        else if \<not> rl_revoked (ct_releases c ! tr_to e) \<and> parent ! tr_to e = None
        then
          if L4_CATALOG_MAX_RELEASES \<le> length queue then None
          else expand_loop c arch profile from es (parent[tr_to e := Some from], queue @ [tr_to e])
        else expand_loop c arch profile from es (parent, queue)
      else expand_loop c arch profile from es (parent, queue))"

function search_loop :: "L4Catalog \<Rightarrow> string \<Rightarrow> string \<Rightarrow> nat \<Rightarrow> nat option list \<Rightarrow> nat list \<Rightarrow> nat
    \<Rightarrow> nat option list option" where
  "search_loop c arch profile target parent queue head =
     (if head < length queue \<and> parent ! target = None
      then
        if L4_CATALOG_MAX_RELEASES \<le> head then None
        else
          (case expand_loop c arch profile (queue ! head) (ct_transitions c) (parent, queue) of
             None \<Rightarrow> None
           | Some (parent, queue) \<Rightarrow> search_loop c arch profile target parent queue (head + 1))
      else Some parent)"
  by pat_completeness auto
termination
  by (relation "measure (\<lambda>(_, _, _, _, _, _, head). L4_CATALOG_MAX_RELEASES - head)") auto

declare search_loop.simps [simp del]

text \<open>The way back from the target.\<close>

function trace_loop :: "nat option list \<Rightarrow> nat \<Rightarrow> nat \<Rightarrow> nat list \<Rightarrow> nat list option" where
  "trace_loop parent start v reversed =
     (if v = start then Some reversed
      else if L4_CATALOG_MAX_RELEASES \<le> length reversed \<or> length parent \<le> v then None
      else
        (case parent ! v of
           None \<Rightarrow> None
         | Some u \<Rightarrow> trace_loop parent start u (reversed @ [v])))"
  by pat_completeness auto
termination
  by (relation "measure (\<lambda>(_, _, _, reversed). L4_CATALOG_MAX_RELEASES - length reversed)") auto

declare trace_loop.simps [simp del]

definition search_route :: "L4Catalog \<Rightarrow> string \<Rightarrow> string \<Rightarrow> nat \<Rightarrow> nat \<Rightarrow> L4CatalogRelease list answer" where
  "search_route c arch profile start target =
     (let parent = (replicate (length (ct_releases c)) None)[start := Some start] in
      case search_loop c arch profile target parent [start] 0 of
        None \<Rightarrow> Faulted
      | Some parent \<Rightarrow>
          if parent ! target = None then Failed ERROR_NOT_FOUND
          else
            (case trace_loop parent start target [] of
               None \<Rightarrow> Faulted
             | Some reversed \<Rightarrow> Found (map ((!) (ct_releases c)) (rev reversed))))"

definition l4_catalog_route :: "L4Catalog \<Rightarrow> string \<Rightarrow> bytes \<Rightarrow> string \<Rightarrow> string \<Rightarrow> string
    \<Rightarrow> L4CatalogRelease list answer" where
  "l4_catalog_route c current_version current_manifest requested arch profile =
     (if arch \<noteq> ''x86'' \<and> arch \<noteq> ''x64'' \<or> \<not> profile_valid profile then Failed ERROR_INVALID_PARAMETER
      else
        (case find_release c current_version of
           None \<Rightarrow> Failed ERROR_NOT_FOUND
         | Some start \<Rightarrow>
             (case requested_release c requested of
                None \<Rightarrow> Failed ERROR_NOT_FOUND
              | Some target \<Rightarrow>
                  if length (ct_releases c) \<le> target then Faulted
                  else if rl_revoked (ct_releases c ! target)
                    \<or> rl_manifest_sha256 (ct_releases c ! start) \<noteq> current_manifest
                  then Failed ERROR_NOT_FOUND
                  else search_route c arch profile start target)))"

section \<open>Routes\<close>

definition admits :: "L4Catalog \<Rightarrow> string \<Rightarrow> string \<Rightarrow> nat \<Rightarrow> nat \<Rightarrow> bool" where
  "admits c arch profile a b \<longleftrightarrow>
     (\<exists>e \<in> set (ct_transitions c). tr_from e = a \<and> tr_to e = b \<and> tr_arch e = arch \<and> tr_profile e = profile)
     \<and> \<not> rl_revoked (ct_releases c ! b)"

text \<open>A route lists the releases behind its first.\<close>

fun route_ok :: "L4Catalog \<Rightarrow> string \<Rightarrow> string \<Rightarrow> nat \<Rightarrow> nat list \<Rightarrow> nat \<Rightarrow> bool" where
  "route_ok c arch profile a [] b \<longleftrightarrow> a = b"
| "route_ok c arch profile a (x # p) b \<longleftrightarrow> admits c arch profile a x \<and> route_ok c arch profile x p b"

lemma route_ok_append:
  "route_ok c arch profile a (p @ q) b \<longleftrightarrow> (\<exists>m. route_ok c arch profile a p m \<and> route_ok c arch profile m q b)"
  by (induction p arbitrary: a) auto

text \<open>What the parser guarantees of a catalog.\<close>

definition catalog_wf :: "L4Catalog \<Rightarrow> bool" where
  "catalog_wf c \<longleftrightarrow>
     length (ct_releases c) \<le> L4_CATALOG_MAX_RELEASES
     \<and> (case ct_stable c of None \<Rightarrow> True | Some i \<Rightarrow> i < length (ct_releases c))
     \<and> list_all (\<lambda>e. tr_from e < length (ct_releases c) \<and> tr_to e < length (ct_releases c)) (ct_transitions c)"

lemma admits_bound: "catalog_wf c \<Longrightarrow> admits c arch profile a b \<Longrightarrow> b < length (ct_releases c)"
  by (auto simp: catalog_wf_def admits_def list_all_iff)

section \<open>The search\<close>

text \<open>
  The queue holds the releases found so far with their distance \<open>d\<close> from the start: in the order of
  their distances, each found from a parent one step nearer.
\<close>

definition found_tree :: "L4Catalog \<Rightarrow> string \<Rightarrow> string \<Rightarrow> nat \<Rightarrow> nat option list \<Rightarrow> nat list \<Rightarrow> (nat \<Rightarrow> nat) \<Rightarrow> bool" where
  "found_tree c arch profile start parent queue d \<longleftrightarrow>
     length parent = length (ct_releases c) \<and> distinct queue
     \<and> set queue = {v. v < length parent \<and> parent ! v \<noteq> None} \<and> start \<in> set queue \<and> d start = 0
     \<and> (\<forall>i < length queue. d (queue ! i) \<le> i)
     \<and> (\<forall>i j. i \<le> j \<longrightarrow> j < length queue \<longrightarrow> d (queue ! i) \<le> d (queue ! j))
     \<and> (\<forall>v \<in> set queue. v \<noteq> start \<longrightarrow>
          (\<exists>u \<in> set queue. parent ! v = Some u \<and> d v = Suc (d u) \<and> admits c arch profile u v))"

lemma found_treeD:
  assumes "found_tree c arch profile start parent queue d"
  shows "length parent = length (ct_releases c)" "distinct queue"
    "v \<in> set queue \<longleftrightarrow> v < length (ct_releases c) \<and> parent ! v \<noteq> None" "start \<in> set queue" "d start = 0"
    "i < length queue \<Longrightarrow> d (queue ! i) \<le> i"
    "i \<le> j \<Longrightarrow> j < length queue \<Longrightarrow> d (queue ! i) \<le> d (queue ! j)"
    "v \<in> set queue \<Longrightarrow> v \<noteq> start \<Longrightarrow>
       \<exists>u \<in> set queue. parent ! v = Some u \<and> d v = Suc (d u) \<and> admits c arch profile u v"
proof -
  note t = assms [unfolded found_tree_def]
  show "length parent = length (ct_releases c)" "distinct queue" "d start = 0"
    "v \<in> set queue \<longleftrightarrow> v < length (ct_releases c) \<and> parent ! v \<noteq> None"
    using t by simp_all
  show "start \<in> set queue" using t by blast
  show "i < length queue \<Longrightarrow> d (queue ! i) \<le> i" using t by simp
  show "i \<le> j \<Longrightarrow> j < length queue \<Longrightarrow> d (queue ! i) \<le> d (queue ! j)" using t by simp
  show "v \<in> set queue \<Longrightarrow> v \<noteq> start \<Longrightarrow>
       \<exists>u \<in> set queue. parent ! v = Some u \<and> d v = Suc (d u) \<and> admits c arch profile u v"
    using t by blast
qed

lemma found_length:
  assumes "found_tree c arch profile start parent queue d"
  shows "length queue \<le> length (ct_releases c)"
proof -
  have "set queue \<subseteq> {v. v < length (ct_releases c)}" using found_treeD(3) [OF assms] by blast
  from card_mono [OF _ this] show ?thesis using distinct_card [OF found_treeD(2) [OF assms]] by simp
qed

text \<open>One more release is found from \<open>u\<close>.\<close>

lemma found_tree_push:
  assumes t: "found_tree c arch profile start parent queue d"
    and u: "head < length queue" "u = queue ! head"
    and near: "\<forall>v \<in> set queue. d v \<le> Suc (d u)"
    and v: "v < length parent" "parent ! v = None" "admits c arch profile u v"
  shows "found_tree c arch profile start (parent[v := Some u]) (queue @ [v]) (d(v := Suc (d u)))"
proof -
  note T = found_treeD [OF t]
  let ?d = "d(v := Suc (d u))" and ?q = "queue @ [v]" and ?p = "parent[v := Some u]"
  have new: "v \<notin> set queue" using T(3) v by blast
  have u_in: "u \<in> set queue" using u by simp
  have du: "d u \<le> head" using T(6) u by simp
  have keep: "?d (queue ! i) = d (queue ! i)" if "i < length queue" for i
    using nth_mem [OF that] new by auto
  have "w \<in> set ?q \<longleftrightarrow> w < length ?p \<and> ?p ! w \<noteq> None" for w
    using T(1) T(3) [of w] v(1) by (cases "w = v") auto
  then have "set ?q = {w. w < length ?p \<and> ?p ! w \<noteq> None}" by blast
  moreover have "?d (?q ! i) \<le> i" if "i < length ?q" for i
  proof (cases "i < length queue")
    case True
    then show ?thesis using keep T(6) by (simp add: nth_append)
  next
    case False
    then have "i = length queue" using that by simp
    then show ?thesis using du u(1) by (simp add: nth_append)
  qed
  moreover have "?d (?q ! i) \<le> ?d (?q ! j)" if "i \<le> j" "j < length ?q" for i j
  proof (cases "j < length queue")
    case True
    then show ?thesis using that keep T(7) by (simp add: nth_append)
  next
    case False
    then have "?d (?q ! j) = Suc (d u)" using that by (simp add: nth_append)
    moreover have "?d w \<le> Suc (d u)" if "w \<in> set ?q" for w using that near by auto
    ultimately show ?thesis using that nth_mem [of i ?q] by simp
  qed
  moreover have "\<exists>x \<in> set ?q. ?p ! w = Some x \<and> ?d w = Suc (?d x) \<and> admits c arch profile x w"
    if w: "w \<in> set ?q" "w \<noteq> start" for w
  proof (cases "w = v")
    case True
    then show ?thesis using u_in v new by (intro bexI [of _ u]) auto
  next
    case False
    then obtain x where "x \<in> set queue" "parent ! w = Some x" "d w = Suc (d x)" "admits c arch profile x w"
      using T(8) [of w] w by auto
    then show ?thesis using False new by (intro bexI [of _ x]) auto
  qed
  moreover have "distinct ?q" "start \<in> set ?q" "?d start = 0" "length ?p = length (ct_releases c)"
    using T(1,2,4,5) new by auto
  ultimately show ?thesis unfolding found_tree_def by blast
qed

text \<open>The inner loop finds every admitted successor.\<close>

lemma expand_finds:
  assumes "catalog_wf c" "set es \<subseteq> set (ct_transitions c)"
  shows "found_tree c arch profile start parent queue d \<Longrightarrow> head < length queue \<Longrightarrow> u = queue ! head \<Longrightarrow>
    \<forall>v \<in> set queue. d v \<le> Suc (d u) \<Longrightarrow>
    \<exists>parent' q d'. expand_loop c arch profile u es (parent, queue) = Some (parent', queue @ q)
      \<and> found_tree c arch profile start parent' (queue @ q) d'
      \<and> (\<forall>v \<in> set queue. d' v = d v) \<and> (\<forall>v \<in> set (queue @ q). d' v \<le> Suc (d' u))
      \<and> (\<forall>e \<in> set es. tr_from e = u \<and> tr_arch e = arch \<and> tr_profile e = profile \<and> \<not> rl_revoked (ct_releases c ! tr_to e)
           \<longrightarrow> tr_to e \<in> set (queue @ q))"
  using assms(2)
proof (induction es arbitrary: parent queue d)
  case Nil
  then show ?case by (intro exI [of _ parent] exI [of _ "[]"] exI [of _ d]) simp
next
  case (Cons e es)
  note T = found_treeD [OF Cons.prems(1)]
  have e: "tr_to e < length parent" using assms(1) Cons.prems(5) T(1) by (auto simp: catalog_wf_def list_all_iff)
  have sub: "set es \<subseteq> set (ct_transitions c)" using Cons.prems(5) by simp
  let ?takes = "tr_from e = u \<and> tr_arch e = arch \<and> tr_profile e = profile"
  show ?case
  proof (cases "?takes \<and> \<not> rl_revoked (ct_releases c ! tr_to e) \<and> parent ! tr_to e = None")
    case True
    define v where "v = tr_to e"
    have v: "v < length parent" "parent ! v = None" "admits c arch profile u v"
      using e True Cons.prems(5) by (auto simp: v_def admits_def)
    have new: "v \<notin> set queue" using T(3) v by blast
    note grown = found_tree_push [OF Cons.prems(1-4) v]
    have room: "length queue < L4_CATALOG_MAX_RELEASES"
      using found_length [OF grown] assms(1) by (simp add: catalog_wf_def)
    have u_in: "u \<in> set queue" "u \<noteq> v" using Cons.prems(2,3) new by auto
    have "head < length (queue @ [v])" "u = (queue @ [v]) ! head" using Cons.prems(2,3) by (simp_all add: nth_append)
    moreover have "\<forall>w \<in> set (queue @ [v]). (d(v := Suc (d u))) w \<le> Suc ((d(v := Suc (d u))) u)"
      using Cons.prems(4) u_in by auto
    ultimately obtain parent' q d' where r:
      "expand_loop c arch profile u es (parent[v := Some u], queue @ [v]) = Some (parent', (queue @ [v]) @ q)"
      "found_tree c arch profile start parent' ((queue @ [v]) @ q) d'"
      "\<forall>w \<in> set (queue @ [v]). d' w = (d(v := Suc (d u))) w" "\<forall>w \<in> set ((queue @ [v]) @ q). d' w \<le> Suc (d' u)"
      "\<forall>e \<in> set es. tr_from e = u \<and> tr_arch e = arch \<and> tr_profile e = profile \<and> \<not> rl_revoked (ct_releases c ! tr_to e)
           \<longrightarrow> tr_to e \<in> set ((queue @ [v]) @ q)"
      using Cons.IH [OF grown _ _ _ sub] by blast
    have "expand_loop c arch profile u (e # es) (parent, queue) = Some (parent', queue @ v # q)"
      using True e room r(1) by (simp add: v_def)
    then show ?thesis
      using r(2-5) new by (intro exI [of _ parent'] exI [of _ "v # q"] exI [of _ d']) (auto simp: v_def)
  next
    case False
    then have "expand_loop c arch profile u (e # es) (parent, queue) = expand_loop c arch profile u es (parent, queue)"
      using e by auto
    moreover have "tr_to e \<in> set queue" if "?takes" "\<not> rl_revoked (ct_releases c ! tr_to e)"
      using that False T(1) T(3) [of "tr_to e"] e by auto
    moreover obtain parent' q d' where "expand_loop c arch profile u es (parent, queue) = Some (parent', queue @ q)"
      "found_tree c arch profile start parent' (queue @ q) d'"
      "\<forall>v \<in> set queue. d' v = d v" "\<forall>v \<in> set (queue @ q). d' v \<le> Suc (d' u)"
      "\<forall>e \<in> set es. tr_from e = u \<and> tr_arch e = arch \<and> tr_profile e = profile \<and> \<not> rl_revoked (ct_releases c ! tr_to e)
           \<longrightarrow> tr_to e \<in> set (queue @ q)"
      using Cons.IH [OF Cons.prems(1-4) sub] by blast
    ultimately show ?thesis
      by (intro exI [of _ parent'] exI [of _ q] exI [of _ d']) auto
  qed
qed

text \<open>The releases before \<open>head\<close> are expanded: all their successors are found, one step further away.\<close>

definition search_inv :: "L4Catalog \<Rightarrow> string \<Rightarrow> string \<Rightarrow> nat \<Rightarrow> nat option list \<Rightarrow> nat list \<Rightarrow> nat \<Rightarrow> (nat \<Rightarrow> nat) \<Rightarrow> bool" where
  "search_inv c arch profile start parent queue head d \<longleftrightarrow>
     found_tree c arch profile start parent queue d \<and> head \<le> length queue
     \<and> (\<forall>i < head. \<forall>w. admits c arch profile (queue ! i) w \<longrightarrow> w \<in> set queue \<and> d w \<le> Suc (d (queue ! i)))
     \<and> (head < length queue \<longrightarrow> (\<forall>v \<in> set queue. d v \<le> Suc (d (queue ! head))))"

lemma search_inv_step:
  assumes wf: "catalog_wf c" and inv: "search_inv c arch profile start parent queue head d" and head: "head < length queue"
  shows "\<exists>parent' q d'. expand_loop c arch profile (queue ! head) (ct_transitions c) (parent, queue) = Some (parent', queue @ q)
    \<and> search_inv c arch profile start parent' (queue @ q) (Suc head) d'"
proof -
  let ?u = "queue ! head"
  have tree: "found_tree c arch profile start parent queue d" and near: "\<forall>v \<in> set queue. d v \<le> Suc (d ?u)"
    and expanded: "\<And>i w. i < head \<Longrightarrow> admits c arch profile (queue ! i) w \<Longrightarrow> w \<in> set queue \<and> d w \<le> Suc (d (queue ! i))"
    using inv head unfolding search_inv_def by blast+
  obtain parent' q d' where r:
    "expand_loop c arch profile ?u (ct_transitions c) (parent, queue) = Some (parent', queue @ q)"
    "found_tree c arch profile start parent' (queue @ q) d'"
    "\<forall>v \<in> set queue. d' v = d v" "\<forall>v \<in> set (queue @ q). d' v \<le> Suc (d' ?u)"
    "\<forall>e \<in> set (ct_transitions c). tr_from e = ?u \<and> tr_arch e = arch \<and> tr_profile e = profile
        \<and> \<not> rl_revoked (ct_releases c ! tr_to e) \<longrightarrow> tr_to e \<in> set (queue @ q)"
    using expand_finds [OF wf subset_refl tree head refl near] by blast
  have "w \<in> set (queue @ q) \<and> d' w \<le> Suc (d' ((queue @ q) ! i))"
    if i: "i < Suc head" and w: "admits c arch profile ((queue @ q) ! i) w" for i w
  proof (cases "i = head")
    case True
    then have "admits c arch profile ?u w" using w head by (simp add: nth_append)
    then have "w \<in> set (queue @ q)" using r(5) unfolding admits_def by blast
    then show ?thesis using r(4) True head by (simp add: nth_append)
  next
    case False
    then have "i < head" "(queue @ q) ! i = queue ! i" "queue ! i \<in> set queue" using i head by (simp_all add: nth_append)
    then show ?thesis using expanded [of i w] w r(3) by auto
  qed
  moreover have "d' v \<le> Suc (d' ((queue @ q) ! Suc head))" if "Suc head < length (queue @ q)" "v \<in> set (queue @ q)" for v
  proof -
    have "d' ((queue @ q) ! head) \<le> d' ((queue @ q) ! Suc head)" using found_treeD(7) [OF r(2)] that(1) by simp
    moreover have "d' v \<le> Suc (d' ((queue @ q) ! head))" using r(4) that(2) head by (simp add: nth_append)
    ultimately show ?thesis by simp
  qed
  ultimately have "search_inv c arch profile start parent' (queue @ q) (Suc head) d'"
    using r(2) head unfolding search_inv_def by auto
  then show ?thesis using r(1) by blast
qed

lemma search_exact:
  assumes "catalog_wf c" "target < length (ct_releases c)"
  shows "search_inv c arch profile start parent queue head d \<Longrightarrow> \<forall>i < head. queue ! i \<noteq> target \<Longrightarrow>
    \<exists>parent' queue' head' d'. search_loop c arch profile target parent queue head = Some parent'
      \<and> search_inv c arch profile start parent' queue' head' d' \<and> (\<forall>i < head'. queue' ! i \<noteq> target)
      \<and> (parent' ! target \<noteq> None \<or> head' = length queue')"
proof (induction "length (ct_releases c) - head" arbitrary: parent queue head d rule: less_induct)
  case less
  have tree: "found_tree c arch profile start parent queue d" and le: "head \<le> length queue"
    using less.prems(1) by (simp_all add: search_inv_def)
  show ?case
  proof (cases "head < length queue \<and> parent ! target = None")
    case True
    obtain parent' q d' where r:
      "expand_loop c arch profile (queue ! head) (ct_transitions c) (parent, queue) = Some (parent', queue @ q)"
      "search_inv c arch profile start parent' (queue @ q) (Suc head) d'"
      using search_inv_step [OF assms(1) less.prems(1)] True by blast
    have n: "head < length (ct_releases c)" "head < L4_CATALOG_MAX_RELEASES"
      using True found_length [OF tree] assms(1) by (simp_all add: catalog_wf_def)
    have "target \<notin> set queue" using True found_treeD(3) [OF tree] by blast
    then have "\<forall>i < Suc head. (queue @ q) ! i \<noteq> target"
      using True by (auto simp: nth_append)
    moreover have "length (ct_releases c) - Suc head < length (ct_releases c) - head" using n by simp
    moreover have "search_loop c arch profile target parent queue head
        = search_loop c arch profile target parent' (queue @ q) (Suc head)"
      using True n(2) r(1) by (subst search_loop.simps) simp
    ultimately show ?thesis using less.hyps r(2) by metis
  next
    case False
    then have "search_loop c arch profile target parent queue head = Some parent" by (subst search_loop.simps) auto
    then show ?thesis using less.prems False le by (intro exI [of _ parent] exI [of _ queue] exI [of _ head] exI [of _ d]) auto
  qed
qed

text \<open>A route leads to an expanded release, or passes one that still waits.\<close>

lemma route_meets_front:
  assumes inv: "search_inv c arch profile start parent queue head d"
  shows "route_ok c arch profile start p v \<Longrightarrow>
    (\<exists>i < head. queue ! i = v \<and> d v \<le> length p)
    \<or> (\<exists>j. head \<le> j \<and> j < length queue \<and> (queue ! j = v \<and> d v \<le> length p \<or> d (queue ! j) < length p))"
proof (induction p arbitrary: v rule: rev_induct)
  case Nil
  have "start \<in> set queue" "d start = 0" using inv found_treeD(4,5) unfolding search_inv_def by blast+
  then show ?case using Nil by (metis in_set_conv_nth le_numeral_extra(3) linorder_not_le list.size(3) route_ok.simps(1))
next
  case (snoc x p)
  obtain m where m: "route_ok c arch profile start p m" "admits c arch profile m v"
    using snoc.prems by (auto simp: route_ok_append)
  from snoc.IH [OF m(1)] show ?case
  proof (elim disjE exE conjE)
    fix i
    assume i: "i < head" "queue ! i = m" "d m \<le> length p"
    have "v \<in> set queue" "d v \<le> Suc (d m)" using inv m(2) i(1,2) unfolding search_inv_def by blast+
    then obtain j where "j < length queue" "queue ! j = v" "d v \<le> length (p @ [x])"
      using i(3) by (auto simp: in_set_conv_nth)
    then show ?thesis by (cases "j < head") (blast, intro disjI2 exI [of _ j], simp)
  next
    fix j
    assume "head \<le> j" "j < length queue" "queue ! j = m" "d m \<le> length p"
    then show ?thesis by (intro disjI2 exI [of _ j]) simp
  next
    fix j
    assume "head \<le> j" "j < length queue" "d (queue ! j) < length p"
    then show ?thesis by (intro disjI2 exI [of _ j]) simp
  qed
qed

lemma trace_follows:
  assumes tree: "found_tree c arch profile start parent queue d"
  shows "v \<in> set queue \<Longrightarrow> length reversed + d v \<le> L4_CATALOG_MAX_RELEASES \<Longrightarrow>
    \<exists>p. trace_loop parent start v reversed = Some (reversed @ rev p) \<and> route_ok c arch profile start p v \<and> length p = d v"
proof (induction "d v" arbitrary: v reversed)
  case 0
  then have "v = start" using found_treeD(8) [OF tree, of v] by auto
  then show ?case using 0 by (intro exI [of _ "[]"]) (simp add: trace_loop.simps)
next
  case (Suc k)
  have "v \<noteq> start" using Suc.hyps(2) found_treeD(5) [OF tree] by auto
  then obtain u where u: "u \<in> set queue" "parent ! v = Some u" "d v = Suc (d u)" "admits c arch profile u v"
    using found_treeD(8) [OF tree Suc.prems(1)] by blast
  have "v < length parent" using Suc.prems(1) found_treeD(1,3) [OF tree] by auto
  then have "trace_loop parent start v reversed = trace_loop parent start u (reversed @ [v])"
    using \<open>v \<noteq> start\<close> u(2,3) Suc.prems(2) by (subst trace_loop.simps) simp
  moreover obtain p where "trace_loop parent start u (reversed @ [v]) = Some ((reversed @ [v]) @ rev p)"
    "route_ok c arch profile start p u" "length p = d u"
    using Suc.hyps(1) [of u "reversed @ [v]"] Suc.hyps(2) u(1,3) Suc.prems(2) by auto
  ultimately show ?case using u(3,4) by (intro exI [of _ "p @ [v]"]) (auto simp: route_ok_append)
qed

lemma search_starts:
  assumes "start < length (ct_releases c)"
  shows "search_inv c arch profile start ((replicate (length (ct_releases c)) None)[start := Some start]) [start] 0 (\<lambda>_. 0)"
  using assms by (auto simp: search_inv_def found_tree_def nth_list_update)

text \<open>A found target is as near as every route to it.\<close>

lemma found_nearest:
  assumes inv: "search_inv c arch profile start parent queue head d"
    and target: "target \<in> set queue" "\<forall>i < head. queue ! i \<noteq> target" and q: "route_ok c arch profile start q target"
  shows "d target \<le> length q"
proof -
  have tree: "found_tree c arch profile start parent queue d" using inv by (simp add: search_inv_def)
  consider j where "queue ! j = target" "d target \<le> length q"
    | j where "head \<le> j" "j < length queue" "d (queue ! j) < length q"
    using route_meets_front [OF inv q] target(2) by blast
  then show ?thesis
  proof cases
    case (2 j)
    then have "d target \<le> Suc (d (queue ! head))" using inv target(1) by (auto simp: search_inv_def)
    moreover have "d (queue ! head) \<le> d (queue ! j)" using found_treeD(7) [OF tree] 2 by simp
    ultimately show ?thesis using 2 by simp
  qed
qed

lemma search_route_exact:
  assumes wf: "catalog_wf c" and bounds: "start < length (ct_releases c)" "target < length (ct_releases c)"
  shows "(\<exists>p. search_route c arch profile start target = Found (map ((!) (ct_releases c)) p)
        \<and> route_ok c arch profile start p target \<and> length p < L4_CATALOG_MAX_RELEASES
        \<and> (\<forall>q. route_ok c arch profile start q target \<longrightarrow> length p \<le> length q))
    \<or> search_route c arch profile start target = Failed ERROR_NOT_FOUND
        \<and> (\<forall>q. \<not> route_ok c arch profile start q target)"
proof -
  obtain parent queue head d where r:
    "search_loop c arch profile target ((replicate (length (ct_releases c)) None)[start := Some start]) [start] 0 = Some parent"
    and inv: "search_inv c arch profile start parent queue head d" and before: "\<forall>i < head. queue ! i \<noteq> target"
    and ends: "parent ! target \<noteq> None \<or> head = length queue"
    using search_exact [OF wf bounds(2) search_starts [OF bounds(1), of arch profile]] by blast
  have tree: "found_tree c arch profile start parent queue d" using inv by (simp add: search_inv_def)
  show ?thesis
  proof (cases "parent ! target = None")
    case True
    then have "target \<notin> set queue" using found_treeD(3) [OF tree] by blast
    then have "\<not> route_ok c arch profile start q target" for q
      using route_meets_front [OF inv, of q target] ends True before by auto
    then show ?thesis using r True by (simp add: search_route_def)
  next
    case False
    then have found: "target \<in> set queue" using found_treeD(3) [OF tree] bounds(2) by blast
    then obtain j where "j < length queue" "queue ! j = target" by (auto simp: in_set_conv_nth)
    then have small: "d target < L4_CATALOG_MAX_RELEASES"
      using found_treeD(6) [OF tree, of j] found_length [OF tree] wf by (auto simp: catalog_wf_def)
    obtain p where p: "trace_loop parent start target [] = Some ([] @ rev p)" "route_ok c arch profile start p target" "length p = d target"
      using trace_follows [OF tree found, of "[]"] small by auto
    have "search_route c arch profile start target = Found (map ((!) (ct_releases c)) p)"
      using r False p(1) by (simp add: search_route_def)
    then show ?thesis using p(2,3) small found_nearest [OF inv found before] by (intro disjI1 exI [of _ p]) simp
  qed
qed

lemma find_release_bound: "find_release c version = Some i \<Longrightarrow> i < length (ct_releases c)"
  by (auto simp: find_release_def find_Some_iff)

lemma requested_bound: "catalog_wf c \<Longrightarrow> requested_release c requested = Some i \<Longrightarrow> i < length (ct_releases c)"
  by (auto simp: requested_release_def catalog_wf_def dest: find_release_bound split: if_splits)

text \<open>What a request for a route asks for.\<close>

definition request_ok :: "string \<Rightarrow> string \<Rightarrow> bool" where
  "request_ok arch profile \<longleftrightarrow> (arch = ''x86'' \<or> arch = ''x64'') \<and> profile_valid profile"

definition endpoints :: "L4Catalog \<Rightarrow> string \<Rightarrow> bytes \<Rightarrow> string \<Rightarrow> nat \<Rightarrow> nat \<Rightarrow> bool" where
  "endpoints c version manifest requested start target \<longleftrightarrow>
     find_release c version = Some start \<and> rl_manifest_sha256 (ct_releases c ! start) = manifest
     \<and> requested_release c requested = Some target \<and> \<not> rl_revoked (ct_releases c ! target)"

lemma route_searches:
  assumes "catalog_wf c" "request_ok arch profile" "endpoints c version manifest requested start target"
  shows "l4_catalog_route c version manifest requested arch profile = search_route c arch profile start target"
    "start < length (ct_releases c)" "target < length (ct_releases c)"
  using assms
  by (auto simp: l4_catalog_route_def request_ok_def endpoints_def dest: requested_bound [OF assms(1)] find_release_bound)

lemma route_without_endpoints:
  assumes "catalog_wf c" "request_ok arch profile" "\<nexists>start target. endpoints c version manifest requested start target"
  shows "l4_catalog_route c version manifest requested arch profile = Failed ERROR_NOT_FOUND"
  using assms
  by (auto simp: l4_catalog_route_def request_ok_def endpoints_def split: option.splits dest: requested_bound [OF assms(1)])

lemma endpoints_unique:
  "endpoints c version manifest requested a b \<Longrightarrow> endpoints c version manifest requested a' b' \<Longrightarrow> a' = a \<and> b' = b"
  by (simp add: endpoints_def)


definition demo_catalog :: L4Catalog where
  "demo_catalog =
     \<lparr>ct_revision = 4, ct_issued = 10, ct_expires = 90, ct_digest = replicate 32 7, ct_key_id = replicate 64 97,
      ct_stable = Some 2,
      ct_releases =
        [\<lparr>rl_version = ''1.0.0'', rl_manifest_sha256 = replicate 32 1, rl_revoked = True\<rparr>,
         \<lparr>rl_version = ''1.1.0'', rl_manifest_sha256 = replicate 32 2, rl_revoked = False\<rparr>,
         \<lparr>rl_version = ''2.0.0'', rl_manifest_sha256 = replicate 32 3, rl_revoked = False\<rparr>],
      ct_transitions =
        [\<lparr>tr_from = 0, tr_to = 1, tr_arch = ''x64'', tr_profile = ''main'', tr_evidence = replicate 32 4\<rparr>,
         \<lparr>tr_from = 1, tr_to = 2, tr_arch = ''x64'', tr_profile = ''main'', tr_evidence = replicate 32 5\<rparr>]\<rparr>"

lemma demo_catalog_facts:
  "catalog_wf demo_catalog" "request_ok ''x64'' ''main''"
  "endpoints demo_catalog ''1.0.0'' (replicate 32 1) ''latest'' 0 2"
  "route_ok demo_catalog ''x64'' ''main'' 0 [1, 2] 2"
  by code_simp+

section \<open>Properties\<close>

text \<open>
  C14: The route of an update. For a catalog as the parser admits it and a valid request, the search
  finds a route whenever transitions of the architecture and the profile lead from the installed
  release to the requested one without entering a revoked release; the route it returns consists of
  such transitions, no route is shorter, and it has fewer than 24 steps.
\<close>

theorem catalog_route_shortest:
  assumes "catalog_wf c" "request_ok arch profile" "endpoints c version manifest requested start target"
    and "route_ok c arch profile start q target"
  shows "\<exists>p. l4_catalog_route c version manifest requested arch profile = Found (map ((!) (ct_releases c)) p)
    \<and> route_ok c arch profile start p target \<and> length p < L4_CATALOG_MAX_RELEASES \<and> length p \<le> length q"
  using search_route_exact [OF assms(1) route_searches(2,3) [OF assms(1-3)]] assms(4)
  unfolding route_searches(1) [OF assms(1-3)] by blast

theorem catalog_route_shortest_witness:
  "\<exists>p. l4_catalog_route demo_catalog ''1.0.0'' (replicate 32 1) ''latest'' ''x64'' ''main''
      = Found (map ((!) (ct_releases demo_catalog)) p)
    \<and> route_ok demo_catalog ''x64'' ''main'' 0 p 2 \<and> length p \<le> 2"
  using catalog_route_shortest [OF demo_catalog_facts] by auto

text \<open>
  C16: The errors of the search are exact. The arrays of the search are never left; the answer is an
  invalid parameter exactly when architecture or profile are not valid, and not found exactly when
  the request is valid and the installed release is not the one of the catalog, the requested release
  is unknown or revoked, or no route leads to it.
\<close>

theorem catalog_route_errors:
  assumes "catalog_wf c"
  shows "l4_catalog_route c version manifest requested arch profile \<noteq> Faulted
    \<and> (l4_catalog_route c version manifest requested arch profile = Failed ERROR_INVALID_PARAMETER
         \<longleftrightarrow> \<not> request_ok arch profile)
    \<and> (l4_catalog_route c version manifest requested arch profile = Failed ERROR_NOT_FOUND
         \<longleftrightarrow> request_ok arch profile
             \<and> (\<nexists>start target p. endpoints c version manifest requested start target \<and> route_ok c arch profile start p target))"
proof (cases "request_ok arch profile")
  case False
  then show ?thesis by (auto simp: l4_catalog_route_def request_ok_def)
next
  case ok: True
  show ?thesis
  proof (cases "\<exists>start target. endpoints c version manifest requested start target")
    case False
    then show ?thesis using route_without_endpoints [OF assms ok] ok by simp
  next
    case True
    then obtain a b where e: "endpoints c version manifest requested a b" by blast
    then have "(\<nexists>start target p. endpoints c version manifest requested start target \<and> route_ok c arch profile start p target)
        \<longleftrightarrow> (\<nexists>p. route_ok c arch profile a p b)" using endpoints_unique by blast
    then show ?thesis
      using ok search_route_exact [OF assms route_searches(2,3) [OF assms ok e], of arch profile] unfolding route_searches(1) [OF assms ok e] by auto
  qed
qed

theorem catalog_route_errors_witness:
  "l4_catalog_route demo_catalog ''1.0.0'' (replicate 32 1) ''latest'' ''arm'' ''main'' = Failed ERROR_INVALID_PARAMETER
   \<and> l4_catalog_route demo_catalog ''1.0.0'' (replicate 32 1) ''1.0.0'' ''x64'' ''main'' = Failed ERROR_NOT_FOUND"
proof -
  have "\<not> request_ok ''arm'' ''main''" by code_simp
  moreover have "\<not> endpoints demo_catalog ''1.0.0'' (replicate 32 1) ''1.0.0'' start target" for start target
  proof -
    have "requested_release demo_catalog ''1.0.0'' = Some 0" "rl_revoked (ct_releases demo_catalog ! 0)" by code_simp+
    then show ?thesis unfolding endpoints_def by (metis option.inject)
  qed
  ultimately show ?thesis
    using catalog_route_errors [OF demo_catalog_facts(1), of "''1.0.0''" "replicate 32 1" "''latest''" "''arm''" "''main''"]
      catalog_route_errors [OF demo_catalog_facts(1), of "''1.0.0''" "replicate 32 1" "''1.0.0''" "''x64''" "''main''"]
      demo_catalog_facts(2) by simp
qed

end
