(* ===== verification/Catalog_Floor.thy ===== *)
theory Catalog_Floor
  imports Update_Catalog
begin

text \<open>
  The floor below which no catalog is accepted again, \<open>tools/l4common/catalog_floor.c\<close>: a file of
  frames chained by a hash, each with the revision, the time and the digest of an accepted catalog.
  The file is a byte string or absent; SHA-256 is a parameter, and what the system answers to opening,
  checking and writing the file is an argument. The theorems state that acceptance never goes back,
  whatever fails, and that a healthy floor keeps accepting.
\<close>

section \<open>Definitions of the source\<close>

abbreviation FLOOR_HEADER :: nat where "FLOOR_HEADER \<equiv> 72"
abbreviation FLOOR_FRAME :: nat where "FLOOR_FRAME \<equiv> 80"
abbreviation FLOOR_LIMIT :: nat where "FLOOR_LIMIT \<equiv> 8388608"

record FloorState =
  fl_size :: nat
  fl_previous_hash :: bytes
  fl_last_digest :: bytes
  fl_revision :: u64
  fl_time :: u64

definition floor_header :: "bytes \<Rightarrow> bytes" where
  "floor_header key_id = map of_char ''L4CAT01'' @ [0] @ key_id"

text \<open>One frame of \<open>read_floor\<close>, and its loop on the bytes that are left.\<close>

definition floor_step :: "sha \<Rightarrow> bytes \<Rightarrow> FloorState \<Rightarrow> FloorState option" where
  "floor_step sha frm st =
     (case sha (take 48 frm @ fl_previous_hash st) of
        None \<Rightarrow> None
      | Some digest \<Rightarrow>
          let next_revision = l4_store_get64 frm; next_time = l4_store_get64 (drop 8 frm);
              catalog = take 32 (drop 16 frm) in
          if digest = drop 48 frm \<and> 0 < next_revision \<and> fl_revision st \<le> next_revision
            \<and> fl_time st \<le> next_time \<and> (next_revision \<noteq> fl_revision st \<or> catalog = fl_last_digest st)
          then Some (st\<lparr>fl_revision := next_revision, fl_time := next_time, fl_last_digest := catalog,
                        fl_previous_hash := digest\<rparr>)
          else None)"

function floor_loop :: "sha \<Rightarrow> bytes \<Rightarrow> FloorState \<Rightarrow> FloorState option" where
  "floor_loop sha frms st =
     (if frms = [] then Some st
      else if length frms < FLOOR_FRAME then None
      else
        (case floor_step sha (take FLOOR_FRAME frms) st of
           None \<Rightarrow> None
         | Some st \<Rightarrow> floor_loop sha (drop FLOOR_FRAME frms) st))"
  by pat_completeness auto
termination
  by (relation "measure (\<lambda>(_, frms, _). length frms)") auto

declare floor_loop.simps [simp del]

definition read_floor :: "sha \<Rightarrow> bytes \<Rightarrow> bytes \<Rightarrow> FloorState option" where
  "read_floor sha key_id bs =
     (if length key_id \<noteq> 64 then None
      else if length bs < FLOOR_HEADER \<or> FLOOR_LIMIT < length bs \<or> (length bs - FLOOR_HEADER) mod FLOOR_FRAME \<noteq> 0
        \<or> take FLOOR_HEADER bs \<noteq> floor_header key_id
      then None
      else
        (case sha (floor_header key_id) of
           None \<Rightarrow> None
         | Some hash \<Rightarrow>
             floor_loop sha (drop FLOOR_HEADER bs)
               \<lparr>fl_size = length bs, fl_previous_hash = hash, fl_last_digest = replicate 32 0,
                fl_revision = 0, fl_time = 0\<rparr>))"

text \<open>
  The answers of the system: whether the file could be opened or created, whether its checks passed,
  and for both writes \<open>None\<close> when all was written and flushed, or the bytes that reached the file.
\<close>

record floor_env =
  fe_open :: bool
  fe_checked :: bool
  fe_header :: "nat option"
  fe_frame :: "nat option"

text \<open>An invalid parameter, a revision mismatch, and every other error of the source.\<close>

datatype floor_answer = Accepted | Bad_request | Rolled_back | Unusable

definition floor_frame :: "L4Catalog \<Rightarrow> u64 \<Rightarrow> bytes" where
  "floor_frame c now = l4_store_u64 (ct_revision c) @ l4_store_u64 now @ ct_digest c"

text \<open>The second half of \<open>l4_catalog_accept\<close>: the file is open, its header is there.\<close>

definition accept_above :: "sha \<Rightarrow> floor_env \<Rightarrow> L4Catalog \<Rightarrow> u64 \<Rightarrow> bool \<Rightarrow> bytes
    \<Rightarrow> floor_answer \<times> bool \<times> bytes option" where
  "accept_above sha env c now poisoned bs =
     (case read_floor sha (ct_key_id c) bs of
        None \<Rightarrow> (Unusable, poisoned, Some bs)
      | Some st \<Rightarrow>
          if ct_revision c < fl_revision st \<or> now < fl_time st
            \<or> ct_revision c = fl_revision st \<and> ct_digest c \<noteq> fl_last_digest st
          then (Rolled_back, poisoned, Some bs)
          else if ct_revision c = fl_revision st \<and> now = fl_time st then (Accepted, poisoned, Some bs)
          else if FLOOR_LIMIT < fl_size st + FLOOR_FRAME then (Unusable, poisoned, Some bs)
          else
            (case sha (floor_frame c now @ fl_previous_hash st) of
               None \<Rightarrow> (Unusable, poisoned, Some bs)
             | Some hash \<Rightarrow>
                 (case fe_frame env of
                    None \<Rightarrow> (Accepted, poisoned, Some (bs @ floor_frame c now @ hash))
                  | Some n \<Rightarrow> (Unusable, True, Some (bs @ take n (floor_frame c now @ hash))))))"

definition l4_catalog_accept :: "sha \<Rightarrow> floor_env \<Rightarrow> L4Catalog \<Rightarrow> u64 \<Rightarrow> bool \<Rightarrow> bytes option
    \<Rightarrow> floor_answer \<times> bool \<times> bytes option" where
  "l4_catalog_accept sha env c now poisoned f =
     (if poisoned \<or> now = 0 \<or> now < ct_issued c \<or> ct_expires c \<le> now then (Bad_request, poisoned, f)
      else if \<not> fe_open env then (Unusable, poisoned, f)
      else if \<not> fe_checked env then (Unusable, poisoned, Some (case f of None \<Rightarrow> [] | Some bs \<Rightarrow> bs))
      else
        (case f of
           None \<Rightarrow>
             (case fe_header env of
                Some n \<Rightarrow> (Unusable, True, Some (take n (floor_header (ct_key_id c))))
              | None \<Rightarrow> accept_above sha env c now poisoned (floor_header (ct_key_id c)))
         | Some bs \<Rightarrow> accept_above sha env c now poisoned bs))"

section \<open>Reading the floor\<close>

text \<open>A later state is above an earlier one.\<close>

definition rises :: "u64 \<times> u64 \<times> bytes \<Rightarrow> u64 \<times> u64 \<times> bytes \<Rightarrow> bool" where
  "rises x y \<longleftrightarrow> (case x of (r, t, g) \<Rightarrow> case y of (r', t', g') \<Rightarrow> r \<le> r' \<and> t \<le> t' \<and> (r' = r \<longrightarrow> g' = g))"

definition floor_mark :: "FloorState \<Rightarrow> u64 \<times> u64 \<times> bytes" where
  "floor_mark st = (fl_revision st, fl_time st, fl_last_digest st)"

lemma rises_refl: "rises x x"
  by (auto simp: rises_def)

lemma rises_trans: "rises x y \<Longrightarrow> rises y z \<Longrightarrow> rises x z"
  by (auto simp: rises_def)

lemma floor_step_above: "floor_step sha frm st = Some st' \<Longrightarrow> rises (floor_mark st) (floor_mark st')"
  by (auto simp: floor_step_def Let_def rises_def floor_mark_def split: if_splits option.splits)

lemma floor_loop_above: "floor_loop sha frms st = Some st' \<Longrightarrow> rises (floor_mark st) (floor_mark st')"
proof (induction sha frms st rule: floor_loop.induct)
  case (1 sha frms st)
  show ?case
  proof (cases "frms = []")
    case True
    then show ?thesis using "1.prems" by (simp add: floor_loop.simps rises_refl)
  next
    case False
    then have long: "\<not> length frms < FLOOR_FRAME" using "1.prems" by (auto simp: floor_loop.simps)
    then obtain st1 where st1: "floor_step sha (take FLOOR_FRAME frms) st = Some st1"
      "floor_loop sha (drop FLOOR_FRAME frms) st1 = Some st'"
      using "1.prems" False by (auto simp: floor_loop.simps [of sha frms st] split: option.splits)
    from "1.IH" [OF False long this] floor_step_above [OF this(1)] show ?thesis by (rule rises_trans [rotated])
  qed
qed

lemma floor_loop_append:
  "FLOOR_FRAME dvd length a \<Longrightarrow> floor_loop sha (a @ b) st = Option.bind (floor_loop sha a st) (floor_loop sha b)"
proof (induction sha a st rule: floor_loop.induct)
  case (1 sha a st)
  show ?case
  proof (cases "a = []")
    case True
    then show ?thesis by (simp add: floor_loop.simps [of sha "[]"])
  next
    case False
    then have long: "FLOOR_FRAME \<le> length a" using "1.prems" by (auto dest: dvd_imp_le)
    then have "FLOOR_FRAME dvd length (drop FLOOR_FRAME a)" using "1.prems" by (simp add: dvd_diff_nat)
    then show ?thesis
      using False long "1.IH" unfolding floor_loop.simps [of sha "a @ b" st] floor_loop.simps [of sha a st]
      by (auto split: option.splits)
  qed
qed

lemma floor_step_size: "floor_step sha frm st = Some st' \<Longrightarrow> fl_size st' = fl_size st"
  by (auto simp: floor_step_def Let_def split: if_splits option.splits)

lemma floor_loop_size: "floor_loop sha frms st = Some st' \<Longrightarrow> fl_size st' = fl_size st"
proof (induction sha frms st rule: floor_loop.induct)
  case (1 sha frms st)
  then show ?case
    by (subst (asm) (2) floor_loop.simps) (auto dest: floor_step_size split: if_splits option.splits)
qed

text \<open>The size of the file is carried along and never looked at.\<close>

lemma floor_step_sized:
  "floor_step sha frm (st\<lparr>fl_size := n\<rparr>) = map_option (\<lambda>x. x\<lparr>fl_size := n\<rparr>) (floor_step sha frm st)"
  by (auto simp: floor_step_def Let_def split: option.split)

lemma floor_loop_sized:
  "floor_loop sha frms (st\<lparr>fl_size := n\<rparr>) = map_option (\<lambda>x. x\<lparr>fl_size := n\<rparr>) (floor_loop sha frms st)"
proof (induction sha frms st rule: floor_loop.induct)
  case (1 sha frms st)
  show ?case
    unfolding floor_loop.simps [of sha frms "st\<lparr>fl_size := n\<rparr>"] floor_loop.simps [of sha frms st] floor_step_sized
    using "1.IH" by (auto split: option.split)
qed

abbreviation floor_start :: "nat \<Rightarrow> bytes \<Rightarrow> FloorState" where
  "floor_start n hash \<equiv>
     \<lparr>fl_size = n, fl_previous_hash = hash, fl_last_digest = replicate 32 0, fl_revision = 0, fl_time = 0\<rparr>"

lemma read_floor_Some:
  "read_floor sha key bs = Some st \<longleftrightarrow>
     length key = 64 \<and> FLOOR_HEADER \<le> length bs \<and> length bs \<le> FLOOR_LIMIT \<and> FLOOR_FRAME dvd (length bs - FLOOR_HEADER)
     \<and> take FLOOR_HEADER bs = floor_header key
     \<and> (\<exists>h. sha (floor_header key) = Some h \<and> floor_loop sha (drop FLOOR_HEADER bs) (floor_start (length bs) h) = Some st)"
  by (auto simp: read_floor_def dvd_eq_mod_eq_0 split: option.splits)

lemma floor_header_inject: "floor_header a = floor_header b \<longleftrightarrow> a = b"
  by (simp add: floor_header_def)

lemma read_floor_append:
  assumes r: "read_floor sha key bs = Some st"
  shows "read_floor sha key' (bs @ x) = Some st' \<longleftrightarrow>
    key' = key \<and> length (bs @ x) \<le> FLOOR_LIMIT \<and> FLOOR_FRAME dvd length x
    \<and> floor_loop sha x (st\<lparr>fl_size := length (bs @ x)\<rparr>) = Some st'"
proof -
  obtain h where k: "length key = 64" "FLOOR_HEADER \<le> length bs" "FLOOR_FRAME dvd (length bs - FLOOR_HEADER)"
    "take FLOOR_HEADER bs = floor_header key" "sha (floor_header key) = Some h"
    "floor_loop sha (drop FLOOR_HEADER bs) (floor_start (length bs) h) = Some st"
    using r unfolding read_floor_Some by blast
  have size: "FLOOR_FRAME dvd (length (bs @ x) - FLOOR_HEADER) \<longleftrightarrow> FLOOR_FRAME dvd length x"
    using k(2,3) dvd_add_right_iff [OF k(3), of "length x"] by simp
  have "floor_start (length (bs @ x)) h = (floor_start (length bs) h)\<lparr>fl_size := length (bs @ x)\<rparr>" by simp
  then have loop: "floor_loop sha (drop FLOOR_HEADER bs @ x) (floor_start (length (bs @ x)) h)
      = floor_loop sha x (st\<lparr>fl_size := length (bs @ x)\<rparr>)"
    using k(3,6) floor_loop_append [of "drop FLOOR_HEADER bs" sha x] by (simp only: floor_loop_sized) simp
  have cut: "take FLOOR_HEADER (bs @ x) = floor_header key" "drop FLOOR_HEADER (bs @ x) = drop FLOOR_HEADER bs @ x"
    using k(2,4) by simp_all
  have "FLOOR_HEADER \<le> length (bs @ x)" using k(2) by simp
  then show ?thesis
    unfolding read_floor_Some size cut using k(1,5) loop by (cases "key' = key") (simp_all add: floor_header_inject)
qed

section \<open>Acceptance\<close>

definition catalog_mark :: "L4Catalog \<Rightarrow> u64 \<Rightarrow> u64 \<times> u64 \<times> bytes" where
  "catalog_mark c now = (ct_revision c, now, ct_digest c)"

definition catalog_sized :: "L4Catalog \<Rightarrow> bool" where
  "catalog_sized c \<longleftrightarrow> 0 < ct_revision c \<and> length (ct_digest c) = 32 \<and> length (ct_key_id c) = 64"

text \<open>A frame written for a catalog is read as that catalog.\<close>

lemma floor_step_frame:
  assumes "catalog_sized c" "sha (floor_frame c now @ fl_previous_hash st) = Some h" "rises (floor_mark st) (catalog_mark c now)"
  shows "floor_step sha (floor_frame c now @ h) st = Some (st\<lparr>fl_revision := ct_revision c, fl_time := now,
    fl_last_digest := ct_digest c, fl_previous_hash := h\<rparr>)"
proof -
  let ?f = "floor_frame c now @ h"
  have w: "length (l4_store_u64 v) = 8" for v by (simp add: store_u64_le u64le.put_width)
  have get: "l4_store_get64 (l4_store_u64 v @ t) = v" for v t
    using store_get64_le [of "l4_store_u64 v @ t"] by (simp add: store_u64_le u64le.get_put u64le.put_width)
  have len: "length (floor_frame c now) = 48" using assms(1) w by (simp add: floor_frame_def catalog_sized_def)
  have "l4_store_get64 ?f = ct_revision c" using get by (simp add: floor_frame_def)
  moreover have "drop 8 ?f = l4_store_u64 now @ ct_digest c @ h" using w by (simp add: floor_frame_def)
  moreover have "take 32 (drop 16 ?f) = ct_digest c"
    using w assms(1) by (simp add: floor_frame_def catalog_sized_def)
  moreover have "take 48 ?f = floor_frame c now" "drop 48 ?f = h" using len by simp_all
  ultimately show ?thesis
    using assms get by (auto simp: floor_step_def Let_def rises_def floor_mark_def catalog_mark_def catalog_sized_def)
qed

definition sha_sized :: "sha \<Rightarrow> bool" where
  "sha_sized sha \<longleftrightarrow> (\<forall>x h. sha x = Some h \<longrightarrow> length h = 32)"

lemma read_floor_frame:
  assumes c: "catalog_sized c" and "sha_sized sha" and r: "read_floor sha key bs = Some st"
    and h: "sha (floor_frame c now @ fl_previous_hash st) = Some h" "rises (floor_mark st) (catalog_mark c now)"
  shows "read_floor sha key' (bs @ floor_frame c now @ h) = Some st' \<longleftrightarrow>
    key' = key \<and> length bs + FLOOR_FRAME \<le> FLOOR_LIMIT \<and> st' = st\<lparr>fl_size := length bs + FLOOR_FRAME,
      fl_revision := ct_revision c, fl_time := now, fl_last_digest := ct_digest c, fl_previous_hash := h\<rparr>"
proof -
  have len: "length (floor_frame c now @ h) = FLOOR_FRAME"
    using assms(1,2) h(1) by (simp add: floor_frame_def catalog_sized_def sha_sized_def store_u64_le u64le.put_width)
  have step: "floor_step sha (floor_frame c now @ h) (st\<lparr>fl_size := length bs + FLOOR_FRAME\<rparr>)
      = Some (st\<lparr>fl_size := length bs + FLOOR_FRAME, fl_revision := ct_revision c, fl_time := now,
          fl_last_digest := ct_digest c, fl_previous_hash := h\<rparr>)"
    using floor_step_frame [OF c, of sha now "st\<lparr>fl_size := length bs + FLOOR_FRAME\<rparr>" h] h by (simp add: floor_mark_def)
  define x where "x = floor_frame c now @ h"
  have "floor_loop sha x (st\<lparr>fl_size := length bs + FLOOR_FRAME\<rparr>)
      = Some (st\<lparr>fl_size := length bs + FLOOR_FRAME, fl_revision := ct_revision c, fl_time := now,
          fl_last_digest := ct_digest c, fl_previous_hash := h\<rparr>)"
    using len step unfolding x_def [symmetric] by (subst floor_loop.simps) (auto simp: floor_loop.simps [of sha "[]"])
  then show ?thesis
    using read_floor_append [OF r, of key' x st'] len unfolding x_def [symmetric] by auto
qed

text \<open>The floor in a file, if it can be read at all, is not below a mark.\<close>

definition floor_holds :: "sha \<Rightarrow> bytes option \<Rightarrow> u64 \<times> u64 \<times> bytes \<Rightarrow> bool" where
  "floor_holds sha f m \<longleftrightarrow>
     (\<exists>bs. f = Some bs \<and> (\<forall>key st. read_floor sha key bs = Some st \<longrightarrow> rises m (floor_mark st)))"

lemma floor_holds_append:
  assumes "read_floor sha key bs = Some st" "rises m (floor_mark st)"
  shows "floor_holds sha (Some (bs @ x)) m"
proof -
  have "rises m (floor_mark st')" if "read_floor sha key' (bs @ x) = Some st'" for key' st'
  proof -
    have "floor_loop sha x (st\<lparr>fl_size := length (bs @ x)\<rparr>) = Some st'"
      using that read_floor_append [OF assms(1)] by blast
    from floor_loop_above [OF this] show ?thesis using assms(2) rises_trans by (fastforce simp: floor_mark_def)
  qed
  then show ?thesis by (simp add: floor_holds_def)
qed

lemma not_rolled_back:
  "\<not> (ct_revision c < fl_revision st \<or> now < fl_time st \<or> ct_revision c = fl_revision st \<and> ct_digest c \<noteq> fl_last_digest st)
   \<longleftrightarrow> rises (floor_mark st) (catalog_mark c now)"
  by (auto simp: rises_def floor_mark_def catalog_mark_def)

lemma read_floor_key: "read_floor sha key bs = Some st \<Longrightarrow> read_floor sha key' bs = Some st' \<Longrightarrow> key' = key \<and> st' = st"
  using floor_header_inject unfolding read_floor_Some by fastforce

text \<open>What an attempt on an existing file leaves behind: every mark stays, an accepted catalog is a mark.\<close>

lemma accept_above_keeps:
  assumes "accept_above sha env c now poisoned bs = (a, p, f)" "floor_holds sha (Some bs) m"
  shows "floor_holds sha f m"
proof (cases "f = Some bs")
  case True
  then show ?thesis using assms(2) by simp
next
  case False
  then obtain st x where "read_floor sha (ct_key_id c) bs = Some st" "f = Some (bs @ x)"
    using assms(1) by (auto simp: accept_above_def split: option.splits if_splits)
  moreover from this have "rises m (floor_mark st)" using assms(2) unfolding floor_holds_def by blast
  ultimately show ?thesis using floor_holds_append by simp
qed

lemma accept_above_marks:
  assumes sized: "catalog_sized c" "sha_sized sha"
    and r: "accept_above sha env c now poisoned bs = (Accepted, p, f)"
  shows "floor_holds sha f (catalog_mark c now)" "floor_holds sha (Some bs) m \<Longrightarrow> rises m (catalog_mark c now)"
proof -
  obtain st where st: "read_floor sha (ct_key_id c) bs = Some st" "rises (floor_mark st) (catalog_mark c now)"
    and cases: "f = Some bs \<and> ct_revision c = fl_revision st \<and> now = fl_time st
      \<or> (\<exists>h. sha (floor_frame c now @ fl_previous_hash st) = Some h \<and> f = Some (bs @ floor_frame c now @ h))"
    using r not_rolled_back [of c _ now]
    by (auto simp: accept_above_def split: option.splits if_splits)
  show "rises m (catalog_mark c now)" if "floor_holds sha (Some bs) m"
  proof -
    have "rises m (floor_mark st)" using that st(1) unfolding floor_holds_def by blast
    then show ?thesis using st(2) by (rule rises_trans)
  qed
  from cases show "floor_holds sha f (catalog_mark c now)"
  proof
    assume same: "f = Some bs \<and> ct_revision c = fl_revision st \<and> now = fl_time st"
    then have "catalog_mark c now = floor_mark st" using st(2) by (auto simp: rises_def floor_mark_def catalog_mark_def)
    moreover have "st' = st" if "read_floor sha key bs = Some st'" for key st' using read_floor_key [OF st(1) that] by simp
    ultimately show ?thesis using same rises_refl unfolding floor_holds_def by metis
  next
    assume "\<exists>h. sha (floor_frame c now @ fl_previous_hash st) = Some h \<and> f = Some (bs @ floor_frame c now @ h)"
    then obtain h where h: "sha (floor_frame c now @ fl_previous_hash st) = Some h" "f = Some (bs @ floor_frame c now @ h)"
      by blast
    have "floor_mark st' = catalog_mark c now" if "read_floor sha key (bs @ floor_frame c now @ h) = Some st'" for key st'
      using that read_floor_frame [OF sized st(1) h(1) st(2)] by (simp add: floor_mark_def catalog_mark_def)
    then show ?thesis using h(2) rises_refl unfolding floor_holds_def by metis
  qed
qed

lemma accept_keeps:
  assumes "l4_catalog_accept sha env c now poisoned f = (a, p, f')" "floor_holds sha f m"
  shows "floor_holds sha f' m"
proof -
  obtain bs where bs: "f = Some bs" using assms(2) by (auto simp: floor_holds_def)
  then show ?thesis
    using assms accept_above_keeps [of sha env c now poisoned bs a p f' m]
    by (auto simp: l4_catalog_accept_def split: if_splits)
qed

lemma accept_marks:
  assumes "catalog_sized c" "sha_sized sha" "l4_catalog_accept sha env c now poisoned f = (Accepted, p, f')"
  shows "floor_holds sha f' (catalog_mark c now)" "floor_holds sha f m \<Longrightarrow> rises m (catalog_mark c now)"
proof -
  obtain bs where bs: "accept_above sha env c now poisoned bs = (Accepted, p, f')" "f \<noteq> None \<longrightarrow> f = Some bs"
    using assms(3) by (auto simp: l4_catalog_accept_def split: if_splits option.splits)
  show "floor_holds sha f' (catalog_mark c now)" using accept_above_marks(1) [OF assms(1,2) bs(1)] .
  show "rises m (catalog_mark c now)" if "floor_holds sha f m"
  proof -
    have "f = Some bs" using that bs(2) by (auto simp: floor_holds_def)
    then show ?thesis using accept_above_marks(2) [OF assms(1,2) bs(1)] that by simp
  qed
qed

text \<open>The marks that a sequence of attempts acknowledges, each with its answers of the system.\<close>

fun floor_run :: "sha \<Rightarrow> (floor_env \<times> L4Catalog \<times> u64 \<times> bool) list \<Rightarrow> bytes option \<Rightarrow> (u64 \<times> u64 \<times> bytes) list" where
  "floor_run sha [] f = []"
| "floor_run sha ((env, c, now, poisoned) # attempts) f =
     (case l4_catalog_accept sha env c now poisoned f of
        (a, _, f') \<Rightarrow> (if a = Accepted then [catalog_mark c now] else []) @ floor_run sha attempts f')"

lemma floor_run_above:
  "sha_sized sha \<Longrightarrow> list_all (\<lambda>(_, c, _). catalog_sized c) attempts \<Longrightarrow> floor_holds sha f m \<Longrightarrow>
   \<forall>x \<in> set (floor_run sha attempts f). rises m x"
proof (induction sha attempts f rule: floor_run.induct)
  case (2 sha env c now poisoned attempts f)
  obtain a p f' where r: "l4_catalog_accept sha env c now poisoned f = (a, p, f')" by (metis prod_cases3)
  have "\<forall>x \<in> set (floor_run sha attempts f'). rises m x"
    using 2 r accept_keeps [OF r] by auto
  moreover have "rises m (catalog_mark c now)" if "a = Accepted"
    using accept_marks(2) [of c sha env now poisoned f p f' m] 2 r that by auto
  ultimately show ?case using r by auto
qed simp

lemma floor_run_sorted:
  "sha_sized sha \<Longrightarrow> list_all (\<lambda>(_, c, _). catalog_sized c) attempts \<Longrightarrow> sorted_wrt rises (floor_run sha attempts f)"
proof (induction sha attempts f rule: floor_run.induct)
  case (2 sha env c now poisoned attempts f)
  obtain a p f' where r: "l4_catalog_accept sha env c now poisoned f = (a, p, f')" by (metis prod_cases3)
  have rest: "sorted_wrt rises (floor_run sha attempts f')" using 2 r by auto
  have "\<forall>x \<in> set (floor_run sha attempts f'). rises (catalog_mark c now) x" if "a = Accepted"
    using floor_run_above [of sha attempts f'] accept_marks(1) [of c sha env now poisoned f p f'] 2 r that by auto
  then show ?case using r rest by simp
qed simp

text \<open>The floor that a file stands for: nothing was accepted when there is none.\<close>

definition floor_of :: "sha \<Rightarrow> bytes \<Rightarrow> bytes option \<Rightarrow> (u64 \<times> u64 \<times> bytes) option" where
  "floor_of sha key f =
     (case f of None \<Rightarrow> Some (0, 0, replicate 32 0) | Some bs \<Rightarrow> map_option floor_mark (read_floor sha key bs))"

lemma fresh_floor:
  assumes "length key = 64" "sha (floor_header key) = Some h"
  shows "read_floor sha key (floor_header key) = Some (floor_start FLOOR_HEADER h)"
  using assms unfolding read_floor_Some by (simp add: floor_header_def floor_loop.simps)

lemma read_floor_size: "read_floor sha key bs = Some st \<Longrightarrow> fl_size st = length bs"
  unfolding read_floor_Some by (auto dest: floor_loop_size)

lemma accept_above_exact:
  assumes sized: "catalog_sized c" "sha_sized sha" and sha: "\<forall>x. sha x \<noteq> None" and env: "fe_frame env = None"
    and st: "read_floor sha (ct_key_id c) bs = Some st" "length bs + FLOOR_FRAME \<le> FLOOR_LIMIT"
  shows "\<exists>bs'. accept_above sha env c now poisoned bs
      = (if rises (floor_mark st) (catalog_mark c now) then Accepted else Rolled_back, poisoned, Some bs')
    \<and> length bs' \<le> length bs + FLOOR_FRAME
    \<and> floor_of sha (ct_key_id c) (Some bs')
      = Some (if rises (floor_mark st) (catalog_mark c now) then catalog_mark c now else floor_mark st)"
proof (cases "rises (floor_mark st) (catalog_mark c now)")
  case False
  then show ?thesis
    using st(1) not_rolled_back [of c st now] by (auto simp: accept_above_def floor_of_def)
next
  case True
  note ok = True [folded not_rolled_back]
  show ?thesis
  proof (cases "ct_revision c = fl_revision st \<and> now = fl_time st")
    case same: True
    then have "floor_mark st = catalog_mark c now" using True by (auto simp: rises_def floor_mark_def catalog_mark_def)
    moreover have "accept_above sha env c now poisoned bs = (Accepted, poisoned, Some bs)"
      using same ok st(1) by (simp add: accept_above_def)
    ultimately show ?thesis using True st(1) by (simp add: floor_of_def)
  next
    case False
    obtain h where h: "sha (floor_frame c now @ fl_previous_hash st) = Some h" using sha by blast
    have "accept_above sha env c now poisoned bs = (Accepted, poisoned, Some (bs @ floor_frame c now @ h))"
      using False ok st read_floor_size [OF st(1)] h env by (auto simp: accept_above_def)
    moreover have "floor_of sha (ct_key_id c) (Some (bs @ floor_frame c now @ h)) = Some (catalog_mark c now)"
      using read_floor_frame [OF sized st(1) h True, of "ct_key_id c"] st(2)
      by (simp add: floor_of_def floor_mark_def catalog_mark_def)
    moreover have "length (floor_frame c now @ h) = FLOOR_FRAME"
      using sized h by (simp add: floor_frame_def catalog_sized_def sha_sized_def store_u64_le u64le.put_width)
    ultimately show ?thesis using True by simp
  qed
qed

definition healthy :: floor_env where
  "healthy = \<lparr>fe_open = True, fe_checked = True, fe_header = None, fe_frame = None\<rparr>"

lemma accept_healthy:
  assumes "catalog_sized c" "sha_sized sha" "\<forall>x. sha x \<noteq> None"
    and "env = healthy"
    and "now \<noteq> 0" "ct_issued c \<le> now" "now < ct_expires c"
    and "floor_of sha (ct_key_id c) f = Some m" "\<forall>bs. f = Some bs \<longrightarrow> length bs + FLOOR_FRAME \<le> FLOOR_LIMIT"
  shows "\<exists>bs'. l4_catalog_accept sha env c now False f
      = (if rises m (catalog_mark c now) then Accepted else Rolled_back, False, Some bs')
    \<and> length bs' \<le> (case f of None \<Rightarrow> FLOOR_HEADER | Some bs \<Rightarrow> length bs) + FLOOR_FRAME
    \<and> floor_of sha (ct_key_id c) (Some bs') = Some (if rises m (catalog_mark c now) then catalog_mark c now else m)"
proof (cases f)
  case None
  obtain h where h: "sha (floor_header (ct_key_id c)) = Some h" using assms(3) by blast
  have "length (ct_key_id c) = 64" using assms(1) by (simp add: catalog_sized_def)
  note fresh = fresh_floor [of "ct_key_id c" sha, OF this h]
  have header: "length (floor_header (ct_key_id c)) = FLOOR_HEADER" using assms(1) by (simp add: catalog_sized_def floor_header_def)
  then have "length (floor_header (ct_key_id c)) + FLOOR_FRAME \<le> FLOOR_LIMIT" by simp
  moreover have "m = floor_mark (floor_start FLOOR_HEADER h)" using assms(8) None by (simp add: floor_of_def floor_mark_def)
  moreover have "l4_catalog_accept sha env c now False f = accept_above sha env c now False (floor_header (ct_key_id c))"
    using assms(4-7) None by (auto simp: l4_catalog_accept_def healthy_def)
  ultimately show ?thesis
    using accept_above_exact [OF assms(1-3) _ fresh, of env now False] assms(4) None header
    by (simp only: floor_env.simps healthy_def option.case)
next
  case (Some bs)
  then obtain st where st: "read_floor sha (ct_key_id c) bs = Some st" "m = floor_mark st"
    using assms(8) by (auto simp: floor_of_def)
  have "l4_catalog_accept sha env c now False f = accept_above sha env c now False bs"
    using assms(4-7) Some by (auto simp: l4_catalog_accept_def healthy_def)
  then show ?thesis
    using accept_above_exact [OF assms(1-3) _ st(1), of env now False] assms(4,9) Some st(2)
    by (simp only: floor_env.simps healthy_def option.case)
qed

abbreviation demo_sha :: sha where "demo_sha \<equiv> (\<lambda>_. Some (replicate 32 0))"
abbreviation demo_next :: L4Catalog where "demo_next \<equiv> demo_catalog\<lparr>ct_revision := 5, ct_digest := replicate 32 9\<rparr>"

lemma demo_marks:
  "sha_sized demo_sha" "catalog_sized demo_catalog" "catalog_sized demo_next"
  "rises (0, 0, replicate 32 0) (catalog_mark demo_catalog 20)" "rises (catalog_mark demo_catalog 20) (catalog_mark demo_next 30)"
  by (simp_all add: sha_sized_def catalog_sized_def demo_catalog_def rises_def catalog_mark_def)

lemma demo_run:
  "floor_run demo_sha [(healthy, demo_catalog, 20, False), (healthy, demo_next, 30, False)] None
   = [(4, 20, replicate 32 7), (5, 30, replicate 32 9)]"
proof -
  obtain bs where first: "l4_catalog_accept demo_sha healthy demo_catalog 20 False None = (Accepted, False, Some bs)"
    "length bs \<le> FLOOR_HEADER + FLOOR_FRAME" "floor_of demo_sha (ct_key_id demo_catalog) (Some bs) = Some (catalog_mark demo_catalog 20)"
    using accept_healthy [OF demo_marks(2,1), of healthy 20 None "(0, 0, replicate 32 0)"] demo_marks(4)
    by (auto simp: floor_of_def demo_catalog_def)
  moreover obtain bs' where "l4_catalog_accept demo_sha healthy demo_next 30 False (Some bs) = (Accepted, False, Some bs')"
    using accept_healthy [OF demo_marks(3,1), of healthy 30 "Some bs" "catalog_mark demo_catalog 20"] first(2,3) demo_marks(5)
    by (auto simp: demo_catalog_def)
  ultimately show ?thesis by (simp add: catalog_mark_def demo_catalog_def)
qed

section \<open>Properties\<close>

text \<open>
  C15: Acceptance never goes back. Over any sequence of attempts to accept catalogs, from any file and
  with any failure of opening, checking or writing the file, also in the middle of a frame: of two
  acknowledged catalogs the later one has no lower revision and no earlier time, and two with the same
  revision have the same digest.
\<close>

theorem catalog_floor_never_falls:
  assumes "sha_sized sha" "list_all (\<lambda>(_, c, _). catalog_sized c) attempts"
    and "floor_run sha attempts f ! i = (r, t, g)" "floor_run sha attempts f ! j = (r', t', g')"
    and "i < j" "j < length (floor_run sha attempts f)"
  shows "r \<le> r' \<and> t \<le> t' \<and> (r' = r \<longrightarrow> g' = g)"
  using sorted_wrt_nth_less [OF floor_run_sorted [OF assms(1,2)] assms(5,6)] assms(3,4) by (simp add: rises_def)

theorem catalog_floor_never_falls_witness:
  "floor_run demo_sha [(healthy, demo_catalog, 20, False), (healthy, demo_next, 30, False)] None
     = [(4, 20, replicate 32 7), (5, 30, replicate 32 9)]
   \<and> (4 :: u64) \<le> 5 \<and> (20 :: u64) \<le> 30"
proof -
  let ?attempts = "[(healthy, demo_catalog, 20, False), (healthy, demo_next, 30, False)]"
  have "list_all (\<lambda>(_, c, _). catalog_sized c) ?attempts" using demo_marks(2,3) by simp
  then show ?thesis
    using catalog_floor_never_falls [OF demo_marks(1), of ?attempts None 0 4 20 "replicate 32 7" 1 5 30 "replicate 32 9"]
    by (simp add: demo_run del: floor_run.simps)
qed

text \<open>
  A healthy floor keeps working. When the file can be read, or there is none yet, and has room for
  one more frame, and the system answers without an error, a current catalog is accepted exactly when
  it is not below the floor and refused as a roll-back otherwise; afterwards the file is read as the
  accepted catalog, or as the floor it was.
\<close>

theorem catalog_accept_exact:
  assumes "catalog_sized c" "sha_sized sha" "\<forall>x. sha x \<noteq> None"
    and "env = healthy"
    and "now \<noteq> 0" "ct_issued c \<le> now" "now < ct_expires c"
    and "floor_of sha (ct_key_id c) f = Some m" "\<forall>bs. f = Some bs \<longrightarrow> length bs + FLOOR_FRAME \<le> FLOOR_LIMIT"
  shows "\<exists>f'. l4_catalog_accept sha env c now False f
      = (if rises m (catalog_mark c now) then Accepted else Rolled_back, False, f')
    \<and> floor_of sha (ct_key_id c) f' = Some (if rises m (catalog_mark c now) then catalog_mark c now else m)"
  using accept_healthy [OF assms] by blast

theorem catalog_accept_exact_witness:
  "\<exists>f'. l4_catalog_accept demo_sha healthy demo_catalog 20 False None = (Accepted, False, f')
    \<and> floor_of demo_sha (ct_key_id demo_catalog) f' = Some (catalog_mark demo_catalog 20)"
  using catalog_accept_exact [OF demo_marks(2,1), of healthy 20 None "(0, 0, replicate 32 0)"] demo_marks(4)
  by (simp add: floor_of_def demo_catalog_def)

end
