(* ===== verification/Release_Layout.thy ===== *)
theory Release_Layout
  imports L4_Prelude
begin

text \<open>
  The layout of directories of the updater, \<open>tools/l4common/layout.c\<close>: which paths are made from a root,
  a version, a component and a relative name, and which names are refused. A wide text is the list of
  its code units. The full path that the system computes for a text, and the directories of the
  installation, are parameters. The theorems state that every path stays below the directory it is
  made for, and that directories of programs and of data are apart.
\<close>

section \<open>Definitions of the source\<close>

type_synonym wtext = "u16 list"

abbreviation MAX_PATH :: nat where "MAX_PATH \<equiv> 260"

abbreviation BSLASH :: u16 where "BSLASH \<equiv> 0x5C"
abbreviation SLASH :: u16 where "SLASH \<equiv> 0x2F"
abbreviation DOT :: u16 where "DOT \<equiv> 0x2E"

definition wide :: "string \<Rightarrow> wtext" where
  "wide s = map of_char s"

definition fold_case :: "u16 \<Rightarrow> u16" where
  "fold_case ch = (if 0x41 \<le> ch \<and> ch \<le> 0x5A then ch + 0x20 else ch)"

text \<open>\<open>_wcsicmp\<close> and \<open>_wcsnicmp\<close> as tests for equality.\<close>

definition wcsicmp_eq :: "wtext \<Rightarrow> wtext \<Rightarrow> bool" where
  "wcsicmp_eq a b \<longleftrightarrow> map fold_case a = map fold_case b"

definition wcsnicmp_eq :: "wtext \<Rightarrow> wtext \<Rightarrow> nat \<Rightarrow> bool" where
  "wcsnicmp_eq a b n \<longleftrightarrow> wcsicmp_eq (take n a) (take n b)"

definition reserved_name :: "wtext \<Rightarrow> bool" where
  "reserved_name segment =
     (let stem = length (takeWhile (\<lambda>ch. ch \<noteq> DOT) segment) in
      if stem = 3 \<and> (wcsnicmp_eq segment (wide ''CON'') 3 \<or> wcsnicmp_eq segment (wide ''PRN'') 3
           \<or> wcsnicmp_eq segment (wide ''AUX'') 3 \<or> wcsnicmp_eq segment (wide ''NUL'') 3) then True
      else if stem = 4 \<and> (wcsnicmp_eq segment (wide ''COM'') 3 \<or> wcsnicmp_eq segment (wide ''LPT'') 3)
           \<and> 0x31 \<le> segment ! 3 \<and> segment ! 3 \<le> 0x39 then True
      else stem = 6 \<and> wcsnicmp_eq segment (wide ''CONIN$'') 6 \<or> stem = 7 \<and> wcsnicmp_eq segment (wide ''CONOUT$'') 7)"

definition wdigit :: "u16 \<Rightarrow> bool" where
  "wdigit ch \<longleftrightarrow> 0x30 \<le> ch \<and> ch \<le> 0x39"

definition name_char :: "u16 \<Rightarrow> bool" where
  "name_char ch \<longleftrightarrow> 0x61 \<le> ch \<and> ch \<le> 0x7A \<or> 0x41 \<le> ch \<and> ch \<le> 0x5A \<or> wdigit ch \<or> ch = 0x5F \<or> ch = 0x2D"

definition simple_name :: "wtext \<Rightarrow> bool" where
  "simple_name s =
     (if s = [] \<or> s = [DOT] \<or> s = [DOT, DOT] then False
      else if reserved_name s then False
      else list_all name_char s)"

text \<open>One part of a version, and the text behind it.\<close>

definition version_part :: "wtext \<Rightarrow> wtext option" where
  "version_part s =
     (let digits = takeWhile wdigit s in
      if digits = [] \<or> hd digits = 0x30 \<and> 1 < length digits \<or> 9 < length digits then None
      else Some (drop (length digits) s))"

definition after_dot :: "wtext \<Rightarrow> wtext option" where
  "after_dot s = (case s of [] \<Rightarrow> None | ch # rest \<Rightarrow> if ch = DOT then Some rest else None)"

definition release_version :: "wtext \<Rightarrow> bool" where
  "release_version s \<longleftrightarrow>
     Option.bind (Option.bind (Option.bind (Option.bind (version_part s) after_dot) version_part) after_dot) version_part
     = Some []"

text \<open>The segments of a path, from the current one on; \<open>ok\<close> is the check at the end of a segment.\<close>

fun segment_loop :: "(u16 \<Rightarrow> bool) \<Rightarrow> (wtext \<Rightarrow> bool) \<Rightarrow> wtext \<Rightarrow> wtext \<Rightarrow> bool" where
  "segment_loop bad ok segment [] = ok segment"
| "segment_loop bad ok segment (ch # p) =
     (if bad ch then False
      else if ch = BSLASH then ok segment \<and> segment_loop bad ok [] p
      else segment_loop bad ok (segment @ [ch]) p)"

definition forbidden_char :: "u16 \<Rightarrow> bool" where
  "forbidden_char ch \<longleftrightarrow> ch \<in> set (wide ''/:'') \<or> ch = 0x22 \<or> ch \<in> set (wide ''<>|?*'') \<or> ch < 32"

definition root_segment :: "wtext \<Rightarrow> bool" where
  "root_segment segment \<longleftrightarrow>
     \<not> (segment = [] \<or> last segment = DOT \<or> last segment = 0x20 \<or> reserved_name segment)"

text \<open>\<open>full_path\<close>: \<open>GetFullPathNameW\<close>, where \<open>None\<close> is a failure or a path that does not fit.\<close>

definition absolute_root :: "(wtext \<Rightarrow> wtext option) \<Rightarrow> wtext \<Rightarrow> wtext option" where
  "absolute_root full_path s =
     (if MAX_PATH \<le> length s \<or> length s \<le> 3
        \<or> \<not> (0x41 \<le> s ! 0 \<and> s ! 0 \<le> 0x5A \<or> 0x61 \<le> s ! 0 \<and> s ! 0 \<le> 0x7A)
        \<or> s ! 1 \<noteq> 0x3A \<or> s ! 2 \<noteq> BSLASH then None
      else if \<not> segment_loop forbidden_char root_segment [] (drop 3 s) then None
      else
        (case full_path s of
           None \<Rightarrow> None
         | Some out \<Rightarrow> if out \<noteq> [] \<and> wcsicmp_eq s out then Some out else None))"

definition join :: "wtext \<Rightarrow> wtext \<Rightarrow> wtext option" where
  "join base leaf = (if MAX_PATH \<le> length base + 1 + length leaf then None else Some (base @ BSLASH # leaf))"

definition within :: "wtext \<Rightarrow> wtext \<Rightarrow> bool" where
  "within root path \<longleftrightarrow>
     length root \<le> length path \<and> wcsnicmp_eq root path (length root)
     \<and> (length path = length root \<or> path ! length root = BSLASH)"

record L4Layout =
  ly_binaries :: wtext
  ly_data :: wtext
  ly_release :: wtext
  ly_launchers :: wtext
  ly_config :: wtext
  ly_state :: wtext
  ly_logs :: wtext
  ly_operations :: wtext
  ly_cache :: wtext
  ly_staging :: wtext

definition l4_layout_from_roots :: "(wtext \<Rightarrow> wtext option) \<Rightarrow> wtext \<Rightarrow> wtext \<Rightarrow> wtext \<Rightarrow> L4Layout option" where
  "l4_layout_from_roots full_path binaries data version =
     (if \<not> release_version version then None
      else
        (case (absolute_root full_path binaries, absolute_root full_path data) of
           (Some binaries, Some data) \<Rightarrow>
             if within binaries data \<or> within data binaries then None
             else
               (case (join binaries (wide ''releases'' @ BSLASH # version), join binaries (wide ''bin''),
                      join data (wide ''config''), join data (wide ''state''), join data (wide ''logs''),
                      join data (wide ''update'' @ BSLASH # wide ''operations''),
                      join data (wide ''update'' @ BSLASH # wide ''cache''),
                      join data (wide ''update'' @ BSLASH # wide ''staging'')) of
                  (Some release, Some launchers, Some config, Some state, Some logs, Some operations,
                   Some cache, Some staging) \<Rightarrow>
                    Some \<lparr>ly_binaries = binaries, ly_data = data, ly_release = release, ly_launchers = launchers,
                          ly_config = config, ly_state = state, ly_logs = logs, ly_operations = operations,
                          ly_cache = cache, ly_staging = staging\<rparr>
                | _ \<Rightarrow> None)
         | _ \<Rightarrow> None))"

definition component_segment :: "wtext \<Rightarrow> bool" where
  "component_segment segment \<longleftrightarrow>
     \<not> (segment = [] \<or> last segment = DOT \<or> last segment = 0x20 \<or> reserved_name segment
        \<or> segment = [DOT] \<or> segment = [DOT, DOT])"

definition l4_layout_component :: "L4Layout \<Rightarrow> wtext \<Rightarrow> wtext \<Rightarrow> wtext option" where
  "l4_layout_component layout component relative_file =
     (if \<not> simple_name component \<or> relative_file = [] then None
      else if \<not> segment_loop (\<lambda>ch. ch \<noteq> BSLASH \<and> forbidden_char ch) component_segment [] relative_file then None
      else Option.bind (join (ly_release layout) component) (\<lambda>directory. join directory relative_file))"

datatype L4DataArea = L4_DATA_CONFIG | L4_DATA_STATE | L4_DATA_LOGS

definition area_directory :: "L4Layout \<Rightarrow> L4DataArea \<Rightarrow> wtext" where
  "area_directory system area =
     (case area of L4_DATA_CONFIG \<Rightarrow> ly_config system | L4_DATA_STATE \<Rightarrow> ly_state system | L4_DATA_LOGS \<Rightarrow> ly_logs system)"

text \<open>The layout whose release directory only serves to check a relative name.\<close>

definition validator :: L4Layout where
  "validator = \<lparr>ly_binaries = [], ly_data = [], ly_release = wide ''C:'' @ BSLASH # wide ''validation'', ly_launchers = [],
     ly_config = [], ly_state = [], ly_logs = [], ly_operations = [], ly_cache = [], ly_staging = []\<rparr>"

text \<open>\<open>system\<close>: the layout of the installation, \<open>l4_layout_resolve\<close> for version 0.0.0.\<close>

definition l4_runtime_path :: "(wtext \<Rightarrow> wtext option) \<Rightarrow> L4Layout option \<Rightarrow> wtext \<Rightarrow> L4DataArea \<Rightarrow> wtext \<Rightarrow> wtext
    \<Rightarrow> wtext option" where
  "l4_runtime_path full_path system_layout release area relative portable_relative =
     Option.bind (absolute_root full_path release) (\<lambda>canonical.
     Option.bind system_layout (\<lambda>system.
     Option.bind (join (ly_binaries system) (wide ''releases'')) (\<lambda>prefix.
       if within prefix canonical \<and> (length canonical = length prefix
            \<or> \<not> release_version (drop (length prefix + 1) canonical)) then None
       else
         let (directory, leaf) =
           (if within prefix canonical then (area_directory system area, relative) else (canonical, portable_relative)) in
         Option.bind (l4_layout_component validator (wide ''data'') leaf) (\<lambda>_. join directory leaf))))"

text \<open>The text before the last backslash and the text behind it.\<close>

definition split_last :: "wtext \<Rightarrow> (wtext \<times> wtext) option" where
  "split_last p =
     (if BSLASH \<in> set p
      then Some (rev (tl (dropWhile (\<lambda>ch. ch \<noteq> BSLASH) (rev p))), rev (takeWhile (\<lambda>ch. ch \<noteq> BSLASH) (rev p)))
      else None)"

text \<open>A directory of the architecture, or \<open>bin\<close>, is left out of the path.\<close>

definition strip_leaf :: "string list \<Rightarrow> wtext \<Rightarrow> wtext" where
  "strip_leaf names dir =
     (case split_last dir of
        Some (parent, leaf) \<Rightarrow> if \<exists>n \<in> set names. wcsicmp_eq leaf (wide n) then parent else dir
      | None \<Rightarrow> dir)"

definition l4_runtime_release_from_exe :: "(wtext \<Rightarrow> wtext option) \<Rightarrow> L4Layout option \<Rightarrow> wtext \<Rightarrow> wtext
    \<Rightarrow> (wtext \<times> bool) option" where
  "l4_runtime_release_from_exe full_path system_layout exe component =
     (if \<not> simple_name component then None
      else
        Option.bind (absolute_root full_path exe) (\<lambda>canonical.
        Option.bind (split_last canonical) (\<lambda>(dir, _).
          if length dir \<le> 2 then None
          else
            Option.bind (split_last (strip_leaf [''bin''] (strip_leaf [''x86'', ''x64''] dir))) (\<lambda>(release, leaf).
              if \<not> wcsicmp_eq leaf component then None
              else
                Option.bind system_layout (\<lambda>system.
                Option.bind (join (ly_binaries system) (wide ''releases'')) (\<lambda>prefix.
                  if within prefix release \<and> (length release = length prefix
                       \<or> \<not> release_version (drop (length prefix + 1) release)) then None
                  else Some (release, within prefix release)))))))"

definition l4_runtime_exe_path :: "(wtext \<Rightarrow> wtext option) \<Rightarrow> L4Layout option \<Rightarrow> wtext \<Rightarrow> wtext \<Rightarrow> L4DataArea
    \<Rightarrow> wtext \<Rightarrow> wtext \<Rightarrow> wtext option" where
  "l4_runtime_exe_path full_path system_layout exe component area relative portable_relative =
     Option.bind (l4_runtime_release_from_exe full_path system_layout exe component) (\<lambda>(release, installed).
       if installed then l4_runtime_path full_path system_layout release area relative portable_relative
       else
         Option.bind (split_last exe) (\<lambda>(directory, _).
           l4_runtime_path full_path system_layout directory area relative portable_relative))"

definition l4_layout_data_path :: "(wtext \<Rightarrow> wtext option) \<Rightarrow> L4Layout \<Rightarrow> wtext \<Rightarrow> wtext option" where
  "l4_layout_data_path full_path layout relative =
     Option.bind (split_last (ly_release layout)) (\<lambda>(_, version).
       if l4_layout_from_roots full_path (ly_binaries layout) (ly_data layout) version \<noteq> Some layout then None
       else Option.bind (l4_layout_component validator (wide ''data'') relative) (\<lambda>_. join (ly_data layout) relative))"

section \<open>Segments\<close>

text \<open>
  The segments of a path as the system sees them, which separates at both kinds of slash, and what
  is left of them when it resolves the names with dots.
\<close>

fun segments_of :: "wtext \<Rightarrow> wtext \<Rightarrow> wtext list" where
  "segments_of seg [] = [seg]"
| "segments_of seg (ch # p) = (if ch = BSLASH \<or> ch = SLASH then seg # segments_of [] p else segments_of (seg @ [ch]) p)"

fun resolve_dots :: "wtext list \<Rightarrow> wtext list \<Rightarrow> wtext list" where
  "resolve_dots kept [] = kept"
| "resolve_dots kept (s # ss) =
     (if s = [] \<or> s = [DOT] then resolve_dots kept ss
      else if s = [DOT, DOT] then resolve_dots (butlast kept) ss
      else resolve_dots (kept @ [s]) ss)"

definition proper_segment :: "wtext \<Rightarrow> bool" where
  "proper_segment s \<longleftrightarrow> s \<noteq> [] \<and> last s \<noteq> DOT"

lemma resolve_proper: "list_all proper_segment ss \<Longrightarrow> resolve_dots kept ss = kept @ ss"
  by (induction kept ss rule: resolve_dots.induct) (auto simp: proper_segment_def)

text \<open>The loop separates at the backslash only; the slash is one of the characters it refuses.\<close>

lemma segment_loop_iff:
  assumes "bad SLASH"
  shows "segment_loop bad ok seg p \<longleftrightarrow> list_all ok (segments_of seg p) \<and> (\<forall>ch \<in> set p. \<not> bad ch)"
  using assms by (induction bad ok seg p rule: segment_loop.induct) auto

lemma slash_forbidden: "forbidden_char SLASH"
  by (simp add: forbidden_char_def wide_def)

lemmas root_loop_iff = segment_loop_iff [of forbidden_char, OF slash_forbidden]

lemma component_loop_iff:
  "segment_loop (\<lambda>ch. ch \<noteq> BSLASH \<and> forbidden_char ch) ok seg p \<longleftrightarrow>
     list_all ok (segments_of seg p) \<and> (\<forall>ch \<in> set p. \<not> (ch \<noteq> BSLASH \<and> forbidden_char ch))"
  by (rule segment_loop_iff) (simp add: slash_forbidden)

lemma segments_append: "segments_of seg (a @ BSLASH # b) = segments_of seg a @ segments_of [] b"
  by (induction seg a rule: segments_of.induct) auto

lemma segments_single: "BSLASH \<notin> set a \<Longrightarrow> SLASH \<notin> set a \<Longrightarrow> segments_of seg a = [seg @ a]"
  by (induction seg a rule: segments_of.induct) auto

lemma fold_case_special:
  "fold_case ch = BSLASH \<longleftrightarrow> ch = BSLASH" "fold_case ch = DOT \<longleftrightarrow> ch = DOT" "fold_case ch = SLASH \<longleftrightarrow> ch = SLASH"
proof -
  have cases: "fold_case ch = ch \<or> 0x61 \<le> fold_case ch \<and> fold_case ch \<le> 0x7A \<and> 0x41 \<le> ch \<and> ch \<le> 0x5A"
    unfolding fold_case_def word_le_nat_alt by (auto simp: unat_word_ariths)
  show "fold_case ch = BSLASH \<longleftrightarrow> ch = BSLASH" "fold_case ch = DOT \<longleftrightarrow> ch = DOT" "fold_case ch = SLASH \<longleftrightarrow> ch = SLASH"
    using cases by (auto simp: fold_case_def)
qed

lemma segments_fold: "map (map fold_case) (segments_of seg a) = segments_of (map fold_case seg) (map fold_case a)"
  by (induction seg a rule: segments_of.induct) (auto simp: fold_case_special)

lemma proper_fold: "proper_segment (map fold_case s) \<longleftrightarrow> proper_segment s"
  by (cases s rule: rev_cases) (auto simp: proper_segment_def fold_case_special)

lemma proper_nocase:
  assumes "wcsicmp_eq a b" "list_all proper_segment (segments_of [] a)"
  shows "list_all proper_segment (segments_of [] b)"
proof -
  have "map (map fold_case) (segments_of [] a) = map (map fold_case) (segments_of [] b)"
    using assms(1) segments_fold [of "[]" a] segments_fold [of "[]" b] by (simp add: wcsicmp_eq_def)
  then have "list_all proper_segment (map (map fold_case) (segments_of [] b))"
    using assms(2) by (metis (mono_tags, lifting) list.pred_mono_strong list_all_length length_map nth_map proper_fold)
  then show ?thesis by (simp add: list.pred_map comp_def proper_fold)
qed

lemma proper_checks: "root_segment s \<Longrightarrow> proper_segment s" "component_segment s \<Longrightarrow> proper_segment s"
  by (simp_all add: root_segment_def component_segment_def proper_segment_def)

lemma absolute_root_proper:
  assumes "absolute_root full_path s = Some out"
  shows "list_all proper_segment (segments_of [] out)" "out \<noteq> []"
proof -
  have len: "3 < length s" and colon: "s ! 1 = 0x3A" "s ! 2 = BSLASH"
    and loop: "segment_loop forbidden_char root_segment [] (drop 3 s)" and out: "wcsicmp_eq s out" "out \<noteq> []"
    and drive: "0x41 \<le> s ! 0 \<and> s ! 0 \<le> 0x5A \<or> 0x61 \<le> s ! 0 \<and> s ! 0 \<le> 0x7A"
    using assms unfolding absolute_root_def by (auto split: if_split_asm option.split_asm)
  show "out \<noteq> []" using out(2) .
  obtain x y z t where xyz: "s = x # y # z # t"
    using len by (cases s; cases "tl s"; cases "tl (tl s)") auto
  then have "s = [s ! 0, s ! 1] @ BSLASH # drop 3 s" using colon by (simp add: numeral_2_eq_2)
  then have "segments_of [] s = segments_of [] [s ! 0, s ! 1] @ segments_of [] (drop 3 s)"
    using segments_append [of "[]" "[s ! 0, s ! 1]" "drop 3 s"] by metis
  moreover have "segments_of [] [s ! 0, s ! 1] = [[s ! 0, s ! 1]]"
    using drive colon by (intro segments_single [of _ "[]", simplified]) auto
  moreover have "proper_segment [s ! 0, s ! 1]" using colon by (simp add: proper_segment_def)
  moreover have "list_all proper_segment (segments_of [] (drop 3 s))"
    using loop proper_checks(1) unfolding root_loop_iff by (auto simp: list_all_iff)
  ultimately have "list_all proper_segment (segments_of [] s)" by simp
  then show "list_all proper_segment (segments_of [] out)" using proper_nocase [OF out(1)] by blast
qed

section \<open>Directories\<close>

lemma join_Some: "join base leaf = Some p \<longleftrightarrow> p = base @ BSLASH # leaf \<and> length p < MAX_PATH"
  by (auto simp: join_def)

lemma within_append: "within a (a @ BSLASH # b)"
  by (simp add: within_def wcsnicmp_eq_def wcsicmp_eq_def nth_append)

text \<open>A path below one of two directories that are apart is not below the other.\<close>

lemma apart_below:
  assumes "\<not> within a b" "\<not> within b a"
  shows "\<not> within a (b @ BSLASH # x)"
proof
  assume w: "within a (b @ BSLASH # x)"
  let ?p = "b @ BSLASH # x"
  have same: "map fold_case a = map fold_case (take (length a) ?p)"
    using w by (simp add: within_def wcsnicmp_eq_def wcsicmp_eq_def)
  show False
  proof (cases "length a \<le> length b")
    case True
    then have "take (length a) ?p = take (length a) b" by simp
    moreover have "length b = length a \<or> b ! length a = BSLASH"
      using w True by (auto simp: within_def nth_append split: if_splits)
    ultimately have "within a b" using same True by (simp add: within_def wcsnicmp_eq_def wcsicmp_eq_def)
    then show False using assms(1) by simp
  next
    case False
    then have prefix: "take (length b) (map fold_case a) = map fold_case b"
      using same by (simp add: take_map)
    have "map fold_case a ! length b = fold_case BSLASH"
      using same False w by (simp add: within_def nth_append)
    moreover have "fold_case BSLASH = BSLASH" by (simp add: fold_case_special)
    ultimately have "a ! length b = BSLASH" using False fold_case_special(1) [of "a ! length b"] by simp
    then have "within b a"
      using False prefix by (simp add: within_def wcsnicmp_eq_def wcsicmp_eq_def take_map)
    then show False using assms(2) by simp
  qed
qed

lemma version_part_Some: "version_part s = Some r \<Longrightarrow> \<exists>ds. s = ds @ r \<and> ds \<noteq> [] \<and> list_all wdigit ds"
  by (rule exI [of _ "takeWhile wdigit s"])
     (auto simp: version_part_def Let_def list_all_iff simp flip: dropWhile_eq_drop dest: set_takeWhileD split: if_splits)

lemma after_dot_Some: "after_dot s = Some r \<Longrightarrow> s = DOT # r"
  by (auto simp: after_dot_def split: list.splits if_splits)

lemma release_version_form:
  assumes "release_version v"
  shows "\<forall>ch \<in> set v. wdigit ch \<or> ch = DOT" "proper_segment v" "BSLASH \<notin> set v" "SLASH \<notin> set v"
proof -
  obtain a b c where v: "v = a @ DOT # b @ DOT # c" "c \<noteq> []" and d: "list_all wdigit a" "list_all wdigit b" "list_all wdigit c"
    using assms unfolding release_version_def bind_eq_Some_conv
    by (auto dest!: version_part_Some after_dot_Some)
  then show chars: "\<forall>ch \<in> set v. wdigit ch \<or> ch = DOT" by (auto simp: list_all_iff)
  then show "BSLASH \<notin> set v" "SLASH \<notin> set v" by (auto simp: wdigit_def)
  have "wdigit (last c)" using d(3) v(2) by (simp add: list_all_iff)
  then show "proper_segment v" using v by (auto simp: proper_segment_def wdigit_def)
qed

lemma name_char_plain: "name_char ch \<Longrightarrow> ch \<noteq> DOT \<and> ch \<noteq> BSLASH \<and> ch \<noteq> SLASH \<and> ch \<noteq> 0x20 \<and> \<not> forbidden_char ch"
  by (auto simp: name_char_def wdigit_def forbidden_char_def wide_def word_less_nat_alt word_le_nat_alt)

lemma simple_name_form:
  assumes "simple_name n"
  shows "proper_segment n" "BSLASH \<notin> set n" "SLASH \<notin> set n" "last n \<noteq> 0x20" "\<not> reserved_name n"
    "\<forall>ch \<in> set n. \<not> forbidden_char ch"
proof -
  have n: "n \<noteq> []" "\<forall>ch \<in> set n. name_char ch" using assms by (auto simp: simple_name_def list_all_iff split: if_splits)
  then have "name_char (last n)" by simp
  then show "proper_segment n" using n(1) name_char_plain by (simp add: proper_segment_def)
  show "last n \<noteq> 0x20" using \<open>name_char (last n)\<close> name_char_plain by blast
  show "BSLASH \<notin> set n" "SLASH \<notin> set n" "\<forall>ch \<in> set n. \<not> forbidden_char ch" using n(2) name_char_plain by blast+
  show "\<not> reserved_name n" using assms by (auto simp: simple_name_def split: if_splits)
qed

lemma from_roots_Some:
  assumes "l4_layout_from_roots full_path binaries data version = Some L"
  shows "release_version version" "absolute_root full_path binaries = Some (ly_binaries L)"
    "absolute_root full_path data = Some (ly_data L)"
    "\<not> within (ly_binaries L) (ly_data L)" "\<not> within (ly_data L) (ly_binaries L)"
    "ly_release L = ly_binaries L @ BSLASH # wide ''releases'' @ BSLASH # version"
    "ly_launchers L = ly_binaries L @ BSLASH # wide ''bin''"
    "ly_config L = ly_data L @ BSLASH # wide ''config''" "ly_state L = ly_data L @ BSLASH # wide ''state''"
    "ly_logs L = ly_data L @ BSLASH # wide ''logs''" "\<exists>x. ly_operations L = ly_data L @ BSLASH # x"
    "\<exists>x. ly_cache L = ly_data L @ BSLASH # x" "\<exists>x. ly_staging L = ly_data L @ BSLASH # x"
  using assms unfolding l4_layout_from_roots_def
  by (auto simp: join_Some split: if_split_asm option.split_asm)

lemma component_Some:
  assumes "l4_layout_component L component relative = Some out"
  shows "out = ly_release L @ BSLASH # component @ BSLASH # relative" "length out < MAX_PATH" "simple_name component"
    "list_all component_segment (segments_of [] relative)" "\<forall>ch \<in> set relative. ch = BSLASH \<or> \<not> forbidden_char ch"
  using assms unfolding l4_layout_component_def bind_eq_Some_conv component_loop_iff
  by (auto simp: join_Some bind_eq_Some_conv split: if_split_asm)

lemma wide_segment: "list_all (\<lambda>ch. ch \<noteq> BSLASH \<and> ch \<noteq> SLASH \<and> ch \<noteq> DOT) (wide n) \<Longrightarrow> n \<noteq> [] \<Longrightarrow>
    segments_of [] (wide n) = [wide n] \<and> proper_segment (wide n)"
proof -
  assume n: "list_all (\<lambda>ch. ch \<noteq> BSLASH \<and> ch \<noteq> SLASH \<and> ch \<noteq> DOT) (wide n)" "n \<noteq> []"
  then have "BSLASH \<notin> set (wide n)" "SLASH \<notin> set (wide n)" "wide n \<noteq> []" by (auto simp: list_all_iff wide_def)
  then show ?thesis using n(1) segments_single [of "wide n" "[]"] last_in_set [of "wide n"]
    by (auto simp: list_all_iff proper_segment_def simp del: last_in_set)
qed

lemma release_segments:
  assumes "l4_layout_from_roots full_path binaries data version = Some L"
  shows "segments_of [] (ly_release L) = segments_of [] (ly_binaries L) @ [wide ''releases'', version]"
    "list_all proper_segment (segments_of [] (ly_release L))"
proof -
  note r = from_roots_Some [OF assms]
  have w: "segments_of [] (wide ''releases'') = [wide ''releases'']" "proper_segment (wide ''releases'')"
    using wide_segment [of "''releases''"] by (simp_all add: wide_def)
  show "segments_of [] (ly_release L) = segments_of [] (ly_binaries L) @ [wide ''releases'', version]"
    using r(6) w(1) release_version_form(3,4) [OF r(1)] by (simp add: segments_append segments_single)
  then show "list_all proper_segment (segments_of [] (ly_release L))"
    using w(2) release_version_form(2) [OF r(1)] absolute_root_proper(1) [OF r(2)] by simp
qed

text \<open>A relative name that was checked, below a directory without dots.\<close>

lemma checked_below:
  assumes "list_all component_segment (segments_of [] relative)" "list_all proper_segment (segments_of [] dir)"
  shows "resolve_dots [] (segments_of [] (dir @ BSLASH # relative)) = segments_of [] dir @ segments_of [] relative"
proof -
  have "list_all proper_segment (segments_of [] relative)" using assms(1) proper_checks(2) by (auto simp: list_all_iff)
  then show ?thesis using assms(2) by (subst segments_append) (simp add: resolve_proper)
qed

lemma digit_fold: "wdigit ch \<or> ch = DOT \<Longrightarrow> fold_case ch = ch"
  by (auto simp: fold_case_def wdigit_def word_le_nat_alt)

lemma version_fold: "release_version v \<Longrightarrow> map fold_case v = v"
  using release_version_form(1) digit_fold by (intro map_idI) blast

text \<open>Files of another version are not below the directory of a release.\<close>

lemma version_apart:
  assumes "release_version v" "release_version v'" "within (base @ BSLASH # v) (base @ BSLASH # v' @ BSLASH # x)"
  shows "v = v'"
proof -
  let ?t = "v' @ BSLASH # x"
  have len: "length v \<le> length ?t" and same: "map fold_case v = map fold_case (take (length v) ?t)"
    and behind: "length ?t = length v \<or> ?t ! length v = BSLASH"
    using assms(3) by (auto simp: within_def wcsnicmp_eq_def wcsicmp_eq_def nth_append)
  have no_slash: "BSLASH \<notin> set v" "BSLASH \<notin> set v'" using release_version_form(3) assms(1,2) by blast+
  consider "length v < length v'" | "length v = length v'" | "length v' < length v" by linarith
  then show ?thesis
  proof cases
    case 1
    then have "v' ! length v = BSLASH" using behind by (auto simp: nth_append)
    then show ?thesis using no_slash(2) 1 nth_mem by metis
  next
    case 2
    then show ?thesis using same version_fold [OF assms(1)] version_fold [OF assms(2)] by simp
  next
    case 3
    then have "map fold_case v ! length v' = fold_case BSLASH" using same len by (simp add: nth_append)
    then have "v ! length v' = BSLASH" using 3 fold_case_special(1) [of BSLASH] version_fold [OF assms(1)] by simp
    then show ?thesis using no_slash(1) 3 nth_mem by metis
  qed
qed

lemma area_segments:
  assumes "l4_layout_from_roots full_path binaries data version = Some S"
  shows "\<exists>x. area_directory S area = ly_data S @ BSLASH # x" "list_all proper_segment (segments_of [] (area_directory S area))"
proof -
  note r = from_roots_Some [OF assms]
  obtain n where n: "area_directory S area = ly_data S @ BSLASH # wide n" "n = ''config'' \<or> n = ''state'' \<or> n = ''logs''"
    using r(8-10) by (cases area) (auto simp: area_directory_def)
  have "segments_of [] (wide n) = [wide n]" "proper_segment (wide n)"
    using wide_segment [of n] n(2) by (auto simp: wide_def)
  then show "list_all proper_segment (segments_of [] (area_directory S area))"
    using n(1) absolute_root_proper(1) [OF r(3)] by (simp add: segments_append)
  show "\<exists>x. area_directory S area = ly_data S @ BSLASH # x" using n(1) by blast
qed

definition demo_full_path :: "wtext \<Rightarrow> wtext option" where
  "demo_full_path s = Some s"

abbreviation "demo_programs \<equiv> wide ''C:'' @ BSLASH # wide ''P''"
abbreviation "demo_data \<equiv> wide ''C:'' @ BSLASH # wide ''D''"

abbreviation "demo_release \<equiv> demo_programs @ BSLASH # wide ''releases'' @ BSLASH # wide ''1.2.3''"
abbreviation "demo_relative \<equiv> wide ''bin'' @ BSLASH # wide ''a.exe''"

definition demo_layout :: L4Layout where
  "demo_layout = \<lparr>ly_binaries = demo_programs, ly_data = demo_data, ly_release = demo_release,
     ly_launchers = demo_programs @ BSLASH # wide ''bin'', ly_config = demo_data @ BSLASH # wide ''config'',
     ly_state = demo_data @ BSLASH # wide ''state'', ly_logs = demo_data @ BSLASH # wide ''logs'',
     ly_operations = demo_data @ BSLASH # wide ''update'' @ BSLASH # wide ''operations'',
     ly_cache = demo_data @ BSLASH # wide ''update'' @ BSLASH # wide ''cache'',
     ly_staging = demo_data @ BSLASH # wide ''update'' @ BSLASH # wide ''staging''\<rparr>"

lemma demo_layout_made: "l4_layout_from_roots demo_full_path demo_programs demo_data (wide ''1.2.3'') = Some demo_layout"
  by code_simp

lemma demo_component_made:
  "l4_layout_component demo_layout (wide ''l4superv'') demo_relative
   = Some (demo_release @ BSLASH # wide ''l4superv'' @ BSLASH # demo_relative)"
  by code_simp

lemma demo_runtime_made:
  "l4_runtime_path demo_full_path (Some demo_layout) demo_release L4_DATA_LOGS (wide ''a.log'') (wide ''b.log'')
   = Some (demo_data @ BSLASH # wide ''logs'' @ BSLASH # wide ''a.log'')"
  by code_simp

section \<open>Properties\<close>

text \<open>
  C18: A file of a component stays in its release. Whatever component and relative name are asked for,
  a path that is made lies below the directory of the release; cut at both kinds of slash, resolving
  names with dots changes nothing of it, it has the segments of the release, the component and the
  relative name, it fits a path of the system, and it lies neither below the data directory nor below
  the directory of another version. Behind the release no name is that of a device or ends in a space
  or a dot, and there is no slash, colon, quote, wildcard, angle bracket, bar or control character.
\<close>

theorem component_confined:
  assumes "l4_layout_from_roots full_path binaries data version = Some L"
    and "l4_layout_component L component relative = Some out"
  shows "within (ly_release L) out \<and> length out < MAX_PATH
    \<and> resolve_dots [] (segments_of [] out) = segments_of [] (ly_release L) @ component # segments_of [] relative
    \<and> \<not> within (ly_data L) out
    \<and> (\<forall>version' L'. l4_layout_from_roots full_path binaries data version' = Some L' \<and> version' \<noteq> version
         \<longrightarrow> \<not> within (ly_release L') out)
    \<and> out = ly_release L @ BSLASH # component @ BSLASH # relative
    \<and> list_all (\<lambda>s. s \<noteq> [] \<and> last s \<noteq> DOT \<and> last s \<noteq> 0x20 \<and> \<not> reserved_name s) (component # segments_of [] relative)
    \<and> (\<forall>ch \<in> set component \<union> set relative.
         ch \<notin> set (wide ''/:<>|?*'') \<and> ch \<noteq> 0x22 \<and> 0x20 \<le> ch)"
proof -
  note r = from_roots_Some [OF assms(1)] and c = component_Some [OF assms(2)]
  have below: "out = ly_binaries L @ BSLASH # (wide ''releases'' @ BSLASH # version @ BSLASH # component @ BSLASH # relative)"
    using r(6) c(1) by simp
  have "segments_of [] (ly_release L @ BSLASH # component) = segments_of [] (ly_release L) @ [component]"
    using simple_name_form [OF c(3)] by (simp add: segments_append segments_single)
  moreover have "list_all proper_segment (segments_of [] (ly_release L @ BSLASH # component))"
    using release_segments(2) [OF assms(1)] simple_name_form [OF c(3)] calculation by simp
  ultimately have "resolve_dots [] (segments_of [] out) = segments_of [] (ly_release L) @ component # segments_of [] relative"
    using checked_below [OF c(4), of "ly_release L @ BSLASH # component"] c(1) by simp
  moreover have "\<not> within (ly_data L) out" unfolding below by (rule apart_below [OF r(5,4)])
  moreover have "\<not> within (ly_release L') out"
    if L': "l4_layout_from_roots full_path binaries data version' = Some L'" "version' \<noteq> version" for version' L'
  proof
    note r' = from_roots_Some [OF L'(1)]
    assume "within (ly_release L') out"
    then have "within ((ly_binaries L @ BSLASH # wide ''releases'') @ BSLASH # version')
        ((ly_binaries L @ BSLASH # wide ''releases'') @ BSLASH # version @ BSLASH # component @ BSLASH # relative)"
      using r(2) r'(2,6) below by simp
    from version_apart [OF r'(1) r(1) this] show False using L'(2) by simp
  qed
  moreover have "list_all (\<lambda>s. s \<noteq> [] \<and> last s \<noteq> DOT \<and> last s \<noteq> 0x20 \<and> \<not> reserved_name s) (component # segments_of [] relative)"
    using c(4) simple_name_form(1,4,5) [OF c(3)]
    by (auto simp: list_all_iff component_segment_def proper_segment_def)
  moreover have "ch \<notin> set (wide ''/:<>|?*'') \<and> ch \<noteq> 0x22 \<and> 0x20 \<le> ch" if "ch \<in> set component \<union> set relative" for ch
  proof -
    have "ch = BSLASH \<or> \<not> forbidden_char ch" using that c(5) simple_name_form(6) [OF c(3)] by auto
    then show ?thesis by (auto simp: forbidden_char_def wide_def not_less)
  qed
  ultimately show ?thesis using c(1,2) within_append by blast
qed

theorem component_confined_witness:
  "within demo_release (demo_release @ BSLASH # wide ''l4superv'' @ BSLASH # demo_relative)
   \<and> \<not> within demo_data (demo_release @ BSLASH # wide ''l4superv'' @ BSLASH # demo_relative)"
  using component_confined [OF demo_layout_made demo_component_made] by (simp add: demo_layout_def)

text \<open>
  Data stays apart from programs. A program of an installed release finds its data in the
  directory of the area, below the data directory and not below the programs; a program outside the
  installation finds it beside itself, and never in the directory of the releases. The name behind
  that directory is free of dots that would lead out of it.
\<close>

theorem runtime_path_confined:
  assumes "l4_layout_from_roots full_path binaries data version = Some S"
    and "l4_runtime_path full_path (Some S) release area relative portable_relative = Some out"
  shows "\<exists>dir leaf. out = dir @ BSLASH # leaf
    \<and> resolve_dots [] (segments_of [] out) = segments_of [] dir @ segments_of [] leaf
    \<and> (dir = area_directory S area \<and> within (ly_data S) out \<and> \<not> within (ly_binaries S) out
       \<or> absolute_root full_path release = Some dir \<and> \<not> within (ly_binaries S @ BSLASH # wide ''releases'') dir)"
proof -
  note r = from_roots_Some [OF assms(1)]
  obtain canonical checked dir leaf where c: "absolute_root full_path release = Some canonical"
    and pair: "(dir, leaf) = (if within (ly_binaries S @ BSLASH # wide ''releases'') canonical
      then (area_directory S area, relative) else (canonical, portable_relative))"
    and checked: "l4_layout_component validator (wide ''data'') leaf = Some checked" and out: "out = dir @ BSLASH # leaf"
    using assms(2) by (auto simp: l4_runtime_path_def bind_eq_Some_conv join_Some split: if_splits)
  have "list_all proper_segment (segments_of [] dir)"
    using pair area_segments(2) [OF assms(1)] absolute_root_proper(1) [OF c] by (auto split: if_splits)
  from checked_below [OF component_Some(4) [OF checked] this]
  have "resolve_dots [] (segments_of [] out) = segments_of [] dir @ segments_of [] leaf" using out by simp
  moreover have "dir = area_directory S area \<and> within (ly_data S) out \<and> \<not> within (ly_binaries S) out
      \<or> absolute_root full_path release = Some dir \<and> \<not> within (ly_binaries S @ BSLASH # wide ''releases'') dir"
  proof (cases "within (ly_binaries S @ BSLASH # wide ''releases'') canonical")
    case True
    then have dir: "dir = area_directory S area" using pair by simp
    then obtain x where "out = ly_data S @ BSLASH # x" using area_segments(1) [OF assms(1), of area] out by auto
    then show ?thesis using dir within_append [of "ly_data S" x] apart_below [OF r(4,5), of x] by simp
  next
    case False
    then show ?thesis using pair c by simp
  qed
  ultimately show ?thesis using out by blast
qed

theorem runtime_path_confined_witness:
  "\<exists>dir leaf. demo_data @ BSLASH # wide ''logs'' @ BSLASH # wide ''a.log'' = dir @ BSLASH # leaf
    \<and> resolve_dots [] (segments_of [] (demo_data @ BSLASH # wide ''logs'' @ BSLASH # wide ''a.log''))
        = segments_of [] dir @ segments_of [] leaf"
  using runtime_path_confined [OF demo_layout_made demo_runtime_made] by blast

end
