(* ===== verification/Recovery_Plan.thy ===== *)
theory Recovery_Plan
  imports Update_State Release_Layout
begin

text \<open>
  The plan of a recovery, \<open>tools/l4common/recovery_plan.c\<close>: what a rollback of the supervisor needs, as one
  record that is written before the update and read by the rollback helper, the record of its outcome,
  and the decision what is to be done. SHA-256, the tests of the system for well-known accounts and for
  the form of a security descriptor, and the full path of a text are parameters. A fixed array is the
  list of its bytes, a wide text the list of its code units without the terminating zero.
\<close>

section \<open>Definitions of the source\<close>

abbreviation L4_RECOVERY_CONFIG_LIMIT :: nat where "L4_RECOVERY_CONFIG_LIMIT \<equiv> 65536"
abbreviation L4_RECOVERY_PLAN_LIMIT :: nat where "L4_RECOVERY_PLAN_LIMIT \<equiv> 163840"

record L4RecoveryPlan =
  rp_operation :: bytes
  rp_sequence :: u64
  rp_worker_pid :: u32
  rp_recovery_ms :: u32
  rp_start_type :: u32
  rp_worker_created :: bytes
  rp_supervisor_pid :: u32
  rp_supervisor_created :: bytes
  rp_armed_utc :: u64
  rp_deadline_utc :: u64
  rp_old_size :: u64
  rp_new_size :: u64
  rp_old_sha256 :: bytes
  rp_new_sha256 :: bytes
  rp_before :: wtext
  rp_after :: wtext
  rp_old_exists :: bool
  rp_old_config :: bytes
  rp_new_config :: bytes
  rp_config_sd :: bytes

text \<open>
  What the system answers: \<open>trusted_sid\<close> of the bytes from a SID on, for \<open>IsWellKnownSid\<close> of the local
  system or the administrators; \<open>valid_sd\<close> of a whole descriptor, for its validity and its length.
\<close>

record sid_api =
  trusted_sid :: "bytes \<Rightarrow> bool"
  valid_sd :: "bytes \<Rightarrow> bool"

definition nonzero :: "bytes \<Rightarrow> bool" where
  "nonzero bs \<longleftrightarrow> list_ex (\<lambda>b. b \<noteq> 0) bs"

definition le16 :: "bytes \<Rightarrow> nat \<Rightarrow> nat" where
  "le16 b i = unat (b ! i) + 256 * unat (b ! (i + 1))"

definition le32 :: "bytes \<Rightarrow> nat \<Rightarrow> nat" where
  "le32 b i = unat (l4_store_get32 (drop i b))"

definition sid_range :: "bytes \<Rightarrow> nat \<Rightarrow> nat \<Rightarrow> bool" where
  "sid_range sd len offset \<longleftrightarrow>
     \<not> (offset = 0 \<or> len < offset \<or> len - offset < 8)
     \<and> sd ! offset = 1 \<and> unat (sd ! (offset + 1)) \<le> 15 \<and> 8 + 4 * unat (sd ! (offset + 1)) \<le> len - offset"

text \<open>The rights to read and to execute.\<close>

abbreviation READ_EXECUTE :: u32 where "READ_EXECUTE \<equiv> 0xA01200A9"

fun ace_loop :: "sid_api \<Rightarrow> bytes \<Rightarrow> nat \<Rightarrow> nat \<Rightarrow> nat \<Rightarrow> bool" where
  "ace_loop api sd end_at 0 i = True"
| "ace_loop api sd end_at (Suc n) i =
     (if end_at < i \<or> end_at - i < 12 then False
      else
        let ace_len = le16 sd (i + 2) in
        if sd ! i \<noteq> 0 \<or> ace_len < 12 \<or> ace_len mod 4 \<noteq> 0 \<or> end_at - i < ace_len \<or> \<not> sid_range sd (i + ace_len) (i + 8) then False
        else if \<not> trusted_sid api (drop (i + 8) sd) \<and> l4_store_get32 (drop (i + 4) sd) AND NOT READ_EXECUTE \<noteq> 0 then False
        else ace_loop api sd end_at n (i + ace_len))"

definition policy_aligned :: "sid_api \<Rightarrow> bytes \<Rightarrow> bool" where
  "policy_aligned api sd =
     (let len = length sd; control = le16 sd 2; owner = le32 sd 4; grp = le32 sd 8; sacl = le32 sd 12; dacl = le32 sd 16 in
      if len < 20 \<or> 4096 < len then False
      else if sd ! 0 \<noteq> 1 \<or> control div 0x8000 mod 2 = 0 \<or> control div 4 mod 2 = 0 \<or> sacl \<noteq> 0
        \<or> owner mod 4 \<noteq> 0 \<or> grp mod 4 \<noteq> 0 \<or> dacl mod 4 \<noteq> 0
        \<or> \<not> sid_range sd len owner \<or> \<not> sid_range sd len grp \<or> dacl = 0 \<or> len < dacl \<or> len - dacl < 8 then False
      else
        let acl_size = le16 sd (dacl + 2); count = le16 sd (dacl + 4) in
        if sd ! dacl \<noteq> 2 \<or> count = 0 \<or> acl_size < 8 \<or> len - dacl < acl_size then False
        else ace_loop api sd (dacl + acl_size) count (dacl + 8)
             \<and> trusted_sid api (drop owner sd) \<and> valid_sd api sd)"

definition policy :: "sid_api \<Rightarrow> bytes \<Rightarrow> bool" where
  "policy api sd = (if 4096 < length sd then False else policy_aligned api sd)"

text \<open>The supervisor's command line: the text behind the image, and the image.\<close>

definition command :: "(wtext \<Rightarrow> wtext option) \<Rightarrow> L4Layout \<Rightarrow> wtext \<Rightarrow> (wtext \<times> wtext) option" where
  "command full_path roots s =
     (if 2048 \<le> length s \<or> s = [] \<or> hd s \<noteq> 0x22 then None
      else
        let image = takeWhile (\<lambda>ch. ch \<noteq> 0x22) (tl s); behind = dropWhile (\<lambda>ch. ch \<noteq> 0x22) (tl s) in
        if behind = [] \<or> tl behind \<noteq> [] \<and> hd (tl behind) \<noteq> 0x20 \<and> hd (tl behind) \<noteq> 0x09 \<or> MAX_PATH \<le> length image then None
        else
          let prefix = ly_binaries roots @ [BSLASH] @ wide ''releases'' @ [BSLASH];
              rest = drop (length prefix) image; version = takeWhile (\<lambda>ch. ch \<noteq> BSLASH) rest in
          if MAX_PATH \<le> length prefix \<or> take (length prefix) image \<noteq> prefix \<or> BSLASH \<notin> set rest \<or> 32 \<le> length version then None
          else
            (case l4_layout_from_roots full_path (ly_binaries roots) (ly_data roots) version of
               None \<Rightarrow> None
             | Some layout \<Rightarrow>
                 if l4_layout_component layout (wide ''l4superv'') (wide ''l4superv.exe'') = Some image
                 then Some (tl behind, image) else None))"

definition plan_valid :: "(wtext \<Rightarrow> wtext option) \<Rightarrow> sid_api \<Rightarrow> L4Layout \<Rightarrow> L4RecoveryPlan \<Rightarrow> bool" where
  "plan_valid full_path api roots p =
     (if \<not> nonzero (rp_operation p) \<or> rp_sequence p = 0 \<or> rp_worker_pid p = 0 \<or> rp_supervisor_pid p = 0
        \<or> \<not> nonzero (rp_supervisor_created p) \<or> \<not> nonzero (rp_worker_created p) \<or> rp_armed_utc p = 0
        \<or> rp_deadline_utc p \<le> rp_armed_utc p \<or> rp_recovery_ms p = 0 \<or> 300000 < rp_recovery_ms p
        \<or> rp_start_type p \<noteq> 2 \<and> rp_start_type p \<noteq> 3 \<or> rp_old_size p = 0 \<or> rp_new_size p = 0
        \<or> \<not> nonzero (rp_old_sha256 p) \<or> \<not> nonzero (rp_new_sha256 p)
        \<or> L4_RECOVERY_CONFIG_LIMIT < length (rp_old_config p) \<or> L4_RECOVERY_CONFIG_LIMIT < length (rp_new_config p)
        \<or> \<not> rp_old_exists p \<and> rp_old_config p \<noteq> [] \<or> \<not> policy api (rp_config_sd p)
      then False
      else
        (case (command full_path roots (rp_before p), command full_path roots (rp_after p)) of
           (Some (a, old), Some (b, candidate)) \<Rightarrow> old \<noteq> candidate \<and> a = b
         | _ \<Rightarrow> False))"

definition wide_bytes :: "wtext \<Rightarrow> bytes" where
  "wide_bytes s = concat (map (\<lambda>ch. [ucast ch, ucast (drop_bit 8 ch)]) s)"

fun wide_of :: "bytes \<Rightarrow> wtext" where
  "wide_of (l # h # bs) = (ucast l OR push_bit 8 (ucast h)) # wide_of bs"
| "wide_of bs = []"

definition plan_magic :: bytes where
  "plan_magic = map of_char ''L4RBK01'' @ [0]"

abbreviation put_size :: "'a list \<Rightarrow> bytes" where
  "put_size xs \<equiv> l4_store_u32 (of_nat (length xs))"

text \<open>The 192 bytes of the fixed part, in the order of their offsets.\<close>

definition plan_head :: "L4RecoveryPlan \<Rightarrow> bytes" where
  "plan_head p =
     (let old = wide_bytes (rp_before p); newer = wide_bytes (rp_after p);
          len = 224 + length old + length newer + length (rp_old_config p) + length (rp_new_config p) + length (rp_config_sd p) in
      plan_magic @ l4_store_u32 (of_nat len) @ l4_store_u32 (if rp_old_exists p then 1 else 0) @ rp_operation p
      @ l4_store_u64 (rp_sequence p) @ l4_store_u32 (rp_worker_pid p) @ l4_store_u32 (rp_recovery_ms p)
      @ rp_worker_created p @ l4_store_u64 (rp_armed_utc p) @ l4_store_u64 (rp_deadline_utc p)
      @ l4_store_u64 (rp_old_size p) @ l4_store_u64 (rp_new_size p)
      @ put_size (rp_old_config p) @ put_size (rp_new_config p) @ put_size (rp_config_sd p)
      @ l4_store_u32 (rp_start_type p) @ put_size old @ put_size newer @ l4_store_u32 (rp_supervisor_pid p)
      @ rp_supervisor_created p @ l4_store_u32 0 @ rp_old_sha256 p @ rp_new_sha256 p)"

definition l4_recovery_encode :: "sha \<Rightarrow> (wtext \<Rightarrow> wtext option) \<Rightarrow> sid_api \<Rightarrow> L4Layout \<Rightarrow> L4RecoveryPlan \<Rightarrow> bytes option" where
  "l4_recovery_encode sha full_path api roots p =
     (if \<not> plan_valid full_path api roots p then None
      else
        let b = plan_head p @ wide_bytes (rp_before p) @ wide_bytes (rp_after p) @ rp_old_config p @ rp_new_config p @ rp_config_sd p in
        map_option (\<lambda>hash. b @ hash) (sha b))"

definition l4_recovery_decode :: "sha \<Rightarrow> (wtext \<Rightarrow> wtext option) \<Rightarrow> sid_api \<Rightarrow> L4Layout \<Rightarrow> bytes \<Rightarrow> L4RecoveryPlan option" where
  "l4_recovery_decode sha full_path api roots b =
     (let len = length b in
      if len < 224 \<or> L4_RECOVERY_PLAN_LIMIT < len \<or> take 8 b \<noteq> plan_magic \<or> le32 b 8 \<noteq> len \<or> 1 < le32 b 12 \<or> le32 b 124 \<noteq> 0
      then None
      else
        let old = le32 b 104; newer = le32 b 108; a = le32 b 88; c = le32 b 92; sd = le32 b 96 in
        if old = 0 \<or> 4096 \<le> old \<or> newer = 0 \<or> 4096 \<le> newer \<or> old mod 2 \<noteq> 0 \<or> newer mod 2 \<noteq> 0
          \<or> L4_RECOVERY_CONFIG_LIMIT < a \<or> L4_RECOVERY_CONFIG_LIMIT < c \<or> sd = 0 \<or> 4096 < sd
          \<or> 224 + old + newer + a + c + sd \<noteq> len \<or> sha (take (len - 32) b) \<noteq> Some (drop (len - 32) b)
        then None
        else
          let p = \<lparr>rp_operation = take 16 (drop 16 b), rp_sequence = l4_store_get64 (drop 32 b),
                   rp_worker_pid = l4_store_get32 (drop 40 b), rp_recovery_ms = l4_store_get32 (drop 44 b),
                   rp_start_type = l4_store_get32 (drop 100 b), rp_worker_created = take 8 (drop 48 b),
                   rp_supervisor_pid = l4_store_get32 (drop 112 b), rp_supervisor_created = take 8 (drop 116 b),
                   rp_armed_utc = l4_store_get64 (drop 56 b), rp_deadline_utc = l4_store_get64 (drop 64 b),
                   rp_old_size = l4_store_get64 (drop 72 b), rp_new_size = l4_store_get64 (drop 80 b),
                   rp_old_sha256 = take 32 (drop 128 b), rp_new_sha256 = take 32 (drop 160 b),
                   rp_before = wide_of (take old (drop 192 b)), rp_after = wide_of (take newer (drop (192 + old) b)),
                   rp_old_exists = (le32 b 12 \<noteq> 0), rp_old_config = take a (drop (192 + old + newer) b),
                   rp_new_config = take c (drop (192 + old + newer + a) b),
                   rp_config_sd = take sd (drop (192 + old + newer + a + c) b)\<rparr> in
          if 0 \<in> set (rp_before p) \<or> 0 \<in> set (rp_after p) \<or> \<not> plan_valid full_path api roots p then None
          else Some p)"

datatype L4RecoveryAction = L4_RECOVERY_WAIT | L4_RECOVERY_DONE | L4_RECOVERY_REQUIRED | L4_RECOVERY_BLOCKED

abbreviation L4_RECOVERY_COMMITTED :: u32 where "L4_RECOVERY_COMMITTED \<equiv> 1"
abbreviation L4_RECOVERY_RESTORED :: u32 where "L4_RECOVERY_RESTORED \<equiv> 2"
abbreviation L4_RECOVERY_FAILED :: u32 where "L4_RECOVERY_FAILED \<equiv> 3"
abbreviation L4_RECOVERY_STARTED :: u32 where "L4_RECOVERY_STARTED \<equiv> 4"

definition status_valid :: "u32 \<Rightarrow> u32 \<Rightarrow> bool" where
  "status_valid status error \<longleftrightarrow> 1 \<le> status \<and> status \<le> 4 \<and> (if status = L4_RECOVERY_FAILED then error \<noteq> 0 else error = 0)"

definition result_magic :: bytes where
  "result_magic = map of_char ''L4RBS01'' @ [0]"

definition l4_recovery_result_encode :: "sha \<Rightarrow> L4RecoveryPlan \<Rightarrow> bytes \<Rightarrow> u32 \<Rightarrow> u32 \<Rightarrow> bytes option" where
  "l4_recovery_result_encode sha p hash status error =
     (if \<not> status_valid status error then None
      else
        let b = result_magic @ rp_operation p @ hash @ l4_store_u32 status @ l4_store_u32 error in
        map_option (\<lambda>h. b @ h) (sha b))"

definition l4_recovery_result_decode :: "sha \<Rightarrow> L4RecoveryPlan \<Rightarrow> bytes \<Rightarrow> bytes \<Rightarrow> (u32 \<times> u32) option" where
  "l4_recovery_result_decode sha p hash b =
     (if length b \<noteq> 96 \<or> take 8 b \<noteq> result_magic \<or> take 16 (drop 8 b) \<noteq> rp_operation p \<or> take 32 (drop 24 b) \<noteq> hash
        \<or> sha (take 64 b) \<noteq> Some (drop 64 b) \<or> \<not> status_valid (l4_store_get32 (drop 56 b)) (l4_store_get32 (drop 60 b))
      then None
      else Some (l4_store_get32 (drop 56 b), l4_store_get32 (drop 60 b)))"

datatype recovery_error = Bad_status | Time_skew

definition l4_recovery_decide :: "L4RecoveryPlan \<Rightarrow> u32 \<Rightarrow> u64 \<Rightarrow> bool \<Rightarrow> recovery_error + L4RecoveryAction" where
  "l4_recovery_decide p status now boot =
     (if 4 < status then Inl Bad_status
      else if status = L4_RECOVERY_COMMITTED \<or> status = L4_RECOVERY_RESTORED then Inr L4_RECOVERY_DONE
      else if status = L4_RECOVERY_FAILED then Inr L4_RECOVERY_BLOCKED
      else if status = L4_RECOVERY_STARTED then Inr L4_RECOVERY_REQUIRED
      else if boot then Inr L4_RECOVERY_REQUIRED
      else if now < rp_armed_utc p then Inl Time_skew
      else Inr (if rp_deadline_utc p \<le> now then L4_RECOVERY_REQUIRED else L4_RECOVERY_WAIT))"

section \<open>Reading what was written\<close>

lemma wide_char: "(ucast (ucast ch :: u8) OR push_bit 8 (ucast (ucast (drop_bit 8 ch) :: u8)) :: u16) = ch"
  by (rule bit_word_eqI) (auto simp: bit_simps)

lemma wide_bytes_simps [simp]:
  "wide_bytes [] = []" "wide_bytes (ch # s) = ucast ch # ucast (drop_bit 8 ch) # wide_bytes s"
  by (simp_all add: wide_bytes_def)

lemma wide_bytes_length: "length (wide_bytes s) = 2 * length s"
  by (induction s) simp_all

lemma wide_of_bytes: "wide_of (wide_bytes s) = s"
  by (induction s) (simp_all add: wide_char)

text \<open>The sizes that the types of the source give to the fields of a plan.\<close>

definition plan_sized :: "L4RecoveryPlan \<Rightarrow> bool" where
  "plan_sized p \<longleftrightarrow>
     length (rp_operation p) = 16 \<and> length (rp_worker_created p) = 8 \<and> length (rp_supervisor_created p) = 8
     \<and> length (rp_old_sha256 p) = 32 \<and> length (rp_new_sha256 p) = 32 \<and> 0 \<notin> set (rp_before p) \<and> 0 \<notin> set (rp_after p)"

lemma plan_magic_length [simp]: "length plan_magic = 8"
  by (simp add: plan_magic_def)

lemma command_length: "command full_path roots s = Some r \<Longrightarrow> 0 < length s \<and> length s < 2048"
  by (auto simp: command_def Let_def split: if_splits)

lemma plan_valid_limits:
  assumes "plan_valid full_path api roots p"
  shows "0 < length (rp_before p)" "length (rp_before p) < 2048" "0 < length (rp_after p)" "length (rp_after p) < 2048"
    "length (rp_old_config p) \<le> L4_RECOVERY_CONFIG_LIMIT" "length (rp_new_config p) \<le> L4_RECOVERY_CONFIG_LIMIT"
    "20 \<le> length (rp_config_sd p)" "length (rp_config_sd p) \<le> 4096"
proof -
  obtain r r' where "command full_path roots (rp_before p) = Some r" "command full_path roots (rp_after p) = Some r'"
    using assms by (auto simp: plan_valid_def split: if_splits option.splits)
  then show "0 < length (rp_before p)" "length (rp_before p) < 2048" "0 < length (rp_after p)" "length (rp_after p) < 2048"
    using command_length by blast+
  have "policy api (rp_config_sd p)" using assms by (simp add: plan_valid_def split: if_splits)
  then show "20 \<le> length (rp_config_sd p)" "length (rp_config_sd p) \<le> 4096"
    by (auto simp: policy_def policy_aligned_def Let_def split: if_splits)
  show "length (rp_old_config p) \<le> L4_RECOVERY_CONFIG_LIMIT" "length (rp_new_config p) \<le> L4_RECOVERY_CONFIG_LIMIT"
    using assms by (simp_all add: plan_valid_def split: if_splits)
qed

lemma le32_put: "n < 4294967296 \<Longrightarrow> unat (l4_store_get32 (l4_store_u32 (of_nat n) @ t)) = n"
  by (simp add: unat_of_nat)

text \<open>The fields of the head at their offsets, whatever follows it.\<close>

lemma plan_head_fields:
  fixes p t
  assumes "plan_sized p"
  defines "b \<equiv> plan_head p @ t"
  shows "length (plan_head p) = 192" "take 8 b = plan_magic"
    "take 16 (drop 16 b) = rp_operation p" "l4_store_get64 (drop 32 b) = rp_sequence p"
    "l4_store_get32 (drop 40 b) = rp_worker_pid p" "l4_store_get32 (drop 44 b) = rp_recovery_ms p"
    "take 8 (drop 48 b) = rp_worker_created p" "l4_store_get64 (drop 56 b) = rp_armed_utc p"
    "l4_store_get64 (drop 64 b) = rp_deadline_utc p" "l4_store_get64 (drop 72 b) = rp_old_size p"
    "l4_store_get64 (drop 80 b) = rp_new_size p" "l4_store_get32 (drop 100 b) = rp_start_type p"
    "l4_store_get32 (drop 112 b) = rp_supervisor_pid p" "take 8 (drop 116 b) = rp_supervisor_created p"
    "le32 b 124 = 0" "take 32 (drop 128 b) = rp_old_sha256 p" "take 32 (drop 160 b) = rp_new_sha256 p"
    "le32 b 12 = (if rp_old_exists p then 1 else 0)"
  using assms unfolding b_def plan_head_def plan_sized_def Let_def le32_def by simp_all

lemma plan_head_sizes:
  fixes p t
  assumes "plan_sized p" "plan_valid full_path api roots p"
  defines "b \<equiv> plan_head p @ t"
  shows "le32 b 88 = length (rp_old_config p)" "le32 b 92 = length (rp_new_config p)" "le32 b 96 = length (rp_config_sd p)"
    "le32 b 104 = length (wide_bytes (rp_before p))" "le32 b 108 = length (wide_bytes (rp_after p))"
    "le32 b 8 = 224 + length (wide_bytes (rp_before p)) + length (wide_bytes (rp_after p)) + length (rp_old_config p)
       + length (rp_new_config p) + length (rp_config_sd p)"
proof -
  note lim = plan_valid_limits [OF assms(2)] and sized = assms(1) [unfolded plan_sized_def]
  have small: "length (rp_old_config p) < 4294967296" "length (rp_new_config p) < 4294967296" "length (rp_config_sd p) < 4294967296"
    "length (wide_bytes (rp_before p)) < 4294967296" "length (wide_bytes (rp_after p)) < 4294967296"
    "224 + length (wide_bytes (rp_before p)) + length (wide_bytes (rp_after p)) + length (rp_old_config p)
       + length (rp_new_config p) + length (rp_config_sd p) < 4294967296"
    using lim by (simp_all add: wide_bytes_length)
  show "le32 b 88 = length (rp_old_config p)" using sized le32_put [OF small(1)] by (simp add: b_def plan_head_def Let_def le32_def)
  show "le32 b 92 = length (rp_new_config p)" using sized le32_put [OF small(2)] by (simp add: b_def plan_head_def Let_def le32_def)
  show "le32 b 96 = length (rp_config_sd p)" using sized le32_put [OF small(3)] by (simp add: b_def plan_head_def Let_def le32_def)
  show "le32 b 104 = length (wide_bytes (rp_before p))" using sized le32_put [OF small(4)] by (simp add: b_def plan_head_def Let_def le32_def)
  show "le32 b 108 = length (wide_bytes (rp_after p))" using sized le32_put [OF small(5)] by (simp add: b_def plan_head_def Let_def le32_def)
  show "le32 b 8 = 224 + length (wide_bytes (rp_before p)) + length (wide_bytes (rp_after p)) + length (rp_old_config p)
       + length (rp_new_config p) + length (rp_config_sd p)"
    using sized le32_put [OF small(6)] by (simp add: b_def plan_head_def Let_def le32_def)
qed

lemma decode_encoded:
  assumes sized: "plan_sized p" and v: "plan_valid full_path api roots p"
    and b: "b = plan_head p @ wide_bytes (rp_before p) @ wide_bytes (rp_after p) @ rp_old_config p @ rp_new_config p @ rp_config_sd p"
    and h: "sha b = Some hash" "length hash = 32"
  shows "l4_recovery_decode sha full_path api roots (b @ hash) = Some p"
proof -
  note lim = plan_valid_limits [OF v]
  define t where "t = wide_bytes (rp_before p) @ wide_bytes (rp_after p) @ rp_old_config p @ rp_new_config p @ rp_config_sd p @ hash"
  have bt: "b @ hash = plan_head p @ t" by (simp add: b t_def)
  note f1 = plan_head_fields(1) [OF sized] and f = plan_head_fields(2-18) [OF sized, of t] and n = plan_head_sizes [OF sized v, of t]
  have len: "length (plan_head p @ t) = 224 + length (wide_bytes (rp_before p)) + length (wide_bytes (rp_after p))
      + length (rp_old_config p) + length (rp_new_config p) + length (rp_config_sd p)"
    using f1 h(2) by (simp add: t_def)
  have drops: "drop 192 (plan_head p @ t) = t" "drop (192 + k) (plan_head p @ t) = drop k t" for k
    using f1 by (simp_all add: add.commute)
  have cut: "take (length b) (plan_head p @ t) = b" "drop (length b) (plan_head p @ t) = hash"
    "length (plan_head p @ t) - 32 = length b"
    using bt h(2) by (simp_all flip: bt)
  have parts: "take (length (wide_bytes (rp_before p))) t = wide_bytes (rp_before p)"
    "take (length (wide_bytes (rp_after p))) (drop (length (wide_bytes (rp_before p))) t) = wide_bytes (rp_after p)"
    "take (length (rp_old_config p)) (drop (192 + length (wide_bytes (rp_before p)) + length (wide_bytes (rp_after p))) (plan_head p @ t)) = rp_old_config p"
    "take (length (rp_new_config p)) (drop (192 + length (wide_bytes (rp_before p)) + length (wide_bytes (rp_after p)) + length (rp_old_config p)) (plan_head p @ t))
       = rp_new_config p"
    "take (length (rp_config_sd p)) (drop (192 + length (wide_bytes (rp_before p)) + length (wide_bytes (rp_after p)) + length (rp_old_config p)
       + length (rp_new_config p)) (plan_head p @ t)) = rp_config_sd p"
    using f1 by (simp_all add: t_def)
  have small: "length (plan_head p @ t) \<le> L4_RECOVERY_PLAN_LIMIT" "224 \<le> length (plan_head p @ t)"
    unfolding len using lim by (simp_all add: wide_bytes_length)
  have halves: "length (wide_bytes (rp_before p)) mod 2 = 0" "length (wide_bytes (rp_after p)) mod 2 = 0"
    "length (wide_bytes (rp_before p)) \<noteq> 0" "length (wide_bytes (rp_after p)) \<noteq> 0"
    "length (wide_bytes (rp_before p)) < 4096" "length (wide_bytes (rp_after p)) < 4096"
    using lim by (simp_all add: wide_bytes_length)
  let ?p = "\<lparr>rp_operation = rp_operation p, rp_sequence = rp_sequence p, rp_worker_pid = rp_worker_pid p,
     rp_recovery_ms = rp_recovery_ms p, rp_start_type = rp_start_type p, rp_worker_created = rp_worker_created p,
     rp_supervisor_pid = rp_supervisor_pid p, rp_supervisor_created = rp_supervisor_created p, rp_armed_utc = rp_armed_utc p,
     rp_deadline_utc = rp_deadline_utc p, rp_old_size = rp_old_size p, rp_new_size = rp_new_size p,
     rp_old_sha256 = rp_old_sha256 p, rp_new_sha256 = rp_new_sha256 p, rp_before = rp_before p, rp_after = rp_after p,
     rp_old_exists = rp_old_exists p, rp_old_config = rp_old_config p, rp_new_config = rp_new_config p, rp_config_sd = rp_config_sd p\<rparr>"
  have p: "?p = p" by simp
  have zero: "0 \<notin> set (rp_before p)" "0 \<notin> set (rp_after p)" using sized by (simp_all add: plan_sized_def)
  have flag: "\<not> 1 < le32 (plan_head p @ t) 12" "(le32 (plan_head p @ t) 12 \<noteq> 0) = rp_old_exists p" using f(17) by simp_all
  have sd: "length (rp_config_sd p) \<noteq> 0" "\<not> 4096 < length (rp_config_sd p)" using lim(7,8) by auto
  have test1: "\<not> (length (plan_head p @ t) < 224 \<or> L4_RECOVERY_PLAN_LIMIT < length (plan_head p @ t) \<or> take 8 (plan_head p @ t) \<noteq> plan_magic
      \<or> le32 (plan_head p @ t) 8 \<noteq> length (plan_head p @ t) \<or> 1 < le32 (plan_head p @ t) 12 \<or> le32 (plan_head p @ t) 124 \<noteq> 0)"
    using small f(1,14) n(6) len flag(1) by (simp only: not_less simp_thms de_Morgan_disj)
  have test2: "\<not> (length (wide_bytes (rp_before p)) = 0 \<or> 4096 \<le> length (wide_bytes (rp_before p)) \<or> length (wide_bytes (rp_after p)) = 0
      \<or> 4096 \<le> length (wide_bytes (rp_after p)) \<or> length (wide_bytes (rp_before p)) mod 2 \<noteq> 0 \<or> length (wide_bytes (rp_after p)) mod 2 \<noteq> 0
      \<or> L4_RECOVERY_CONFIG_LIMIT < length (rp_old_config p) \<or> L4_RECOVERY_CONFIG_LIMIT < length (rp_new_config p)
      \<or> length (rp_config_sd p) = 0 \<or> 4096 < length (rp_config_sd p)
      \<or> 224 + length (wide_bytes (rp_before p)) + length (wide_bytes (rp_after p)) + length (rp_old_config p) + length (rp_new_config p)
          + length (rp_config_sd p) \<noteq> length (plan_head p @ t)
      \<or> sha (take (length (plan_head p @ t) - 32) (plan_head p @ t)) \<noteq> Some (drop (length (plan_head p @ t) - 32) (plan_head p @ t)))"
    using halves lim(5,6) sd len h(1) unfolding cut(3) cut(1,2) by (simp only: not_less not_le simp_thms de_Morgan_disj)
  show ?thesis
    unfolding bt l4_recovery_decode_def Let_def if_not_P [OF test1]
    unfolding n if_not_P [OF test2]
    unfolding f(2-13,15,16) flag(2) drops parts wide_of_bytes p using zero v by simp
qed

section \<open>What a policy grants\<close>

text \<open>
  The access list in force, read from the descriptor as the system documents it: there is one when
  the control word has the bit \<open>SE_DACL_PRESENT\<close> and the offset is not zero, and without one everybody
  has every right. Each entry has its type, its rights and the bytes from its SID on; type 0 allows.
\<close>

fun aces_from :: "bytes \<Rightarrow> nat \<Rightarrow> nat \<Rightarrow> (u8 \<times> u32 \<times> bytes) list" where
  "aces_from sd 0 i = []"
| "aces_from sd (Suc n) i =
     (sd ! i, l4_store_get32 (drop (i + 4) sd), drop (i + 8) sd) # aces_from sd n (i + le16 sd (i + 2))"

definition aces :: "bytes \<Rightarrow> (u8 \<times> u32 \<times> bytes) list option" where
  "aces sd =
     (if odd (le16 sd 2 div 4) \<and> le32 sd 16 \<noteq> 0
      then Some (aces_from sd (le16 sd (le32 sd 16 + 4)) (le32 sd 16 + 8)) else None)"

text \<open>The owner, who may always write the access list: the bytes from the SID on.\<close>

definition owner_sid :: "bytes \<Rightarrow> bytes" where
  "owner_sid sd = drop (le32 sd 4) sd"

text \<open>Rights that change something: data, attributes, deletion, owner and access list, and the generic ones.\<close>

abbreviation WRITE_RIGHTS :: u32 where "WRITE_RIGHTS \<equiv> 0x500D0156"

lemma ace_loop_grants:
  "ace_loop api sd end_at n i \<Longrightarrow> \<forall>(kind, rights, sid) \<in> set (aces_from sd n i). kind = 0 \<and> (trusted_sid api sid \<or> rights AND NOT READ_EXECUTE = 0)"
  by (induction api sd end_at n i rule: ace_loop.induct) (auto simp: Let_def split: if_splits)

lemma ace_loop_bounds:
  "ace_loop api sd end_at n i \<Longrightarrow> i \<le> end_at \<Longrightarrow> end_at \<le> length sd \<Longrightarrow>
   \<forall>(kind, rights, sid) \<in> set (aces_from sd n i). 8 \<le> length sid"
  by (induction api sd end_at n i rule: ace_loop.induct) (auto simp: Let_def sid_range_def split: if_splits)

lemma no_write:
  assumes "rights AND NOT READ_EXECUTE = 0"
  shows "rights AND WRITE_RIGHTS = 0"
proof -
  have "WRITE_RIGHTS AND NOT READ_EXECUTE = WRITE_RIGHTS" by simp
  then have "rights AND WRITE_RIGHTS = (rights AND NOT READ_EXECUTE) AND WRITE_RIGHTS"
    by (simp only: and.assoc and.commute [of "NOT READ_EXECUTE" WRITE_RIGHTS])
  then show ?thesis using assms by simp
qed

lemma policy_parts:
  assumes "policy api sd"
  shows "trusted_sid api (drop (le32 sd 4) sd)" "valid_sd api sd"
    "\<exists>end_at. ace_loop api sd end_at (le16 sd (le32 sd 16 + 4)) (le32 sd 16 + 8) \<and> le32 sd 16 + 8 \<le> end_at \<and> end_at \<le> length sd"
    "le16 sd (le32 sd 16 + 4) \<noteq> 0"
  using assms by (auto simp: policy_def policy_aligned_def Let_def split: if_splits)

lemma policy_header:
  assumes "policy api sd"
  shows "le16 sd 2 div 4 mod 2 \<noteq> 0" "le32 sd 16 \<noteq> 0" "sid_range sd (length sd) (le32 sd 4)"
  using assms unfolding policy_def policy_aligned_def Let_def by (simp_all only: split: if_split_asm) simp_all

text \<open>Only the system and the administrators may change what the descriptor protects.\<close>

definition only_trusted_change :: "sid_api \<Rightarrow> bytes \<Rightarrow> bool" where
  "only_trusted_change api sd \<longleftrightarrow>
     trusted_sid api (owner_sid sd) \<and> 8 \<le> length (owner_sid sd)
     \<and> (\<exists>es. aces sd = Some es \<and> es \<noteq> []
          \<and> list_all (\<lambda>(kind, rights, sid). kind = 0 \<and> 8 \<le> length sid
               \<and> (trusted_sid api sid \<or> rights AND WRITE_RIGHTS = 0)) es)"

lemma policy_grants:
  assumes "policy api sd"
  shows "only_trusted_change api sd"
proof -
  note q = policy_parts [OF assms]
  let ?es = "aces_from sd (le16 sd (le32 sd 16 + 4)) (le32 sd 16 + 8)"
  obtain end_at where loop: "ace_loop api sd end_at (le16 sd (le32 sd 16 + 4)) (le32 sd 16 + 8)"
    "le32 sd 16 + 8 \<le> end_at" "end_at \<le> length sd" using q(3) by blast
  have "?es \<noteq> []" using q(4) by (cases "le16 sd (le32 sd 16 + 4)") simp_all
  moreover have "list_all (\<lambda>(kind, rights, sid). kind = 0 \<and> 8 \<le> length sid
      \<and> (trusted_sid api sid \<or> rights AND WRITE_RIGHTS = 0)) ?es"
    using ace_loop_grants [OF loop(1)] ace_loop_bounds [OF loop] no_write unfolding list_all_iff by fast
  moreover have "aces sd = Some ?es" using policy_header(1,2) [OF assms] by (simp add: aces_def odd_iff_mod_2_eq_one)
  moreover have "8 \<le> length sd - le32 sd 4" using policy_header(3) [OF assms] by (simp add: sid_range_def)
  ultimately show ?thesis using q(1) by (simp add: only_trusted_change_def owner_sid_def)
qed

section \<open>What a plan can run\<close>

lemma command_Some:
  assumes "command full_path roots s = Some (args, img)"
  shows "s = 0x22 # img @ 0x22 # args"
    "\<exists>version L. l4_layout_from_roots full_path (ly_binaries roots) (ly_data roots) version = Some L
       \<and> l4_layout_component L (wide ''l4superv'') (wide ''l4superv.exe'') = Some img"
proof -
  let ?image = "takeWhile (\<lambda>ch. ch \<noteq> 0x22) (tl s)" and ?behind = "dropWhile (\<lambda>ch. ch \<noteq> 0x22) (tl s)"
  have s: "s \<noteq> []" "hd s = 0x22" "?behind \<noteq> []" "args = tl ?behind" "img = ?image"
    using assms by (auto simp: command_def Let_def split: if_splits option.splits)
  have "s = hd s # ?image @ hd ?behind # tl ?behind" using s(1,3) by simp
  moreover have "hd ?behind = 0x22" using hd_dropWhile [OF s(3)] by simp
  ultimately show "s = 0x22 # img @ 0x22 # args" using s by simp
  show "\<exists>version L. l4_layout_from_roots full_path (ly_binaries roots) (ly_data roots) version = Some L
       \<and> l4_layout_component L (wide ''l4superv'') (wide ''l4superv.exe'') = Some img"
    using assms by (auto simp: command_def Let_def split: if_splits option.splits)
qed

lemma decode_valid: "l4_recovery_decode sha full_path api roots b = Some p \<Longrightarrow> plan_valid full_path api roots p"
  unfolding l4_recovery_decode_def by (auto simp: Let_def split: if_splits)

lemma plan_valid_parts:
  assumes "plan_valid full_path api roots p"
  shows "policy api (rp_config_sd p)"
    "\<exists>args old candidate. command full_path roots (rp_before p) = Some (args, old)
       \<and> command full_path roots (rp_after p) = Some (args, candidate) \<and> old \<noteq> candidate"
    "rp_armed_utc p < rp_deadline_utc p" "0 < rp_recovery_ms p" "rp_recovery_ms p \<le> 300000"
  using assms by (auto simp: plan_valid_def word_neq_0_conv not_le split: if_splits option.splits)

text \<open>Once a recovery is required it stays required, at every later time and at every boot.\<close>

lemma required_stays:
  "l4_recovery_decide p status now boot = Inr L4_RECOVERY_REQUIRED \<Longrightarrow> now \<le> now' \<Longrightarrow> rp_armed_utc p \<le> now' \<Longrightarrow>
   l4_recovery_decide p status now' (boot \<or> boot') = Inr L4_RECOVERY_REQUIRED"
  by (auto simp: l4_recovery_decide_def split: if_splits)

lemma result_roundtrip:
  assumes "l4_recovery_result_encode sha p hash status error = Some b" "plan_sized p" "length hash = 32"
    and "\<forall>x h. sha x = Some h \<longrightarrow> length h = 32"
  shows "l4_recovery_result_decode sha p hash b = Some (status, error)"
proof -
  define body where "body = result_magic @ rp_operation p @ hash @ l4_store_u32 status @ l4_store_u32 error"
  obtain h where h: "status_valid status error" "sha body = Some h" "b = body @ h" "length h = 32"
    using assms(1,4) by (auto simp: l4_recovery_result_encode_def body_def [symmetric] Let_def split: if_splits)
  have len: "length body = 64" "length result_magic = 8"
    using assms(2,3) by (simp_all add: body_def plan_sized_def result_magic_def)
  have "take 64 b = body" "drop 64 b = h" "length b = 96" using h len by simp_all
  moreover have "l4_store_get32 (drop 56 b) = status" "l4_store_get32 (drop 60 b) = error" "take 8 b = result_magic"
    "take 16 (drop 8 b) = rp_operation p" "take 32 (drop 24 b) = hash"
    using assms(2,3) len(2) by (simp_all add: h(3) body_def plan_sized_def)
  ultimately show ?thesis using h(1,2) by (simp add: l4_recovery_result_decode_def)
qed

section \<open>A concrete plan\<close>

definition demo_sd :: bytes where
  "demo_sd = [1, 0, 0x04, 0x80] @ [20, 0, 0, 0] @ [28, 0, 0, 0] @ [0, 0, 0, 0] @ [36, 0, 0, 0]
     @ [1, 0, 0, 0, 0, 0, 0, 5] @ [1, 0, 0, 0, 0, 0, 0, 5]
     @ [2, 0, 24, 0, 1, 0, 0, 0] @ [0, 0, 16, 0, 0xA9, 0x00, 0x12, 0x00, 1, 0, 0, 0, 0, 0, 0, 1]"

definition demo_api :: sid_api where
  "demo_api = \<lparr>trusted_sid = (\<lambda>sid. sid ! 7 = 5), valid_sd = (\<lambda>_. True)\<rparr>"

definition demo_command :: "string \<Rightarrow> wtext" where
  "demo_command version = 0x22 # demo_programs @ BSLASH # wide ''releases'' @ BSLASH # wide version @ BSLASH # wide ''l4superv''
     @ BSLASH # wide ''l4superv.exe'' @ 0x22 # wide '' -x''"

definition demo_plan :: L4RecoveryPlan where
  "demo_plan = \<lparr>rp_operation = replicate 16 1, rp_sequence = 7, rp_worker_pid = 40, rp_recovery_ms = 60000, rp_start_type = 2,
     rp_worker_created = replicate 8 2, rp_supervisor_pid = 41, rp_supervisor_created = replicate 8 3, rp_armed_utc = 100,
     rp_deadline_utc = 200, rp_old_size = 5, rp_new_size = 6, rp_old_sha256 = replicate 32 4, rp_new_sha256 = replicate 32 5,
     rp_before = demo_command ''1.2.3'', rp_after = demo_command ''1.3.0'', rp_old_exists = True, rp_old_config = [1, 2],
     rp_new_config = [3], rp_config_sd = demo_sd\<rparr>"

lemma demo_sd_fields:
  "length demo_sd = 60" "le32 demo_sd 4 = 20" "le32 demo_sd 8 = 28" "le32 demo_sd 12 = 0" "le32 demo_sd 16 = 36"
  "le16 demo_sd 2 = 0x8004" "le16 demo_sd 38 = 24" "le16 demo_sd 40 = 1" "le16 demo_sd 46 = 16"
  "demo_sd ! 0 = 1" "demo_sd ! 20 = 1" "demo_sd ! 21 = 0" "demo_sd ! 28 = 1" "demo_sd ! 29 = 0" "demo_sd ! 36 = 2"
  "demo_sd ! 44 = 0" "demo_sd ! 52 = 1" "demo_sd ! 53 = 0" "demo_sd ! 27 = 5"
  "l4_store_get32 (drop 48 demo_sd) = 0x1200A9"
  by (simp_all add: demo_sd_def le32_def le16_def l4_store_get32_def upto_4)

lemma demo_policy: "policy demo_api demo_sd"
proof -
  have "ace_loop demo_api demo_sd 60 (Suc 0) 44" by (simp add: demo_sd_fields sid_range_def)
  then show ?thesis
    by (simp add: policy_def policy_aligned_def demo_sd_fields sid_range_def demo_api_def)
qed

lemma demo_commands:
  "command demo_full_path demo_layout (demo_command ''1.2.3'')
     = Some (wide '' -x'', demo_programs @ BSLASH # wide ''releases'' @ BSLASH # wide ''1.2.3'' @ BSLASH # wide ''l4superv'' @ BSLASH # wide ''l4superv.exe'')"
  "command demo_full_path demo_layout (demo_command ''1.3.0'')
     = Some (wide '' -x'', demo_programs @ BSLASH # wide ''releases'' @ BSLASH # wide ''1.3.0'' @ BSLASH # wide ''l4superv'' @ BSLASH # wide ''l4superv.exe'')"
  by code_simp+

lemma demo_plan_valid: "plan_valid demo_full_path demo_api demo_layout demo_plan"
  unfolding plan_valid_def demo_plan_def by (simp add: demo_commands demo_policy nonzero_def list_ex_iff) (simp add: wide_def)

lemma demo_plan_sized: "plan_sized demo_plan"
  by (simp add: plan_sized_def demo_plan_def demo_command_def wide_def)

section \<open>Properties\<close>

text \<open>
  C22: The helper reads what the updater wrote. The record of every valid plan fits its limit and is
  read as that plan, every field of it; the record of an outcome is read as that outcome against the
  plan it belongs to.
\<close>

theorem recovery_records_roundtrip:
  assumes "\<forall>x h. sha x = Some h \<longrightarrow> length h = 32" "plan_sized p"
    and "l4_recovery_encode sha full_path api roots p = Some b"
  shows "l4_recovery_decode sha full_path api roots b = Some p \<and> length b \<le> L4_RECOVERY_PLAN_LIMIT
    \<and> (\<forall>hash status error r. length hash = 32 \<and> l4_recovery_result_encode sha p hash status error = Some r
         \<longrightarrow> l4_recovery_result_decode sha p hash r = Some (status, error))"
proof -
  define body where "body = plan_head p @ wide_bytes (rp_before p) @ wide_bytes (rp_after p) @ rp_old_config p @ rp_new_config p @ rp_config_sd p"
  obtain hash where h: "plan_valid full_path api roots p" "sha body = Some hash" "b = body @ hash"
    using assms(3) by (auto simp: l4_recovery_encode_def body_def [symmetric] Let_def split: if_splits)
  have len: "length hash = 32" using assms(1) h(2) by blast
  have "length b \<le> L4_RECOVERY_PLAN_LIMIT"
    using plan_valid_limits [OF h(1)] plan_head_fields(1) [OF assms(2)] len by (simp add: h(3) body_def wide_bytes_length)
  then show ?thesis
    using decode_encoded [where sha = sha, OF assms(2) h(1) body_def h(2) len] h(3) result_roundtrip [OF _ assms(2) _ assms(1)] by blast
qed

theorem recovery_records_roundtrip_witness:
  "\<exists>b. l4_recovery_encode (\<lambda>_. Some (replicate 32 0)) demo_full_path demo_api demo_layout demo_plan = Some b
    \<and> l4_recovery_decode (\<lambda>_. Some (replicate 32 0)) demo_full_path demo_api demo_layout b = Some demo_plan"
proof -
  obtain b where b: "l4_recovery_encode (\<lambda>_. Some (replicate 32 0)) demo_full_path demo_api demo_layout demo_plan = Some b"
    using demo_plan_valid by (simp add: l4_recovery_encode_def)
  moreover have "\<forall>x h. Some (replicate 32 (0 :: u8)) = Some h \<longrightarrow> length h = 32" by auto
  ultimately show ?thesis using recovery_records_roundtrip [OF _ demo_plan_sized b] by blast
qed

text \<open>
  C21: What a plan can make the helper do. A plan that is read, whatever bytes it came from, switches
  between the supervisors of two different versions of the installation, each in the directory of its
  release, with the same arguments; the descriptor of the configuration it restores has an access list
  that is in force and not empty, whose entries all allow and grant rights to change the file to the
  system and the administrators only, who also own it; and its times are bounded. Who the system and
  the administrators are is the answer of \<open>IsWellKnownSid\<close>, a parameter.
\<close>

theorem recovery_plan_confined:
  assumes "l4_recovery_decode sha full_path api roots b = Some p"
  shows "(\<exists>args v w old candidate L L'. v \<noteq> w
      \<and> l4_layout_from_roots full_path (ly_binaries roots) (ly_data roots) v = Some L
      \<and> l4_layout_from_roots full_path (ly_binaries roots) (ly_data roots) w = Some L'
      \<and> l4_layout_component L (wide ''l4superv'') (wide ''l4superv.exe'') = Some old
      \<and> l4_layout_component L' (wide ''l4superv'') (wide ''l4superv.exe'') = Some candidate
      \<and> rp_before p = 0x22 # old @ 0x22 # args \<and> rp_after p = 0x22 # candidate @ 0x22 # args)
    \<and> trusted_sid api (owner_sid (rp_config_sd p)) \<and> 8 \<le> length (owner_sid (rp_config_sd p))
    \<and> (\<exists>es. aces (rp_config_sd p) = Some es \<and> es \<noteq> []
         \<and> list_all (\<lambda>(kind, rights, sid). kind = 0 \<and> 8 \<le> length sid
              \<and> (trusted_sid api sid \<or> rights AND WRITE_RIGHTS = 0)) es)
    \<and> rp_armed_utc p < rp_deadline_utc p \<and> rp_recovery_ms p \<le> 300000"
proof -
  note v = plan_valid_parts [OF decode_valid [OF assms]]
  obtain args old candidate where c: "command full_path roots (rp_before p) = Some (args, old)"
    "command full_path roots (rp_after p) = Some (args, candidate)" "old \<noteq> candidate" using v(2) by blast
  note before = command_Some [OF c(1)] and after = command_Some [OF c(2)]
  obtain x y L L' where l: "l4_layout_from_roots full_path (ly_binaries roots) (ly_data roots) x = Some L"
    "l4_layout_component L (wide ''l4superv'') (wide ''l4superv.exe'') = Some old"
    "l4_layout_from_roots full_path (ly_binaries roots) (ly_data roots) y = Some L'"
    "l4_layout_component L' (wide ''l4superv'') (wide ''l4superv.exe'') = Some candidate"
    using before(2) after(2) by blast
  have "x \<noteq> y" using l c(3) by auto
  then have "\<exists>args v w old candidate L L'. v \<noteq> w
      \<and> l4_layout_from_roots full_path (ly_binaries roots) (ly_data roots) v = Some L
      \<and> l4_layout_from_roots full_path (ly_binaries roots) (ly_data roots) w = Some L'
      \<and> l4_layout_component L (wide ''l4superv'') (wide ''l4superv.exe'') = Some old
      \<and> l4_layout_component L' (wide ''l4superv'') (wide ''l4superv.exe'') = Some candidate
      \<and> rp_before p = 0x22 # old @ 0x22 # args \<and> rp_after p = 0x22 # candidate @ 0x22 # args"
    using l before(1) after(1) by blast
  then show ?thesis
    using v(3,5) policy_grants [OF v(1)] unfolding only_trusted_change_def by blast
qed

theorem recovery_plan_confined_witness:
  "\<exists>es. aces demo_sd = Some es \<and> es \<noteq> []
     \<and> list_all (\<lambda>(kind, rights, sid). kind = 0 \<and> (sid ! 7 = 5 \<or> rights AND WRITE_RIGHTS = 0)) es"
proof -
  define body where "body = plan_head demo_plan @ wide_bytes (rp_before demo_plan) @ wide_bytes (rp_after demo_plan)
    @ rp_old_config demo_plan @ rp_new_config demo_plan @ rp_config_sd demo_plan"
  have "l4_recovery_decode (\<lambda>_. Some (replicate 32 0)) demo_full_path demo_api demo_layout (body @ replicate 32 0) = Some demo_plan"
    by (rule decode_encoded [OF demo_plan_sized demo_plan_valid body_def]) simp_all
  from recovery_plan_confined [OF this]
  obtain es where es: "aces (rp_config_sd demo_plan) = Some es" "es \<noteq> []"
    and all: "list_all (\<lambda>(kind, rights, sid). kind = 0 \<and> 8 \<le> length sid
      \<and> (trusted_sid demo_api sid \<or> rights AND WRITE_RIGHTS = 0)) es" by blast
  have "list_all (\<lambda>(kind, rights, sid). kind = 0 \<and> (sid ! 7 = 5 \<or> rights AND WRITE_RIGHTS = 0)) es"
    using all by (auto simp: demo_api_def list_all_iff)
  then show ?thesis using es by (intro exI [of _ es]) (simp add: demo_plan_def)
qed

end
