(* ===== verification/Mqtt_Codec.thy ===== *)
theory Mqtt_Codec
  imports L4_Prelude
begin

text \<open>
  The MQTT 5 packets of the console agent, \<open>tools/l4con/src/mqtt_protocol.c\<close>: the packets it builds,
  the packets it reads, and the user properties of remote calls. A buffer of the source is the list
  of the bytes written so far with its capacity, a C string the list of its bytes. A write outside a
  buffer is the result \<open>Overrun\<close>, a read outside a packet the result \<open>Fault\<close>; the theorems state when
  these occur. A size of an object in memory is a natural number; a difference of sizes wraps like
  \<open>size_t\<close> when it would be negative.
\<close>

section \<open>Definitions of the source\<close>

datatype built = Overrun | Refused | Built bytes

datatype 'a parsed = Fault | Reject | Parsed 'a

abbreviation MQTT_PKT_CONNECT :: u8 where "MQTT_PKT_CONNECT \<equiv> 0x10"
abbreviation MQTT_PKT_PUBLISH :: u8 where "MQTT_PKT_PUBLISH \<equiv> 0x30"
abbreviation MQTT_PKT_PUBACK :: u8 where "MQTT_PKT_PUBACK \<equiv> 0x40"
abbreviation MQTT_PKT_SUBSCRIBE :: u8 where "MQTT_PKT_SUBSCRIBE \<equiv> 0x82"
abbreviation MQTT_PKT_PINGREQ :: u8 where "MQTT_PKT_PINGREQ \<equiv> 0xC0"
abbreviation MQTT_PKT_DISCONNECT :: u8 where "MQTT_PKT_DISCONNECT \<equiv> 0xE0"

function mqtt_encode_remaining_length :: "u32 \<Rightarrow> bytes" where
  "mqtt_encode_remaining_length len =
     (let d = ucast (len mod 128) :: u8; len' = len div 128 in
      if 0 < len' then (d OR 128) # mqtt_encode_remaining_length len' else [d])"
  by pat_completeness auto
termination
proof (relation "measure unat")
  fix len len' :: u32
  assume "len' = len div 128" "0 < len'"
  then show "(len', len) \<in> measure unat"
    by (auto simp: unat_div word_less_nat_alt intro!: div_less_dividend)
qed simp

declare mqtt_encode_remaining_length.simps [simp del]

definition size_sub :: "nat \<Rightarrow> nat \<Rightarrow> nat" where
  "size_sub a b = (if b \<le> a then a - b else 2 ^ 64 + a - b)"

lemma size_sub_le [simp]: "b \<le> a \<Longrightarrow> size_sub a b = a - b"
  by (simp add: size_sub_def)

definition and_then :: "'b parsed \<Rightarrow> ('b \<Rightarrow> 'a parsed) \<Rightarrow> 'a parsed" where
  "and_then x f = (case x of Fault \<Rightarrow> Fault | Reject \<Rightarrow> Reject | Parsed y \<Rightarrow> f y)"

text \<open>
  The loop of \<open>mqtt_decode_remaining_length\<close>. The list holds the bytes from the current one to the end
  of the packet in memory, whatever length the caller claims; reading behind them is a fault.
\<close>

fun decode_length_loop :: "nat \<Rightarrow> u32 \<Rightarrow> u32 \<Rightarrow> nat \<Rightarrow> bytes \<Rightarrow> (u32 \<times> nat) parsed" where
  "decode_length_loop buf_len multiplier acc n [] = (if buf_len \<le> n \<or> 4 \<le> n then Reject else Fault)"
| "decode_length_loop buf_len multiplier acc n (b # buf) =
     (if buf_len \<le> n \<or> 4 \<le> n then Reject
      else
        let acc = acc + ucast (b AND 127) * multiplier in
        if 128 * 128 * 128 < multiplier then Reject
        else if b AND 128 \<noteq> 0 then decode_length_loop buf_len (multiplier * 128) acc (n + 1) buf
        else Parsed (acc, n + 1))"

definition mqtt_decode_remaining_length :: "bytes \<Rightarrow> nat \<Rightarrow> (u32 \<times> nat) parsed" where
  "mqtt_decode_remaining_length buf buf_len = decode_length_loop buf_len 1 0 0 buf"

text \<open>The two bytes of the length lose what does not fit into them.\<close>

definition write_utf8_string :: "bytes \<Rightarrow> bytes" where
  "write_utf8_string str = of_nat (length str div 256) # of_nat (length str) # str"

definition put16 :: "u16 \<Rightarrow> bytes" where
  "put16 v = [ucast (drop_bit 8 v), ucast v]"

definition connect_flags :: u8 where
  "connect_flags = 0x80 OR 0x20 OR 0x08 OR 0x04 OR 0x02"

definition connect_body :: "bytes \<Rightarrow> bytes \<Rightarrow> bytes \<Rightarrow> bytes \<Rightarrow> u16 \<Rightarrow> bytes" where
  "connect_body client_id will_topic will_payload username keepalive_sec =
     write_utf8_string [0x4D, 0x51, 0x54, 0x54] @ [5] @ [connect_flags] @ put16 keepalive_sec @ [0]
     @ write_utf8_string client_id @ [0] @ write_utf8_string will_topic @ write_utf8_string will_payload
     @ write_utf8_string username"

text \<open>\<open>payload_buf\<close> has 2048 bytes; the fixed header is written before the capacity is checked.\<close>

definition mqtt_build_connect :: "nat \<Rightarrow> bytes \<Rightarrow> bytes \<Rightarrow> bytes \<Rightarrow> bytes \<Rightarrow> u16 \<Rightarrow> built" where
  "mqtt_build_connect max_len client_id will_topic will_payload username keepalive_sec =
     (let payload_buf = connect_body client_id will_topic will_payload username keepalive_sec in
      if 2048 < length payload_buf then Overrun
      else
        let head = MQTT_PKT_CONNECT # mqtt_encode_remaining_length (of_nat (length payload_buf)) in
        if max_len < length head then Overrun
        else if max_len < length head + length payload_buf then Refused
        else Built (head @ payload_buf))"

text \<open>The property buffer has 1024 bytes.\<close>

fun user_properties :: "(bytes \<times> bytes) list \<Rightarrow> bytes \<Rightarrow> built" where
  "user_properties [] property_buf = Built property_buf"
| "user_properties ((name, val) # ps) property_buf =
     (let added = 1 + 2 + length name + 2 + length val in
      if 65535 < length name \<or> 65535 < length val \<or> 1024 - length property_buf < added then Refused
      else if 1024 < length property_buf + added then Overrun
      else user_properties ps (property_buf @ [0x26] @ write_utf8_string name @ write_utf8_string val))"

definition expiry_property :: "u32 \<Rightarrow> bytes" where
  "expiry_property seconds =
     (if seconds \<noteq> 0 then 0x02 # map (\<lambda>shift. ucast (drop_bit shift seconds)) [24, 16, 8, 0] else [])"

definition publish_header :: "u8 \<Rightarrow> u8 \<Rightarrow> u8" where
  "publish_header qos retain = MQTT_PKT_PUBLISH OR push_bit 1 (qos AND 3) OR (retain AND 1)"

definition mqtt_build_publish_expiring ::
    "nat \<Rightarrow> bytes \<Rightarrow> bytes \<Rightarrow> u16 \<Rightarrow> u8 \<Rightarrow> u8 \<Rightarrow> (bytes \<times> bytes) list \<Rightarrow> u32 \<Rightarrow> built" where
  "mqtt_build_publish_expiring max_len topic payload packet_id qos retain properties expiry_seconds =
     (if 1 < qos \<or> 65535 < length topic then Refused
      else case user_properties properties (expiry_property expiry_seconds) of
          Overrun \<Rightarrow> Overrun
        | Refused \<Rightarrow> Refused
        | Built property_buf \<Rightarrow>
            let property_len_encoded = mqtt_encode_remaining_length (of_nat (length property_buf)) in
            if 4 < length property_len_encoded then Overrun
            else
              let var_header_len = 2 + length topic + (if 0 < qos then 2 else 0)
                    + length property_len_encoded + length property_buf;
                  rem_len = var_header_len + length payload in
              if 268435455 < rem_len \<or> max_len < rem_len + 5 then Refused
              else
                let head = publish_header qos retain # mqtt_encode_remaining_length (of_nat rem_len) in
                if max_len < length head then Overrun
                else if max_len < length head + rem_len then Refused
                else
                  let out = head @ write_utf8_string topic @ (if 0 < qos then put16 packet_id else [])
                        @ property_len_encoded @ property_buf @ payload in
                  if max_len < length out then Overrun else Built out)"

definition mqtt_build_publish_with_properties ::
    "nat \<Rightarrow> bytes \<Rightarrow> bytes \<Rightarrow> u16 \<Rightarrow> u8 \<Rightarrow> u8 \<Rightarrow> (bytes \<times> bytes) list \<Rightarrow> built" where
  "mqtt_build_publish_with_properties max_len topic payload packet_id qos retain properties =
     mqtt_build_publish_expiring max_len topic payload packet_id qos retain properties 0"

definition mqtt_build_publish :: "nat \<Rightarrow> bytes \<Rightarrow> bytes \<Rightarrow> u16 \<Rightarrow> u8 \<Rightarrow> u8 \<Rightarrow> built" where
  "mqtt_build_publish max_len topic payload packet_id qos retain =
     mqtt_build_publish_with_properties max_len topic payload packet_id qos retain []"

definition mqtt_build_subscribe :: "nat \<Rightarrow> bytes \<Rightarrow> u16 \<Rightarrow> u8 \<Rightarrow> built" where
  "mqtt_build_subscribe max_len topic packet_id qos =
     (let var_payload_len = 2 + 1 + (2 + length topic) + 1;
          head = MQTT_PKT_SUBSCRIBE # mqtt_encode_remaining_length (of_nat var_payload_len) in
      if max_len < length head then Overrun
      else if max_len < length head + var_payload_len then Refused
      else Built (head @ put16 packet_id @ [0] @ write_utf8_string topic @ [qos AND 3]))"

definition mqtt_build_puback :: "u16 \<Rightarrow> bytes" where
  "mqtt_build_puback packet_id = [MQTT_PKT_PUBACK, 2] @ put16 packet_id"

definition mqtt_build_pingreq :: bytes where
  "mqtt_build_pingreq = [MQTT_PKT_PINGREQ, 0]"

definition mqtt_build_disconnect :: bytes where
  "mqtt_build_disconnect = [MQTT_PKT_DISCONNECT, 0]"

text \<open>Reading one byte, and \<open>n\<close> bytes, of a packet.\<close>

definition rd :: "bytes \<Rightarrow> nat \<Rightarrow> (nat \<Rightarrow> 'a parsed) \<Rightarrow> 'a parsed" where
  "rd packet i f = (if i < length packet then f (unat (packet ! i)) else Fault)"

definition rd_slice :: "bytes \<Rightarrow> nat \<Rightarrow> nat \<Rightarrow> (bytes \<Rightarrow> 'a parsed) \<Rightarrow> 'a parsed" where
  "rd_slice packet i n f = (if i + n \<le> length packet then f (take n (drop i packet)) else Fault)"

definition metadata_string :: "bytes \<Rightarrow> nat \<Rightarrow> nat \<Rightarrow> (bytes \<Rightarrow> nat \<Rightarrow> 'a parsed) \<Rightarrow> 'a parsed" where
  "metadata_string packet end_at pos f =
     (if end_at < pos + 2 then Reject
      else rd packet pos (\<lambda>h. rd packet (pos + 1) (\<lambda>l.
        let len = h * 256 + l; pos = pos + 2 in
        if size_sub end_at pos < len then Reject
        else rd_slice packet pos len (\<lambda>t. f t (pos + len)))))"

record MqttRpcMetadata =
  md_method_code :: bytes
  md_correlation :: bytes
  md_payload_required :: bytes
  md_event_type_code :: bytes
  md_dev_event_id :: bytes
  md_iot_probe :: bytes

definition metadata_zero :: MqttRpcMetadata where
  "metadata_zero = \<lparr>md_method_code = [], md_correlation = [], md_payload_required = [],
     md_event_type_code = [], md_dev_event_id = [], md_iot_probe = []\<rparr>"

text \<open>The new content of a field of \<open>cap\<close> bytes; a value given twice must be the same.\<close>

definition set_member :: "nat \<Rightarrow> bytes \<Rightarrow> bytes \<Rightarrow> bytes option" where
  "set_member cap target val =
     (if val = [] \<or> cap \<le> length val \<or> 0 \<in> set val then None
      else if target \<noteq> [] \<and> target \<noteq> val then None
      else Some val)"

definition text_bytes :: "string \<Rightarrow> bytes" where
  "text_bytes s = map of_char s"

definition set_property :: "bytes \<Rightarrow> bytes \<Rightarrow> MqttRpcMetadata \<Rightarrow> MqttRpcMetadata option" where
  "set_property name val m =
     (if name = text_bytes ''method_code''
      then map_option (\<lambda>v. m\<lparr>md_method_code := v\<rparr>) (set_member 16 (md_method_code m) val)
      else if name = text_bytes ''correlationData''
      then map_option (\<lambda>v. m\<lparr>md_correlation := v\<rparr>) (set_member 40 (md_correlation m) val)
      else if name = text_bytes ''payload_required''
      then map_option (\<lambda>v. m\<lparr>md_payload_required := v\<rparr>) (set_member 2 (md_payload_required m) val)
      else if name = text_bytes ''event_type_code''
      then map_option (\<lambda>v. m\<lparr>md_event_type_code := v\<rparr>) (set_member 16 (md_event_type_code m) val)
      else if name = text_bytes ''dev_event_id''
      then map_option (\<lambda>v. m\<lparr>md_dev_event_id := v\<rparr>) (set_member 16 (md_dev_event_id m) val)
      else if name = text_bytes ''iot_probe''
      then map_option (\<lambda>v. m\<lparr>md_iot_probe := v\<rparr>) (set_member 2 (md_iot_probe m) val)
      else Some m)"

definition or_reject :: "'b option \<Rightarrow> ('b \<Rightarrow> 'a parsed) \<Rightarrow> 'a parsed" where
  "or_reject x f = (case x of None \<Rightarrow> Reject | Some y \<Rightarrow> f y)"

text \<open>One property: the position behind it and the metadata with it.\<close>

definition metadata_step :: "bytes \<Rightarrow> nat \<Rightarrow> nat \<Rightarrow> MqttRpcMetadata \<Rightarrow> (nat \<times> MqttRpcMetadata) parsed" where
  "metadata_step packet end_at pos m =
     rd packet pos (\<lambda>pid.
       let pos = pos + 1 in
       if pid = 0x26
       then metadata_string packet end_at pos (\<lambda>name pos.
              metadata_string packet end_at pos (\<lambda>val pos.
                or_reject (set_property name val m) (\<lambda>m. Parsed (pos, m))))
       else if pid = 0x03 \<or> pid = 0x08 \<or> pid = 0x09
       then metadata_string packet end_at pos (\<lambda>val pos.
              if pid = 0x09
              then or_reject (set_member 40 (md_correlation m) val) (\<lambda>v. Parsed (pos, m\<lparr>md_correlation := v\<rparr>))
              else Parsed (pos, m))
       else if pid = 0x01 then (if end_at < pos + 1 then Reject else Parsed (pos + 1, m))
       else if pid = 0x02 then (if end_at < pos + 4 then Reject else Parsed (pos + 4, m))
       else if pid = 0x23 then (if end_at < pos + 2 then Reject else Parsed (pos + 2, m))
       else if pid = 0x0b
       then and_then (mqtt_decode_remaining_length (drop pos packet) (size_sub end_at pos))
              (\<lambda>(_, used). Parsed (pos + used, m))
       else Reject)"


lemma rd_Parsed: "rd packet i f = Parsed x \<Longrightarrow> \<exists>b. f b = Parsed x"
  by (auto simp: rd_def split: if_splits)

lemma metadata_string_Parsed:
  "metadata_string packet end_at pos f = Parsed x \<Longrightarrow> \<exists>t pos'. f t pos' = Parsed x \<and> pos < pos'"
  by (force simp: metadata_string_def rd_def rd_slice_def Let_def split: if_splits)

lemma or_reject_Parsed: "or_reject x f = Parsed y \<Longrightarrow> \<exists>z. x = Some z \<and> f z = Parsed y"
  by (auto simp: or_reject_def split: option.splits)

lemma and_then_Parsed: "and_then x f = Parsed y \<Longrightarrow> \<exists>z. x = Parsed z \<and> f z = Parsed y"
  by (auto simp: and_then_def split: parsed.splits)

lemma decode_length_used:
  "decode_length_loop buf_len k a n buf = Parsed (v, used) \<Longrightarrow>
     n < used \<and> used \<le> n + length buf \<and> used \<le> buf_len \<and> used \<le> 4"
  by (induction buf_len k a n buf rule: decode_length_loop.induct) (auto simp: Let_def split: if_splits)

lemma metadata_step_advances: "metadata_step packet end_at pos m = Parsed (pos', m') \<Longrightarrow> pos < pos'"
  unfolding metadata_step_def Let_def mqtt_decode_remaining_length_def
  by (drule rd_Parsed)
     (fastforce dest!: metadata_string_Parsed or_reject_Parsed and_then_Parsed decode_length_used
       split: if_splits prod.splits)

function metadata_loop :: "bytes \<Rightarrow> nat \<Rightarrow> nat \<Rightarrow> MqttRpcMetadata \<Rightarrow> MqttRpcMetadata parsed" where
  "metadata_loop packet end_at pos m =
     (if pos < end_at
      then case metadata_step packet end_at pos m of
          Fault \<Rightarrow> Fault
        | Reject \<Rightarrow> Reject
        | Parsed (pos', m') \<Rightarrow> metadata_loop packet end_at pos' m'
      else Parsed m)"
  by pat_completeness auto
termination
  by (relation "measure (\<lambda>(_, end_at, pos, _). end_at - pos)") (auto dest: metadata_step_advances)

declare metadata_loop.simps [simp del]

definition qos_of :: "u8 \<Rightarrow> u8" where
  "qos_of flags = drop_bit 1 flags AND 3"

definition mqtt_parse_rpc_metadata :: "bytes \<Rightarrow> u8 \<Rightarrow> MqttRpcMetadata parsed" where
  "mqtt_parse_rpc_metadata packet flags =
     (if length packet < 2 then Reject
      else rd packet 0 (\<lambda>h. rd packet 1 (\<lambda>l.
        let pos = 2 + (h * 256 + l);
            pos = (if 0 < qos_of flags then pos + 2 else pos) in
        if length packet \<le> pos then Reject
        else and_then (mqtt_decode_remaining_length (drop pos packet) (size_sub (length packet) pos))
            (\<lambda>(property_length, used).
          let pos = pos + used in
          if size_sub (length packet) pos < unat property_length then Reject
          else metadata_loop packet (pos + unat property_length) pos metadata_zero))))"

text \<open>The end of \<open>mqtt_parse_publish\<close>: the properties are skipped, the payload is the rest.\<close>

definition parse_payload :: "bytes \<Rightarrow> bytes \<Rightarrow> u16 \<Rightarrow> nat \<Rightarrow> (bytes \<times> u16 \<times> bytes) parsed" where
  "parse_payload packet topic packet_id pos =
     and_then (mqtt_decode_remaining_length (drop pos packet) (size_sub (length packet) pos)) (\<lambda>(property_len, used).
       let pos = pos + used in
       if size_sub (length packet) pos < unat property_len then Reject
       else
         let pos = pos + unat property_len in
         rd_slice packet pos (size_sub (length packet) pos) (\<lambda>payload. Parsed (topic, packet_id, payload)))"

definition mqtt_parse_publish :: "bytes \<Rightarrow> u8 \<Rightarrow> nat \<Rightarrow> (bytes \<times> u16 \<times> bytes) parsed" where
  "mqtt_parse_publish packet flags max_topic_len =
     (if length packet < 2 then Reject
      else rd packet 0 (\<lambda>h. rd packet 1 (\<lambda>l.
        let topic_len = h * 256 + l in
        if length packet < 2 + topic_len then Reject
        else if max_topic_len \<le> topic_len then Reject
        else rd_slice packet 2 topic_len (\<lambda>topic.
          let pos = 2 + topic_len in
          if 0 < qos_of flags
          then if length packet < pos + 2 then Reject
               else rd packet pos (\<lambda>h. rd packet (pos + 1) (\<lambda>l.
                 parse_payload packet topic (of_nat (h * 256 + l)) (pos + 2)))
          else parse_payload packet topic 0 pos))))"


section \<open>Lengths\<close>

lemma bit_128: "bit (128 :: 'a::len word) n \<longleftrightarrow> n = 7 \<and> n < LENGTH('a)"
proof -
  have "(128 :: 'a word) = 2 ^ 7" by simp
  then show ?thesis by (simp only: bit_exp_iff) (auto simp: possible_bit_def)
qed

lemma bit_128_int: "bit (128 :: int) n \<longleftrightarrow> n = 7"
proof -
  have "(128 :: int) = 2 ^ 7" by simp
  then show ?thesis by (simp only: bit_exp_iff) (auto simp: possible_bit_def)
qed

lemma length_byte:
  fixes x :: u32
  shows "(ucast (x mod 128) OR 128 :: u8) AND 128 \<noteq> 0"
    "ucast ((ucast (x mod 128) OR 128 :: u8) AND 127) = x mod 128"
    "(ucast (x mod 128) :: u8) AND 128 = 0" "ucast ((ucast (x mod 128) :: u8) AND 127) = x mod 128"
proof -
  have m: "x mod 128 = take_bit 7 x" by (simp add: take_bit_eq_mod)
  have low: "(127 :: u8) = mask 7" by (simp add: mask_eq_exp_minus_1)
  have "bit ((ucast (x mod 128) OR 128 :: u8) AND 128) 7" by (simp add: bit_simps bit_128 bit_128_int)
  then show "(ucast (x mod 128) OR 128 :: u8) AND 128 \<noteq> 0" by auto
  show "(ucast (x mod 128) :: u8) AND 128 = 0"
    unfolding m by (rule bit_word_eqI) (auto simp: bit_simps bit_128 bit_128_int)
  have last: "ucast ((ucast (x mod 128) :: u8) AND 127) = x mod 128"
    unfolding m low by (rule bit_word_eqI) (auto simp: bit_simps)
  then show "ucast ((ucast (x mod 128) :: u8) AND 127) = x mod 128" .
  have "(ucast (x mod 128) OR 128 :: u8) AND 127 = ucast (x mod 128) AND 127"
    unfolding low by (rule bit_word_eqI) (auto simp: bit_simps bit_128 bit_128_int)
  then show "ucast ((ucast (x mod 128) OR 128 :: u8) AND 127) = x mod 128" using last by simp
qed

lemma small_multiplier: "k < 4 \<Longrightarrow> \<not> 128 * 128 * 128 < (128 :: u32) ^ k"
proof -
  assume "k < 4"
  then consider "k = 0" | "k = 1" | "k = 2" | "k = 3" by linarith
  then show ?thesis by cases simp_all
qed

lemma decode_encode_loop:
  "k < 4 \<Longrightarrow> unat len < 128 ^ (4 - k) \<Longrightarrow>
     k + length (mqtt_encode_remaining_length len) \<le> buf_len \<Longrightarrow>
     decode_length_loop buf_len (128 ^ k) acc k (mqtt_encode_remaining_length len @ rest)
       = Parsed (acc + len * 128 ^ k, k + length (mqtt_encode_remaining_length len))
     \<and> k + length (mqtt_encode_remaining_length len) \<le> 4"
proof (induction len arbitrary: k acc rule: mqtt_encode_remaining_length.induct)
  case (1 len)
  have split: "len mod 128 * 128 ^ k + len div 128 * 128 ^ Suc k = len * 128 ^ k"
  proof -
    have "len * 128 ^ k = (len div 128 * 128 + len mod 128) * 128 ^ k" by (simp only: div_mult_mod_eq)
    then show ?thesis by (simp only: distrib_right power_Suc mult.assoc add.commute)
  qed
  have d: "unat (len div 128) = unat len div 128" by (simp add: unat_div)
  show ?case
  proof (cases "0 < len div 128")
    case False
    then have "len div 128 = 0" by (simp add: word_gt_0)
    then show ?thesis
      using 1(2,4) split small_multiplier [OF 1(2)] mqtt_encode_remaining_length.simps [of len]
      by (simp add: length_byte)
  next
    case True
    have "128 \<le> unat len"
      using True d by (simp add: word_less_nat_alt div_greater_zero_iff)
    moreover have "128 ^ (4 - k) = (128 :: nat) * 128 ^ (4 - Suc k)"
      using 1(2) by (metis Suc_diff_Suc power_Suc)
    ultimately have "Suc k < 4" "unat (len div 128) < 128 ^ (4 - Suc k)"
      using 1(2,3) unfolding d by (cases "Suc k < 4", auto simp: less_mult_imp_div_less mult.commute)
    moreover have enc: "mqtt_encode_remaining_length len
        = (ucast (len mod 128) OR 128) # mqtt_encode_remaining_length (len div 128)"
      using True by (subst mqtt_encode_remaining_length.simps) simp
    moreover have "Suc k + length (mqtt_encode_remaining_length (len div 128)) \<le> buf_len"
      using 1(4) unfolding enc by simp
    ultimately have IH: "decode_length_loop buf_len (128 ^ Suc k) (acc + len mod 128 * 128 ^ k) (Suc k)
        (mqtt_encode_remaining_length (len div 128) @ rest)
      = Parsed (acc + len mod 128 * 128 ^ k + len div 128 * 128 ^ Suc k, Suc k + length (mqtt_encode_remaining_length (len div 128)))
      \<and> Suc k + length (mqtt_encode_remaining_length (len div 128)) \<le> 4"
      using 1(1) [OF refl refl True, of "Suc k" "acc + len mod 128 * 128 ^ k"] by blast
    have "k < buf_len" using 1(4) unfolding enc by simp
    then show ?thesis
      unfolding enc using IH 1(2) small_multiplier [OF 1(2)] split
      by (simp add: length_byte mult.commute add.assoc)
  qed
qed

lemma decode_encode_length:
  assumes "unat len < 268435456"
  shows "length (mqtt_encode_remaining_length len) \<le> buf_len \<Longrightarrow>
      mqtt_decode_remaining_length (mqtt_encode_remaining_length len @ rest) buf_len
        = Parsed (len, length (mqtt_encode_remaining_length len))"
    and "length (mqtt_encode_remaining_length len) \<le> 4"
  using decode_encode_loop [of 0 len "length (mqtt_encode_remaining_length len)" 0 rest]
    decode_encode_loop [of 0 len buf_len 0 rest] assms
  by (simp_all add: mqtt_decode_remaining_length_def)


section \<open>Reading stays inside the packet\<close>

lemma rd_inside: "i < length packet \<Longrightarrow> rd packet i f = f (unat (packet ! i))"
  by (simp add: rd_def)

lemma rd_slice_inside: "i + n \<le> length packet \<Longrightarrow> rd_slice packet i n f = f (take n (drop i packet))"
  by (simp add: rd_slice_def)

lemma metadata_string_safe:
  assumes "end_at \<le> length packet" "\<And>t pos'. pos < pos' \<Longrightarrow> pos' \<le> end_at \<Longrightarrow> f t pos' \<noteq> Fault"
  shows "metadata_string packet end_at pos f \<noteq> Fault"
proof (cases "end_at < pos + 2")
  case True
  then show ?thesis by (simp add: metadata_string_def)
next
  case False
  then show ?thesis
    using assms by (auto simp: metadata_string_def rd_inside Let_def rd_slice_def)
qed

lemma metadata_string_within:
  assumes "metadata_string packet end_at pos f = Parsed x"
  shows "\<exists>t pos'. f t pos' = Parsed x \<and> pos < pos' \<and> pos' \<le> end_at"
proof (cases "end_at < pos + 2")
  case True
  then show ?thesis using assms by (simp add: metadata_string_def)
next
  case False
  then obtain h l where "rd_slice packet (pos + 2) (h * 256 + l) (\<lambda>t. f t (pos + 2 + (h * 256 + l))) = Parsed x"
    "h * 256 + l \<le> end_at - (pos + 2)"
    using assms by (auto simp: metadata_string_def rd_def Let_def split: if_splits)
  then show ?thesis
    using False by (intro exI [of _ "take (h * 256 + l) (drop (pos + 2) packet)"] exI [of _ "pos + 2 + (h * 256 + l)"])
      (auto simp: rd_slice_def split: if_splits)
qed

lemma or_reject_safe: "(\<And>y. x = Some y \<Longrightarrow> f y \<noteq> Fault) \<Longrightarrow> or_reject x f \<noteq> Fault"
  by (cases x) (simp_all add: or_reject_def)

lemma and_then_safe: "x \<noteq> Fault \<Longrightarrow> (\<And>y. x = Parsed y \<Longrightarrow> f y \<noteq> Fault) \<Longrightarrow> and_then x f \<noteq> Fault"
  by (cases x) (simp_all add: and_then_def)

text \<open>A length field is read inside the packet when the claimed length lies inside it.\<close>

lemma decode_length_loop_safe:
  "buf_len \<le> n + length buf \<Longrightarrow> decode_length_loop buf_len k a n buf \<noteq> Fault"
  by (induction buf_len k a n buf rule: decode_length_loop.induct) (auto simp: Let_def)

lemma decode_length_safe: "buf_len \<le> length buf \<Longrightarrow> mqtt_decode_remaining_length buf buf_len \<noteq> Fault"
  unfolding mqtt_decode_remaining_length_def by (rule decode_length_loop_safe) simp

lemma metadata_step_safe:
  assumes "pos < end_at" "end_at \<le> length packet"
  shows "metadata_step packet end_at pos m \<noteq> Fault"
proof -
  have "rd packet pos f = f (unat (packet ! pos))" for f :: "nat \<Rightarrow> (nat \<times> MqttRpcMetadata) parsed"
    using assms by (simp add: rd_inside)
  moreover have "and_then (mqtt_decode_remaining_length (drop (pos + 1) packet) (size_sub end_at (pos + 1)))
      (\<lambda>(_, used). Parsed (pos + 1 + used, m)) \<noteq> Fault"
    using assms by (intro and_then_safe decode_length_safe) (auto split: prod.splits)
  ultimately show ?thesis
    unfolding metadata_step_def Let_def
    by (auto intro!: metadata_string_safe [OF assms(2)] or_reject_safe)
qed

lemma metadata_step_within:
  assumes "pos < end_at" "metadata_step packet end_at pos m = Parsed (pos', m')"
  shows "pos' \<le> end_at"
proof -
  from assms(2) [unfolded metadata_step_def Let_def, THEN rd_Parsed] show ?thesis
    using assms(1) unfolding mqtt_decode_remaining_length_def
    by (fastforce dest!: metadata_string_within or_reject_Parsed and_then_Parsed decode_length_used
        split: if_splits prod.splits)
qed

lemma metadata_loop_safe: "end_at \<le> length packet \<Longrightarrow> metadata_loop packet end_at pos m \<noteq> Fault"
proof (induction packet end_at pos m rule: metadata_loop.induct)
  case (1 packet end_at pos m)
  show ?case
  proof (cases "pos < end_at")
    case True
    then show ?thesis
      using 1 metadata_step_safe [OF True 1(2)] metadata_loop.simps [of packet end_at pos m]
      by (auto split: parsed.split)
  qed (simp add: metadata_loop.simps)
qed

lemma decoded_fits:
  "mqtt_decode_remaining_length buf buf_len = Parsed (v, used) \<Longrightarrow>
     0 < used \<and> used \<le> length buf \<and> used \<le> buf_len \<and> used \<le> 4"
  unfolding mqtt_decode_remaining_length_def by (drule decode_length_used) simp


text \<open>The number a length field stands for: seven bits of each byte, the first ones lowest.\<close>

definition groups :: "bytes \<Rightarrow> nat" where
  "groups bs = foldr (\<lambda>b n. unat b mod 128 + 128 * n) bs 0"

lemma byte_bits: "(b :: u8) AND 128 \<noteq> 0 \<longleftrightarrow> 128 \<le> unat b" "unat (ucast (b AND 127) :: u32) = unat b mod 128"
proof -
  have "b AND 127 = take_bit 7 b" unfolding take_bit_eq_mask by (simp add: mask_eq_exp_minus_1)
  then have "unat (b AND 127) = unat b mod 128" by (simp only: unsigned_take_bit_eq) (simp add: take_bit_eq_mod)
  then show "unat (ucast (b AND 127) :: u32) = unat b mod 128" by (simp add: unsigned_ucast_eq take_bit_nat_eq_self)
  have "(128 :: u8) = 2 ^ 7" by simp
  then have "b AND 128 \<noteq> 0 \<longleftrightarrow> bit b 7" by (simp only: and_exp_eq_0_iff_not_bit not_not)
  also have "\<dots> \<longleftrightarrow> bit (unat b) 7" by (simp add: bit_unsigned_iff)
  also have "\<dots> \<longleftrightarrow> odd (unat b div 128)" by (simp add: bit_iff_odd)
  also have "\<dots> \<longleftrightarrow> 128 \<le> unat b"
  proof (cases "unat b < 128")
    case False
    then have "unat b div 128 = 1" using unat_lt [of b] by (intro div_nat_eqI) simp_all
    then show ?thesis using False by simp
  qed simp
  finally show "b AND 128 \<noteq> 0 \<longleftrightarrow> 128 \<le> unat b" .
qed

lemma decode_length_exact:
  "decode_length_loop buf_len (128 ^ n) acc n buf = Parsed (v, used) \<Longrightarrow> unat acc < 128 ^ n \<Longrightarrow>
     unat v = unat acc + 128 ^ n * groups (take (used - n) buf) \<and> unat v < 128 ^ used
     \<and> (\<forall>i < used - n. 128 \<le> unat (buf ! i) \<longleftrightarrow> i + 1 < used - n)"
proof (induction buf arbitrary: n acc)
  case Nil
  then show ?case by (simp split: if_splits)
next
  case (Cons b buf)
  let ?acc = "acc + ucast (b AND 127) * 128 ^ n"
  have n: "n < 4" using Cons.prems(1) by (auto split: if_splits)
  have p: "unat ((128 :: u32) ^ n) = 128 ^ n" "(128 :: nat) ^ Suc n \<le> 268435456"
  proof -
    consider "n = 0" | "n = 1" | "n = 2" | "n = 3" using n by linarith
    then show "unat ((128 :: u32) ^ n) = 128 ^ n" "(128 :: nat) ^ Suc n \<le> 268435456" by (cases; simp)+
  qed
  have small: "unat acc + (unat b mod 128) * 128 ^ n < 128 ^ Suc n"
  proof -
    have "unat b mod 128 * 128 ^ n \<le> 127 * 128 ^ n" by (intro mult_right_mono) auto
    then show ?thesis using Cons.prems(2) unfolding power_Suc by linarith
  qed
  then have acc: "unat ?acc = unat acc + (unat b mod 128) * 128 ^ n"
    using p by (simp add: unat_word_ariths byte_bits)
  show ?case
  proof (cases "128 \<le> unat b")
    case True
    then have rec: "decode_length_loop buf_len (128 ^ Suc n) ?acc (Suc n) buf = Parsed (v, used)"
      using Cons.prems(1) byte_bits(1) [of b] by (auto simp: Let_def mult.commute split: if_splits)
    from Cons.IH [OF this] acc small have IH: "unat v = unat ?acc + 128 ^ Suc n * groups (take (used - Suc n) buf)"
      "unat v < 128 ^ used" "\<forall>i < used - Suc n. 128 \<le> unat (buf ! i) \<longleftrightarrow> i + 1 < used - Suc n" by simp_all
    have used: "used - n = Suc (used - Suc n)" "0 < used - Suc n" using decode_length_used [OF rec] by linarith+
    have "unat v = unat acc + 128 ^ n * groups (take (used - n) (b # buf))"
      using IH(1) acc unfolding used(1) groups_def by (simp add: algebra_simps)
    moreover have "128 \<le> unat ((b # buf) ! i) \<longleftrightarrow> i + 1 < used - n" if "i < used - n" for i
      using that True used IH(3) by (cases i) auto
    ultimately show ?thesis using IH(2) by blast
  next
    case False
    then have "v = ?acc" "used = Suc n"
      using Cons.prems(1) byte_bits(1) [of b] by (auto simp: Let_def split: if_splits)
    then show ?thesis using acc small False by (simp add: groups_def)
  qed
qed

section \<open>What the metadata holds fits its fields\<close>

definition metadata_fits :: "MqttRpcMetadata \<Rightarrow> bool" where
  "metadata_fits m \<longleftrightarrow> length (md_method_code m) < 16 \<and> length (md_correlation m) < 40
     \<and> length (md_payload_required m) < 2 \<and> length (md_event_type_code m) < 16
     \<and> length (md_dev_event_id m) < 16 \<and> length (md_iot_probe m) < 2"

lemma set_member_fits: "set_member cap target val = Some v \<Longrightarrow> length v < cap"
  by (auto simp: set_member_def split: if_splits)

lemma set_property_fits: "set_property name val m = Some m' \<Longrightarrow> metadata_fits m \<Longrightarrow> metadata_fits m'"
  by (auto simp: set_property_def metadata_fits_def dest!: set_member_fits split: if_splits)

lemma set_correlation_fits:
  "set_member 40 target val = Some v \<Longrightarrow> metadata_fits m \<Longrightarrow> metadata_fits (m\<lparr>md_correlation := v\<rparr>)"
  by (auto simp: metadata_fits_def dest: set_member_fits)

lemma metadata_step_fits:
  "metadata_step packet end_at pos m = Parsed (pos', m') \<Longrightarrow> metadata_fits m \<Longrightarrow> metadata_fits m'"
  unfolding metadata_step_def Let_def
  by (drule rd_Parsed)
     (auto dest!: metadata_string_Parsed or_reject_Parsed and_then_Parsed split: if_split_asm
       intro: set_property_fits set_correlation_fits)

lemma metadata_loop_fits:
  "metadata_loop packet end_at pos m = Parsed m' \<Longrightarrow> metadata_fits m \<Longrightarrow> metadata_fits m'"
proof (induction packet end_at pos m rule: metadata_loop.induct)
  case (1 packet end_at pos m)
  show ?case
  proof (cases "pos < end_at")
    case True
    then obtain pos1 m1 where s: "metadata_step packet end_at pos m = Parsed (pos1, m1)"
      "metadata_loop packet end_at pos1 m1 = Parsed m'"
      using 1(2) metadata_loop.simps [of packet end_at pos m] by (auto split: parsed.splits)
    then show ?thesis using 1(1) [OF True s(1) refl s(2)] metadata_step_fits [OF s(1) 1(3)] by blast
  next
    case False
    then show ?thesis using 1(2,3) metadata_loop.simps [of packet end_at pos m] by simp
  qed
qed

lemma parse_metadata_fits: "mqtt_parse_rpc_metadata packet flags = Parsed m \<Longrightarrow> metadata_fits m"
  unfolding mqtt_parse_rpc_metadata_def rd_def Let_def
  by (auto split: if_splits dest!: and_then_Parsed metadata_loop_fits simp: metadata_fits_def metadata_zero_def)

lemma parse_topic_fits:
  "mqtt_parse_publish packet flags max_topic_len = Parsed (topic, i, payload) \<Longrightarrow> length topic < max_topic_len"
  unfolding mqtt_parse_publish_def parse_payload_def rd_def rd_slice_def Let_def
  by (auto split: if_splits dest!: and_then_Parsed)

section \<open>Reading what was built\<close>

lemma unat_u8_of_nat: "unat (of_nat n :: u8) = n mod 256"
  by (simp add: unat_of_nat)

lemma string_length: "length (write_utf8_string t) = 2 + length t"
  by (simp add: write_utf8_string_def)

lemma string_head:
  assumes "length t \<le> 65535"
  shows "unat (write_utf8_string t ! 0) * 256 + unat (write_utf8_string t ! 1) = length t"
  using assms by (simp add: write_utf8_string_def unat_u8_of_nat)

lemma metadata_string_reads:
  assumes "packet = pre @ write_utf8_string t @ post" "pos = length pre" "length t \<le> 65535"
    and "pos + 2 + length t \<le> end_at"
  shows "metadata_string packet end_at pos f = f t (pos + 2 + length t)"
proof -
  have h: "packet ! pos = write_utf8_string t ! 0" "packet ! (pos + 1) = write_utf8_string t ! 1"
    using assms(1,2) by (simp_all add: nth_append write_utf8_string_def)
  have t: "take (length t) (drop (pos + 2) packet) = t"
    using assms(1,2) by (simp add: write_utf8_string_def)
  have long: "pos + 2 + length t \<le> length packet" using assms(1,2) by (simp add: string_length)
  then have i: "pos < length packet" "pos + 1 < length packet" by simp_all
  show ?thesis
    unfolding metadata_string_def Let_def rd_inside [OF i(1)] rd_inside [OF i(2)] h string_head [OF assms(3)]
      rd_slice_inside [OF long] t
    using assms(4) by (auto simp: not_less)
qed

definition property_bytes :: "bytes \<times> bytes \<Rightarrow> bytes" where
  "property_bytes p = [0x26] @ write_utf8_string (fst p) @ write_utf8_string (snd p)"

definition property_ok :: "bytes \<times> bytes \<Rightarrow> bool" where
  "property_ok p \<longleftrightarrow> length (fst p) \<le> 65535 \<and> length (snd p) \<le> 65535"

lemma user_properties_built:
  "user_properties ps buf = Built out \<Longrightarrow> length buf \<le> 1024 \<Longrightarrow>
     out = buf @ concat (map property_bytes ps) \<and> list_all property_ok ps \<and> length out \<le> 1024"
proof (induction ps arbitrary: buf)
  case (Cons p ps)
  obtain n v where p: "p = (n, v)" by (cases p)
  have "user_properties ps (buf @ property_bytes p) = Built out" "property_ok p"
    "length (buf @ property_bytes p) \<le> 1024"
    using Cons.prems p
    by (auto simp: property_bytes_def property_ok_def string_length Let_def split: if_splits)
  with Cons.IH [of "buf @ property_bytes p"] have out: "out = (buf @ property_bytes p) @ concat (map property_bytes ps)"
    and rest: "list_all property_ok ps" "length out \<le> 1024" by blast+
  show ?case
  proof (intro conjI)
    show "out = buf @ concat (map property_bytes (p # ps))" using out by simp
  qed (use rest \<open>property_ok p\<close> in simp_all)
qed auto

lemma user_properties_safe: "length buf \<le> 1024 \<Longrightarrow> user_properties ps buf \<noteq> Overrun"
proof (induction ps arbitrary: buf)
  case (Cons p ps)
  then show ?case by (cases p) (auto simp: Let_def string_length)
qed simp

text \<open>What the properties of a publication do to the metadata, without positions.\<close>

fun rpc_metadata_of :: "(bytes \<times> bytes) list \<Rightarrow> MqttRpcMetadata \<Rightarrow> MqttRpcMetadata option" where
  "rpc_metadata_of [] m = Some m"
| "rpc_metadata_of (p # ps) m = Option.bind (set_property (fst p) (snd p) m) (rpc_metadata_of ps)"

text \<open>
  What they mean: each field of the metadata has one name, and the values given under it must all be
  the same, not empty, free of zero bytes and short enough for the field with its terminating zero.
\<close>

definition given :: "string \<Rightarrow> (bytes \<times> bytes) list \<Rightarrow> bytes list" where
  "given name ps = map snd (filter (\<lambda>p. fst p = text_bytes name) ps)"

definition agreed :: "nat \<Rightarrow> bytes list \<Rightarrow> bool" where
  "agreed cap vs \<longleftrightarrow> list_all (\<lambda>v. v \<noteq> [] \<and> length v < cap \<and> 0 \<notin> set v \<and> v = hd vs) vs"

definition common :: "bytes list \<Rightarrow> bytes" where
  "common vs = (case vs of [] \<Rightarrow> [] | v # _ \<Rightarrow> v)"

definition call_metadata :: "(bytes \<times> bytes) list \<Rightarrow> MqttRpcMetadata option" where
  "call_metadata ps =
     (if agreed 16 (given ''method_code'' ps) \<and> agreed 40 (given ''correlationData'' ps)
         \<and> agreed 2 (given ''payload_required'' ps) \<and> agreed 16 (given ''event_type_code'' ps)
         \<and> agreed 16 (given ''dev_event_id'' ps) \<and> agreed 2 (given ''iot_probe'' ps)
      then Some \<lparr>md_method_code = common (given ''method_code'' ps),
                 md_correlation = common (given ''correlationData'' ps),
                 md_payload_required = common (given ''payload_required'' ps),
                 md_event_type_code = common (given ''event_type_code'' ps),
                 md_dev_event_id = common (given ''dev_event_id'' ps),
                 md_iot_probe = common (given ''iot_probe'' ps)\<rparr>
      else None)"

fun set_all :: "nat \<Rightarrow> bytes \<Rightarrow> bytes list \<Rightarrow> bytes option" where
  "set_all cap target [] = Some target"
| "set_all cap target (v # vs) = Option.bind (set_member cap target v) (\<lambda>t. set_all cap t vs)"

lemma set_all_again:
  "target \<noteq> [] \<Longrightarrow> set_all cap target vs =
     (if list_all (\<lambda>v. length v < cap \<and> 0 \<notin> set v \<and> v = target) vs then Some target else None)"
  by (induction vs) (auto simp: set_member_def)

lemma set_all_agreed: "set_all cap [] vs = (if agreed cap vs then Some (common vs) else None)"
  by (cases vs) (auto simp: set_member_def agreed_def common_def set_all_again list_all_iff)

text \<open>The fields are filled independently of each other.\<close>

lemma text_bytes_eq: "text_bytes s = text_bytes t \<longleftrightarrow> s = t"
proof -
  have "c = d" if "(of_char c :: u8) = of_char d" for c d
  proof -
    have "unat (of_nat (of_char c) :: u8) = unat (of_nat (of_char d) :: u8)" using that by (simp add: of_nat_of_char)
    then have "(of_char c :: nat) = of_char d" by (simp add: unat_of_nat)
    then show ?thesis by simp
  qed
  then have "inj (of_char :: char \<Rightarrow> u8)" by (rule injI)
  then show ?thesis by (simp add: text_bytes_def inj_map_eq_map)
qed

lemma given_simps:
  "given name [] = []"
  "given name (p # ps) = (if fst p = text_bytes name then snd p # given name ps else given name ps)"
  by (simp_all add: given_def)

lemma rpc_metadata_fields:
  "rpc_metadata_of ps m =
     Option.bind (set_all 16 (md_method_code m) (given ''method_code'' ps)) (\<lambda>a.
     Option.bind (set_all 40 (md_correlation m) (given ''correlationData'' ps)) (\<lambda>b.
     Option.bind (set_all 2 (md_payload_required m) (given ''payload_required'' ps)) (\<lambda>c.
     Option.bind (set_all 16 (md_event_type_code m) (given ''event_type_code'' ps)) (\<lambda>d.
     Option.bind (set_all 16 (md_dev_event_id m) (given ''dev_event_id'' ps)) (\<lambda>e.
     Option.bind (set_all 2 (md_iot_probe m) (given ''iot_probe'' ps)) (\<lambda>f.
       Some \<lparr>md_method_code = a, md_correlation = b, md_payload_required = c, md_event_type_code = d,
             md_dev_event_id = e, md_iot_probe = f\<rparr>))))))"
proof (induction ps arbitrary: m)
  case Nil
  then show ?case by (simp add: given_simps)
next
  case (Cons p ps)
  let ?names = "[text_bytes ''method_code'', text_bytes ''correlationData'', text_bytes ''payload_required'',
     text_bytes ''event_type_code'', text_bytes ''dev_event_id'', text_bytes ''iot_probe'']"
  consider "fst p \<notin> set ?names" | "fst p = text_bytes ''method_code''" | "fst p = text_bytes ''correlationData''"
    | "fst p = text_bytes ''payload_required''" | "fst p = text_bytes ''event_type_code''"
    | "fst p = text_bytes ''dev_event_id''" | "fst p = text_bytes ''iot_probe''" by auto
  then show ?case
  proof cases
    case 1
    then show ?thesis by (simp add: given_simps set_property_def Cons)
  next
    case 2
    then show ?thesis by (cases "set_member 16 (md_method_code m) (snd p)") (simp_all add: given_simps set_property_def text_bytes_eq Cons)
  next
    case 3
    then show ?thesis by (cases "set_member 40 (md_correlation m) (snd p)") (simp_all add: given_simps set_property_def text_bytes_eq Cons)
  next
    case 4
    then show ?thesis by (cases "set_member 2 (md_payload_required m) (snd p)") (simp_all add: given_simps set_property_def text_bytes_eq Cons)
  next
    case 5
    then show ?thesis by (cases "set_member 16 (md_event_type_code m) (snd p)") (simp_all add: given_simps set_property_def text_bytes_eq Cons)
  next
    case 6
    then show ?thesis by (cases "set_member 16 (md_dev_event_id m) (snd p)") (simp_all add: given_simps set_property_def text_bytes_eq Cons)
  next
    case 7
    then show ?thesis by (cases "set_member 2 (md_iot_probe m) (snd p)") (simp_all add: given_simps set_property_def text_bytes_eq Cons)
  qed
qed

lemma rpc_metadata_meaning: "rpc_metadata_of ps metadata_zero = call_metadata ps"
  by (simp add: rpc_metadata_fields metadata_zero_def set_all_agreed call_metadata_def)

lemma step_reads_property:
  assumes "packet = pre @ property_bytes p @ post" "pos = length pre" "property_ok p"
    and "pos + length (property_bytes p) \<le> end_at"
  shows "metadata_step packet end_at pos m =
    or_reject (set_property (fst p) (snd p) m) (\<lambda>m. Parsed (pos + length (property_bytes p), m))"
proof -
  let ?n = "fst p" and ?v = "snd p"
  have long: "length (property_bytes p) = 5 + length ?n + length ?v"
    by (simp add: property_bytes_def string_length)
  have pid: "rd packet pos f = f 0x26" for f :: "nat \<Rightarrow> (nat \<times> MqttRpcMetadata) parsed"
    using assms(1,2) by (simp add: rd_def property_bytes_def nth_append)
  have "metadata_string packet end_at (pos + 1) f = f ?n (pos + 1 + 2 + length ?n)"
    for f :: "bytes \<Rightarrow> nat \<Rightarrow> (nat \<times> MqttRpcMetadata) parsed"
    using assms long
    by (intro metadata_string_reads [where pre = "pre @ [0x26]" and post = "write_utf8_string ?v @ post"])
       (simp_all add: property_bytes_def property_ok_def)
  moreover have "metadata_string packet end_at (pos + 1 + 2 + length ?n) f
      = f ?v (pos + 1 + 2 + length ?n + 2 + length ?v)"
    for f :: "bytes \<Rightarrow> nat \<Rightarrow> (nat \<times> MqttRpcMetadata) parsed"
    using assms long
    by (intro metadata_string_reads [where pre = "pre @ [0x26] @ write_utf8_string ?n" and post = post])
       (simp_all add: property_bytes_def property_ok_def string_length)
  ultimately show ?thesis
    unfolding metadata_step_def pid Let_def using long by (simp add: add.commute add.left_commute eval_nat_numeral)
qed

lemma loop_reads_properties:
  "packet = pre @ concat (map property_bytes ps) @ post \<Longrightarrow> pos = length pre \<Longrightarrow> list_all property_ok ps
    \<Longrightarrow> end_at = pos + length (concat (map property_bytes ps))
    \<Longrightarrow> metadata_loop packet end_at pos m = or_reject (rpc_metadata_of ps m) Parsed"
proof (induction ps arbitrary: pre pos m)
  case Nil
  then show ?case by (simp add: metadata_loop.simps or_reject_def)
next
  case (Cons p ps)
  have "0 < length (property_bytes p)" by (simp add: property_bytes_def)
  then have "pos < end_at" using Cons.prems(4) by simp
  moreover have step: "metadata_step packet end_at pos m =
    or_reject (set_property (fst p) (snd p) m) (\<lambda>m. Parsed (pos + length (property_bytes p), m))"
    using Cons.prems
    by (intro step_reads_property [where pre = pre and post = "concat (map property_bytes ps) @ post"]) simp_all
  moreover have "metadata_loop packet end_at (pos + length (property_bytes p)) m'
      = or_reject (rpc_metadata_of ps m') Parsed" for m'
    using Cons.prems by (intro Cons.IH [of "pre @ property_bytes p"]) simp_all
  ultimately show ?case
    by (subst metadata_loop.simps) (simp add: or_reject_def split: option.split)
qed


lemma expiry_length: "length (expiry_property e) = (if e = 0 then 0 else 5)"
  by (simp add: expiry_property_def)

lemma step_skips_expiry:
  assumes "packet = pre @ expiry_property e @ post" "pos = length pre" "e \<noteq> 0" "pos + 5 \<le> end_at"
  shows "metadata_step packet end_at pos m = Parsed (pos + 5, m)"
proof -
  have "rd packet pos f = f 0x02" for f :: "nat \<Rightarrow> (nat \<times> MqttRpcMetadata) parsed"
    using assms(1-3) by (simp add: rd_def expiry_property_def nth_append)
  then show ?thesis unfolding metadata_step_def Let_def using assms(4) by (simp add: eval_nat_numeral)
qed

lemma loop_reads_all:
  assumes "packet = pre @ (expiry_property e @ concat (map property_bytes ps)) @ post" "pos = length pre"
    and "list_all property_ok ps" "end_at = pos + length (expiry_property e @ concat (map property_bytes ps))"
  shows "metadata_loop packet end_at pos m = or_reject (rpc_metadata_of ps m) Parsed"
proof (cases "e = 0")
  case True
  then show ?thesis
    using assms by (intro loop_reads_properties [where pre = pre and post = post]) (simp_all add: expiry_property_def)
next
  case False
  have "metadata_step packet end_at pos m = Parsed (pos + 5, m)"
    using assms False
    by (intro step_skips_expiry [where pre = pre and post = "concat (map property_bytes ps) @ post"])
       (simp_all add: expiry_length)
  moreover have "metadata_loop packet end_at (pos + 5) m = or_reject (rpc_metadata_of ps m) Parsed"
    using assms False
    by (intro loop_reads_properties [where pre = "pre @ expiry_property e" and post = post]) (simp_all add: expiry_length)
  moreover have "pos < end_at" using assms(4) False by (simp add: expiry_length)
  ultimately show ?thesis by (subst metadata_loop.simps) simp
qed

lemma packet_id_reads:
  assumes "packet = pre @ put16 v @ post" "pos = length pre"
  shows "rd packet pos (\<lambda>h. rd packet (pos + 1) (\<lambda>l. f (of_nat (h * 256 + l)))) = f v"
proof -
  have "of_nat (unat (ucast (drop_bit 8 v) :: u8) * 256 + unat (ucast v :: u8)) = v"
  proof -
    have "unat v div 256 < 256" using unat_lt [of v] by simp
    then have "unat (ucast (drop_bit 8 v) :: u8) = unat v div 256"
      by (subst unat_ucast_narrow) (simp_all add: drop_bit_eq_div unat_div)
    moreover have "unat (ucast v :: u8) = unat v mod 256"
      by (simp add: unsigned_ucast_eq take_bit_eq_mod)
    moreover have "unat v div 256 * 256 + unat v mod 256 = unat v" by simp
    ultimately show ?thesis using word_of_its_unat [of v "unat v div 256 * 256 + unat v mod 256"] by simp
  qed
  then show ?thesis using assms by (simp add: rd_def put16_def nth_append)
qed

text \<open>The body of a publication: what its readers see, whatever the flags of its header.\<close>

definition publish_body :: "bytes \<Rightarrow> u16 \<Rightarrow> bool \<Rightarrow> bytes \<Rightarrow> bytes \<Rightarrow> bytes" where
  "publish_body topic packet_id acked property_buf payload =
     write_utf8_string topic @ (if acked then put16 packet_id else [])
     @ mqtt_encode_remaining_length (of_nat (length property_buf)) @ property_buf @ payload"

abbreviation publish_frame :: "u8 \<Rightarrow> u8 \<Rightarrow> bytes \<Rightarrow> bytes" where
  "publish_frame qos retain body \<equiv> (publish_header qos retain # mqtt_encode_remaining_length (of_nat (length body))) @ body"

lemma publish_eq:
  assumes guards: "\<not> (1 < qos \<or> 65535 < length topic)"
    and buf: "user_properties properties (expiry_property expiry) = Built buf"
    and body: "body = publish_body topic packet_id (0 < qos) buf payload"
  shows "mqtt_build_publish_expiring max_len topic payload packet_id qos retain properties expiry =
     (if 4 < length (mqtt_encode_remaining_length (of_nat (length buf))) then Overrun
      else if 268435455 < length body \<or> max_len < length body + 5 then Refused
      else if max_len < 1 + length (mqtt_encode_remaining_length (of_nat (length body))) then Overrun
      else if max_len < length (publish_frame qos retain body) then Refused
      else Built (publish_frame qos retain body))"
proof -
  define enc where "enc = mqtt_encode_remaining_length (of_nat (length buf))"
  define head where "head = publish_header qos retain # mqtt_encode_remaining_length (of_nat (length body))"
  have len: "2 + length topic + (if 0 < qos then 2 else 0) + length enc + length buf + length payload = length body"
    by (simp add: body enc_def publish_body_def string_length put16_def)
  have bytes: "write_utf8_string topic @ (if 0 < qos then put16 packet_id else []) @ enc @ buf @ payload = body"
    by (simp add: body enc_def publish_body_def)
  have "mqtt_build_publish_expiring max_len topic payload packet_id qos retain properties expiry =
     (if 4 < length enc then Overrun
      else if 268435455 < length body \<or> max_len < length body + 5 then Refused
      else if max_len < length head then Overrun
      else if max_len < length head + length body then Refused
      else if max_len < length (head @ body) then Overrun else Built (head @ body))"
    unfolding mqtt_build_publish_expiring_def if_not_P [OF guards] buf built.case Let_def enc_def [symmetric] len
      head_def [symmetric] bytes ..
  then show ?thesis by (simp add: head_def enc_def)
qed

lemma publish_properties:
  assumes "user_properties properties (expiry_property expiry) = Built buf"
  shows "buf = expiry_property expiry @ concat (map property_bytes properties)" "list_all property_ok properties"
    "length buf \<le> 1024" "length (mqtt_encode_remaining_length (of_nat (length buf))) \<le> 4"
proof -
  have "length (expiry_property expiry) \<le> 1024" by (simp add: expiry_length)
  from user_properties_built [OF assms this]
  show "buf = expiry_property expiry @ concat (map property_bytes properties)" "list_all property_ok properties"
    and buf: "length buf \<le> 1024" by blast+
  show "length (mqtt_encode_remaining_length (of_nat (length buf))) \<le> 4"
    using buf by (intro decode_encode_length(2)) (simp add: unat_of_nat)
qed

lemma publish_built:
  assumes "mqtt_build_publish_expiring max_len topic payload packet_id qos retain properties expiry = Built out"
  shows "\<exists>buf. user_properties properties (expiry_property expiry) = Built buf \<and> length topic \<le> 65535 \<and> qos \<le> 1
    \<and> length out \<le> max_len \<and> length (publish_body topic packet_id (0 < qos) buf payload) \<le> 268435455
    \<and> out = publish_frame qos retain (publish_body topic packet_id (0 < qos) buf payload)"
proof -
  obtain buf where buf: "user_properties properties (expiry_property expiry) = Built buf"
    using assms by (auto simp: mqtt_build_publish_expiring_def split: if_splits built.splits)
  have guards: "\<not> (1 < qos \<or> 65535 < length topic)"
    using assms by (auto simp: mqtt_build_publish_expiring_def)
  from publish_eq [OF guards buf refl, of max_len payload packet_id retain] show ?thesis
    using assms guards buf by (intro exI [of _ buf]) (auto simp: not_less split: if_splits)
qed

lemma frame_head_length:
  "n \<le> 268435455 \<Longrightarrow> length (mqtt_encode_remaining_length (of_nat n)) \<le> 4"
  by (intro decode_encode_length(2)) (simp add: unat_of_nat)

lemma publish_never_overruns:
  "mqtt_build_publish_expiring max_len topic payload packet_id qos retain properties expiry \<noteq> Overrun"
proof (cases "user_properties properties (expiry_property expiry)")
  case Overrun
  then show ?thesis using user_properties_safe [of "expiry_property expiry" properties] by (simp add: expiry_length)
next
  case Refused
  then show ?thesis by (simp add: mqtt_build_publish_expiring_def)
next
  case (Built buf)
  show ?thesis
  proof (cases "1 < qos \<or> 65535 < length topic")
    case True
    then show ?thesis by (simp add: mqtt_build_publish_expiring_def)
  next
    case False
    from publish_eq [OF this Built refl, of max_len payload packet_id retain] show ?thesis
      using publish_properties(4) [OF Built]
        frame_head_length [of "length (publish_body topic packet_id (0 < qos) buf payload)"]
      by (auto split: if_splits)
  qed
qed

lemma header_qos: "qos \<le> 1 \<Longrightarrow> qos_of (publish_header qos retain AND 15) = qos"
proof -
  assume "qos \<le> 1"
  then have "unat qos = 0 \<or> unat qos = 1" by (auto simp: word_le_nat_alt)
  then consider "qos = 0" | "qos = 1" using word_of_its_unat [of qos 0] word_of_its_unat [of qos 1] by auto
  then show ?thesis
  proof cases
    case 1
    have "qos_of (publish_header 0 retain AND 15) = 0"
      unfolding qos_of_def publish_header_def by (rule bit_word_eqI) (auto simp: bit_simps bit_numeral_rec)
    then show ?thesis using 1 by simp
  next
    case 2
    have "qos_of (publish_header 1 retain AND 15) = 1"
      unfolding qos_of_def publish_header_def by (rule bit_word_eqI) (auto simp: bit_simps)
    then show ?thesis using 2 by simp
  qed
qed

text \<open>Behind topic and packet number both readers find the length of the properties, and what follows it.\<close>

lemma properties_at:
  assumes "drop pos packet = mqtt_encode_remaining_length (of_nat (length buf)) @ buf @ payload"
    and "pos < length packet" "length buf \<le> 1024"
  shows "\<exists>used. mqtt_decode_remaining_length (drop pos packet) (size_sub (length packet) pos)
      = Parsed (of_nat (length buf), used)
    \<and> drop (pos + used) packet = buf @ payload \<and> pos + used + length buf + length payload = length packet
    \<and> unat (of_nat (length buf) :: u32) = length buf"
proof -
  let ?enc = "mqtt_encode_remaining_length (of_nat (length buf))"
  have n: "unat (of_nat (length buf) :: u32) = length buf" using assms(3) by (simp add: unat_of_nat)
  have "length ?enc \<le> size_sub (length packet) pos"
    using arg_cong [OF assms(1), of length] assms(2) by simp
  then have "mqtt_decode_remaining_length (drop pos packet) (size_sub (length packet) pos)
      = Parsed (of_nat (length buf), length ?enc)"
    unfolding assms(1) using n assms(3) by (intro decode_encode_length(1)) simp_all
  moreover have "drop (pos + length ?enc) packet = buf @ payload"
    using assms(1) by (metis add.commute append_eq_conv_conj drop_drop)
  moreover have "length packet - pos = length ?enc + (length buf + length payload)"
    using arg_cong [OF assms(1), of length] by simp
  ultimately show ?thesis using n assms(2) by (intro exI [of _ "length ?enc"]) simp
qed

lemma tail_reads:
  assumes "drop pos packet = mqtt_encode_remaining_length (of_nat (length buf)) @ buf @ payload"
    and "pos < length packet" "length buf \<le> 1024"
  shows "parse_payload packet topic i pos = Parsed (topic, i, payload)"
proof -
  obtain used where d: "mqtt_decode_remaining_length (drop pos packet) (size_sub (length packet) pos)
      = Parsed (of_nat (length buf), used)"
    "drop (pos + used) packet = buf @ payload" "pos + used + length buf + length payload = length packet"
    "unat (of_nat (length buf) :: u32) = length buf"
    using properties_at [OF assms] by blast
  have "drop (pos + used + length buf) packet = payload"
    using d(2) by (metis add.commute append_eq_conv_conj drop_drop)
  then show ?thesis
    unfolding parse_payload_def d(1) and_then_def parsed.case prod.case Let_def d(4) using d(3)
    by (auto simp: rd_slice_def)
qed

lemma body_parts:
  fixes topic property_buf payload :: bytes and packet_id :: u16 and acked :: bool
  defines "p \<equiv> publish_body topic packet_id acked property_buf payload"
    and "a \<equiv> 2 + length topic + (if acked then 2 else 0)"
  assumes "length topic \<le> 65535"
  shows "unat (p ! 0) * 256 + unat (p ! 1) = length topic" "take (length topic) (drop 2 p) = topic"
    "2 + length topic \<le> length p" "a < length p"
    "drop a p = mqtt_encode_remaining_length (of_nat (length property_buf)) @ property_buf @ payload"
proof -
  have "p ! 0 = write_utf8_string topic ! 0" "p ! 1 = write_utf8_string topic ! 1"
    by (simp_all add: p_def publish_body_def write_utf8_string_def nth_append)
  then show "unat (p ! 0) * 256 + unat (p ! 1) = length topic" using string_head [OF assms(3)] by simp
  show "take (length topic) (drop 2 p) = topic" "2 + length topic \<le> length p"
    by (simp_all add: p_def publish_body_def write_utf8_string_def)
  have "0 < length (mqtt_encode_remaining_length w)" for w
    by (subst mqtt_encode_remaining_length.simps) (simp add: Let_def)
  then show "a < length p" by (simp add: a_def p_def publish_body_def string_length put16_def)
  show "drop a p = mqtt_encode_remaining_length (of_nat (length property_buf)) @ property_buf @ payload"
    by (simp add: a_def p_def publish_body_def string_length put16_def)
qed

lemma parse_publish_body:
  assumes topic: "length topic \<le> 65535" "length topic < max_topic_len" and buf: "length property_buf \<le> 1024"
    and acked: "acked \<longleftrightarrow> 0 < qos_of flags"
  shows "mqtt_parse_publish (publish_body topic packet_id acked property_buf payload) flags max_topic_len
    = Parsed (topic, if acked then packet_id else 0, payload)"
proof -
  let ?p = "publish_body topic packet_id acked property_buf payload"
  note parts = body_parts [where packet_id = packet_id and acked = acked and property_buf = property_buf and payload = payload, OF topic(1)]
  note tail = tail_reads [OF parts(5,4) buf]
  have i: "0 < length ?p" "1 < length ?p" using parts(3) by auto
  have start: "mqtt_parse_publish ?p flags max_topic_len =
      (if 0 < qos_of flags
       then if length ?p < 2 + length topic + 2 then Reject
            else rd ?p (2 + length topic) (\<lambda>h. rd ?p (2 + length topic + 1) (\<lambda>l.
              parse_payload ?p topic (of_nat (h * 256 + l)) (2 + length topic + 2)))
       else parse_payload ?p topic 0 (2 + length topic))"
    unfolding mqtt_parse_publish_def rd_inside [OF i(1)] rd_inside [OF i(2)] parts(1) Let_def
      rd_slice_inside [OF parts(3)] parts(2)
    using parts(3) topic(2) by auto
  show ?thesis
  proof (cases acked)
    case True
    have "rd ?p (2 + length topic) (\<lambda>h. rd ?p (2 + length topic + 1) (\<lambda>l.
        (\<lambda>i. parse_payload ?p topic i (2 + length topic + 2)) (of_nat (h * 256 + l))))
      = (\<lambda>i. parse_payload ?p topic i (2 + length topic + 2)) packet_id"
      using True
      by (intro packet_id_reads [where pre = "write_utf8_string topic"
            and post = "mqtt_encode_remaining_length (of_nat (length property_buf)) @ property_buf @ payload"])
         (simp_all add: publish_body_def string_length)
    then show ?thesis
      using start acked True tail [of topic packet_id] parts(4) by simp
  next
    case False
    then show ?thesis using start acked tail [of topic 0] by simp
  qed
qed

lemma parse_metadata_body:
  assumes topic: "length topic \<le> 65535" and acked: "acked \<longleftrightarrow> 0 < qos_of flags"
    and props: "list_all property_ok ps" "buf = expiry_property e @ concat (map property_bytes ps)" "length buf \<le> 1024"
  shows "mqtt_parse_rpc_metadata (publish_body topic packet_id acked buf payload) flags
    = or_reject (rpc_metadata_of ps metadata_zero) Parsed"
proof -
  let ?p = "publish_body topic packet_id acked buf payload"
  let ?at = "2 + length topic + (if acked then 2 else 0)"
  note parts = body_parts [where packet_id = packet_id and acked = acked and property_buf = buf and payload = payload, OF topic]
  have i: "0 < length ?p" "1 < length ?p" using parts(3) by auto
  define q where "q = ?at"
  obtain used where d: "mqtt_decode_remaining_length (drop q ?p) (size_sub (length ?p) q) = Parsed (of_nat (length buf), used)"
    "drop (q + used) ?p = buf @ payload" "q + used + length buf + length payload = length ?p"
    "unat (of_nat (length buf) :: u32) = length buf"
    using properties_at [OF parts(5,4) props(3), folded q_def] by blast
  have "?p = take (q + used) ?p @ buf @ payload" using append_take_drop_id [of "q + used" ?p] d(2) by simp
  then have loop: "metadata_loop ?p (q + used + length buf) (q + used) metadata_zero
      = or_reject (rpc_metadata_of ps metadata_zero) Parsed"
    using d(3) props
    by (intro loop_reads_all [where pre = "take (q + used) ?p" and e = e and post = payload]) simp_all
  have at: "(if 0 < qos_of flags then 2 + length topic + 2 else 2 + length topic) = q" using acked by (simp add: q_def)
  show ?thesis
    unfolding mqtt_parse_rpc_metadata_def rd_inside [OF i(1)] rd_inside [OF i(2)] parts(1) Let_def at d(1)
    using parts(3) parts(4) [folded q_def] d(3,4) loop by (auto simp: and_then_def)
qed


lemma parse_publish_safe: "mqtt_parse_publish packet flags max_topic_len \<noteq> Fault"
proof -
  have tail: "parse_payload packet topic i pos \<noteq> Fault" if "pos \<le> length packet" for topic i pos
    unfolding parse_payload_def
    using that by (intro and_then_safe decode_length_safe)
      (auto simp: Let_def rd_slice_def dest!: decoded_fits split: if_splits)
  show ?thesis
    by (auto simp: mqtt_parse_publish_def rd_def rd_slice_def Let_def tail not_less)
qed

lemma properties_safe:
  assumes "pos \<le> length packet"
  shows "and_then (mqtt_decode_remaining_length (drop pos packet) (size_sub (length packet) pos))
      (\<lambda>(property_length, used).
        let pos = pos + used in
        if size_sub (length packet) pos < unat property_length then Reject
        else metadata_loop packet (pos + unat property_length) pos m) \<noteq> Fault"
proof (rule and_then_safe)
  show "mqtt_decode_remaining_length (drop pos packet) (size_sub (length packet) pos) \<noteq> Fault"
    using assms by (intro decode_length_safe) simp
  fix y assume y: "mqtt_decode_remaining_length (drop pos packet) (size_sub (length packet) pos) = Parsed y"
  obtain property_length used where yy: "y = (property_length, used)" by fastforce
  have "pos + used \<le> length packet" using decoded_fits [OF y [unfolded yy]] assms by (simp, linarith)
  then show "(case y of (property_length, used) \<Rightarrow>
      let pos = pos + used in
      if size_sub (length packet) pos < unat property_length then Reject
      else metadata_loop packet (pos + unat property_length) pos m) \<noteq> Fault"
    unfolding yy by (auto simp: Let_def intro!: metadata_loop_safe)
qed

lemma parse_metadata_safe: "mqtt_parse_rpc_metadata packet flags \<noteq> Fault"
proof (cases "length packet < 2")
  case True
  then show ?thesis by (simp add: mqtt_parse_rpc_metadata_def)
next
  case False
  then have i: "0 < length packet" "1 < length packet" by auto
  define pos where "pos = (if 0 < qos_of flags then 2 + (unat (packet ! 0) * 256 + unat (packet ! 1)) + 2
      else 2 + (unat (packet ! 0) * 256 + unat (packet ! 1)))"
  have "mqtt_parse_rpc_metadata packet flags =
    (if length packet \<le> pos then Reject
     else and_then (mqtt_decode_remaining_length (drop pos packet) (size_sub (length packet) pos))
      (\<lambda>(property_length, used).
        let pos = pos + used in
        if size_sub (length packet) pos < unat property_length then Reject
        else metadata_loop packet (pos + unat property_length) pos metadata_zero))"
    unfolding mqtt_parse_rpc_metadata_def if_not_P [OF False] rd_inside [OF i(1)] rd_inside [OF i(2)] pos_def Let_def ..
  then show ?thesis using properties_safe [of pos packet metadata_zero] by simp
qed

text \<open>\<open>mqtt_build_connect\<close> writes past its buffer exactly when the four texts exceed 2028 bytes.\<close>

lemma connect_overruns:
  assumes "8 \<le> max_len"
  shows "mqtt_build_connect max_len client_id will_topic will_payload username keepalive = Overrun \<longleftrightarrow>
    2028 < length client_id + length will_topic + length will_payload + length username"
proof -
  define b where "b = connect_body client_id will_topic will_payload username keepalive"
  have "\<not> max_len < length (MQTT_PKT_CONNECT # mqtt_encode_remaining_length (of_nat (length b)))" if "\<not> 2048 < length b"
    using frame_head_length [of "length b"] assms that by simp
  then have "mqtt_build_connect max_len client_id will_topic will_payload username keepalive = Overrun \<longleftrightarrow> 2048 < length b"
    unfolding mqtt_build_connect_def Let_def b_def [symmetric] by (simp split: if_split)
  moreover have "length b = 20 + (length client_id + length will_topic + length will_payload + length username)"
    by (simp add: b_def connect_body_def string_length put16_def)
  ultimately show ?thesis by auto
qed


lemma demo_packet:
  "\<exists>out. mqtt_build_publish_expiring 4096 [100, 47, 49] [1, 2, 3] 7 1 0
     [(text_bytes ''method_code'', text_bytes ''7001''), (text_bytes ''x'', [])] 60 = Built out"
proof -
  let ?ps = "[(text_bytes ''method_code'', text_bytes ''7001''), (text_bytes ''x'', [])]"
  obtain buf where buf: "user_properties ?ps (expiry_property 60) = Built buf"
    by (simp add: expiry_length text_bytes_def string_length)
  note p = publish_properties [OF buf]
  let ?body = "publish_body [100, 47, 49] 7 (0 < (1 :: u8)) buf [1, 2, 3]"
  have "length ?body = 10 + length (mqtt_encode_remaining_length (of_nat (length buf))) + length buf"
    by (simp add: publish_body_def string_length put16_def)
  then have body: "length ?body \<le> 1038" using p(3,4) by simp
  then have "length (mqtt_encode_remaining_length (of_nat (length ?body))) \<le> 4" by (intro frame_head_length) simp
  moreover have "\<not> (1 < (1 :: u8) \<or> 65535 < length [100 :: u8, 47, 49])" by simp
  ultimately show ?thesis
    using publish_eq [OF _ buf refl, of 1 "[100, 47, 49]" 4096 "[1, 2, 3]" 7 0] p(4) body by simp
qed


section \<open>Properties\<close>

text \<open>
  C23: A publication is read as it was built. The packet that \<open>mqtt_build_publish_expiring\<close> makes is cut
  out of a stream by its length field; the two readers of the agent then find the topic, the packet
  number (zero for quality of service 0), the payload, and in the user properties the metadata of the
  remote call: each of the six fields holds the value given under its name, or nothing when none is
  given. The metadata is rejected exactly when some value under one of the six names is empty, too
  long for its field or has a zero byte, or when two values under one name differ. The topic is
  shorter than the buffer of the reader.
\<close>

theorem mqtt_publish_roundtrip:
  assumes "mqtt_build_publish_expiring max_len topic payload packet_id qos retain properties expiry = Built out"
    and "length topic < max_topic_len"
  shows "\<exists>used body. mqtt_decode_remaining_length (tl out @ later) (length (tl out @ later)) = Parsed (of_nat (length body), used)
    \<and> drop used (tl out) = body \<and> length out = 1 + used + length body \<and> length out \<le> max_len
    \<and> mqtt_parse_publish body (hd out AND 15) max_topic_len
        = Parsed (topic, if 0 < qos then packet_id else 0, payload)
    \<and> mqtt_parse_rpc_metadata body (hd out AND 15)
        = (if agreed 16 (given ''method_code'' properties) \<and> agreed 40 (given ''correlationData'' properties)
              \<and> agreed 2 (given ''payload_required'' properties) \<and> agreed 16 (given ''event_type_code'' properties)
              \<and> agreed 16 (given ''dev_event_id'' properties) \<and> agreed 2 (given ''iot_probe'' properties)
           then Parsed \<lparr>md_method_code = common (given ''method_code'' properties),
                        md_correlation = common (given ''correlationData'' properties),
                        md_payload_required = common (given ''payload_required'' properties),
                        md_event_type_code = common (given ''event_type_code'' properties),
                        md_dev_event_id = common (given ''dev_event_id'' properties),
                        md_iot_probe = common (given ''iot_probe'' properties)\<rparr>
           else Reject)"
proof -
  obtain buf where b: "user_properties properties (expiry_property expiry) = Built buf" "length topic \<le> 65535" "qos \<le> 1"
    "length out \<le> max_len" "length (publish_body topic packet_id (0 < qos) buf payload) \<le> 268435455"
    and out: "out = publish_frame qos retain (publish_body topic packet_id (0 < qos) buf payload)"
    using publish_built [OF assms(1)] by blast
  let ?body = "publish_body topic packet_id (0 < qos) buf payload"
  let ?enc = "mqtt_encode_remaining_length (of_nat (length ?body))"
  note props = publish_properties [OF b(1)]
  have tl: "tl out = ?enc @ ?body" and len: "length out = 1 + length ?enc + length ?body" using out by simp_all
  have acked: "(0 < qos) = (0 < qos_of (hd out AND 15))" using header_qos [OF b(3)] out by simp
  have meta: "mqtt_parse_rpc_metadata ?body (hd out AND 15) = or_reject (call_metadata properties) Parsed"
    using parse_metadata_body [OF b(2) acked props(2,1,3)] by (simp add: rpc_metadata_meaning)
  have first: "mqtt_decode_remaining_length (tl out @ later) (length (tl out @ later)) = Parsed (of_nat (length ?body), length ?enc)"
    unfolding tl append_assoc using b(5) by (intro decode_encode_length(1)) (simp_all add: unat_of_nat)
  have body: "mqtt_parse_publish ?body (hd out AND 15) max_topic_len
      = Parsed (topic, if 0 < qos then packet_id else 0, payload)"
    by (rule parse_publish_body [OF b(2) assms(2) props(3) acked])
  show ?thesis
    by (intro exI conjI, rule first, unfold tl, simp, rule len, rule b(4), rule body, unfold meta)
       (simp add: call_metadata_def or_reject_def)
qed

theorem mqtt_publish_roundtrip_witness:
  "\<exists>out used body. mqtt_build_publish_expiring 4096 [100, 47, 49] [1, 2, 3] 7 1 0
        [(text_bytes ''method_code'', text_bytes ''7001''), (text_bytes ''x'', [])] 60 = Built out
    \<and> mqtt_decode_remaining_length (tl out @ [0xD0]) (length (tl out @ [0xD0])) = Parsed (of_nat (length body), used)
    \<and> mqtt_parse_publish body (hd out AND 15) 256 = Parsed ([100, 47, 49], 7, [1, 2, 3])
    \<and> mqtt_parse_rpc_metadata body (hd out AND 15) = Parsed (metadata_zero\<lparr>md_method_code := text_bytes ''7001''\<rparr>)"
proof -
  let ?ps = "[(text_bytes ''method_code'', text_bytes ''7001''), (text_bytes ''x'', [])]"
  obtain out where out: "mqtt_build_publish_expiring 4096 [100, 47, 49] [1, 2, 3] 7 1 0 ?ps 60 = Built out"
    using demo_packet by blast
  have g: "given ''method_code'' ?ps = [text_bytes ''7001'']" "given ''correlationData'' ?ps = []"
    "given ''payload_required'' ?ps = []" "given ''event_type_code'' ?ps = []" "given ''dev_event_id'' ?ps = []"
    "given ''iot_probe'' ?ps = []"
    by (simp_all add: given_simps text_bytes_def)
  have ok: "agreed 16 [text_bytes ''7001'']" "\<And>cap. agreed cap []" by (simp_all add: agreed_def text_bytes_def)
  have small: "length [100 :: u8, 47, 49] < 256" by simp
  obtain used body where b: "mqtt_decode_remaining_length (tl out @ [0xD0]) (length (tl out @ [0xD0])) = Parsed (of_nat (length body), used)"
    "mqtt_parse_publish body (hd out AND 15) 256 = Parsed ([100, 47, 49], if 0 < (1 :: u8) then 7 else 0, [1, 2, 3])"
    "mqtt_parse_rpc_metadata body (hd out AND 15) = Parsed (metadata_zero\<lparr>md_method_code := text_bytes ''7001''\<rparr>)"
    using mqtt_publish_roundtrip [OF out small, of "[0xD0]"]
    unfolding g metadata_zero_def common_def using ok by (auto simp only: simp_thms if_True list.case MqttRpcMetadata.update_convs)
  show ?thesis using out b by (intro exI [of _ out] exI [of _ used] exI [of _ body]) simp
qed

text \<open>
  C24: Memory. Whatever bytes arrive, the readers never look outside the packet: not at a byte, not at
  a text, and not at a length field, where a remaining length computed from a position behind the end
  would wrap. What they store fits: the topic its buffer and each text of the metadata its array, with
  the terminating zero. And a publication is never written outside its buffers, for every capacity,
  topic, payload and list of properties.
\<close>

theorem mqtt_memory_safe:
  "mqtt_parse_publish packet flags max_topic_len \<noteq> Fault \<and> mqtt_parse_rpc_metadata packet flags \<noteq> Fault
   \<and> (\<forall>topic i payload. mqtt_parse_publish packet flags max_topic_len = Parsed (topic, i, payload) \<longrightarrow> length topic < max_topic_len)
   \<and> (\<forall>m. mqtt_parse_rpc_metadata packet flags = Parsed m \<longrightarrow>
        length (md_method_code m) < 16 \<and> length (md_correlation m) < 40 \<and> length (md_payload_required m) < 2
        \<and> length (md_event_type_code m) < 16 \<and> length (md_dev_event_id m) < 16 \<and> length (md_iot_probe m) < 2)
   \<and> mqtt_build_publish_expiring max_len topic payload packet_id qos retain properties expiry \<noteq> Overrun"
  using parse_publish_safe [of packet flags max_topic_len] parse_metadata_safe [of packet flags]
    publish_never_overruns [of max_len topic payload packet_id qos retain properties expiry]
    parse_topic_fits [of packet flags max_topic_len] parse_metadata_fits [of packet flags]
  unfolding metadata_fits_def by blast

theorem mqtt_memory_safe_witness:
  "mqtt_parse_publish [0, 9, 1] 0 16 \<noteq> Fault \<and> mqtt_parse_rpc_metadata [0, 9, 1] 2 \<noteq> Fault"
  using mqtt_memory_safe [of "[0, 9, 1]" 0 16] mqtt_memory_safe [of "[0, 9, 1]" 2 16] by blast

text \<open>
  C39: The variable length field. Every length below 268435456 is written in at most four bytes and
  read back, whatever follows. And of whatever bytes a field is read, it took at least one and at most
  four, none behind the length the caller names, all but the last of them marked as continued, and the
  number read is that of their groups of seven bits and below 268435456; when the named length lies in
  the buffer, no byte outside it is looked at.
\<close>

theorem remaining_length_roundtrip:
  assumes "unat len < 268435456"
  shows "mqtt_decode_remaining_length (mqtt_encode_remaining_length len @ rest) (length (mqtt_encode_remaining_length len @ rest))
      = Parsed (len, length (mqtt_encode_remaining_length len))
    \<and> length (mqtt_encode_remaining_length len) \<le> 4
    \<and> (\<forall>buf buf_len v used. mqtt_decode_remaining_length buf buf_len = Parsed (v, used) \<longrightarrow>
         0 < used \<and> used \<le> 4 \<and> used \<le> buf_len \<and> used \<le> length buf
         \<and> unat v = groups (take used buf) \<and> unat v < 268435456
         \<and> (\<forall>i < used. 128 \<le> unat (buf ! i) \<longleftrightarrow> i + 1 < used))
    \<and> (\<forall>buf buf_len. buf_len \<le> length buf \<longrightarrow> mqtt_decode_remaining_length buf buf_len \<noteq> Fault)"
proof (intro conjI allI impI)
  fix buf buf_len v used
  assume d: "mqtt_decode_remaining_length buf buf_len = Parsed (v, used)"
  show f: "0 < used" "used \<le> 4" "used \<le> buf_len" "used \<le> length buf" using decoded_fits [OF d] by blast+
  have e: "unat v = groups (take used buf)" "unat v < 128 ^ used" "\<forall>i < used. 128 \<le> unat (buf ! i) \<longleftrightarrow> i + 1 < used"
    using decode_length_exact [of buf_len 0 0 buf v used] d by (simp_all add: mqtt_decode_remaining_length_def)
  show "unat v = groups (take used buf)" using e(1) .
  have "(128 :: nat) ^ used \<le> 128 ^ 4" using f(2) by (intro power_increasing) simp_all
  then show "unat v < 268435456" using e(2) by simp
  show "128 \<le> unat (buf ! i) \<longleftrightarrow> i + 1 < used" if "i < used" for i using e(3) that by blast
next
  show "mqtt_decode_remaining_length (mqtt_encode_remaining_length len @ rest) (length (mqtt_encode_remaining_length len @ rest))
      = Parsed (len, length (mqtt_encode_remaining_length len))"
    by (rule decode_encode_length(1) [OF assms]) simp
qed (rule decode_encode_length(2) [OF assms] decode_length_safe, assumption?)+

theorem remaining_length_roundtrip_witness:
  "mqtt_decode_remaining_length (mqtt_encode_remaining_length 300 @ [7]) 3 = Parsed (300, 2)"
proof -
  have "length (mqtt_encode_remaining_length 300) = 2"
    by (simp add: mqtt_encode_remaining_length.simps)
  then show ?thesis using remaining_length_roundtrip [of 300 "[7]"] by simp
qed

end
