(* ===== verification/Con_Json.thy ===== *)
theory Con_Json
  imports C_Text
begin

text \<open>
  The JSON helpers of the console agent, \<open>tools/l4con/src/mqtt_protocol.c\<close>: escaping, the search for a
  key, and the extraction of strings, integers and booleans. A C string is the list of its
  characters; a character of a UTF-8 text is one byte. The theorem relates the escaping to the strict
  reader through a printed object.
\<close>

section \<open>Definitions of the source\<close>

abbreviation NUL :: char where "NUL \<equiv> CHR 0x00"

definition hex_char :: "nat \<Rightarrow> char" where
  "hex_char n = (if n < 10 then char_of (48 + n) else char_of (87 + n))"

definition escape_char :: "char \<Rightarrow> string" where
  "escape_char c =
     (if c = DQ then [BACKSLASH, DQ]
      else if c = BACKSLASH then [BACKSLASH, BACKSLASH]
      else if c = CHR 0x08 then [BACKSLASH, CHR ''b'']
      else if c = CHR 0x0C then [BACKSLASH, CHR ''f'']
      else if c = CHR 0x0A then [BACKSLASH, CHR ''n'']
      else if c = CHR 0x0D then [BACKSLASH, CHR ''r'']
      else if c = CHR 0x09 then [BACKSLASH, CHR ''t'']
      else if (of_char c :: nat) < 32
      then [BACKSLASH, CHR ''u'', CHR ''0'', CHR ''0'', hex_char (of_char c div 16), hex_char (of_char c mod 16)]
      else [c])"

text \<open>The text that \<open>dst\<close> holds afterwards, from the \<open>src_len\<close> characters of \<open>src\<close>.\<close>

fun escape_loop :: "nat \<Rightarrow> string \<Rightarrow> string \<Rightarrow> string" where
  "escape_loop dst_max_len dst [] = dst"
| "escape_loop dst_max_len dst (c # src) =
     (if c = NUL then dst
      else if dst_max_len \<le> length dst + 6 then dst
      else escape_loop dst_max_len (dst @ escape_char c) src)"

definition json_escape_string :: "string \<Rightarrow> nat \<Rightarrow> string option" where
  "json_escape_string src dst_max_len = (if dst_max_len = 0 then None else Some (escape_loop dst_max_len [] src))"

definition key_pattern :: "string \<Rightarrow> string" where
  "key_pattern key = take 127 (DQ # key @ [DQ])"

lemma key_pattern_ne: "key_pattern key \<noteq> []"
  by (simp add: key_pattern_def)

lemma strstr_suffix: "strstr s needle = Some t \<Longrightarrow> length t \<le> length s \<and> length needle \<le> length t"
proof (induction s)
  case Nil
  then show ?case by (auto split: if_splits)
next
  case (Cons c s)
  show ?case
  proof (cases "take (length needle) (c # s) = needle")
    case True
    then have "length needle \<le> length (c # s)" by (metis length_take min.cobounded1)
    then show ?thesis using Cons.prems True by auto
  next
    case False
    then have "strstr s needle = Some t" using Cons.prems by simp
    from Cons.IH [OF this] show ?thesis by simp
  qed
qed

function find_key :: "string \<Rightarrow> string \<Rightarrow> string option" where
  "find_key key p =
     (case strstr p (key_pattern key) of
        None \<Rightarrow> None
      | Some p \<Rightarrow>
          (case dropWhile isspace (drop (length (key_pattern key)) p) of
             c # rest \<Rightarrow>
               if c = CHR '':'' then Some rest else find_key key (drop (length (key_pattern key)) p)
           | [] \<Rightarrow> find_key key (drop (length (key_pattern key)) p)))"
  by pat_completeness auto
termination
proof (relation "measure (\<lambda>(key, p). length p)")
  have shorter: "length (drop (length (key_pattern key)) q) < length p"
    if "strstr p (key_pattern key) = Some q" for key p q
    using strstr_suffix [OF that] key_pattern_ne [of key] by (cases "key_pattern key") auto
  show "((key, drop (length (key_pattern key)) q), (key, p)) \<in> measure (\<lambda>(key, p). length p)"
    if "strstr p (key_pattern key) = Some q" for key p q x21 x22
    using shorter [OF that] by simp
  show "((key, drop (length (key_pattern key)) q), (key, p)) \<in> measure (\<lambda>(key, p). length p)"
    if "strstr p (key_pattern key) = Some q" for key p q
    using shorter [OF that] by simp
qed simp

declare find_key.simps [simp del]

definition plain_escape :: "char \<Rightarrow> char" where
  "plain_escape c =
     (if c = CHR ''n'' then CHR 0x0A else if c = CHR ''r'' then CHR 0x0D else if c = CHR ''t'' then CHR 0x09 else c)"

fun copy_string :: "nat \<Rightarrow> string \<Rightarrow> string \<Rightarrow> string" where
  "copy_string out_max_len out [] = out"
| "copy_string out_max_len out (c # p) =
     (if c = DQ \<or> out_max_len \<le> length out + 1 then out
      else if c = BACKSLASH \<and> p \<noteq> []
      then copy_string out_max_len (out @ [plain_escape (hd p)]) (tl p)
      else copy_string out_max_len (out @ [c]) p)"

text \<open>\<open>None\<close> is the result \<open>false\<close>.\<close>

definition json_extract_string :: "string \<Rightarrow> string \<Rightarrow> nat \<Rightarrow> string option" where
  "json_extract_string json key out_max_len =
     (if out_max_len = 0 then None
      else case find_key key json of
          None \<Rightarrow> None
        | Some val_start \<Rightarrow>
            (case dropWhile isspace val_start of
               c # p \<Rightarrow> if c = DQ then Some (copy_string out_max_len [] p) else None
             | [] \<Rightarrow> None))"

definition hex_digit_value :: "char \<Rightarrow> nat option" where
  "hex_digit_value ch =
     (let c = of_char ch :: nat in
      if 48 \<le> c \<and> c \<le> 57 then Some (c - 48)
      else if 97 \<le> c \<and> c \<le> 102 then Some (c - 97 + 10)
      else if 65 \<le> c \<and> c \<le> 70 then Some (c - 65 + 10)
      else None)"

text \<open>The terminating zero of a text that ends early is not a digit.\<close>

fun hex_loop :: "nat \<Rightarrow> nat \<Rightarrow> string \<Rightarrow> nat option" where
  "hex_loop 0 result p = Some result"
| "hex_loop (Suc n) result [] = None"
| "hex_loop (Suc n) result (c # p) =
     (case hex_digit_value c of None \<Rightarrow> None | Some digit \<Rightarrow> hex_loop n (result * 16 + digit) p)"

definition json_hex4 :: "string \<Rightarrow> nat option" where
  "json_hex4 p = hex_loop 4 0 p"

definition utf8_chars :: "nat \<Rightarrow> string" where
  "utf8_chars c =
     (if c < 0x80 then [char_of c]
      else if c < 0x800 then [char_of (0xC0 OR c div 64), char_of (0x80 OR c mod 64)]
      else if c < 0x10000
      then [char_of (0xE0 OR c div 4096), char_of (0x80 OR c div 64 mod 64), char_of (0x80 OR c mod 64)]
      else [char_of (0xF0 OR c div 262144), char_of (0x80 OR c div 4096 mod 64),
            char_of (0x80 OR c div 64 mod 64), char_of (0x80 OR c mod 64)])"

text \<open>An escape \<open>\u\<close>: the characters it stands for, and the text behind it.\<close>

definition unicode_escape :: "string \<Rightarrow> (string \<times> string) option" where
  "unicode_escape p =
     (case json_hex4 p of
        None \<Rightarrow> None
      | Some c \<Rightarrow>
          let p = drop 4 p in
          if 0xD800 \<le> c \<and> c \<le> 0xDBFF
          then
            if take 2 p \<noteq> [BACKSLASH, CHR ''u''] then None
            else case json_hex4 (drop 2 p) of
                None \<Rightarrow> None
              | Some low \<Rightarrow>
                  if low < 0xDC00 \<or> 0xDFFF < low then None
                  else Some (utf8_chars (0x10000 + (c - 0xD800) * 1024 + low - 0xDC00), drop 6 p)
          else if 0xDC00 \<le> c \<and> c \<le> 0xDFFF then None
          else if c = 0 then None
          else Some (utf8_chars c, p))"

definition simple_escape :: "char \<Rightarrow> char option" where
  "simple_escape c =
     (if c = DQ \<or> c = BACKSLASH \<or> c = CHR ''/'' then Some c
      else if c = CHR ''b'' then Some (CHR 0x08)
      else if c = CHR ''f'' then Some (CHR 0x0C)
      else if c = CHR ''n'' then Some (CHR 0x0A)
      else if c = CHR ''r'' then Some (CHR 0x0D)
      else if c = CHR ''t'' then Some (CHR 0x09)
      else None)"

text \<open>One character or escape of the text: the characters to append, and the text behind it.\<close>

definition strict_char :: "char \<Rightarrow> string \<Rightarrow> (string \<times> string) option" where
  "strict_char c p =
     (if (of_char c :: nat) < 32 then None
      else if c = BACKSLASH
      then (case p of
              [] \<Rightarrow> None
            | e # p \<Rightarrow>
                if e = CHR ''u'' then unicode_escape p
                else map_option (\<lambda>c. ([c], p)) (simple_escape e))
      else Some ([c], p))"

lemma unicode_escape_shorter: "unicode_escape p = Some (cs, q) \<Longrightarrow> length q \<le> length p"
  by (auto simp: unicode_escape_def Let_def split: option.splits if_splits)

lemma strict_char_shorter: "strict_char c p = Some (cs, q) \<Longrightarrow> length q \<le> length p"
  by (auto simp: strict_char_def split: if_splits list.splits dest!: unicode_escape_shorter)

function strict_loop :: "nat \<Rightarrow> string \<Rightarrow> string \<Rightarrow> string option" where
  "strict_loop cap out p =
     (case p of
        [] \<Rightarrow> None
      | c # q \<Rightarrow>
          if c = DQ then Some out
          else case strict_char c q of
              None \<Rightarrow> None
            | Some (bs, r) \<Rightarrow>
                if cap - length out \<le> length bs then None else strict_loop cap (out @ bs) r)"
  by pat_completeness auto
termination
  by (relation "measure (\<lambda>(_, _, p). length p)") (auto dest: strict_char_shorter)

declare strict_loop.simps [simp del]

datatype extracted = Absent | Text string | Invalid

definition json_extract_string_strict :: "string \<Rightarrow> string \<Rightarrow> nat \<Rightarrow> extracted" where
  "json_extract_string_strict json key cap =
     (if cap = 0 then Invalid
      else case find_key key json of
          None \<Rightarrow> Absent
        | Some p \<Rightarrow>
            (case dropWhile isspace p of
               c # p \<Rightarrow>
                 if c \<noteq> DQ then Invalid
                 else case strict_loop cap [] p of None \<Rightarrow> Invalid | Some out \<Rightarrow> Text out
             | [] \<Rightarrow> Invalid))"

text \<open>\<open>strtol\<close> on Windows, where a \<open>long\<close> has 32 bits: the value is saturated.\<close>

definition strtol32 :: "string \<Rightarrow> int option" where
  "strtol32 s = map_option (\<lambda>(neg, n, rest). max (- (2 ^ 31)) (min (2 ^ 31 - 1) (if neg then - n else n)))
     (scan_integer s)"

definition json_extract_int :: "string \<Rightarrow> string \<Rightarrow> int option" where
  "json_extract_int json key =
     (case find_key key json of
        None \<Rightarrow> None
      | Some val_start \<Rightarrow>
          let val_start = dropWhile isspace val_start;
              val_start = (if val_start \<noteq> [] \<and> hd val_start = DQ then tl val_start else val_start) in
          strtol32 val_start)"

definition json_extract_bool :: "string \<Rightarrow> string \<Rightarrow> bool option" where
  "json_extract_bool json key =
     (case find_key key json of
        None \<Rightarrow> None
      | Some val_start \<Rightarrow>
          let val_start = dropWhile isspace val_start in
          if take 4 val_start = ''true'' then Some True
          else if take 5 val_start = ''false'' then Some False
          else None)"



section \<open>The search for a key\<close>

text \<open>
  The keys that can be asked for: one to 125 characters, so that the pattern holds them whole, and
  none of the characters that quote, escape or separate in an object.
\<close>

definition key_ok :: "string \<Rightarrow> bool" where
  "key_ok key \<longleftrightarrow> key \<noteq> [] \<and> length key \<le> 125
     \<and> list_all (\<lambda>c. c \<noteq> DQ \<and> c \<noteq> BACKSLASH \<and> c \<noteq> CHR '':'' \<and> c \<noteq> CHR '','' \<and> c \<noteq> CHR ''{'' \<and> c \<noteq> CHR ''}'') key"

lemma key_ok_pattern: "key_ok key \<Longrightarrow> key_pattern key = DQ # key @ [DQ]"
  unfolding key_pattern_def by (rule take_all) (simp add: key_ok_def)

lemma key_ok_chars:
  assumes "key_ok key" "c \<in> set key"
  shows "c \<noteq> DQ" "c \<noteq> BACKSLASH" "c \<noteq> CHR '':''" "c \<noteq> CHR '',''" "c \<noteq> CHR ''}''" "c \<noteq> CHR ''{''"
  using assms by (auto simp: key_ok_def list_all_iff)

text \<open>The search, one character at a time.\<close>

lemma find_key_skip:
  assumes "take (length (key_pattern key)) (c # s) \<noteq> key_pattern key"
  shows "find_key key (c # s) = find_key key s"
  using assms unfolding find_key.simps [of key "c # s"] find_key.simps [of key s] by simp

lemma find_key_nil: "find_key key [] = None"
  using key_pattern_ne [of key] by (simp add: find_key.simps)

lemma find_key_skip_other: "c \<noteq> DQ \<Longrightarrow> key_ok key \<Longrightarrow> find_key key (c # s) = find_key key s"
  by (rule find_key_skip) (simp add: key_ok_pattern)

definition no_colon :: "string \<Rightarrow> bool" where
  "no_colon t \<longleftrightarrow> (case dropWhile isspace t of [] \<Rightarrow> True | c # _ \<Rightarrow> c \<noteq> CHR '':'')"

lemma find_key_pass:
  assumes "key_ok key" "no_colon t"
  shows "find_key key (DQ # key @ DQ # t) = find_key key t"
proof -
  have "strstr (DQ # key @ DQ # t) (key_pattern key) = Some (DQ # key @ DQ # t)"
    using assms(1) by (simp add: key_ok_pattern)
  moreover have "drop (length (key_pattern key)) (DQ # key @ DQ # t) = t"
    using assms(1) by (simp add: key_ok_pattern)
  ultimately show ?thesis
    using assms(2) unfolding find_key.simps [of key "DQ # key @ DQ # t"]
    by (cases "dropWhile isspace t") (simp_all add: no_colon_def del: strstr.simps dropWhile_eq_Nil_conv)
qed

lemma find_key_found:
  assumes "key_ok key"
  shows "find_key key (DQ # key @ DQ # CHR '':'' # t) = Some t"
proof -
  have "strstr (DQ # key @ DQ # CHR '':'' # t) (key_pattern key) = Some (DQ # key @ DQ # CHR '':'' # t)"
    using assms by (simp add: key_ok_pattern)
  then show ?thesis
    unfolding find_key.simps [of key "DQ # key @ DQ # CHR '':'' # t"]
    using assms by (simp add: key_ok_pattern isspace_def)
qed


section \<open>Printed objects\<close>

definition escaped :: "string \<Rightarrow> string" where
  "escaped v = concat (map escape_char v)"

definition plain :: "char \<Rightarrow> bool" where
  "plain c \<longleftrightarrow> c \<noteq> DQ \<and> c \<noteq> BACKSLASH"

definition member :: "string \<Rightarrow> string \<Rightarrow> string" where
  "member n v = DQ # n @ [DQ, CHR '':'', DQ] @ escaped v @ [DQ]"

fun print_tail :: "(string \<times> string) list \<Rightarrow> string" where
  "print_tail [] = ''}''"
| "print_tail ((n, v) # ms) = CHR '','' # member n v @ print_tail ms"

fun print_object :: "(string \<times> string) list \<Rightarrow> string" where
  "print_object [] = ''{}''"
| "print_object ((n, v) # ms) = CHR ''{'' # member n v @ print_tail ms"

lemma escaped_simps [simp]: "escaped [] = []" "escaped (c # v) = escape_char c @ escaped v"
  by (simp_all add: escaped_def)

lemma of_hex_char: "n < 16 \<Longrightarrow> (of_char (hex_char n) :: nat) = (if n < 10 then 48 + n else 87 + n)"
  by (simp add: hex_char_def)

lemma hex_char_plain: "n < 16 \<Longrightarrow> plain (hex_char n)"
proof -
  assume n: "n < 16"
  have "(of_char (hex_char n) :: nat) \<noteq> 34 \<and> (of_char (hex_char n) :: nat) \<noteq> 92"
    using of_hex_char [OF n] n by auto
  then show ?thesis by (auto simp: plain_def)
qed

lemma hex_char_value: "n < 16 \<Longrightarrow> hex_digit_value (hex_char n) = Some n"
  using of_hex_char [of n] by (auto simp: hex_digit_value_def)

lemma escape_cases:
  obtains (one) "escape_char c = [c]" "plain c" "32 \<le> (of_char c :: nat)"
    | (two) e where "escape_char c = [BACKSLASH, e]" "simple_escape e = Some c" "e \<noteq> CHR ''u''"
    | (six) "escape_char c = [BACKSLASH, CHR ''u'', CHR ''0'', CHR ''0'', hex_char (of_char c div 16), hex_char (of_char c mod 16)]"
        "(of_char c :: nat) < 32"
proof -
  note special = two [unfolded escape_char_def simple_escape_def]
  consider "c = DQ" | "c = BACKSLASH" | "c = CHR 0x08" | "c = CHR 0x0C" | "c = CHR 0x0A" | "c = CHR 0x0D" | "c = CHR 0x09"
    | "c \<notin> {DQ, BACKSLASH, CHR 0x08, CHR 0x0C, CHR 0x0A, CHR 0x0D, CHR 0x09}" by blast
  then show thesis
  proof cases
    case 8
    then have "escape_char c = (if (of_char c :: nat) < 32
      then [BACKSLASH, CHR ''u'', CHR ''0'', CHR ''0'', hex_char (of_char c div 16), hex_char (of_char c mod 16)]
      else [c])" "plain c" by (simp_all add: escape_char_def plain_def)
    then show thesis using one six by (cases "(of_char c :: nat) < 32") simp_all
  qed (rule special [of DQ], simp_all, rule special [of BACKSLASH], simp_all, rule special [of "CHR ''b''"], simp_all,
       rule special [of "CHR ''f''"], simp_all, rule special [of "CHR ''n''"], simp_all,
       rule special [of "CHR ''r''"], simp_all, rule special [of "CHR ''t''"], simp_all)
qed

text \<open>A quote inside an escaped text stands behind a backslash, so a key is found there only as a whole.\<close>

lemma drop_plain_escaped:
  "list_all plain (escaped v) \<or> (\<exists>r. dropWhile plain (escaped v @ s) = BACKSLASH # r)"
proof (induction v)
  case (Cons c v)
  show ?case by (cases c rule: escape_cases) (use Cons in \<open>auto simp: plain_def\<close>)
qed simp

lemma plain_prefix:
  assumes "list_all plain key" "take (Suc (length key)) (x @ DQ # t) = key @ [DQ]"
  shows "dropWhile plain (x @ DQ # t) = DQ # drop (Suc (length key)) (x @ DQ # t)"
proof -
  have "x @ DQ # t = (key @ [DQ]) @ drop (Suc (length key)) (x @ DQ # t)"
    using append_take_drop_id [of "Suc (length key)" "x @ DQ # t"] assms(2) by metis
  moreover have "dropWhile plain ((key @ [DQ]) @ r) = DQ # r" for r
    using assms(1) by (simp add: dropWhile_append list_all_iff plain_def)
  ultimately show ?thesis by metis
qed

lemma key_is_body:
  assumes key: "list_all plain key" and hit: "take (Suc (length key)) (x @ DQ # t) = key @ [DQ]"
    and x: "list_all plain x \<or> (\<exists>r. dropWhile plain (x @ DQ # t) = BACKSLASH # r)"
  shows "x = key"
proof -
  have "list_all plain x" using plain_prefix [OF key hit] x by auto
  moreover have "takeWhile plain (y @ DQ # r) = y" if "list_all plain y" for y r
    using that by (simp add: takeWhile_append list_all_iff plain_def)
  moreover have "x @ DQ # t = key @ DQ # drop (Suc (length key)) (x @ DQ # t)"
    using append_take_drop_id [of "Suc (length key)" "x @ DQ # t"] hit by (metis append.assoc append_Cons append_Nil)
  ultimately show ?thesis using key by metis
qed

lemma key_plain: "key_ok key \<Longrightarrow> list_all plain key"
  using key_ok_chars by (auto simp: list_all_iff plain_def)

text \<open>What follows a member of a printed object.\<close>

definition value_end :: "string \<Rightarrow> bool" where
  "value_end t \<longleftrightarrow> t \<noteq> [] \<and> (hd t = CHR '','' \<or> hd t = CHR ''}'')"

lemma value_end_no_colon: "value_end t \<Longrightarrow> no_colon t"
  by (cases t) (auto simp: value_end_def no_colon_def isspace_def)

lemma print_tail_end: "value_end (print_tail ms)"
  by (cases ms rule: print_tail.cases) (auto simp: value_end_def)

text \<open>A quote is passed when no key begins behind it.\<close>

lemma find_key_no_key: "key_ok key \<Longrightarrow> c \<notin> set key \<Longrightarrow> c \<noteq> DQ \<Longrightarrow> find_key key (DQ # c # t) = find_key key (c # t)"
  by (rule find_key_skip) (cases key; auto simp: key_ok_pattern key_ok_def)

lemma find_key_closing: "key_ok key \<Longrightarrow> value_end t \<Longrightarrow> find_key key (DQ # t) = find_key key t"
  using key_ok_chars(4,5) [of key] by (cases t) (auto simp: value_end_def intro!: find_key_no_key)

lemma find_key_quote:
  assumes "key_ok key" "value_end t" and rest: "find_key key (escaped v @ DQ # t) = find_key key t"
  shows "find_key key (DQ # escaped v @ DQ # t) = find_key key t"
proof (cases "take (Suc (length key)) (escaped v @ DQ # t) = key @ [DQ]")
  case True
  then have "escaped v = key"
    by (rule key_is_body [OF key_plain [OF assms(1)] _ drop_plain_escaped])
  then show ?thesis using find_key_pass [OF assms(1) value_end_no_colon [OF assms(2)]] by simp
next
  case False
  then have "find_key key (DQ # escaped v @ DQ # t) = find_key key (escaped v @ DQ # t)"
    by (intro find_key_skip) (simp add: key_ok_pattern [OF assms(1)])
  then show ?thesis using rest by simp
qed

lemma find_key_body:
  assumes "key_ok key" "value_end t"
  shows "find_key key (escaped v @ DQ # t) = find_key key t"
proof (induction v)
  case Nil
  then show ?case using find_key_closing [OF assms] by simp
next
  case (Cons c v)
  note skip = find_key_skip_other [OF _ assms(1)]
  show ?case
  proof (cases c rule: escape_cases)
    case one
    then show ?thesis using Cons skip by (simp add: plain_def)
  next
    case (two e)
    then show ?thesis using Cons skip find_key_quote [OF assms Cons] by (cases "e = DQ") simp_all
  next
    case six
    then have "plain (hex_char (of_char c div 16))" "plain (hex_char (of_char c mod 16))"
      by (auto intro!: hex_char_plain)
    then show ?thesis using six Cons skip by (simp add: plain_def)
  qed
qed

lemma find_key_skip_all: "key_ok key \<Longrightarrow> DQ \<notin> set s \<Longrightarrow> find_key key (s @ t) = find_key key t"
  by (induction s) (auto simp: find_key_skip_other)

lemma find_key_member:
  assumes "key_ok key" "list_all plain n" "value_end t"
  shows "find_key key (member n v @ t) = (if n = key then Some (DQ # escaped v @ DQ # t) else find_key key t)"
proof (cases "n = key")
  case True
  then show ?thesis using find_key_found [OF assms(1)] by (simp add: member_def)
next
  case False
  let ?r = "CHR '':'' # DQ # escaped v @ DQ # t"
  have colon: "CHR '':'' \<notin> set key" using key_ok_chars(3) [OF assms(1)] by blast
  have "take (length (key_pattern key)) (DQ # n @ DQ # ?r) \<noteq> key_pattern key"
    using key_is_body [OF key_plain [OF assms(1)], of n ?r] assms(2) False
    by (auto simp: key_ok_pattern [OF assms(1)])
  then have "find_key key (DQ # n @ DQ # ?r) = find_key key (n @ DQ # ?r)" by (rule find_key_skip)
  also have "\<dots> = find_key key (DQ # ?r)"
    using assms(2) by (intro find_key_skip_all [OF assms(1)]) (auto simp: list_all_iff plain_def)
  also have "\<dots> = find_key key (DQ # escaped v @ DQ # t)"
    using find_key_no_key [OF assms(1) colon] find_key_skip_other [OF _ assms(1), of "CHR '':''"] by simp
  also have "\<dots> = find_key key t" by (rule find_key_quote [OF assms(1,3) find_key_body [OF assms(1,3)]])
  finally show ?thesis using False by (simp add: member_def)
qed

text \<open>The member of the object, as it stands in the text, with the text behind it.\<close>

lemma find_key_tail:
  assumes "key_ok key" "list_all (\<lambda>(n, v). list_all plain n) ms"
  shows "case map_of ms key of
      None \<Rightarrow> find_key key (print_tail ms) = None
    | Some v \<Rightarrow> \<exists>t. find_key key (print_tail ms) = Some (DQ # escaped v @ DQ # t)"
  using assms(2)
proof (induction ms)
  case Nil
  then show ?case using find_key_skip_other [OF _ assms(1)] by (simp add: find_key_nil)
next
  case (Cons m ms)
  obtain n v where m: "m = (n, v)" by (cases m)
  have "find_key key (print_tail (m # ms)) = find_key key (member n v @ print_tail ms)"
    using m find_key_skip_other [OF _ assms(1)] by simp
  also have "\<dots> = (if n = key then Some (DQ # escaped v @ DQ # print_tail ms) else find_key key (print_tail ms))"
    using find_key_member [OF assms(1) _ print_tail_end, of n v ms] Cons.prems m by simp
  finally show ?case using Cons m by (cases "n = key") (simp_all split: option.splits del: print_tail.simps)
qed

lemma find_key_object:
  assumes "key_ok key" "list_all (\<lambda>(n, v). list_all plain n) ms"
  shows "case map_of ms key of
      None \<Rightarrow> find_key key (print_object ms) = None
    | Some v \<Rightarrow> \<exists>t. find_key key (print_object ms) = Some (DQ # escaped v @ DQ # t)"
proof (cases ms rule: print_object.cases)
  case 1
  then show ?thesis using find_key_skip_other [OF _ assms(1)] by (simp add: find_key_nil)
next
  case (2 n v ms')
  have "find_key key (print_object ms) = find_key key (print_tail ms)"
    using 2 find_key_skip_other [OF _ assms(1)] by simp
  then show ?thesis using find_key_tail [OF assms] by (simp only:)
qed

section \<open>The strict reader\<close>

lemma strict_loop_step:
  assumes "c \<noteq> DQ" "strict_char c q = Some ([d], r)"
  shows "strict_loop cap out (c # q) = (if length out + 1 < cap then strict_loop cap (out @ [d]) r else None)"
proof -
  have "cap - length out \<le> length [d] \<longleftrightarrow> \<not> length out + 1 < cap" by auto
  then show ?thesis using assms by (subst strict_loop.simps) simp
qed

lemma hex_zero: "hex_digit_value (CHR ''0'') = Some 0"
  by (simp add: hex_digit_value_def)

lemma json_hex4_digits:
  assumes "hex_digit_value a = Some w" "hex_digit_value b = Some x" "hex_digit_value c = Some y" "hex_digit_value d = Some z"
  shows "json_hex4 (a # b # c # d # s) = Some (((w * 16 + x) * 16 + y) * 16 + z)"
  using assms by (simp add: json_hex4_def eval_nat_numeral)

lemma of_char_not_zero: "c \<noteq> NUL \<Longrightarrow> (of_char c :: nat) \<noteq> 0"
proof
  assume c: "c \<noteq> NUL" and "(of_char c :: nat) = 0"
  then have "(of_char c :: nat) = of_char NUL" by simp
  then show False using c by (simp only: of_char_eq_iff)
qed

lemma strict_control:
  assumes "(of_char c :: nat) < 32" "c \<noteq> NUL"
  shows "strict_char BACKSLASH (CHR ''u'' # CHR ''0'' # CHR ''0'' # hex_char (of_char c div 16) # hex_char (of_char c mod 16) # s)
    = Some ([c], s)"
proof -
  have "json_hex4 (CHR ''0'' # CHR ''0'' # hex_char (of_char c div 16) # hex_char (of_char c mod 16) # s)
      = Some (((0 * 16 + 0) * 16 + of_char c div 16) * 16 + of_char c mod 16)"
    using assms(1) by (intro json_hex4_digits hex_zero hex_char_value) simp_all
  then have "json_hex4 (CHR ''0'' # CHR ''0'' # hex_char (of_char c div 16) # hex_char (of_char c mod 16) # s)
      = Some (of_char c)" by (simp only: mult_0 add_0 div_mult_mod_eq)
  then show ?thesis
    using assms of_char_not_zero [OF assms(2)] by (simp add: strict_char_def unicode_escape_def utf8_chars_def)
qed

lemma strict_escape_char:
  assumes "c \<noteq> NUL"
  shows "strict_loop cap out (escape_char c @ s)
    = (if length out + 1 < cap then strict_loop cap (out @ [c]) s else None)"
proof (cases c rule: escape_cases)
  case one
  then have "c \<noteq> DQ" "strict_char c s = Some ([c], s)" by (simp_all add: plain_def strict_char_def)
  from strict_loop_step [OF this] show ?thesis using one by simp
next
  case (two e)
  then have "strict_char BACKSLASH (e # s) = Some ([c], s)" by (simp add: strict_char_def)
  from strict_loop_step [OF _ this] show ?thesis using two by simp
next
  case six
  from strict_loop_step [OF _ strict_control [OF six(2) assms]] show ?thesis using six by simp
qed

lemma strict_escaped:
  "NUL \<notin> set v \<Longrightarrow> length out < cap \<Longrightarrow> strict_loop cap out (escaped v @ DQ # t)
     = (if length out + length v < cap then Some (out @ v) else None)"
proof (induction v arbitrary: out)
  case Nil
  then show ?case by (simp add: strict_loop.simps)
next
  case (Cons c v)
  then have "strict_loop cap out (escape_char c @ escaped v @ DQ # t)
      = (if length out + 1 < cap then strict_loop cap (out @ [c]) (escaped v @ DQ # t) else None)"
    by (intro strict_escape_char) auto
  then show ?case using Cons by simp
qed

lemma escape_char_length: "length (escape_char c) \<le> 6"
  by (simp add: escape_char_def)

lemma escape_loop_all:
  "NUL \<notin> set src \<Longrightarrow> length dst + 6 * length src < dst_max_len \<Longrightarrow> escape_loop dst_max_len dst src = dst @ escaped src"
proof (induction src arbitrary: dst)
  case (Cons c src)
  have "length (dst @ escape_char c) + 6 * length src < dst_max_len" using Cons.prems(2) escape_char_length [of c] by simp
  moreover have "c \<noteq> NUL" "NUL \<notin> set src" using Cons.prems(1) by auto
  ultimately show ?case using Cons by simp
qed simp

text \<open>An object whose values are given as they stand between their quotes.\<close>

fun raw_tail :: "(string \<times> string) list \<Rightarrow> string" where
  "raw_tail [] = ''}''"
| "raw_tail ((n, e) # ms) = CHR '','' # DQ # n @ [DQ, CHR '':'', DQ] @ e @ [DQ] @ raw_tail ms"

fun raw_object :: "(string \<times> string) list \<Rightarrow> string" where
  "raw_object [] = ''{}''"
| "raw_object ((n, e) # ms) = CHR ''{'' # DQ # n @ [DQ, CHR '':'', DQ] @ e @ [DQ] @ raw_tail ms"

text \<open>The members with their values escaped into a buffer that is large enough for every text.\<close>

definition escape_members :: "(string \<times> string) list \<Rightarrow> (string \<times> string) list" where
  "escape_members ms = map (\<lambda>(n, v). (n, the (json_escape_string v (6 * length v + 1)))) ms"

lemma json_escape_string_all: "NUL \<notin> set v \<Longrightarrow> json_escape_string v (Suc (6 * length v)) = Some (escaped v)"
  by (simp add: json_escape_string_def escape_loop_all)

lemma raw_tail_escaped: "list_all (\<lambda>(n, v). NUL \<notin> set v) ms \<Longrightarrow> raw_tail (escape_members ms) = print_tail ms"
  by (induction ms rule: print_tail.induct) (simp_all add: escape_members_def member_def json_escape_string_all)

lemma raw_object_escaped: "list_all (\<lambda>(n, v). NUL \<notin> set v) ms \<Longrightarrow> raw_object (escape_members ms) = print_object ms"
  using raw_tail_escaped
  by (cases ms rule: print_object.cases) (auto simp: escape_members_def member_def json_escape_string_all)

text \<open>The reader for short texts does not undo every escape: a backspace becomes a letter.\<close>

lemma lenient_reader_backspace:
  "json_escape_string [CHR 0x08] 8 = Some [BACKSLASH, CHR ''b'']
   \<and> json_extract_string (raw_object [(''k'', [BACKSLASH, CHR ''b''])]) ''k'' 8 = Some ''b''
   \<and> json_extract_string_strict (raw_object [(''k'', [BACKSLASH, CHR ''b''])]) ''k'' 8 = Text [CHR 0x08]"
  by code_simp


section \<open>Properties\<close>

text \<open>
  The search takes the end of a member's name for a key when an escaped quote stands before it: the
  object with the one member \<open>x"cmd\<close> answers for \<open>cmd\<close>.
\<close>

lemma escaped_name_taken_for_key:
  "json_extract_string_strict (raw_object [(''x'' @ [BACKSLASH, DQ] @ ''cmd'', ''evil'')]) ''cmd'' 8 = Text ''evil''"
  by code_simp

text \<open>
  C17: What the strict reader finds in an object whose member names hold neither a quote nor a
  backslash. The values of the object are escaped with \<open>json_escape_string\<close> and may hold any bytes
  but zero, also quotes, backslashes, control characters and texts that look like the key. The reader
  of a key of 1 to 125 characters, none of them a quote, a backslash, a colon, a comma or a brace,
  then answers that it is absent when no member has that name, with the exact value of the first
  member of that name when it fits, and with an error, never with a part of the value, when it does
  not. The condition on the names is needed: the search does not skip over an escaped quote inside a
  name (\<open>escaped_name_taken_for_key\<close>).
\<close>

theorem json_object_read_exact:
  assumes "key_ok key" "0 < cap" and ms: "list_all (\<lambda>(n, v). list_all plain n \<and> NUL \<notin> set v) ms"
  shows "json_extract_string_strict (raw_object (escape_members ms)) key cap
    = (case map_of ms key of
         None \<Rightarrow> Absent
       | Some v \<Rightarrow> if length v < cap then Text v else Invalid)"
proof -
  have names: "list_all (\<lambda>(n, v). list_all plain n) ms" and vals: "list_all (\<lambda>(n, v). NUL \<notin> set v) ms"
    using ms by (auto simp: list_all_iff)
  note found = find_key_object [OF assms(1) names]
  show ?thesis
  proof (cases "map_of ms key")
    case None
    then show ?thesis using found assms(2) by (simp add: json_extract_string_strict_def raw_object_escaped [OF vals])
  next
    case (Some v)
    then obtain t where t: "find_key key (print_object ms) = Some (DQ # escaped v @ DQ # t)" using found by auto
    have "NUL \<notin> set v" using map_of_SomeD [OF Some] vals by (auto simp: list_all_iff)
    from strict_escaped [OF this, of "[]" cap t] show ?thesis
      using Some t assms(2)
      by (simp add: json_extract_string_strict_def raw_object_escaped [OF vals] isspace_def)
  qed
qed

theorem json_object_read_exact_witness:
  "json_extract_string_strict (raw_object (escape_members
      [(''reason'', ''cmd''), (''a note: {'', [DQ] @ ''cmd'' @ [DQ] @ '':''), (''cmd'', [DQ, CHR 0x01, BACKSLASH])])) ''cmd'' 4
    = Text [DQ, CHR 0x01, BACKSLASH]"
proof -
  let ?ms = "[(''reason'', ''cmd''), (''a note: {'', [DQ] @ ''cmd'' @ [DQ] @ '':''), (''cmd'', [DQ, CHR 0x01, BACKSLASH])]"
  have "key_ok ''cmd''" and "list_all (\<lambda>(n, v). list_all plain n \<and> NUL \<notin> set v) ?ms" by code_simp+
  then show ?thesis using json_object_read_exact [of "''cmd''" 4 ?ms] by simp
qed

end
