(* ===== verification/Dedup_Cache.thy ===== *)
theory Dedup_Cache
  imports L4_Prelude
begin

text \<open>
  Two guards of the desktop agent, \<open>tools/l4desk/src\<close>. \<open>dedup_cache.c\<close> keeps the answers to the last
  256 commands, so that a command that arrives twice is answered and not executed again; its table is
  the list of the 256 entries, and the time is an argument. \<open>input_gate.c\<close> decides whether remote input
  is injected. The cache is refined to a map from commands to answers that loses the answer unused for
  the longest time.
\<close>

section \<open>Definitions of the source\<close>

abbreviation DEDUP_CACHE_SIZE :: nat where "DEDUP_CACHE_SIZE \<equiv> 256"

record CacheEntry =
  ce_command_id :: string
  ce_response_payload :: string
  ce_expires_at_ms :: int
  ce_last_accessed :: int
  ce_in_use :: bool

text \<open>\<open>response_len\<close> is the length of the payload.\<close>

record dedup_cache =
  g_entries :: "CacheEntry list"
  g_cs_init :: bool

definition empty_entry :: CacheEntry where
  "empty_entry = \<lparr>ce_command_id = [], ce_response_payload = [], ce_expires_at_ms = 0,
     ce_last_accessed = 0, ce_in_use = False\<rparr>"

definition dedup_cache_init :: "dedup_cache \<Rightarrow> dedup_cache" where
  "dedup_cache_init g = g\<lparr>g_cs_init := True, g_entries := replicate DEDUP_CACHE_SIZE empty_entry\<rparr>"

definition dedup_cache_cleanup :: "dedup_cache \<Rightarrow> dedup_cache" where
  "dedup_cache_cleanup g = g\<lparr>g_cs_init := False\<rparr>"

definition entry_matches :: "string \<Rightarrow> CacheEntry \<Rightarrow> bool" where
  "entry_matches command_id e \<longleftrightarrow> ce_in_use e \<and> ce_command_id e = command_id"

text \<open>The first entry that satisfies a condition, counted from \<open>i\<close>.\<close>

fun first_entry :: "(CacheEntry \<Rightarrow> bool) \<Rightarrow> nat \<Rightarrow> CacheEntry list \<Rightarrow> nat option" where
  "first_entry ok i [] = None"
| "first_entry ok i (e # es) = (if ok e then Some i else first_entry ok (i + 1) es)"

text \<open>The answer, cut to the buffer of the caller; \<open>None\<close> is the result \<open>false\<close>.\<close>

definition dedup_cache_get :: "string \<Rightarrow> nat \<Rightarrow> int \<Rightarrow> dedup_cache \<Rightarrow> string option \<times> dedup_cache" where
  "dedup_cache_get command_id max_len now g =
     (if max_len = 0 \<or> \<not> g_cs_init g then (None, g)
      else
        (case first_entry (entry_matches command_id) 0 (g_entries g) of
           None \<Rightarrow> (None, g)
         | Some i \<Rightarrow>
             (Some (take (max_len - 1) (ce_response_payload (g_entries g ! i))),
              g\<lparr>g_entries := (g_entries g)[i := (g_entries g ! i)\<lparr>ce_last_accessed := now\<rparr>]\<rparr>)))"

text \<open>The second search of \<open>dedup_cache_put\<close>: a free entry, or the oldest one.\<close>

fun victim_loop :: "nat option \<Rightarrow> int \<Rightarrow> nat \<Rightarrow> CacheEntry list \<Rightarrow> nat option" where
  "victim_loop target oldest i [] = target"
| "victim_loop target oldest i (e # es) =
     (if \<not> ce_in_use e then Some i
      else if ce_last_accessed e < oldest then victim_loop (Some i) (ce_last_accessed e) (i + 1) es
      else victim_loop target oldest (i + 1) es)"

definition put_target :: "string \<Rightarrow> CacheEntry list \<Rightarrow> nat option" where
  "put_target command_id es =
     (case first_entry (entry_matches command_id) 0 es of
        Some i \<Rightarrow> Some i
      | None \<Rightarrow> victim_loop None 0x7FFFFFFF 0 es)"

text \<open>
  \<open>strcpy_s\<close> stops the process when the name does not fit into its 40 characters: the result is then
  \<open>None\<close>.
\<close>

definition dedup_cache_put :: "string \<Rightarrow> string \<Rightarrow> int \<Rightarrow> int \<Rightarrow> dedup_cache \<Rightarrow> dedup_cache option" where
  "dedup_cache_put command_id response expires_at_ms now g =
     (let g = g\<lparr>g_cs_init := True\<rparr> in
      case put_target command_id (g_entries g) of
        None \<Rightarrow> Some g
      | Some i \<Rightarrow>
          if 40 \<le> length command_id then None
          else Some (g\<lparr>g_entries := (g_entries g)[i :=
                 \<lparr>ce_command_id = command_id, ce_response_payload = take 1023 response,
                  ce_expires_at_ms = expires_at_ms, ce_last_accessed = now, ce_in_use = True\<rparr>]\<rparr>))"

record l4d_input_gate_ctx =
  ig_is_desktop_source :: bool
  ig_has_active_lease :: bool
  ig_deadline_tick_ms :: u64
  ig_stream_instance_id :: u64
  ig_expected_stream_id :: u64
  ig_geometry_generation :: u64
  ig_expected_geometry_gen :: u64
  ig_requested_profile :: "string option"
  ig_actual_width :: u16
  ig_actual_height :: u16
  ig_kiosk_mode_enabled :: bool
  ig_kiosk_running :: bool
  ig_kiosk_in_focus :: bool

definition l4d_input_gate_check :: "u64 \<Rightarrow> l4d_input_gate_ctx \<Rightarrow> bool" where
  "l4d_input_gate_check tick ctx =
     (if \<not> ig_is_desktop_source ctx then False
      else if \<not> ig_has_active_lease ctx then False
      else if 0 < ig_deadline_tick_ms ctx \<and> ig_deadline_tick_ms ctx \<le> tick then False
      else if ig_stream_instance_id ctx = 0 \<or> ig_stream_instance_id ctx \<noteq> ig_expected_stream_id ctx then False
      else if ig_geometry_generation ctx \<noteq> ig_expected_geometry_gen ctx then False
      else if ig_requested_profile ctx \<noteq> Some ''low'' then False
      else if ig_actual_width ctx < 320 \<or> ig_actual_height ctx < 240 then False
      else if ig_kiosk_mode_enabled ctx \<and> ig_kiosk_running ctx \<and> \<not> ig_kiosk_in_focus ctx then False
      else True)"

section \<open>The cache as a map\<close>

definition cached :: "dedup_cache \<Rightarrow> string \<Rightarrow> (string \<times> int) option" where
  "cached g command_id =
     map_option (\<lambda>i. (ce_response_payload (g_entries g ! i), ce_last_accessed (g_entries g ! i)))
       (first_entry (entry_matches command_id) 0 (g_entries g))"

definition dedup_wf :: "dedup_cache \<Rightarrow> bool" where
  "dedup_wf g \<longleftrightarrow>
     length (g_entries g) = DEDUP_CACHE_SIZE
     \<and> list_all (\<lambda>e. length (ce_command_id e) < 40 \<and> length (ce_response_payload e) < 1024) (g_entries g)
     \<and> (\<forall>i < DEDUP_CACHE_SIZE. \<forall>j < DEDUP_CACHE_SIZE. ce_in_use (g_entries g ! i) \<longrightarrow> ce_in_use (g_entries g ! j) \<longrightarrow>
          ce_command_id (g_entries g ! i) = ce_command_id (g_entries g ! j) \<longrightarrow> i = j)"

lemma first_entry_None: "first_entry ok k es = None \<longleftrightarrow> (\<forall>e \<in> set es. \<not> ok e)"
  by (induction ok k es rule: first_entry.induct) auto

lemma first_entry_Some: "first_entry ok k es = Some i \<Longrightarrow> k \<le> i \<and> i - k < length es \<and> ok (es ! (i - k))"
proof (induction ok k es rule: first_entry.induct)
  case (2 ok k e es)
  show ?case
  proof (cases "ok e")
    case True
    then show ?thesis using 2 by simp
  next
    case False
    then have "k + 1 \<le> i \<and> i - (k + 1) < length es \<and> ok (es ! (i - (k + 1)))" using 2 by simp
    moreover from this have "i - k = Suc (i - (k + 1))" by auto
    ultimately show ?thesis by simp
  qed
qed simp

lemma first_entry_0: "first_entry ok 0 es = Some i \<Longrightarrow> i < length es \<and> ok (es ! i)"
  using first_entry_Some [of ok 0 es i] by simp

lemma cached_Some:
  assumes "dedup_wf g"
  shows "cached g c = Some (p, t) \<longleftrightarrow>
    (\<exists>i < DEDUP_CACHE_SIZE. entry_matches c (g_entries g ! i) \<and> p = ce_response_payload (g_entries g ! i) \<and> t = ce_last_accessed (g_entries g ! i))"
proof
  assume "cached g c = Some (p, t)"
  then show "\<exists>i < DEDUP_CACHE_SIZE. entry_matches c (g_entries g ! i) \<and> p = ce_response_payload (g_entries g ! i) \<and> t = ce_last_accessed (g_entries g ! i)"
    using first_entry_0 assms by (fastforce simp: cached_def dedup_wf_def)
next
  assume "\<exists>i < DEDUP_CACHE_SIZE. entry_matches c (g_entries g ! i) \<and> p = ce_response_payload (g_entries g ! i) \<and> t = ce_last_accessed (g_entries g ! i)"
  then obtain i where i: "i < DEDUP_CACHE_SIZE" "entry_matches c (g_entries g ! i)" "p = ce_response_payload (g_entries g ! i)"
    "t = ce_last_accessed (g_entries g ! i)" by blast
  have len: "length (g_entries g) = DEDUP_CACHE_SIZE" using assms by (simp add: dedup_wf_def)
  then have "first_entry (entry_matches c) 0 (g_entries g) \<noteq> None"
    using i(1,2) nth_mem unfolding first_entry_None by metis
  then obtain j where j: "first_entry (entry_matches c) 0 (g_entries g) = Some j" by blast
  then have "j < DEDUP_CACHE_SIZE" "entry_matches c (g_entries g ! j)" using first_entry_0 len by metis+
  then have "j = i" using assms i(1,2) unfolding dedup_wf_def entry_matches_def by blast
  then show "cached g c = Some (p, t)" using j i(3,4) by (simp add: cached_def)
qed

lemma cached_None: "cached g c = None \<longleftrightarrow> (\<forall>e \<in> set (g_entries g). \<not> entry_matches c e)"
  by (simp add: cached_def first_entry_None)

section \<open>The entry that is replaced\<close>

lemma victim_free:
  assumes "\<not> list_all ce_in_use es"
  shows "\<exists>j < length es. victim_loop target old i es = Some (i + j) \<and> \<not> ce_in_use (es ! j)"
  using assms
proof (induction target old i es rule: victim_loop.induct)
  case (2 target old i e es)
  show ?case
  proof (cases "ce_in_use e")
    case True
    then obtain j where "j < length es" "victim_loop target old i (e # es) = Some (i + 1 + j)" "\<not> ce_in_use (es ! j)"
      using 2 by (cases "ce_last_accessed e < old") auto
    then show ?thesis by (intro exI [of _ "Suc j"]) simp
  qed auto
qed simp

lemma victim_oldest:
  assumes "list_all ce_in_use es" "victim_loop target old i es = v"
  shows "(v = target \<and> (\<forall>e \<in> set es. old \<le> ce_last_accessed e))
    \<or> (\<exists>j < length es. v = Some (i + j) \<and> ce_last_accessed (es ! j) < old
         \<and> (\<forall>e \<in> set es. ce_last_accessed (es ! j) \<le> ce_last_accessed e))"
  using assms
proof (induction target old i es rule: victim_loop.induct)
  case (2 target old i e es)
  show ?case
  proof (cases "ce_last_accessed e < old")
    case True
    have "v = Some i \<and> (\<forall>x \<in> set es. ce_last_accessed e \<le> ce_last_accessed x)
      \<or> (\<exists>j < length es. v = Some (i + 1 + j) \<and> ce_last_accessed (es ! j) < ce_last_accessed e
         \<and> (\<forall>x \<in> set es. ce_last_accessed (es ! j) \<le> ce_last_accessed x))"
      using 2 True by auto
    then show ?thesis
    proof (elim disjE conjE exE)
      assume "v = Some i" "\<forall>x \<in> set es. ce_last_accessed e \<le> ce_last_accessed x"
      then show ?thesis using True by (intro disjI2 exI [of _ 0]) simp
    next
      fix j
      assume "j < length es" "v = Some (i + 1 + j)" "ce_last_accessed (es ! j) < ce_last_accessed e"
        "\<forall>x \<in> set es. ce_last_accessed (es ! j) \<le> ce_last_accessed x"
      then show ?thesis using True by (intro disjI2 exI [of _ "Suc j"]) simp
    qed
  next
    case False
    have "v = target \<and> (\<forall>x \<in> set es. old \<le> ce_last_accessed x)
      \<or> (\<exists>j < length es. v = Some (i + 1 + j) \<and> ce_last_accessed (es ! j) < old
         \<and> (\<forall>x \<in> set es. ce_last_accessed (es ! j) \<le> ce_last_accessed x))"
      using 2 False by auto
    then show ?thesis
    proof (elim disjE conjE exE)
      assume "v = target" "\<forall>x \<in> set es. old \<le> ce_last_accessed x"
      then show ?thesis using False by simp
    next
      fix j
      assume "j < length es" "v = Some (i + 1 + j)" "ce_last_accessed (es ! j) < old"
        "\<forall>x \<in> set es. ce_last_accessed (es ! j) \<le> ce_last_accessed x"
      then show ?thesis using False by (intro disjI2 exI [of _ "Suc j"]) simp
    qed
  qed
qed simp

lemma option_pair_eqI: "(\<And>p t. a = Some (p, t) \<longleftrightarrow> b = Some (p, t)) \<Longrightarrow> a = b"
  by (cases a; cases b) force+

text \<open>One entry is replaced by the answer to command \<open>c\<close>.\<close>

lemma replace_entry:
  assumes wf: "dedup_wf g" and i: "i < DEDUP_CACHE_SIZE"
    and e: "entry_matches c e" "length c < 40" "length (ce_response_payload e) < 1024"
    and only: "\<forall>j < DEDUP_CACHE_SIZE. j \<noteq> i \<longrightarrow> \<not> entry_matches c (g_entries g ! j)"
    and g': "g_entries g' = (g_entries g)[i := e]"
  shows "dedup_wf g'"
    "cached g' x = (if x = c then Some (ce_response_payload e, ce_last_accessed e)
       else if entry_matches x (g_entries g ! i) then None else cached g x)"
proof -
  have len: "length (g_entries g) = DEDUP_CACHE_SIZE" using wf by (simp add: dedup_wf_def)
  have at: "g_entries g' ! j = (if j = i then e else g_entries g ! j)" if "j < DEDUP_CACHE_SIZE" for j
    using that len i g' by simp
  show wf': "dedup_wf g'"
    unfolding dedup_wf_def
  proof (intro conjI allI impI)
    show "length (g_entries g') = DEDUP_CACHE_SIZE" using len g' by simp
    show "list_all (\<lambda>e. length (ce_command_id e) < 40 \<and> length (ce_response_payload e) < 1024) (g_entries g')"
      using wf len g' e i by (auto simp: dedup_wf_def list_all_length entry_matches_def nth_list_update)
    fix j k
    assume "j < DEDUP_CACHE_SIZE" "k < DEDUP_CACHE_SIZE" "ce_in_use (g_entries g' ! j)" "ce_in_use (g_entries g' ! k)"
      "ce_command_id (g_entries g' ! j) = ce_command_id (g_entries g' ! k)"
    then show "j = k"
      using wf at e(1) only unfolding dedup_wf_def entry_matches_def by (cases "j = i"; cases "k = i") auto
  qed
  have hit: "cached g' x = Some (p, t) \<longleftrightarrow> (\<exists>j < DEDUP_CACHE_SIZE. entry_matches x (if j = i then e else g_entries g ! j)
      \<and> p = ce_response_payload (if j = i then e else g_entries g ! j) \<and> t = ce_last_accessed (if j = i then e else g_entries g ! j))" for p t
    by (simp only: cached_Some [OF wf'] at cong: conj_cong)
  show "cached g' x = (if x = c then Some (ce_response_payload e, ce_last_accessed e)
       else if entry_matches x (g_entries g ! i) then None else cached g x)"
  proof (cases "x = c")
    case True
    have "cached g' c = Some (ce_response_payload e, ce_last_accessed e)"
      unfolding True [symmetric] hit using i e(1) True by (intro exI [of _ i]) simp
    then show ?thesis using True by simp
  next
    case False
    then have "\<not> entry_matches x e" using e(1) by (simp add: entry_matches_def)
    then have other: "cached g' x = Some (p, t) \<longleftrightarrow> (\<exists>j < DEDUP_CACHE_SIZE. j \<noteq> i \<and> entry_matches x (g_entries g ! j)
        \<and> p = ce_response_payload (g_entries g ! j) \<and> t = ce_last_accessed (g_entries g ! j))" for p t
      unfolding hit by auto
    show ?thesis
    proof (cases "entry_matches x (g_entries g ! i)")
      case True
      then have "\<not> entry_matches x (g_entries g ! j)" if "j < DEDUP_CACHE_SIZE" "j \<noteq> i" for j
        using wf that i unfolding dedup_wf_def entry_matches_def by metis
      then have "cached g' x = None" using other by (metis not_None_eq surj_pair)
      then show ?thesis using True False by simp
    next
      case miss: False
      then have "cached g' x = Some (p, t) \<longleftrightarrow> cached g x = Some (p, t)" for p t
        unfolding other cached_Some [OF wf] by metis
      then show ?thesis using False miss option_pair_eqI [of "cached g' x" "cached g x"] by simp
    qed
  qed
qed

lemma put_target_exact:
  assumes wf: "dedup_wf g" and young: "list_all (\<lambda>e. ce_last_accessed e < 0x7FFFFFFF) (g_entries g)"
  obtains i where "put_target c (g_entries g) = Some i" "i < DEDUP_CACHE_SIZE"
    "\<forall>j < DEDUP_CACHE_SIZE. j \<noteq> i \<longrightarrow> \<not> entry_matches c (g_entries g ! j)"
    "entry_matches c (g_entries g ! i) \<or> \<not> ce_in_use (g_entries g ! i)
     \<or> cached g c = None \<and> list_all ce_in_use (g_entries g)
       \<and> (\<forall>e \<in> set (g_entries g). ce_last_accessed (g_entries g ! i) \<le> ce_last_accessed e)"
proof -
  let ?es = "g_entries g"
  have len: "length ?es = DEDUP_CACHE_SIZE" using wf by (simp add: dedup_wf_def)
  show thesis
  proof (cases "first_entry (entry_matches c) 0 ?es")
    case (Some i)
    then have i: "i < DEDUP_CACHE_SIZE" "entry_matches c (?es ! i)" using first_entry_0 len by metis+
    then have "\<forall>j < DEDUP_CACHE_SIZE. j \<noteq> i \<longrightarrow> \<not> entry_matches c (?es ! j)"
      using wf unfolding dedup_wf_def entry_matches_def by metis
    then show thesis using that [of i] Some i by (simp add: put_target_def)
  next
    case None
    then have none: "\<forall>j < DEDUP_CACHE_SIZE. \<not> entry_matches c (?es ! j)" "cached g c = None"
      using len nth_mem unfolding first_entry_None by (metis, simp add: cached_None)
    have "put_target c ?es = victim_loop None 0x7FFFFFFF 0 ?es" using None by (simp add: put_target_def)
    moreover obtain j where "j < DEDUP_CACHE_SIZE" "victim_loop None 0x7FFFFFFF 0 ?es = Some j"
      "\<not> ce_in_use (?es ! j) \<or> list_all ce_in_use ?es \<and> (\<forall>e \<in> set ?es. ce_last_accessed (?es ! j) \<le> ce_last_accessed e)"
    proof (cases "list_all ce_in_use ?es")
      case False
      then show thesis using that victim_free [OF False, of None "0x7FFFFFFF" 0] len by auto
    next
      case True
      have "?es ! 0 \<in> set ?es" using len by simp
      then have "\<not> (\<forall>e \<in> set ?es. 0x7FFFFFFF \<le> ce_last_accessed e)" using young by (fastforce simp: list_all_iff)
      then show thesis using that victim_oldest [OF True refl, of None "0x7FFFFFFF" 0] len True by auto
    qed
    ultimately show thesis using that none by simp
  qed
qed

lemma init_wf: "dedup_wf (dedup_cache_init g)"
  unfolding dedup_wf_def by (simp add: dedup_cache_init_def empty_entry_def list_all_iff)

lemma init_empty: "cached (dedup_cache_init g) c = None"
  by (simp add: cached_None dedup_cache_init_def empty_entry_def entry_matches_def)

text \<open>Reading an answer makes it young again.\<close>

lemma get_refines:
  assumes "dedup_wf g" "g_cs_init g" "0 < max_len"
  shows "fst (dedup_cache_get c max_len now g) = map_option (\<lambda>(p, _). take (max_len - 1) p) (cached g c)"
    "dedup_wf (snd (dedup_cache_get c max_len now g))"
    "cached (snd (dedup_cache_get c max_len now g)) x
       = (if x = c then map_option (\<lambda>(p, _). (p, now)) (cached g c) else cached g x)"
proof -
  have "fst (dedup_cache_get c max_len now g) = map_option (\<lambda>(p, _). take (max_len - 1) p) (cached g c)
    \<and> dedup_wf (snd (dedup_cache_get c max_len now g))
    \<and> cached (snd (dedup_cache_get c max_len now g)) x
       = (if x = c then map_option (\<lambda>(p, _). (p, now)) (cached g c) else cached g x)"
  proof (cases "first_entry (entry_matches c) 0 (g_entries g)")
    case None
    then show ?thesis using assms by (simp add: dedup_cache_get_def cached_def)
  next
    case (Some i)
    let ?e = "(g_entries g ! i)\<lparr>ce_last_accessed := now\<rparr>"
    have len: "length (g_entries g) = DEDUP_CACHE_SIZE" using assms(1) by (simp add: dedup_wf_def)
    then have i: "i < DEDUP_CACHE_SIZE" "entry_matches c (g_entries g ! i)" using first_entry_0 [OF Some] by simp_all
    then have only: "\<forall>j < DEDUP_CACHE_SIZE. j \<noteq> i \<longrightarrow> \<not> entry_matches c (g_entries g ! j)"
      using assms(1) unfolding dedup_wf_def entry_matches_def by metis
    have e: "entry_matches c ?e" "length c < 40" "length (ce_response_payload ?e) < 1024"
      using i assms(1) len by (auto simp: entry_matches_def dedup_wf_def list_all_length)
    let ?g = "g\<lparr>g_entries := (g_entries g)[i := ?e]\<rparr>"
    have r: "dedup_cache_get c max_len now g = (Some (take (max_len - 1) (ce_response_payload (g_entries g ! i))), ?g)"
      using Some assms by (simp add: dedup_cache_get_def)
    have g': "g_entries ?g = (g_entries g)[i := ?e]" by simp
    note new = replace_entry [OF assms(1) i(1) e only g']
    have "cached ?g x = (if x = c then map_option (\<lambda>(p, _). (p, now)) (cached g c) else cached g x)"
      using new(2) [of x] i(2) Some by (auto simp: cached_def entry_matches_def)
    then show ?thesis using r new(1) Some by (simp add: cached_def)
  qed
  then show "fst (dedup_cache_get c max_len now g) = map_option (\<lambda>(p, _). take (max_len - 1) p) (cached g c)"
    "dedup_wf (snd (dedup_cache_get c max_len now g))"
    "cached (snd (dedup_cache_get c max_len now g)) x
       = (if x = c then map_option (\<lambda>(p, _). (p, now)) (cached g c) else cached g x)" by blast+
qed

text \<open>From February 2038 on a full cache stores nothing: no entry is older than the first comparison.\<close>

lemma full_cache_stops:
  assumes "list_all ce_in_use (g_entries g)" "list_all (\<lambda>e. 0x7FFFFFFF \<le> ce_last_accessed e) (g_entries g)" "cached g c = None"
  shows "dedup_cache_put c response expires now g = Some (g\<lparr>g_cs_init := True\<rparr>)"
proof -
  have "first_entry (entry_matches c) 0 (g_entries g) = None" using assms(3) by (simp add: cached_def)
  moreover have "victim_loop None 0x7FFFFFFF 0 (g_entries g) = None"
    using victim_oldest [OF assms(1) refl, of None "0x7FFFFFFF" 0] assms(2) by (fastforce simp: list_all_length)
  ultimately show ?thesis by (simp add: dedup_cache_put_def put_target_def)
qed

lemma victim_bound: "victim_loop target old i es = Some v \<Longrightarrow> target = Some v \<or> i \<le> v \<and> v < i + length es"
  by (induction target old i es rule: victim_loop.induct) (auto split: if_splits)

lemma put_target_only:
  assumes wf: "dedup_wf g" and t: "put_target c (g_entries g) = Some i"
  shows "i < DEDUP_CACHE_SIZE" "\<forall>j < DEDUP_CACHE_SIZE. j \<noteq> i \<longrightarrow> \<not> entry_matches c (g_entries g ! j)"
proof -
  have len: "length (g_entries g) = DEDUP_CACHE_SIZE" using wf by (simp add: dedup_wf_def)
  have "i < DEDUP_CACHE_SIZE \<and> (\<forall>j < DEDUP_CACHE_SIZE. j \<noteq> i \<longrightarrow> \<not> entry_matches c (g_entries g ! j))"
  proof (cases "first_entry (entry_matches c) 0 (g_entries g)")
    case (Some k)
    then have "i = k" using t by (simp add: put_target_def)
    then show ?thesis
      using first_entry_0 [OF Some] len wf unfolding dedup_wf_def entry_matches_def by metis
  next
    case None
    then have "i < DEDUP_CACHE_SIZE" using t victim_bound [of None "0x7FFFFFFF" 0 "g_entries g" i] len by (simp add: put_target_def)
    moreover have "\<not> entry_matches c (g_entries g ! j)" if "j < DEDUP_CACHE_SIZE" for j
      using None that len nth_mem unfolding first_entry_None by metis
    ultimately show ?thesis by blast
  qed
  then show "i < DEDUP_CACHE_SIZE" "\<forall>j < DEDUP_CACHE_SIZE. j \<noteq> i \<longrightarrow> \<not> entry_matches c (g_entries g ! j)" by blast+
qed

lemma put_wf:
  assumes "dedup_wf g" "dedup_cache_put c response expires now g = Some g'"
  shows "dedup_wf g'"
proof (cases "put_target c (g_entries g)")
  case None
  then show ?thesis using assms by (auto simp: dedup_cache_put_def dedup_wf_def)
next
  case (Some i)
  let ?e = "\<lparr>ce_command_id = c, ce_response_payload = take 1023 response, ce_expires_at_ms = expires,
     ce_last_accessed = now, ce_in_use = True\<rparr>"
  have g': "g_entries g' = (g_entries g)[i := ?e]" "length c < 40"
    using assms(2) Some by (auto simp: dedup_cache_put_def Let_def split: if_splits)
  show ?thesis
    by (rule replace_entry(1) [OF assms(1) put_target_only(1) [OF assms(1) Some] _ g'(2) _ put_target_only(2) [OF assms(1) Some] g'(1)])
       (simp_all add: entry_matches_def)
qed

lemma get_wf: "dedup_wf g \<Longrightarrow> dedup_wf (snd (dedup_cache_get c max_len now g))"
  using get_refines(2) [of g max_len c now]
  by (cases "g_cs_init g \<and> 0 < max_len") (auto simp: dedup_cache_get_def)

text \<open>The operations as steps from the initial table, at any times.\<close>

inductive dedup_run :: "dedup_cache \<Rightarrow> bool" where
  dedup_start: "dedup_run (dedup_cache_init g)"
| dedup_got: "dedup_run g \<Longrightarrow> dedup_run (snd (dedup_cache_get c max_len now g))"
| dedup_put: "dedup_run g \<Longrightarrow> dedup_cache_put c response expires now g = Some g' \<Longrightarrow> dedup_run g'"
| dedup_end: "dedup_run g \<Longrightarrow> dedup_run (dedup_cache_cleanup g)"

lemma dedup_run_wf: "dedup_run g \<Longrightarrow> dedup_wf g"
proof (induction rule: dedup_run.induct)
  case (dedup_end g)
  then show ?case by (simp add: dedup_wf_def dedup_cache_cleanup_def)
qed (auto intro: init_wf get_wf put_wf)

section \<open>Properties\<close>

text \<open>
  C20: The table is well formed at all times. After any sequence of its operations it has 256 entries,
  every name is shorter than its 40 characters, every answer shorter than its 1024, and no command
  is in use twice, so that the first match is the only one.
\<close>

theorem dedup_table_type:
  assumes "dedup_run g"
  shows "length (g_entries g) = DEDUP_CACHE_SIZE
    \<and> list_all (\<lambda>e. length (ce_command_id e) < 40 \<and> length (ce_response_payload e) < 1024) (g_entries g)
    \<and> (\<forall>i < DEDUP_CACHE_SIZE. \<forall>j < DEDUP_CACHE_SIZE. entry_matches c (g_entries g ! i) \<longrightarrow> entry_matches c (g_entries g ! j) \<longrightarrow> i = j)"
  using dedup_run_wf [OF assms] unfolding dedup_wf_def entry_matches_def by blast

theorem dedup_table_type_witness:
  "length (g_entries (dedup_cache_init \<lparr>g_entries = [], g_cs_init = False\<rparr>)) = DEDUP_CACHE_SIZE"
  using dedup_table_type [OF dedup_start [of "\<lparr>g_entries = [], g_cs_init = False\<rparr>"]] by blast

text \<open>
  C19: The cache answers repeated commands. On a well formed table, storing the answer to a command of
  fewer than 40 characters makes the cache the same map with the answer, cut to 1023 characters, under
  its command and used now. Reading any command from it then returns exactly what the map has for it,
  cut to the buffer of the caller, marks that answer, and no other, as used at the time of the
  reading, and changes nothing when the command is absent. An answer is given up only when a new
  command meets a full table, and then it is one that was unused for the longest time. The last uses
  in the table lie before the year 2038.
\<close>

theorem dedup_cache_refines:
  assumes wf: "dedup_wf g" and fits: "length c < 40"
    and young: "list_all (\<lambda>e. ce_last_accessed e < 0x7FFFFFFF) (g_entries g)"
  shows "\<exists>g' lost. dedup_cache_put c response expires now g = Some g' \<and> dedup_wf g'
    \<and> (\<forall>x. cached g' x = (if x = c then Some (take 1023 response, now) else if x \<in> lost then None else cached g x))
    \<and> (lost = {} \<or> cached g c = None \<and> list_all ce_in_use (g_entries g)
         \<and> (\<exists>v p t. lost = {v} \<and> cached g v = Some (p, t) \<and> (\<forall>x p' t'. cached g x = Some (p', t') \<longrightarrow> t \<le> t')))
    \<and> (\<forall>x max_len later. 0 < max_len \<longrightarrow>
         fst (dedup_cache_get x max_len later g') = map_option (\<lambda>(p, _). take (max_len - 1) p) (cached g' x)
         \<and> dedup_wf (snd (dedup_cache_get x max_len later g'))
         \<and> (\<forall>y. cached (snd (dedup_cache_get x max_len later g')) y
               = (if y = x then map_option (\<lambda>(p, _). (p, later)) (cached g' x) else cached g' y)))"
proof -
  let ?e = "\<lparr>ce_command_id = c, ce_response_payload = take 1023 response, ce_expires_at_ms = expires,
     ce_last_accessed = now, ce_in_use = True\<rparr>"
  have len: "length (g_entries g) = DEDUP_CACHE_SIZE" using wf by (simp add: dedup_wf_def)
  obtain i where i: "put_target c (g_entries g) = Some i" "i < DEDUP_CACHE_SIZE"
    and only: "\<forall>j < DEDUP_CACHE_SIZE. j \<noteq> i \<longrightarrow> \<not> entry_matches c (g_entries g ! j)"
    and why: "entry_matches c (g_entries g ! i) \<or> \<not> ce_in_use (g_entries g ! i)
     \<or> cached g c = None \<and> list_all ce_in_use (g_entries g)
       \<and> (\<forall>e \<in> set (g_entries g). ce_last_accessed (g_entries g ! i) \<le> ce_last_accessed e)"
    using put_target_exact [OF wf young] by blast
  let ?g = "g\<lparr>g_cs_init := True, g_entries := (g_entries g)[i := ?e]\<rparr>"
  have put: "dedup_cache_put c response expires now g = Some ?g" using i(1) fits by (simp add: dedup_cache_put_def)
  have e: "entry_matches c ?e" "length (ce_response_payload ?e) < 1024" by (simp_all add: entry_matches_def)
  have g': "g_entries ?g = (g_entries g)[i := ?e]" by simp
  note new = replace_entry [OF wf i(2) e(1) fits e(2) only g']
  define lost where "lost = {x. x \<noteq> c \<and> entry_matches x (g_entries g ! i)}"
  have map: "\<forall>x. cached ?g x = (if x = c then Some (take 1023 response, now) else if x \<in> lost then None else cached g x)"
    using new(2) by (simp add: lost_def)
  have "lost = {} \<or> cached g c = None \<and> list_all ce_in_use (g_entries g)
      \<and> (\<exists>v p t. lost = {v} \<and> cached g v = Some (p, t) \<and> (\<forall>x p' t'. cached g x = Some (p', t') \<longrightarrow> t \<le> t'))"
  proof (cases "lost = {}")
    case False
    let ?v = "ce_command_id (g_entries g ! i)"
    have v: "lost = {?v}" "ce_in_use (g_entries g ! i)" "?v \<noteq> c" using False by (auto simp: lost_def entry_matches_def)
    then have oldest: "cached g c = None" "list_all ce_in_use (g_entries g)"
      "\<forall>e \<in> set (g_entries g). ce_last_accessed (g_entries g ! i) \<le> ce_last_accessed e"
      using why by (auto simp: entry_matches_def)
    have "cached g ?v = Some (ce_response_payload (g_entries g ! i), ce_last_accessed (g_entries g ! i))"
      unfolding cached_Some [OF wf] using i(2) v(2) by (intro exI [of _ i]) (simp add: entry_matches_def)
    moreover have "ce_last_accessed (g_entries g ! i) \<le> t'" if "cached g x = Some (p', t')" for x p' t'
      using that oldest(3) len nth_mem unfolding cached_Some [OF wf] by metis
    ultimately show ?thesis using v(1) oldest(1,2) by blast
  qed simp
  moreover have "fst (dedup_cache_get x max_len later ?g) = map_option (\<lambda>(p, _). take (max_len - 1) p) (cached ?g x)
      \<and> dedup_wf (snd (dedup_cache_get x max_len later ?g))
      \<and> (\<forall>y. cached (snd (dedup_cache_get x max_len later ?g)) y
            = (if y = x then map_option (\<lambda>(p, _). (p, later)) (cached ?g x) else cached ?g y))"
    if "0 < max_len" for x max_len later
    using get_refines [OF new(1) _ that] by simp
  ultimately show ?thesis using put new(1) map by blast
qed

theorem dedup_cache_refines_witness:
  "\<exists>g'. dedup_cache_put ''c1'' ''done'' 0 1000 (dedup_cache_init \<lparr>g_entries = [], g_cs_init = False\<rparr>) = Some g'
    \<and> cached g' ''c1'' = Some (''done'', 1000) \<and> fst (dedup_cache_get ''c1'' 64 1001 g') = Some ''done''
    \<and> cached (snd (dedup_cache_get ''c1'' 64 1001 g')) ''c1'' = Some (''done'', 1001)"
proof -
  let ?g = "dedup_cache_init \<lparr>g_entries = [], g_cs_init = False\<rparr>"
  have "list_all (\<lambda>e. ce_last_accessed e < 0x7FFFFFFF) (g_entries ?g)"
    by (simp add: dedup_cache_init_def empty_entry_def list_all_iff)
  from dedup_cache_refines [OF init_wf _ this, of "''c1''" "''done''" 0 1000]
  obtain g' where "dedup_cache_put ''c1'' ''done'' 0 1000 ?g = Some g'" "cached g' ''c1'' = Some (take 1023 ''done'', 1000)"
    "fst (dedup_cache_get ''c1'' 64 1001 g') = map_option (\<lambda>(p, _). take (64 - 1) p) (cached g' ''c1'')"
    "cached (snd (dedup_cache_get ''c1'' 64 1001 g')) ''c1'' = map_option (\<lambda>(p, _). (p, 1001)) (cached g' ''c1'')"
    by auto
  then show ?thesis by auto
qed

end
