(* ===== verification/Spec2Isabelle.thy ===== *)
theory Spec2Isabelle
  imports Ipc_Pipe Utf8_Strict Degrade_Controller Rtcp_Sender Media_Reconcile Ingress_Framing Color_Convert Sql_Validator
    Update_Guard Update_State Catalog_Floor Recovery_Plan Mqtt_Codec Con_Json Dedup_Cache
begin

text \<open>
  Verification of the media path of the etranprocessing repository, the screen capture host
  \<open>src/tools/l4capture\<close> and the media ingress service \<open>src/l4media/ingress\<close>, of the gate of its
  database client, \<open>src/tools/l4sql\<close>, of the journal, the state and the guard its updater rests on,
  \<open>src/tools/l4common\<close>, and of the message formats and caches of its agents, \<open>src/tools/l4con\<close> and \<open>src/tools/l4desk\<close>.

  \<^bold>\<open>The program.\<close> The capture host is started by a supervisor with two inherited pipe handles. It
  receives commands (start, renew, force a key frame, stop), answers with events, captures the
  desktop, encodes H.264 and sends it as RTP. Everything it does is fenced by a lease: a monotonic
  deadline that every command, frame and datagram is checked against. The ingress service accepts
  publishers over TCP, each naming its serial number in a preamble, forwards their RTP and RTCP
  frames to the UDP ports of Janus that its route table names, and writes the RTCP feedback of Janus
  back. Media sessions, started and renewed over HTTP, own ports, a Janus mountpoint and a route for
  as long as their lease lasts.

  \<^bold>\<open>The prelude.\<close> \<open>L4_Prelude\<close> has the machine integers, byte codecs and list lemmas all components
  share, and the interfaces of the development as locales: \<open>step_invariant\<close>, \<open>latch\<close> and \<open>growing\<close>
  for runs of a component, \<open>fixed_codec\<close> for fields of wire formats, \<open>bounded_fifo\<close> for queues. Each
  is interpreted on the model's own operations in the theory of the component that provides it;
  \<open>port_table\<close> in \<open>Ingress_Routes\<close> is the contract of the route table.

  \<^bold>\<open>Capture host\<close> (\<open>src/tools/l4capture\<close>).
  \<open>Capture_Limits\<close>: the admission checks of \<open>src/common/limits.c\<close>, for every width of \<open>size_t\<close>; the
  layout arithmetic is exact or refused, and the memory ledger never exceeds its limit.
  \<open>Capture_Deadline\<close>: the lease of \<open>src/common/deadline.c\<close> and the session time of \<open>clock.c\<close>; the
  lease fails closed on a clock that runs backwards, and once expired it stays so.
  \<open>Capture_Pipeline\<close>: the two-slot frame pipeline of \<open>src/common/pipeline.c\<close>; no frame is lost without
  being counted.
  \<open>Ipc_Protocol\<close>, \<open>Ipc_Stream\<close>, \<open>Utf8_Strict\<close>: \<open>src/ipc/ipc_protocol.c\<close>, the codec of commands and
  events, the incremental parser, which is independent of how the stream is cut, and the strict
  UTF-8 check, compared with the definition of UTF-8.
  \<open>Safety_Gate\<close>: \<open>src/safety/safety_gate.c\<close>, the state machine between commands and everything that
  leaves the host; sending is authorised by a valid lease, stopping is final, key frames are rationed.
  \<open>Ipc_Pipe\<close>: \<open>src/ipc/ipc_pipe.c\<close>, the pipe transport; polling executes the command stream, status
  events leave in order, and a stalled reader is reported exactly when a message that has not
  been written was queued, by the time of its arrival, as long ago as the limit.
  \<open>Video_Profile\<close>, \<open>Degrade_Controller\<close>: \<open>src/pipeline/video_profile.c\<close>, the scheduling headers,
  \<open>telemetry.c\<close> and \<open>degrade_controller.c\<close>; the ladder of quality reductions and its stop rule.
  \<open>Color_Convert\<close>: \<open>src/pipeline/color_convert.c\<close> on an explicit memory of blocks and pointers; the
  planes get exactly the samples of the picture, in both layouts, and nothing else is written.
  \<open>Rtp_Packetizer\<close>, \<open>Rtp_Sender\<close>, \<open>Rtcp_Sender\<close>: \<open>src/network\<close>; a receiver of the packets that
  were sent recovers the NAL units, with the exact condition under which the packetizer leaves its
  buffer; the counters of the session are exact, reports have their prescribed form and rate.

  \<^bold>\<open>Ingress service\<close> (\<open>src/l4media/ingress/src\<close>).
  \<open>Ingress_Feedback\<close>: the connection record and the feedback path of \<open>l4media_ingress.c\<close>; the
  publisher always receives whole frames.
  \<open>C_Text\<close>: the functions of the C library on text that the services and tools call.
  \<open>Media_Text\<close>: the text helpers and the token check of \<open>media_lifecycle.h\<close>.
  \<open>Media_State\<close>: the global variables of the service as one record \<open>server\<close>, and the calls it makes
  (clocks, Janus, Redis, sockets) as a record \<open>services\<close> of functions on a world state of any type.
  \<open>Media_Deadline\<close>: the clocks and the deadlines of the third contract.
  \<open>Ingress_Routes\<close>: the route table and the connections it retargets, refined to a bounded map.
  \<open>Media_Janus\<close>: \<open>media_janus.h\<close>, requests to Janus and how the answers are read.
  \<open>Media_Sessions\<close>: the session table and all handlers of the first contract, step by step.
  \<open>Media_Exclusion\<close>: what the handlers of the first contract guarantee on every history of their
  requests, expiry and restores from Redis, an inductive step relation \<open>session_run\<close>, with concrete
  runs. The starts of the second and third contract (\<open>media_v2.h\<close>, \<open>media_v3.h\<close>), which write the
  same table, are not steps of it.
  \<open>Media_Reconcile\<close>: which routes a reconciliation pass removes.
  \<open>Ingress_Framing\<close>: connections, preamble and frames; forwarding is independent of the reads.

  \<^bold>\<open>Database client\<close> (\<open>src/tools/l4sql\<close>).
  \<open>Sql_Validator\<close>: \<open>sql_validator.c\<close>, the expansion of shortcuts, the tokenizer and the validation of
  a text before it is sent to the server, compared with a grammar of admitted batches.

  \<^bold>\<open>Updater\<close> (\<open>src/tools/l4common\<close>).
  \<open>Update_Guard\<close>: \<open>update_guard.c\<close>, the lock that keeps ordinary work and an update apart, on every
  interleaving of its operations.
  \<open>Update_Journal\<close>: \<open>journal.c\<close> and the reader of \<open>journal_reader.c\<close>, the hash-chained log of an
  operation; appends are atomic and acknowledged records survive a crash at any byte.
  \<open>Update_State\<close>: \<open>update_state.c\<close> and \<open>update_state_store.c\<close>, the published state of an update; its
  transitions follow the protocol of the windows, and a publication that was interrupted is completed
  by repeating it.
  \<open>Update_Catalog\<close>: the search of \<open>catalog.c\<close> for a route of admitted transitions; it finds a shortest
  route whenever there is one, and its errors are exact.
  \<open>Catalog_Floor\<close>: \<open>catalog_floor.c\<close>, the file of accepted catalogs; acceptance never goes back, whatever
  fails.
  \<open>Release_Layout\<close>: \<open>layout.c\<close>, the paths of releases and data; every path stays below the directory it
  is made for, also where a slash separates names, and programs and data are apart.
  \<open>Recovery_Plan\<close>: \<open>recovery_plan.c\<close>, what a rollback is given; the helper reads what was written, and no
  plan makes it run anything but a supervisor of the installation or open its configuration to users.

  \<^bold>\<open>Console agent\<close> (\<open>src/tools/l4con\<close>).
  \<open>Mqtt_Codec\<close>: the packets of \<open>mqtt_protocol.c\<close>; a publication is read as it was built, with the
  metadata of its user properties, whose meaning is given apart from the code, and no packet makes
  the readers leave its bytes. A length computed below zero wraps as \<open>size_t\<close> does (\<open>size_sub\<close>).
  \<open>Con_Json\<close>: its JSON helpers; the strict reader finds exactly the members of an object whose values
  were escaped and whose names need no escape.

  \<^bold>\<open>Desktop agent\<close> (\<open>src/tools/l4desk\<close>).
  \<open>Dedup_Cache\<close>: \<open>dedup_cache.c\<close> and \<open>input_gate.c\<close>; the cache of answers is a map that gives up the answer
  unused for the longest time.

  \<^bold>\<open>Conventions.\<close> A struct is a record with the fields the code reads, an integer of the source is a
  word of its width or an \<open>int\<close> where the code cannot leave its range, a C string is the list of its
  characters, a table with a count is the list of its used entries, a pointer into it an index (a
  connection is named by its epoch). Errors are values: a status datatype, an option or a sum.
  Answers of the operating system and of other processes are arguments, or functions of the world;
  no theorem assumes anything of them beyond its hypotheses, and every theorem with hypotheses has
  a witness at a concrete input. Loops are recursive functions with a termination proof: no fuel is
  used, and every operation of the model is total.

  \<^bold>\<open>What modelling showed.\<close> A start of a media session that fails leaves a record that hides a later
  session of the same name: \<open>failed_start_locks_device\<close>. Reconciliation cuts the connection of the
  route behind the one it removes: \<open>reconcile_cuts_neighbour\<close>. The JSON reader takes a value for a
  name: \<open>json_value_hides_member\<close>. The packetizer writes past its buffer for one size of NAL unit:
  \<open>packetizer_overrun_1198\<close>. The conversion to NV12 accepts a plane one byte too small:
  \<open>nv12_odd_stride_overrun\<close>. The validation of SQL texts lets statements pass behind a permitted call,
  inside a query and behind a nested comment: \<open>call_hides_statement\<close>, \<open>query_hides_call\<close>,
  \<open>nested_comment_hides_statement\<close>. An intent that was never published keeps an update from closing
  its window: \<open>stale_intent_blocks_close\<close>. The connect packet of the console agent is collected in an
  array whose size is not checked: \<open>connect_overruns\<close>. The cache of answers stores nothing more once it is
  full and the year is 2038: \<open>full_cache_stops\<close>. A restore from Redis gives a device a second live
  session: \<open>restore_doubles_device\<close>. The strict JSON reader takes the end of an escaped name for a
  key: \<open>escaped_name_taken_for_key\<close>.

  \<^bold>\<open>Not modelled.\<close> Capture of the screen, encoders and their system libraries; scaling, which is
  floating point; the threads of the capture host's \<open>main.c\<close>; HTTP parsing and the event loop of the
  ingress service; the handlers of the second and third media contract, which validate JSON with a
  library; Redis; the ODBC side of the database client. Of the updater, the signed
  documents and the access rights and services of Windows. Of the two agents, their threads,
  processes and files. The proxy, the installers and the web applications are not modelled.
\<close>

end
